(* ===== verification/Media_Prelude.thy ===== *)
theory Media_Prelude
  imports Main "HOL-Library.Word"
begin

text \<open>
  Shared vocabulary of the development: the machine types of the native code, the
  \<open>status_t\<close> codes, the sorted key-value vector that the services use as their map, the
  interfaces that several components share (a key-value container, a system that runs
  operations under an invariant, an abstraction that every operation respects), and the
  generic list lemmas that the component theories need.
\<close>

section \<open>Machine types and status codes\<close>

type_synonym u8 = "8 word"
type_synonym u16 = "16 word"
type_synonym u32 = "32 word"
type_synonym u64 = "64 word"

text \<open>
  \<open>status_t\<close>. The symbolic codes are distinct values in the platform's \<open>Errors.h\<close>; a code
  that only passes through (the answer of a remote object, the first extra of a
  notification) is a \<open>Status_Code\<close>. \<open>NO_ERROR\<close> and \<open>OK\<close> are the same value.
\<close>

datatype status =
    OK
  | INVALID_OPERATION
  | BAD_VALUE
  | NO_INIT
  | UNKNOWN_ERROR
  | EALREADY
  | EAGAIN
  | ENOENT
  | EBUSY
  | ENOMEM
  | BAD_INDEX
  | BAD_TYPE
  | ALREADY_EXISTS
  | ERROR_IO
  | ERROR_MALFORMED
  | ERROR_OUT_OF_RANGE
  | ERROR_END_OF_STREAM
  | Status_Code int

abbreviation NO_ERROR :: status where
  "NO_ERROR \<equiv> OK"

definition status_of_int :: "int \<Rightarrow> status" where
  "status_of_int n = (if n = 0 then OK else Status_Code n)"

lemma status_of_int_OK [simp]: "status_of_int n = OK \<longleftrightarrow> n = 0"
  by (simp add: status_of_int_def)

section \<open>Signed machine arithmetic\<close>

text \<open>What a conversion to \<open>int32_t\<close> or \<open>int64_t\<close> keeps of a value.\<close>

definition wrap_i32 :: "int \<Rightarrow> int" where
  "wrap_i32 x = (x + 2 ^ 31) mod 2 ^ 32 - 2 ^ 31"

definition wrap_i64 :: "int \<Rightarrow> int" where
  "wrap_i64 x = (x + 2 ^ 63) mod 2 ^ 64 - 2 ^ 63"

lemma wrap_i32_id: "- (2 ^ 31) \<le> x \<Longrightarrow> x < 2 ^ 31 \<Longrightarrow> wrap_i32 x = x"
  by (simp add: wrap_i32_def)

lemma wrap_i64_id: "- (2 ^ 63) \<le> x \<Longrightarrow> x < 2 ^ 63 \<Longrightarrow> wrap_i64 x = x"
  by (simp add: wrap_i64_def)

lemma wrap_i32_nonneg: "0 \<le> x \<Longrightarrow> x < 2147483648 \<Longrightarrow> wrap_i32 x = x"
  by (simp add: wrap_i32_def)

lemma wrap_i32_range: "- (2 ^ 31) \<le> wrap_i32 x" "wrap_i32 x < 2 ^ 31"
  by (simp_all add: wrap_i32_def)

section \<open>Memory regions\<close>

text \<open>
  A region of memory as a list; reading or writing outside it is \<open>None\<close>. A pointer is an
  offset into the region, \<open>None\<close> the null pointer.
\<close>

definition mem_read :: "'b list \<Rightarrow> int option \<Rightarrow> int \<Rightarrow> 'b list option" where
  "mem_read st p n =
     (case p of
        None \<Rightarrow> None
      | Some off \<Rightarrow>
          if 0 \<le> off \<and> 0 \<le> n \<and> off + n \<le> int (length st)
          then Some (take (nat n) (drop (nat off) st)) else None)"

definition mem_write :: "'b list \<Rightarrow> int option \<Rightarrow> 'b list \<Rightarrow> 'b list option" where
  "mem_write st p bs =
     (case p of
        None \<Rightarrow> None
      | Some off \<Rightarrow>
          if 0 \<le> off \<and> off + int (length bs) \<le> int (length st)
          then Some (take (nat off) st @ bs @ drop (nat off + length bs) st) else None)"

lemma length_mem_write: "mem_write st p bs = Some st' \<Longrightarrow> length st' = length st"
  by (auto simp: mem_write_def split: option.splits if_splits)

section \<open>Rings\<close>

text \<open>The elements between two running positions of a ring.\<close>

definition ring_slice :: "'b list \<Rightarrow> nat \<Rightarrow> nat \<Rightarrow> 'b list" where
  "ring_slice st a b = map (\<lambda>k. st ! (k mod length st)) [a..<b]"

lemma length_ring_slice [simp]: "length (ring_slice st a b) = b - a"
  by (simp add: ring_slice_def)

lemma ring_slice_append: "a \<le> b \<Longrightarrow> b \<le> c \<Longrightarrow> ring_slice st a b @ ring_slice st b c = ring_slice st a c"
  unfolding ring_slice_def map_append [symmetric]
  by (metis le_add_diff_inverse upt_add_eq_append)

lemma mod_add_no_wrap:
  fixes a i C :: nat
  assumes "a mod C + i < C"
  shows "(a + i) mod C = a mod C + i"
  using assms by (metis mod_add_left_eq mod_less)

lemma ring_slice_straight:
  assumes "a mod length st + n \<le> length st"
  shows "take n (drop (a mod length st) st) = ring_slice st a (a + n)"
proof (rule nth_equalityI)
  show "length (take n (drop (a mod length st) st)) = length (ring_slice st a (a + n))"
    using assms by simp
  show "take n (drop (a mod length st) st) ! i = ring_slice st a (a + n) ! i"
    if "i < length (take n (drop (a mod length st) st))" for i
    using that assms by (simp add: ring_slice_def mod_add_no_wrap)
qed

lemma ring_slice_write:
  assumes "b mod length st + length bs \<le> length st" and "a \<le> b" and "b + length bs \<le> a + length st"
  defines "st' \<equiv> take (b mod length st) st @ bs @ drop (b mod length st + length bs) st"
  shows "ring_slice st' a (b + length bs) = ring_slice st a b @ bs"
proof -
  let ?C = "length st"
  have len: "length st' = ?C" using assms by simp
  have old: "st' ! (k mod ?C) = st ! (k mod ?C)" if "a \<le> k" "k < b" for k
  proof -
    have "k mod ?C < b mod ?C \<or> b mod ?C + length bs \<le> k mod ?C"
    proof (rule ccontr)
      assume "\<not> ?thesis"
      then have k: "b mod ?C \<le> k mod ?C" "k mod ?C < b mod ?C + length bs" by auto
      define j where "j = k mod ?C - b mod ?C"
      have j: "j < length bs" "k mod ?C = b mod ?C + j" using k by (auto simp: j_def)
      then have j2: "k mod ?C = (b + j) mod ?C" using assms(1) by (simp add: mod_add_no_wrap)
      have "b + j - k < ?C" using that j(1) assms(3) by linarith
      moreover have "?C dvd b + j - k" using j2 that by (subst mod_eq_dvd_iff_nat [symmetric]) auto
      ultimately show False using that by (auto dest: dvd_imp_le)
    qed
    then show ?thesis using assms(1) by (auto simp: st'_def nth_append)
  qed
  have new: "st' ! ((b + i) mod ?C) = bs ! i" if "i < length bs" for i
    using that assms(1) by (simp add: mod_add_no_wrap st'_def nth_append)
  show ?thesis
  proof (rule nth_equalityI)
    show "length (ring_slice st' a (b + length bs)) = length (ring_slice st a b @ bs)" using assms(2) by simp
    show "ring_slice st' a (b + length bs) ! i = (ring_slice st a b @ bs) ! i"
      if "i < length (ring_slice st' a (b + length bs))" for i
      using that old [of "a + i"] new [of "a + i - b"] assms(2)
      by (auto simp: ring_slice_def nth_append len add.commute)
  qed
qed

section \<open>Key-value containers\<close>

text \<open>
  What the services rely on of their maps: looking a key up after an insertion, an edit or
  nothing at all, the keys, and that every operation keeps the container well formed.
\<close>

locale keyed_container =
  fixes wf :: "'m \<Rightarrow> bool"
    and lookup :: "'m \<Rightarrow> 'k \<Rightarrow> 'v option"
    and keys :: "'m \<Rightarrow> 'k set"
    and add :: "'k \<Rightarrow> 'v \<Rightarrow> 'm \<Rightarrow> 'm"
    and edit :: "'k \<Rightarrow> ('v \<Rightarrow> 'v) \<Rightarrow> 'm \<Rightarrow> 'm"
  assumes wf_add: "wf m \<Longrightarrow> wf (add k v m)"
    and wf_edit: "wf m \<Longrightarrow> wf (edit k f m)"
    and lookup_add: "wf m \<Longrightarrow> lookup (add k v m) k' = (if k' = k then Some v else lookup m k')"
    and lookup_edit: "wf m \<Longrightarrow>
          lookup (edit k f m) k' = (if k' = k then map_option f (lookup m k) else lookup m k')"
    and keys_lookup: "wf m \<Longrightarrow> k \<in> keys m \<longleftrightarrow> lookup m k \<noteq> None"
begin

lemma keys_add: "wf m \<Longrightarrow> keys (add k v m) = insert k (keys m)"
  by (auto simp: keys_lookup wf_add lookup_add split: if_splits)

lemma keys_edit: "wf m \<Longrightarrow> keys (edit k f m) = keys m"
  by (auto simp: keys_lookup wf_edit lookup_edit split: if_splits)

text \<open>The "get for edit" idiom: insert a default for a new key, then edit the entry.\<close>

lemma lookup_add_edit_new:
  "wf m \<Longrightarrow> lookup m k = None \<Longrightarrow> lookup (edit k f (add k v m)) k = Some (f v)"
  by (simp add: lookup_edit lookup_add wf_add)

lemma lookup_edit_other:
  "wf m \<Longrightarrow> k' \<noteq> k \<Longrightarrow> lookup (edit k f m) k' = lookup m k'"
  by (simp add: lookup_edit)

end

text \<open>
  \<open>KeyedVector<K, V>\<close> as the services see it: pairs in ascending key order without duplicate
  keys. \<open>add\<close> places a new key in order and replaces the value of a present one,
  \<open>indexOfKey\<close> is the lookup, \<open>editValueFor\<close> gives the stored value for modification.
\<close>

type_synonym ('k, 'v) keyed_vector = "('k \<times> 'v) list"

fun kv_add :: "'k::linorder \<Rightarrow> 'v \<Rightarrow> ('k, 'v) keyed_vector \<Rightarrow> ('k, 'v) keyed_vector" where
  "kv_add k v [] = [(k, v)]"
| "kv_add k v ((k', v') # m) =
     (if k < k' then (k, v) # (k', v') # m
      else if k = k' then (k, v) # m
      else (k', v') # kv_add k v m)"

fun kv_edit :: "'k \<Rightarrow> ('v \<Rightarrow> 'v) \<Rightarrow> ('k, 'v) keyed_vector \<Rightarrow> ('k, 'v) keyed_vector" where
  "kv_edit k f [] = []"
| "kv_edit k f ((k', v) # m) = (if k' = k then (k', f v) # m else (k', v) # kv_edit k f m)"

definition kv_wf :: "('k::linorder, 'v) keyed_vector \<Rightarrow> bool" where
  "kv_wf m \<longleftrightarrow> sorted_wrt (<) (map fst m)"

lemma kv_wf_Nil [simp]: "kv_wf []"
  by (simp add: kv_wf_def)

lemma kv_wf_Cons:
  "kv_wf ((k, v) # m) \<longleftrightarrow> (\<forall>k' \<in> fst ` set m. k < k') \<and> kv_wf m"
  by (simp add: kv_wf_def)

lemma fst_set_kv_add: "fst ` set (kv_add k v m) = insert k (fst ` set m)"
  by (induction k v m rule: kv_add.induct) auto

lemma map_fst_kv_edit [simp]: "map fst (kv_edit k f m) = map fst m"
  by (induction k f m rule: kv_edit.induct) auto

lemma fst_set_kv_edit [simp]: "fst ` set (kv_edit k f m) = fst ` set m"
  by (metis list.set_map map_fst_kv_edit)

lemma kv_wf_add: "kv_wf m \<Longrightarrow> kv_wf (kv_add k v m)"
proof (induction m)
  case Nil
  then show ?case by (simp add: kv_wf_Cons)
next
  case (Cons p m)
  obtain k' v' where p: "p = (k', v')" by (cases p)
  from Cons show ?case
    by (auto simp: p kv_wf_Cons fst_set_kv_add)
qed

lemma kv_wf_edit: "kv_wf (kv_edit k f m) \<longleftrightarrow> kv_wf m"
  by (simp add: kv_wf_def)

lemma map_of_kv_add: "map_of (kv_add k v m) k' = (if k' = k then Some v else map_of m k')"
  by (induction m) auto

lemma map_of_kv_edit:
  "map_of (kv_edit k f m) k' = (if k' = k then map_option f (map_of m k) else map_of m k')"
  by (induction m) auto

interpretation kv: keyed_container kv_wf map_of "\<lambda>m. fst ` set m" kv_add kv_edit
  by unfold_locales
    (auto simp: kv_wf_add kv_wf_edit map_of_kv_add map_of_kv_edit map_of_eq_None_iff)

lemma kv_wf_distinct: "kv_wf m \<Longrightarrow> distinct (map fst m)"
  by (simp add: kv_wf_def strict_sorted_iff)

lemma kv_wf_map_of: "kv_wf m \<Longrightarrow> (k, v) \<in> set m \<longleftrightarrow> map_of m k = Some v"
  by (simp add: kv_wf_distinct)

lemma set_kv_edit:
  assumes "kv_wf m"
  shows "set (kv_edit k f m) = {(k', if k' = k then f v else v) | k' v. (k', v) \<in> set m}"
proof -
  have "(a, b) \<in> set (kv_edit k f m) \<longleftrightarrow> (\<exists>v. (a, v) \<in> set m \<and> b = (if a = k then f v else v))"
    for a b
    using assms by (auto simp: kv_wf_map_of kv_wf_edit map_of_kv_edit)
  then show ?thesis by (simp add: set_eq_iff split_paired_all) blast
qed

section \<open>Systems that run operations under an invariant\<close>

text \<open>
  A stateful component: a set of initial states, a step relation, and an invariant that the
  initial states satisfy and every step keeps. What is reachable is then covered by the
  invariant; components interpret this locale with their own operations.
\<close>

locale invariant_system =
  fixes init :: "'s \<Rightarrow> bool"
    and step :: "'s \<Rightarrow> 's \<Rightarrow> bool"
    and inv :: "'s \<Rightarrow> bool"
  assumes inv_init: "init s \<Longrightarrow> inv s"
    and inv_step: "inv s \<Longrightarrow> step s t \<Longrightarrow> inv t"
begin

lemma inv_steps: "step\<^sup>*\<^sup>* s t \<Longrightarrow> inv s \<Longrightarrow> inv t"
  by (induction rule: rtranclp_induct) (auto intro: inv_step)

lemma reachable_inv: "init s \<Longrightarrow> step\<^sup>*\<^sup>* s t \<Longrightarrow> inv t"
  by (blast intro: inv_init inv_steps)

end

text \<open>
  A component with an abstract view: every step of the component is a step of the abstract
  machine between the views (or leaves the view alone).
\<close>

locale simulated_system = invariant_system +
  fixes view :: "'s \<Rightarrow> 'a"
    and astep :: "'a \<Rightarrow> 'a \<Rightarrow> bool"
  assumes sim_step: "inv s \<Longrightarrow> step s t \<Longrightarrow> view s = view t \<or> astep (view s) (view t)"
begin

lemma sim_steps: "step\<^sup>*\<^sup>* s t \<Longrightarrow> inv s \<Longrightarrow> astep\<^sup>*\<^sup>* (view s) (view t)"
proof (induction rule: rtranclp_induct)
  case base
  show ?case by simp
next
  case (step t u)
  then have "inv t" by (blast intro: inv_steps)
  then have "view t = view u \<or> astep (view t) (view u)" using step.hyps(2) by (rule sim_step)
  with step show ?case by (auto intro: rtranclp.rtrancl_into_rtrancl)
qed

lemma reachable_sim: "init s \<Longrightarrow> step\<^sup>*\<^sup>* s t \<Longrightarrow> astep\<^sup>*\<^sup>* (view s) (view t)"
  by (blast intro: inv_init sim_steps)

end

end
