(* ===== verification/Resource_Manager.thy ===== *)
theory Resource_Manager
  imports Media_Prelude
begin

text \<open>
  The media resource manager (\<open>services/mediaresourcemanager/ResourceManagerService.cpp\<close>,
  with \<open>media/libmedia/MediaResource.cpp\<close>): which process holds which codec or graphic
  memory, and which client has to give its resources back when a process of higher priority
  asks. The state is a \<open>record\<close> with the service's fields; the calls the service makes to
  other processes (cpuset boost, death links, the resource monitor) are recorded in
  \<open>outbox\<close>. What \<open>ProcessInfo\<close> and the service manager answer is the argument
  \<open>rm_env\<close>; what the clients answer when asked to reclaim is a function of the position in
  the list of asked clients. \<open>reclaimResource\<close> works in two critical sections with the
  client calls in between, and is modelled in those parts, so that other operations can run
  between them.
\<close>

section \<open>Data\<close>

datatype res_type = kUnspecified | kSecureCodec | kNonSecureCodec | kGraphicMemory | kCpuBoost

datatype res_subtype = kUnspecifiedSubType | kAudioCodec | kVideoCodec

record media_resource =
  mType :: res_type
  mSubType :: res_subtype
  mValue :: u64

text \<open>\<open>MediaResource(Type type, uint64_t value)\<close>.\<close>

definition mk_resource :: "res_type \<Rightarrow> u64 \<Rightarrow> media_resource" where
  "mk_resource t v = \<lparr>mType = t, mSubType = kUnspecifiedSubType, mValue = v\<rparr>"

type_synonym pid = int
type_synonym client_id = int

text \<open>A client is the identity of its binder object.\<close>

type_synonym client = nat

record resource_info =
  clientId :: client_id
  client :: client
  deathNotifier :: "(pid \<times> client_id) option"
  resources :: "media_resource list"
  cpuBoost :: bool

type_synonym resource_infos = "resource_info list"
type_synonym pid_map = "(pid, resource_infos) keyed_vector"

datatype rm_effect =
    RequestCpusetBoost bool
  | LinkToDeath client "pid \<times> client_id"
  | UnlinkToDeath client "(pid \<times> client_id) option"
  | NotifyResourceGranted pid res_subtype

record resource_manager =
  mMap :: pid_map
  mSupportsMultipleSecureCodecs :: bool
  mSupportsSecureWithNonSecureCodec :: bool
  mCpuBoostCount :: int
  outbox :: "rm_effect list"

text \<open>The answers of \<open>ProcessInfoInterface\<close> and whether the monitor service is registered.\<close>

record rm_env =
  isValidPid :: "pid \<Rightarrow> bool"
  getPriority :: "pid \<Rightarrow> int option"
  monitorRegistered :: bool

section \<open>Operations\<close>

definition new_resource_manager :: resource_manager where
  "new_resource_manager =
     \<lparr>mMap = [], mSupportsMultipleSecureCodecs = True,
      mSupportsSecureWithNonSecureCodec = True, mCpuBoostCount = 0, outbox = []\<rparr>"

fun hasResourceType :: "res_type \<Rightarrow> media_resource list \<Rightarrow> bool" where
  "hasResourceType t [] = False"
| "hasResourceType t (r # rs) = (if mType r = t then True else hasResourceType t rs)"

fun hasResourceType_infos :: "res_type \<Rightarrow> resource_infos \<Rightarrow> bool" where
  "hasResourceType_infos t [] = False"
| "hasResourceType_infos t (i # is) =
     (if hasResourceType t (resources i) then True else hasResourceType_infos t is)"

text \<open>Both "for edit" helpers return the container with the entry present.\<close>

definition getResourceInfosForEdit :: "pid \<Rightarrow> pid_map \<Rightarrow> pid_map" where
  "getResourceInfosForEdit p m = (case map_of m p of None \<Rightarrow> kv_add p [] m | Some _ \<Rightarrow> m)"

fun edit_resource_info ::
  "client_id \<Rightarrow> client \<Rightarrow> (resource_info \<Rightarrow> resource_info) \<Rightarrow> resource_infos \<Rightarrow> resource_infos" where
  "edit_resource_info cid c f [] =
     [f \<lparr>clientId = cid, client = c, deathNotifier = None, resources = [], cpuBoost = False\<rparr>]"
| "edit_resource_info cid c f (i # is) =
     (if clientId i = cid then f i # is else i # edit_resource_info cid c f is)"

fun notify_granted_loop :: "pid \<Rightarrow> media_resource list \<Rightarrow> rm_effect list" where
  "notify_granted_loop p [] = []"
| "notify_granted_loop p (r # rs) =
     (if mSubType r = kAudioCodec then [NotifyResourceGranted p kAudioCodec]
      else if mSubType r = kVideoCodec then [NotifyResourceGranted p kVideoCodec]
      else []) @ notify_granted_loop p rs"

definition notifyResourceGranted :: "rm_env \<Rightarrow> pid \<Rightarrow> media_resource list \<Rightarrow> rm_effect list" where
  "notifyResourceGranted env p rs = (if monitorRegistered env then notify_granted_loop p rs else [])"

text \<open>
  \<open>config\<close>: a policy is its type and value strings. The two type strings are the constants
  of \<open>MediaResourcePolicy.cpp\<close>.
\<close>

definition kPolicySupportsMultipleSecureCodecs :: string where
  "kPolicySupportsMultipleSecureCodecs = ''supports-multiple-secure-codecs''"

definition kPolicySupportsSecureWithNonSecureCodec :: string where
  "kPolicySupportsSecureWithNonSecureCodec = ''supports-secure-with-non-secure-codec''"

fun config :: "(string \<times> string) list \<Rightarrow> resource_manager \<Rightarrow> resource_manager" where
  "config [] s = s"
| "config ((t, v) # ps) s =
     config ps
       (if t = kPolicySupportsMultipleSecureCodecs
        then s\<lparr>mSupportsMultipleSecureCodecs := (v = ''true'')\<rparr>
        else if t = kPolicySupportsSecureWithNonSecureCodec
        then s\<lparr>mSupportsSecureWithNonSecureCodec := (v = ''true'')\<rparr>
        else s)"

text \<open>The loop of \<open>addResource\<close> over the added resources: the boost request and the count.\<close>

fun add_boost_loop ::
  "media_resource list \<Rightarrow> bool \<Rightarrow> int \<Rightarrow> bool \<times> int \<times> rm_effect list" where
  "add_boost_loop [] boost n = (boost, n, [])"
| "add_boost_loop (r # rs) boost n =
     (if mType r = kCpuBoost \<and> \<not> boost
      then (case add_boost_loop rs True (n + 1) of
              (b, n', es) \<Rightarrow> (b, n', RequestCpusetBoost True # es))
      else add_boost_loop rs boost n)"

text \<open>The entry that \<open>getResourceInfoForEdit\<close> returns, before the edit.\<close>

definition getResourceInfoForEdit :: "client_id \<Rightarrow> client \<Rightarrow> resource_infos \<Rightarrow> resource_info" where
  "getResourceInfoForEdit cid c is =
     (case find (\<lambda>i. clientId i = cid) is of
        Some i \<Rightarrow> i
      | None \<Rightarrow> \<lparr>clientId = cid, client = c, deathNotifier = None, resources = [], cpuBoost = False\<rparr>)"

definition addResource ::
  "rm_env \<Rightarrow> pid \<Rightarrow> client_id \<Rightarrow> client \<Rightarrow> media_resource list \<Rightarrow> resource_manager \<Rightarrow> resource_manager" where
  "addResource env p cid c rs s =
     (if \<not> isValidPid env p then s
      else
        (let m = getResourceInfosForEdit p (mMap s);
             infos = the (map_of m p);
             info = getResourceInfoForEdit cid c infos;
             (boost, n, boosts) = add_boost_loop rs (cpuBoost info) (mCpuBoostCount s);
             links = (if deathNotifier info = None then [LinkToDeath c (p, cid)] else []);
             upd = (\<lambda>i. i\<lparr>resources := resources i @ rs, cpuBoost := boost,
                          deathNotifier := (if deathNotifier i = None then Some (p, cid)
                                            else deathNotifier i)\<rparr>)
         in s\<lparr>mMap := kv_edit p (edit_resource_info cid c upd) m,
              mCpuBoostCount := n,
              outbox := outbox s @ boosts @ links @ notifyResourceGranted env p rs\<rparr>))"

text \<open>
  The loop of \<open>removeResource\<close>: the first entry of the client is removed; the count drops
  when the entry was boosted, and the boost is cancelled when it reaches zero.
\<close>

fun remove_loop :: "client_id \<Rightarrow> resource_infos \<Rightarrow> int \<Rightarrow> resource_infos \<times> int \<times> rm_effect list" where
  "remove_loop cid [] n = ([], n, [])"
| "remove_loop cid (i # is) n =
     (if clientId i = cid
      then (let n' = (if cpuBoost i \<and> n > 0 then n - 1 else n);
                es = (if cpuBoost i \<and> n > 0 \<and> n - 1 = 0 then [RequestCpusetBoost False] else [])
            in (is, n', es @ [UnlinkToDeath (client i) (deathNotifier i)]))
      else (case remove_loop cid is n of (is', n', es) \<Rightarrow> (i # is', n', es)))"

definition removeResource_checked ::
  "rm_env \<Rightarrow> pid \<Rightarrow> client_id \<Rightarrow> bool \<Rightarrow> resource_manager \<Rightarrow> resource_manager" where
  "removeResource_checked env p cid checkValid s =
     (if checkValid \<and> \<not> isValidPid env p then s
      else case map_of (mMap s) p of
        None \<Rightarrow> s
      | Some infos \<Rightarrow>
          (case remove_loop cid infos (mCpuBoostCount s) of
             (infos', n, es) \<Rightarrow>
               s\<lparr>mMap := kv_edit p (\<lambda>_. infos') (mMap s), mCpuBoostCount := n,
                 outbox := outbox s @ es\<rparr>))"

definition removeResource :: "rm_env \<Rightarrow> pid \<Rightarrow> client_id \<Rightarrow> resource_manager \<Rightarrow> resource_manager" where
  "removeResource env p cid s = removeResource_checked env p cid True s"

text \<open>\<open>DeathNotifier::binderDied\<close>: the death of a client removes it without the pid check.\<close>

definition binderDied :: "rm_env \<Rightarrow> pid \<times> client_id \<Rightarrow> resource_manager \<Rightarrow> resource_manager" where
  "binderDied env d s = removeResource_checked env (fst d) (snd d) False s"

definition isCallingPriorityHigher_l :: "rm_env \<Rightarrow> pid \<Rightarrow> pid \<Rightarrow> bool" where
  "isCallingPriorityHigher_l env callingPid p =
     (case getPriority env callingPid of
        None \<Rightarrow> False
      | Some cp \<Rightarrow> (case getPriority env p of None \<Rightarrow> False | Some pr \<Rightarrow> cp < pr))"

text \<open>
  \<open>getAllClients_l\<close>: \<open>None\<close> is the return value \<open>false\<close>, \<open>Some cs\<close> is \<open>true\<close> with the
  clients to append.
\<close>

fun all_clients_infos ::
  "rm_env \<Rightarrow> pid \<Rightarrow> res_type \<Rightarrow> pid \<Rightarrow> resource_infos \<Rightarrow> client list option" where
  "all_clients_infos env cp t p [] = Some []"
| "all_clients_infos env cp t p (i # is) =
     (if hasResourceType t (resources i)
      then if \<not> isCallingPriorityHigher_l env cp p then None
           else map_option (\<lambda>cs. client i # cs) (all_clients_infos env cp t p is)
      else all_clients_infos env cp t p is)"

fun getAllClients_l :: "rm_env \<Rightarrow> pid \<Rightarrow> res_type \<Rightarrow> pid_map \<Rightarrow> client list option" where
  "getAllClients_l env cp t [] = Some []"
| "getAllClients_l env cp t ((p, is) # m) =
     (case all_clients_infos env cp t p is of
        None \<Rightarrow> None
      | Some cs \<Rightarrow> map_option (\<lambda>cs'. cs @ cs') (getAllClients_l env cp t m))"

text \<open>The loop of \<open>getLowestPriorityPid_l\<close>, with \<open>-1\<close> for "no process yet" as in the code.\<close>

fun lowest_priority_loop ::
  "rm_env \<Rightarrow> res_type \<Rightarrow> pid_map \<Rightarrow> pid \<Rightarrow> int \<Rightarrow> pid \<times> int" where
  "lowest_priority_loop env t [] p pr = (p, pr)"
| "lowest_priority_loop env t ((tempPid, is) # m) p pr =
     (if is = [] then lowest_priority_loop env t m p pr
      else if \<not> hasResourceType_infos t is then lowest_priority_loop env t m p pr
      else case getPriority env tempPid of
        None \<Rightarrow> lowest_priority_loop env t m p pr
      | Some tempPriority \<Rightarrow>
          if p = -1 \<or> tempPriority > pr then lowest_priority_loop env t m tempPid tempPriority
          else lowest_priority_loop env t m p pr)"

definition getLowestPriorityPid_l :: "rm_env \<Rightarrow> res_type \<Rightarrow> pid_map \<Rightarrow> (pid \<times> int) option" where
  "getLowestPriorityPid_l env t m =
     (case lowest_priority_loop env t m (-1) (-1) of
        (p, pr) \<Rightarrow> if p \<noteq> -1 then Some (p, pr) else None)"

text \<open>The two nested loops of \<open>getBiggestClient_l\<close>: the largest value seen and its owner.\<close>

fun biggest_resource_loop ::
  "res_type \<Rightarrow> client \<Rightarrow> media_resource list \<Rightarrow> u64 \<times> client option \<Rightarrow> u64 \<times> client option" where
  "biggest_resource_loop t c [] acc = acc"
| "biggest_resource_loop t c (r # rs) (largest, best) =
     (if mType r = t
      then if mValue r > largest then biggest_resource_loop t c rs (mValue r, Some c)
           else biggest_resource_loop t c rs (largest, best)
      else biggest_resource_loop t c rs (largest, best))"

fun biggest_client_loop ::
  "res_type \<Rightarrow> resource_infos \<Rightarrow> u64 \<times> client option \<Rightarrow> u64 \<times> client option" where
  "biggest_client_loop t [] acc = acc"
| "biggest_client_loop t (i # is) acc =
     biggest_client_loop t is (biggest_resource_loop t (client i) (resources i) acc)"

definition getBiggestClient_l :: "pid \<Rightarrow> res_type \<Rightarrow> pid_map \<Rightarrow> client option" where
  "getBiggestClient_l p t m =
     (case map_of m p of None \<Rightarrow> None | Some infos \<Rightarrow> snd (biggest_client_loop t infos (0, None)))"

definition getLowestPriorityBiggestClient_l ::
  "rm_env \<Rightarrow> pid \<Rightarrow> res_type \<Rightarrow> pid_map \<Rightarrow> client option" where
  "getLowestPriorityBiggestClient_l env callingPid t m =
     (case getPriority env callingPid of
        None \<Rightarrow> None
      | Some callingPriority \<Rightarrow>
          (case getLowestPriorityPid_l env t m of
             None \<Rightarrow> None
           | Some (lowestPid, lowestPriority) \<Rightarrow>
               if lowestPriority \<le> callingPriority then None
               else getBiggestClient_l lowestPid t m))"

definition getClientForResource_l ::
  "rm_env \<Rightarrow> pid \<Rightarrow> media_resource option \<Rightarrow> pid_map \<Rightarrow> client list \<Rightarrow> client list" where
  "getClientForResource_l env callingPid res m clients =
     (case res of
        None \<Rightarrow> clients
      | Some r \<Rightarrow>
          (case getLowestPriorityBiggestClient_l env callingPid (mType r) m of
             None \<Rightarrow> clients
           | Some c \<Rightarrow> clients @ [c]))"

section \<open>Reclaiming\<close>

text \<open>The requested resource of each kind: the last one of that type in the request.\<close>

fun last_of_type :: "res_type \<Rightarrow> media_resource list \<Rightarrow> media_resource option \<Rightarrow> media_resource option" where
  "last_of_type t [] acc = acc"
| "last_of_type t (r # rs) acc = last_of_type t rs (if mType r = t then Some r else acc)"

text \<open>
  The first pass, secure against non-secure codecs: \<open>None\<close> is the early \<open>return false\<close>.
\<close>

definition reclaim_conflicts ::
  "rm_env \<Rightarrow> pid \<Rightarrow> bool \<Rightarrow> bool \<Rightarrow> resource_manager \<Rightarrow> client list option" where
  "reclaim_conflicts env cp secure nonSecure s =
     (case (if secure \<and> \<not> mSupportsMultipleSecureCodecs s
            then getAllClients_l env cp kSecureCodec (mMap s) else Some []) of
        None \<Rightarrow> None
      | Some c1 \<Rightarrow>
          (case (if secure \<and> \<not> mSupportsSecureWithNonSecureCodec s
                 then getAllClients_l env cp kNonSecureCodec (mMap s) else Some []) of
             None \<Rightarrow> None
           | Some c2 \<Rightarrow>
               (case (if nonSecure \<and> \<not> mSupportsSecureWithNonSecureCodec s
                      then getAllClients_l env cp kSecureCodec (mMap s) else Some []) of
                  None \<Rightarrow> None
                | Some c3 \<Rightarrow> Some (c1 @ c2 @ c3))))"

text \<open>
  The second, third and fourth pass; each runs only while no client has been found: graphic
  memory, a codec of the same type, a codec of the other type.
\<close>

definition reclaim_passes ::
  "rm_env \<Rightarrow> pid \<Rightarrow> media_resource option \<Rightarrow> media_resource option \<Rightarrow> media_resource option \<Rightarrow>
   pid_map \<Rightarrow> client list \<Rightarrow> client list" where
  "reclaim_passes env cp secureCodec nonSecureCodec graphicMemory m clients1 =
     (let clients2 = (if clients1 = [] then getClientForResource_l env cp graphicMemory m clients1
                      else clients1);
          clients3 = (if clients2 = []
                      then getClientForResource_l env cp nonSecureCodec m
                             (getClientForResource_l env cp secureCodec m clients2)
                      else clients2)
      in if clients3 = []
         then (let a = (if secureCodec \<noteq> None
                        then getClientForResource_l env cp (Some (mk_resource kNonSecureCodec 1)) m clients3
                        else clients3)
               in if nonSecureCodec \<noteq> None
                  then getClientForResource_l env cp (Some (mk_resource kSecureCodec 1)) m a
                  else a)
         else clients3)"

text \<open>The first critical section of \<open>reclaimResource\<close>: the clients to ask, in order.\<close>

definition reclaim_select ::
  "rm_env \<Rightarrow> pid \<Rightarrow> media_resource list \<Rightarrow> resource_manager \<Rightarrow> client list option" where
  "reclaim_select env cp rs s =
     (if \<not> isValidPid env cp then None
      else
        (let secureCodec = last_of_type kSecureCodec rs None;
             nonSecureCodec = last_of_type kNonSecureCodec rs None;
             graphicMemory = last_of_type kGraphicMemory rs None
         in map_option (reclaim_passes env cp secureCodec nonSecureCodec graphicMemory (mMap s))
              (reclaim_conflicts env cp (secureCodec \<noteq> None) (nonSecureCodec \<noteq> None) s)))"

text \<open>Asking the clients in order; the first that refuses ends the loop.\<close>

fun reclaim_ask :: "(nat \<Rightarrow> bool) \<Rightarrow> nat \<Rightarrow> client list \<Rightarrow> client option" where
  "reclaim_ask ans i [] = None"
| "reclaim_ask ans i (c # cs) = (if \<not> ans i then Some c else reclaim_ask ans (Suc i) cs)"

text \<open>
  The second critical section: every entry of the client that refused goes from the first
  process that has one.
\<close>

fun remove_failed :: "client \<Rightarrow> pid_map \<Rightarrow> pid_map" where
  "remove_failed c [] = []"
| "remove_failed c ((p, is) # m) =
     (let is' = filter (\<lambda>i. client i \<noteq> c) is
      in if is' \<noteq> is then (p, is') # m else (p, is) # remove_failed c m)"

definition reclaim_cleanup :: "client \<Rightarrow> resource_manager \<Rightarrow> resource_manager" where
  "reclaim_cleanup c s = s\<lparr>mMap := remove_failed c (mMap s)\<rparr>"

definition reclaimResource ::
  "rm_env \<Rightarrow> (nat \<Rightarrow> bool) \<Rightarrow> pid \<Rightarrow> media_resource list \<Rightarrow> resource_manager \<Rightarrow> bool \<times> resource_manager" where
  "reclaimResource env ans cp rs s =
     (case reclaim_select env cp rs s of
        None \<Rightarrow> (False, s)
      | Some clients \<Rightarrow>
          if clients = [] then (False, s)
          else (case reclaim_ask ans 0 clients of
                  None \<Rightarrow> (True, s)
                | Some failedClient \<Rightarrow> (False, reclaim_cleanup failedClient s)))"

section \<open>What the queries compute\<close>

lemma hasResourceType_iff [simp]: "hasResourceType t rs \<longleftrightarrow> (\<exists>r \<in> set rs. mType r = t)"
  by (induction rs) auto

lemma hasResourceType_infos_iff [simp]:
  "hasResourceType_infos t is \<longleftrightarrow> (\<exists>i \<in> set is. hasResourceType t (resources i))"
  by (induction "is") auto

text \<open>The entries of a map that hold a resource type, with their process.\<close>

definition owners :: "res_type \<Rightarrow> pid_map \<Rightarrow> (pid \<times> resource_info) set" where
  "owners t m = {(p, i). \<exists>is. (p, is) \<in> set m \<and> i \<in> set is \<and> hasResourceType t (resources i)}"

lemma owners_Nil [simp]: "owners t [] = {}"
  by (simp add: owners_def)

lemma owners_Cons:
  "owners t ((p, is) # m) =
     {(p, i) | i. i \<in> set is \<and> hasResourceType t (resources i)} \<union> owners t m"
  by (auto simp: owners_def)

lemma all_clients_infos_Some:
  "all_clients_infos env cp t p is = Some cs \<longleftrightarrow>
     cs = map client (filter (\<lambda>i. hasResourceType t (resources i)) is) \<and>
     (\<forall>i \<in> set is. hasResourceType t (resources i) \<longrightarrow> isCallingPriorityHigher_l env cp p)"
  by (induction "is" arbitrary: cs) auto

lemma getAllClients_l_Some:
  assumes "getAllClients_l env cp t m = Some cs"
  shows "set cs = client ` snd ` owners t m \<and>
         (\<forall>(p, i) \<in> owners t m. isCallingPriorityHigher_l env cp p)"
  using assms
proof (induction m arbitrary: cs)
  case Nil
  then show ?case by simp
next
  case (Cons e m)
  obtain p "is" where e: "e = (p, is)" by (cases e)
  from Cons.prems obtain c1 c2 where
    c1: "all_clients_infos env cp t p is = Some c1" and
    c2: "getAllClients_l env cp t m = Some c2" and cs: "cs = c1 @ c2"
    by (auto simp: e split: option.splits)
  from c1 have s1: "set c1 = client ` {i \<in> set is. hasResourceType t (resources i)}"
    and h1: "\<forall>i \<in> set is. hasResourceType t (resources i) \<longrightarrow> isCallingPriorityHigher_l env cp p"
    by (auto simp: all_clients_infos_Some)
  have "snd ` owners t (e # m) = {i \<in> set is. hasResourceType t (resources i)} \<union> snd ` owners t m"
    by (force simp: e owners_Cons)
  with s1 Cons.IH [OF c2] have "set cs = client ` snd ` owners t (e # m)"
    by (simp add: cs image_Un)
  moreover have "\<forall>(q, i) \<in> owners t (e # m). isCallingPriorityHigher_l env cp q"
    using h1 Cons.IH [OF c2] by (auto simp: e owners_Cons)
  ultimately show ?case by simp
qed

lemma getAllClients_l_None:
  "getAllClients_l env cp t m = None \<longleftrightarrow>
     (\<exists>(p, i) \<in> owners t m. \<not> isCallingPriorityHigher_l env cp p)"
proof (induction m)
  case Nil
  then show ?case by simp
next
  case (Cons e m)
  obtain p "is" where e: "e = (p, is)" by (cases e)
  have "all_clients_infos env cp t p is = None \<longleftrightarrow>
          (\<exists>i \<in> set is. hasResourceType t (resources i) \<and> \<not> isCallingPriorityHigher_l env cp p)"
    by (induction "is") auto
  with Cons show ?case
    by (auto simp: e owners_Cons split: option.splits)
qed

text \<open>The processes that hold a type and whose priority is known.\<close>

definition ranked :: "rm_env \<Rightarrow> res_type \<Rightarrow> pid_map \<Rightarrow> (pid \<times> int) set" where
  "ranked env t m =
     {(p, pr). (\<exists>is. (p, is) \<in> set m \<and> hasResourceType_infos t is) \<and> getPriority env p = Some pr}"

lemma ranked_Cons:
  "ranked env t ((p, is) # m) =
     (if hasResourceType_infos t is
      then (case getPriority env p of None \<Rightarrow> {} | Some pr \<Rightarrow> {(p, pr)}) else {}) \<union> ranked env t m"
  by (auto simp: ranked_def split: option.splits)

lemma lowest_priority_loop_spec:
  assumes "-1 \<notin> fst ` set m" and "lowest_priority_loop env t m p0 pr0 = (p, pr)"
  shows "((p, pr) \<in> ranked env t m \<or> (p, pr) = (p0, pr0)) \<and>
         (\<forall>(q, qr) \<in> ranked env t m. qr \<le> pr) \<and> (p0 \<noteq> -1 \<longrightarrow> pr0 \<le> pr) \<and>
         (p = -1 \<longleftrightarrow> p0 = -1 \<and> ranked env t m = {})"
  using assms
proof (induction m arbitrary: p0 pr0)
  case Nil
  then show ?case by (simp add: ranked_def)
next
  case (Cons e m)
  obtain q "is" where e: "e = (q, is)" by (cases e)
  have m: "-1 \<notin> fst ` set m" and q: "q \<noteq> -1" using Cons.prems(1) by (auto simp: e)
  show ?case
  proof (cases "hasResourceType_infos t is \<and> getPriority env q \<noteq> None")
    case False
    then have "lowest_priority_loop env t m p0 pr0 = (p, pr)"
      using Cons.prems(2) by (auto simp: e split: if_splits option.splits)
    from Cons.IH [OF m this] False show ?thesis
      by (auto simp: e ranked_Cons split: option.splits)
  next
    case True
    then obtain qr where qr: "getPriority env q = Some qr" by blast
    from True have ne: "is \<noteq> []" by auto
    show ?thesis
    proof (cases "p0 = -1 \<or> qr > pr0")
      case upd: True
      then have "lowest_priority_loop env t m q qr = (p, pr)"
        using Cons.prems(2) True ne qr by (auto simp: e split: if_splits)
      from Cons.IH [OF m this] True upd q qr show ?thesis
        by (auto simp: e ranked_Cons split: option.splits)
    next
      case keep: False
      then have "lowest_priority_loop env t m p0 pr0 = (p, pr)"
        using Cons.prems(2) True ne qr by (auto simp: e split: if_splits)
      from Cons.IH [OF m this] True keep q qr show ?thesis
        by (auto simp: e ranked_Cons split: option.splits)
    qed
  qed
qed

text \<open>The resources of one type that the entries of a process hold, with their owner.\<close>

definition held :: "res_type \<Rightarrow> resource_infos \<Rightarrow> (client \<times> u64) set" where
  "held t is = {(client i, mValue r) | i r. i \<in> set is \<and> r \<in> set (resources i) \<and> mType r = t}"

lemma held_Nil [simp]: "held t [] = {}"
  by (simp add: held_def)

lemma held_Cons:
  "held t (i # is) = {(client i, mValue r) | r. r \<in> set (resources i) \<and> mType r = t} \<union> held t is"
  by (auto simp: held_def)

lemma biggest_resource_loop_spec:
  assumes "biggest_resource_loop t c rs (v0, b0) = (v, b)"
  shows "v0 \<le> v \<and> (\<forall>r \<in> set rs. mType r = t \<longrightarrow> mValue r \<le> v) \<and>
         ((v, b) = (v0, b0) \<or> v0 < v \<and> b = Some c \<and> (\<exists>r \<in> set rs. mType r = t \<and> mValue r = v))"
  using assms
proof (induction rs arbitrary: v0 b0)
  case Nil
  then show ?case by simp
next
  case (Cons r rs)
  show ?case
  proof (cases "mType r = t \<and> mValue r > v0")
    case True
    with Cons.prems have "biggest_resource_loop t c rs (mValue r, Some c) = (v, b)" by simp
    from Cons.IH [OF this] True show ?thesis by fastforce
  next
    case False
    with Cons.prems have "biggest_resource_loop t c rs (v0, b0) = (v, b)" by (auto split: if_splits)
    from Cons.IH [OF this] False show ?thesis by fastforce
  qed
qed

lemma biggest_client_loop_spec:
  assumes "biggest_client_loop t is (v0, b0) = (v, b)"
  shows "v0 \<le> v \<and> (\<forall>(c, x) \<in> held t is. x \<le> v) \<and>
         ((v, b) = (v0, b0) \<or> v0 < v \<and> (\<exists>c. b = Some c \<and> (c, v) \<in> held t is))"
  using assms
proof (induction "is" arbitrary: v0 b0)
  case Nil
  then show ?case by simp
next
  case (Cons i "is")
  obtain v1 b1 where r: "biggest_resource_loop t (client i) (resources i) (v0, b0) = (v1, b1)"
    by (cases "biggest_resource_loop t (client i) (resources i) (v0, b0)")
  with Cons.prems have "biggest_client_loop t is (v1, b1) = (v, b)" by simp
  from Cons.IH [OF this] biggest_resource_loop_spec [OF r] show ?case
    by (fastforce simp: held_Cons)
qed

lemma biggest_client_Some:
  assumes "snd (biggest_client_loop t is (0, None)) = Some c"
  shows "\<exists>v. (c, v) \<in> held t is \<and> 0 < v \<and> (\<forall>(c', x) \<in> held t is. x \<le> v)"
proof -
  obtain v b where "biggest_client_loop t is (0, None) = (v, b)"
    by (cases "biggest_client_loop t is (0, None)")
  from biggest_client_loop_spec [OF this] assms this show ?thesis by auto
qed

lemma biggest_client_None:
  "snd (biggest_client_loop t is (0, None)) = None \<longleftrightarrow> (\<forall>(c, x) \<in> held t is. x = 0)"
proof -
  obtain v b where l: "biggest_client_loop t is (0, None) = (v, b)"
    by (cases "biggest_client_loop t is (0, None)")
  from biggest_client_loop_spec [OF l] show ?thesis
    by (auto simp: l)
qed

section \<open>Entries, the boost count and the service invariant\<close>

definition rm_entry :: "pid \<Rightarrow> client_id \<Rightarrow> resource_manager \<Rightarrow> resource_info option" where
  "rm_entry p cid s =
     (case map_of (mMap s) p of None \<Rightarrow> None | Some is \<Rightarrow> find (\<lambda>i. clientId i = cid) is)"

text \<open>How many registered entries hold the cpuset boost.\<close>

definition boosted_infos :: "resource_infos \<Rightarrow> int" where
  "boosted_infos is = int (length (filter cpuBoost is))"

definition boosted :: "pid_map \<Rightarrow> int" where
  "boosted m = sum_list (map (\<lambda>e. boosted_infos (snd e)) m)"

definition infos_ok :: "pid \<Rightarrow> resource_infos \<Rightarrow> bool" where
  "infos_ok p is \<longleftrightarrow>
     distinct (map clientId is) \<and> (\<forall>i \<in> set is. deathNotifier i = Some (p, clientId i))"

text \<open>
  The invariant: one vector per process in key order, one entry per client id, every entry
  linked to the death of its own client, and no boosted entry that the count misses.
\<close>

definition rm_inv :: "resource_manager \<Rightarrow> bool" where
  "rm_inv s \<longleftrightarrow>
     kv_wf (mMap s) \<and> (\<forall>(p, is) \<in> set (mMap s). infos_ok p is) \<and> boosted (mMap s) \<le> mCpuBoostCount s"

lemma boosted_simps [simp]:
  "boosted [] = 0"
  "boosted (e # m) = boosted_infos (snd e) + boosted m"
  by (simp_all add: boosted_def)

lemma boosted_infos_simps [simp]:
  "boosted_infos [] = 0"
  "boosted_infos (i # is) = (if cpuBoost i then 1 else 0) + boosted_infos is"
  by (simp_all add: boosted_infos_def)

lemma boosted_infos_nonneg: "0 \<le> boosted_infos is"
  by (simp add: boosted_infos_def)

lemma boosted_nonneg: "0 \<le> boosted m"
  by (induction m) (auto simp: boosted_infos_nonneg)

lemma boosted_kv_add: "map_of m p = None \<Longrightarrow> boosted (kv_add p [] m) = boosted m"
  by (induction p "[]::resource_infos" m rule: kv_add.induct) (auto split: if_splits)

lemma boosted_kv_edit:
  "map_of m p = Some is \<Longrightarrow> boosted (kv_edit p f m) = boosted m - boosted_infos is + boosted_infos (f is)"
  by (induction p f m rule: kv_edit.induct) (auto split: if_splits)

lemma boosted_le: "map_of m p = Some is \<Longrightarrow> boosted_infos is \<le> boosted m"
proof (induction m)
  case (Cons e m)
  then show ?case
    using boosted_nonneg [of m]
    by (cases e) (auto simp: boosted_infos_nonneg split: if_splits intro: add_increasing)
qed simp

lemma add_boost_loop_eq:
  "add_boost_loop rs b n =
     (let on = hasResourceType kCpuBoost rs
      in (b \<or> on, n + (if \<not> b \<and> on then 1 else 0),
          if \<not> b \<and> on then [RequestCpusetBoost True] else []))"
proof (induction rs arbitrary: b n)
  case (Cons r rs)
  then show ?case by (cases b) (auto simp: Let_def)
qed simp

lemma find_edit_resource_info:
  assumes "\<And>i. clientId (f i) = clientId i"
  shows "find (\<lambda>i. clientId i = cid') (edit_resource_info cid c f is) =
     (if cid' = cid then Some (f (getResourceInfoForEdit cid c is)) else find (\<lambda>i. clientId i = cid') is)"
  by (induction "is") (auto simp: getResourceInfoForEdit_def assms)

lemma clientId_getResourceInfoForEdit [simp]:
  "clientId (getResourceInfoForEdit cid c is) = cid"
  by (auto simp: getResourceInfoForEdit_def find_Some_iff split: option.splits)

lemma set_edit_resource_info:
  "set (edit_resource_info cid c f is) \<subseteq> insert (f (getResourceInfoForEdit cid c is)) (set is)"
  by (induction "is") (auto simp: getResourceInfoForEdit_def)

lemma map_clientId_edit:
  assumes "\<And>i. clientId (f i) = clientId i"
  shows "map clientId (edit_resource_info cid c f is) =
     (if cid \<in> set (map clientId is) then map clientId is else map clientId is @ [cid])"
  by (induction "is") (auto simp: assms)

lemma boosted_infos_edit:
  "boosted_infos (edit_resource_info cid c f is) =
     boosted_infos is
     - (if cpuBoost (getResourceInfoForEdit cid c is) then 1 else 0)
     + (if cpuBoost (f (getResourceInfoForEdit cid c is)) then 1 else 0)"
  by (induction "is") (auto simp: getResourceInfoForEdit_def)

lemma getResourceInfoForEdit_notifier:
  "infos_ok p is \<Longrightarrow> deathNotifier (getResourceInfoForEdit cid c is) \<in> {None, Some (p, cid)}"
  by (auto simp: getResourceInfoForEdit_def infos_ok_def find_Some_iff split: option.splits)

lemma infos_ok_edit:
  assumes "infos_ok p is" and "\<And>i. clientId (f i) = clientId i"
    and "deathNotifier (f (getResourceInfoForEdit cid c is)) = Some (p, cid)"
  shows "infos_ok p (edit_resource_info cid c f is)"
  using assms set_edit_resource_info [of cid c f "is"]
  unfolding infos_ok_def by (auto simp: map_clientId_edit assms(2))

lemma map_of_getResourceInfosForEdit:
  "map_of (getResourceInfosForEdit p m) p' =
     (if p' = p then Some (case map_of m p of None \<Rightarrow> [] | Some is \<Rightarrow> is) else map_of m p')"
  by (auto simp: getResourceInfosForEdit_def map_of_kv_add split: option.splits)

lemma kv_wf_getResourceInfosForEdit: "kv_wf m \<Longrightarrow> kv_wf (getResourceInfosForEdit p m)"
  by (auto simp: getResourceInfosForEdit_def kv.wf_add split: option.splits)

lemma boosted_getResourceInfosForEdit [simp]: "boosted (getResourceInfosForEdit p m) = boosted m"
  by (auto simp: getResourceInfosForEdit_def boosted_kv_add split: option.splits)

text \<open>The invariant on the vectors, stated through lookups.\<close>

lemma infos_ok_lookup:
  "kv_wf m \<Longrightarrow>
     (\<forall>(p, is) \<in> set m. infos_ok p is) \<longleftrightarrow> (\<forall>p is. map_of m p = Some is \<longrightarrow> infos_ok p is)"
  by (auto simp: kv_wf_map_of)

lemma rm_inv_lookup:
  "rm_inv s \<longleftrightarrow> kv_wf (mMap s) \<and> (\<forall>p is. map_of (mMap s) p = Some is \<longrightarrow> infos_ok p is) \<and>
     boosted (mMap s) \<le> mCpuBoostCount s"
  unfolding rm_inv_def using infos_ok_lookup by blast

text \<open>The entry after \<open>addResource\<close>.\<close>

definition added_info :: "pid \<Rightarrow> media_resource list \<Rightarrow> resource_info \<Rightarrow> resource_info" where
  "added_info p rs i =
     i\<lparr>resources := resources i @ rs, cpuBoost := (cpuBoost i \<or> hasResourceType kCpuBoost rs),
       deathNotifier := (if deathNotifier i = None then Some (p, clientId i) else deathNotifier i)\<rparr>"

lemma added_info_sel [simp]:
  "clientId (added_info p rs i) = clientId i"
  "client (added_info p rs i) = client i"
  "resources (added_info p rs i) = resources i @ rs"
  "cpuBoost (added_info p rs i) = (cpuBoost i \<or> hasResourceType kCpuBoost rs)"
  by (simp_all add: added_info_def)

lemma edit_resource_info_cong:
  assumes "f (getResourceInfoForEdit cid c is) = g (getResourceInfoForEdit cid c is)"
  shows "edit_resource_info cid c f is = edit_resource_info cid c g is"
  using assms by (induction "is") (auto simp: getResourceInfoForEdit_def split: if_splits)

text \<open>The vector of process \<open>p\<close> before the edit: what is stored, or a new empty vector.\<close>

definition infos_of :: "pid \<Rightarrow> resource_manager \<Rightarrow> resource_infos" where
  "infos_of p s = (case map_of (mMap s) p of None \<Rightarrow> [] | Some is \<Rightarrow> is)"

lemma addResource_eq:
  assumes "isValidPid env p"
  shows "mMap (addResource env p cid c rs s) =
           kv_edit p (\<lambda>_. edit_resource_info cid c (added_info p rs) (infos_of p s))
             (getResourceInfosForEdit p (mMap s))"
    and "mCpuBoostCount (addResource env p cid c rs s) =
           mCpuBoostCount s +
           (if \<not> cpuBoost (getResourceInfoForEdit cid c (infos_of p s)) \<and> hasResourceType kCpuBoost rs
            then 1 else 0)"
proof -
  let ?is = "infos_of p s" and ?m = "getResourceInfosForEdit p (mMap s)"
  have look: "map_of ?m p = Some ?is"
    by (simp add: map_of_getResourceInfosForEdit infos_of_def)
  have edit_const: "kv_edit p f m = kv_edit p (\<lambda>_. f is) m" if "map_of m p = Some is" for f m "is"
    using that by (induction p f m rule: kv_edit.induct) (auto split: if_splits)
  let ?i = "getResourceInfoForEdit cid c ?is"
  let ?upd = "\<lambda>i. i\<lparr>resources := resources i @ rs,
                     cpuBoost := (cpuBoost ?i \<or> hasResourceType kCpuBoost rs),
                     deathNotifier := (if deathNotifier i = None then Some (p, cid)
                                       else deathNotifier i)\<rparr>"
  have "mMap (addResource env p cid c rs s) = kv_edit p (edit_resource_info cid c ?upd) ?m"
    using assms by (simp add: addResource_def Let_def look add_boost_loop_eq)
  also have "\<dots> = kv_edit p (\<lambda>_. edit_resource_info cid c ?upd ?is) ?m"
    by (rule edit_const [OF look])
  also have "edit_resource_info cid c ?upd ?is = edit_resource_info cid c (added_info p rs) ?is"
    by (rule edit_resource_info_cong) (simp add: added_info_def)
  finally show "mMap (addResource env p cid c rs s) =
          kv_edit p (\<lambda>_. edit_resource_info cid c (added_info p rs) ?is) ?m" .
  show "mCpuBoostCount (addResource env p cid c rs s) = mCpuBoostCount s +
          (if \<not> cpuBoost (getResourceInfoForEdit cid c ?is) \<and> hasResourceType kCpuBoost rs then 1 else 0)"
    using assms by (simp add: addResource_def Let_def look add_boost_loop_eq split_beta)
qed

lemma addResource_invalid: "\<not> isValidPid env p \<Longrightarrow> addResource env p cid c rs s = s"
  by (simp add: addResource_def)

lemma infos_of_ok: "rm_inv s \<Longrightarrow> infos_ok p (infos_of p s)"
  by (auto simp: rm_inv_lookup infos_of_def infos_ok_def split: option.splits)

lemma boosted_addResource:
  assumes "isValidPid env p"
  shows "boosted (mMap (addResource env p cid c rs s)) - mCpuBoostCount (addResource env p cid c rs s) =
         boosted (mMap s) - mCpuBoostCount s"
proof -
  have "map_of (getResourceInfosForEdit p (mMap s)) p = Some (infos_of p s)"
    by (simp add: map_of_getResourceInfosForEdit infos_of_def)
  from boosted_kv_edit [OF this] show ?thesis
    by (simp add: addResource_eq [OF assms] boosted_infos_edit)
qed

lemma rm_inv_addResource:
  assumes "rm_inv s"
  shows "rm_inv (addResource env p cid c rs s)"
proof (cases "isValidPid env p")
  case False
  with assms show ?thesis by (simp add: addResource_invalid)
next
  case True
  let ?s = "addResource env p cid c rs s"
  have wf: "kv_wf (getResourceInfosForEdit p (mMap s))"
    using assms by (simp add: rm_inv_def kv_wf_getResourceInfosForEdit)
  have "infos_ok p (edit_resource_info cid c (added_info p rs) (infos_of p s))"
    using getResourceInfoForEdit_notifier [OF infos_of_ok [OF assms], of cid c p]
    by (intro infos_ok_edit infos_of_ok assms) (auto simp: added_info_def)
  then have "infos_ok q is" if "map_of (mMap ?s) q = Some is" for q "is"
    using that assms
    by (auto simp: addResource_eq(1) [OF True] map_of_kv_edit map_of_getResourceInfosForEdit
        rm_inv_lookup split: if_splits)
  moreover have "kv_wf (mMap ?s)"
    by (simp add: addResource_eq(1) [OF True] kv_wf_edit wf)
  moreover have "boosted (mMap ?s) \<le> mCpuBoostCount ?s"
    using boosted_addResource [OF True, of cid c rs s] assms by (simp add: rm_inv_def)
  ultimately show ?thesis by (simp add: rm_inv_lookup)
qed

text \<open>Removal: the loop drops one entry and the count follows the boosted entries.\<close>

lemma remove_loop_spec:
  assumes "remove_loop cid is n = (is', n', es)" and "boosted_infos is \<le> n"
  shows "boosted_infos is' - n' = boosted_infos is - n \<and> set is' \<subseteq> set is \<and>
         (distinct (map clientId is) \<longrightarrow> is' = filter (\<lambda>i. clientId i \<noteq> cid) is)"
  using assms
proof (induction "is" arbitrary: is' n' es)
  case Nil
  then show ?case by simp
next
  case (Cons i "is")
  show ?case
  proof (cases "clientId i = cid")
    case True
    have "filter (\<lambda>j. clientId j \<noteq> cid) is = is" if "cid \<notin> clientId ` set is"
      using that by (auto simp: filter_id_conv)
    with Cons.prems True show ?thesis
      using boosted_infos_nonneg [of "is"] by (auto simp: Let_def split: if_splits)
  next
    case False
    obtain t n1 e1 where r: "remove_loop cid is n = (t, n1, e1)" by (cases "remove_loop cid is n")
    have "boosted_infos is \<le> n" using Cons.prems(2) by (simp split: if_splits)
    from Cons.IH [OF r this] Cons.prems(1) False r show ?thesis by auto
  qed
qed

lemma rm_inv_removeResource_checked:
  assumes "rm_inv s"
  shows "rm_inv (removeResource_checked env p cid b s) \<and>
         boosted (mMap (removeResource_checked env p cid b s))
           - mCpuBoostCount (removeResource_checked env p cid b s)
         = boosted (mMap s) - mCpuBoostCount s"
proof (cases "(b \<longrightarrow> isValidPid env p) \<and> map_of (mMap s) p \<noteq> None")
  case False
  then have "removeResource_checked env p cid b s = s"
    by (auto simp: removeResource_checked_def split: option.splits)
  with assms show ?thesis by simp
next
  case True
  then obtain "is" where look: "map_of (mMap s) p = Some is" by blast
  obtain is' n es where r: "remove_loop cid is (mCpuBoostCount s) = (is', n, es)"
    by (cases "remove_loop cid is (mCpuBoostCount s)")
  let ?s = "removeResource_checked env p cid b s"
  have m: "mMap ?s = kv_edit p (\<lambda>_. is') (mMap s)" and n: "mCpuBoostCount ?s = n"
    using True look r by (auto simp: removeResource_checked_def)
  have "boosted_infos is \<le> mCpuBoostCount s"
    using assms boosted_le [OF look] by (simp add: rm_inv_def)
  note sp = remove_loop_spec [OF r this]
  have ok: "infos_ok p is" using assms look by (simp add: rm_inv_lookup)
  then have "infos_ok p is'"
    using sp by (auto simp: infos_ok_def distinct_map_filter)
  then have "\<forall>q is. map_of (mMap ?s) q = Some is \<longrightarrow> infos_ok q is"
    using assms look by (auto simp: m map_of_kv_edit rm_inv_lookup)
  moreover have "kv_wf (mMap ?s)" using assms by (simp add: m kv_wf_edit rm_inv_def)
  moreover have "boosted (mMap ?s) - mCpuBoostCount ?s = boosted (mMap s) - mCpuBoostCount s"
    using sp by (simp add: m n boosted_kv_edit [OF look])
  moreover have "boosted (mMap s) \<le> mCpuBoostCount s" using assms by (simp add: rm_inv_def)
  ultimately show ?thesis by (simp add: rm_inv_lookup)
qed

lemma remove_failed_keys [simp]: "map fst (remove_failed c m) = map fst m"
  by (induction c m rule: remove_failed.induct) (auto simp: Let_def)

lemma map_of_remove_failed:
  "map_of (remove_failed c m) p = Some is' \<Longrightarrow>
     \<exists>is. map_of m p = Some is \<and> (is' = is \<or> is' = filter (\<lambda>i. client i \<noteq> c) is)"
  by (induction c m rule: remove_failed.induct) (auto simp: Let_def split: if_splits)

lemma boosted_infos_filter: "boosted_infos (filter P is) \<le> boosted_infos is"
  by (induction "is") auto

lemma boosted_remove_failed: "boosted (remove_failed c m) \<le> boosted m"
  by (induction c m rule: remove_failed.induct) (auto simp: Let_def boosted_infos_filter)

lemma rm_inv_reclaim_cleanup:
  assumes "rm_inv s"
  shows "rm_inv (reclaim_cleanup c s)"
proof -
  have "infos_ok p (filter P is)" if "infos_ok p is" for p P "is"
    using that by (auto simp: infos_ok_def distinct_map_filter)
  with assms have "\<forall>p is. map_of (remove_failed c (mMap s)) p = Some is \<longrightarrow> infos_ok p is"
    by (auto simp: rm_inv_lookup dest!: map_of_remove_failed)
  moreover have "kv_wf (remove_failed c (mMap s))"
    using assms by (simp add: rm_inv_def kv_wf_def)
  moreover have "boosted (remove_failed c (mMap s)) \<le> mCpuBoostCount s"
    using assms boosted_remove_failed [of c "mMap s"] by (simp add: rm_inv_def)
  ultimately show ?thesis by (simp add: rm_inv_lookup reclaim_cleanup_def)
qed

lemma config_frame:
  "mMap (config ps s) = mMap s \<and> mCpuBoostCount (config ps s) = mCpuBoostCount s \<and>
   outbox (config ps s) = outbox s"
  by (induction ps s rule: config.induct) (auto split: if_splits)

section \<open>Runs of the service\<close>

text \<open>
  The operations that take the lock, each as one step, with an environment that may change
  from call to call. \<open>rm_step\<close> adds the second critical section of \<open>reclaimResource\<close> for an
  arbitrary refused client: the first one changes nothing, and other operations may run
  between the two.
\<close>

inductive rm_op_step :: "resource_manager \<Rightarrow> resource_manager \<Rightarrow> bool" where
  config: "rm_op_step s (config ps s)"
| add: "rm_op_step s (addResource env p cid c rs s)"
| remove: "rm_op_step s (removeResource env p cid s)"
| died: "rm_op_step s (binderDied env d s)"

inductive rm_step :: "resource_manager \<Rightarrow> resource_manager \<Rightarrow> bool" where
  op: "rm_op_step s t \<Longrightarrow> rm_step s t"
| cleanup: "rm_step s (reclaim_cleanup c s)"

definition rm_exact :: "resource_manager \<Rightarrow> bool" where
  "rm_exact s \<longleftrightarrow> rm_inv s \<and> boosted (mMap s) = mCpuBoostCount s"

lemma rm_exact_new: "rm_exact new_resource_manager"
  by (simp add: rm_exact_def rm_inv_def new_resource_manager_def)

lemma rm_op_step_inv:
  assumes "rm_op_step s t" and "rm_inv s"
  shows "rm_inv t \<and> boosted (mMap t) - mCpuBoostCount t = boosted (mMap s) - mCpuBoostCount s"
  using assms
proof (cases rule: rm_op_step.cases)
  case (config ps)
  with assms(2) config_frame [of ps s] show ?thesis by (simp add: rm_inv_def)
next
  case (add env p cid c rs)
  show ?thesis
  proof (cases "isValidPid env p")
    case True
    with add assms(2) show ?thesis
      using boosted_addResource [OF True, of cid c rs s] rm_inv_addResource [OF assms(2)] by auto
  qed (use add assms(2) in \<open>simp add: addResource_invalid\<close>)
next
  case (remove env p cid)
  with rm_inv_removeResource_checked [OF assms(2)] show ?thesis by (simp add: removeResource_def)
next
  case (died env d)
  with rm_inv_removeResource_checked [OF assms(2)] show ?thesis by (simp add: binderDied_def)
qed

interpretation rm: invariant_system "\<lambda>s. s = new_resource_manager" rm_step rm_inv
proof
  fix s t
  show "s = new_resource_manager \<Longrightarrow> rm_inv s" using rm_exact_new by (simp add: rm_exact_def)
  show "rm_inv s \<Longrightarrow> rm_step s t \<Longrightarrow> rm_inv t"
    by (auto elim!: rm_step.cases dest: rm_op_step_inv rm_inv_reclaim_cleanup)
qed

interpretation rm_ops: invariant_system "\<lambda>s. s = new_resource_manager" rm_op_step rm_exact
proof
  fix s t
  show "s = new_resource_manager \<Longrightarrow> rm_exact s" by (simp add: rm_exact_new)
  show "rm_exact s \<Longrightarrow> rm_op_step s t \<Longrightarrow> rm_exact t"
    by (auto simp: rm_exact_def dest: rm_op_step_inv)
qed

section \<open>Who may be asked to give resources back\<close>

text \<open>A client of a process whose priority number is greater (a less important process).\<close>

definition lower_priority_owner :: "rm_env \<Rightarrow> pid \<Rightarrow> resource_manager \<Rightarrow> client \<Rightarrow> bool" where
  "lower_priority_owner env cp s c \<longleftrightarrow>
     (\<exists>t \<in> {kSecureCodec, kNonSecureCodec, kGraphicMemory}. \<exists>(p, i) \<in> owners t (mMap s).
        client i = c \<and> isCallingPriorityHigher_l env cp p)"

lemma lower_priority_ownerI:
  "\<lbrakk>t \<in> {kSecureCodec, kNonSecureCodec, kGraphicMemory}; (p, i) \<in> owners t (mMap s);
    client i = c; isCallingPriorityHigher_l env cp p\<rbrakk> \<Longrightarrow> lower_priority_owner env cp s c"
  by (auto simp: lower_priority_owner_def)

lemma getAllClients_l_lower:
  assumes "getAllClients_l env cp t (mMap s) = Some cs" and "c \<in> set cs"
    and "t \<in> {kSecureCodec, kNonSecureCodec, kGraphicMemory}"
  shows "lower_priority_owner env cp s c"
proof -
  from getAllClients_l_Some [OF assms(1)] assms(2) obtain p i
    where "(p, i) \<in> owners t (mMap s)" "client i = c" "isCallingPriorityHigher_l env cp p"
    by fastforce
  with assms(3) show ?thesis by (blast intro: lower_priority_ownerI)
qed

lemma reclaim_conflicts_lower:
  assumes "reclaim_conflicts env cp a b s = Some cs" and "c \<in> set cs"
  shows "lower_priority_owner env cp s c"
  using assms getAllClients_l_lower
  by (auto simp: reclaim_conflicts_def split: option.splits if_splits)

lemma getLowestPriorityPid_l_spec:
  assumes "-1 \<notin> fst ` set m"
  shows "(case getLowestPriorityPid_l env t m of
            None \<Rightarrow> ranked env t m = {}
          | Some (p, pr) \<Rightarrow> (p, pr) \<in> ranked env t m \<and> (\<forall>(q, qr) \<in> ranked env t m. qr \<le> pr))"
proof -
  obtain p pr where l: "lowest_priority_loop env t m (-1) (-1) = (p, pr)"
    by (cases "lowest_priority_loop env t m (-1) (-1)")
  from lowest_priority_loop_spec [OF assms l] show ?thesis
    by (auto simp: getLowestPriorityPid_l_def l split: if_splits)
qed

lemma getLowestPriorityBiggestClient_l_lower:
  assumes "getLowestPriorityBiggestClient_l env cp t (mMap s) = Some c"
    and "-1 \<notin> fst ` set (mMap s)" and "t \<in> {kSecureCodec, kNonSecureCodec, kGraphicMemory}"
  shows "lower_priority_owner env cp s c"
proof -
  from assms(1) obtain cpr p pr "is" where
    cpr: "getPriority env cp = Some cpr" and low: "getLowestPriorityPid_l env t (mMap s) = Some (p, pr)"
    and lt: "cpr < pr" and look: "map_of (mMap s) p = Some is"
    and big: "snd (biggest_client_loop t is (0, None)) = Some c"
    by (auto simp: getLowestPriorityBiggestClient_l_def getBiggestClient_l_def
        split: option.splits if_splits)
  from getLowestPriorityPid_l_spec [OF assms(2), of env t] low
  have "getPriority env p = Some pr" by (auto simp: ranked_def)
  with cpr lt have hi: "isCallingPriorityHigher_l env cp p"
    by (simp add: isCallingPriorityHigher_l_def)
  from biggest_client_Some [OF big] obtain i r
    where "i \<in> set is" "client i = c" "r \<in> set (resources i)" "mType r = t"
    by (auto simp: held_def)
  with look have "(p, i) \<in> owners t (mMap s)"
    by (auto simp: owners_def dest: map_of_SomeD)
  with hi assms(3) \<open>client i = c\<close> show ?thesis by (blast intro: lower_priority_ownerI)
qed

lemma getClientForResource_l_lower:
  assumes "\<forall>c \<in> set cs. lower_priority_owner env cp s c" and "-1 \<notin> fst ` set (mMap s)"
    and "\<And>r. res = Some r \<Longrightarrow> mType r \<in> {kSecureCodec, kNonSecureCodec, kGraphicMemory}"
  shows "\<forall>c \<in> set (getClientForResource_l env cp res (mMap s) cs). lower_priority_owner env cp s c"
  using assms getLowestPriorityBiggestClient_l_lower
  by (auto simp: getClientForResource_l_def split: option.splits if_splits)

lemma reclaim_passes_lower:
  assumes "\<forall>c \<in> set cs. lower_priority_owner env cp s c" and "-1 \<notin> fst ` set (mMap s)"
    and "\<And>r. sec = Some r \<Longrightarrow> mType r = kSecureCodec"
    and "\<And>r. non = Some r \<Longrightarrow> mType r = kNonSecureCodec"
    and "\<And>r. gra = Some r \<Longrightarrow> mType r = kGraphicMemory"
  shows "\<forall>c \<in> set (reclaim_passes env cp sec non gra (mMap s) cs). lower_priority_owner env cp s c"
proof -
  note one = getClientForResource_l_lower [OF _ assms(2)]
  show ?thesis
    unfolding reclaim_passes_def Let_def
    by (intro if_split [where P = "\<lambda>x. \<forall>c \<in> set x. lower_priority_owner env cp s c", THEN iffD2]
        conjI impI one)
      (auto simp: assms mk_resource_def)
qed

lemma last_of_type_type:
  "last_of_type t rs acc = Some r \<Longrightarrow> (\<And>x. acc = Some x \<Longrightarrow> mType x = t) \<Longrightarrow> mType r = t"
  by (induction rs arbitrary: acc) (auto split: if_splits)

lemma reclaim_select_lower:
  assumes "reclaim_select env cp rs s = Some cs" and "-1 \<notin> fst ` set (mMap s)"
  shows "\<forall>c \<in> set cs. lower_priority_owner env cp s c"
proof -
  from assms(1) obtain c1 where
    c1: "reclaim_conflicts env cp (last_of_type kSecureCodec rs None \<noteq> None)
           (last_of_type kNonSecureCodec rs None \<noteq> None) s = Some c1" and
    cs: "cs = reclaim_passes env cp (last_of_type kSecureCodec rs None)
           (last_of_type kNonSecureCodec rs None) (last_of_type kGraphicMemory rs None) (mMap s) c1"
    by (auto simp: reclaim_select_def Let_def split: if_splits)
  have ty: "mType r = t" if "last_of_type t rs None = Some r" for t r
    using last_of_type_type [OF that] by simp
  show ?thesis
    unfolding cs using reclaim_conflicts_lower [OF c1]
    by (intro reclaim_passes_lower ballI assms(2)) (auto intro: ty)
qed

lemma reclaim_ask_None: "reclaim_ask ans i cs = None \<longleftrightarrow> (\<forall>k < length cs. ans (i + k))"
proof (induction cs arbitrary: i)
  case (Cons c cs)
  have "(\<forall>k < length (c # cs). ans (i + k)) \<longleftrightarrow> ans i \<and> (\<forall>k < length cs. ans (Suc i + k))"
    by (auto simp: less_Suc_eq_0_disj)
  with Cons show ?case by simp
qed simp

lemma reclaim_ask_Some:
  "reclaim_ask ans i cs = Some c \<Longrightarrow>
     \<exists>k < length cs. c = cs ! k \<and> \<not> ans (i + k) \<and> (\<forall>j < k. ans (i + j))"
proof (induction cs arbitrary: i)
  case (Cons d cs)
  show ?case
  proof (cases "ans i")
    case False
    with Cons.prems show ?thesis by (auto intro: exI [of _ 0])
  next
    case True
    with Cons obtain k where "k < length cs" "c = cs ! k" "\<not> ans (Suc i + k)" "\<forall>j < k. ans (Suc i + j)"
      by fastforce
    with True show ?thesis
      by (intro exI [of _ "Suc k"]) (auto simp: less_Suc_eq_0_disj)
  qed
qed simp

lemma rm_entry_infos_of: "rm_entry p cid s = find (\<lambda>i. clientId i = cid) (infos_of p s)"
  by (simp add: rm_entry_def infos_of_def split: option.splits)

lemma rm_entry_addResource:
  assumes "isValidPid env p"
  shows "rm_entry q d (addResource env p cid c rs s) =
           (if (q, d) = (p, cid)
            then Some (added_info p rs (getResourceInfoForEdit cid c (infos_of p s)))
            else rm_entry q d s)"
proof -
  have "infos_of q (addResource env p cid c rs s) =
          (if q = p then edit_resource_info cid c (added_info p rs) (infos_of p s) else infos_of q s)"
    by (simp add: infos_of_def addResource_eq(1) [OF assms] map_of_kv_edit
        map_of_getResourceInfosForEdit split: option.splits)
  then show ?thesis
    by (auto simp: rm_entry_infos_of find_edit_resource_info)
qed

lemma find_filter_clientId:
  "find (\<lambda>i. clientId i = d) (filter (\<lambda>i. clientId i \<noteq> cid) is) =
     (if d = cid then None else find (\<lambda>i. clientId i = d) is)"
  by (induction "is") auto

lemma rm_entry_removeResource_checked:
  assumes "rm_inv s" and "b \<longrightarrow> isValidPid env p"
  shows "rm_entry q d (removeResource_checked env p cid b s) =
           (if (q, d) = (p, cid) then None else rm_entry q d s)"
proof (cases "map_of (mMap s) p")
  case None
  with assms show ?thesis by (auto simp: removeResource_checked_def rm_entry_def)
next
  case (Some "is")
  obtain is' n es where r: "remove_loop cid is (mCpuBoostCount s) = (is', n, es)"
    by (cases "remove_loop cid is (mCpuBoostCount s)")
  have "boosted_infos is \<le> mCpuBoostCount s"
    using assms(1) boosted_le [OF Some] by (simp add: rm_inv_def)
  moreover have "distinct (map clientId is)"
    using assms(1) Some by (auto simp: rm_inv_lookup infos_ok_def)
  ultimately have is': "is' = filter (\<lambda>i. clientId i \<noteq> cid) is"
    using remove_loop_spec [OF r] by blast
  show ?thesis
    using assms(2) by (auto simp: removeResource_checked_def Some r rm_entry_def map_of_kv_edit is'
        find_filter_clientId split: option.splits)
qed

text \<open>A device with two processes: pid 10 (priority 100) and pid 20 (priority 1).\<close>

definition rm_demo_env :: rm_env where
  "rm_demo_env =
     \<lparr>isValidPid = (\<lambda>p. p > 0), getPriority = (\<lambda>p. if p = 10 then Some 100 else if p = 20 then Some 1 else None),
      monitorRegistered = True\<rparr>"

definition rm_demo :: resource_manager where
  "rm_demo =
     addResource rm_demo_env 10 1 7
       [mk_resource kNonSecureCodec 1, mk_resource kGraphicMemory 64, mk_resource kCpuBoost 1]
       new_resource_manager"

lemmas rm_eval = rm_demo_def rm_demo_env_def mk_resource_def new_resource_manager_def addResource_def
  getResourceInfosForEdit_def getResourceInfoForEdit_def notifyResourceGranted_def

lemma rm_demo_map:
  "mMap rm_demo =
     [(10, [\<lparr>clientId = 1, client = 7, deathNotifier = Some (10, 1),
             resources = [mk_resource kNonSecureCodec 1, mk_resource kGraphicMemory 64, mk_resource kCpuBoost 1],
             cpuBoost = True\<rparr>])]"
  by (simp add: rm_eval)

lemmas rm_select_eval = rm_demo_map rm_demo_env_def reclaim_select_def reclaim_conflicts_def
  reclaim_passes_def getClientForResource_l_def getLowestPriorityBiggestClient_l_def
  getLowestPriorityPid_l_def getBiggestClient_l_def mk_resource_def

section \<open>Properties\<close>

text \<open>
  C1: Reclaim safety. Whatever passes of \<open>reclaimResource\<close> select clients, every client that is
  asked to give its resources back holds a codec or graphic memory in a process whose
  priority is known and strictly lower than the caller's; when the call returns \<open>true\<close> some
  client was asked and all of them agreed, and nothing was removed from the map.
\<close>

theorem rm_reclaim_safe:
  assumes "-1 \<notin> fst ` set (mMap s)" and "reclaimResource env ans cp rs s = (ok, s')"
  shows "(\<forall>cs. reclaim_select env cp rs s = Some cs \<longrightarrow>
            (\<forall>c \<in> set cs. lower_priority_owner env cp s c)) \<and>
         (ok \<longrightarrow> s' = s \<and> (\<exists>cs. reclaim_select env cp rs s = Some cs \<and> cs \<noteq> [] \<and>
            (\<forall>k < length cs. ans k)))"
proof -
  have "ok \<longrightarrow> s' = s \<and> (\<exists>cs. reclaim_select env cp rs s = Some cs \<and> cs \<noteq> [] \<and> (\<forall>k < length cs. ans k))"
    using assms(2)
    by (auto simp: reclaimResource_def reclaim_ask_None split: option.splits if_splits)
  with reclaim_select_lower [OF _ assms(1)] show ?thesis by blast
qed

theorem rm_reclaim_safe_witness:
  "reclaimResource rm_demo_env (\<lambda>_. True) 20 [mk_resource kGraphicMemory 8] rm_demo = (True, rm_demo) \<and>
   reclaim_select rm_demo_env 20 [mk_resource kGraphicMemory 8] rm_demo = Some [7] \<and>
   lower_priority_owner rm_demo_env 20 rm_demo 7"
proof -
  have sel: "reclaim_select rm_demo_env 20 [mk_resource kGraphicMemory 8] rm_demo = Some [7]"
    by (simp add: rm_select_eval)
  then have r: "reclaimResource rm_demo_env (\<lambda>_. True) 20 [mk_resource kGraphicMemory 8] rm_demo = (True, rm_demo)"
    by (simp add: reclaimResource_def)
  have "-1 \<notin> fst ` set (mMap rm_demo)" by (simp add: rm_demo_map)
  from rm_reclaim_safe [OF this r] sel r show ?thesis by auto
qed

text \<open>
  \<open>getLowestPriorityPid_l\<close> is exact: it fails only when no process with a known priority
  holds the type, and otherwise returns such a process together with the largest priority
  number among them.
\<close>

theorem rm_lowest_priority_exact:
  assumes "-1 \<notin> fst ` set m"
  shows "(getLowestPriorityPid_l env t m = None \<longleftrightarrow> ranked env t m = {}) \<and>
         (\<forall>p pr. getLowestPriorityPid_l env t m = Some (p, pr) \<longrightarrow>
            (p, pr) \<in> ranked env t m \<and> (\<forall>(q, qr) \<in> ranked env t m. qr \<le> pr))"
  using getLowestPriorityPid_l_spec [OF assms, of env t] by (auto split: option.splits)

theorem rm_lowest_priority_exact_witness:
  "getLowestPriorityPid_l rm_demo_env kNonSecureCodec (mMap rm_demo) = Some (10, 100) \<and>
   (10, 100) \<in> ranked rm_demo_env kNonSecureCodec (mMap rm_demo)"
proof -
  have "-1 \<notin> fst ` set (mMap rm_demo)" by (simp add: rm_demo_map)
  moreover have "getLowestPriorityPid_l rm_demo_env kNonSecureCodec (mMap rm_demo) = Some (10, 100)"
    by (simp add: rm_select_eval)
  ultimately show ?thesis
    using rm_lowest_priority_exact [of "mMap rm_demo" rm_demo_env kNonSecureCodec] by blast
qed

text \<open>
  \<open>getBiggestClient_l\<close> is exact: it returns a client whose resource of the type is positive
  and the largest in the process, and it fails only when the process is unknown or holds no
  positive amount of the type.
\<close>

theorem rm_biggest_client_exact:
  "(getBiggestClient_l p t m = None \<longleftrightarrow>
      (\<forall>is. map_of m p = Some is \<longrightarrow> (\<forall>(c, x) \<in> held t is. x = 0))) \<and>
   (\<forall>c. getBiggestClient_l p t m = Some c \<longrightarrow>
      (\<exists>is v. map_of m p = Some is \<and> (c, v) \<in> held t is \<and> 0 < v \<and> (\<forall>(c', x) \<in> held t is. x \<le> v)))"
  unfolding getBiggestClient_l_def
  using biggest_client_None [of t] biggest_client_Some [of t]
  by (auto split: option.splits)

theorem rm_biggest_client_exact_witness:
  "getBiggestClient_l 10 kGraphicMemory (mMap rm_demo) = Some 7 \<and>
   (\<exists>is. map_of (mMap rm_demo) 10 = Some is \<and> (\<exists>v. (7, v) \<in> held kGraphicMemory is \<and> 0 < v))"
proof -
  have "getBiggestClient_l 10 kGraphicMemory (mMap rm_demo) = Some 7"
    by (simp add: rm_select_eval)
  with rm_biggest_client_exact [of 10 kGraphicMemory "mMap rm_demo"] show ?thesis by blast
qed



text \<open>
  C32: As long as no reclaim is refused, the boost count is exact: it is the number of
  registered entries that hold the boost.
\<close>

theorem rm_boost_count_exact:
  "rm_op_step\<^sup>*\<^sup>* new_resource_manager s \<Longrightarrow> mCpuBoostCount s = boosted (mMap s)"
  using rm_ops.reachable_inv [OF refl] by (simp add: rm_exact_def)

theorem rm_boost_count_exact_witness:
  "rm_op_step\<^sup>*\<^sup>* new_resource_manager rm_demo \<and> mCpuBoostCount rm_demo = boosted (mMap rm_demo) \<and>
   boosted (mMap rm_demo) = 1"
proof -
  have "rm_op_step\<^sup>*\<^sup>* new_resource_manager rm_demo"
    unfolding rm_demo_def by (blast intro: rm_op_step.add)
  with rm_boost_count_exact [OF this] show ?thesis by (simp add: rm_demo_map)
qed

text \<open>
  A refused reclaim loses the boost accounting. The service reaches a state where the
  only boosted client refuses to reclaim; its entry is dropped, but the count stays at one,
  and neither this call nor the later removal of the client asks for the boost to be
  cancelled.
\<close>

theorem rm_refused_reclaim_leaks_boost:
  "\<exists>env ans cp rs s s'.
     rm_op_step\<^sup>*\<^sup>* new_resource_manager s \<and>
     reclaimResource env ans cp rs s = (False, s') \<and>
     boosted (mMap s) = 1 \<and> boosted (mMap s') = 0 \<and> mCpuBoostCount s' = 1 \<and>
     RequestCpusetBoost False \<notin> set (outbox (removeResource env 10 1 s'))"
proof -
  let ?rs = "[mk_resource kNonSecureCodec 1]"
  have steps: "rm_op_step\<^sup>*\<^sup>* new_resource_manager rm_demo"
    unfolding rm_demo_def by (blast intro: rm_op_step.add)
  have sel: "reclaim_select rm_demo_env 20 ?rs rm_demo = Some [7]"
    by (simp add: rm_select_eval)
  have cnt: "mCpuBoostCount rm_demo = 1" by (simp add: rm_eval)
  have out: "RequestCpusetBoost False \<notin> set (outbox rm_demo)" by (simp add: rm_eval)
  have r: "reclaimResource rm_demo_env (\<lambda>_. False) 20 ?rs rm_demo =
             (False, rm_demo\<lparr>mMap := [(10, [])]\<rparr>)"
    by (simp add: reclaimResource_def sel reclaim_cleanup_def rm_demo_map)
  show ?thesis
    by (intro exI conjI, rule steps, rule r)
      (use cnt out in \<open>simp_all add: rm_demo_map removeResource_def removeResource_checked_def\<close>)
qed

text \<open>
  Registration and removal act on exactly one entry. After \<open>addResource\<close> by a valid process
  the entry of that client holds its old resources followed by the new ones and every other
  entry is as before; after the death of a client its entry is gone and every other entry is
  as before.
\<close>

theorem rm_entry_updates:
  assumes "rm_inv s" and "isValidPid env p"
  shows "rm_entry q d (addResource env p cid c rs s) =
           (if (q, d) = (p, cid)
            then Some (added_info p rs (getResourceInfoForEdit cid c (infos_of p s)))
            else rm_entry q d s) \<and>
         rm_entry q d (binderDied env (p, cid) (addResource env p cid c rs s)) =
           (if (q, d) = (p, cid) then None else rm_entry q d s)"
  using rm_entry_addResource [OF assms(2)] rm_inv_addResource [OF assms(1)]
  by (simp add: binderDied_def rm_entry_removeResource_checked)

theorem rm_entry_updates_witness:
  "rm_entry 10 1 rm_demo \<noteq> None \<and> rm_entry 10 1 (binderDied rm_demo_env (10, 1) rm_demo) = None"
proof -
  have "rm_inv new_resource_manager" using rm_exact_new by (simp add: rm_exact_def)
  moreover have "isValidPid rm_demo_env 10" by (simp add: rm_demo_env_def)
  ultimately show ?thesis
    using rm_entry_updates [of new_resource_manager rm_demo_env 10 10 1 1 7
        "[mk_resource kNonSecureCodec 1, mk_resource kGraphicMemory 64, mk_resource kCpuBoost 1]"]
    by (simp add: rm_demo_def)
qed

text \<open>
  Secure-codec conflicts are refused as a whole: when the caller asks for a secure codec
  the device cannot share, and some owner of a secure codec is not of lower priority, no
  client is asked and the state does not change.
\<close>

theorem rm_conflict_refused:
  assumes "\<not> mSupportsMultipleSecureCodecs s" and "last_of_type kSecureCodec rs None \<noteq> None"
    and "(p, i) \<in> owners kSecureCodec (mMap s)" and "\<not> isCallingPriorityHigher_l env cp p"
  shows "reclaim_select env cp rs s = None \<and> reclaimResource env ans cp rs s = (False, s)"
proof -
  have "getAllClients_l env cp kSecureCodec (mMap s) = None"
    using assms(3,4) by (auto simp: getAllClients_l_None)
  with assms(1,2) have "reclaim_select env cp rs s = None"
    by (simp add: reclaim_select_def reclaim_conflicts_def)
  then show ?thesis by (simp add: reclaimResource_def)
qed

definition rm_demo_secure :: resource_manager where
  "rm_demo_secure =
     config [(kPolicySupportsMultipleSecureCodecs, ''false'')]
       (addResource rm_demo_env 20 3 9 [mk_resource kSecureCodec 1] new_resource_manager)"

theorem rm_conflict_refused_witness:
  "reclaimResource rm_demo_env (\<lambda>_. True) 10 [mk_resource kSecureCodec 1] rm_demo_secure =
     (False, rm_demo_secure)"
proof -
  have m: "mMap rm_demo_secure =
      [(20, [\<lparr>clientId = 3, client = 9, deathNotifier = Some (20, 3),
              resources = [mk_resource kSecureCodec 1], cpuBoost = False\<rparr>])]"
    by (simp add: rm_demo_secure_def rm_eval)
  have "\<not> mSupportsMultipleSecureCodecs rm_demo_secure"
    by (simp add: rm_demo_secure_def)
  moreover have "last_of_type kSecureCodec [mk_resource kSecureCodec 1] None \<noteq> None"
    by (simp add: mk_resource_def)
  moreover have "(20, \<lparr>clientId = 3, client = 9, deathNotifier = Some (20, 3),
      resources = [mk_resource kSecureCodec 1], cpuBoost = False\<rparr>) \<in> owners kSecureCodec (mMap rm_demo_secure)"
    by (simp add: m owners_def mk_resource_def)
  moreover have "\<not> isCallingPriorityHigher_l rm_demo_env 10 20"
    by (simp add: isCallingPriorityHigher_l_def rm_demo_env_def)
  ultimately show ?thesis
    using rm_conflict_refused by blast
qed

end
