(* ===== verification/Media_Recorder.thy ===== *)
theory Media_Recorder
  imports Media_Prelude
begin

unbundle bit_operations_syntax

text \<open>
  The client side of the media recorder (\<open>media/libmedia/mediarecorder.cpp\<close>): a state word,
  five flags and a remote \<open>IMediaRecorder\<close>. The remote object lives in the media server and is
  reached through binder; what it answers to a call is the argument \<open>ans\<close>, and every call
  that is sent is logged with its answer in the ghost field \<open>wire\<close>. A call on a null
  \<open>mMediaRecorder\<close> is a crash: operations whose code does not test the pointer return \<open>None\<close>
  then. The state tests are the bit tests of the code on the values of
  \<open>media_recorder_states\<close>.
\<close>

section \<open>State\<close>

abbreviation MEDIA_RECORDER_IDLE :: int where "MEDIA_RECORDER_IDLE \<equiv> 1"
abbreviation MEDIA_RECORDER_INITIALIZED :: int where "MEDIA_RECORDER_INITIALIZED \<equiv> 2"
abbreviation MEDIA_RECORDER_DATASOURCE_CONFIGURED :: int where "MEDIA_RECORDER_DATASOURCE_CONFIGURED \<equiv> 4"
abbreviation MEDIA_RECORDER_PREPARED :: int where "MEDIA_RECORDER_PREPARED \<equiv> 8"
abbreviation MEDIA_RECORDER_RECORDING :: int where "MEDIA_RECORDER_RECORDING \<equiv> 16"
abbreviation MEDIA_RECORDER_ERROR :: int where "MEDIA_RECORDER_ERROR \<equiv> 32"

abbreviation OUTPUT_FORMAT_AUDIO_ONLY_START :: int where "OUTPUT_FORMAT_AUDIO_ONLY_START \<equiv> 3"
abbreviation OUTPUT_FORMAT_AUDIO_ONLY_END :: int where "OUTPUT_FORMAT_AUDIO_ONLY_END \<equiv> 7"

text \<open>The access modes of \<open>fcntl.h\<close>.\<close>

abbreviation O_WRONLY :: int where "O_WRONLY \<equiv> 1"
abbreviation O_RDWR :: int where "O_RDWR \<equiv> 2"

abbreviation MEDIA_RECORDER_EVENT_ERROR :: int where "MEDIA_RECORDER_EVENT_ERROR \<equiv> 1"
abbreviation MEDIA_ERROR_SERVER_DIED :: int where "MEDIA_ERROR_SERVER_DIED \<equiv> 100"

text \<open>The methods of \<open>IMediaRecorder\<close>; objects that are only passed on are their identities.\<close>

datatype rec_call =
    RSetCamera nat nat
  | RSetPreviewSurface nat
  | RInit
  | RSetListener
  | RSetVideoSource int
  | RSetAudioSource int
  | RSetOutputFormat int
  | RSetVideoEncoder int
  | RSetAudioEncoder int
  | RSetOutputFile int
  | RSetNextOutputFile int
  | RSetVideoSize int int
  | RSetVideoFrameRate int
  | RSetParameters string
  | RSetInputSurface nat
  | RQuerySurfaceMediaSource
  | RPrepare
  | RGetMaxAmplitude
  | RGetMetrics
  | RStart
  | RStop
  | RReset
  | RPause
  | RResume
  | RClose
  | RRelease
  | RSetClientName string
  | RSetInputDevice int
  | RGetRoutedDeviceId
  | REnableAudioDeviceCallback bool
  | RGetActiveMicrophones
  | RSetPreferredMicrophoneDirection int
  | RSetPreferredMicrophoneFieldDimension u32
  | RGetPortId

record media_recorder =
  mMediaRecorder :: "nat option"
  mListener :: "nat option"
  mSurfaceMediaSource :: "nat option"
  mCurrentState :: int
  mIsAudioSourceSet :: bool
  mIsVideoSourceSet :: bool
  mIsAudioEncoderSet :: bool
  mIsVideoEncoderSet :: bool
  mIsOutputFileSet :: bool
  wire :: "(rec_call \<times> status) list"
  delivered :: "(nat \<times> int \<times> int \<times> int) list"

type_synonym rec_answers = "rec_call \<Rightarrow> status"

text \<open>One binder transaction.\<close>

definition rec_send :: "rec_answers \<Rightarrow> rec_call \<Rightarrow> media_recorder \<Rightarrow> status \<times> media_recorder" where
  "rec_send ans c s = (ans c, s\<lparr>wire := wire s @ [(c, ans c)]\<rparr>)"

text \<open>
  The idiom of almost every method: send the call; an answer other than \<open>OK\<close> puts the
  recorder into the error state, otherwise the method goes on with \<open>upd\<close>.
\<close>

definition rec_call_or_error ::
  "rec_answers \<Rightarrow> rec_call \<Rightarrow> (media_recorder \<Rightarrow> media_recorder) \<Rightarrow> media_recorder \<Rightarrow> status \<times> media_recorder" where
  "rec_call_or_error ans c upd s =
     (case rec_send ans c s of
        (ret, s') \<Rightarrow> if ret \<noteq> OK then (ret, s'\<lparr>mCurrentState := MEDIA_RECORDER_ERROR\<rparr>) else (ret, upd s'))"

section \<open>Methods\<close>

definition MediaRecorder_setCamera :: "rec_answers \<Rightarrow> nat \<Rightarrow> nat \<Rightarrow> media_recorder \<Rightarrow> status \<times> media_recorder" where
  "MediaRecorder_setCamera ans camera proxy s =
     (if mMediaRecorder s = None then (INVALID_OPERATION, s)
      else if mCurrentState s AND MEDIA_RECORDER_IDLE = 0 then (INVALID_OPERATION, s)
      else rec_call_or_error ans (RSetCamera camera proxy) id s)"

definition MediaRecorder_setPreviewSurface :: "rec_answers \<Rightarrow> nat \<Rightarrow> media_recorder \<Rightarrow> status \<times> media_recorder" where
  "MediaRecorder_setPreviewSurface ans surface s =
     (if mMediaRecorder s = None then (INVALID_OPERATION, s)
      else if mCurrentState s AND MEDIA_RECORDER_DATASOURCE_CONFIGURED = 0 then (INVALID_OPERATION, s)
      else if \<not> mIsVideoSourceSet s then (INVALID_OPERATION, s)
      else rec_call_or_error ans (RSetPreviewSurface surface) id s)"

definition MediaRecorder_init :: "rec_answers \<Rightarrow> media_recorder \<Rightarrow> status \<times> media_recorder" where
  "MediaRecorder_init ans s =
     (if mMediaRecorder s = None then (INVALID_OPERATION, s)
      else if mCurrentState s AND MEDIA_RECORDER_IDLE = 0 then (INVALID_OPERATION, s)
      else case rec_call_or_error ans RInit id s of
        (ret, s1) \<Rightarrow>
          if ret \<noteq> OK then (ret, s1)
          else rec_call_or_error ans RSetListener
                 (\<lambda>t. t\<lparr>mCurrentState := MEDIA_RECORDER_INITIALIZED\<rparr>) s1)"

definition MediaRecorder_setVideoSource :: "rec_answers \<Rightarrow> int \<Rightarrow> media_recorder \<Rightarrow> status \<times> media_recorder" where
  "MediaRecorder_setVideoSource ans vs s =
     (if mMediaRecorder s = None then (INVALID_OPERATION, s)
      else if mIsVideoSourceSet s then (INVALID_OPERATION, s)
      else case (if mCurrentState s AND MEDIA_RECORDER_IDLE \<noteq> 0 then MediaRecorder_init ans s else (OK, s)) of
        (ret, s1) \<Rightarrow>
          if ret \<noteq> OK then (ret, s1)
          else if mCurrentState s1 AND MEDIA_RECORDER_INITIALIZED = 0 then (INVALID_OPERATION, s1)
          else rec_call_or_error ans (RSetVideoSource vs) (\<lambda>t. t\<lparr>mIsVideoSourceSet := True\<rparr>) s1)"

definition MediaRecorder_setAudioSource :: "rec_answers \<Rightarrow> int \<Rightarrow> media_recorder \<Rightarrow> status \<times> media_recorder" where
  "MediaRecorder_setAudioSource ans as s =
     (if mMediaRecorder s = None then (INVALID_OPERATION, s)
      else case (if mCurrentState s AND MEDIA_RECORDER_IDLE \<noteq> 0 then MediaRecorder_init ans s else (OK, s)) of
        (ret, s1) \<Rightarrow>
          if ret \<noteq> OK then (ret, s1)
          else if mIsAudioSourceSet s1 then (INVALID_OPERATION, s1)
          else if mCurrentState s1 AND MEDIA_RECORDER_INITIALIZED = 0 then (INVALID_OPERATION, s1)
          else rec_call_or_error ans (RSetAudioSource as) (\<lambda>t. t\<lparr>mIsAudioSourceSet := True\<rparr>) s1)"

definition MediaRecorder_setOutputFormat :: "rec_answers \<Rightarrow> int \<Rightarrow> media_recorder \<Rightarrow> status \<times> media_recorder" where
  "MediaRecorder_setOutputFormat ans fmt s =
     (if mMediaRecorder s = None then (INVALID_OPERATION, s)
      else if mCurrentState s AND MEDIA_RECORDER_INITIALIZED = 0 then (INVALID_OPERATION, s)
      else if mIsVideoSourceSet s \<and> fmt \<ge> OUTPUT_FORMAT_AUDIO_ONLY_START \<and> fmt < OUTPUT_FORMAT_AUDIO_ONLY_END
      then (INVALID_OPERATION, s)
      else rec_call_or_error ans (RSetOutputFormat fmt)
             (\<lambda>t. t\<lparr>mCurrentState := MEDIA_RECORDER_DATASOURCE_CONFIGURED\<rparr>) s)"

definition MediaRecorder_setVideoEncoder :: "rec_answers \<Rightarrow> int \<Rightarrow> media_recorder \<Rightarrow> status \<times> media_recorder" where
  "MediaRecorder_setVideoEncoder ans ve s =
     (if mMediaRecorder s = None then (INVALID_OPERATION, s)
      else if \<not> mIsVideoSourceSet s then (INVALID_OPERATION, s)
      else if mIsVideoEncoderSet s then (INVALID_OPERATION, s)
      else if mCurrentState s AND MEDIA_RECORDER_DATASOURCE_CONFIGURED = 0 then (INVALID_OPERATION, s)
      else rec_call_or_error ans (RSetVideoEncoder ve) (\<lambda>t. t\<lparr>mIsVideoEncoderSet := True\<rparr>) s)"

definition MediaRecorder_setAudioEncoder :: "rec_answers \<Rightarrow> int \<Rightarrow> media_recorder \<Rightarrow> status \<times> media_recorder" where
  "MediaRecorder_setAudioEncoder ans ae s =
     (if mMediaRecorder s = None then (INVALID_OPERATION, s)
      else if \<not> mIsAudioSourceSet s then (INVALID_OPERATION, s)
      else if mIsAudioEncoderSet s then (INVALID_OPERATION, s)
      else if mCurrentState s AND MEDIA_RECORDER_DATASOURCE_CONFIGURED = 0 then (INVALID_OPERATION, s)
      else rec_call_or_error ans (RSetAudioEncoder ae) (\<lambda>t. t\<lparr>mIsAudioEncoderSet := True\<rparr>) s)"

text \<open>\<open>flags\<close> is what \<open>fcntl(fd, F_GETFL)\<close> returned; \<open>-1\<close> for a descriptor that is not open.\<close>

definition MediaRecorder_setOutputFile ::
  "rec_answers \<Rightarrow> int \<Rightarrow> int \<Rightarrow> media_recorder \<Rightarrow> status \<times> media_recorder" where
  "MediaRecorder_setOutputFile ans flags fd s =
     (if mMediaRecorder s = None then (INVALID_OPERATION, s)
      else if mIsOutputFileSet s then (INVALID_OPERATION, s)
      else if mCurrentState s AND MEDIA_RECORDER_DATASOURCE_CONFIGURED = 0 then (INVALID_OPERATION, s)
      else if flags AND (O_RDWR OR O_WRONLY) = 0 then (BAD_VALUE, s)
      else rec_call_or_error ans (RSetOutputFile fd) (\<lambda>t. t\<lparr>mIsOutputFileSet := True\<rparr>) s)"

definition MediaRecorder_setNextOutputFile ::
  "rec_answers \<Rightarrow> int \<Rightarrow> int \<Rightarrow> media_recorder \<Rightarrow> status \<times> media_recorder" where
  "MediaRecorder_setNextOutputFile ans flags fd s =
     (if mMediaRecorder s = None then (INVALID_OPERATION, s)
      else if flags AND (O_RDWR OR O_WRONLY) = 0 then (BAD_VALUE, s)
      else rec_send ans (RSetNextOutputFile fd) s)"

definition MediaRecorder_setVideoSize :: "rec_answers \<Rightarrow> int \<Rightarrow> int \<Rightarrow> media_recorder \<Rightarrow> status \<times> media_recorder" where
  "MediaRecorder_setVideoSize ans w h s =
     (if mMediaRecorder s = None then (INVALID_OPERATION, s)
      else if mCurrentState s AND MEDIA_RECORDER_DATASOURCE_CONFIGURED = 0 then (INVALID_OPERATION, s)
      else if \<not> mIsVideoSourceSet s then (INVALID_OPERATION, s)
      else rec_call_or_error ans (RSetVideoSize w h) id s)"

text \<open>The returned surface is the second argument; the pointer is not tested by the code.\<close>

definition MediaRecorder_querySurface ::
  "rec_answers \<Rightarrow> nat option \<Rightarrow> media_recorder \<Rightarrow> (nat option \<times> media_recorder) option" where
  "MediaRecorder_querySurface ans surface s =
     (if mMediaRecorder s = None then None
      else Some (surface, (snd (rec_send ans RQuerySurfaceMediaSource s))\<lparr>mSurfaceMediaSource := surface\<rparr>))"

definition MediaRecorder_setInputSurface :: "rec_answers \<Rightarrow> nat \<Rightarrow> media_recorder \<Rightarrow> status \<times> media_recorder" where
  "MediaRecorder_setInputSurface ans surface s =
     (if mMediaRecorder s = None then (INVALID_OPERATION, s)
      else if mCurrentState s AND (MEDIA_RECORDER_PREPARED OR MEDIA_RECORDER_RECORDING) \<noteq> 0
      then (INVALID_OPERATION, s)
      else rec_send ans (RSetInputSurface surface) s)"

definition MediaRecorder_setVideoFrameRate :: "rec_answers \<Rightarrow> int \<Rightarrow> media_recorder \<Rightarrow> status \<times> media_recorder" where
  "MediaRecorder_setVideoFrameRate ans fps s =
     (if mMediaRecorder s = None then (INVALID_OPERATION, s)
      else if mCurrentState s AND MEDIA_RECORDER_DATASOURCE_CONFIGURED = 0 then (INVALID_OPERATION, s)
      else if \<not> mIsVideoSourceSet s then (INVALID_OPERATION, s)
      else rec_call_or_error ans (RSetVideoFrameRate fps) id s)"

definition MediaRecorder_setParameters :: "rec_answers \<Rightarrow> string \<Rightarrow> media_recorder \<Rightarrow> status \<times> media_recorder" where
  "MediaRecorder_setParameters ans params s =
     (if mMediaRecorder s = None then (INVALID_OPERATION, s)
      else if mCurrentState s AND
                (MEDIA_RECORDER_PREPARED OR MEDIA_RECORDER_RECORDING OR MEDIA_RECORDER_ERROR) \<noteq> 0
      then (INVALID_OPERATION, s)
      else rec_send ans (RSetParameters params) s)"

definition MediaRecorder_prepare :: "rec_answers \<Rightarrow> media_recorder \<Rightarrow> status \<times> media_recorder" where
  "MediaRecorder_prepare ans s =
     (if mMediaRecorder s = None then (INVALID_OPERATION, s)
      else if mCurrentState s AND MEDIA_RECORDER_DATASOURCE_CONFIGURED = 0 then (INVALID_OPERATION, s)
      else if mIsAudioSourceSet s \<noteq> mIsAudioEncoderSet s then (INVALID_OPERATION, s)
      else if mIsVideoSourceSet s \<noteq> mIsVideoEncoderSet s then (INVALID_OPERATION, s)
      else rec_call_or_error ans RPrepare (\<lambda>t. t\<lparr>mCurrentState := MEDIA_RECORDER_PREPARED\<rparr>) s)"

definition MediaRecorder_getMaxAmplitude :: "rec_answers \<Rightarrow> media_recorder \<Rightarrow> status \<times> media_recorder" where
  "MediaRecorder_getMaxAmplitude ans s =
     (if mMediaRecorder s = None then (INVALID_OPERATION, s)
      else if mCurrentState s AND MEDIA_RECORDER_ERROR \<noteq> 0 then (INVALID_OPERATION, s)
      else rec_call_or_error ans RGetMaxAmplitude id s)"

definition MediaRecorder_getMetrics :: "rec_answers \<Rightarrow> media_recorder \<Rightarrow> (status \<times> media_recorder) option" where
  "MediaRecorder_getMetrics ans s =
     (if mMediaRecorder s = None then None else Some (rec_send ans RGetMetrics s))"

definition MediaRecorder_start :: "rec_answers \<Rightarrow> media_recorder \<Rightarrow> status \<times> media_recorder" where
  "MediaRecorder_start ans s =
     (if mMediaRecorder s = None then (INVALID_OPERATION, s)
      else if mCurrentState s AND MEDIA_RECORDER_PREPARED = 0 then (INVALID_OPERATION, s)
      else rec_call_or_error ans RStart (\<lambda>t. t\<lparr>mCurrentState := MEDIA_RECORDER_RECORDING\<rparr>) s)"

definition MediaRecorder_doCleanUp :: "media_recorder \<Rightarrow> media_recorder" where
  "MediaRecorder_doCleanUp s =
     s\<lparr>mIsAudioSourceSet := False, mIsVideoSourceSet := False, mIsAudioEncoderSet := False,
       mIsVideoEncoderSet := False, mIsOutputFileSet := False\<rparr>"

definition MediaRecorder_stop :: "rec_answers \<Rightarrow> media_recorder \<Rightarrow> status \<times> media_recorder" where
  "MediaRecorder_stop ans s =
     (if mMediaRecorder s = None then (INVALID_OPERATION, s)
      else if mCurrentState s AND MEDIA_RECORDER_RECORDING = 0 then (INVALID_OPERATION, s)
      else rec_call_or_error ans RStop
             (\<lambda>t. (MediaRecorder_doCleanUp t)\<lparr>mCurrentState := MEDIA_RECORDER_IDLE\<rparr>) s)"

text \<open>\<open>close\<close> is public and does not test the pointer.\<close>

definition MediaRecorder_close :: "rec_answers \<Rightarrow> media_recorder \<Rightarrow> (status \<times> media_recorder) option" where
  "MediaRecorder_close ans s =
     (if mCurrentState s AND MEDIA_RECORDER_INITIALIZED = 0 then Some (INVALID_OPERATION, s)
      else if mMediaRecorder s = None then None
      else Some
        (case rec_send ans RClose s of
           (ret, s') \<Rightarrow>
             if ret \<noteq> OK then (UNKNOWN_ERROR, s'\<lparr>mCurrentState := MEDIA_RECORDER_ERROR\<rparr>)
             else (ret, s'\<lparr>mCurrentState := MEDIA_RECORDER_IDLE\<rparr>)))"

text \<open>\<open>doReset\<close> is private; its only caller has tested the pointer.\<close>

definition MediaRecorder_doReset :: "rec_answers \<Rightarrow> media_recorder \<Rightarrow> status \<times> media_recorder" where
  "MediaRecorder_doReset ans s =
     rec_call_or_error ans RReset (\<lambda>t. t\<lparr>mCurrentState := MEDIA_RECORDER_INITIALIZED\<rparr>) s"

definition MediaRecorder_reset :: "rec_answers \<Rightarrow> media_recorder \<Rightarrow> (status \<times> media_recorder) option" where
  "MediaRecorder_reset ans s =
     (if mMediaRecorder s = None then Some (INVALID_OPERATION, s)
      else
        (let s1 = MediaRecorder_doCleanUp s; st = mCurrentState s
         in if st = MEDIA_RECORDER_IDLE then Some (OK, s1)
            else if st \<in> {MEDIA_RECORDER_RECORDING, MEDIA_RECORDER_DATASOURCE_CONFIGURED,
                          MEDIA_RECORDER_PREPARED, MEDIA_RECORDER_ERROR}
            then (case MediaRecorder_doReset ans s1 of
                    (ret, s2) \<Rightarrow> if ret \<noteq> OK then Some (ret, s2) else MediaRecorder_close ans s2)
            else if st = MEDIA_RECORDER_INITIALIZED then MediaRecorder_close ans s1
            else Some (UNKNOWN_ERROR, s1)))"

definition MediaRecorder_pause :: "rec_answers \<Rightarrow> media_recorder \<Rightarrow> status \<times> media_recorder" where
  "MediaRecorder_pause ans s =
     (if mMediaRecorder s = None then (INVALID_OPERATION, s)
      else if mCurrentState s AND MEDIA_RECORDER_RECORDING = 0 then (INVALID_OPERATION, s)
      else rec_call_or_error ans RPause id s)"

definition MediaRecorder_resume :: "rec_answers \<Rightarrow> media_recorder \<Rightarrow> status \<times> media_recorder" where
  "MediaRecorder_resume ans s =
     (if mMediaRecorder s = None then (INVALID_OPERATION, s)
      else if mCurrentState s AND MEDIA_RECORDER_RECORDING = 0 then (INVALID_OPERATION, s)
      else rec_call_or_error ans RResume id s)"

definition MediaRecorder_release :: "rec_answers \<Rightarrow> media_recorder \<Rightarrow> status \<times> media_recorder" where
  "MediaRecorder_release ans s =
     (if mMediaRecorder s \<noteq> None then rec_send ans RRelease s else (INVALID_OPERATION, s))"

text \<open>
  The constructor: \<open>remote\<close> is what the media player service created, if it is up;
  \<open>junk\<close> is the indeterminate content of \<open>mCurrentState\<close> when it is not.
\<close>

definition new_media_recorder :: "nat option \<Rightarrow> int \<Rightarrow> media_recorder" where
  "new_media_recorder remote junk =
     MediaRecorder_doCleanUp
       \<lparr>mMediaRecorder = remote, mListener = None, mSurfaceMediaSource = None,
        mCurrentState = (if remote \<noteq> None then MEDIA_RECORDER_IDLE else junk),
        mIsAudioSourceSet = False, mIsVideoSourceSet = False, mIsAudioEncoderSet = False,
        mIsVideoEncoderSet = False, mIsOutputFileSet = False, wire = [], delivered = []\<rparr>"

definition MediaRecorder_initCheck :: "media_recorder \<Rightarrow> status" where
  "MediaRecorder_initCheck s = (if mMediaRecorder s \<noteq> None then NO_ERROR else NO_INIT)"

definition MediaRecorder_destroy :: "media_recorder \<Rightarrow> media_recorder" where
  "MediaRecorder_destroy s = s\<lparr>mMediaRecorder := None, mSurfaceMediaSource := None\<rparr>"

definition MediaRecorder_setListener :: "nat option \<Rightarrow> media_recorder \<Rightarrow> status \<times> media_recorder" where
  "MediaRecorder_setListener listener s = (NO_ERROR, s\<lparr>mListener := listener\<rparr>)"

definition MediaRecorder_setClientName :: "rec_answers \<Rightarrow> string \<Rightarrow> media_recorder \<Rightarrow> status \<times> media_recorder" where
  "MediaRecorder_setClientName ans name s =
     (if mMediaRecorder s = None then (INVALID_OPERATION, s)
      else if mCurrentState s AND
                (MEDIA_RECORDER_PREPARED OR MEDIA_RECORDER_RECORDING OR MEDIA_RECORDER_ERROR) \<noteq> 0
      then (INVALID_OPERATION, s)
      else (NO_ERROR, snd (rec_send ans (RSetClientName name) s)))"

definition MediaRecorder_notify :: "int \<Rightarrow> int \<Rightarrow> int \<Rightarrow> media_recorder \<Rightarrow> media_recorder" where
  "MediaRecorder_notify msg ext1 ext2 s =
     (case mListener s of
        None \<Rightarrow> s
      | Some l \<Rightarrow> s\<lparr>delivered := delivered s @ [(l, msg, ext1, ext2)]\<rparr>)"

definition MediaRecorder_died :: "media_recorder \<Rightarrow> media_recorder" where
  "MediaRecorder_died s = MediaRecorder_notify MEDIA_RECORDER_EVENT_ERROR MEDIA_ERROR_SERVER_DIED 0 s"

definition MediaRecorder_setInputDevice :: "rec_answers \<Rightarrow> int \<Rightarrow> media_recorder \<Rightarrow> status \<times> media_recorder" where
  "MediaRecorder_setInputDevice ans dev s =
     (if mMediaRecorder s = None then (INVALID_OPERATION, s) else rec_send ans (RSetInputDevice dev) s)"

text \<open>The second component is \<open>*deviceId\<close>, with \<open>none\<close> for \<open>AUDIO_PORT_HANDLE_NONE\<close>.\<close>

definition MediaRecorder_getRoutedDeviceId ::
  "rec_answers \<Rightarrow> int \<Rightarrow> int \<Rightarrow> int \<Rightarrow> media_recorder \<Rightarrow> status \<times> int \<times> media_recorder" where
  "MediaRecorder_getRoutedDeviceId ans reply none deviceId s =
     (if mMediaRecorder s = None then (INVALID_OPERATION, deviceId, s)
      else case rec_send ans RGetRoutedDeviceId s of
        (ret, s') \<Rightarrow> (ret, if ret \<noteq> NO_ERROR then none else reply, s'))"

definition MediaRecorder_enableAudioDeviceCallback ::
  "rec_answers \<Rightarrow> bool \<Rightarrow> media_recorder \<Rightarrow> status \<times> media_recorder" where
  "MediaRecorder_enableAudioDeviceCallback ans b s =
     (if mMediaRecorder s = None then (INVALID_OPERATION, s)
      else rec_send ans (REnableAudioDeviceCallback b) s)"

definition MediaRecorder_getActiveMicrophones :: "rec_answers \<Rightarrow> media_recorder \<Rightarrow> status \<times> media_recorder" where
  "MediaRecorder_getActiveMicrophones ans s =
     (if mMediaRecorder s = None then (INVALID_OPERATION, s) else rec_send ans RGetActiveMicrophones s)"

definition MediaRecorder_setPreferredMicrophoneDirection ::
  "rec_answers \<Rightarrow> int \<Rightarrow> media_recorder \<Rightarrow> (status \<times> media_recorder) option" where
  "MediaRecorder_setPreferredMicrophoneDirection ans d s =
     (if mMediaRecorder s = None then None else Some (rec_send ans (RSetPreferredMicrophoneDirection d) s))"

definition MediaRecorder_setPreferredMicrophoneFieldDimension ::
  "rec_answers \<Rightarrow> u32 \<Rightarrow> media_recorder \<Rightarrow> (status \<times> media_recorder) option" where
  "MediaRecorder_setPreferredMicrophoneFieldDimension ans zoom s =
     (if mMediaRecorder s = None then None
      else Some (rec_send ans (RSetPreferredMicrophoneFieldDimension zoom) s))"

definition MediaRecorder_getPortId :: "rec_answers \<Rightarrow> media_recorder \<Rightarrow> status \<times> media_recorder" where
  "MediaRecorder_getPortId ans s =
     (if mMediaRecorder s = None then (INVALID_OPERATION, s) else rec_send ans RGetPortId s)"

section \<open>The protocol that the server sees\<close>

text \<open>
  The contract of the remote recorder, written as an automaton over the calls and their
  answers, independently of the client's state word: \<open>proto_next\<close> is the phase after a call
  that succeeds, \<open>None\<close> a call that is out of order; a failed call breaks the session until
  it is reset, unless the call is one of the harmless ones.
\<close>

datatype phase = PIdle | POpened | PInitialized | PConfigured | PPrepared | PRecording | PBroken

fun harmless :: "rec_call \<Rightarrow> bool" where
  "harmless (RSetNextOutputFile _) = True"
| "harmless RQuerySurfaceMediaSource = True"
| "harmless RGetMetrics = True"
| "harmless RRelease = True"
| "harmless (RSetInputDevice _) = True"
| "harmless RGetRoutedDeviceId = True"
| "harmless (REnableAudioDeviceCallback _) = True"
| "harmless RGetActiveMicrophones = True"
| "harmless (RSetPreferredMicrophoneDirection _) = True"
| "harmless (RSetPreferredMicrophoneFieldDimension _) = True"
| "harmless RGetPortId = True"
| "harmless (RSetInputSurface _) = True"
| "harmless (RSetParameters _) = True"
| "harmless (RSetClientName _) = True"
| "harmless _ = False"

definition stay_in :: "phase set \<Rightarrow> phase \<Rightarrow> phase option" where
  "stay_in A ph = (if ph \<in> A then Some ph else None)"

fun proto_next :: "phase \<Rightarrow> rec_call \<Rightarrow> phase option" where
  "proto_next ph (RSetCamera _ _) = stay_in {PIdle} ph"
| "proto_next ph RInit = (if ph = PIdle then Some POpened else None)"
| "proto_next ph RSetListener = (if ph = POpened then Some PInitialized else None)"
| "proto_next ph (RSetVideoSource _) = stay_in {PInitialized} ph"
| "proto_next ph (RSetAudioSource _) = stay_in {PInitialized} ph"
| "proto_next ph (RSetOutputFormat _) = (if ph = PInitialized then Some PConfigured else None)"
| "proto_next ph (RSetPreviewSurface _) = stay_in {PConfigured} ph"
| "proto_next ph (RSetVideoEncoder _) = stay_in {PConfigured} ph"
| "proto_next ph (RSetAudioEncoder _) = stay_in {PConfigured} ph"
| "proto_next ph (RSetOutputFile _) = stay_in {PConfigured} ph"
| "proto_next ph (RSetVideoSize _ _) = stay_in {PConfigured} ph"
| "proto_next ph (RSetVideoFrameRate _) = stay_in {PConfigured} ph"
| "proto_next ph RPrepare = (if ph = PConfigured then Some PPrepared else None)"
| "proto_next ph RStart = (if ph = PPrepared then Some PRecording else None)"
| "proto_next ph RPause = stay_in {PRecording} ph"
| "proto_next ph RResume = stay_in {PRecording} ph"
| "proto_next ph RStop = (if ph = PRecording then Some PIdle else None)"
| "proto_next ph RReset =
     (if ph \<in> {PConfigured, PPrepared, PRecording, PBroken} then Some PInitialized else None)"
| "proto_next ph RClose = (if ph = PInitialized then Some PIdle else None)"
| "proto_next ph RGetMaxAmplitude = stay_in (- {PBroken}) ph"
| "proto_next ph (RSetInputSurface _) = stay_in (- {PPrepared, PRecording}) ph"
| "proto_next ph (RSetParameters _) = stay_in (- {PPrepared, PRecording, PBroken}) ph"
| "proto_next ph (RSetClientName _) = stay_in (- {PPrepared, PRecording, PBroken}) ph"
| "proto_next ph _ = Some ph"

fun run_proto :: "phase \<Rightarrow> (rec_call \<times> status) list \<Rightarrow> phase option" where
  "run_proto ph [] = Some ph"
| "run_proto ph ((c, r) # w) =
     (case proto_next ph c of
        None \<Rightarrow> None
      | Some ph' \<Rightarrow> run_proto (if r = OK then ph' else if harmless c then ph else PBroken) w)"

lemma run_proto_append:
  "run_proto ph (v @ w) = (case run_proto ph v of None \<Rightarrow> None | Some ph' \<Rightarrow> run_proto ph' w)"
  by (induction ph v rule: run_proto.induct) (auto split: option.split)

text \<open>The phase that a value of the state word stands for.\<close>

definition phase_of :: "int \<Rightarrow> phase" where
  "phase_of st =
     (if st = MEDIA_RECORDER_IDLE then PIdle
      else if st = MEDIA_RECORDER_INITIALIZED then PInitialized
      else if st = MEDIA_RECORDER_DATASOURCE_CONFIGURED then PConfigured
      else if st = MEDIA_RECORDER_PREPARED then PPrepared
      else if st = MEDIA_RECORDER_RECORDING then PRecording
      else PBroken)"

section \<open>Runs of the recorder\<close>

inductive rec_step :: "media_recorder \<Rightarrow> media_recorder \<Rightarrow> bool" where
  setCamera: "rec_step s (snd (MediaRecorder_setCamera ans camera proxy s))"
| setPreviewSurface: "rec_step s (snd (MediaRecorder_setPreviewSurface ans surface s))"
| init: "rec_step s (snd (MediaRecorder_init ans s))"
| setVideoSource: "rec_step s (snd (MediaRecorder_setVideoSource ans vs s))"
| setAudioSource: "rec_step s (snd (MediaRecorder_setAudioSource ans as s))"
| setOutputFormat: "rec_step s (snd (MediaRecorder_setOutputFormat ans fmt s))"
| setVideoEncoder: "rec_step s (snd (MediaRecorder_setVideoEncoder ans ve s))"
| setAudioEncoder: "rec_step s (snd (MediaRecorder_setAudioEncoder ans ae s))"
| setOutputFile: "rec_step s (snd (MediaRecorder_setOutputFile ans flags fd s))"
| setNextOutputFile: "rec_step s (snd (MediaRecorder_setNextOutputFile ans flags fd s))"
| setVideoSize: "rec_step s (snd (MediaRecorder_setVideoSize ans w h s))"
| querySurface: "MediaRecorder_querySurface ans surface s = Some (r, t) \<Longrightarrow> rec_step s t"
| setInputSurface: "rec_step s (snd (MediaRecorder_setInputSurface ans surface s))"
| setVideoFrameRate: "rec_step s (snd (MediaRecorder_setVideoFrameRate ans fps s))"
| setParameters: "rec_step s (snd (MediaRecorder_setParameters ans params s))"
| prepare: "rec_step s (snd (MediaRecorder_prepare ans s))"
| getMaxAmplitude: "rec_step s (snd (MediaRecorder_getMaxAmplitude ans s))"
| getMetrics: "MediaRecorder_getMetrics ans s = Some (r, t) \<Longrightarrow> rec_step s t"
| start: "rec_step s (snd (MediaRecorder_start ans s))"
| stop: "rec_step s (snd (MediaRecorder_stop ans s))"
| close: "MediaRecorder_close ans s = Some (r, t) \<Longrightarrow> rec_step s t"
| reset: "MediaRecorder_reset ans s = Some (r, t) \<Longrightarrow> rec_step s t"
| pause: "rec_step s (snd (MediaRecorder_pause ans s))"
| resume: "rec_step s (snd (MediaRecorder_resume ans s))"
| release: "rec_step s (snd (MediaRecorder_release ans s))"
| setListener: "rec_step s (snd (MediaRecorder_setListener listener s))"
| setClientName: "rec_step s (snd (MediaRecorder_setClientName ans name s))"
| notify: "rec_step s (MediaRecorder_notify msg ext1 ext2 s)"
| died: "rec_step s (MediaRecorder_died s)"
| setInputDevice: "rec_step s (snd (MediaRecorder_setInputDevice ans dev s))"
| getRoutedDeviceId: "rec_step s (snd (snd (MediaRecorder_getRoutedDeviceId ans reply none deviceId s)))"
| enableAudioDeviceCallback: "rec_step s (snd (MediaRecorder_enableAudioDeviceCallback ans b s))"
| getActiveMicrophones: "rec_step s (snd (MediaRecorder_getActiveMicrophones ans s))"
| setPreferredMicrophoneDirection: "MediaRecorder_setPreferredMicrophoneDirection ans d s = Some (r, t) \<Longrightarrow> rec_step s t"
| setPreferredMicrophoneFieldDimension: "MediaRecorder_setPreferredMicrophoneFieldDimension ans zoom s = Some (r, t) \<Longrightarrow> rec_step s t"
| getPortId: "rec_step s (snd (MediaRecorder_getPortId ans s))"

definition rec_flags_ok :: "media_recorder \<Rightarrow> bool" where
  "rec_flags_ok s \<longleftrightarrow>
     (mIsAudioEncoderSet s \<longrightarrow> mIsAudioSourceSet s) \<and>
     (mIsVideoEncoderSet s \<longrightarrow> mIsVideoSourceSet s) \<and>
     (mCurrentState s \<in> {MEDIA_RECORDER_IDLE, MEDIA_RECORDER_INITIALIZED} \<longrightarrow>
        \<not> mIsAudioEncoderSet s \<and> \<not> mIsVideoEncoderSet s \<and> \<not> mIsOutputFileSet s) \<and>
     (mCurrentState s \<in> {MEDIA_RECORDER_PREPARED, MEDIA_RECORDER_RECORDING} \<longrightarrow>
        mIsAudioSourceSet s = mIsAudioEncoderSet s \<and> mIsVideoSourceSet s = mIsVideoEncoderSet s)"

definition rec_states :: "int set" where
  "rec_states = {MEDIA_RECORDER_IDLE, MEDIA_RECORDER_INITIALIZED, MEDIA_RECORDER_DATASOURCE_CONFIGURED,
     MEDIA_RECORDER_PREPARED, MEDIA_RECORDER_RECORDING, MEDIA_RECORDER_ERROR}"

definition rec_inv :: "media_recorder \<Rightarrow> bool" where
  "rec_inv s \<longleftrightarrow>
     mMediaRecorder s \<noteq> None \<and> mCurrentState s \<in> rec_states \<and>
     run_proto PIdle (wire s) = Some (phase_of (mCurrentState s)) \<and> rec_flags_ok s"

lemmas rec_rpc = rec_call_or_error_def rec_send_def
lemmas rec_inv_unfold = rec_inv_def rec_states_def rec_flags_ok_def run_proto_append phase_of_def stay_in_def

lemmas rec_methods = MediaRecorder_setCamera_def MediaRecorder_setPreviewSurface_def
  MediaRecorder_init_def MediaRecorder_setVideoSource_def MediaRecorder_setAudioSource_def
  MediaRecorder_setOutputFormat_def MediaRecorder_setVideoEncoder_def
  MediaRecorder_setAudioEncoder_def MediaRecorder_setOutputFile_def
  MediaRecorder_setNextOutputFile_def MediaRecorder_setVideoSize_def MediaRecorder_querySurface_def
  MediaRecorder_setInputSurface_def MediaRecorder_setVideoFrameRate_def
  MediaRecorder_setParameters_def MediaRecorder_prepare_def MediaRecorder_getMaxAmplitude_def
  MediaRecorder_getMetrics_def MediaRecorder_start_def MediaRecorder_doCleanUp_def
  MediaRecorder_stop_def MediaRecorder_close_def MediaRecorder_doReset_def MediaRecorder_reset_def
  MediaRecorder_pause_def MediaRecorder_resume_def MediaRecorder_release_def
  MediaRecorder_setListener_def MediaRecorder_setClientName_def MediaRecorder_notify_def
  MediaRecorder_died_def MediaRecorder_setInputDevice_def MediaRecorder_getRoutedDeviceId_def
  MediaRecorder_enableAudioDeviceCallback_def MediaRecorder_getActiveMicrophones_def
  MediaRecorder_setPreferredMicrophoneDirection_def
  MediaRecorder_setPreferredMicrophoneFieldDimension_def MediaRecorder_getPortId_def

text \<open>The bit tests of the code on the values that the state word takes.\<close>

lemma rec_state_bits:
  assumes "st \<in> rec_states"
  shows "st AND 1 = 0 \<longleftrightarrow> st \<noteq> 1" and "st AND 2 = 0 \<longleftrightarrow> st \<noteq> 2" and "st AND 4 = 0 \<longleftrightarrow> st \<noteq> 4"
    and "st AND 8 = 0 \<longleftrightarrow> st \<noteq> 8" and "st AND 16 = 0 \<longleftrightarrow> st \<noteq> 16" and "st AND 32 = 0 \<longleftrightarrow> st \<noteq> 32"
    and "st AND 24 = 0 \<longleftrightarrow> st \<notin> {8, 16}" and "st AND 56 = 0 \<longleftrightarrow> st \<notin> {8, 16, 32}"
  using assms by (auto simp: rec_states_def)

lemma rec_masks [simp]: "(8::int) OR 16 = 24" "(24::int) OR 32 = 56" "(2::int) OR 1 = 3"
  by simp_all

lemma phase_of_simps [simp]:
  "phase_of 1 = PIdle" "phase_of 2 = PInitialized" "phase_of 4 = PConfigured"
  "phase_of 8 = PPrepared" "phase_of 16 = PRecording" "phase_of 32 = PBroken"
  by (simp_all add: phase_of_def)

lemma phase_of_iff:
  assumes "st \<in> rec_states"
  shows "phase_of st = PIdle \<longleftrightarrow> st = 1" and "phase_of st = PInitialized \<longleftrightarrow> st = 2"
    and "phase_of st = PConfigured \<longleftrightarrow> st = 4" and "phase_of st = PPrepared \<longleftrightarrow> st = 8"
    and "phase_of st = PRecording \<longleftrightarrow> st = 16" and "phase_of st = PBroken \<longleftrightarrow> st = 32"
    and "phase_of st = POpened \<longleftrightarrow> False"
  using assms by (auto simp: rec_states_def phase_of_def)

text \<open>Updates of fields that the flag discipline does not read, and the fall into the error state.\<close>

lemma rec_flags_ok_frame [simp]:
  "rec_flags_ok (s\<lparr>wire := w\<rparr>) = rec_flags_ok s"
  "rec_flags_ok (s\<lparr>delivered := d\<rparr>) = rec_flags_ok s"
  "rec_flags_ok (s\<lparr>mListener := l\<rparr>) = rec_flags_ok s"
  "rec_flags_ok (s\<lparr>mSurfaceMediaSource := m\<rparr>) = rec_flags_ok s"
  by (simp_all add: rec_flags_ok_def)

lemma rec_flags_ok_error [simp]: "rec_flags_ok s \<Longrightarrow> rec_flags_ok (s\<lparr>mCurrentState := 32\<rparr>)"
  by (simp add: rec_flags_ok_def)

lemma rec_states_mem [simp]:
  "1 \<in> rec_states" "2 \<in> rec_states" "4 \<in> rec_states" "8 \<in> rec_states" "16 \<in> rec_states" "32 \<in> rec_states"
  by (simp_all add: rec_states_def)

lemma rec_inv_frame [simp]:
  "rec_inv (s\<lparr>delivered := d\<rparr>) = rec_inv s"
  "rec_inv (s\<lparr>mListener := l\<rparr>) = rec_inv s"
  "rec_inv (s\<lparr>mSurfaceMediaSource := m\<rparr>) = rec_inv s"
  by (simp_all add: rec_inv_def)

text \<open>A harmless call keeps the invariant; a fatal one keeps it if its continuation does.\<close>

lemma harmless_stays: "harmless c \<Longrightarrow> proto_next ph c \<noteq> None \<Longrightarrow> proto_next ph c = Some ph"
  by (cases c) (auto simp: stay_in_def)

lemma rec_send_inv:
  assumes "rec_inv s" and "harmless c" and "proto_next (phase_of (mCurrentState s)) c \<noteq> None"
  shows "rec_inv (snd (rec_send ans c s))"
proof -
  have "proto_next (phase_of (mCurrentState s)) c = Some (phase_of (mCurrentState s))"
    using assms by (intro harmless_stays)
  with assms show ?thesis
    by (simp add: rec_send_def rec_inv_def run_proto_append)
qed

lemma rec_call_inv:
  assumes inv: "rec_inv s" and fatal: "\<not> harmless c"
    and ph: "proto_next (phase_of (mCurrentState s)) c = Some ph"
    and wire: "wire (upd (s\<lparr>wire := wire s @ [(c, OK)]\<rparr>)) = wire s @ [(c, OK)]"
    and live: "mMediaRecorder (upd (s\<lparr>wire := wire s @ [(c, OK)]\<rparr>)) \<noteq> None"
    and state: "mCurrentState (upd (s\<lparr>wire := wire s @ [(c, OK)]\<rparr>)) \<in> rec_states"
      "phase_of (mCurrentState (upd (s\<lparr>wire := wire s @ [(c, OK)]\<rparr>))) = ph"
    and flags: "rec_flags_ok (upd (s\<lparr>wire := wire s @ [(c, OK)]\<rparr>))"
  shows "rec_inv (snd (rec_call_or_error ans c upd s))"
proof (cases "ans c = OK")
  case True
  with inv ph wire live state flags show ?thesis
    by (simp add: rec_call_or_error_def rec_send_def rec_inv_def run_proto_append)
next
  case False
  with inv fatal ph show ?thesis
    by (simp add: rec_call_or_error_def rec_send_def rec_inv_def run_proto_append)
qed

lemma rec_invD:
  assumes "rec_inv s"
  shows "mCurrentState s \<in> rec_states" and "rec_flags_ok s" and "\<exists>r. mMediaRecorder s = Some r"
  using assms by (auto simp: rec_inv_def)

lemma rec_call_id_inv:
  assumes "rec_inv s" and "\<not> harmless c"
    and "proto_next (phase_of (mCurrentState s)) c = Some (phase_of (mCurrentState s))"
  shows "rec_inv (snd (rec_call_or_error ans c id s))"
  using assms rec_invD [OF assms(1)] by (intro rec_call_inv) auto

named_theorems rec_inv_method

lemma rec_inv_setCamera [rec_inv_method]:
  assumes "rec_inv s"
  shows "rec_inv (snd (MediaRecorder_setCamera ans camera proxy s))"
  using assms rec_invD [OF assms]
  by (auto simp: MediaRecorder_setCamera_def rec_state_bits stay_in_def intro!: rec_call_id_inv)

lemma rec_inv_setPreviewSurface [rec_inv_method]:
  assumes "rec_inv s"
  shows "rec_inv (snd (MediaRecorder_setPreviewSurface ans surface s))"
  using assms rec_invD [OF assms]
  by (auto simp: MediaRecorder_setPreviewSurface_def rec_state_bits stay_in_def intro!: rec_call_id_inv)

text \<open>\<open>init\<close> sends two calls; between them the session is open but has no listener yet.\<close>

lemma rec_inv_init [rec_inv_method]:
  assumes "rec_inv s"
  shows "rec_inv (snd (MediaRecorder_init ans s))"
  using assms rec_invD [OF assms]
  by (auto simp: MediaRecorder_init_def rec_rpc rec_state_bits rec_inv_def run_proto_append
      rec_flags_ok_def)

lemma rec_init_ok:
  assumes "rec_inv s" and "mCurrentState s AND 1 \<noteq> 0"
    and "MediaRecorder_init ans s = (OK, t)"
  shows "mCurrentState t = 2" and "mIsVideoSourceSet t = mIsVideoSourceSet s"
    and "mIsAudioSourceSet t = mIsAudioSourceSet s"
  using assms rec_invD [OF assms(1)]
  by (auto simp: MediaRecorder_init_def rec_rpc split: if_splits)

text \<open>What the two source setters have in common: the implicit \<open>init\<close> from the idle state.\<close>

lemma rec_inv_implicit_init:
  assumes "rec_inv s"
    and "(if mCurrentState s AND 1 \<noteq> 0 then MediaRecorder_init ans s else (OK, s)) = (ret, t)"
  shows "rec_inv t"
  using assms rec_inv_init [OF assms(1), of ans] by (auto split: if_splits)

lemma rec_inv_setVideoSource [rec_inv_method]:
  assumes "rec_inv s"
  shows "rec_inv (snd (MediaRecorder_setVideoSource ans vs s))"
proof -
  obtain ret t where it:
    "(if mCurrentState s AND 1 \<noteq> 0 then MediaRecorder_init ans s else (OK, s)) = (ret, t)"
    by fastforce
  have "rec_inv t" using assms it by (rule rec_inv_implicit_init)
  then have "rec_inv (snd (rec_call_or_error ans (RSetVideoSource vs) (\<lambda>t. t\<lparr>mIsVideoSourceSet := True\<rparr>) t))"
    if "mCurrentState t = 2"
    using that rec_invD [OF \<open>rec_inv t\<close>]
    by (intro rec_call_inv) (auto simp: stay_in_def rec_flags_ok_def)
  with assms it rec_invD [OF \<open>rec_inv t\<close>] \<open>rec_inv t\<close> show ?thesis
    by (simp add: MediaRecorder_setVideoSource_def rec_state_bits)
qed

lemma rec_inv_setAudioSource [rec_inv_method]:
  assumes "rec_inv s"
  shows "rec_inv (snd (MediaRecorder_setAudioSource ans as s))"
proof -
  obtain ret t where it:
    "(if mCurrentState s AND 1 \<noteq> 0 then MediaRecorder_init ans s else (OK, s)) = (ret, t)"
    by fastforce
  have "rec_inv t" using assms it by (rule rec_inv_implicit_init)
  then have "rec_inv (snd (rec_call_or_error ans (RSetAudioSource as) (\<lambda>t. t\<lparr>mIsAudioSourceSet := True\<rparr>) t))"
    if "mCurrentState t = 2"
    using that rec_invD [OF \<open>rec_inv t\<close>]
    by (intro rec_call_inv) (auto simp: stay_in_def rec_flags_ok_def)
  with assms it rec_invD [OF \<open>rec_inv t\<close>] \<open>rec_inv t\<close> show ?thesis
    by (simp add: MediaRecorder_setAudioSource_def rec_state_bits)
qed

lemma rec_inv_setOutputFormat [rec_inv_method]:
  assumes "rec_inv s"
  shows "rec_inv (snd (MediaRecorder_setOutputFormat ans fmt s))"
  using assms rec_invD [OF assms]
  by (auto simp: MediaRecorder_setOutputFormat_def rec_state_bits stay_in_def rec_flags_ok_def intro!: rec_call_inv)

lemma rec_inv_setVideoEncoder [rec_inv_method]:
  assumes "rec_inv s"
  shows "rec_inv (snd (MediaRecorder_setVideoEncoder ans ve s))"
  using assms rec_invD [OF assms]
  by (auto simp: MediaRecorder_setVideoEncoder_def rec_state_bits stay_in_def rec_flags_ok_def intro!: rec_call_inv)

lemma rec_inv_setAudioEncoder [rec_inv_method]:
  assumes "rec_inv s"
  shows "rec_inv (snd (MediaRecorder_setAudioEncoder ans ae s))"
  using assms rec_invD [OF assms]
  by (auto simp: MediaRecorder_setAudioEncoder_def rec_state_bits stay_in_def rec_flags_ok_def intro!: rec_call_inv)

lemma rec_inv_setOutputFile [rec_inv_method]:
  assumes "rec_inv s"
  shows "rec_inv (snd (MediaRecorder_setOutputFile ans flags fd s))"
  using assms rec_invD [OF assms]
  by (auto simp: MediaRecorder_setOutputFile_def rec_state_bits stay_in_def rec_flags_ok_def intro!: rec_call_inv)

lemma rec_inv_prepare [rec_inv_method]:
  assumes "rec_inv s"
  shows "rec_inv (snd (MediaRecorder_prepare ans s))"
  using assms rec_invD [OF assms]
  by (auto simp: MediaRecorder_prepare_def rec_state_bits stay_in_def rec_flags_ok_def intro!: rec_call_inv)

lemma rec_inv_start [rec_inv_method]:
  assumes "rec_inv s"
  shows "rec_inv (snd (MediaRecorder_start ans s))"
  using assms rec_invD [OF assms]
  by (auto simp: MediaRecorder_start_def rec_state_bits stay_in_def rec_flags_ok_def intro!: rec_call_inv)

lemma rec_inv_stop [rec_inv_method]:
  assumes "rec_inv s"
  shows "rec_inv (snd (MediaRecorder_stop ans s))"
  using assms rec_invD [OF assms]
  by (auto simp: MediaRecorder_stop_def rec_state_bits stay_in_def rec_flags_ok_def MediaRecorder_doCleanUp_def intro!: rec_call_inv)

lemma rec_inv_setVideoSize [rec_inv_method]:
  assumes "rec_inv s"
  shows "rec_inv (snd (MediaRecorder_setVideoSize ans w h s))"
  using assms rec_invD [OF assms]
  by (auto simp: MediaRecorder_setVideoSize_def rec_state_bits stay_in_def intro!: rec_call_id_inv)

lemma rec_inv_setVideoFrameRate [rec_inv_method]:
  assumes "rec_inv s"
  shows "rec_inv (snd (MediaRecorder_setVideoFrameRate ans fps s))"
  using assms rec_invD [OF assms]
  by (auto simp: MediaRecorder_setVideoFrameRate_def rec_state_bits stay_in_def intro!: rec_call_id_inv)

lemma rec_inv_getMaxAmplitude [rec_inv_method]:
  assumes "rec_inv s"
  shows "rec_inv (snd (MediaRecorder_getMaxAmplitude ans s))"
  using assms rec_invD [OF assms]
  by (auto simp: MediaRecorder_getMaxAmplitude_def rec_state_bits stay_in_def phase_of_iff intro!: rec_call_id_inv)

lemma rec_inv_pause [rec_inv_method]:
  assumes "rec_inv s"
  shows "rec_inv (snd (MediaRecorder_pause ans s))"
  using assms rec_invD [OF assms]
  by (auto simp: MediaRecorder_pause_def rec_state_bits stay_in_def intro!: rec_call_id_inv)

lemma rec_inv_resume [rec_inv_method]:
  assumes "rec_inv s"
  shows "rec_inv (snd (MediaRecorder_resume ans s))"
  using assms rec_invD [OF assms]
  by (auto simp: MediaRecorder_resume_def rec_state_bits stay_in_def intro!: rec_call_id_inv)

lemma rec_inv_setNextOutputFile [rec_inv_method]:
  assumes "rec_inv s"
  shows "rec_inv (snd (MediaRecorder_setNextOutputFile ans flags fd s))"
  using assms rec_invD [OF assms]
  by (auto simp: MediaRecorder_setNextOutputFile_def rec_state_bits stay_in_def intro!: rec_send_inv)

lemma rec_inv_setInputSurface [rec_inv_method]:
  assumes "rec_inv s"
  shows "rec_inv (snd (MediaRecorder_setInputSurface ans surface s))"
  using assms rec_invD [OF assms]
  by (auto simp: MediaRecorder_setInputSurface_def rec_state_bits stay_in_def phase_of_iff intro!: rec_send_inv)

lemma rec_inv_setParameters [rec_inv_method]:
  assumes "rec_inv s"
  shows "rec_inv (snd (MediaRecorder_setParameters ans params s))"
  using assms rec_invD [OF assms]
  by (auto simp: MediaRecorder_setParameters_def rec_state_bits stay_in_def phase_of_iff intro!: rec_send_inv)

lemma rec_inv_release [rec_inv_method]:
  assumes "rec_inv s"
  shows "rec_inv (snd (MediaRecorder_release ans s))"
  using assms rec_invD [OF assms]
  by (auto simp: MediaRecorder_release_def rec_state_bits stay_in_def intro!: rec_send_inv)

lemma rec_inv_setClientName [rec_inv_method]:
  assumes "rec_inv s"
  shows "rec_inv (snd (MediaRecorder_setClientName ans name s))"
  using assms rec_invD [OF assms]
  by (auto simp: MediaRecorder_setClientName_def rec_state_bits stay_in_def phase_of_iff intro!: rec_send_inv)

lemma rec_inv_setInputDevice [rec_inv_method]:
  assumes "rec_inv s"
  shows "rec_inv (snd (MediaRecorder_setInputDevice ans dev s))"
  using assms rec_invD [OF assms]
  by (auto simp: MediaRecorder_setInputDevice_def rec_state_bits stay_in_def intro!: rec_send_inv)

lemma rec_inv_enableAudioDeviceCallback [rec_inv_method]:
  assumes "rec_inv s"
  shows "rec_inv (snd (MediaRecorder_enableAudioDeviceCallback ans b s))"
  using assms rec_invD [OF assms]
  by (auto simp: MediaRecorder_enableAudioDeviceCallback_def rec_state_bits stay_in_def intro!: rec_send_inv)

lemma rec_inv_getActiveMicrophones [rec_inv_method]:
  assumes "rec_inv s"
  shows "rec_inv (snd (MediaRecorder_getActiveMicrophones ans s))"
  using assms rec_invD [OF assms]
  by (auto simp: MediaRecorder_getActiveMicrophones_def rec_state_bits stay_in_def intro!: rec_send_inv)

lemma rec_inv_getPortId [rec_inv_method]:
  assumes "rec_inv s"
  shows "rec_inv (snd (MediaRecorder_getPortId ans s))"
  using assms rec_invD [OF assms]
  by (auto simp: MediaRecorder_getPortId_def rec_state_bits stay_in_def intro!: rec_send_inv)

lemma rec_inv_querySurface [rec_inv_method]:
  assumes "rec_inv s" and "MediaRecorder_querySurface ans surface s = Some (r, t)"
  shows "rec_inv t"
  using assms rec_send_inv [OF assms(1)]
  by (auto simp: MediaRecorder_querySurface_def rec_send_def split: if_splits)

lemma rec_inv_getMetrics [rec_inv_method]:
  assumes "rec_inv s" and "MediaRecorder_getMetrics ans s = Some (r, t)"
  shows "rec_inv t"
  using assms rec_send_inv [OF assms(1)]
  by (auto simp: MediaRecorder_getMetrics_def rec_send_def split: if_splits)

lemma rec_inv_setPreferredMicrophoneDirection [rec_inv_method]:
  assumes "rec_inv s" and "MediaRecorder_setPreferredMicrophoneDirection ans d s = Some (r, t)"
  shows "rec_inv t"
  using assms rec_send_inv [OF assms(1)]
  by (auto simp: MediaRecorder_setPreferredMicrophoneDirection_def rec_send_def split: if_splits)

lemma rec_inv_setPreferredMicrophoneFieldDimension [rec_inv_method]:
  assumes "rec_inv s" and "MediaRecorder_setPreferredMicrophoneFieldDimension ans zoom s = Some (r, t)"
  shows "rec_inv t"
  using assms rec_send_inv [OF assms(1)]
  by (auto simp: MediaRecorder_setPreferredMicrophoneFieldDimension_def rec_send_def split: if_splits)

lemma rec_inv_getRoutedDeviceId [rec_inv_method]:
  assumes "rec_inv s"
  shows "rec_inv (snd (snd (MediaRecorder_getRoutedDeviceId ans reply none deviceId s)))"
  using assms rec_send_inv [OF assms, of RGetRoutedDeviceId ans]
  by (simp add: MediaRecorder_getRoutedDeviceId_def rec_send_def)

lemma rec_inv_notify [rec_inv_method]:
  "rec_inv s \<Longrightarrow> rec_inv (snd (MediaRecorder_setListener listener s))"
  "rec_inv s \<Longrightarrow> rec_inv (MediaRecorder_notify msg ext1 ext2 s)"
  "rec_inv s \<Longrightarrow> rec_inv (MediaRecorder_died s)"
  by (simp_all add: MediaRecorder_setListener_def MediaRecorder_died_def MediaRecorder_notify_def split: option.split)

lemma rec_inv_close [rec_inv_method]:
  assumes "rec_inv s" and "MediaRecorder_close ans s = Some (r, t)"
  shows "rec_inv t"
  using assms rec_invD [OF assms(1)]
  by (auto simp: MediaRecorder_close_def rec_send_def rec_state_bits rec_inv_def run_proto_append
      rec_flags_ok_def split: if_splits)

lemma rec_inv_doCleanUp: "rec_inv s \<Longrightarrow> rec_inv (MediaRecorder_doCleanUp s)"
  by (simp add: MediaRecorder_doCleanUp_def rec_inv_def rec_flags_ok_def)

lemma rec_inv_doReset:
  assumes "rec_inv s" and "mCurrentState s \<in> {4, 8, 16, 32}"
    and "\<not> mIsAudioEncoderSet s" "\<not> mIsVideoEncoderSet s" "\<not> mIsOutputFileSet s"
  shows "rec_inv (snd (MediaRecorder_doReset ans s))"
  using assms rec_invD [OF assms(1)] unfolding MediaRecorder_doReset_def
  by (intro rec_call_inv) (auto simp: rec_flags_ok_def)

lemma rec_inv_reset [rec_inv_method]:
  assumes "rec_inv s" and "MediaRecorder_reset ans s = Some (r, t)"
  shows "rec_inv t"
proof -
  let ?s1 = "MediaRecorder_doCleanUp s"
  have s1: "rec_inv ?s1" using assms(1) by (rule rec_inv_doCleanUp)
  have s2: "rec_inv (snd (MediaRecorder_doReset ans ?s1))" if "mCurrentState s \<in> {4, 8, 16, 32}"
    using s1 that by (intro rec_inv_doReset) (auto simp: MediaRecorder_doCleanUp_def)
  show ?thesis
    using assms s1 s2 rec_inv_close [OF s1, of ans r t]
      rec_inv_close [OF s2, of ans r t]
    by (auto simp: MediaRecorder_reset_def Let_def split: if_splits prod.splits)
qed

lemma rec_step_inv: "rec_step s t \<Longrightarrow> rec_inv s \<Longrightarrow> rec_inv t"
  by (induction rule: rec_step.induct) (blast intro: rec_inv_method)+

definition rec_init :: "media_recorder \<Rightarrow> bool" where
  "rec_init s \<longleftrightarrow> (\<exists>remote junk. s = new_media_recorder (Some remote) junk)"

interpretation recorder: invariant_system rec_init rec_step rec_inv
proof unfold_locales
  show "rec_inv s" if "rec_init s" for s
    using that by (auto simp: rec_init_def new_media_recorder_def MediaRecorder_doCleanUp_def
        rec_inv_def rec_flags_ok_def)
  show "rec_inv t" if "rec_inv s" and "rec_step s t" for s t
    using that(2,1) by (rule rec_step_inv)
qed

section \<open>Properties\<close>

text \<open>
  A complete recording session as an application drives it, from the idle state; each step is
  taken only if the one before it succeeded.
\<close>

fun rec_seq :: "(media_recorder \<Rightarrow> status \<times> media_recorder) list \<Rightarrow> media_recorder \<Rightarrow> status \<times> media_recorder" where
  "rec_seq [] s = (OK, s)"
| "rec_seq (f # fs) s = (case f s of (ret, s') \<Rightarrow> if ret \<noteq> OK then (ret, s') else rec_seq fs s')"

lemma rec_reset_responsive:
  assumes inv: "rec_inv s" and ok: "\<And>c. ans c = OK"
  shows "\<exists>t. MediaRecorder_reset ans s = Some (OK, t) \<and> mCurrentState t = MEDIA_RECORDER_IDLE \<and>
    mMediaRecorder t = mMediaRecorder s \<and> \<not> mIsAudioSourceSet t \<and> \<not> mIsVideoSourceSet t \<and> rec_inv t"
proof -
  have "mCurrentState s \<in> rec_states" using inv by (rule rec_invD)
  then have "\<exists>t. MediaRecorder_reset ans s = Some (OK, t) \<and> mCurrentState t = MEDIA_RECORDER_IDLE \<and>
    mMediaRecorder t = mMediaRecorder s \<and> \<not> mIsAudioSourceSet t \<and> \<not> mIsVideoSourceSet t"
    using rec_invD(3) [OF inv] ok
    by (auto simp: MediaRecorder_reset_def MediaRecorder_doReset_def MediaRecorder_doCleanUp_def
        MediaRecorder_close_def rec_rpc rec_states_def)
  with rec_inv_reset [OF inv] show ?thesis by blast
qed

lemma rec_session_from_idle:
  assumes "rec_inv s" and idle: "mCurrentState s = MEDIA_RECORDER_IDLE"
    and "\<not> mIsAudioSourceSet s" "\<not> mIsVideoSourceSet s" and ok: "\<And>c. ans c = OK"
    and fmt: "fmt < OUTPUT_FORMAT_AUDIO_ONLY_START \<or> OUTPUT_FORMAT_AUDIO_ONLY_END \<le> fmt"
    and flags: "flags AND (O_RDWR OR O_WRONLY) \<noteq> 0"
  shows "\<exists>t. rec_seq
      [MediaRecorder_setVideoSource ans vs, MediaRecorder_setAudioSource ans as,
       MediaRecorder_setOutputFormat ans fmt, MediaRecorder_setVideoEncoder ans ve,
       MediaRecorder_setAudioEncoder ans ae, MediaRecorder_setOutputFile ans flags fd,
       MediaRecorder_prepare ans, MediaRecorder_start ans] s = (OK, t) \<and>
    mCurrentState t = MEDIA_RECORDER_RECORDING"
proof -
  have "\<not> mIsAudioEncoderSet s" "\<not> mIsVideoEncoderSet s" "\<not> mIsOutputFileSet s"
    using rec_invD(2) [OF assms(1)] idle by (auto simp: rec_flags_ok_def)
  with assms rec_invD(3) [OF assms(1)] show ?thesis
    by (auto simp: MediaRecorder_setVideoSource_def MediaRecorder_setAudioSource_def
        MediaRecorder_init_def MediaRecorder_setOutputFormat_def MediaRecorder_setVideoEncoder_def
        MediaRecorder_setAudioEncoder_def MediaRecorder_setOutputFile_def MediaRecorder_prepare_def
        MediaRecorder_start_def rec_rpc)
qed

text \<open>
  C10: refinement of the protocol. Whatever methods an application calls, in whatever order
  and with whatever answers, the calls that leave the process are a run of the server's
  protocol automaton: no call is ever sent in a phase that does not allow it, and the phase
  reached by the calls and their answers is the one the client's state word stands for.
\<close>

theorem rec_protocol_refinement:
  assumes "rec_init s\<^sub>0" and "rec_step\<^sup>*\<^sup>* s\<^sub>0 s"
  shows "mCurrentState s \<in> rec_states \<and> run_proto PIdle (wire s) = Some (phase_of (mCurrentState s))"
  using recorder.reachable_inv [OF assms] by (simp add: rec_inv_def)

theorem rec_protocol_refinement_witness:
  "let s = snd (MediaRecorder_setVideoSource (\<lambda>_. OK) 1 (new_media_recorder (Some 7) 0))
   in run_proto PIdle (wire s) = Some (phase_of (mCurrentState s)) \<and>
      wire s = [(RInit, OK), (RSetListener, OK), (RSetVideoSource 1, OK)]"
proof -
  let ?new = "new_media_recorder (Some 7) 0"
  let ?s = "snd (MediaRecorder_setVideoSource (\<lambda>_. OK) 1 ?new)"
  have "rec_init ?new" by (auto simp: rec_init_def)
  moreover have "rec_step\<^sup>*\<^sup>* ?new ?s" by (rule r_into_rtranclp) (rule rec_step.setVideoSource)
  ultimately have "run_proto PIdle (wire ?s) = Some (phase_of (mCurrentState ?s))"
    using rec_protocol_refinement by blast
  moreover have "wire ?s = [(RInit, OK), (RSetListener, OK), (RSetVideoSource 1, OK)]"
    by (simp add: MediaRecorder_setVideoSource_def MediaRecorder_init_def rec_rpc
        new_media_recorder_def MediaRecorder_doCleanUp_def)
  ultimately show ?thesis by (simp only: Let_def)
qed

text \<open>
  The source and encoder flags. In every reachable state an encoder is set only for a
  source that is set, no encoder and no output file is set before the output format is, and a
  prepared or recording session has an encoder for exactly the sources it has. So the tests
  of \<open>prepare\<close> for an encoder without a source, which the code comments as impossible,
  never fire.
\<close>

theorem rec_flags_sound:
  assumes "rec_init s\<^sub>0" and "rec_step\<^sup>*\<^sup>* s\<^sub>0 s"
  shows "(mIsAudioEncoderSet s \<longrightarrow> mIsAudioSourceSet s) \<and> (mIsVideoEncoderSet s \<longrightarrow> mIsVideoSourceSet s) \<and>
    (mCurrentState s \<in> {MEDIA_RECORDER_IDLE, MEDIA_RECORDER_INITIALIZED} \<longrightarrow>
       \<not> mIsAudioEncoderSet s \<and> \<not> mIsVideoEncoderSet s \<and> \<not> mIsOutputFileSet s) \<and>
    (mCurrentState s \<in> {MEDIA_RECORDER_PREPARED, MEDIA_RECORDER_RECORDING} \<longrightarrow>
       mIsAudioSourceSet s = mIsAudioEncoderSet s \<and> mIsVideoSourceSet s = mIsVideoEncoderSet s)"
  using recorder.reachable_inv [OF assms] by (simp add: rec_inv_def rec_flags_ok_def)

theorem rec_flags_sound_witness:
  "let s = snd (MediaRecorder_setAudioSource (\<lambda>_. OK) 1 (new_media_recorder (Some 7) 0))
   in mIsAudioSourceSet s \<and> \<not> mIsAudioEncoderSet s \<and> \<not> mIsOutputFileSet s"
proof -
  let ?new = "new_media_recorder (Some 7) 0"
  let ?s = "snd (MediaRecorder_setAudioSource (\<lambda>_. OK) 1 ?new)"
  have "rec_init ?new" by (auto simp: rec_init_def)
  moreover have "rec_step\<^sup>*\<^sup>* ?new ?s" by (rule r_into_rtranclp) (rule rec_step.setAudioSource)
  moreover have "mCurrentState ?s = 2 \<and> mIsAudioSourceSet ?s"
    by (simp add: MediaRecorder_setAudioSource_def MediaRecorder_init_def rec_rpc
        new_media_recorder_def MediaRecorder_doCleanUp_def)
  ultimately show ?thesis
    using rec_flags_sound by (simp add: Let_def)
qed

text \<open>
  The error state is left only by \<open>reset\<close>. A step of a reachable recorder that takes it
  out of \<open>MEDIA_RECORDER_ERROR\<close> is a call of \<open>reset\<close>.
\<close>

theorem rec_error_left_by_reset:
  assumes "mCurrentState s = MEDIA_RECORDER_ERROR" and "rec_step s t"
    and "mCurrentState t \<noteq> MEDIA_RECORDER_ERROR"
  shows "\<exists>ans r. MediaRecorder_reset ans s = Some (r, t)"
  using assms(2,1,3)
proof (cases rule: rec_step.cases)
  case (reset ans r)
  then show ?thesis by blast
qed (auto simp: rec_methods rec_send_def split: if_splits option.splits)

theorem rec_error_left_by_reset_witness:
  "\<exists>ans r. MediaRecorder_reset ans ((new_media_recorder (Some 7) 0)\<lparr>mCurrentState := 32\<rparr>) =
     Some (r, (new_media_recorder (Some 7) 0)\<lparr>wire := [(RReset, OK), (RClose, OK)]\<rparr>)"
proof (rule rec_error_left_by_reset)
  let ?s = "(new_media_recorder (Some 7) 0)\<lparr>mCurrentState := 32\<rparr>"
  let ?t = "(new_media_recorder (Some 7) 0)\<lparr>wire := [(RReset, OK), (RClose, OK)]\<rparr>"
  show "mCurrentState ?s = MEDIA_RECORDER_ERROR" by simp
  show "mCurrentState ?t \<noteq> MEDIA_RECORDER_ERROR"
    by (simp add: new_media_recorder_def MediaRecorder_doCleanUp_def)
  have "MediaRecorder_reset (\<lambda>_. OK) ?s = Some (OK, ?t)"
    by (simp add: MediaRecorder_reset_def MediaRecorder_doReset_def MediaRecorder_close_def rec_rpc
        new_media_recorder_def MediaRecorder_doCleanUp_def)
  then show "rec_step ?s ?t" by (rule rec_step.reset)
qed

text \<open>
  A responsive server. From every reachable state, if the server answers every call,
  \<open>reset\<close> returns \<open>OK\<close> in the idle state, and a session that then sets a video and an audio
  source, an output format that is not audio only, both encoders and a writable output file
  reaches the recording state.
\<close>

theorem rec_responsive_session:
  assumes "rec_init s\<^sub>0" and "rec_step\<^sup>*\<^sup>* s\<^sub>0 s" and "\<And>c. ans c = OK"
    and "fmt < OUTPUT_FORMAT_AUDIO_ONLY_START \<or> OUTPUT_FORMAT_AUDIO_ONLY_END \<le> fmt"
    and "flags AND (O_RDWR OR O_WRONLY) \<noteq> 0"
  shows "\<exists>t u. MediaRecorder_reset ans s = Some (OK, t) \<and> mCurrentState t = MEDIA_RECORDER_IDLE \<and>
    rec_seq
      [MediaRecorder_setVideoSource ans vs, MediaRecorder_setAudioSource ans as,
       MediaRecorder_setOutputFormat ans fmt, MediaRecorder_setVideoEncoder ans ve,
       MediaRecorder_setAudioEncoder ans ae, MediaRecorder_setOutputFile ans flags fd,
       MediaRecorder_prepare ans, MediaRecorder_start ans] t = (OK, u) \<and>
    mCurrentState u = MEDIA_RECORDER_RECORDING"
proof -
  have "rec_inv s" using assms(1,2) by (rule recorder.reachable_inv)
  then obtain t where t: "MediaRecorder_reset ans s = Some (OK, t)" "mCurrentState t = MEDIA_RECORDER_IDLE"
      "\<not> mIsAudioSourceSet t" "\<not> mIsVideoSourceSet t" "rec_inv t"
    using rec_reset_responsive assms(3) by blast
  from rec_session_from_idle [where ans = ans, OF t(5,2,3,4) assms(3,4,5)] t(1,2) show ?thesis by blast
qed

theorem rec_responsive_session_witness:
  "\<exists>t u. MediaRecorder_reset (\<lambda>_. OK) (new_media_recorder (Some 7) 0) = Some (OK, t) \<and>
    mCurrentState t = MEDIA_RECORDER_IDLE \<and>
    rec_seq
      [MediaRecorder_setVideoSource (\<lambda>_. OK) 1, MediaRecorder_setAudioSource (\<lambda>_. OK) 1,
       MediaRecorder_setOutputFormat (\<lambda>_. OK) 2, MediaRecorder_setVideoEncoder (\<lambda>_. OK) 2,
       MediaRecorder_setAudioEncoder (\<lambda>_. OK) 3, MediaRecorder_setOutputFile (\<lambda>_. OK) 2 5,
       MediaRecorder_prepare (\<lambda>_. OK), MediaRecorder_start (\<lambda>_. OK)] t = (OK, u) \<and>
    mCurrentState u = MEDIA_RECORDER_RECORDING"
proof (rule rec_responsive_session)
  show "rec_init (new_media_recorder (Some 7) 0)" by (auto simp: rec_init_def)
qed simp_all

lemma rec_null_step:
  assumes "rec_step s t" and "mMediaRecorder s = None"
  shows "mMediaRecorder t = None \<and> wire t = wire s"
  using assms
  by (cases rule: rec_step.cases) (auto simp: rec_methods split: if_splits option.splits)

text \<open>
  A recorder without a server. If the constructor could not reach the media player
  service, \<open>initCheck\<close> says so, and no method ever sends a call, whatever the indeterminate
  state word holds; what returns leaves the pointer null. The four methods that do not test the
  pointer (\<open>querySurfaceMediaSourceFromMediaServer\<close>, \<open>getMetrics\<close> and the two preferred
  microphone setters) do not return: they dereference null.
\<close>

theorem rec_null_server:
  assumes "rec_step\<^sup>*\<^sup>* (new_media_recorder None junk) s"
  shows "MediaRecorder_initCheck s = NO_INIT \<and> wire s = [] \<and>
    MediaRecorder_querySurface ans surface s = None \<and> MediaRecorder_getMetrics ans s = None \<and>
    MediaRecorder_setPreferredMicrophoneDirection ans d s = None \<and>
    MediaRecorder_setPreferredMicrophoneFieldDimension ans zoom s = None"
proof -
  have "mMediaRecorder s = None \<and> wire s = []"
    using assms
    by (induction rule: rtranclp_induct)
      (simp_all add: rec_null_step new_media_recorder_def MediaRecorder_doCleanUp_def)
  then show ?thesis
    by (simp add: MediaRecorder_initCheck_def MediaRecorder_querySurface_def MediaRecorder_getMetrics_def
        MediaRecorder_setPreferredMicrophoneDirection_def
        MediaRecorder_setPreferredMicrophoneFieldDimension_def)
qed

theorem rec_null_server_witness:
  "MediaRecorder_initCheck (snd (MediaRecorder_start (\<lambda>_. OK) (new_media_recorder None 8))) = NO_INIT \<and>
   wire (snd (MediaRecorder_start (\<lambda>_. OK) (new_media_recorder None 8))) = []"
  using rec_null_server [of 8 "snd (MediaRecorder_start (\<lambda>_. OK) (new_media_recorder None 8))"]
    rec_step.start [of "new_media_recorder None 8" "\<lambda>_. OK"] by blast

section \<open>Divergences\<close>

text \<open>
  The comment on \<open>setOutputFile\<close> says that the flags test covers an invalid descriptor too;
  \<open>fcntl\<close> answers \<open>-1\<close> for one, which has the access bits set, so the call is sent.
\<close>

lemma rec_invalid_descriptor_is_sent:
  assumes "mMediaRecorder s = Some r" and "mCurrentState s = MEDIA_RECORDER_DATASOURCE_CONFIGURED"
    and "\<not> mIsOutputFileSet s"
  shows "wire (snd (MediaRecorder_setOutputFile ans (- 1) fd s)) = wire s @ [(RSetOutputFile fd, ans (RSetOutputFile fd))]"
  using assms by (simp add: MediaRecorder_setOutputFile_def rec_rpc)

text \<open>
  \<open>close\<close> returns the recorder to the idle state without clearing the source flags, so a video
  source that was set before refuses the next \<open>setVideoSource\<close>.
\<close>

lemma rec_close_keeps_source:
  "let s = snd (MediaRecorder_setVideoSource (\<lambda>_. OK) 1 (new_media_recorder (Some 7) 0))
   in \<exists>t. MediaRecorder_close (\<lambda>_. OK) s = Some (OK, t) \<and> mCurrentState t = MEDIA_RECORDER_IDLE \<and>
        MediaRecorder_setVideoSource (\<lambda>_. OK) 1 t = (INVALID_OPERATION, t)"
  by (simp add: Let_def MediaRecorder_setVideoSource_def MediaRecorder_init_def MediaRecorder_close_def
      rec_rpc new_media_recorder_def MediaRecorder_doCleanUp_def)

end
