(* ===== verification/Media_Player.thy ===== *)
theory Media_Player
  imports Media_Prelude
begin

unbundle bit_operations_syntax

text \<open>
  The client side of the media player (\<open>media/libmedia/mediaplayer.cpp\<close>). Methods run under
  \<open>mLock\<close> and are atomic here; the one place that gives the lock up in the middle, the wait in
  \<open>prepare\<close>, splits that method in two. The remote \<open>IMediaPlayer\<close> is a parameter: what it
  answers to a call is the argument \<open>ans\<close>, values that it returns are further arguments.
  Notifications arrive as one-way calls, so \<open>notify\<close> is a step of its own. A ghost log keeps
  every call with its answer, every notification that was let in, each attachment of a new
  remote player and the references to audio sessions.
\<close>

section \<open>State\<close>

abbreviation MEDIA_PLAYER_STATE_ERROR :: int where "MEDIA_PLAYER_STATE_ERROR \<equiv> 0"
abbreviation MEDIA_PLAYER_IDLE :: int where "MEDIA_PLAYER_IDLE \<equiv> 1"
abbreviation MEDIA_PLAYER_INITIALIZED :: int where "MEDIA_PLAYER_INITIALIZED \<equiv> 2"
abbreviation MEDIA_PLAYER_PREPARING :: int where "MEDIA_PLAYER_PREPARING \<equiv> 4"
abbreviation MEDIA_PLAYER_PREPARED :: int where "MEDIA_PLAYER_PREPARED \<equiv> 8"
abbreviation MEDIA_PLAYER_STARTED :: int where "MEDIA_PLAYER_STARTED \<equiv> 16"
abbreviation MEDIA_PLAYER_PAUSED :: int where "MEDIA_PLAYER_PAUSED \<equiv> 32"
abbreviation MEDIA_PLAYER_STOPPED :: int where "MEDIA_PLAYER_STOPPED \<equiv> 64"
abbreviation MEDIA_PLAYER_PLAYBACK_COMPLETE :: int where "MEDIA_PLAYER_PLAYBACK_COMPLETE \<equiv> 128"

text \<open>The messages that \<open>notify\<close> acts on; all others only reach the listener.\<close>

abbreviation MEDIA_PREPARED :: int where "MEDIA_PREPARED \<equiv> 1"
abbreviation MEDIA_PLAYBACK_COMPLETE :: int where "MEDIA_PLAYBACK_COMPLETE \<equiv> 2"
abbreviation MEDIA_SEEK_COMPLETE :: int where "MEDIA_SEEK_COMPLETE \<equiv> 4"
abbreviation MEDIA_SET_VIDEO_SIZE :: int where "MEDIA_SET_VIDEO_SIZE \<equiv> 5"
abbreviation MEDIA_ERROR :: int where "MEDIA_ERROR \<equiv> 100"

abbreviation MEDIA_ERROR_SERVER_DIED :: int where "MEDIA_ERROR_SERVER_DIED \<equiv> 100"
abbreviation KEY_PARAMETER_AUDIO_ATTRIBUTES :: int where "KEY_PARAMETER_AUDIO_ATTRIBUTES \<equiv> 1400"
abbreviation AUDIO_STREAM_MUSIC :: int where "AUDIO_STREAM_MUSIC \<equiv> 3"
abbreviation SEEK_PREVIOUS_SYNC :: int where "SEEK_PREVIOUS_SYNC \<equiv> 0"

text \<open>
  A \<open>float\<close>: sign, significand and exponent of a number, an infinity with its sign, or not a
  number. The client compares with zero and passes the value on, nothing else.
\<close>

datatype cfloat = Number bool nat int | Infinite bool | NaN

fun float_neg :: "cfloat \<Rightarrow> bool" where
  "float_neg (Number sign m e) = (sign \<and> m \<noteq> 0)"
| "float_neg (Infinite sign) = sign"
| "float_neg NaN = False"

fun float_zero :: "cfloat \<Rightarrow> bool" where
  "float_zero (Number sign m e) = (m = 0)"
| "float_zero (Infinite sign) = False"
| "float_zero NaN = False"

definition float_one :: cfloat where
  "float_one = Number False 1 0"

record playback_rate =
  mSpeed :: cfloat
  mPitch :: cfloat
  mStretchMode :: int
  mFallbackMode :: int

text \<open>The methods of \<open>IMediaPlayer\<close> that the client calls; opaque arguments are identities.\<close>

datatype player_call =
    PDisconnect
  | PSetDataSourceUrl nat string nat
  | PSetDataSourceFd int int int
  | PSetDataSourceCallback nat
  | PSetRetransmitEndpoint "u32 \<times> u16"
  | PInvoke nat
  | PSetMetadataFilter nat
  | PGetMetadata bool bool
  | PSetVideoSurfaceTexture nat
  | PGetBufferingSettings
  | PSetBufferingSettings nat
  | PSetParameter int nat
  | PGetParameter int
  | PSetAudioStreamType int
  | PPrepareAsync
  | PSetLooping int
  | PSetVolume cfloat cfloat
  | PSetAuxEffectSendLevel cfloat
  | PAttachAuxEffect int
  | PStart
  | PStop
  | PPause
  | PIsPlaying
  | PSetPlaybackSettings playback_rate
  | PGetPlaybackSettings
  | PSetSyncSettings nat cfloat
  | PGetSyncSettings
  | PGetCurrentPosition
  | PGetDuration
  | PSeekTo int int
  | PNotifyAt int
  | PReset
  | PSetNextPlayer "nat option"
  | PApplyVolumeShaper nat nat
  | PGetVolumeShaperState int
  | PPrepareDrm nat "u8 list"
  | PReleaseDrm
  | PSetOutputDevice int
  | PGetRoutedDeviceId
  | PEnableAudioDeviceCallback bool

datatype player_event =
    Sent nat player_call status
  | Got int int int
  | Attached nat
  | AcquireSession int
  | ReleaseSession int

record media_player =
  mPlayer :: "nat option"
  mLockThreadId :: nat
  mListener :: "nat option"
  mCurrentState :: int
  mCurrentPosition :: int
  mCurrentSeekMode :: int
  mSeekPosition :: int
  mSeekMode :: int
  mPrepareSync :: bool
  mPrepareStatus :: status
  mStreamType :: int
  mAudioAttributesParcel :: "nat option"
  mLoop :: bool
  mLeftVolume :: cfloat
  mRightVolume :: cfloat
  mVideoWidth :: int
  mVideoHeight :: int
  mAudioSessionId :: int
  mSendLevel :: cfloat
  mRetransmitEndpoint :: "u32 \<times> u16"
  mRetransmitEndpointValid :: bool
  waiting :: nat
  woken :: nat
  events :: "player_event list"
  delivered :: "(nat \<times> int \<times> int \<times> int) list"

type_synonym player_answers = "player_call \<Rightarrow> status"

text \<open>
  The ghost fields \<open>waiting\<close> and \<open>woken\<close> count the threads that are blocked on \<open>mSignal\<close> and
  those that a signal has released but that have not run yet.
\<close>

definition signal :: "media_player \<Rightarrow> media_player" where
  "signal s = (if waiting s = 0 then s else s\<lparr>waiting := waiting s - 1, woken := woken s + 1\<rparr>)"

definition record_event :: "player_event \<Rightarrow> media_player \<Rightarrow> media_player" where
  "record_event e s = s\<lparr>events := events s @ [e]\<rparr>"

text \<open>A call on a given remote player, and on the attached one with the answer if there is none.\<close>

definition send_to :: "player_answers \<Rightarrow> nat \<Rightarrow> player_call \<Rightarrow> media_player \<Rightarrow> status \<times> media_player" where
  "send_to ans p c s = (ans c, record_event (Sent p c (ans c)) s)"

definition with_player :: "status \<Rightarrow> player_answers \<Rightarrow> player_call \<Rightarrow> media_player \<Rightarrow> status \<times> media_player" where
  "with_player err ans c s = (case mPlayer s of None \<Rightarrow> (err, s) | Some p \<Rightarrow> send_to ans p c s)"

text \<open>A call on the attached player whose answer is not looked at.\<close>

definition tell_player :: "player_answers \<Rightarrow> player_call \<Rightarrow> media_player \<Rightarrow> media_player" where
  "tell_player ans c s = snd (with_player OK ans c s)"

section \<open>Life cycle\<close>

definition new_media_player :: "int \<Rightarrow> u32 \<times> u16 \<Rightarrow> media_player" where
  "new_media_player session junk =
     \<lparr>mPlayer = None, mLockThreadId = 0, mListener = None, mCurrentState = MEDIA_PLAYER_IDLE,
      mCurrentPosition = -1, mCurrentSeekMode = SEEK_PREVIOUS_SYNC,
      mSeekPosition = -1, mSeekMode = SEEK_PREVIOUS_SYNC,
      mPrepareSync = False, mPrepareStatus = NO_ERROR,
      mStreamType = AUDIO_STREAM_MUSIC, mAudioAttributesParcel = None, mLoop = False,
      mLeftVolume = float_one, mRightVolume = float_one, mVideoWidth = 0, mVideoHeight = 0,
      mAudioSessionId = session, mSendLevel = Number False 0 0,
      mRetransmitEndpoint = junk, mRetransmitEndpointValid = False,
      waiting = 0, woken = 0, events = [AcquireSession session], delivered = []\<rparr>"

definition MediaPlayer_disconnect :: "player_answers \<Rightarrow> media_player \<Rightarrow> media_player" where
  "MediaPlayer_disconnect ans s = (tell_player ans PDisconnect s)\<lparr>mPlayer := None\<rparr>"

definition MediaPlayer_destroy :: "player_answers \<Rightarrow> media_player \<Rightarrow> media_player" where
  "MediaPlayer_destroy ans s =
     MediaPlayer_disconnect ans
       (record_event (ReleaseSession (mAudioSessionId s)) (s\<lparr>mAudioAttributesParcel := None\<rparr>))"

definition MediaPlayer_clear_l :: "media_player \<Rightarrow> media_player" where
  "MediaPlayer_clear_l s =
     s\<lparr>mCurrentPosition := -1, mCurrentSeekMode := SEEK_PREVIOUS_SYNC,
       mSeekPosition := -1, mSeekMode := SEEK_PREVIOUS_SYNC,
       mVideoWidth := 0, mVideoHeight := 0, mRetransmitEndpointValid := False\<rparr>"

definition MediaPlayer_setListener :: "nat option \<Rightarrow> media_player \<Rightarrow> status \<times> media_player" where
  "MediaPlayer_setListener listener s = (NO_ERROR, s\<lparr>mListener := listener\<rparr>)"

definition MediaPlayer_attachNewPlayer ::
  "player_answers \<Rightarrow> nat option \<Rightarrow> media_player \<Rightarrow> status \<times> media_player" where
  "MediaPlayer_attachNewPlayer ans player s =
     (if \<not> (mCurrentState s AND MEDIA_PLAYER_IDLE \<noteq> 0 \<or> mCurrentState s = MEDIA_PLAYER_STATE_ERROR)
      then (INVALID_OPERATION, s)
      else
        (let s1 = MediaPlayer_clear_l s; p = mPlayer s; s2 = s1\<lparr>mPlayer := player\<rparr>;
             (err, s3) = (case player of
                None \<Rightarrow> (UNKNOWN_ERROR, s2)
              | Some q \<Rightarrow> (NO_ERROR, record_event (Attached q) (s2\<lparr>mCurrentState := MEDIA_PLAYER_INITIALIZED\<rparr>)))
         in (err, case p of None \<Rightarrow> s3 | Some q \<Rightarrow> snd (send_to ans q PDisconnect s3))))"

definition MediaPlayer_doSetRetransmitEndpoint ::
  "player_answers \<Rightarrow> nat option \<Rightarrow> media_player \<Rightarrow> status \<times> media_player" where
  "MediaPlayer_doSetRetransmitEndpoint ans player s =
     (case player of
        None \<Rightarrow> (UNKNOWN_ERROR, s)
      | Some p \<Rightarrow>
          if mRetransmitEndpointValid s
          then send_to ans p (PSetRetransmitEndpoint (mRetransmitEndpoint s)) s else (OK, s))"

text \<open>
  What the three \<open>setDataSource\<close> methods share: \<open>created\<close> is the player that the service made,
  \<open>source\<close> the call that gives it its source.
\<close>

definition set_source_and_attach ::
  "player_answers \<Rightarrow> nat option \<Rightarrow> player_call \<Rightarrow> media_player \<Rightarrow> status \<times> media_player" where
  "set_source_and_attach ans created src s =
     (let (r1, s1) = MediaPlayer_doSetRetransmitEndpoint ans created s
      in if r1 \<noteq> NO_ERROR then MediaPlayer_attachNewPlayer ans None s1
         else case created of
             None \<Rightarrow> MediaPlayer_attachNewPlayer ans None s1
           | Some p \<Rightarrow>
               (let (r2, s2) = send_to ans p src s1
                in MediaPlayer_attachNewPlayer ans (if r2 \<noteq> NO_ERROR then None else created) s2))"

text \<open>\<open>service\<close> is whether \<open>getMediaPlayerService\<close> found the service.\<close>

definition MediaPlayer_setDataSource_url ::
  "player_answers \<Rightarrow> bool \<Rightarrow> nat option \<Rightarrow> nat \<Rightarrow> string option \<Rightarrow> nat \<Rightarrow> media_player \<Rightarrow> status \<times> media_player" where
  "MediaPlayer_setDataSource_url ans service created httpService url headers s =
     (case url of
        None \<Rightarrow> (BAD_VALUE, s)
      | Some u \<Rightarrow>
          if service then set_source_and_attach ans created (PSetDataSourceUrl httpService u headers) s
          else (BAD_VALUE, s))"

definition MediaPlayer_setDataSource_fd ::
  "player_answers \<Rightarrow> bool \<Rightarrow> nat option \<Rightarrow> int \<Rightarrow> int \<Rightarrow> int \<Rightarrow> media_player \<Rightarrow> status \<times> media_player" where
  "MediaPlayer_setDataSource_fd ans service created fd offset len s =
     (if service then set_source_and_attach ans created (PSetDataSourceFd fd offset len) s
      else (UNKNOWN_ERROR, s))"

definition MediaPlayer_setDataSource_callback ::
  "player_answers \<Rightarrow> bool \<Rightarrow> nat option \<Rightarrow> nat \<Rightarrow> media_player \<Rightarrow> status \<times> media_player" where
  "MediaPlayer_setDataSource_callback ans service created source s =
     (if service then set_source_and_attach ans created (PSetDataSourceCallback source) s
      else (UNKNOWN_ERROR, s))"

definition MediaPlayer_invoke :: "player_answers \<Rightarrow> nat \<Rightarrow> media_player \<Rightarrow> status \<times> media_player" where
  "MediaPlayer_invoke ans request s =
     (let hasBeenInitialized =
            mCurrentState s \<noteq> MEDIA_PLAYER_STATE_ERROR \<and>
            mCurrentState s AND MEDIA_PLAYER_IDLE \<noteq> MEDIA_PLAYER_IDLE
      in if mPlayer s \<noteq> None \<and> hasBeenInitialized
         then with_player INVALID_OPERATION ans (PInvoke request) s
         else (INVALID_OPERATION, s))"

definition MediaPlayer_setMetadataFilter :: "player_answers \<Rightarrow> nat \<Rightarrow> media_player \<Rightarrow> status \<times> media_player" where
  "MediaPlayer_setMetadataFilter ans filt s = with_player NO_INIT ans (PSetMetadataFilter filt) s"

definition MediaPlayer_getMetadata ::
  "player_answers \<Rightarrow> bool \<Rightarrow> bool \<Rightarrow> media_player \<Rightarrow> status \<times> media_player" where
  "MediaPlayer_getMetadata ans update_only apply_filter s =
     with_player NO_INIT ans (PGetMetadata update_only apply_filter) s"

definition MediaPlayer_setVideoSurfaceTexture ::
  "player_answers \<Rightarrow> nat \<Rightarrow> media_player \<Rightarrow> status \<times> media_player" where
  "MediaPlayer_setVideoSurfaceTexture ans bufferProducer s =
     with_player NO_INIT ans (PSetVideoSurfaceTexture bufferProducer) s"

definition MediaPlayer_getBufferingSettings :: "player_answers \<Rightarrow> media_player \<Rightarrow> status \<times> media_player" where
  "MediaPlayer_getBufferingSettings ans s = with_player NO_INIT ans PGetBufferingSettings s"

definition MediaPlayer_setBufferingSettings ::
  "player_answers \<Rightarrow> nat \<Rightarrow> media_player \<Rightarrow> status \<times> media_player" where
  "MediaPlayer_setBufferingSettings ans buffering s =
     with_player NO_INIT ans (PSetBufferingSettings buffering) s"

section \<open>Preparing\<close>

definition MediaPlayer_prepareAsync_l :: "player_answers \<Rightarrow> media_player \<Rightarrow> status \<times> media_player" where
  "MediaPlayer_prepareAsync_l ans s =
     (if mPlayer s \<noteq> None \<and> mCurrentState s AND (MEDIA_PLAYER_INITIALIZED OR MEDIA_PLAYER_STOPPED) \<noteq> 0
      then
        (let s1 = (case mAudioAttributesParcel s of
                     Some a \<Rightarrow> tell_player ans (PSetParameter KEY_PARAMETER_AUDIO_ATTRIBUTES a) s
                   | None \<Rightarrow> tell_player ans (PSetAudioStreamType (mStreamType s)) s)
         in with_player INVALID_OPERATION ans PPrepareAsync (s1\<lparr>mCurrentState := MEDIA_PLAYER_PREPARING\<rparr>))
      else (INVALID_OPERATION, s))"

text \<open>
  \<open>prepare\<close> up to its end or to the wait (\<open>None\<close>), and from the wait to its end. The test of
  \<open>mPrepareSync\<close> after \<open>prepareAsync_l\<close> is true unless a notification came in between on the
  same thread, which the one-way notifications of a remote player do not.
\<close>

definition MediaPlayer_prepare_enter ::
  "player_answers \<Rightarrow> nat \<Rightarrow> media_player \<Rightarrow> status option \<times> media_player" where
  "MediaPlayer_prepare_enter ans tid s =
     (if mPrepareSync s then (Some EALREADY, s\<lparr>mLockThreadId := 0\<rparr>)
      else
        (let (ret, s1) = MediaPlayer_prepareAsync_l ans (s\<lparr>mLockThreadId := tid, mPrepareSync := True\<rparr>)
         in if ret \<noteq> NO_ERROR then (Some ret, s1\<lparr>mLockThreadId := 0\<rparr>)
            else if mPrepareSync s1 then (None, s1\<lparr>waiting := waiting s1 + 1\<rparr>)
            else (Some (mPrepareStatus s1), s1\<lparr>mLockThreadId := 0\<rparr>)))"

definition MediaPlayer_prepare_resume :: "media_player \<Rightarrow> (status \<times> media_player) option" where
  "MediaPlayer_prepare_resume s =
     (if woken s = 0 then None
      else Some (mPrepareStatus s, s\<lparr>woken := woken s - 1, mPrepareSync := False, mLockThreadId := 0\<rparr>))"

definition MediaPlayer_prepareAsync :: "player_answers \<Rightarrow> media_player \<Rightarrow> status \<times> media_player" where
  "MediaPlayer_prepareAsync ans s = MediaPlayer_prepareAsync_l ans s"

section \<open>Playback\<close>

text \<open>What \<open>start\<close> and \<open>setPlaybackSettings\<close> send ahead of playback.\<close>

definition push_settings :: "player_answers \<Rightarrow> media_player \<Rightarrow> media_player" where
  "push_settings ans s =
     tell_player ans (PSetAuxEffectSendLevel (mSendLevel s))
       (tell_player ans (PSetVolume (mLeftVolume s) (mRightVolume s))
         (tell_player ans (PSetLooping (if mLoop s then 1 else 0)) s))"

text \<open>The commands that end in the error state when the remote player refuses them.\<close>

definition command :: "player_answers \<Rightarrow> player_call \<Rightarrow> int \<Rightarrow> media_player \<Rightarrow> status \<times> media_player" where
  "command ans c st s =
     (let (ret, s1) = with_player INVALID_OPERATION ans c s
      in (ret, s1\<lparr>mCurrentState := if ret \<noteq> NO_ERROR then MEDIA_PLAYER_STATE_ERROR else st\<rparr>))"

definition MediaPlayer_start :: "player_answers \<Rightarrow> media_player \<Rightarrow> status \<times> media_player" where
  "MediaPlayer_start ans s =
     (let (ret, s1) =
        (if mCurrentState s AND MEDIA_PLAYER_STARTED \<noteq> 0 then (NO_ERROR, s)
         else if mPlayer s \<noteq> None \<and>
                 mCurrentState s AND (MEDIA_PLAYER_PREPARED OR MEDIA_PLAYER_PLAYBACK_COMPLETE OR MEDIA_PLAYER_PAUSED) \<noteq> 0
         then command ans PStart MEDIA_PLAYER_STARTED (push_settings ans s)
         else (INVALID_OPERATION, s))
      in (ret, s1\<lparr>mLockThreadId := 0\<rparr>))"

definition MediaPlayer_stop :: "player_answers \<Rightarrow> media_player \<Rightarrow> status \<times> media_player" where
  "MediaPlayer_stop ans s =
     (if mCurrentState s AND MEDIA_PLAYER_STOPPED \<noteq> 0 then (NO_ERROR, s)
      else if mPlayer s \<noteq> None \<and>
              mCurrentState s AND (MEDIA_PLAYER_STARTED OR MEDIA_PLAYER_PREPARED OR
                MEDIA_PLAYER_PAUSED OR MEDIA_PLAYER_PLAYBACK_COMPLETE) \<noteq> 0
      then command ans PStop MEDIA_PLAYER_STOPPED s
      else (INVALID_OPERATION, s))"

definition MediaPlayer_pause :: "player_answers \<Rightarrow> media_player \<Rightarrow> status \<times> media_player" where
  "MediaPlayer_pause ans s =
     (if mCurrentState s AND (MEDIA_PLAYER_PAUSED OR MEDIA_PLAYER_PLAYBACK_COMPLETE) \<noteq> 0 then (NO_ERROR, s)
      else if mPlayer s \<noteq> None \<and> mCurrentState s AND MEDIA_PLAYER_STARTED \<noteq> 0
      then command ans PPause MEDIA_PLAYER_PAUSED s
      else (INVALID_OPERATION, s))"

text \<open>\<open>playing\<close> is what the remote player wrote; a failed call leaves \<open>temp\<close> at \<open>false\<close>.\<close>

definition MediaPlayer_isPlaying :: "player_answers \<Rightarrow> bool \<Rightarrow> media_player \<Rightarrow> bool \<times> media_player" where
  "MediaPlayer_isPlaying ans playing s =
     (if mPlayer s = None then (False, s)
      else
        (let s1 = tell_player ans PIsPlaying s
         in (playing,
             if mCurrentState s1 AND MEDIA_PLAYER_STARTED \<noteq> 0 \<and> \<not> playing
             then s1\<lparr>mCurrentState := MEDIA_PLAYER_PAUSED\<rparr>
             else if mCurrentState s1 AND MEDIA_PLAYER_PAUSED \<noteq> 0 \<and> playing
             then s1\<lparr>mCurrentState := MEDIA_PLAYER_STARTED\<rparr>
             else s1)))"

definition MediaPlayer_setPlaybackSettings ::
  "player_answers \<Rightarrow> playback_rate \<Rightarrow> media_player \<Rightarrow> status \<times> media_player" where
  "MediaPlayer_setPlaybackSettings ans rate s =
     (if float_neg (mSpeed rate) \<or> float_neg (mPitch rate) then (BAD_VALUE, s)
      else if mPlayer s = None \<or> mCurrentState s AND MEDIA_PLAYER_STOPPED \<noteq> 0 then (INVALID_OPERATION, s)
      else
        (let startable = mCurrentState s AND (MEDIA_PLAYER_PREPARED OR MEDIA_PLAYER_PAUSED
                           OR MEDIA_PLAYER_PLAYBACK_COMPLETE) \<noteq> 0;
             s1 = (if \<not> float_zero (mSpeed rate) \<and> mCurrentState s AND MEDIA_PLAYER_STARTED = 0 \<and> startable
                   then push_settings ans s else s);
             (err, s2) = with_player INVALID_OPERATION ans (PSetPlaybackSettings rate) s1
         in (err,
             if err \<noteq> OK then s2
             else if float_zero (mSpeed rate) \<and> mCurrentState s2 = MEDIA_PLAYER_STARTED
             then s2\<lparr>mCurrentState := MEDIA_PLAYER_PAUSED\<rparr>
             else if \<not> float_zero (mSpeed rate) \<and> startable
             then s2\<lparr>mCurrentState := MEDIA_PLAYER_STARTED\<rparr>
             else s2)))"

definition MediaPlayer_getPlaybackSettings :: "player_answers \<Rightarrow> media_player \<Rightarrow> status \<times> media_player" where
  "MediaPlayer_getPlaybackSettings ans s = with_player INVALID_OPERATION ans PGetPlaybackSettings s"

definition MediaPlayer_setSyncSettings ::
  "player_answers \<Rightarrow> nat \<Rightarrow> cfloat \<Rightarrow> media_player \<Rightarrow> status \<times> media_player" where
  "MediaPlayer_setSyncSettings ans sync videoFpsHint s =
     with_player INVALID_OPERATION ans (PSetSyncSettings sync videoFpsHint) s"

definition MediaPlayer_getSyncSettings :: "player_answers \<Rightarrow> media_player \<Rightarrow> status \<times> media_player" where
  "MediaPlayer_getSyncSettings ans s = with_player INVALID_OPERATION ans PGetSyncSettings s"

text \<open>Getters with an output argument return what they write; \<open>None\<close> if they write nothing.\<close>

definition MediaPlayer_getVideoWidth :: "media_player \<Rightarrow> status \<times> int option" where
  "MediaPlayer_getVideoWidth s =
     (if mPlayer s = None then (INVALID_OPERATION, None) else (NO_ERROR, Some (mVideoWidth s)))"

definition MediaPlayer_getVideoHeight :: "media_player \<Rightarrow> status \<times> int option" where
  "MediaPlayer_getVideoHeight s =
     (if mPlayer s = None then (INVALID_OPERATION, None) else (NO_ERROR, Some (mVideoHeight s)))"

definition MediaPlayer_getCurrentPosition ::
  "player_answers \<Rightarrow> int \<Rightarrow> media_player \<Rightarrow> status \<times> int option \<times> media_player" where
  "MediaPlayer_getCurrentPosition ans position s =
     (if mPlayer s \<noteq> None
      then
        (if mCurrentPosition s \<ge> 0 then (NO_ERROR, Some (mCurrentPosition s), s)
         else case with_player INVALID_OPERATION ans PGetCurrentPosition s of
           (ret, s1) \<Rightarrow> (ret, if ret = OK then Some position else None, s1))
      else (INVALID_OPERATION, None, s))"

definition MediaPlayer_getDuration_l ::
  "player_answers \<Rightarrow> int \<Rightarrow> media_player \<Rightarrow> status \<times> int option \<times> media_player" where
  "MediaPlayer_getDuration_l ans dur s =
     (if mPlayer s \<noteq> None \<and>
         mCurrentState s AND (MEDIA_PLAYER_PREPARED OR MEDIA_PLAYER_STARTED OR
           MEDIA_PLAYER_PAUSED OR MEDIA_PLAYER_STOPPED OR MEDIA_PLAYER_PLAYBACK_COMPLETE) \<noteq> 0
      then case with_player INVALID_OPERATION ans PGetDuration s of
        (ret, s1) \<Rightarrow> (OK, Some (if ret \<noteq> OK then -1 else dur), s1)
      else (INVALID_OPERATION, None, s))"

definition MediaPlayer_getDuration ::
  "player_answers \<Rightarrow> int \<Rightarrow> media_player \<Rightarrow> status \<times> int option \<times> media_player" where
  "MediaPlayer_getDuration ans dur s = MediaPlayer_getDuration_l ans dur s"

section \<open>Seeking\<close>

text \<open>The position that a request is brought into the range of the stream with.\<close>

definition clamp_seek :: "int \<Rightarrow> int \<Rightarrow> int" where
  "clamp_seek dur msec = (let m0 = (if msec < 0 then 0 else msec) in if m0 > dur then dur else m0)"

definition MediaPlayer_seekTo_l ::
  "player_answers \<Rightarrow> int \<Rightarrow> int \<Rightarrow> int \<Rightarrow> media_player \<Rightarrow> status \<times> media_player" where
  "MediaPlayer_seekTo_l ans dur msec mode s =
     (if mPlayer s \<noteq> None \<and>
         mCurrentState s AND (MEDIA_PLAYER_STARTED OR MEDIA_PLAYER_PREPARED OR
           MEDIA_PLAYER_PAUSED OR MEDIA_PLAYER_PLAYBACK_COMPLETE) \<noteq> 0
      then
        (let (err, s1) = with_player INVALID_OPERATION ans PGetDuration s
         in if err \<noteq> OK then (err, s1)
            else
              (let m1 = clamp_seek dur msec;
                   s2 = s1\<lparr>mCurrentPosition := m1, mCurrentSeekMode := mode\<rparr>
               in if mSeekPosition s2 < 0
                  then with_player INVALID_OPERATION ans (PSeekTo m1 mode)
                         (s2\<lparr>mSeekPosition := m1, mSeekMode := mode\<rparr>)
                  else (NO_ERROR, s2)))
      else (INVALID_OPERATION, s))"

definition MediaPlayer_seekTo ::
  "player_answers \<Rightarrow> int \<Rightarrow> int \<Rightarrow> int \<Rightarrow> media_player \<Rightarrow> status \<times> media_player" where
  "MediaPlayer_seekTo ans dur msec mode s =
     (let (result, s1) = MediaPlayer_seekTo_l ans dur msec mode s
      in (result, s1\<lparr>mLockThreadId := 0\<rparr>))"

definition MediaPlayer_notifyAt :: "player_answers \<Rightarrow> int \<Rightarrow> media_player \<Rightarrow> status \<times> media_player" where
  "MediaPlayer_notifyAt ans mediaTimeUs s = with_player INVALID_OPERATION ans (PNotifyAt mediaTimeUs) s"

definition MediaPlayer_reset_l :: "player_answers \<Rightarrow> media_player \<Rightarrow> status \<times> media_player" where
  "MediaPlayer_reset_l ans s =
     (let s1 = s\<lparr>mLoop := False\<rparr>
      in if mCurrentState s = MEDIA_PLAYER_IDLE then (NO_ERROR, s1)
         else
           (let s2 = s1\<lparr>mPrepareSync := False\<rparr>
            in if mPlayer s2 \<noteq> None
               then
                 (let (ret, s3) = with_player INVALID_OPERATION ans PReset s2;
                      s4 = (if ret \<noteq> NO_ERROR then s3\<lparr>mCurrentState := MEDIA_PLAYER_STATE_ERROR\<rparr>
                            else (tell_player ans PDisconnect s3)\<lparr>mCurrentState := MEDIA_PLAYER_IDLE\<rparr>)
                  in (ret, s4\<lparr>mPlayer := None\<rparr>))
               else (NO_ERROR, MediaPlayer_clear_l s2)))"

definition MediaPlayer_reset :: "player_answers \<Rightarrow> media_player \<Rightarrow> status \<times> media_player" where
  "MediaPlayer_reset ans s =
     (let (result, s1) = MediaPlayer_reset_l ans s in (result, s1\<lparr>mLockThreadId := 0\<rparr>))"

section \<open>Audio settings, parameters, DRM and routing\<close>

text \<open>The states in which stream type and audio attributes are frozen.\<close>

abbreviation prepared_states :: int where
  "prepared_states \<equiv> MEDIA_PLAYER_PREPARED OR MEDIA_PLAYER_STARTED OR
     MEDIA_PLAYER_PAUSED OR MEDIA_PLAYER_PLAYBACK_COMPLETE"

definition MediaPlayer_setAudioStreamType :: "int \<Rightarrow> media_player \<Rightarrow> status \<times> media_player" where
  "MediaPlayer_setAudioStreamType type s =
     (if mStreamType s = type then (NO_ERROR, s)
      else if mCurrentState s AND prepared_states \<noteq> 0 then (INVALID_OPERATION, s)
      else (OK, s\<lparr>mStreamType := type\<rparr>))"

definition MediaPlayer_getAudioStreamType :: "media_player \<Rightarrow> status \<times> int" where
  "MediaPlayer_getAudioStreamType s = (OK, mStreamType s)"

definition MediaPlayer_setLooping :: "player_answers \<Rightarrow> int \<Rightarrow> media_player \<Rightarrow> status \<times> media_player" where
  "MediaPlayer_setLooping ans loop s = with_player OK ans (PSetLooping loop) (s\<lparr>mLoop := (loop \<noteq> 0)\<rparr>)"

definition MediaPlayer_isLooping :: "media_player \<Rightarrow> bool" where
  "MediaPlayer_isLooping s = (if mPlayer s \<noteq> None then mLoop s else False)"

definition MediaPlayer_setVolume ::
  "player_answers \<Rightarrow> cfloat \<Rightarrow> cfloat \<Rightarrow> media_player \<Rightarrow> status \<times> media_player" where
  "MediaPlayer_setVolume ans l r s =
     with_player OK ans (PSetVolume l r) (s\<lparr>mLeftVolume := l, mRightVolume := r\<rparr>)"

definition MediaPlayer_setAudioSessionId :: "int \<Rightarrow> media_player \<Rightarrow> status \<times> media_player" where
  "MediaPlayer_setAudioSessionId sessionId s =
     (if mCurrentState s AND MEDIA_PLAYER_IDLE = 0 then (INVALID_OPERATION, s)
      else if sessionId < 0 then (BAD_VALUE, s)
      else if sessionId \<noteq> mAudioSessionId s
      then (NO_ERROR,
            (record_event (ReleaseSession (mAudioSessionId s))
              (record_event (AcquireSession sessionId) s))\<lparr>mAudioSessionId := sessionId\<rparr>)
      else (NO_ERROR, s))"

definition MediaPlayer_getAudioSessionId :: "media_player \<Rightarrow> int" where
  "MediaPlayer_getAudioSessionId s = mAudioSessionId s"

definition MediaPlayer_setAuxEffectSendLevel ::
  "player_answers \<Rightarrow> cfloat \<Rightarrow> media_player \<Rightarrow> status \<times> media_player" where
  "MediaPlayer_setAuxEffectSendLevel ans level s =
     with_player OK ans (PSetAuxEffectSendLevel level) (s\<lparr>mSendLevel := level\<rparr>)"

definition MediaPlayer_attachAuxEffect :: "player_answers \<Rightarrow> int \<Rightarrow> media_player \<Rightarrow> status \<times> media_player" where
  "MediaPlayer_attachAuxEffect ans effectId s =
     (if mPlayer s = None \<or> mCurrentState s AND MEDIA_PLAYER_IDLE \<noteq> 0 \<or>
         mCurrentState s = MEDIA_PLAYER_STATE_ERROR
      then (INVALID_OPERATION, s)
      else with_player INVALID_OPERATION ans (PAttachAuxEffect effectId) s)"

definition MediaPlayer_checkStateForKeySet_l :: "int \<Rightarrow> media_player \<Rightarrow> status" where
  "MediaPlayer_checkStateForKeySet_l key s =
     (if key = KEY_PARAMETER_AUDIO_ATTRIBUTES \<and> mCurrentState s AND prepared_states \<noteq> 0
      then INVALID_OPERATION else OK)"

definition MediaPlayer_setParameter :: "player_answers \<Rightarrow> int \<Rightarrow> nat \<Rightarrow> media_player \<Rightarrow> status \<times> media_player" where
  "MediaPlayer_setParameter ans key request s =
     (if MediaPlayer_checkStateForKeySet_l key s \<noteq> OK then (INVALID_OPERATION, s)
      else if key = KEY_PARAMETER_AUDIO_ATTRIBUTES
      then with_player OK ans (PSetParameter key request) (s\<lparr>mAudioAttributesParcel := Some request\<rparr>)
      else with_player INVALID_OPERATION ans (PSetParameter key request) s)"

definition MediaPlayer_getParameter :: "player_answers \<Rightarrow> int \<Rightarrow> media_player \<Rightarrow> status \<times> media_player" where
  "MediaPlayer_getParameter ans key s = with_player INVALID_OPERATION ans (PGetParameter key) s"

text \<open>\<open>inet_aton\<close> is the C library's parser of dotted addresses; the port is kept in host order.\<close>

definition MediaPlayer_setRetransmitEndpoint ::
  "(string \<Rightarrow> u32 option) \<Rightarrow> string option \<Rightarrow> u16 \<Rightarrow> media_player \<Rightarrow> status \<times> media_player" where
  "MediaPlayer_setRetransmitEndpoint inet_aton addrString port s =
     (if mPlayer s \<noteq> None \<or> mCurrentState s \<noteq> MEDIA_PLAYER_IDLE then (INVALID_OPERATION, s)
      else case addrString of
          None \<Rightarrow> (OK, s\<lparr>mRetransmitEndpointValid := False\<rparr>)
        | Some a \<Rightarrow>
            (case inet_aton a of
               None \<Rightarrow> (BAD_VALUE, s)
             | Some saddr \<Rightarrow>
                 (OK, s\<lparr>mRetransmitEndpoint := (saddr, port), mRetransmitEndpointValid := True\<rparr>)))"

text \<open>\<open>next\<close> is the state and the remote player of the other \<open>MediaPlayer\<close> object.\<close>

definition MediaPlayer_setNextMediaPlayer ::
  "player_answers \<Rightarrow> (int \<times> nat option) option \<Rightarrow> media_player \<Rightarrow> status \<times> media_player" where
  "MediaPlayer_setNextMediaPlayer ans nxt s =
     (if mPlayer s = None then (NO_INIT, s)
      else case nxt of
          None \<Rightarrow> with_player NO_INIT ans (PSetNextPlayer None) s
        | Some (st, p) \<Rightarrow>
            if st AND (MEDIA_PLAYER_PREPARED OR MEDIA_PLAYER_PAUSED OR MEDIA_PLAYER_PLAYBACK_COMPLETE) = 0
            then (INVALID_OPERATION, s)
            else with_player NO_INIT ans (PSetNextPlayer p) s)"

definition MediaPlayer_applyVolumeShaper ::
  "player_answers \<Rightarrow> nat \<Rightarrow> nat \<Rightarrow> media_player \<Rightarrow> status \<times> media_player" where
  "MediaPlayer_applyVolumeShaper ans configuration operation s =
     with_player NO_INIT ans (PApplyVolumeShaper configuration operation) s"

definition MediaPlayer_getVolumeShaperState ::
  "player_answers \<Rightarrow> nat option \<Rightarrow> int \<Rightarrow> media_player \<Rightarrow> nat option \<times> media_player" where
  "MediaPlayer_getVolumeShaperState ans reply ident s =
     (if mPlayer s = None then (None, s) else (reply, tell_player ans (PGetVolumeShaperState ident) s))"

definition MediaPlayer_prepareDrm ::
  "player_answers \<Rightarrow> nat \<Rightarrow> u8 list \<Rightarrow> media_player \<Rightarrow> status \<times> media_player" where
  "MediaPlayer_prepareDrm ans uuid drmSessionId s =
     (if mPlayer s = None then (NO_INIT, s)
      else if mCurrentState s AND (MEDIA_PLAYER_PREPARING OR MEDIA_PLAYER_PREPARED) = 0
      then (INVALID_OPERATION, s)
      else if drmSessionId = [] then (INVALID_OPERATION, s)
      else with_player NO_INIT ans (PPrepareDrm uuid drmSessionId) s)"

definition MediaPlayer_releaseDrm :: "player_answers \<Rightarrow> media_player \<Rightarrow> status \<times> media_player" where
  "MediaPlayer_releaseDrm ans s =
     (if mPlayer s = None then (NO_INIT, s)
      else if mCurrentState s AND (MEDIA_PLAYER_STARTED OR MEDIA_PLAYER_PAUSED OR
                MEDIA_PLAYER_PLAYBACK_COMPLETE OR MEDIA_PLAYER_STATE_ERROR) \<noteq> 0
      then (INVALID_OPERATION, s)
      else (OK, tell_player ans PReleaseDrm s))"

definition MediaPlayer_setOutputDevice :: "player_answers \<Rightarrow> int \<Rightarrow> media_player \<Rightarrow> status \<times> media_player" where
  "MediaPlayer_setOutputDevice ans deviceId s = with_player NO_INIT ans (PSetOutputDevice deviceId) s"

text \<open>\<open>none\<close> stands for \<open>AUDIO_PORT_HANDLE_NONE\<close>.\<close>

definition MediaPlayer_getRoutedDeviceId ::
  "player_answers \<Rightarrow> int \<Rightarrow> int \<Rightarrow> media_player \<Rightarrow> int \<times> media_player" where
  "MediaPlayer_getRoutedDeviceId ans reply none s =
     (if mPlayer s = None then (none, s)
      else case with_player NO_INIT ans PGetRoutedDeviceId s of
        (st, s1) \<Rightarrow> (if st \<noteq> NO_ERROR then none else reply, s1))"

definition MediaPlayer_enableAudioDeviceCallback ::
  "player_answers \<Rightarrow> bool \<Rightarrow> media_player \<Rightarrow> status \<times> media_player" where
  "MediaPlayer_enableAudioDeviceCallback ans enabled s =
     with_player NO_INIT ans (PEnableAudioDeviceCallback enabled) s"

section \<open>Notifications\<close>

text \<open>
  The effect of a message on the state, with whether it is passed on to the listener; \<open>dur\<close> is
  the duration that the remote player gives if a queued seek asks for it.
\<close>

definition notify_state :: "player_answers \<Rightarrow> int \<Rightarrow> int \<Rightarrow> int \<Rightarrow> int \<Rightarrow> media_player \<Rightarrow> bool \<times> media_player" where
  "notify_state ans dur msg ext1 ext2 s =
     (if msg = MEDIA_PREPARED
      then (let s1 = s\<lparr>mCurrentState := MEDIA_PLAYER_PREPARED\<rparr>
            in (True, if mPrepareSync s1
                      then signal (s1\<lparr>mPrepareSync := False, mPrepareStatus := NO_ERROR\<rparr>) else s1))
      else if msg = MEDIA_PLAYBACK_COMPLETE
      then (True, if \<not> mLoop s then s\<lparr>mCurrentState := MEDIA_PLAYER_PLAYBACK_COMPLETE\<rparr> else s)
      else if msg = MEDIA_ERROR
      then (let s1 = s\<lparr>mCurrentState := MEDIA_PLAYER_STATE_ERROR\<rparr>
            in if mPrepareSync s1
               then (False, signal (s1\<lparr>mPrepareSync := False, mPrepareStatus := status_of_int ext1\<rparr>))
               else (True, s1))
      else if msg = MEDIA_SEEK_COMPLETE
      then (True,
            if mSeekPosition s \<noteq> mCurrentPosition s \<or> mSeekMode s \<noteq> mCurrentSeekMode s
            then snd (MediaPlayer_seekTo_l ans dur (mCurrentPosition s) (mCurrentSeekMode s)
                        (s\<lparr>mSeekPosition := -1, mSeekMode := SEEK_PREVIOUS_SYNC\<rparr>))
            else s\<lparr>mCurrentPosition := -1, mSeekPosition := -1,
                   mCurrentSeekMode := SEEK_PREVIOUS_SYNC, mSeekMode := SEEK_PREVIOUS_SYNC\<rparr>)
      else if msg = MEDIA_SET_VIDEO_SIZE
      then (True, s\<lparr>mVideoWidth := ext1, mVideoHeight := ext2\<rparr>)
      else (True, s))"

definition MediaPlayer_notify :: "player_answers \<Rightarrow> int \<Rightarrow> int \<Rightarrow> int \<Rightarrow> int \<Rightarrow> media_player \<Rightarrow> media_player" where
  "MediaPlayer_notify ans dur msg ext1 ext2 s =
     (if \<not> (msg = MEDIA_ERROR \<and> mCurrentState s = MEDIA_PLAYER_IDLE) \<and> mPlayer s = None then s
      else
        (let (send, s1) = notify_state ans dur msg ext1 ext2 (record_event (Got msg ext1 ext2) s)
         in case mListener s1 of
              Some l \<Rightarrow> if send then s1\<lparr>delivered := delivered s1 @ [(l, msg, ext1, ext2)]\<rparr> else s1
            | None \<Rightarrow> s1))"

definition MediaPlayer_died :: "player_answers \<Rightarrow> int \<Rightarrow> media_player \<Rightarrow> media_player" where
  "MediaPlayer_died ans dur s = MediaPlayer_notify ans dur MEDIA_ERROR MEDIA_ERROR_SERVER_DIED 0 s"

section \<open>Runs of the player\<close>

text \<open>
  Any method, notification or wake-up, with any answers. The remote player reports a duration
  only if it is not negative (\<open>NuPlayerDriver::getDuration\<close> answers an error otherwise).
\<close>

definition sane_duration :: "player_answers \<Rightarrow> int \<Rightarrow> bool" where
  "sane_duration ans dur \<longleftrightarrow> (ans PGetDuration = OK \<longrightarrow> 0 \<le> dur)"

inductive player_step :: "media_player \<Rightarrow> media_player \<Rightarrow> bool" where
  disconnect: "player_step s (MediaPlayer_disconnect ans s)"
| setListener: "player_step s (snd (MediaPlayer_setListener listener s))"
| setDataSource_url: "player_step s (snd (MediaPlayer_setDataSource_url ans service created http url headers s))"
| setDataSource_fd: "player_step s (snd (MediaPlayer_setDataSource_fd ans service created fd offset len s))"
| setDataSource_callback: "player_step s (snd (MediaPlayer_setDataSource_callback ans service created source s))"
| invoke: "player_step s (snd (MediaPlayer_invoke ans request s))"
| setMetadataFilter: "player_step s (snd (MediaPlayer_setMetadataFilter ans filt s))"
| getMetadata: "player_step s (snd (MediaPlayer_getMetadata ans u a s))"
| setVideoSurfaceTexture: "player_step s (snd (MediaPlayer_setVideoSurfaceTexture ans surface s))"
| getBufferingSettings: "player_step s (snd (MediaPlayer_getBufferingSettings ans s))"
| setBufferingSettings: "player_step s (snd (MediaPlayer_setBufferingSettings ans buffering s))"
| prepare_enter: "player_step s (snd (MediaPlayer_prepare_enter ans tid s))"
| prepare_resume: "MediaPlayer_prepare_resume s = Some (r, t) \<Longrightarrow> player_step s t"
| prepareAsync: "player_step s (snd (MediaPlayer_prepareAsync ans s))"
| start: "player_step s (snd (MediaPlayer_start ans s))"
| stop: "player_step s (snd (MediaPlayer_stop ans s))"
| pause: "player_step s (snd (MediaPlayer_pause ans s))"
| isPlaying: "player_step s (snd (MediaPlayer_isPlaying ans playing s))"
| setPlaybackSettings: "player_step s (snd (MediaPlayer_setPlaybackSettings ans rate s))"
| getPlaybackSettings: "player_step s (snd (MediaPlayer_getPlaybackSettings ans s))"
| setSyncSettings: "player_step s (snd (MediaPlayer_setSyncSettings ans sync fps s))"
| getSyncSettings: "player_step s (snd (MediaPlayer_getSyncSettings ans s))"
| getCurrentPosition: "player_step s (snd (snd (MediaPlayer_getCurrentPosition ans position s)))"
| getDuration: "player_step s (snd (snd (MediaPlayer_getDuration ans dur s)))"
| seekTo: "sane_duration ans dur \<Longrightarrow> player_step s (snd (MediaPlayer_seekTo ans dur msec mode s))"
| notifyAt: "player_step s (snd (MediaPlayer_notifyAt ans time s))"
| reset: "player_step s (snd (MediaPlayer_reset ans s))"
| setAudioStreamType: "player_step s (snd (MediaPlayer_setAudioStreamType type s))"
| setLooping: "player_step s (snd (MediaPlayer_setLooping ans loop s))"
| setVolume: "player_step s (snd (MediaPlayer_setVolume ans l r s))"
| setAudioSessionId: "player_step s (snd (MediaPlayer_setAudioSessionId ident s))"
| setAuxEffectSendLevel: "player_step s (snd (MediaPlayer_setAuxEffectSendLevel ans level s))"
| attachAuxEffect: "player_step s (snd (MediaPlayer_attachAuxEffect ans effect s))"
| setParameter: "player_step s (snd (MediaPlayer_setParameter ans key request s))"
| getParameter: "player_step s (snd (MediaPlayer_getParameter ans key s))"
| setRetransmitEndpoint: "player_step s (snd (MediaPlayer_setRetransmitEndpoint inet_aton addr port s))"
| setNextMediaPlayer: "player_step s (snd (MediaPlayer_setNextMediaPlayer ans nxt s))"
| applyVolumeShaper: "player_step s (snd (MediaPlayer_applyVolumeShaper ans conf op s))"
| getVolumeShaperState: "player_step s (snd (MediaPlayer_getVolumeShaperState ans reply ident s))"
| prepareDrm: "player_step s (snd (MediaPlayer_prepareDrm ans uuid session s))"
| releaseDrm: "player_step s (snd (MediaPlayer_releaseDrm ans s))"
| setOutputDevice: "player_step s (snd (MediaPlayer_setOutputDevice ans dev s))"
| getRoutedDeviceId: "player_step s (snd (MediaPlayer_getRoutedDeviceId ans reply none s))"
| enableAudioDeviceCallback: "player_step s (snd (MediaPlayer_enableAudioDeviceCallback ans b s))"
| notify: "sane_duration ans dur \<Longrightarrow> player_step s (MediaPlayer_notify ans dur msg ext1 ext2 s)"
| died: "sane_duration ans dur \<Longrightarrow> player_step s (MediaPlayer_died ans dur s)"

definition player_init :: "media_player \<Rightarrow> bool" where
  "player_init s \<longleftrightarrow> (\<exists>session junk. s = new_media_player session junk)"

section \<open>The documented state diagram\<close>

datatype player_state =
  Error | Idle | Initialized | Preparing | Prepared | Started | Paused | Stopped | Completed

text \<open>
  The diagram, over the state and whether a remote player is attached: what the application
  can do (attach, prepare, play, pause, stop, reset, disconnect), what the remote player
  reports (prepared, completed, error), and the fall into the error state when the remote
  player refuses a command.
\<close>

inductive diagram :: "bool \<times> player_state \<Rightarrow> bool \<times> player_state \<Rightarrow> bool" where
  attach: "st \<in> {Idle, Error} \<Longrightarrow> diagram (b, st) (True, Initialized)"
| attach_failed: "st \<in> {Idle, Error} \<Longrightarrow> diagram (True, st) (False, st)"
| prepare: "st \<in> {Initialized, Stopped} \<Longrightarrow> diagram (True, st) (True, Preparing)"
| play: "st \<in> {Prepared, Paused, Completed} \<Longrightarrow> diagram (True, st) (True, Started)"
| halt: "diagram (True, Started) (True, Paused)"
| stop: "st \<in> {Prepared, Started, Paused, Completed} \<Longrightarrow> diagram (True, st) (True, Stopped)"
| refused: "st \<in> {Prepared, Started, Paused, Completed} \<Longrightarrow> diagram (True, st) (True, Error)"
| reset: "st \<noteq> Idle \<Longrightarrow> diagram (True, st) (False, Idle)"
| reset_failed: "st \<noteq> Idle \<Longrightarrow> diagram (True, st) (False, Error)"
| disconnect: "diagram (True, st) (False, st)"
| report_prepared: "diagram (True, st) (True, Prepared)"
| report_completed: "diagram (True, st) (True, Completed)"
| report_error: "diagram (True, st) (True, Error)"
| report_error_idle: "diagram (False, Idle) (False, Error)"

definition state_of :: "int \<Rightarrow> player_state" where
  "state_of st =
     (if st = MEDIA_PLAYER_IDLE then Idle
      else if st = MEDIA_PLAYER_INITIALIZED then Initialized
      else if st = MEDIA_PLAYER_PREPARING then Preparing
      else if st = MEDIA_PLAYER_PREPARED then Prepared
      else if st = MEDIA_PLAYER_STARTED then Started
      else if st = MEDIA_PLAYER_PAUSED then Paused
      else if st = MEDIA_PLAYER_STOPPED then Stopped
      else if st = MEDIA_PLAYER_PLAYBACK_COMPLETE then Completed
      else Error)"

definition player_view :: "media_player \<Rightarrow> bool \<times> player_state" where
  "player_view s = (mPlayer s \<noteq> None, state_of (mCurrentState s))"

text \<open>
  Seeks on the wire: \<open>Some True\<close> after a seek that has not been reported complete by the
  attached player, \<open>None\<close> as soon as a second one is sent meanwhile.
\<close>

fun seek_next :: "bool \<Rightarrow> player_event \<Rightarrow> bool option" where
  "seek_next pending (Sent p c r) =
     (case c of PSeekTo m k \<Rightarrow> if pending then None else Some True | _ \<Rightarrow> Some pending)"
| "seek_next pending (Got msg ext1 ext2) = Some (if msg = MEDIA_SEEK_COMPLETE then False else pending)"
| "seek_next pending (Attached p) = Some False"
| "seek_next pending (AcquireSession i) = Some pending"
| "seek_next pending (ReleaseSession i) = Some pending"

fun seek_scan :: "bool \<Rightarrow> player_event list \<Rightarrow> bool option" where
  "seek_scan pending [] = Some pending"
| "seek_scan pending (e # es) =
     (case seek_next pending e of None \<Rightarrow> None | Some pending' \<Rightarrow> seek_scan pending' es)"

text \<open>The references to an audio session that are held after some events.\<close>

fun session_refs :: "player_event list \<Rightarrow> int \<Rightarrow> int" where
  "session_refs [] i = 0"
| "session_refs (AcquireSession j # es) i = (if j = i then 1 else 0) + session_refs es i"
| "session_refs (ReleaseSession j # es) i = (if j = i then -1 else 0) + session_refs es i"
| "session_refs (_ # es) i = session_refs es i"

section \<open>The invariant and the steps that leave the view alone\<close>

definition player_states :: "int set" where
  "player_states = {MEDIA_PLAYER_STATE_ERROR, MEDIA_PLAYER_IDLE, MEDIA_PLAYER_INITIALIZED,
     MEDIA_PLAYER_PREPARING, MEDIA_PLAYER_PREPARED, MEDIA_PLAYER_STARTED, MEDIA_PLAYER_PAUSED,
     MEDIA_PLAYER_STOPPED, MEDIA_PLAYER_PLAYBACK_COMPLETE}"

text \<open>A seek that is pending on the attached player is remembered in \<open>mSeekPosition\<close>.\<close>

definition seeks_ok :: "media_player \<Rightarrow> bool" where
  "seeks_ok s \<longleftrightarrow>
     (case seek_scan False (events s) of
        None \<Rightarrow> False
      | Some pending \<Rightarrow> pending \<and> mPlayer s \<noteq> None \<longrightarrow> 0 \<le> mSeekPosition s)"

definition sessions_ok :: "media_player \<Rightarrow> bool" where
  "sessions_ok s \<longleftrightarrow> (\<forall>i. session_refs (events s) i = (if i = mAudioSessionId s then 1 else 0))"

definition player_inv :: "media_player \<Rightarrow> bool" where
  "player_inv s \<longleftrightarrow> mCurrentState s \<in> player_states \<and> seeks_ok s \<and> sessions_ok s"

lemma seek_scan_append:
  "seek_scan b (xs @ ys) = (case seek_scan b xs of None \<Rightarrow> None | Some b' \<Rightarrow> seek_scan b' ys)"
  by (induction b xs rule: seek_scan.induct) (auto split: option.split)

lemma session_refs_append: "session_refs (xs @ ys) i = session_refs xs i + session_refs ys i"
  by (induction xs i rule: session_refs.induct) auto

text \<open>Events that matter neither for the seeks nor for the sessions.\<close>

fun plain :: "player_event \<Rightarrow> bool" where
  "plain (Sent p (PSeekTo m k) r) = False"
| "plain (Sent p c r) = True"
| "plain (Got msg ext1 ext2) = (msg \<noteq> MEDIA_SEEK_COMPLETE)"
| "plain _ = False"

lemma plain_seek_next: "plain e \<Longrightarrow> seek_next b e = Some b"
  by (cases e rule: plain.cases) auto

lemma plain_seek_scan: "list_all plain es \<Longrightarrow> seek_scan b es = Some b"
  by (induction es) (simp_all add: plain_seek_next)

lemma plain_session_refs: "list_all plain es \<Longrightarrow> session_refs es i = 0"
proof (induction es)
  case Nil
  show ?case by simp
next
  case (Cons e es)
  then show ?case by (cases e rule: plain.cases) auto
qed

definition quiet :: "media_player \<Rightarrow> media_player \<Rightarrow> bool" where
  "quiet s t \<longleftrightarrow>
     mPlayer t = mPlayer s \<and> mCurrentState t = mCurrentState s \<and> mSeekPosition t = mSeekPosition s \<and>
     mAudioSessionId t = mAudioSessionId s \<and> (\<exists>es. events t = events s @ es \<and> list_all plain es)"

lemma quiet_refl [simp]: "quiet s s"
  by (simp add: quiet_def)

lemma quiet_record [simp]: "quiet s t \<Longrightarrow> plain e \<Longrightarrow> quiet s (record_event e t)"
  by (auto simp: quiet_def record_event_def intro: exI [of _ "_ @ [e]"])

lemma quiet_upd [simp]:
  assumes "quiet s t"
  shows "quiet s (t\<lparr>mLockThreadId := a\<rparr>)" "quiet s (t\<lparr>mListener := b\<rparr>)"
    "quiet s (t\<lparr>mCurrentPosition := c\<rparr>)" "quiet s (t\<lparr>mCurrentSeekMode := d\<rparr>)"
    "quiet s (t\<lparr>mSeekMode := d\<rparr>)" "quiet s (t\<lparr>mPrepareSync := e\<rparr>)" "quiet s (t\<lparr>mPrepareStatus := f\<rparr>)"
    "quiet s (t\<lparr>mStreamType := c\<rparr>)" "quiet s (t\<lparr>mAudioAttributesParcel := b\<rparr>)" "quiet s (t\<lparr>mLoop := e\<rparr>)"
    "quiet s (t\<lparr>mLeftVolume := g\<rparr>)" "quiet s (t\<lparr>mRightVolume := g\<rparr>)" "quiet s (t\<lparr>mVideoWidth := c\<rparr>)"
    "quiet s (t\<lparr>mVideoHeight := c\<rparr>)" "quiet s (t\<lparr>mSendLevel := g\<rparr>)"
    "quiet s (t\<lparr>mRetransmitEndpoint := h\<rparr>)" "quiet s (t\<lparr>mRetransmitEndpointValid := e\<rparr>)"
    "quiet s (t\<lparr>waiting := a\<rparr>)" "quiet s (t\<lparr>woken := a\<rparr>)" "quiet s (t\<lparr>delivered := l\<rparr>)"
  using assms by (simp_all add: quiet_def)

lemma quiet_with_player [simp]:
  "quiet s t \<Longrightarrow> \<forall>p. plain (Sent p c (ans c)) \<Longrightarrow> quiet s (snd (with_player err ans c t))"
  by (simp add: with_player_def send_to_def split: option.split)

lemma quiet_tell_player [simp]:
  "quiet s t \<Longrightarrow> \<forall>p. plain (Sent p c (ans c)) \<Longrightarrow> quiet s (tell_player ans c t)"
  by (simp add: tell_player_def)

lemma quiet_signal [simp]: "quiet s t \<Longrightarrow> quiet s (signal t)"
  by (simp add: signal_def)

lemma quiet_push_settings [simp]: "quiet s t \<Longrightarrow> quiet s (push_settings ans t)"
  by (simp add: push_settings_def)

text \<open>What the application does not see happening keeps the invariant, also when the state word changes after it.\<close>

lemma quiet_view: "quiet s t \<Longrightarrow> player_view t = player_view s"
  by (simp add: quiet_def player_view_def)

lemma quiet_inv: "quiet s t \<Longrightarrow> player_inv s \<Longrightarrow> player_inv t"
  by (auto simp: quiet_def player_inv_def seeks_ok_def sessions_ok_def seek_scan_append
      session_refs_append plain_seek_scan plain_session_refs split: option.splits)

lemma inv_state [simp]: "player_inv s \<Longrightarrow> st \<in> player_states \<Longrightarrow> player_inv (s\<lparr>mCurrentState := st\<rparr>)"
  by (simp add: player_inv_def seeks_ok_def sessions_ok_def split: option.splits)

lemma inv_no_player [simp]: "player_inv s \<Longrightarrow> player_inv (s\<lparr>mPlayer := None\<rparr>)"
  by (auto simp: player_inv_def seeks_ok_def sessions_ok_def split: option.splits)

lemma player_states_mem [simp]:
  "0 \<in> player_states" "1 \<in> player_states" "2 \<in> player_states" "4 \<in> player_states" "8 \<in> player_states"
  "16 \<in> player_states" "32 \<in> player_states" "64 \<in> player_states" "128 \<in> player_states"
  by (simp_all add: player_states_def)

text \<open>The contract of a step.\<close>

definition player_ok :: "media_player \<Rightarrow> media_player \<Rightarrow> bool" where
  "player_ok s t \<longleftrightarrow>
     player_inv t \<and> (player_view s = player_view t \<or> diagram (player_view s) (player_view t))"

lemma player_ok_quiet: "player_inv s \<Longrightarrow> quiet s t \<Longrightarrow> player_ok s t"
  by (simp add: player_ok_def quiet_view quiet_inv)

lemma player_ok_state:
  assumes "player_inv s" and "quiet s t" and "st \<in> player_states"
    and "diagram (player_view s) (mPlayer s \<noteq> None, state_of st)"
  shows "player_ok s (t\<lparr>mCurrentState := st\<rparr>)"
  using assms inv_state [OF quiet_inv [OF assms(2,1)] assms(3)]
  by (simp add: player_ok_def player_view_def quiet_def)

lemma player_ok_trans:
  assumes "player_inv s" and "quiet s t" and "player_ok t u"
  shows "player_ok s u"
  using assms by (simp add: player_ok_def quiet_view)

lemma player_ok_quiet_trans:
  assumes "player_ok s t" and "quiet t u"
  shows "player_ok s u"
  using assms by (auto simp: player_ok_def quiet_view quiet_inv)

text \<open>The pass-through methods.\<close>

lemmas player_pass_through =
  MediaPlayer_setListener_def MediaPlayer_invoke_def MediaPlayer_setMetadataFilter_def
  MediaPlayer_getMetadata_def MediaPlayer_setVideoSurfaceTexture_def
  MediaPlayer_getBufferingSettings_def MediaPlayer_setBufferingSettings_def
  MediaPlayer_getPlaybackSettings_def MediaPlayer_setSyncSettings_def
  MediaPlayer_getSyncSettings_def MediaPlayer_getCurrentPosition_def MediaPlayer_getDuration_def
  MediaPlayer_getDuration_l_def MediaPlayer_notifyAt_def MediaPlayer_setAudioStreamType_def
  MediaPlayer_setLooping_def MediaPlayer_setVolume_def MediaPlayer_setAuxEffectSendLevel_def
  MediaPlayer_attachAuxEffect_def MediaPlayer_setParameter_def MediaPlayer_getParameter_def
  MediaPlayer_setNextMediaPlayer_def
  MediaPlayer_applyVolumeShaper_def MediaPlayer_getVolumeShaperState_def
  MediaPlayer_prepareDrm_def MediaPlayer_releaseDrm_def MediaPlayer_setOutputDevice_def
  MediaPlayer_getRoutedDeviceId_def MediaPlayer_enableAudioDeviceCallback_def

lemma quiet_methods:
  "quiet s (snd (MediaPlayer_setListener listener s))"
  "quiet s (snd (MediaPlayer_invoke ans request s))"
  "quiet s (snd (MediaPlayer_setMetadataFilter ans filt s))"
  "quiet s (snd (MediaPlayer_getMetadata ans u a s))"
  "quiet s (snd (MediaPlayer_setVideoSurfaceTexture ans surface s))"
  "quiet s (snd (MediaPlayer_getBufferingSettings ans s))"
  "quiet s (snd (MediaPlayer_setBufferingSettings ans buffering s))"
  "quiet s (snd (MediaPlayer_getPlaybackSettings ans s))"
  "quiet s (snd (MediaPlayer_setSyncSettings ans sync fps s))"
  "quiet s (snd (MediaPlayer_getSyncSettings ans s))"
  "quiet s (snd (snd (MediaPlayer_getCurrentPosition ans position s)))"
  "quiet s (snd (snd (MediaPlayer_getDuration ans dur s)))"
  "quiet s (snd (MediaPlayer_notifyAt ans time s))"
  "quiet s (snd (MediaPlayer_setAudioStreamType type s))"
  "quiet s (snd (MediaPlayer_setLooping ans loop s))"
  "quiet s (snd (MediaPlayer_setVolume ans l r s))"
  "quiet s (snd (MediaPlayer_setAuxEffectSendLevel ans level s))"
  "quiet s (snd (MediaPlayer_attachAuxEffect ans effect s))"
  "quiet s (snd (MediaPlayer_setParameter ans key request s))"
  "quiet s (snd (MediaPlayer_getParameter ans key s))"
  "quiet s (snd (MediaPlayer_setNextMediaPlayer ans nxt s))"
  "quiet s (snd (MediaPlayer_applyVolumeShaper ans conf op s))"
  "quiet s (snd (MediaPlayer_getVolumeShaperState ans reply ident s))"
  "quiet s (snd (MediaPlayer_prepareDrm ans uuid session s))"
  "quiet s (snd (MediaPlayer_releaseDrm ans s))"
  "quiet s (snd (MediaPlayer_setOutputDevice ans dev s))"
  "quiet s (snd (MediaPlayer_getRoutedDeviceId ans dev none s))"
  "quiet s (snd (MediaPlayer_enableAudioDeviceCallback ans b s))"
  by (simp_all add: player_pass_through case_prod_beta Let_def split: option.split)

lemma quiet_setRetransmitEndpoint:
  "quiet s (snd (MediaPlayer_setRetransmitEndpoint inet_aton addr port s))"
  by (simp add: MediaPlayer_setRetransmitEndpoint_def split: option.split)

lemma quiet_resume: "MediaPlayer_prepare_resume s = Some (r, t) \<Longrightarrow> quiet s t"
  by (auto simp: MediaPlayer_prepare_resume_def split: if_splits)

text \<open>The commands of the application.\<close>

lemma state_of_simps [simp]:
  "state_of 0 = Error" "state_of 1 = Idle" "state_of 2 = Initialized" "state_of 4 = Preparing"
  "state_of 8 = Prepared" "state_of 16 = Started" "state_of 32 = Paused" "state_of 64 = Stopped"
  "state_of 128 = Completed"
  by (simp_all add: state_of_def)

text \<open>The masks of the code, read as sets of states.\<close>

lemma player_masks:
  assumes "st \<in> player_states"
  shows "st AND 1 = 0 \<longleftrightarrow> st \<noteq> 1" and "st AND 16 = 0 \<longleftrightarrow> st \<noteq> 16" and "st AND 32 = 0 \<longleftrightarrow> st \<noteq> 32"
    and "st AND 64 = 0 \<longleftrightarrow> st \<noteq> 64" and "st AND 66 = 0 \<longleftrightarrow> st \<notin> {2, 64}"
    and "st AND 160 = 0 \<longleftrightarrow> st \<notin> {32, 128}" and "st AND 168 = 0 \<longleftrightarrow> st \<notin> {8, 128, 32}"
    and "st AND 184 = 0 \<longleftrightarrow> st \<notin> {8, 16, 32, 128}"
proof -
  have "st = 0 \<or> st = 1 \<or> st = 2 \<or> st = 4 \<or> st = 8 \<or> st = 16 \<or> st = 32 \<or> st = 64 \<or> st = 128"
    using assms by (simp add: player_states_def)
  then show "st AND 1 = 0 \<longleftrightarrow> st \<noteq> 1" "st AND 16 = 0 \<longleftrightarrow> st \<noteq> 16" "st AND 32 = 0 \<longleftrightarrow> st \<noteq> 32"
    "st AND 64 = 0 \<longleftrightarrow> st \<noteq> 64" "st AND 66 = 0 \<longleftrightarrow> st \<notin> {2, 64}"
    "st AND 160 = 0 \<longleftrightarrow> st \<notin> {32, 128}" "st AND 168 = 0 \<longleftrightarrow> st \<notin> {8, 128, 32}"
    "st AND 184 = 0 \<longleftrightarrow> st \<notin> {8, 16, 32, 128}"
    by (elim disjE; simp)+
qed

lemma player_invD: "player_inv s \<Longrightarrow> mCurrentState s \<in> player_states"
  by (simp add: player_inv_def)

lemma view_attached: "mPlayer s \<noteq> None \<Longrightarrow> player_view s = (True, state_of (mCurrentState s))"
  by (simp add: player_view_def)

lemma player_ok_command:
  assumes "player_inv s" and "quiet s t" and "mPlayer s \<noteq> None"
    and "mCurrentState s \<in> {8, 16, 32, 128}" and "\<forall>p. plain (Sent p c (ans c))"
    and "st \<in> player_states" and "diagram (True, state_of (mCurrentState s)) (True, state_of st)"
  shows "player_ok s (snd (command ans c st t))"
proof -
  have "diagram (player_view s) (mPlayer s \<noteq> None, Error)"
    using assms(3,4) by (auto simp: view_attached intro: diagram.intros)
  moreover have "diagram (player_view s) (mPlayer s \<noteq> None, state_of st)"
    using assms(3,7) by (simp add: view_attached)
  ultimately show ?thesis
    using assms(1,2,5,6) by (simp add: command_def case_prod_beta Let_def player_ok_state)
qed

lemma ok_disconnect: "player_inv s \<Longrightarrow> player_ok s (MediaPlayer_disconnect ans s)"
proof -
  assume inv: "player_inv s"
  have q: "quiet s (tell_player ans PDisconnect s)" by simp
  then have "player_inv (MediaPlayer_disconnect ans s)"
    unfolding MediaPlayer_disconnect_def by (intro inv_no_player quiet_inv [OF q inv])
  moreover have "player_view (MediaPlayer_disconnect ans s) = (False, state_of (mCurrentState s))"
    using q by (simp add: MediaPlayer_disconnect_def player_view_def quiet_def)
  ultimately show ?thesis
    by (cases "mPlayer s") (auto simp: player_ok_def player_view_def intro: diagram.disconnect)
qed

lemma ok_start:
  assumes "player_inv s"
  shows "player_ok s (snd (MediaPlayer_start ans s))"
proof -
  have "player_ok s (snd (command ans PStart 16 (push_settings ans s)))"
    if "mPlayer s \<noteq> None" and "mCurrentState s \<in> {8, 128, 32}"
    using assms that by (intro player_ok_command) (auto intro: diagram.play)
  then show ?thesis
    using assms
    by (auto simp: player_masks [OF player_invD [OF assms]] MediaPlayer_start_def case_prod_beta Let_def
        intro: player_ok_quiet player_ok_quiet_trans)
qed

lemma ok_stop:
  assumes "player_inv s"
  shows "player_ok s (snd (MediaPlayer_stop ans s))"
proof -
  have "player_ok s (snd (command ans PStop 64 s))"
    if "mPlayer s \<noteq> None" and "mCurrentState s \<in> {8, 16, 32, 128}"
    using assms that by (intro player_ok_command) (auto intro: diagram.stop)
  then show ?thesis
    using assms
    by (auto simp: player_masks [OF player_invD [OF assms]] MediaPlayer_stop_def intro: player_ok_quiet)
qed

lemma ok_pause:
  assumes "player_inv s"
  shows "player_ok s (snd (MediaPlayer_pause ans s))"
proof -
  have "player_ok s (snd (command ans PPause 32 s))"
    if "mPlayer s \<noteq> None" and "mCurrentState s = 16"
    using assms that by (intro player_ok_command) (auto intro: diagram.halt)
  then show ?thesis
    using assms
    by (auto simp: player_masks [OF player_invD [OF assms]] MediaPlayer_pause_def intro: player_ok_quiet)
qed

lemma ok_isPlaying:
  assumes "player_inv s"
  shows "player_ok s (snd (MediaPlayer_isPlaying ans playing s))"
proof -
  let ?s1 = "tell_player ans PIsPlaying s"
  have q: "quiet s ?s1" by simp
  then have st: "mCurrentState ?s1 = mCurrentState s" by (simp add: quiet_def)
  have "player_ok s (?s1\<lparr>mCurrentState := 32\<rparr>)" if "mPlayer s \<noteq> None" "mCurrentState s = 16"
    using assms q that by (intro player_ok_state) (auto simp: view_attached intro: diagram.halt)
  moreover have "player_ok s (?s1\<lparr>mCurrentState := 16\<rparr>)" if "mPlayer s \<noteq> None" "mCurrentState s = 32"
    using assms q that by (intro player_ok_state) (auto simp: view_attached intro: diagram.play)
  ultimately show ?thesis
    using assms q
    by (auto simp: player_masks [OF player_invD [OF assms]] MediaPlayer_isPlaying_def Let_def st intro: player_ok_quiet)
qed

lemma ok_setPlaybackSettings:
  assumes "player_inv s"
  shows "player_ok s (snd (MediaPlayer_setPlaybackSettings ans rate s))"
proof -
  let ?ws = "\<lambda>t. snd (with_player INVALID_OPERATION ans (PSetPlaybackSettings rate) t)"
  have q: "quiet s (?ws s)" "quiet s (?ws (push_settings ans s))" by simp_all
  have halt: "player_ok s ((?ws t)\<lparr>mCurrentState := 32\<rparr>)"
    if "mPlayer s \<noteq> None" "mCurrentState s = 16" "quiet s (?ws t)" for t
    using assms that by (intro player_ok_state) (auto simp: view_attached intro: diagram.halt)
  have play: "player_ok s ((?ws t)\<lparr>mCurrentState := 16\<rparr>)"
    if "mPlayer s \<noteq> None" "mCurrentState s \<in> {8, 128, 32}" "quiet s (?ws t)" for t
    using assms that by (intro player_ok_state) (auto simp: view_attached intro: diagram.play)
  have "mCurrentState (?ws s) = mCurrentState s" using q by (simp add: quiet_def)
  then show ?thesis
    using assms q
    by (auto simp: player_masks [OF player_invD [OF assms]] MediaPlayer_setPlaybackSettings_def case_prod_beta Let_def
        intro: player_ok_quiet halt play)
qed

lemma quiet_send_to [simp]:
  "quiet s t \<Longrightarrow> \<forall>p. plain (Sent p c (ans c)) \<Longrightarrow> quiet s (snd (send_to ans q c t))"
  by (simp add: send_to_def)

lemma quiet_doSetRetransmitEndpoint [simp]:
  "quiet s t \<Longrightarrow> quiet s (snd (MediaPlayer_doSetRetransmitEndpoint ans player t))"
  by (simp add: MediaPlayer_doSetRetransmitEndpoint_def split: option.split)

lemma inv_attached:
  assumes "player_inv s"
  shows "player_inv (record_event (Attached q) ((MediaPlayer_clear_l s)\<lparr>mPlayer := Some q, mCurrentState := 2\<rparr>))"
  using assms
  by (auto simp: player_inv_def seeks_ok_def sessions_ok_def record_event_def MediaPlayer_clear_l_def
      seek_scan_append session_refs_append split: option.splits)

lemma ok_attachNewPlayer:
  assumes inv: "player_inv s"
  shows "player_ok s (snd (MediaPlayer_attachNewPlayer ans player s))"
proof (cases "mCurrentState s \<in> {0, 1}")
  case False
  then show ?thesis
    using inv by (auto simp: MediaPlayer_attachNewPlayer_def player_masks [OF player_invD [OF inv]]
        intro: player_ok_quiet)
next
  case True
  define s3 where "s3 = (case player of None \<Rightarrow> (MediaPlayer_clear_l s)\<lparr>mPlayer := None\<rparr>
     | Some q \<Rightarrow> record_event (Attached q) ((MediaPlayer_clear_l s)\<lparr>mPlayer := Some q, mCurrentState := 2\<rparr>))"
  have "player_ok s s3"
  proof (cases player)
    case None
    have "player_inv ((MediaPlayer_clear_l s)\<lparr>mPlayer := None\<rparr>)"
      using inv by (auto simp: player_inv_def seeks_ok_def sessions_ok_def MediaPlayer_clear_l_def
          split: option.splits)
    with None True show ?thesis
      by (cases "mPlayer s")
        (auto simp: s3_def player_ok_def player_view_def MediaPlayer_clear_l_def intro: diagram.attach_failed)
  next
    case (Some q)
    with True inv_attached [OF inv] show ?thesis
      by (auto simp: s3_def player_ok_def player_view_def record_event_def intro: diagram.attach)
  qed
  moreover have "quiet s3 (snd (MediaPlayer_attachNewPlayer ans player s))"
    using True inv
    by (auto simp: MediaPlayer_attachNewPlayer_def player_masks [OF player_invD [OF inv]] s3_def Let_def
        MediaPlayer_clear_l_def split: option.split)
  ultimately show ?thesis by (rule player_ok_quiet_trans)
qed

lemma ok_attach_after:
  assumes "player_inv s" and "quiet s t"
  shows "player_ok s (snd (MediaPlayer_attachNewPlayer ans player t))"
  using assms by (intro player_ok_trans [OF assms] ok_attachNewPlayer) (rule quiet_inv)

lemma ok_set_source:
  assumes "player_inv s" and "\<forall>p. plain (Sent p src (ans src))"
  shows "player_ok s (snd (set_source_and_attach ans created src s))"
  using assms
  by (auto simp: set_source_and_attach_def case_prod_beta Let_def split: option.split intro: ok_attach_after)

lemma ok_setDataSource:
  assumes "player_inv s"
  shows "player_ok s (snd (MediaPlayer_setDataSource_url ans service created http url headers s))"
    and "player_ok s (snd (MediaPlayer_setDataSource_fd ans service created fd offset len s))"
    and "player_ok s (snd (MediaPlayer_setDataSource_callback ans service created source s))"
  using assms
  by (simp_all add: MediaPlayer_setDataSource_url_def MediaPlayer_setDataSource_fd_def
      MediaPlayer_setDataSource_callback_def ok_set_source player_ok_quiet split: option.split)

lemma ok_prepareAsync_l:
  assumes inv: "player_inv s"
  shows "player_ok s (snd (MediaPlayer_prepareAsync_l ans s))"
proof (cases "mPlayer s \<noteq> None \<and> mCurrentState s \<in> {2, 64}")
  case False
  then show ?thesis
    using inv by (auto simp: MediaPlayer_prepareAsync_l_def player_masks [OF player_invD [OF inv]]
        intro: player_ok_quiet)
next
  case True
  define s1 where "s1 = (case mAudioAttributesParcel s of
      Some a \<Rightarrow> tell_player ans (PSetParameter KEY_PARAMETER_AUDIO_ATTRIBUTES a) s
    | None \<Rightarrow> tell_player ans (PSetAudioStreamType (mStreamType s)) s)"
  have "quiet s s1" by (simp add: s1_def split: option.split)
  then have "player_ok s (s1\<lparr>mCurrentState := 4\<rparr>)"
    using inv True by (intro player_ok_state) (auto simp: view_attached intro: diagram.prepare)
  moreover have "quiet (s1\<lparr>mCurrentState := 4\<rparr>) (snd (MediaPlayer_prepareAsync_l ans s))"
    using True inv
    by (auto simp: MediaPlayer_prepareAsync_l_def player_masks [OF player_invD [OF inv]] s1_def Let_def)
  ultimately show ?thesis by (rule player_ok_quiet_trans)
qed

lemma ok_prepare_enter:
  assumes inv: "player_inv s"
  shows "player_ok s (snd (MediaPlayer_prepare_enter ans tid s))"
proof -
  let ?s0 = "s\<lparr>mLockThreadId := tid, mPrepareSync := True\<rparr>"
  let ?s1 = "snd (MediaPlayer_prepareAsync_l ans ?s0)"
  have "quiet s ?s0" by simp
  then have "player_ok s ?s1"
    using inv by (intro player_ok_trans [OF inv \<open>quiet s ?s0\<close>] ok_prepareAsync_l) (rule quiet_inv)
  then have "player_ok s u" if "quiet ?s1 u" for u using that by (rule player_ok_quiet_trans)
  with inv show ?thesis
    by (auto simp: MediaPlayer_prepare_enter_def case_prod_beta Let_def intro: player_ok_quiet)
qed

lemma player_ok_drop:
  assumes "player_inv s" and "quiet s t" and "st \<in> player_states"
    and "diagram (player_view s) (False, state_of st)"
  shows "player_ok s (t\<lparr>mCurrentState := st, mPlayer := None\<rparr>)"
  using assms inv_no_player [OF inv_state [OF quiet_inv [OF assms(2,1)] assms(3)]]
  by (simp add: player_ok_def player_view_def)

lemma state_of_Idle: "st \<in> player_states \<Longrightarrow> state_of st = Idle \<longleftrightarrow> st = 1"
  by (auto simp: player_states_def)

lemma ok_reset:
  assumes inv: "player_inv s"
  shows "player_ok s (snd (MediaPlayer_reset ans s))"
proof -
  let ?s2 = "s\<lparr>mLoop := False, mPrepareSync := False\<rparr>"
  let ?s3 = "snd (with_player INVALID_OPERATION ans PReset ?s2)"
  have clear: "player_ok s (MediaPlayer_clear_l ?s2)" if "mPlayer s = None"
    using inv that
    by (auto simp: player_ok_def player_view_def MediaPlayer_clear_l_def player_inv_def seeks_ok_def
        sessions_ok_def split: option.splits)
  have idle: "player_ok s ((tell_player ans PDisconnect ?s3)\<lparr>mCurrentState := 1, mPlayer := None\<rparr>)"
    if "mPlayer s \<noteq> None" "mCurrentState s \<noteq> 1"
    using inv that
    by (intro player_ok_drop) (auto simp: view_attached state_of_Idle player_invD intro: diagram.reset)
  have err: "player_ok s (?s3\<lparr>mCurrentState := 0, mPlayer := None\<rparr>)"
    if "mPlayer s \<noteq> None" "mCurrentState s \<noteq> 1"
    using inv that
    by (intro player_ok_drop) (auto simp: view_attached state_of_Idle player_invD intro: diagram.reset_failed)
  have "player_ok s (snd (MediaPlayer_reset_l ans s))"
    using inv clear idle err
    by (auto simp: MediaPlayer_reset_l_def case_prod_beta Let_def intro: player_ok_quiet)
  then show ?thesis
    by (auto simp: MediaPlayer_reset_def case_prod_beta Let_def intro: player_ok_quiet_trans)
qed

lemma ok_setAudioSessionId:
  assumes "player_inv s"
  shows "player_ok s (snd (MediaPlayer_setAudioSessionId ident s))"
  using assms
  by (auto simp: MediaPlayer_setAudioSessionId_def player_ok_def player_view_def player_inv_def
      seeks_ok_def sessions_ok_def record_event_def seek_scan_append session_refs_append
      split: option.splits)

text \<open>
  A seek: sent only when none is pending, remembered otherwise. \<open>seek_idle\<close> is what the
  caller in \<open>notify\<close> has established: nothing is pending.
\<close>

lemma inv_seek_sent:
  assumes "player_inv s" and "mSeekPosition s < 0" and "0 \<le> m" and "mPlayer s = Some p"
  shows "player_inv (record_event (Sent p (PSeekTo m k) r) (s\<lparr>mSeekPosition := m, mSeekMode := k\<rparr>))"
  using assms
  by (auto simp: player_inv_def seeks_ok_def sessions_ok_def record_event_def seek_scan_append
      session_refs_append split: option.splits)

lemma ok_seekTo_l:
  assumes inv: "player_inv s" and dur: "sane_duration ans dur"
  shows "player_ok s (snd (MediaPlayer_seekTo_l ans dur msec mode s))"
proof (cases "mPlayer s")
  case None
  then show ?thesis using inv by (simp add: MediaPlayer_seekTo_l_def player_ok_quiet)
next
  case (Some p)
  let ?m = "clamp_seek dur msec"
  let ?s1 = "snd (with_player INVALID_OPERATION ans PGetDuration s)"
  let ?s2 = "?s1\<lparr>mCurrentPosition := ?m, mCurrentSeekMode := mode\<rparr>"
  have q: "quiet s ?s1" "quiet s ?s2" by simp_all
  have inv2: "player_inv ?s2" using q(2) inv by (rule quiet_inv)
  have p2: "mPlayer ?s2 = Some p" "mSeekPosition ?s2 = mSeekPosition s"
    "mSeekPosition ?s1 = mSeekPosition s" "mPlayer ?s1 = Some p"
    using q Some by (simp_all add: quiet_def)
  have sent: "player_ok s (record_event (Sent p (PSeekTo ?m mode) (ans (PSeekTo ?m mode)))
      (?s2\<lparr>mSeekPosition := ?m, mSeekMode := mode\<rparr>))" if "ans PGetDuration = OK" "mSeekPosition s < 0"
  proof -
    have "0 \<le> ?m" using that dur by (simp add: sane_duration_def clamp_seek_def)
    then have "player_inv (record_event (Sent p (PSeekTo ?m mode) (ans (PSeekTo ?m mode)))
        (?s2\<lparr>mSeekPosition := ?m, mSeekMode := mode\<rparr>))"
      using inv2 that p2 by (intro inv_seek_sent) simp_all
    then show ?thesis
      using q by (simp add: player_ok_def player_view_def record_event_def quiet_def)
  qed
  have err: "fst (with_player INVALID_OPERATION ans PGetDuration s) = ans PGetDuration"
    using Some by (simp add: with_player_def send_to_def)
  show ?thesis
    unfolding MediaPlayer_seekTo_l_def Let_def case_prod_beta err
    using inv q sent p2
    by (auto simp: player_ok_quiet with_player_def [of INVALID_OPERATION ans "PSeekTo m k" for m k] send_to_def)
qed

text \<open>A notification; the interesting one reports a seek complete.\<close>

lemma inv_seek_complete:
  assumes "player_inv s" and "mPlayer s \<noteq> None"
  shows "player_inv ((record_event (Got MEDIA_SEEK_COMPLETE ext1 ext2) s)\<lparr>mSeekPosition := -1\<rparr>)"
  using assms
  by (auto simp: player_inv_def seeks_ok_def sessions_ok_def record_event_def seek_scan_append
      session_refs_append split: option.splits)

lemma ok_seek_complete:
  assumes inv: "player_inv s" and dur: "sane_duration ans dur" and p: "mPlayer s \<noteq> None"
  shows "player_ok s (snd (notify_state ans dur MEDIA_SEEK_COMPLETE ext1 ext2
           (record_event (Got MEDIA_SEEK_COMPLETE ext1 ext2) s)))"
proof -
  let ?g = "(record_event (Got MEDIA_SEEK_COMPLETE ext1 ext2) s)\<lparr>mSeekPosition := -1\<rparr>"
  have g: "player_inv ?g" using inv p by (rule inv_seek_complete)
  have view: "player_view ?g = player_view s" by (simp add: player_view_def record_event_def)
  have "player_ok s u" if "player_ok ?g u" for u
    using that view by (simp add: player_ok_def)
  moreover have "player_ok ?g (snd (MediaPlayer_seekTo_l ans dur m k (?g\<lparr>mSeekMode := 0\<rparr>)))" for m k
    using g dur by (intro player_ok_trans [of ?g "?g\<lparr>mSeekMode := 0\<rparr>"] ok_seekTo_l)
      (auto intro: quiet_inv [of ?g])
  moreover have "player_ok s (u\<lparr>mCurrentPosition := -1, mSeekPosition := -1,
      mCurrentSeekMode := 0, mSeekMode := 0\<rparr>)"
    if "u = record_event (Got MEDIA_SEEK_COMPLETE ext1 ext2) s" for u
    using g view that
    by (simp add: player_ok_def player_view_def player_inv_def seeks_ok_def sessions_ok_def
        split: option.splits)
  ultimately show ?thesis by (simp add: notify_state_def)
qed

lemma ok_notify_state:
  assumes inv: "player_inv s" and dur: "sane_duration ans dur"
    and open_gate: "msg = MEDIA_ERROR \<and> mCurrentState s = MEDIA_PLAYER_IDLE \<or> mPlayer s \<noteq> None"
  shows "player_ok s (snd (notify_state ans dur msg ext1 ext2 (record_event (Got msg ext1 ext2) s)))"
proof (cases "msg = MEDIA_SEEK_COMPLETE")
  case True
  with open_gate inv dur show ?thesis by (simp add: ok_seek_complete)
next
  case False
  let ?g = "record_event (Got msg ext1 ext2) s"
  have q: "quiet s ?g" using False by simp
  have error: "player_ok s (?g\<lparr>mCurrentState := 0\<rparr>)" if "msg = MEDIA_ERROR"
    using inv q open_gate that
    by (intro player_ok_state; cases "mPlayer s")
      (auto simp: player_view_def intro: diagram.report_error diagram.report_error_idle)
  have prepared: "player_ok s (?g\<lparr>mCurrentState := 8\<rparr>)" if "msg = MEDIA_PREPARED"
    using inv q open_gate that
    by (intro player_ok_state) (auto simp: view_attached intro: diagram.report_prepared)
  have completed: "player_ok s (?g\<lparr>mCurrentState := 128\<rparr>)" if "msg = MEDIA_PLAYBACK_COMPLETE"
    using inv q open_gate that
    by (intro player_ok_state) (auto simp: view_attached intro: diagram.report_completed)
  show ?thesis
    using inv q False error prepared completed
    by (auto simp: notify_state_def Let_def intro: player_ok_quiet player_ok_quiet_trans)
qed

lemma ok_notify:
  assumes "player_inv s" and "sane_duration ans dur"
  shows "player_ok s (MediaPlayer_notify ans dur msg ext1 ext2 s)"
  using assms ok_notify_state [OF assms, of msg ext1 ext2]
  by (auto simp: MediaPlayer_notify_def case_prod_beta Let_def split: option.split
      intro: player_ok_quiet player_ok_quiet_trans)

lemma ok_seekTo:
  assumes "player_inv s" and "sane_duration ans dur"
  shows "player_ok s (snd (MediaPlayer_seekTo ans dur msec mode s))"
  using player_ok_quiet_trans [OF ok_seekTo_l [OF assms, of msec mode]]
  by (simp add: MediaPlayer_seekTo_def case_prod_beta Let_def)

lemmas player_ok_methods =
  ok_disconnect ok_start ok_stop ok_pause ok_isPlaying ok_setPlaybackSettings ok_setDataSource
  ok_prepare_enter ok_prepareAsync_l ok_reset ok_setAudioSessionId ok_seekTo ok_notify

lemma player_step_ok:
  assumes "player_step s t" and "player_inv s"
  shows "player_ok s t"
  using assms
proof (induction rule: player_step.induct)
  case (prepareAsync s ans)
  then show ?case by (simp add: MediaPlayer_prepareAsync_def ok_prepareAsync_l)
next
  case (died ans dur s)
  then show ?case by (simp add: MediaPlayer_died_def ok_notify)
qed (blast intro: player_ok_methods player_ok_quiet quiet_methods quiet_setRetransmitEndpoint quiet_resume)+

interpretation player: simulated_system player_init player_step player_inv player_view diagram
proof unfold_locales
  show "player_inv s" if "player_init s" for s
    using that by (auto simp: player_init_def new_media_player_def player_inv_def seeks_ok_def sessions_ok_def)
  show "player_inv t" if "player_inv s" and "player_step s t" for s t
    using player_step_ok [OF that(2,1)] by (simp add: player_ok_def)
  show "player_view s = player_view t \<or> diagram (player_view s) (player_view t)"
    if "player_inv s" and "player_step s t" for s t
    using player_step_ok [OF that(2,1)] by (simp add: player_ok_def)
qed

section \<open>Properties\<close>

text \<open>
  C3: the state diagram. In every run the state word holds one of the nine states, and each
  step either leaves attachment and state alone or is an arrow of the diagram; in particular
  playback is entered only from the prepared, paused or completed state of an attached player
  and preparation only from the initialized or stopped one.
\<close>

theorem player_follows_diagram:
  assumes "player_init s\<^sub>0" and "player_step\<^sup>*\<^sup>* s\<^sub>0 s" and "player_step s t"
  shows "mCurrentState t \<in> player_states \<and>
    (player_view s = player_view t \<or> diagram (player_view s) (player_view t)) \<and>
    diagram\<^sup>*\<^sup>* (False, Idle) (player_view t)"
proof -
  have inv: "player_inv s" using assms(1,2) by (rule player.reachable_inv)
  have ok: "player_ok s t" using player_step_ok [OF assms(3) inv] .
  have "player_view s\<^sub>0 = (False, Idle)"
    using assms(1) by (auto simp: player_init_def new_media_player_def player_view_def)
  then have "diagram\<^sup>*\<^sup>* (False, Idle) (player_view t)"
    using player.reachable_sim [OF assms(1) rtranclp.rtrancl_into_rtrancl [OF assms(2,3)]] by simp
  with ok show ?thesis by (auto simp: player_ok_def dest: player_invD)
qed

theorem player_follows_diagram_witness:
  "diagram\<^sup>*\<^sup>* (False, Idle)
     (player_view (snd (MediaPlayer_setDataSource_fd (\<lambda>_. OK) True (Some 9) 3 0 100 (new_media_player 17 (0, 0)))))"
proof -
  have "player_init (new_media_player 17 (0, 0))" by (auto simp: player_init_def)
  from player_follows_diagram [OF this rtranclp.rtrancl_refl player_step.setDataSource_fd]
  show ?thesis by blast
qed



text \<open>The seeks that a log shows as sent, in order.\<close>

fun seeks_sent :: "player_event list \<Rightarrow> (int \<times> int) list" where
  "seeks_sent [] = []"
| "seeks_sent (Sent p (PSeekTo m k) r # es) = (m, k) # seeks_sent es"
| "seeks_sent (_ # es) = seeks_sent es"

lemma seeks_sent_append: "seeks_sent (xs @ ys) = seeks_sent xs @ seeks_sent ys"
  by (induction xs rule: seeks_sent.induct) auto

text \<open>A state in which seeks are accepted: attached, and prepared, started, paused or completed.\<close>

definition seekable :: "media_player \<Rightarrow> bool" where
  "seekable s \<longleftrightarrow> mPlayer s \<noteq> None \<and>
     mCurrentState s AND (MEDIA_PLAYER_STARTED OR MEDIA_PLAYER_PREPARED OR
       MEDIA_PLAYER_PAUSED OR MEDIA_PLAYER_PLAYBACK_COMPLETE) \<noteq> 0"

text \<open>A seek while one is outstanding is only remembered.\<close>

lemma seek_queued:
  assumes "seekable s" and "0 \<le> mSeekPosition s" and "ans PGetDuration = OK"
    and "MediaPlayer_seekTo ans dur m k s = (r, t)"
  shows "r = OK \<and> seekable t \<and> mPlayer t = mPlayer s \<and> mSeekPosition t = mSeekPosition s \<and>
    mSeekMode t = mSeekMode s \<and> mCurrentPosition t = clamp_seek dur m \<and> mCurrentSeekMode t = k \<and>
    seeks_sent (events t) = seeks_sent (events s)"
proof -
  obtain p where "mPlayer s = Some p" using assms(1) by (auto simp: seekable_def)
  with assms show ?thesis
    by (auto simp: seekable_def MediaPlayer_seekTo_def MediaPlayer_seekTo_l_def Let_def with_player_def
        send_to_def record_event_def seeks_sent_append split: if_splits)
qed

fun queue_seeks :: "player_answers \<Rightarrow> int \<Rightarrow> (int \<times> int) list \<Rightarrow> media_player \<Rightarrow> media_player" where
  "queue_seeks ans dur [] s = s"
| "queue_seeks ans dur ((m, k) # rs) s = queue_seeks ans dur rs (snd (MediaPlayer_seekTo ans dur m k s))"

lemma queue_seeks_queued:
  assumes "seekable s" and "0 \<le> mSeekPosition s" and "ans PGetDuration = OK"
  shows "seekable (queue_seeks ans dur rs s) \<and>
    mSeekPosition (queue_seeks ans dur rs s) = mSeekPosition s \<and>
    mSeekMode (queue_seeks ans dur rs s) = mSeekMode s \<and>
    seeks_sent (events (queue_seeks ans dur rs s)) = seeks_sent (events s) \<and>
    (rs \<noteq> [] \<longrightarrow> mCurrentPosition (queue_seeks ans dur rs s) = clamp_seek dur (fst (last rs)) \<and>
       mCurrentSeekMode (queue_seeks ans dur rs s) = snd (last rs))"
  using assms
proof (induction ans dur rs s rule: queue_seeks.induct)
  case (1 ans dur s)
  then show ?case by simp
next
  case (2 ans dur m k rs s)
  obtain r t where t: "MediaPlayer_seekTo ans dur m k s = (r, t)" by fastforce
  note q = seek_queued [where ans = ans, OF 2(2,3,4) t]
  have "seekable t" "0 \<le> mSeekPosition t" using q 2(3) by auto
  with 2 q t show ?case by (cases rs) auto
qed

lemma clamp_seek_idem: "0 \<le> dur \<Longrightarrow> clamp_seek dur (clamp_seek dur m) = clamp_seek dur m"
  by (simp add: clamp_seek_def)

lemma seek_complete_reissues:
  assumes "seekable s" and "ans PGetDuration = OK" and "0 \<le> dur" and "mCurrentPosition s = clamp_seek dur m"
  shows "seeks_sent (events (MediaPlayer_notify ans dur MEDIA_SEEK_COMPLETE 0 0 s)) =
    seeks_sent (events s) @
      (if (mCurrentPosition s, mCurrentSeekMode s) = (mSeekPosition s, mSeekMode s) then []
       else [(mCurrentPosition s, mCurrentSeekMode s)])"
proof -
  obtain p where "mPlayer s = Some p" using assms(1) by (auto simp: seekable_def)
  with assms show ?thesis
    by (auto simp: MediaPlayer_notify_def notify_state_def MediaPlayer_seekTo_l_def seekable_def Let_def
        with_player_def send_to_def record_event_def seeks_sent_append clamp_seek_idem
        split: option.split)
qed

text \<open>
  The latest seek wins. While a seek is outstanding, any number of further seeks is
  accepted without a call to the remote player; when the outstanding one is reported complete,
  exactly the last request is sent, brought into the range of the stream, and nothing if it
  asks for the position and mode that were just reached.
\<close>

theorem player_latest_seek_wins:
  assumes "seekable s" and "0 \<le> mSeekPosition s" and "ans PGetDuration = OK" and "0 \<le> dur" and "rs \<noteq> []"
  shows "let t = queue_seeks ans dur rs s; target = (clamp_seek dur (fst (last rs)), snd (last rs))
    in seeks_sent (events t) = seeks_sent (events s) \<and>
       seeks_sent (events (MediaPlayer_notify ans dur MEDIA_SEEK_COMPLETE 0 0 t)) =
         seeks_sent (events s) @ (if target = (mSeekPosition s, mSeekMode s) then [] else [target])"
proof -
  let ?t = "queue_seeks ans dur rs s"
  note q = queue_seeks_queued [where ans = ans and dur = dur and rs = rs, OF assms(1,2,3)]
  have "mCurrentPosition ?t = clamp_seek dur (fst (last rs))" using q assms(5) by blast
  from seek_complete_reissues [where ans = ans, OF _ assms(3,4) this] q assms(5) show ?thesis
    by (simp add: Let_def)
qed

theorem player_latest_seek_wins_witness:
  "let s = (new_media_player 17 (0, 0))\<lparr>mPlayer := Some 9, mCurrentState := 16, mSeekPosition := 100, mCurrentPosition := 100\<rparr>;
       t = queue_seeks (\<lambda>_. OK) 5000 [(200, 0), (7000, 2)] s
   in seeks_sent (events (MediaPlayer_notify (\<lambda>_. OK) 5000 MEDIA_SEEK_COMPLETE 0 0 t)) = [(5000, 2)]"
  using player_latest_seek_wins
    [of "(new_media_player 17 (0, 0))\<lparr>mPlayer := Some 9, mCurrentState := 16, mSeekPosition := 100, mCurrentPosition := 100\<rparr>"
      "\<lambda>_. OK" 5000 "[(200, 0), (7000, 2)]"]
  by (simp add: seekable_def new_media_player_def Let_def clamp_seek_def)

lemma prepare_enter_blocks:
  assumes "MediaPlayer_prepare_enter ans tid s = (None, t)"
  shows "mPlayer t \<noteq> None \<and> mCurrentState t = MEDIA_PLAYER_PREPARING \<and> mPrepareSync t \<and>
    waiting t = waiting s + 1 \<and> woken t = woken s \<and> delivered t = delivered s"
  using assms
  by (auto simp: MediaPlayer_prepare_enter_def MediaPlayer_prepareAsync_l_def case_prod_beta Let_def
      tell_player_def with_player_def send_to_def record_event_def split: if_splits option.splits)

text \<open>
  Synchronous preparation. A \<open>prepare\<close> that blocks has put an attached player into the
  preparing state; the report that it is prepared lets \<open>prepare\<close> return \<open>NO_ERROR\<close> in the
  prepared state, and an error report lets it return the code of the report in the error
  state, without passing the report on to the listener.
\<close>

theorem player_prepare_returns_report:
  assumes "MediaPlayer_prepare_enter ans tid s = (None, t)"
  shows "mCurrentState t = MEDIA_PLAYER_PREPARING \<and>
    (\<exists>u. MediaPlayer_prepare_resume (MediaPlayer_notify ans' dur MEDIA_PREPARED e1 e2 t) = Some (NO_ERROR, u) \<and>
       mCurrentState u = MEDIA_PLAYER_PREPARED \<and> \<not> mPrepareSync u) \<and>
    (\<exists>u. MediaPlayer_prepare_resume (MediaPlayer_notify ans' dur MEDIA_ERROR e1 e2 t) = Some (status_of_int e1, u) \<and>
       mCurrentState u = MEDIA_PLAYER_STATE_ERROR \<and> \<not> mPrepareSync u \<and> delivered u = delivered s)"
  using prepare_enter_blocks [OF assms]
  by (auto simp: MediaPlayer_notify_def notify_state_def signal_def record_event_def Let_def
      MediaPlayer_prepare_resume_def split: option.split)

theorem player_prepare_returns_report_witness:
  "let s = (new_media_player 17 (0, 0))\<lparr>mPlayer := Some 9, mCurrentState := 2\<rparr>;
       t = snd (MediaPlayer_prepare_enter (\<lambda>_. OK) 5 s)
   in \<exists>u. MediaPlayer_prepare_resume (MediaPlayer_notify (\<lambda>_. OK) 0 MEDIA_ERROR (-38) 0 t) = Some (Status_Code (-38), u) \<and>
        mCurrentState u = MEDIA_PLAYER_STATE_ERROR"
proof -
  let ?s = "(new_media_player 17 (0, 0))\<lparr>mPlayer := Some 9, mCurrentState := 2\<rparr>"
  let ?t = "snd (MediaPlayer_prepare_enter (\<lambda>_. OK) 5 ?s)"
  have "MediaPlayer_prepare_enter (\<lambda>_. OK) 5 ?s = (None, ?t)"
    by (simp add: MediaPlayer_prepare_enter_def MediaPlayer_prepareAsync_l_def case_prod_beta Let_def
        tell_player_def with_player_def send_to_def record_event_def new_media_player_def)
  from player_prepare_returns_report [OF this, of "\<lambda>_. OK" 0 "-38" 0] show ?thesis
    by (auto simp: status_of_int_def Let_def)
qed

text \<open>
  Audio sessions. In every run the player holds exactly one reference, to its own
  session, and the destructor gives it back.
\<close>

theorem player_session_balanced:
  assumes "player_init s\<^sub>0" and "player_step\<^sup>*\<^sup>* s\<^sub>0 s"
  shows "session_refs (events s) i = (if i = mAudioSessionId s then 1 else 0) \<and>
    session_refs (events (MediaPlayer_destroy ans s)) i = 0"
proof -
  have ok: "session_refs (events s) i = (if i = mAudioSessionId s then 1 else 0)"
    using player.reachable_inv [OF assms] by (simp add: player_inv_def sessions_ok_def)
  then show ?thesis
    by (simp add: MediaPlayer_destroy_def MediaPlayer_disconnect_def tell_player_def with_player_def
        send_to_def record_event_def session_refs_append split: option.split)
qed

theorem player_session_balanced_witness:
  "session_refs (events (snd (MediaPlayer_setAudioSessionId 25 (new_media_player 17 (0, 0))))) 17 = 0 \<and>
   mAudioSessionId (snd (MediaPlayer_setAudioSessionId 25 (new_media_player 17 (0, 0)))) = 25"
proof -
  let ?n = "new_media_player 17 (0, 0)"
  have n: "player_init ?n" by (auto simp: player_init_def)
  have m: "mAudioSessionId (snd (MediaPlayer_setAudioSessionId 25 ?n)) = 25"
    by (simp add: MediaPlayer_setAudioSessionId_def new_media_player_def)
  have "player_step\<^sup>*\<^sup>* ?n (snd (MediaPlayer_setAudioSessionId 25 ?n))"
    by (rule r_into_rtranclp) (rule player_step.setAudioSessionId)
  from player_session_balanced [OF n this, of 17]
  show ?thesis using m by simp
qed

definition unprepared_step :: "media_player \<Rightarrow> media_player \<Rightarrow> bool" where
  "unprepared_step s t \<longleftrightarrow> player_step s t \<and> (\<nexists>ans tid. t = snd (MediaPlayer_prepare_enter ans tid s))"

lemmas waiting_unfold = tell_player_def with_player_def send_to_def record_event_def command_def
  push_settings_def MediaPlayer_clear_l_def

lemma waiting_kept_by_sends [simp]:
  "waiting (snd (with_player err ans c s)) = waiting s" "mPrepareSync (snd (with_player err ans c s)) = mPrepareSync s"
  "waiting (tell_player ans c s) = waiting s" "mPrepareSync (tell_player ans c s) = mPrepareSync s"
  "waiting (snd (send_to ans p c s)) = waiting s" "mPrepareSync (snd (send_to ans p c s)) = mPrepareSync s"
  "waiting (record_event e s) = waiting s" "mPrepareSync (record_event e s) = mPrepareSync s"
  "waiting (push_settings ans s) = waiting s" "mPrepareSync (push_settings ans s) = mPrepareSync s"
  "waiting (snd (command ans c st s)) = waiting s" "mPrepareSync (snd (command ans c st s)) = mPrepareSync s"
  "waiting (MediaPlayer_clear_l s) = waiting s" "mPrepareSync (MediaPlayer_clear_l s) = mPrepareSync s"
  by (simp_all add: waiting_unfold case_prod_beta Let_def split: option.split)

lemma seekTo_l_keeps_waiting [simp]:
  "waiting (snd (MediaPlayer_seekTo_l ans dur m k s)) = waiting s"
  "mPrepareSync (snd (MediaPlayer_seekTo_l ans dur m k s)) = mPrepareSync s"
  by (simp_all add: MediaPlayer_seekTo_l_def case_prod_beta Let_def)

lemma notify_keeps_waiting:
  assumes "\<not> mPrepareSync s"
  shows "waiting (MediaPlayer_notify ans dur msg e1 e2 s) = waiting s \<and>
    \<not> mPrepareSync (MediaPlayer_notify ans dur msg e1 e2 s)"
proof -
  let ?g = "record_event (Got msg e1 e2) s"
  have "waiting (snd (notify_state ans dur msg e1 e2 ?g)) = waiting s \<and>
    \<not> mPrepareSync (snd (notify_state ans dur msg e1 e2 ?g))"
    using assms by (simp add: notify_state_def Let_def)
  with assms show ?thesis
    by (auto simp: MediaPlayer_notify_def case_prod_beta Let_def split: option.split)
qed

lemma attach_keeps_waiting [simp]:
  "waiting (snd (MediaPlayer_attachNewPlayer ans player s)) = waiting s"
  "mPrepareSync (snd (MediaPlayer_attachNewPlayer ans player s)) = mPrepareSync s"
  by (simp_all add: MediaPlayer_attachNewPlayer_def Let_def split: option.split)

lemma source_keeps_waiting [simp]:
  "waiting (snd (set_source_and_attach ans created src s)) = waiting s"
  "mPrepareSync (snd (set_source_and_attach ans created src s)) = mPrepareSync s"
  by (simp_all add: set_source_and_attach_def MediaPlayer_doSetRetransmitEndpoint_def case_prod_beta Let_def
      split: option.split)

lemma prepareAsync_l_keeps_waiting [simp]:
  "waiting (snd (MediaPlayer_prepareAsync_l ans s)) = waiting s"
  "mPrepareSync (snd (MediaPlayer_prepareAsync_l ans s)) = mPrepareSync s"
  by (simp_all add: MediaPlayer_prepareAsync_l_def Let_def split: option.split)

lemma reset_keeps_waiting:
  "waiting (snd (MediaPlayer_reset ans s)) = waiting s"
  "\<not> mPrepareSync s \<Longrightarrow> \<not> mPrepareSync (snd (MediaPlayer_reset ans s))"
  by (simp_all add: MediaPlayer_reset_def MediaPlayer_reset_l_def case_prod_beta Let_def)

lemma unprepared_step_keeps_waiting:
  assumes "unprepared_step s t" and "\<not> mPrepareSync s"
  shows "waiting t = waiting s \<and> \<not> mPrepareSync t"
proof -
  have "player_step s t" using assms(1) by (simp add: unprepared_step_def)
  then show ?thesis
  proof (cases rule: player_step.cases)
    case (prepare_enter ans tid)
    with assms(1) show ?thesis by (auto simp: unprepared_step_def)
  qed (use assms(2) in \<open>auto simp: player_pass_through MediaPlayer_disconnect_def
      MediaPlayer_setDataSource_url_def MediaPlayer_setDataSource_fd_def MediaPlayer_setDataSource_callback_def
      MediaPlayer_prepare_resume_def MediaPlayer_prepareAsync_def MediaPlayer_start_def MediaPlayer_stop_def
      MediaPlayer_pause_def MediaPlayer_isPlaying_def MediaPlayer_setPlaybackSettings_def
      MediaPlayer_seekTo_def reset_keeps_waiting MediaPlayer_setAudioSessionId_def
      MediaPlayer_setRetransmitEndpoint_def notify_keeps_waiting MediaPlayer_died_def
      case_prod_beta Let_def split: option.splits if_splits\<close>)
qed

text \<open>
  \<open>reset\<close> strands a blocked \<open>prepare\<close>. Resetting a player while a thread waits in
  \<open>prepare\<close> clears \<open>mPrepareSync\<close> and detaches the remote player without a signal; from then on
  no step other than a new \<open>prepare\<close> can wake the thread.
\<close>

theorem player_reset_strands_prepare:
  assumes "0 < waiting s" and "mPlayer s \<noteq> None" and "mCurrentState s = MEDIA_PLAYER_PREPARING"
    and "unprepared_step\<^sup>*\<^sup>* (snd (MediaPlayer_reset ans s)) t"
  shows "waiting t = waiting s \<and> 0 < waiting t"
proof -
  have "\<not> mPrepareSync (snd (MediaPlayer_reset ans s))"
    using assms(2,3) by (simp add: MediaPlayer_reset_def MediaPlayer_reset_l_def case_prod_beta Let_def)
  with assms(4) have "waiting t = waiting (snd (MediaPlayer_reset ans s)) \<and> \<not> mPrepareSync t"
    by (induction rule: rtranclp_induct) (auto simp: unprepared_step_keeps_waiting)
  with assms(1) show ?thesis by (simp add: reset_keeps_waiting)
qed

theorem player_reset_strands_prepare_witness:
  "let s = snd (MediaPlayer_prepare_enter (\<lambda>_. OK) 5 ((new_media_player 17 (0, 0))\<lparr>mPlayer := Some 9, mCurrentState := 2\<rparr>))
   in waiting (snd (MediaPlayer_reset (\<lambda>_. OK) s)) = 1"
proof -
  let ?s = "snd (MediaPlayer_prepare_enter (\<lambda>_. OK) 5 ((new_media_player 17 (0, 0))\<lparr>mPlayer := Some 9, mCurrentState := 2\<rparr>))"
  have "waiting ?s = 1 \<and> mPlayer ?s \<noteq> None \<and> mCurrentState ?s = MEDIA_PLAYER_PREPARING"
    by (simp add: MediaPlayer_prepare_enter_def MediaPlayer_prepareAsync_l_def case_prod_beta Let_def
        tell_player_def with_player_def send_to_def record_event_def new_media_player_def)
  with player_reset_strands_prepare [of ?s "\<lambda>_. OK" "snd (MediaPlayer_reset (\<lambda>_. OK) ?s)"]
  show ?thesis by simp
qed

text \<open>
  A \<open>prepare\<close> that is refused leaves \<open>mPrepareSync\<close> set. Calling \<open>prepare\<close> on a new player
  that has no source yet is refused, as it should be; but then, even after \<open>reset\<close> and a
  successful \<open>setDataSource\<close>, \<open>prepare\<close> answers \<open>-EALREADY\<close> although nothing is being prepared.
\<close>

theorem player_refused_prepare_wedges:
  "let s0 = new_media_player session junk;
       (r1, s1) = MediaPlayer_prepare_enter ans tid s0;
       (r2, s2) = MediaPlayer_reset ans s1;
       (r3, s3) = MediaPlayer_setDataSource_fd (\<lambda>_. OK) True (Some p) fd offset len s2
   in r1 = Some INVALID_OPERATION \<and> r2 = OK \<and> r3 = OK \<and> mCurrentState s3 = MEDIA_PLAYER_INITIALIZED \<and>
      fst (MediaPlayer_prepare_enter ans' tid' s3) = Some EALREADY \<and>
      mCurrentState (snd (MediaPlayer_prepare_enter ans' tid' s3)) = MEDIA_PLAYER_INITIALIZED"
  by (simp add: MediaPlayer_prepare_enter_def MediaPlayer_prepareAsync_l_def MediaPlayer_reset_def
      MediaPlayer_reset_l_def MediaPlayer_setDataSource_fd_def set_source_and_attach_def
      MediaPlayer_doSetRetransmitEndpoint_def MediaPlayer_attachNewPlayer_def MediaPlayer_clear_l_def
      send_to_def record_event_def new_media_player_def Let_def)

text \<open>
  A seek that the remote player refuses leaves \<open>mSeekPosition\<close> set. Every later seek then
  returns \<open>NO_ERROR\<close> without reaching the remote player, which has nothing to report complete.
\<close>

theorem player_refused_seek_wedges:
  assumes "seekable s" and "mSeekPosition s < 0" and "0 \<le> dur"
    and "ans PGetDuration = OK" and "ans (PSeekTo (clamp_seek dur m) k) = err" and "err \<noteq> OK"
    and "ans' PGetDuration = OK"
  shows "let (r1, s1) = MediaPlayer_seekTo ans dur m k s; (r2, s2) = MediaPlayer_seekTo ans' dur m' k' s1
    in r1 = err \<and> r2 = NO_ERROR \<and> seeks_sent (events s2) = seeks_sent (events s) @ [(clamp_seek dur m, k)]"
proof -
  obtain p where p: "mPlayer s = Some p" using assms(1) by (auto simp: seekable_def)
  obtain r1 s1 where s1: "MediaPlayer_seekTo ans dur m k s = (r1, s1)" by fastforce
  obtain r2 s2 where s2: "MediaPlayer_seekTo ans' dur m' k' s1 = (r2, s2)" by fastforce
  have "seekable s1 \<and> 0 \<le> mSeekPosition s1 \<and> r1 = err \<and>
      seeks_sent (events s1) = seeks_sent (events s) @ [(clamp_seek dur m, k)]"
    using s1 assms p
    by (auto simp: seekable_def MediaPlayer_seekTo_def MediaPlayer_seekTo_l_def Let_def with_player_def
        send_to_def record_event_def seeks_sent_append clamp_seek_def split: if_splits)
  with seek_queued [where ans = ans', OF _ _ assms(7) s2] s1 s2 show ?thesis by simp
qed

theorem player_refused_seek_wedges_witness:
  "let s = (new_media_player 17 (0, 0))\<lparr>mPlayer := Some 9, mCurrentState := 16\<rparr>;
       ans = (\<lambda>c. if c = PSeekTo 100 0 then INVALID_OPERATION else OK);
       (r1, s1) = MediaPlayer_seekTo ans 5000 100 0 s; (r2, s2) = MediaPlayer_seekTo (\<lambda>_. OK) 5000 200 0 s1
   in r1 = INVALID_OPERATION \<and> r2 = NO_ERROR \<and> seeks_sent (events s2) = [(100, 0)]"
  using player_refused_seek_wedges
    [of "(new_media_player 17 (0, 0))\<lparr>mPlayer := Some 9, mCurrentState := 16\<rparr>" 5000
      "\<lambda>c. if c = PSeekTo 100 0 then INVALID_OPERATION else OK" 100 0 INVALID_OPERATION "\<lambda>_. OK" 200 0]
  by (simp add: seekable_def new_media_player_def clamp_seek_def Let_def case_prod_beta)

section \<open>Divergences\<close>

text \<open>
  \<open>releaseDrm\<close> lists the error state among those in which it refuses; the state has the value
  zero, so the test never sees it and the call is sent.
\<close>

lemma player_releaseDrm_in_error:
  assumes "mPlayer s = Some p" and "mCurrentState s = MEDIA_PLAYER_STATE_ERROR"
  shows "events (snd (MediaPlayer_releaseDrm ans s)) = events s @ [Sent p PReleaseDrm (ans PReleaseDrm)]"
  using assms
  by (simp add: MediaPlayer_releaseDrm_def tell_player_def with_player_def send_to_def record_event_def)

end
