(* ===== verification/Fifo_Buffer.thy ===== *)
theory Fifo_Buffer
  imports Media_Prelude
begin

text \<open>
  The AAudio FIFO (\<open>media/libaaudio/src/fifo\<close>): a ring of frames between a reader and a writer,
  with running 64-bit counters and 32-bit frame counts. The storage is a list of bytes, the two
  parts of a \<open>WrappingBuffer\<close> are offsets into it, and an access outside the storage or the
  caller's buffer is \<open>None\<close>. The 32-bit arithmetic is written out where the code computes in
  \<open>fifo_frames_t\<close>.
\<close>

section \<open>Controller\<close>

record fifo_buffer =
  mBytesPerFrame :: int
  mStorage :: "u8 list"
  mStorageOwned :: bool
  mCapacity :: int
  mThreshold :: int
  mReadCounter :: int
  mWriteCounter :: int

definition getFullFramesAvailable :: "fifo_buffer \<Rightarrow> int" where
  "getFullFramesAvailable s = wrap_i32 (wrap_i64 (mWriteCounter s - mReadCounter s))"

definition getReadIndex :: "fifo_buffer \<Rightarrow> int" where
  "getReadIndex s = wrap_i32 (mReadCounter s mod 2 ^ 64 mod (mCapacity s mod 2 ^ 64))"

definition advanceReadIndex :: "int \<Rightarrow> fifo_buffer \<Rightarrow> fifo_buffer" where
  "advanceReadIndex numFrames s = s\<lparr>mReadCounter := wrap_i64 (mReadCounter s + numFrames)\<rparr>"

definition getEmptyFramesAvailable :: "fifo_buffer \<Rightarrow> int" where
  "getEmptyFramesAvailable s = wrap_i32 (mThreshold s - getFullFramesAvailable s)"

definition getWriteIndex :: "fifo_buffer \<Rightarrow> int" where
  "getWriteIndex s = wrap_i32 (mWriteCounter s mod 2 ^ 64 mod (mCapacity s mod 2 ^ 64))"

definition advanceWriteIndex :: "int \<Rightarrow> fifo_buffer \<Rightarrow> fifo_buffer" where
  "advanceWriteIndex numFrames s = s\<lparr>mWriteCounter := wrap_i64 (mWriteCounter s + numFrames)\<rparr>"

definition setThreshold :: "int \<Rightarrow> fifo_buffer \<Rightarrow> fifo_buffer" where
  "setThreshold threshold s =
     s\<lparr>mThreshold := if threshold > mCapacity s then mCapacity s else if threshold < 0 then 0 else threshold\<rparr>"

section \<open>Buffer\<close>

text \<open>
  The two constructors: fresh storage of indeterminate content, and storage and counters that
  live in memory shared with another process, where the counters are set to zero.
\<close>

definition convertFramesToBytes :: "int \<Rightarrow> fifo_buffer \<Rightarrow> int" where
  "convertFramesToBytes frames s = wrap_i32 (frames * mBytesPerFrame s)"

definition new_FifoBuffer :: "int \<Rightarrow> int \<Rightarrow> u8 list \<Rightarrow> fifo_buffer" where
  "new_FifoBuffer bytesPerFrame capacityInFrames junk =
     \<lparr>mBytesPerFrame = bytesPerFrame,
      mStorage = take (nat (wrap_i32 (bytesPerFrame * capacityInFrames))) junk,
      mStorageOwned = True, mCapacity = capacityInFrames, mThreshold = capacityInFrames,
      mReadCounter = 0, mWriteCounter = 0\<rparr>"

definition new_FifoBuffer_indirect :: "int \<Rightarrow> int \<Rightarrow> u8 list \<Rightarrow> fifo_buffer" where
  "new_FifoBuffer_indirect bytesPerFrame capacityInFrames dataStorage =
     \<lparr>mBytesPerFrame = bytesPerFrame, mStorage = dataStorage,
      mStorageOwned = False, mCapacity = capacityInFrames, mThreshold = capacityInFrames,
      mReadCounter = 0, mWriteCounter = 0\<rparr>"

text \<open>A \<open>WrappingBuffer\<close>: the data offset and the number of frames of its two parts.\<close>

type_synonym wrapping_buffer = "(int option \<times> int) list"

definition fillWrappingBuffer :: "int \<Rightarrow> int \<Rightarrow> fifo_buffer \<Rightarrow> wrapping_buffer" where
  "fillWrappingBuffer framesAvailable startIndex s =
     (if framesAvailable > 0
      then
        (let capacity = mCapacity s; source = convertFramesToBytes startIndex s
         in if wrap_i32 (startIndex + framesAvailable) > capacity
            then (let firstFrames = wrap_i32 (capacity - startIndex)
                  in [(Some source, firstFrames), (Some 0, wrap_i32 (framesAvailable - firstFrames))])
            else [(Some source, framesAvailable), (None, 0)])
      else [(None, 0), (None, 0)])"

definition getFullDataAvailable :: "fifo_buffer \<Rightarrow> int \<times> wrapping_buffer" where
  "getFullDataAvailable s =
     (let framesAvailable = min (getFullFramesAvailable s) (mCapacity s)
      in (framesAvailable, fillWrappingBuffer framesAvailable (getReadIndex s) s))"

definition getEmptyRoomAvailable :: "fifo_buffer \<Rightarrow> int \<times> wrapping_buffer" where
  "getEmptyRoomAvailable s =
     (let framesAvailable = min (getEmptyFramesAvailable s) (mCapacity s)
      in (framesAvailable, fillWrappingBuffer framesAvailable (getWriteIndex s) s))"

text \<open>
  The loop of \<open>read\<close> over the parts: the frames that are left and the bytes copied so far. The
  copies go to consecutive places of the caller's buffer.
\<close>

fun read_loop :: "fifo_buffer \<Rightarrow> wrapping_buffer \<Rightarrow> int \<Rightarrow> u8 list \<Rightarrow> (int \<times> u8 list) option" where
  "read_loop s [] framesLeft dest = Some (framesLeft, dest)"
| "read_loop s ((data, framesAvailable) # parts) framesLeft dest =
     (if framesLeft > 0
      then
        (if framesAvailable > 0
         then
           (let framesToRead = (if framesLeft > framesAvailable then framesAvailable else framesLeft);
                numBytes = convertFramesToBytes framesToRead s
            in case mem_read (mStorage s) data numBytes of
                 None \<Rightarrow> None
               | Some bs \<Rightarrow> read_loop s parts (framesLeft - framesToRead) (dest @ bs))
         else Some (framesLeft, dest))
      else Some (framesLeft, dest))"

text \<open>\<open>read\<close> returns the bytes that it wrote to the caller's buffer, and the frame count.\<close>

definition FifoBuffer_read :: "int \<Rightarrow> fifo_buffer \<Rightarrow> (u8 list \<times> int \<times> fifo_buffer) option" where
  "FifoBuffer_read numFrames s =
     (case read_loop s (snd (getFullDataAvailable s)) numFrames [] of
        None \<Rightarrow> None
      | Some (framesLeft, dest) \<Rightarrow>
          (let framesRead = numFrames - framesLeft
           in Some (dest, framesRead, advanceReadIndex framesRead s)))"

fun write_loop :: "u8 list \<Rightarrow> wrapping_buffer \<Rightarrow> int \<Rightarrow> int \<Rightarrow> fifo_buffer \<Rightarrow> (int \<times> fifo_buffer) option" where
  "write_loop buf [] source framesLeft s = Some (framesLeft, s)"
| "write_loop buf ((data, framesAvailable) # parts) source framesLeft s =
     (if framesLeft > 0
      then
        (if framesAvailable > 0
         then
           (let framesToWrite = (if framesLeft > framesAvailable then framesAvailable else framesLeft);
                numBytes = convertFramesToBytes framesToWrite s
            in case mem_read buf (Some source) numBytes of
                 None \<Rightarrow> None
               | Some bs \<Rightarrow>
                   (case mem_write (mStorage s) data bs of
                      None \<Rightarrow> None
                    | Some st \<Rightarrow>
                        write_loop buf parts (source + numBytes) (framesLeft - framesToWrite) (s\<lparr>mStorage := st\<rparr>)))
         else Some (framesLeft, s))
      else Some (framesLeft, s))"

definition FifoBuffer_write :: "u8 list \<Rightarrow> int \<Rightarrow> fifo_buffer \<Rightarrow> (int \<times> fifo_buffer) option" where
  "FifoBuffer_write buf numFrames s =
     (case write_loop buf (snd (getEmptyRoomAvailable s)) 0 numFrames s of
        None \<Rightarrow> None
      | Some (framesLeft, s1) \<Rightarrow>
          (let framesWritten = numFrames - framesLeft
           in Some (framesWritten, advanceWriteIndex framesWritten s1)))"

definition getThreshold :: "fifo_buffer \<Rightarrow> int" where
  "getThreshold s = mThreshold s"

definition getBufferCapacityInFrames :: "fifo_buffer \<Rightarrow> int" where
  "getBufferCapacityInFrames s = mCapacity s"

definition eraseMemory :: "fifo_buffer \<Rightarrow> fifo_buffer" where
  "eraseMemory s =
     (let numBytes = convertFramesToBytes (getBufferCapacityInFrames s) s
      in if numBytes > 0 then s\<lparr>mStorage := replicate (nat numBytes) 0 @ drop (nat numBytes) (mStorage s)\<rparr> else s)"

section \<open>Well-formed buffers and their content\<close>

text \<open>
  The sizes for which the 32-bit arithmetic does not overflow: an index plus a frame count
  stays below \<open>2^31\<close>, and so does the size of the storage in bytes. \<open>budget\<close> is the number of
  frames that can still be written before the 64-bit counter overflows.
\<close>

definition fifo_wf :: "int \<Rightarrow> fifo_buffer \<Rightarrow> bool" where
  "fifo_wf budget s \<longleftrightarrow>
     0 < mBytesPerFrame s \<and> 0 < mCapacity s \<and> 2 * mCapacity s \<le> 2 ^ 31 \<and>
     mCapacity s * mBytesPerFrame s < 2 ^ 31 \<and>
     int (length (mStorage s)) = mCapacity s * mBytesPerFrame s \<and>
     0 \<le> mThreshold s \<and> mThreshold s \<le> mCapacity s \<and>
     0 \<le> mReadCounter s \<and> mReadCounter s \<le> mWriteCounter s \<and>
     mWriteCounter s \<le> mReadCounter s + mCapacity s \<and>
     0 \<le> budget \<and> mWriteCounter s + budget < 2 ^ 63"

definition byte_at :: "int \<Rightarrow> fifo_buffer \<Rightarrow> nat" where
  "byte_at counter s = nat (counter * mBytesPerFrame s)"

definition fifo_content :: "fifo_buffer \<Rightarrow> u8 list" where
  "fifo_content s = ring_slice (mStorage s) (byte_at (mReadCounter s) s) (byte_at (mWriteCounter s) s)"

lemma fifo_wfD:
  assumes "fifo_wf budget s"
  shows "0 < mBytesPerFrame s" "0 < mCapacity s" "2 * mCapacity s \<le> 2 ^ 31"
    "mCapacity s * mBytesPerFrame s < 2 ^ 31" "int (length (mStorage s)) = mCapacity s * mBytesPerFrame s"
    "0 \<le> mThreshold s" "mThreshold s \<le> mCapacity s" "0 \<le> mReadCounter s"
    "mReadCounter s \<le> mWriteCounter s" "mWriteCounter s \<le> mReadCounter s + mCapacity s"
    "0 \<le> budget" "mWriteCounter s + budget < 2 ^ 63"
  using assms by (simp_all add: fifo_wf_def)

lemma index_of_counter:
  assumes "fifo_wf budget s" and "0 \<le> c" and "c < 2 ^ 63"
  shows "wrap_i32 (c mod 2 ^ 64 mod (mCapacity s mod 2 ^ 64)) = c mod mCapacity s"
proof -
  note wf = fifo_wfD [OF assms(1)]
  have "c mod mCapacity s < 2 ^ 31" using pos_mod_bound [of "mCapacity s" c] wf by linarith
  with wf assms(2,3) show ?thesis by (simp add: wrap_i32_nonneg)
qed

lemma fifo_indices:
  assumes "fifo_wf budget s"
  shows "getReadIndex s = mReadCounter s mod mCapacity s" and "getWriteIndex s = mWriteCounter s mod mCapacity s"
    and "getFullFramesAvailable s = mWriteCounter s - mReadCounter s"
    and "getEmptyFramesAvailable s = mThreshold s - (mWriteCounter s - mReadCounter s)"
proof -
  note wf = fifo_wfD [OF assms]
  have R: "mReadCounter s < 2 ^ 63" and W: "0 \<le> mWriteCounter s" "mWriteCounter s < 2 ^ 63"
    using wf by linarith+
  show "getReadIndex s = mReadCounter s mod mCapacity s"
    unfolding getReadIndex_def by (rule index_of_counter [OF assms wf(8) R])
  show "getWriteIndex s = mWriteCounter s mod mCapacity s"
    unfolding getWriteIndex_def by (rule index_of_counter [OF assms W])
  show full: "getFullFramesAvailable s = mWriteCounter s - mReadCounter s"
    using wf by (simp add: getFullFramesAvailable_def wrap_i32_id wrap_i64_id)
  show "getEmptyFramesAvailable s = mThreshold s - (mWriteCounter s - mReadCounter s)"
    using wf by (simp add: getEmptyFramesAvailable_def full wrap_i32_id)
qed

lemma convert_small:
  assumes "fifo_wf budget s" and "0 \<le> k" and "k \<le> mCapacity s"
  shows "convertFramesToBytes k s = k * mBytesPerFrame s"
    and "0 \<le> k * mBytesPerFrame s" and "k * mBytesPerFrame s \<le> mCapacity s * mBytesPerFrame s"
proof -
  note wf = fifo_wfD [OF assms(1)]
  show le: "0 \<le> k * mBytesPerFrame s" "k * mBytesPerFrame s \<le> mCapacity s * mBytesPerFrame s"
    using wf(1) assms(2,3) by (simp_all add: mult_right_mono)
  then have "k * mBytesPerFrame s < 2 ^ 31" using wf(4) by linarith
  then show "convertFramesToBytes k s = k * mBytesPerFrame s"
    using le by (simp add: convertFramesToBytes_def wrap_i32_id)
qed

text \<open>The offset of a counter in the storage, and the bytes that a straight part holds.\<close>

lemma offset_of_counter:
  assumes "fifo_wf budget s" and "0 \<le> c"
  shows "nat (c mod mCapacity s * mBytesPerFrame s) = byte_at c s mod length (mStorage s)"
proof -
  note wf = fifo_wfD [OF assms(1)]
  have "c mod mCapacity s * mBytesPerFrame s = c * mBytesPerFrame s mod int (length (mStorage s))"
    unfolding wf(5) by (metis mod_mult_mult2)
  moreover have "0 \<le> c * mBytesPerFrame s" using wf(1) assms(2) by simp
  ultimately show ?thesis by (simp add: byte_at_def nat_mod_distrib)
qed

lemma byte_at_add:
  assumes "fifo_wf budget s" and "0 \<le> c" and "0 \<le> k"
  shows "byte_at (c + k) s = byte_at c s + nat (k * mBytesPerFrame s)"
  using assms fifo_wfD(1) [OF assms(1)] by (simp add: byte_at_def distrib_right nat_add_distrib)

lemma part_fits:
  assumes "fifo_wf budget s" and "0 \<le> c" and "0 \<le> k" and "c mod mCapacity s + k \<le> mCapacity s"
  shows "byte_at c s mod length (mStorage s) + nat (k * mBytesPerFrame s) \<le> length (mStorage s)"
    and "0 \<le> c mod mCapacity s * mBytesPerFrame s"
    and "c mod mCapacity s * mBytesPerFrame s + k * mBytesPerFrame s \<le> int (length (mStorage s))"
proof -
  note wf = fifo_wfD [OF assms(1)]
  have "(c mod mCapacity s + k) * mBytesPerFrame s \<le> mCapacity s * mBytesPerFrame s"
    using assms(4) wf(1) by (simp add: mult_right_mono)
  then show le: "c mod mCapacity s * mBytesPerFrame s + k * mBytesPerFrame s \<le> int (length (mStorage s))"
    by (simp add: wf(5) distrib_right)
  show nn: "0 \<le> c mod mCapacity s * mBytesPerFrame s" using wf(1,2) by simp
  have "0 \<le> k * mBytesPerFrame s" using wf(1) assms(3) by simp
  with le nn show "byte_at c s mod length (mStorage s) + nat (k * mBytesPerFrame s) \<le> length (mStorage s)"
    unfolding offset_of_counter [OF assms(1,2), symmetric] by linarith
qed

lemma read_part:
  assumes "fifo_wf budget s" and "0 \<le> c" and "0 \<le> k" and "c mod mCapacity s + k \<le> mCapacity s"
  shows "mem_read (mStorage s) (Some (c mod mCapacity s * mBytesPerFrame s)) (convertFramesToBytes k s) =
    Some (ring_slice (mStorage s) (byte_at c s) (byte_at (c + k) s))"
proof -
  note wf = fifo_wfD [OF assms(1)]
  have k: "k \<le> mCapacity s" using assms(4) pos_mod_sign [OF wf(2), of c] by linarith
  have "mem_read (mStorage s) (Some (c mod mCapacity s * mBytesPerFrame s)) (k * mBytesPerFrame s) =
    Some (take (nat (k * mBytesPerFrame s)) (drop (byte_at c s mod length (mStorage s)) (mStorage s)))"
    using part_fits [OF assms] wf(1) assms(3)
    by (simp add: mem_read_def offset_of_counter [OF assms(1,2)])
  then show ?thesis
    using part_fits(1) [OF assms]
    by (simp add: convert_small [OF assms(1,3) k] ring_slice_straight byte_at_add [OF assms(1,2,3)])
qed

text \<open>The parts of a region of \<open>f\<close> frames from a counter on.\<close>

lemma fill_parts:
  assumes "fifo_wf budget s" and "0 \<le> c" and "0 < f" and "f \<le> mCapacity s"
  defines "i \<equiv> c mod mCapacity s"
  shows "fillWrappingBuffer f i s =
    (if i + f > mCapacity s
     then [(Some (i * mBytesPerFrame s), mCapacity s - i), (Some 0, f - (mCapacity s - i))]
     else [(Some (i * mBytesPerFrame s), f), (None, 0)])"
proof -
  note wf = fifo_wfD [OF assms(1)]
  have i: "0 \<le> i" "i < mCapacity s" using wf(2) by (simp_all add: i_def)
  then have "wrap_i32 (i + f) = i + f" "wrap_i32 (mCapacity s - i) = mCapacity s - i"
    "wrap_i32 (f - (mCapacity s - i)) = f - (mCapacity s - i)"
    using wf(3) assms(3,4) by (simp_all add: wrap_i32_id)
  moreover have "convertFramesToBytes i s = i * mBytesPerFrame s"
    using i assms(1) by (intro convert_small(1)) simp_all
  ultimately show ?thesis using assms(3) by (simp add: fillWrappingBuffer_def Let_def)
qed

section \<open>Reading and writing a region\<close>

lemma wrapped_counter:
  fixes c C :: int
  assumes "0 < C"
  shows "(c + (C - c mod C)) mod C = 0"
  by (metis add.commute diff_add_eq diff_diff_eq2 minus_mod_self2 mod_0 mod_diff_right_eq diff_self mod_self add_diff_cancel_right')

lemma read_region:
  assumes wf: "fifo_wf budget s" and c: "0 \<le> c" and f: "0 \<le> f" "f \<le> mCapacity s" and n: "0 \<le> n"
  shows "read_loop s (fillWrappingBuffer f (c mod mCapacity s) s) n [] =
    Some (n - min n f, ring_slice (mStorage s) (byte_at c s) (byte_at (c + min n f) s))"
proof (cases "0 < f \<and> 0 < n")
  case False
  with f(1) n show ?thesis
    by (auto simp: fillWrappingBuffer_def ring_slice_def Let_def min_def)
next
  case True
  let ?C = "mCapacity s" and ?i = "c mod mCapacity s" and ?st = "mStorage s"
  have C: "0 < ?C" using fifo_wfD [OF wf] by blast
  then have i: "0 \<le> ?i" "?i < ?C" by simp_all
  note parts = fill_parts [OF wf c _ f(2)]
  note rd = read_part [OF wf c]
  show ?thesis
  proof (cases "?i + f > ?C")
    case False
    have "mem_read ?st (Some (?i * mBytesPerFrame s)) (convertFramesToBytes (min n f) s) =
        Some (ring_slice ?st (byte_at c s) (byte_at (c + min n f) s))"
      using False True by (intro rd) auto
    with False True show ?thesis by (auto simp: parts Let_def min_def split: if_splits)
  next
    case wrap: True
    let ?k = "?C - ?i"
    have first: "mem_read ?st (Some (?i * mBytesPerFrame s)) (convertFramesToBytes (min n ?k) s) =
        Some (ring_slice ?st (byte_at c s) (byte_at (c + min n ?k) s))"
      using i True by (intro rd) auto
    have rest: "mem_read ?st (Some 0) (convertFramesToBytes k s) =
        Some (ring_slice ?st (byte_at (c + ?k) s) (byte_at (c + ?k + k) s))" if "0 \<le> k" "k \<le> ?C" for k
      using read_part [OF wf, of "c + ?k" k] wrapped_counter [OF C, of c] c i that by simp
    show ?thesis
    proof (cases "n \<le> ?k")
      case True
      with wrap \<open>0 < f \<and> 0 < n\<close> first i show ?thesis by (auto simp: parts Let_def min_def)
    next
      case False
      have le: "byte_at c s \<le> byte_at (c + ?k) s" "byte_at (c + ?k) s \<le> byte_at (c + min n f) s"
        using byte_at_add [OF wf c, of ?k] byte_at_add [OF wf, of "c + ?k" "min n f - ?k"] c i False wrap
        by (auto simp: min_def)
      have "read_loop s (fillWrappingBuffer f ?i s) n [] =
          read_loop s [(Some 0, f - ?k)] (n - ?k) (ring_slice ?st (byte_at c s) (byte_at (c + ?k) s))"
        using False wrap \<open>0 < f \<and> 0 < n\<close> first i by (simp add: parts Let_def min_def)
      also have "\<dots> = Some (n - ?k - (min n f - ?k), ring_slice ?st (byte_at c s) (byte_at (c + ?k) s) @
          ring_slice ?st (byte_at (c + ?k) s) (byte_at (c + min n f) s))"
        using False wrap f(2) i rest [of "f - ?k"] rest [of "n - ?k"] by (auto simp: Let_def min_def)
      finally show ?thesis using le by (simp add: ring_slice_append)
    qed
  qed
qed

lemma write_part:
  assumes wf: "fifo_wf budget s" and c: "0 \<le> R" "R \<le> c" "c + k \<le> R + mCapacity s" and k: "0 \<le> k"
    and fits: "c mod mCapacity s + k \<le> mCapacity s" and bs: "length bs = nat (k * mBytesPerFrame s)"
  shows "\<exists>st. mem_write (mStorage s) (Some (c mod mCapacity s * mBytesPerFrame s)) bs = Some st \<and>
    length st = length (mStorage s) \<and>
    ring_slice st (byte_at R s) (byte_at (c + k) s) = ring_slice (mStorage s) (byte_at R s) (byte_at c s) @ bs"
proof -
  note D = fifo_wfD [OF wf]
  have c0: "0 \<le> c" using c by simp
  note part = part_fits [OF wf c0 k fits]
  have w: "mem_write (mStorage s) (Some (c mod mCapacity s * mBytesPerFrame s)) bs =
      Some (take (byte_at c s mod length (mStorage s)) (mStorage s) @ bs @
            drop (byte_at c s mod length (mStorage s) + length bs) (mStorage s))"
    using part D(1) k bs by (simp add: mem_write_def offset_of_counter [OF wf c0])
  have le: "byte_at R s \<le> byte_at c s"
    using byte_at_add [OF wf c(1), of "c - R"] c(2) by simp
  have "byte_at (c + k) s \<le> byte_at (R + mCapacity s) s"
    using byte_at_add [OF wf, of "c + k" "R + mCapacity s - (c + k)"] c k by simp
  then have "byte_at c s + length bs \<le> byte_at R s + length (mStorage s)"
    using byte_at_add [OF wf c0 k] byte_at_add [OF wf c(1), of "mCapacity s"] D(2,5) bs by simp
  from ring_slice_write [OF _ le this] part(1) bs w length_mem_write [OF w] show ?thesis
    by (simp add: byte_at_add [OF wf c0 k])
qed

text \<open>One round of the loop of \<open>write\<close>: \<open>k\<close> frames from the caller's buffer to one part.\<close>

lemma write_round:
  assumes wf: "fifo_wf budget s" and n: "0 < n" and avail: "0 < avail"
    and c: "0 \<le> R" "R \<le> c" "c + avail \<le> R + mCapacity s"
    and fits: "c mod mCapacity s + avail \<le> mCapacity s"
    and src: "0 \<le> j" "(j + n) * mBytesPerFrame s \<le> int (length buf)"
  defines "k \<equiv> min n avail"
  shows "\<exists>st. write_loop buf ((Some (c mod mCapacity s * mBytesPerFrame s), avail) # parts) (j * mBytesPerFrame s) n s =
      write_loop buf parts ((j + k) * mBytesPerFrame s) (n - k) (s\<lparr>mStorage := st\<rparr>) \<and>
    length st = length (mStorage s) \<and>
    ring_slice st (byte_at R s) (byte_at (c + k) s) = ring_slice (mStorage s) (byte_at R s) (byte_at c s) @
      take (nat (k * mBytesPerFrame s)) (drop (nat (j * mBytesPerFrame s)) buf)"
proof -
  note D = fifo_wfD [OF wf]
  have k: "0 \<le> k" "k \<le> n" "k \<le> avail" "k \<le> mCapacity s"
    using n avail fits pos_mod_sign [OF D(2), of c] by (auto simp: k_def)
  note conv = convert_small [OF wf k(1,4)]
  have jb: "0 \<le> j * mBytesPerFrame s" using src(1) D(1) by simp
  have jk: "(j + k) * mBytesPerFrame s \<le> int (length buf)"
    using src(2) mult_right_mono [of "j + k" "j + n" "mBytesPerFrame s"] k(2) D(1) by linarith
  let ?bs = "take (nat (k * mBytesPerFrame s)) (drop (nat (j * mBytesPerFrame s)) buf)"
  have rd: "mem_read buf (Some (j * mBytesPerFrame s)) (convertFramesToBytes k s) = Some ?bs"
    using jk jb conv by (simp add: mem_read_def distrib_right)
  have len: "length ?bs = nat (k * mBytesPerFrame s)"
    using jk jb conv(2) by (simp add: distrib_right)
  have fits': "c + k \<le> R + mCapacity s" "c mod mCapacity s + k \<le> mCapacity s" using c fits k by linarith+
  from write_part [OF wf c(1,2) fits'(1) k(1) fits'(2) len] obtain st where
    wr: "mem_write (mStorage s) (Some (c mod mCapacity s * mBytesPerFrame s)) ?bs = Some st"
    and st: "length st = length (mStorage s)" "ring_slice st (byte_at R s) (byte_at (c + k) s) =
      ring_slice (mStorage s) (byte_at R s) (byte_at c s) @ ?bs" by blast
  have "(if n > avail then avail else n) = k" by (auto simp: k_def)
  with n avail rd wr conv(1) have
    "write_loop buf ((Some (c mod mCapacity s * mBytesPerFrame s), avail) # parts) (j * mBytesPerFrame s) n s =
     write_loop buf parts ((j + k) * mBytesPerFrame s) (n - k) (s\<lparr>mStorage := st\<rparr>)"
    by (simp add: Let_def distrib_right)
  with st show ?thesis by blast
qed

lemma write_loop_done:
  "n = 0 \<Longrightarrow> write_loop buf parts source n s = Some (0, s)"
  "write_loop buf [(None, 0)] source n s = Some (n, s)"
  by (cases parts rule: list.exhaust) auto

lemma write_region_wrapped:
  assumes wf: "fifo_wf budget s" and c: "0 \<le> R" "R \<le> c" "c + f \<le> R + mCapacity s"
    and n: "0 < n" and buf: "n * mBytesPerFrame s \<le> int (length buf)"
  defines "k \<equiv> mCapacity s - c mod mCapacity s"
  assumes f: "k < f"
  shows "\<exists>st. write_loop buf [(Some (c mod mCapacity s * mBytesPerFrame s), k), (Some 0, f - k)] 0 n s =
      Some (n - min n f, s\<lparr>mStorage := st\<rparr>) \<and> length st = length (mStorage s) \<and>
    ring_slice st (byte_at R s) (byte_at (c + min n f) s) = ring_slice (mStorage s) (byte_at R s) (byte_at c s) @
      take (nat (min n f * mBytesPerFrame s)) buf"
proof -
  note D = fifo_wfD [OF wf]
  let ?b = "mBytesPerFrame s" and ?k = "min n k"
  have k: "0 < k" "c mod mCapacity s + k \<le> mCapacity s" "c + k \<le> R + mCapacity s"
    using D(2) c f by (simp_all add: k_def)
  from write_round [OF wf n k(1) c(1,2) k(3,2), of 0 buf "[(Some 0, f - k)]"] buf obtain st where
    loop: "write_loop buf [(Some (c mod mCapacity s * ?b), k), (Some 0, f - k)] 0 n s =
      write_loop buf [(Some 0, f - k)] (?k * ?b) (n - ?k) (s\<lparr>mStorage := st\<rparr>)"
    and st: "length st = length (mStorage s)" "ring_slice st (byte_at R s) (byte_at (c + ?k) s) =
      ring_slice (mStorage s) (byte_at R s) (byte_at c s) @ take (nat (?k * ?b)) buf" by auto
  show ?thesis
  proof (cases "n \<le> k")
    case True
    then have "?k = n" "min n f = n" using f by auto
    with loop st show ?thesis by (auto simp: write_loop_done)
  next
    case False
    let ?s1 = "s\<lparr>mStorage := st\<rparr>" and ?m = "min (n - k) (f - k)"
    have wf1: "fifo_wf budget ?s1" using wf st(1) by (simp add: fifo_wf_def)
    have at: "byte_at x ?s1 = byte_at x s" for x by (simp add: byte_at_def)
    have zero: "(c + k) mod mCapacity s = 0" using wrapped_counter [OF D(2), of c] by (simp add: k_def)
    from write_round [OF wf1, of "n - k" "f - k" R "c + k" k buf "[]"] zero False f k c buf D(1)
    obtain st' where
      loop': "write_loop buf [(Some 0, f - k)] (k * ?b) (n - k) ?s1 = Some (n - k - ?m, s\<lparr>mStorage := st'\<rparr>)"
      and st': "length st' = length st" "ring_slice st' (byte_at R s) (byte_at (c + k + ?m) s) =
        ring_slice st (byte_at R s) (byte_at (c + k) s) @ take (nat (?m * ?b)) (drop (nat (k * ?b)) buf)"
      by (auto simp: at)
    have sum: "?k = k" "k + ?m = min n f" using False f by (auto simp: min_def)
    have "take (nat (k * ?b)) buf @ take (nat (?m * ?b)) (drop (nat (k * ?b)) buf) =
        take (nat (min n f * ?b)) buf"
      unfolding sum(2) [symmetric] using D(1) k False f by (simp add: distrib_right nat_add_distrib take_add)
    with loop loop' st st' sum show ?thesis by (auto simp: add.assoc)
  qed
qed

lemma write_region:
  assumes wf: "fifo_wf budget s" and c: "0 \<le> R" "R \<le> c" "c + f \<le> R + mCapacity s"
    and f: "0 \<le> f" and n: "0 \<le> n" and buf: "n * mBytesPerFrame s \<le> int (length buf)"
  shows "\<exists>st. write_loop buf (fillWrappingBuffer f (c mod mCapacity s) s) 0 n s =
      Some (n - min n f, s\<lparr>mStorage := st\<rparr>) \<and> length st = length (mStorage s) \<and>
    ring_slice st (byte_at R s) (byte_at (c + min n f) s) = ring_slice (mStorage s) (byte_at R s) (byte_at c s) @
      take (nat (min n f * mBytesPerFrame s)) buf"
proof (cases "0 < f \<and> 0 < n")
  case False
  with f n have m: "min n f = 0" by (auto simp: min_def)
  have "write_loop buf (fillWrappingBuffer f (c mod mCapacity s) s) 0 n s = Some (n, s)"
    using False f n by (auto simp: fillWrappingBuffer_def Let_def)
  with m show ?thesis by (intro exI [of _ "mStorage s"]) simp
next
  case True
  note D = fifo_wfD [OF wf]
  let ?i = "c mod mCapacity s"
  have c0: "0 \<le> c" and fC: "f \<le> mCapacity s" using c by simp_all
  note parts = fill_parts [OF wf c0 _ fC]
  show ?thesis
  proof (cases "?i + f > mCapacity s")
    case False
    with write_round [OF wf, of n f R c 0 buf "[(None, 0)]"] True c buf show ?thesis
      by (auto simp: parts write_loop_done)
  next
    case wrap: True
    with write_region_wrapped [OF wf c, of n buf] True buf show ?thesis by (simp add: parts)
  qed
qed

section \<open>The two operations on the content\<close>

lemma fifo_read_content:
  assumes wf: "fifo_wf budget s" and n: "0 \<le> n"
  defines "m \<equiv> min n (mWriteCounter s - mReadCounter s)"
  shows "\<exists>t. FifoBuffer_read n s = Some (take (nat (m * mBytesPerFrame s)) (fifo_content s), m, t) \<and>
    fifo_wf budget t \<and> mBytesPerFrame t = mBytesPerFrame s \<and>
    fifo_content t = drop (nat (m * mBytesPerFrame s)) (fifo_content s)"
proof -
  note D = fifo_wfD [OF wf]
  let ?R = "mReadCounter s" and ?W = "mWriteCounter s" and ?st = "mStorage s"
  have m: "0 \<le> m" "?R + m \<le> ?W" using n D by (auto simp: m_def)
  have at: "byte_at (?R + m) s = byte_at ?R s + nat (m * mBytesPerFrame s)"
    "byte_at (?R + m) s \<le> byte_at ?W s"
    using byte_at_add [OF wf D(8) m(1)] byte_at_add [OF wf, of "?R + m" "?W - (?R + m)"] m D by auto
  have split: "fifo_content s = ring_slice ?st (byte_at ?R s) (byte_at (?R + m) s) @
      ring_slice ?st (byte_at (?R + m) s) (byte_at ?W s)"
    using at by (simp add: fifo_content_def ring_slice_append)
  have avail: "min (?W - ?R) (mCapacity s) = ?W - ?R" using D by simp
  define t where "t = advanceReadIndex m s"
  have t: "t = s\<lparr>mReadCounter := ?R + m\<rparr>" using m D by (simp add: t_def advanceReadIndex_def wrap_i64_id)
  have "FifoBuffer_read n s = Some (ring_slice ?st (byte_at ?R s) (byte_at (?R + m) s), m, t)"
    using read_region [OF wf D(8), of "?W - ?R" n] D n
    by (simp add: FifoBuffer_read_def getFullDataAvailable_def fifo_indices [OF wf] Let_def avail
        flip: m_def t_def)
  moreover have "fifo_wf budget t" using wf m D(10) by (simp add: t fifo_wf_def)
  moreover have "fifo_content t = ring_slice ?st (byte_at (?R + m) s) (byte_at ?W s)"
    by (simp add: t fifo_content_def byte_at_def)
  ultimately show ?thesis using at(1) by (auto simp: split t)
qed

lemma fifo_write_content:
  assumes wf: "fifo_wf budget s" and n: "0 \<le> n" "n \<le> budget"
    and buf: "n * mBytesPerFrame s \<le> int (length buf)"
  defines "m \<equiv> max 0 (min n (mThreshold s - (mWriteCounter s - mReadCounter s)))"
  shows "\<exists>t. FifoBuffer_write buf n s = Some (m, t) \<and> fifo_wf (budget - n) t \<and>
    mBytesPerFrame t = mBytesPerFrame s \<and>
    fifo_content t = fifo_content s @ take (nat (m * mBytesPerFrame s)) buf"
proof -
  note D = fifo_wfD [OF wf]
  let ?R = "mReadCounter s" and ?W = "mWriteCounter s"
  define f where "f = max 0 (mThreshold s - (?W - ?R))"
  have f: "0 \<le> f" "?W + f \<le> ?R + mCapacity s" "min n f = m" using D n(1) by (auto simp: f_def m_def)
  have fill: "snd (getEmptyRoomAvailable s) = fillWrappingBuffer f (?W mod mCapacity s) s"
    using D by (auto simp: getEmptyRoomAvailable_def fifo_indices [OF wf] Let_def f_def fillWrappingBuffer_def)
  from write_region [OF wf D(8,9) f(2,1) n(1) buf] f(3) obtain st where
    loop: "write_loop buf (fillWrappingBuffer f (?W mod mCapacity s) s) 0 n s = Some (n - m, s\<lparr>mStorage := st\<rparr>)"
    and st: "length st = length (mStorage s)" "ring_slice st (byte_at ?R s) (byte_at (?W + m) s) =
      ring_slice (mStorage s) (byte_at ?R s) (byte_at ?W s) @ take (nat (m * mBytesPerFrame s)) buf" by auto
  have m: "0 \<le> m" "m \<le> n" "?W + m \<le> ?R + mCapacity s" using n(1) f by (auto simp: m_def)
  define t where "t = s\<lparr>mStorage := st, mWriteCounter := ?W + m\<rparr>"
  have "FifoBuffer_write buf n s = Some (m, t)"
    using loop m n D by (simp add: FifoBuffer_write_def fill Let_def advanceWriteIndex_def t_def wrap_i64_id)
  moreover have "fifo_wf (budget - n) t" using wf st(1) m n by (simp add: t_def fifo_wf_def)
  moreover have "fifo_content t = fifo_content s @ take (nat (m * mBytesPerFrame s)) buf"
    using st(2) by (simp add: t_def fifo_content_def byte_at_def)
  ultimately show ?thesis by (auto simp: t_def)
qed

section \<open>The contract of a stream buffer\<close>

text \<open>
  What the users of the FIFO rely on: a read takes the front of the content, a write appends a
  prefix of what it is given; \<open>grain\<close> is the size of a frame.
\<close>

locale stream_fifo =
  fixes wf :: "int \<Rightarrow> 's \<Rightarrow> bool"
    and content :: "'s \<Rightarrow> 'b list"
    and grain :: "'s \<Rightarrow> int"
    and get :: "int \<Rightarrow> 's \<Rightarrow> ('b list \<times> int \<times> 's) option"
    and put :: "'b list \<Rightarrow> int \<Rightarrow> 's \<Rightarrow> (int \<times> 's) option"
  assumes get_front: "wf k s \<Longrightarrow> 0 \<le> n \<Longrightarrow>
      \<exists>bs m t. get n s = Some (bs, m, t) \<and> wf k t \<and> grain t = grain s \<and> content s = bs @ content t"
    and put_back: "wf k s \<Longrightarrow> 0 \<le> n \<Longrightarrow> n \<le> k \<Longrightarrow> n * grain s \<le> int (length buf) \<Longrightarrow>
      \<exists>m t. put buf n s = Some (m, t) \<and> wf (k - n) t \<and> grain t = grain s \<and>
        content t = content s @ take (nat (m * grain s)) buf"

datatype 'b fifo_op = Write "'b list" int | Read int

text \<open>A run: the bytes that were accepted, the bytes that were delivered, and the final state.\<close>

fun fifo_run ::
  "('s \<Rightarrow> int) \<Rightarrow> (int \<Rightarrow> 's \<Rightarrow> ('b list \<times> int \<times> 's) option) \<Rightarrow> ('b list \<Rightarrow> int \<Rightarrow> 's \<Rightarrow> (int \<times> 's) option) \<Rightarrow>
   'b fifo_op list \<Rightarrow> 's \<Rightarrow> ('b list \<times> 'b list \<times> 's) option" where
  "fifo_run grain get put [] s = Some ([], [], s)"
| "fifo_run grain get put (Write buf n # ops) s =
     (case put buf n s of
        None \<Rightarrow> None
      | Some (m, t) \<Rightarrow>
          (case fifo_run grain get put ops t of
             None \<Rightarrow> None
           | Some (acc, del, u) \<Rightarrow> Some (take (nat (m * grain s)) buf @ acc, del, u)))"
| "fifo_run grain get put (Read n # ops) s =
     (case get n s of
        None \<Rightarrow> None
      | Some (bs, m, t) \<Rightarrow>
          (case fifo_run grain get put ops t of
             None \<Rightarrow> None
           | Some (acc, del, u) \<Rightarrow> Some (acc, bs @ del, u)))"

text \<open>The calls are legal: frame counts are not negative, buffers are large enough, and the counter lasts.\<close>

fun fifo_legal :: "int \<Rightarrow> int \<Rightarrow> 'b fifo_op list \<Rightarrow> bool" where
  "fifo_legal g k [] = True"
| "fifo_legal g k (Write buf n # ops) =
     (0 \<le> n \<and> n \<le> k \<and> n * g \<le> int (length buf) \<and> fifo_legal g (k - n) ops)"
| "fifo_legal g k (Read n # ops) = (0 \<le> n \<and> fifo_legal g k ops)"

context stream_fifo
begin

lemma run_stream:
  assumes "wf k s" and "fifo_legal (grain s) k ops"
  shows "\<exists>acc del t. fifo_run grain get put ops s = Some (acc, del, t) \<and> content s @ acc = del @ content t"
  using assms
proof (induction ops arbitrary: k s)
  case Nil
  then show ?case by simp
next
  case (Cons op ops)
  show ?case
  proof (cases op)
    case (Write buf n)
    with Cons.prems put_back [of k s n buf] obtain m t where
      p: "put buf n s = Some (m, t)" "wf (k - n) t" "grain t = grain s"
        "content t = content s @ take (nat (m * grain s)) buf" by auto
    then obtain acc del u where "fifo_run grain get put ops t = Some (acc, del, u)" "content t @ acc = del @ content u"
      using Cons.IH [of "k - n" t] Cons.prems(2) Write by auto
    with p show ?thesis by (simp add: Write)
  next
    case (Read n)
    with Cons.prems get_front [of k s n] obtain bs m t where
      g: "get n s = Some (bs, m, t)" "wf k t" "grain t = grain s" "content s = bs @ content t" by auto
    then obtain acc del u where "fifo_run grain get put ops t = Some (acc, del, u)" "content t @ acc = del @ content u"
      using Cons.IH [of k t] Cons.prems(2) Read by auto
    with g show ?thesis by (simp add: Read)
  qed
qed

end

interpretation fifo: stream_fifo fifo_wf fifo_content mBytesPerFrame FifoBuffer_read FifoBuffer_write
proof unfold_locales
  fix k s and n :: int
  assume "fifo_wf k s" and "0 \<le> n"
  from fifo_read_content [OF this] show "\<exists>bs m t. FifoBuffer_read n s = Some (bs, m, t) \<and> fifo_wf k t \<and>
      mBytesPerFrame t = mBytesPerFrame s \<and> fifo_content s = bs @ fifo_content t"
    by (metis append_take_drop_id)
next
  fix k s and n :: int and buf :: "u8 list"
  assume "fifo_wf k s" "0 \<le> n" "n \<le> k" "n * mBytesPerFrame s \<le> int (length buf)"
  from fifo_write_content [OF this] show "\<exists>m t. FifoBuffer_write buf n s = Some (m, t) \<and> fifo_wf (k - n) t \<and>
      mBytesPerFrame t = mBytesPerFrame s \<and> fifo_content t = fifo_content s @ take (nat (m * mBytesPerFrame s)) buf"
    by blast
qed

lemma new_FifoBuffer_wf:
  assumes "0 < b" "0 < c" "2 * c \<le> 2 ^ 31" "c * b < 2 ^ 31" "c * b \<le> int (length junk)" "0 \<le> k" "k < 2 ^ 63"
  shows "fifo_wf k (new_FifoBuffer b c junk) \<and> fifo_content (new_FifoBuffer b c junk) = []"
  using assms
  by (simp add: fifo_wf_def new_FifoBuffer_def fifo_content_def ring_slice_def byte_at_def wrap_i32_nonneg mult.commute)

section \<open>Properties\<close>

text \<open>
  Reading. On a well-formed buffer \<open>read\<close> never leaves the storage; it delivers the oldest
  frames of the content, as many as were asked for and are there, across the end of the ring
  where they wrap, and removes exactly those.
\<close>

theorem fifo_read_exact:
  assumes "fifo_wf budget s" and "0 \<le> n"
  shows "let m = min n (mWriteCounter s - mReadCounter s); bytes = nat (m * mBytesPerFrame s)
    in \<exists>t. FifoBuffer_read n s = Some (take bytes (fifo_content s), m, t) \<and> fifo_wf budget t \<and>
         fifo_content t = drop bytes (fifo_content s)"
  using fifo_read_content [OF assms] by (auto simp: Let_def)

theorem fifo_read_exact_witness:
  "\<exists>t. FifoBuffer_read 3
      \<lparr>mBytesPerFrame = 2, mStorage = [1, 2, 3, 4, 5, 6], mStorageOwned = True, mCapacity = 3, mThreshold = 3,
       mReadCounter = 2, mWriteCounter = 4\<rparr> = Some ([5, 6, 1, 2], 2, t)"
proof -
  let ?s = "\<lparr>mBytesPerFrame = 2, mStorage = [1, 2, 3, 4, 5, 6], mStorageOwned = True, mCapacity = 3, mThreshold = 3,
       mReadCounter = 2, mWriteCounter = 4\<rparr> :: fifo_buffer"
  have "fifo_wf 0 ?s" by (simp add: fifo_wf_def)
  moreover have "fifo_content ?s = [5, 6, 1, 2]"
    by (simp add: fifo_content_def ring_slice_def byte_at_def upt_rec)
  ultimately show ?thesis using fifo_read_exact [of 0 ?s 3] by (auto simp: Let_def)
qed

text \<open>
  Writing. On a well-formed buffer \<open>write\<close> never leaves the storage or the caller's
  buffer; it accepts as many frames as fit below the threshold, none if the buffer is above
  it, and appends them to the content without touching a frame that has not been read.
\<close>

theorem fifo_write_exact:
  assumes "fifo_wf budget s" and "0 \<le> n" and "n \<le> budget" and "n * mBytesPerFrame s \<le> int (length buf)"
  shows "let m = max 0 (min n (mThreshold s - (mWriteCounter s - mReadCounter s)))
    in \<exists>t. FifoBuffer_write buf n s = Some (m, t) \<and> fifo_wf (budget - n) t \<and>
         fifo_content t = fifo_content s @ take (nat (m * mBytesPerFrame s)) buf"
  using fifo_write_content [OF assms] by (auto simp: Let_def)

theorem fifo_write_exact_witness:
  "\<exists>t. FifoBuffer_write [7, 8, 9, 10, 11, 12] 3
      \<lparr>mBytesPerFrame = 2, mStorage = [1, 2, 3, 4, 5, 6], mStorageOwned = True, mCapacity = 3, mThreshold = 3,
       mReadCounter = 1, mWriteCounter = 2\<rparr> = Some (2, t) \<and> fifo_content t = [3, 4, 7, 8, 9, 10]"
proof -
  let ?s = "\<lparr>mBytesPerFrame = 2, mStorage = [1, 2, 3, 4, 5, 6], mStorageOwned = True, mCapacity = 3, mThreshold = 3,
       mReadCounter = 1, mWriteCounter = 2\<rparr> :: fifo_buffer"
  have "fifo_wf 3 ?s" by (simp add: fifo_wf_def)
  moreover have "fifo_content ?s = [3, 4]"
    by (simp add: fifo_content_def ring_slice_def byte_at_def upt_rec)
  ultimately show ?thesis
    using fifo_write_exact [of 3 ?s 3 "[7, 8, 9, 10, 11, 12]"] by (auto simp: Let_def)
qed

text \<open>
  C4: the stream. Through any sequence of reads and writes the FIFO is a lossless stream: what
  was in it and what was accepted, in order, is what was delivered followed by what is in it.
\<close>

theorem fifo_lossless_stream:
  assumes "fifo_wf budget s" and "fifo_legal (mBytesPerFrame s) budget ops"
  shows "\<exists>acc del t. fifo_run mBytesPerFrame FifoBuffer_read FifoBuffer_write ops s = Some (acc, del, t) \<and>
    fifo_content s @ acc = del @ fifo_content t"
  using assms by (rule fifo.run_stream)

theorem fifo_lossless_stream_witness:
  "\<exists>acc del t. fifo_run mBytesPerFrame FifoBuffer_read FifoBuffer_write
      [Write [1, 2, 3, 4] 4, Read 2, Write [5, 6] 2, Read 4] (new_FifoBuffer 1 4 [0, 0, 0, 0]) = Some (acc, del, t) \<and>
    acc = del @ fifo_content t"
proof -
  have w: "fifo_wf 6 (new_FifoBuffer 1 4 [0, 0, 0, 0])" "fifo_content (new_FifoBuffer 1 4 [0, 0, 0, 0]) = []"
    using new_FifoBuffer_wf [of 1 4 "[0, 0, 0, 0]" 6] by simp_all
  have "fifo_legal (mBytesPerFrame (new_FifoBuffer 1 4 [0, 0, 0, 0])) 6
      [Write [1, 2, 3, 4 :: u8] 4, Read 2, Write [5, 6] 2, Read 4]" by (simp add: new_FifoBuffer_def)
  from fifo_lossless_stream [OF w(1) this] w(2) show ?thesis by simp
qed

end
