(* ===== verification/Bit_Reader.thy ===== *)
theory Bit_Reader
  imports Media_Prelude
begin

unbundle bit_operations_syntax

text \<open>
  The bit readers of \<open>media/libstagefright/foundation/ABitReader.cpp\<close>. \<open>ABitReader\<close> and its
  subclass \<open>NALBitReader\<close> share everything but \<open>fillReservoir\<close>, which the code dispatches
  virtually: here it is an argument of the shared methods. The pointer into the data is an
  offset into the buffer, \<open>mNumZeros\<close> is used by the subclass only. A shift of a 32-bit value
  by 32 or more is undefined in C++: its result is the argument \<open>wide\<close>, of which the proofs
  use only that a zero stays zero, as it does on every processor.
\<close>

section \<open>State\<close>

record bit_reader =
  buf :: "u8 list"
  mData :: nat
  mSize :: nat
  mReservoir :: u32
  mNumBitsLeft :: nat
  mOverRead :: bool
  mNumZeros :: nat

type_synonym wide_shift = "u32 \<Rightarrow> nat \<Rightarrow> u32"

definition shl32 :: "wide_shift \<Rightarrow> u32 \<Rightarrow> nat \<Rightarrow> u32" where
  "shl32 wide x k = (if k < 32 then push_bit k x else wide x k)"

definition shr32 :: "wide_shift \<Rightarrow> u32 \<Rightarrow> nat \<Rightarrow> u32" where
  "shr32 wide x k = (if k < 32 then drop_bit k x else wide x k)"

definition wide_keeps_zero :: "wide_shift \<Rightarrow> bool" where
  "wide_keeps_zero wide \<longleftrightarrow> (\<forall>k. wide 0 k = 0)"

definition new_bit_reader :: "u8 list \<Rightarrow> nat \<Rightarrow> bit_reader" where
  "new_bit_reader data sz =
     \<lparr>buf = data, mData = 0, mSize = sz, mReservoir = 0, mNumBitsLeft = 0, mOverRead = False, mNumZeros = 0\<rparr>"

section \<open>Filling the reservoir\<close>

text \<open>The loop of \<open>ABitReader::fillReservoir\<close>, with the counter \<open>i\<close> as its result.\<close>

fun fill_loop :: "wide_shift \<Rightarrow> nat \<Rightarrow> nat \<Rightarrow> bit_reader \<Rightarrow> nat \<times> bit_reader" where
  "fill_loop wide i 0 s = (i, s)"
| "fill_loop wide i (Suc todo) s =
     (if mSize s > 0
      then fill_loop wide (Suc i) todo
             (s\<lparr>mReservoir := shl32 wide (mReservoir s) 8 OR ucast (buf s ! mData s),
                mData := mData s + 1, mSize := mSize s - 1\<rparr>)
      else (i, s))"

definition ABitReader_fillReservoir :: "wide_shift \<Rightarrow> bit_reader \<Rightarrow> bool \<times> bit_reader" where
  "ABitReader_fillReservoir wide s =
     (if mSize s = 0 then (False, s\<lparr>mOverRead := True\<rparr>)
      else
        (let (i, s1) = fill_loop wide 0 4 (s\<lparr>mReservoir := 0\<rparr>); s2 = s1\<lparr>mNumBitsLeft := 8 * i\<rparr>
         in (True, s2\<lparr>mReservoir := shl32 wide (mReservoir s2) (32 - mNumBitsLeft s2)\<rparr>)))"

text \<open>
  The loop of \<open>NALBitReader::fillReservoir\<close>: a byte 3 after two zero bytes is dropped. \<open>sz\<close>
  is \<open>mSize\<close>, which the loop counts down.
\<close>

fun nal_fill_loop :: "wide_shift \<Rightarrow> nat \<Rightarrow> nat \<Rightarrow> bit_reader \<Rightarrow> nat \<times> bit_reader" where
  "nal_fill_loop wide i 0 s = (i, s)"
| "nal_fill_loop wide i (Suc sz) s =
     (if i < 4
      then
        (let b = buf s ! mData s;
             isEmulationPreventionByte = (mNumZeros s \<ge> 2 \<and> b = 3);
             s1 = s\<lparr>mNumZeros := if b = 0 then mNumZeros s + 1 else 0\<rparr>;
             s2 = (if isEmulationPreventionByte then s1
                   else s1\<lparr>mReservoir := shl32 wide (mReservoir s1) 8 OR ucast b\<rparr>)
         in nal_fill_loop wide (if isEmulationPreventionByte then i else Suc i) sz
              (s2\<lparr>mData := mData s + 1, mSize := sz\<rparr>))
      else (i, s))"

definition NALBitReader_fillReservoir :: "wide_shift \<Rightarrow> bit_reader \<Rightarrow> bool \<times> bit_reader" where
  "NALBitReader_fillReservoir wide s =
     (if mSize s = 0 then (False, s\<lparr>mOverRead := True\<rparr>)
      else
        (let (i, s1) = nal_fill_loop wide 0 (mSize s) (s\<lparr>mReservoir := 0\<rparr>); s2 = s1\<lparr>mNumBitsLeft := 8 * i\<rparr>
         in (True, s2\<lparr>mReservoir := shl32 wide (mReservoir s2) (32 - mNumBitsLeft s2)\<rparr>)))"

section \<open>Reading\<close>

text \<open>
  The loop of \<open>getBitsGraceful\<close>: \<open>None\<close> only if the fuel runs out; each round takes a bit or
  consumes a byte, so the bits to read and the bytes left bound the rounds.
\<close>

fun getBits_loop ::
  "(wide_shift \<Rightarrow> bit_reader \<Rightarrow> bool \<times> bit_reader) \<Rightarrow> wide_shift \<Rightarrow> nat \<Rightarrow> nat \<Rightarrow> u32 \<Rightarrow> bit_reader \<Rightarrow>
   (u32 option \<times> bit_reader) option" where
  "getBits_loop fill wide 0 n result s = None"
| "getBits_loop fill wide (Suc fuel) n result s =
     (if n = 0 then Some (Some result, s)
      else case (if mNumBitsLeft s = 0 then fill wide s else (True, s)) of
          (filled, s1) \<Rightarrow>
            if \<not> filled then Some (None, s1)
            else
              (let m = (if n > mNumBitsLeft s1 then mNumBitsLeft s1 else n)
               in getBits_loop fill wide fuel (n - m)
                    (shl32 wide result m OR shr32 wide (mReservoir s1) (32 - m))
                    (s1\<lparr>mReservoir := shl32 wide (mReservoir s1) m, mNumBitsLeft := mNumBitsLeft s1 - m\<rparr>)))"

text \<open>\<open>None\<close> for the return value \<open>false\<close>, which leaves the output alone.\<close>

definition getBitsGraceful ::
  "(wide_shift \<Rightarrow> bit_reader \<Rightarrow> bool \<times> bit_reader) \<Rightarrow> wide_shift \<Rightarrow> nat \<Rightarrow> bit_reader \<Rightarrow>
   (u32 option \<times> bit_reader) option" where
  "getBitsGraceful fill wide n s =
     (if n > 32 then Some (None, s) else getBits_loop fill wide (n + mSize s + 1) n 0 s)"

text \<open>\<open>getBits\<close> aborts the process (\<open>CHECK\<close>) when the bits are not there: \<open>None\<close>.\<close>

definition getBits ::
  "(wide_shift \<Rightarrow> bit_reader \<Rightarrow> bool \<times> bit_reader) \<Rightarrow> wide_shift \<Rightarrow> nat \<Rightarrow> bit_reader \<Rightarrow> (u32 \<times> bit_reader) option" where
  "getBits fill wide n s =
     (case getBitsGraceful fill wide n s of Some (Some x, t) \<Rightarrow> Some (x, t) | _ \<Rightarrow> None)"

definition getBitsWithFallback ::
  "(wide_shift \<Rightarrow> bit_reader \<Rightarrow> bool \<times> bit_reader) \<Rightarrow> wide_shift \<Rightarrow> nat \<Rightarrow> u32 \<Rightarrow> bit_reader \<Rightarrow>
   (u32 \<times> bit_reader) option" where
  "getBitsWithFallback fill wide n fallback s =
     (case getBitsGraceful fill wide n s of
        None \<Rightarrow> None
      | Some (None, t) \<Rightarrow> Some (fallback, t)
      | Some (Some x, t) \<Rightarrow> Some (x, t))"

fun skipBits ::
  "(wide_shift \<Rightarrow> bit_reader \<Rightarrow> bool \<times> bit_reader) \<Rightarrow> wide_shift \<Rightarrow> nat \<Rightarrow> bit_reader \<Rightarrow> (bool \<times> bit_reader) option" where
  "skipBits fill wide n s =
     (if n > 32
      then (case getBitsGraceful fill wide 32 s of
              None \<Rightarrow> None
            | Some (None, t) \<Rightarrow> Some (False, t)
            | Some (Some x, t) \<Rightarrow> skipBits fill wide (n - 32) t)
      else if n > 0
      then (case getBitsGraceful fill wide n s of
              None \<Rightarrow> None
            | Some (r, t) \<Rightarrow> Some (r \<noteq> None, t))
      else Some (True, s))"

declare skipBits.simps [simp del]

text \<open>
  \<open>putBits\<close>: the loop gives whole bytes back to the data; \<open>size_t\<close> arithmetic is modulo
  \<open>2^64\<close>. A failed \<open>CHECK_LE\<close> is \<open>None\<close>.
\<close>

function put_loop :: "nat \<Rightarrow> bit_reader \<Rightarrow> bit_reader" where
  "put_loop n s =
     (if (mNumBitsLeft s + n) mod 2 ^ 64 > 32
      then put_loop n (s\<lparr>mNumBitsLeft := (mNumBitsLeft s + 2 ^ 64 - 8) mod 2 ^ 64, mData := mData s - 1, mSize := mSize s + 1\<rparr>)
      else s)"
  by auto

text \<open>Each round lowers the sum by 8.\<close>

lemma mod_sub_round:
  fixes M d :: nat
  assumes "d \<le> (l + n) mod M" and "d \<le> M"
  shows "((l + M - d) mod M + n) mod M = (l + n) mod M - d"
proof (cases "M = 0")
  case True
  with assms show ?thesis by simp
next
  case False
  have "((l + M - d) mod M + n) mod M = (l + n + (M - d)) mod M"
    using assms(2) by (metis Nat.add_diff_assoc add.assoc add.commute mod_add_left_eq)
  also have "\<dots> = ((l + n) mod M + (M - d)) mod M" by (rule mod_add_left_eq [symmetric])
  also have "(l + n) mod M + (M - d) = (l + n) mod M - d + M" using assms by simp
  also have "\<dots> mod M = (l + n) mod M - d"
    using False by (simp add: less_imp_diff_less)
  finally show ?thesis .
qed

lemma put_round:
  assumes "32 < (l + n) mod (2 ^ 64 :: nat)"
  shows "((l + 2 ^ 64 - 8) mod 2 ^ 64 + n) mod 2 ^ 64 = (l + n) mod 2 ^ 64 - 8"
  using assms by (intro mod_sub_round) simp_all

termination put_loop
proof (relation "measure (\<lambda>(n, s). (mNumBitsLeft s + n) mod 2 ^ 64)")
  fix n :: nat and s :: bit_reader
  assume "32 < (mNumBitsLeft s + n) mod 2 ^ 64"
  then show "((n, s\<lparr>mNumBitsLeft := (mNumBitsLeft s + 2 ^ 64 - 8) mod 2 ^ 64, mData := mData s - 1, mSize := mSize s + 1\<rparr>), n, s)
      \<in> measure (\<lambda>(n, s). (mNumBitsLeft s + n) mod 2 ^ 64)"
    using put_round [of "mNumBitsLeft s" n] by simp
qed simp

declare put_loop.simps [simp del]

definition putBits :: "wide_shift \<Rightarrow> u32 \<Rightarrow> nat \<Rightarrow> bit_reader \<Rightarrow> bit_reader option" where
  "putBits wide x n s =
     (if mOverRead s then Some s
      else if n > 32 then None
      else
        (let t = put_loop n s
         in Some (t\<lparr>mReservoir := shr32 wide (mReservoir t) n OR shl32 wide x (32 - n),
                    mNumBitsLeft := (mNumBitsLeft t + n) mod 2 ^ 64\<rparr>)))"

definition numBitsLeft :: "bit_reader \<Rightarrow> nat" where
  "numBitsLeft s = mSize s * 8 + mNumBitsLeft s"

definition data_position :: "bit_reader \<Rightarrow> nat" where
  "data_position s = mData s - (mNumBitsLeft s + 7) div 8"

text \<open>
  The scan of \<open>atLeastNumBitsLeft\<close> over the bytes that are left: the bits that are still
  missing at its end.
\<close>

fun bits_left_scan :: "int \<Rightarrow> nat \<Rightarrow> u8 list \<Rightarrow> int" where
  "bits_left_scan remaining zeros [] = remaining"
| "bits_left_scan remaining zeros (b # bs) =
     (if remaining > 0
      then bits_left_scan (if zeros \<ge> 2 \<and> b = 3 then remaining else remaining - 8)
             (if b = 0 then zeros + 1 else 0) bs
      else remaining)"

definition raw_bytes :: "bit_reader \<Rightarrow> u8 list" where
  "raw_bytes s = take (mSize s) (drop (mData s) (buf s))"

definition atLeastNumBitsLeft :: "nat \<Rightarrow> bit_reader \<Rightarrow> bool" where
  "atLeastNumBitsLeft n s =
     (if n > numBitsLeft s then False
      else bits_left_scan (int n - int (mNumBitsLeft s)) (mNumZeros s) (raw_bytes s) \<le> 0)"

section \<open>Bits\<close>

text \<open>The bits of a byte, of a reservoir and of bytes, most significant first, and their value.\<close>

definition byte_bits :: "u8 \<Rightarrow> bool list" where
  "byte_bits b = map (bit b) (rev [0..<8])"

definition word_bits :: "u32 \<Rightarrow> bool list" where
  "word_bits w = map (bit w) (rev [0..<32])"

definition bits_of_bytes :: "u8 list \<Rightarrow> bool list" where
  "bits_of_bytes bs = concat (map byte_bits bs)"

definition append_bits :: "u32 \<Rightarrow> bool list \<Rightarrow> u32" where
  "append_bits = foldl (\<lambda>a b. 2 * a + of_bool b)"

abbreviation word_of_bits :: "bool list \<Rightarrow> u32" where
  "word_of_bits \<equiv> append_bits 0"

lemma length_word_bits [simp]: "length (word_bits w) = 32"
  by (simp add: word_bits_def)

lemma length_byte_bits [simp]: "length (byte_bits b) = 8"
  by (simp add: byte_bits_def)

lemma word_bits_nth: "i < 32 \<Longrightarrow> word_bits w ! i = bit w (31 - i)"
  by (simp add: word_bits_def rev_nth)

lemma byte_bits_nth: "i < 8 \<Longrightarrow> byte_bits b ! i = bit b (7 - i)"
  by (simp add: byte_bits_def rev_nth)

lemma bit_append_one:
  fixes a :: u32
  shows "bit (2 * a + of_bool b) k \<longleftrightarrow> (if k = 0 then b else k < 32 \<and> bit a (k - 1))"
proof -
  have "2 * a AND of_bool b = 0"
    by (rule bit_eqI) (auto simp: bit_and_iff bit_double_iff bit_1_iff split: if_splits)
  then have "2 * a + of_bool b = 2 * a OR of_bool b" by (rule disjunctive_add_eq_or)
  then show ?thesis by (cases k) (auto simp: bit_or_iff bit_double_iff bit_1_iff)
qed

lemma append_bits_append: "append_bits r (xs @ ys) = append_bits (append_bits r xs) ys"
  by (simp add: append_bits_def)

lemma append_bits_Nil [simp]: "append_bits r [] = r"
  by (simp add: append_bits_def)

lemma bit_append_bits:
  "bit (append_bits r bs) k \<longleftrightarrow>
     k < 32 \<and> (if k < length bs then bs ! (length bs - 1 - k) else bit r (k - length bs))"
proof (induction bs arbitrary: k rule: rev_induct)
  case Nil
  show ?case using bit_imp_le_length [of r k] by auto
next
  case (snoc b bs)
  have "append_bits r (bs @ [b]) = 2 * append_bits r bs + of_bool b" by (simp add: append_bits_def)
  with snoc [of "k - 1"] show ?case
    by (cases k) (auto simp: bit_append_one nth_append)
qed

lemma append_bits_take_word:
  assumes "wide_keeps_zero wide" and "m \<le> 32" and "m = 0 \<longrightarrow> w = 0" and "m = 32 \<longrightarrow> r = 0"
  shows "shl32 wide r m OR shr32 wide w (32 - m) = append_bits r (take m (word_bits w))"
proof (cases "m = 0 \<or> m = 32")
  case True
  then show ?thesis
  proof
    assume "m = 0"
    with assms show ?thesis by (simp add: shl32_def shr32_def wide_keeps_zero_def)
  next
    assume m: "m = 32"
    show ?thesis
      using assms m
      by (intro bit_word_eqI)
        (auto simp: shl32_def shr32_def wide_keeps_zero_def bit_append_bits word_bits_nth)
  qed
next
  case False
  show ?thesis
    by (rule bit_word_eqI)
      (use False assms(2) in \<open>auto simp: shl32_def shr32_def bit_or_iff bit_push_bit_iff bit_drop_bit_eq
          bit_append_bits word_bits_nth dest: bit_imp_le_length\<close>)
qed

lemma append_byte: "shl32 wide r 8 OR ucast (b :: u8) = append_bits r (byte_bits b)"
  by (rule bit_word_eqI)
    (auto simp: shl32_def bit_or_iff bit_push_bit_iff bit_ucast_iff bit_append_bits byte_bits_nth
      dest: bit_imp_le_length)

lemma word_bits_push:
  assumes "m < 32" and "l \<le> 32"
  shows "take (l - m) (word_bits (push_bit m w)) = drop m (take l (word_bits w))"
  by (rule nth_equalityI) (use assms in \<open>auto simp: word_bits_nth bit_push_bit_iff add.commute\<close>)

lemma left_aligned:
  assumes "wide_keeps_zero wide" and "length bs \<le> 32"
  shows "take (length bs) (word_bits (shl32 wide (word_of_bits bs) (32 - length bs))) = bs"
proof (cases "bs = []")
  case True
  then show ?thesis by simp
next
  case False
  show ?thesis
  proof (rule nth_equalityI)
    show "length (take (length bs) (word_bits (shl32 wide (word_of_bits bs) (32 - length bs)))) = length bs"
      using assms(2) by simp
    show "take (length bs) (word_bits (shl32 wide (word_of_bits bs) (32 - length bs))) ! i = bs ! i"
      if "i < length (take (length bs) (word_bits (shl32 wide (word_of_bits bs) (32 - length bs))))" for i
      using that False assms(2)
      by (auto simp: word_bits_nth shl32_def bit_push_bit_iff bit_append_bits)
  qed
qed

section \<open>The contract of a refill, and the reader on top of it\<close>

text \<open>
  What \<open>getBitsGraceful\<close> relies on of \<open>fillReservoir\<close>: a refill of an empty reservoir moves
  the next bits of the payload into it, left aligned, and consumes data; it fails only when
  there is no payload left, and then only records the over-read.
\<close>

locale bit_source =
  fixes fill :: "wide_shift \<Rightarrow> bit_reader \<Rightarrow> bool \<times> bit_reader"
    and payload :: "bit_reader \<Rightarrow> u8 list"
    and wf :: "bit_reader \<Rightarrow> bool"
  assumes wf_bits: "wf s \<Longrightarrow> mNumBitsLeft s \<le> 32"
    and wf_take: "wf s \<Longrightarrow> l \<le> mNumBitsLeft s \<Longrightarrow> wf (s\<lparr>mReservoir := r, mNumBitsLeft := l\<rparr>)"
    and payload_take: "payload (s\<lparr>mReservoir := r, mNumBitsLeft := l\<rparr>) = payload s"
    and fill_true: "wf s \<Longrightarrow> mNumBitsLeft s = 0 \<Longrightarrow> wide_keeps_zero wide \<Longrightarrow> fill wide s = (True, t) \<Longrightarrow>
      wf t \<and> mSize t < mSize s \<and> mOverRead t = mOverRead s \<and> (mNumBitsLeft t = 0 \<longrightarrow> mReservoir t = 0) \<and>
      take (mNumBitsLeft t) (word_bits (mReservoir t)) @ bits_of_bytes (payload t) = bits_of_bytes (payload s)"
    and fill_false: "wf s \<Longrightarrow> fill wide s = (False, t) \<Longrightarrow>
      payload s = [] \<and> payload t = [] \<and> wf t \<and> mOverRead t \<and> mNumBitsLeft t = mNumBitsLeft s"

definition bit_stream :: "(bit_reader \<Rightarrow> u8 list) \<Rightarrow> bit_reader \<Rightarrow> bool list" where
  "bit_stream payload s = take (mNumBitsLeft s) (word_bits (mReservoir s)) @ bits_of_bytes (payload s)"

context bit_source
begin

lemma stream_take:
  assumes "wf s" and "m \<le> mNumBitsLeft s"
  shows "bit_stream payload (s\<lparr>mReservoir := shl32 wide (mReservoir s) m, mNumBitsLeft := mNumBitsLeft s - m\<rparr>) =
    drop m (bit_stream payload s)"
  using assms wf_bits [OF assms(1)]
  by (cases "m < 32") (auto simp: bit_stream_def payload_take shl32_def word_bits_push)

lemma loop_spec:
  assumes "wf s" and "wide_keeps_zero wide" and "length sofar + n \<le> 32" and "n + mSize s < fuel"
  shows "\<exists>t. getBits_loop fill wide fuel n (word_of_bits sofar) s =
      Some (if n \<le> length (bit_stream payload s) then Some (word_of_bits (sofar @ take n (bit_stream payload s))) else None, t) \<and>
    wf t \<and> bit_stream payload t = drop n (bit_stream payload s) \<and>
    (mOverRead t \<longleftrightarrow> mOverRead s \<or> length (bit_stream payload s) < n)"
  using assms
proof (induction fuel arbitrary: n sofar s)
  case 0
  then show ?case by simp
next
  case (Suc fuel)
  show ?case
  proof (cases "n = 0")
    case True
    with Suc.prems show ?thesis by (auto simp: intro!: exI [of _ s])
  next
    case False
    obtain filled s1 where f: "(if mNumBitsLeft s = 0 then fill wide s else (True, s)) = (filled, s1)" by fastforce
    show ?thesis
    proof (cases filled)
      case False
      then have "mNumBitsLeft s = 0" "fill wide s = (False, s1)" using f by (auto split: if_splits)
      with fill_false [OF Suc.prems(1) this(2)] \<open>n \<noteq> 0\<close> f False show ?thesis
        by (auto simp: bit_stream_def bits_of_bytes_def)
    next
      case True
      have s1: "wf s1" "bit_stream payload s1 = bit_stream payload s" "mOverRead s1 = mOverRead s"
        "mNumBitsLeft s1 = 0 \<longrightarrow> mReservoir s1 = 0 \<and> mSize s1 < mSize s" "mSize s1 \<le> mSize s"
        using f True Suc.prems(1) fill_true [OF Suc.prems(1) _ Suc.prems(2), of s1]
        by (auto simp: bit_stream_def split: if_splits)
      define m where "m = (if n > mNumBitsLeft s1 then mNumBitsLeft s1 else n)"
      define t where "t = s1\<lparr>mReservoir := shl32 wide (mReservoir s1) m, mNumBitsLeft := mNumBitsLeft s1 - m\<rparr>"
      have m: "m \<le> n" "m \<le> mNumBitsLeft s1" "m \<le> 32" "m = 0 \<longrightarrow> mNumBitsLeft s1 = 0"
        using wf_bits [OF s1(1)] \<open>n \<noteq> 0\<close> by (auto simp: m_def)
      have full: "m = 32 \<Longrightarrow> sofar = []" using m(1) Suc.prems(3) by (cases sofar) auto
      have len: "m \<le> length (bit_stream payload s)"
        unfolding s1(2) [symmetric] using m(2) wf_bits [OF s1(1)] by (simp add: bit_stream_def)
      have bits: "take m (word_bits (mReservoir s1)) = take m (bit_stream payload s)"
        unfolding s1(2) [symmetric] using m(2) wf_bits [OF s1(1)] by (simp add: bit_stream_def min_absorb1)
      have "shl32 wide (word_of_bits sofar) m OR shr32 wide (mReservoir s1) (32 - m) =
          append_bits (word_of_bits sofar) (take m (word_bits (mReservoir s1)))"
        using m s1(4) Suc.prems(2,3) by (intro append_bits_take_word) (auto simp: full)
      then have loop: "getBits_loop fill wide (Suc fuel) n (word_of_bits sofar) s =
          getBits_loop fill wide fuel (n - m) (word_of_bits (sofar @ take m (bit_stream payload s))) t"
        using f True \<open>n \<noteq> 0\<close> bits by (simp add: m_def t_def Let_def append_bits_append)
      have t: "wf t" "bit_stream payload t = drop m (bit_stream payload s)" "mOverRead t = mOverRead s" "mSize t = mSize s1"
        using s1 m wf_take [OF s1(1)] stream_take [OF s1(1) m(2)] by (auto simp: t_def)
      have "n - m + mSize t < fuel" using t(4) s1(4,5) m Suc.prems(4) by (cases "m = 0") auto
      moreover have "length (sofar @ take m (bit_stream payload s)) + (n - m) \<le> 32" using Suc.prems(3) m(1) by simp
      ultimately obtain u where
        u: "getBits_loop fill wide fuel (n - m) (word_of_bits (sofar @ take m (bit_stream payload s))) t =
          Some (if n - m \<le> length (bit_stream payload t)
                then Some (word_of_bits ((sofar @ take m (bit_stream payload s)) @ take (n - m) (bit_stream payload t)))
                else None, u)"
        "wf u" "bit_stream payload u = drop (n - m) (bit_stream payload t)"
        "mOverRead u \<longleftrightarrow> mOverRead t \<or> length (bit_stream payload t) < n - m"
        using Suc.IH [OF t(1) Suc.prems(2)] by blast
      have "take m (bit_stream payload s) @ take (n - m) (drop m (bit_stream payload s)) = take n (bit_stream payload s)"
        using m(1) by (metis le_add_diff_inverse take_add)
      with u t len m(1) loop show ?thesis by (auto simp: append_assoc)
    qed
  qed
qed

lemma graceful_spec:
  assumes "wf s" and "wide_keeps_zero wide" and "n \<le> 32"
  shows "\<exists>t. getBitsGraceful fill wide n s =
      Some (if n \<le> length (bit_stream payload s) then Some (word_of_bits (take n (bit_stream payload s))) else None, t) \<and>
    wf t \<and> bit_stream payload t = drop n (bit_stream payload s) \<and>
    (mOverRead t \<longleftrightarrow> mOverRead s \<or> length (bit_stream payload s) < n)"
proof -
  have "getBitsGraceful fill wide n s = getBits_loop fill wide (n + mSize s + 1) n (word_of_bits []) s"
    using assms(3) by (simp add: getBitsGraceful_def del: getBits_loop.simps)
  with loop_spec [OF assms(1,2), of "[]" n "n + mSize s + 1"] assms(3) show ?thesis
    by (simp only: append_Nil) simp
qed

lemma skip_spec:
  assumes "wf s" and "wide_keeps_zero wide"
  shows "\<exists>t. skipBits fill wide n s = Some (n \<le> length (bit_stream payload s), t) \<and> wf t \<and>
    bit_stream payload t = drop n (bit_stream payload s)"
  using assms(1)
proof (induction n arbitrary: s rule: less_induct)
  case (less n)
  show ?case
  proof (cases "n > 32")
    case False
    with graceful_spec [OF less.prems assms(2), of n] less.prems show ?thesis
      by (subst skipBits.simps) (auto split: if_splits)
  next
    case True
    from graceful_spec [OF less.prems assms(2), of 32] obtain t where
      t: "getBitsGraceful fill wide 32 s =
        Some (if 32 \<le> length (bit_stream payload s) then Some (word_of_bits (take 32 (bit_stream payload s))) else None, t)"
        "wf t" "bit_stream payload t = drop 32 (bit_stream payload s)" by auto
    show ?thesis
    proof (cases "32 \<le> length (bit_stream payload s)")
      case True
      from less.IH [of "n - 32" t] t \<open>n > 32\<close> obtain u where
        "skipBits fill wide (n - 32) t = Some (n - 32 \<le> length (bit_stream payload t), u)" "wf u"
        "bit_stream payload u = drop (n - 32) (bit_stream payload t)" by auto
      with True t \<open>n > 32\<close> show ?thesis by (subst skipBits.simps) auto
    next
      case False
      with t \<open>n > 32\<close> show ?thesis by (subst skipBits.simps) auto
    qed
  qed
qed

end

section \<open>The two readers keep the contract\<close>

definition reader_wf :: "bit_reader \<Rightarrow> bool" where
  "reader_wf s \<longleftrightarrow> mNumBitsLeft s \<le> 32 \<and> mData s + mSize s \<le> length (buf s)"

lemma raw_bytes_Suc:
  assumes "reader_wf s" and "mSize s = Suc sz"
  shows "raw_bytes s = buf s ! mData s # raw_bytes (s\<lparr>mData := mData s + 1, mSize := sz\<rparr>)"
  using assms by (simp add: reader_wf_def raw_bytes_def Cons_nth_drop_Suc [symmetric])

lemma raw_bytes_frame [simp]:
  "raw_bytes (s\<lparr>mReservoir := r\<rparr>) = raw_bytes s" "raw_bytes (s\<lparr>mNumBitsLeft := l\<rparr>) = raw_bytes s"
  "raw_bytes (s\<lparr>mNumZeros := z\<rparr>) = raw_bytes s" "raw_bytes (s\<lparr>mOverRead := x\<rparr>) = raw_bytes s"
  by (simp_all add: raw_bytes_def)

lemma bits_of_bytes_simps [simp]:
  "bits_of_bytes [] = []" "bits_of_bytes (b # bs) = byte_bits b @ bits_of_bytes bs"
  "bits_of_bytes (xs @ ys) = bits_of_bytes xs @ bits_of_bytes ys"
  by (simp_all add: bits_of_bytes_def)

lemma length_bits_of_bytes [simp]: "length (bits_of_bytes bs) = 8 * length bs"
  by (induction bs) simp_all

lemma fill_loop_spec:
  assumes "reader_wf s" and "mNumBitsLeft s = 0"
  shows "\<exists>bs t. fill_loop wide i todo s = (i + length bs, t) \<and> length bs \<le> todo \<and>
    raw_bytes s = bs @ raw_bytes t \<and> mReservoir t = append_bits (mReservoir s) (bits_of_bytes bs) \<and>
    reader_wf t \<and> mNumBitsLeft t = 0 \<and> mOverRead t = mOverRead s \<and> mSize t + length bs = mSize s \<and>
    (0 < mSize s \<longrightarrow> 0 < todo \<longrightarrow> bs \<noteq> [])"
  using assms
proof (induction wide i todo s rule: fill_loop.induct)
  case (1 wide i s)
  then show ?case by (intro exI [of _ "[]"]) simp
next
  case (2 wide i todo s)
  show ?case
  proof (cases "mSize s")
    case 0
    with 2(2,3) show ?thesis by (intro exI [of _ "[]"]) simp
  next
    case (Suc sz)
    let ?t = "s\<lparr>mReservoir := shl32 wide (mReservoir s) 8 OR ucast (buf s ! mData s), mData := mData s + 1, mSize := mSize s - 1\<rparr>"
    have "reader_wf ?t" "mNumBitsLeft ?t = 0" using 2(2,3) Suc by (auto simp: reader_wf_def)
    with 2(1) Suc obtain bs t where IH: "fill_loop wide (Suc i) todo ?t = (Suc i + length bs, t)" "length bs \<le> todo"
      "raw_bytes ?t = bs @ raw_bytes t" "mReservoir t = append_bits (mReservoir ?t) (bits_of_bytes bs)"
      "reader_wf t" "mNumBitsLeft t = 0" "mOverRead t = mOverRead ?t" "mSize t + length bs = mSize ?t"
      by auto
    have "raw_bytes s = buf s ! mData s # raw_bytes ?t"
      using raw_bytes_Suc [OF 2(2) Suc] Suc by (simp add: raw_bytes_def)
    with IH Suc show ?thesis
      by (intro exI [of _ "buf s ! mData s # bs"] exI [of _ t]) (simp add: append_byte append_bits_append)
  qed
qed

text \<open>What both refills do with the bytes that their loop has gathered.\<close>

lemma refill_stream:
  assumes "wide_keeps_zero wide" and "length bs \<le> 4" and "mReservoir t = word_of_bits (bits_of_bytes bs)"
  shows "take (8 * length bs) (word_bits (shl32 wide (mReservoir t) (32 - 8 * length bs))) = bits_of_bytes bs"
  using left_aligned [OF assms(1), of "bits_of_bytes bs"] assms(2,3) by simp

interpretation abr: bit_source ABitReader_fillReservoir raw_bytes reader_wf
proof unfold_locales
  fix s t :: bit_reader and wide
  assume wf: "reader_wf s" "mNumBitsLeft s = 0" and zero: "wide_keeps_zero wide"
    and fill: "ABitReader_fillReservoir wide s = (True, t)"
  have "reader_wf (s\<lparr>mReservoir := 0\<rparr>)" "mNumBitsLeft (s\<lparr>mReservoir := 0\<rparr>) = 0" using wf by (simp_all add: reader_wf_def)
  from fill_loop_spec [OF this, of wide 0 4] fill obtain bs u where
    u: "fill_loop wide 0 4 (s\<lparr>mReservoir := 0\<rparr>) = (length bs, u)" "length bs \<le> 4" "raw_bytes s = bs @ raw_bytes u"
      "mReservoir u = word_of_bits (bits_of_bytes bs)" "reader_wf u" "mOverRead u = mOverRead s"
      "mSize u + length bs = mSize s" "bs \<noteq> []"
    by (auto simp: ABitReader_fillReservoir_def split: if_splits)
  with fill have t: "t = u\<lparr>mNumBitsLeft := 8 * length bs, mReservoir := shl32 wide (mReservoir u) (32 - 8 * length bs)\<rparr>"
    by (auto simp: ABitReader_fillReservoir_def Let_def split: if_splits)
  with u refill_stream [OF zero u(2,4)]
  show "reader_wf t \<and> mSize t < mSize s \<and> mOverRead t = mOverRead s \<and> (mNumBitsLeft t = 0 \<longrightarrow> mReservoir t = 0) \<and>
      take (mNumBitsLeft t) (word_bits (mReservoir t)) @ bits_of_bytes (raw_bytes t) = bits_of_bytes (raw_bytes s)"
    by (cases bs) (auto simp: reader_wf_def)
qed (auto simp: reader_wf_def raw_bytes_def ABitReader_fillReservoir_def Let_def split: if_splits prod.splits)

text \<open>The bytes of a NAL unit without the emulation prevention bytes, after \<open>zeros\<close> zero bytes.\<close>

fun unescape :: "nat \<Rightarrow> u8 list \<Rightarrow> u8 list" where
  "unescape zeros [] = []"
| "unescape zeros (b # bs) =
     (if zeros \<ge> 2 \<and> b = 3 then unescape 0 bs else b # unescape (if b = 0 then zeros + 1 else 0) bs)"

definition nal_payload :: "bit_reader \<Rightarrow> u8 list" where
  "nal_payload s = unescape (mNumZeros s) (raw_bytes s)"

lemma nal_fill_loop_spec:
  assumes "reader_wf s" and "mSize s = sz" and "mNumBitsLeft s = 0" and "i \<le> 4"
  shows "\<exists>bs t. nal_fill_loop wide i sz s = (i + length bs, t) \<and> i + length bs \<le> 4 \<and>
    nal_payload s = bs @ nal_payload t \<and> mReservoir t = append_bits (mReservoir s) (bits_of_bytes bs) \<and>
    reader_wf t \<and> mNumBitsLeft t = 0 \<and> mOverRead t = mOverRead s \<and> mSize t \<le> sz \<and>
    (0 < sz \<longrightarrow> i < 4 \<longrightarrow> mSize t < sz)"
  using assms
proof (induction sz arbitrary: i s)
  case 0
  then show ?case by (intro exI [of _ "[]"]) simp
next
  case (Suc sz)
  show ?case
  proof (cases "i < 4")
    case False
    with Suc.prems show ?thesis by (intro exI [of _ "[]"]) simp
  next
    case True
    let ?b = "buf s ! mData s"
    define skip where "skip \<longleftrightarrow> mNumZeros s \<ge> 2 \<and> ?b = 3"
    define s1 where "s1 = s\<lparr>mNumZeros := if ?b = 0 then mNumZeros s + 1 else 0\<rparr>"
    define s2 where "s2 = (if skip then s1 else s1\<lparr>mReservoir := append_bits (mReservoir s1) (byte_bits ?b)\<rparr>)"
    define u where "u = s2\<lparr>mData := mData s + 1, mSize := sz\<rparr>"
    have loop: "nal_fill_loop wide i (Suc sz) s = nal_fill_loop wide (if skip then i else Suc i) sz u"
      using True by (simp add: Let_def u_def s2_def s1_def append_byte skip_def)
    have u: "reader_wf u" "mSize u = sz" "mNumBitsLeft u = 0" "mOverRead u = mOverRead s"
      "mReservoir u = (if skip then mReservoir s else append_bits (mReservoir s) (byte_bits ?b))"
      using Suc.prems by (auto simp: u_def s2_def s1_def reader_wf_def)
    have "raw_bytes u = raw_bytes (s\<lparr>mData := mData s + 1, mSize := sz\<rparr>)" "mNumZeros u = (if ?b = 0 then mNumZeros s + 1 else 0)"
      by (simp_all add: u_def s2_def s1_def raw_bytes_def)
    then have pay: "nal_payload s = (if skip then [] else [?b]) @ nal_payload u"
      using raw_bytes_Suc [OF Suc.prems(1,2)] by (auto simp: nal_payload_def skip_def)
    have "(if skip then i else Suc i) \<le> 4" using True by simp
    from Suc.IH [OF u(1-3) this] obtain bs t where
      IH: "nal_fill_loop wide (if skip then i else Suc i) sz u = ((if skip then i else Suc i) + length bs, t)"
        "(if skip then i else Suc i) + length bs \<le> 4" "nal_payload u = bs @ nal_payload t"
        "mReservoir t = append_bits (mReservoir u) (bits_of_bytes bs)" "reader_wf t" "mNumBitsLeft t = 0"
        "mOverRead t = mOverRead u" "mSize t \<le> sz" by blast
    show ?thesis
      by (rule exI [of _ "(if skip then [] else [?b]) @ bs"], rule exI [of _ t])
        (use IH loop pay u in \<open>cases skip; simp add: append_bits_append del: nal_fill_loop.simps\<close>)
  qed
qed

interpretation nal: bit_source NALBitReader_fillReservoir nal_payload reader_wf
proof unfold_locales
  fix s t :: bit_reader and wide
  assume wf: "reader_wf s" "mNumBitsLeft s = 0" and zero: "wide_keeps_zero wide"
    and fill: "NALBitReader_fillReservoir wide s = (True, t)"
  have "reader_wf (s\<lparr>mReservoir := 0\<rparr>)" "mSize (s\<lparr>mReservoir := 0\<rparr>) = mSize s" "mNumBitsLeft (s\<lparr>mReservoir := 0\<rparr>) = 0"
    using wf by (simp_all add: reader_wf_def)
  moreover have "nal_payload (s\<lparr>mReservoir := 0\<rparr>) = nal_payload s" "0 < mSize s"
    using fill by (auto simp: nal_payload_def NALBitReader_fillReservoir_def split: if_splits)
  ultimately obtain bs u where
    u: "nal_fill_loop wide 0 (mSize s) (s\<lparr>mReservoir := 0\<rparr>) = (length bs, u)" "length bs \<le> 4"
      "nal_payload s = bs @ nal_payload u" "mReservoir u = word_of_bits (bits_of_bytes bs)" "reader_wf u"
      "mOverRead u = mOverRead s" "mSize u < mSize s"
    using nal_fill_loop_spec [of "s\<lparr>mReservoir := 0\<rparr>" "mSize s" 0 wide] by auto
  with fill have t: "t = u\<lparr>mNumBitsLeft := 8 * length bs, mReservoir := shl32 wide (mReservoir u) (32 - 8 * length bs)\<rparr>"
    by (auto simp: NALBitReader_fillReservoir_def Let_def split: if_splits)
  have "mReservoir t = 0" if "bs = []" using that u(4) t zero by (simp add: shl32_def wide_keeps_zero_def)
  with t u refill_stream [OF zero u(2,4)]
  show "reader_wf t \<and> mSize t < mSize s \<and> mOverRead t = mOverRead s \<and> (mNumBitsLeft t = 0 \<longrightarrow> mReservoir t = 0) \<and>
      take (mNumBitsLeft t) (word_bits (mReservoir t)) @ bits_of_bytes (nal_payload t) = bits_of_bytes (nal_payload s)"
    by (auto simp: reader_wf_def nal_payload_def)
qed (auto simp: reader_wf_def raw_bytes_def nal_payload_def NALBitReader_fillReservoir_def Let_def
    split: if_splits prod.splits)

lemma new_bit_reader_wf: "sz \<le> length data \<Longrightarrow> reader_wf (new_bit_reader data sz)"
  by (simp add: reader_wf_def new_bit_reader_def)

lemma new_bit_reader_stream:
  "bit_stream raw_bytes (new_bit_reader data sz) = bits_of_bytes (take sz data)"
  "bit_stream nal_payload (new_bit_reader data sz) = bits_of_bytes (unescape 0 (take sz data))"
  by (simp_all add: bit_stream_def raw_bytes_def nal_payload_def new_bit_reader_def)

section \<open>Properties\<close>

text \<open>
  \<open>getBitsGraceful\<close> of the plain reader. For at most 32 bits it terminates; if the bits
  are there it returns their value, most significant bit first, and advances by exactly that
  many bits across refills; otherwise it reports failure and the over-read.
\<close>

theorem abr_getBits_exact:
  assumes "reader_wf s" and "wide_keeps_zero wide" and "n \<le> 32"
  shows "\<exists>t. getBitsGraceful ABitReader_fillReservoir wide n s =
      Some (if n \<le> length (bit_stream raw_bytes s) then Some (word_of_bits (take n (bit_stream raw_bytes s))) else None, t) \<and>
    reader_wf t \<and> bit_stream raw_bytes t = drop n (bit_stream raw_bytes s) \<and>
    (mOverRead t \<longleftrightarrow> mOverRead s \<or> length (bit_stream raw_bytes s) < n)"
  using assms by (rule abr.graceful_spec)

theorem abr_getBits_exact_witness:
  "\<exists>t. getBitsGraceful ABitReader_fillReservoir (\<lambda>x k. x) 12 (new_bit_reader [0xAB, 0xCD] 2) = Some (Some 0xABC, t)"
proof -
  let ?s = "new_bit_reader [0xAB, 0xCD] 2"
  have "bit_stream raw_bytes ?s = bits_of_bytes [0xAB, 0xCD]" by (simp add: new_bit_reader_stream)
  moreover have "word_of_bits (take 12 (bits_of_bytes [0xAB, 0xCD])) = 0xABC"
    by (simp add: byte_bits_def append_bits_def upt_rec)
  ultimately show ?thesis
    using abr_getBits_exact [of ?s "\<lambda>x k. x" 12] new_bit_reader_wf [of 2 "[0xAB, 0xCD]"]
    by (auto simp: wide_keeps_zero_def)
qed

text \<open>
  \<open>getBitsGraceful\<close> of the NAL reader: the same over the bytes of the unit without its
  emulation prevention bytes, wherever refills split the data.
\<close>

theorem nal_getBits_exact:
  assumes "reader_wf s" and "wide_keeps_zero wide" and "n \<le> 32"
  shows "\<exists>t. getBitsGraceful NALBitReader_fillReservoir wide n s =
      Some (if n \<le> length (bit_stream nal_payload s) then Some (word_of_bits (take n (bit_stream nal_payload s))) else None, t) \<and>
    reader_wf t \<and> bit_stream nal_payload t = drop n (bit_stream nal_payload s) \<and>
    (mOverRead t \<longleftrightarrow> mOverRead s \<or> length (bit_stream nal_payload s) < n)"
  using assms by (rule nal.graceful_spec)

theorem nal_getBits_exact_witness:
  "\<exists>t. getBitsGraceful NALBitReader_fillReservoir (\<lambda>x k. 0) 24 (new_bit_reader [0, 0, 3, 1] 4) = Some (Some 1, t)"
proof -
  let ?s = "new_bit_reader [0, 0, 3, 1] 4"
  have "bit_stream nal_payload ?s = bits_of_bytes [0, 0, 1]" by (simp add: new_bit_reader_stream)
  moreover have "word_of_bits (take 24 (bits_of_bytes [0, 0, 1])) = 1"
    by (simp add: byte_bits_def append_bits_def upt_rec)
  ultimately show ?thesis
    using nal_getBits_exact [of ?s "\<lambda>x k. 0" 24] new_bit_reader_wf [of 4 "[0, 0, 3, 1]"]
    by (auto simp: wide_keeps_zero_def)
qed

text \<open>
  \<open>skipBits\<close>, in steps of 32 bits, succeeds exactly when the bits are there and advances by
  exactly that many, on either reader.
\<close>

theorem skipBits_exact:
  assumes "reader_wf s" and "wide_keeps_zero wide"
  shows "(\<exists>t. skipBits ABitReader_fillReservoir wide n s = Some (n \<le> length (bit_stream raw_bytes s), t) \<and>
      bit_stream raw_bytes t = drop n (bit_stream raw_bytes s)) \<and>
    (\<exists>t. skipBits NALBitReader_fillReservoir wide n s = Some (n \<le> length (bit_stream nal_payload s), t) \<and>
      bit_stream nal_payload t = drop n (bit_stream nal_payload s))"
  using abr.skip_spec [OF assms, of n] nal.skip_spec [OF assms, of n] by blast

theorem skipBits_exact_witness:
  "\<exists>t. skipBits ABitReader_fillReservoir (\<lambda>x k. 0) 40 (new_bit_reader [1, 2, 3, 4, 5, 6] 6) = Some (True, t)"
  using skipBits_exact [of "new_bit_reader [1, 2, 3, 4, 5, 6] 6" "\<lambda>x k. 0" 40] new_bit_reader_wf [of 6 "[1, 2, 3, 4, 5, 6]"]
  by (auto simp: wide_keeps_zero_def new_bit_reader_stream)

lemma length_unescape: "length (unescape z bs) \<le> length bs"
  by (induction z bs rule: unescape.induct) auto

lemma bits_left_scan_iff: "bits_left_scan r z bs \<le> 0 \<longleftrightarrow> r \<le> 8 * int (length (unescape z bs))"
  by (induction r z bs rule: bits_left_scan.induct) auto

text \<open>
  \<open>atLeastNumBitsLeft\<close> is exact: its scan over the escaped bytes agrees with the number of
  bits that reading would deliver.
\<close>

theorem nal_atLeastNumBitsLeft_exact:
  assumes "reader_wf s"
  shows "atLeastNumBitsLeft n s \<longleftrightarrow> n \<le> length (bit_stream nal_payload s)"
proof -
  have "length (raw_bytes s) = mSize s" "mNumBitsLeft s \<le> 32" using assms by (auto simp: reader_wf_def raw_bytes_def)
  then show ?thesis
    using length_unescape [of "mNumZeros s" "raw_bytes s"]
    by (auto simp: atLeastNumBitsLeft_def numBitsLeft_def bits_left_scan_iff bit_stream_def nal_payload_def)
qed

theorem nal_atLeastNumBitsLeft_exact_witness:
  "atLeastNumBitsLeft 24 (new_bit_reader [0, 0, 3, 1] 4) \<and> \<not> atLeastNumBitsLeft 25 (new_bit_reader [0, 0, 3, 1] 4)"
  using nal_atLeastNumBitsLeft_exact [OF new_bit_reader_wf [of 4 "[0, 0, 3, 1]"]]
  by (simp add: new_bit_reader_stream)

lemma put_loop_fits: "mNumBitsLeft s + n \<le> 32 \<Longrightarrow> put_loop n s = s"
  by (subst put_loop.simps) simp

lemma putBits_stream:
  assumes "\<not> mOverRead s" and "0 < n" and "n < 32" and "mNumBitsLeft s + n \<le> 32"
    and "\<And>r l. payload (s\<lparr>mReservoir := r, mNumBitsLeft := l\<rparr>) = payload s"
  shows "\<exists>t. putBits wide x n s = Some t \<and>
    bit_stream payload t = drop (32 - n) (word_bits x) @ bit_stream payload s"
proof -
  let ?r = "drop_bit n (mReservoir s) OR push_bit (32 - n) x"
  have "take (mNumBitsLeft s + n) (word_bits ?r) = drop (32 - n) (word_bits x) @ take (mNumBitsLeft s) (word_bits (mReservoir s))"
    by (rule nth_equalityI)
      (use assms in \<open>auto simp: nth_append word_bits_nth bit_or_iff bit_drop_bit_eq bit_push_bit_iff add.commute dest: bit_imp_le_length\<close>)
  with assms show ?thesis
    by (simp add: putBits_def put_loop_fits shl32_def shr32_def bit_stream_def)
qed

lemma word_bits_of_bits:
  assumes "length bs \<le> 32"
  shows "drop (32 - length bs) (word_bits (word_of_bits bs)) = bs"
  by (rule nth_equalityI) (use assms in \<open>auto simp: word_bits_nth bit_append_bits\<close>)

lemma getBits_putBits:
  assumes "getBitsGraceful fill wide n s = Some (Some x, t)" and "\<not> mOverRead t"
    and "x = word_of_bits (take n (bit_stream payload s))" and "n \<le> length (bit_stream payload s)"
    and "bit_stream payload t = drop n (bit_stream payload s)"
    and "0 < n" and "n < 32" and "mNumBitsLeft t + n \<le> 32"
    and "\<And>r l. payload (t\<lparr>mReservoir := r, mNumBitsLeft := l\<rparr>) = payload t"
  shows "\<exists>u. putBits wide x n t = Some u \<and> bit_stream payload u = bit_stream payload s"
proof -
  obtain u where "putBits wide x n t = Some u" "bit_stream payload u = drop (32 - n) (word_bits x) @ bit_stream payload t"
    using putBits_stream [of t n payload wide x] assms by blast
  moreover have "drop (32 - n) (word_bits x) = take n (bit_stream payload s)"
    using word_bits_of_bits [of "take n (bit_stream payload s)"] assms(3,4,7) by (simp add: min_absorb2)
  ultimately show ?thesis using assms(5) by simp
qed

text \<open>
  \<open>putBits\<close> after \<open>getBits\<close>. As long as the bits fit into the reservoir beside what is left
  there, putting back what was just read restores the stream, on either reader.
\<close>

theorem putBits_undoes_getBits:
  assumes "reader_wf s" and "wide_keeps_zero wide" and "\<not> mOverRead s" and "0 < n" and "n < 32"
  shows "(getBitsGraceful ABitReader_fillReservoir wide n s = Some (Some x, t) \<and> mNumBitsLeft t + n \<le> 32 \<longrightarrow>
      (\<exists>u. putBits wide x n t = Some u \<and> bit_stream raw_bytes u = bit_stream raw_bytes s)) \<and>
    (getBitsGraceful NALBitReader_fillReservoir wide n s = Some (Some x, t) \<and> mNumBitsLeft t + n \<le> 32 \<longrightarrow>
      (\<exists>u. putBits wide x n t = Some u \<and> bit_stream nal_payload u = bit_stream nal_payload s))"
proof (intro conjI impI; elim conjE)
  assume g: "getBitsGraceful ABitReader_fillReservoir wide n s = Some (Some x, t)" "mNumBitsLeft t + n \<le> 32"
  with abr.graceful_spec [OF assms(1,2), of n] assms(3,4,5)
  show "\<exists>u. putBits wide x n t = Some u \<and> bit_stream raw_bytes u = bit_stream raw_bytes s"
    by (intro getBits_putBits [OF g(1)]) (auto split: if_splits)
next
  assume g: "getBitsGraceful NALBitReader_fillReservoir wide n s = Some (Some x, t)" "mNumBitsLeft t + n \<le> 32"
  with nal.graceful_spec [OF assms(1,2), of n] assms(3,4,5)
  show "\<exists>u. putBits wide x n t = Some u \<and> bit_stream nal_payload u = bit_stream nal_payload s"
    by (intro getBits_putBits [OF g(1)]) (auto simp: nal_payload_def split: if_splits)
qed

theorem putBits_undoes_getBits_witness:
  "\<exists>x t u. getBitsGraceful ABitReader_fillReservoir (\<lambda>x k. 0) 5 (new_bit_reader [0xAB, 0xCD] 2) = Some (Some x, t) \<and>
     putBits (\<lambda>x k. 0) x 5 t = Some u \<and> bit_stream raw_bytes u = bits_of_bytes [0xAB, 0xCD]"
proof -
  let ?s = "new_bit_reader [0xAB, 0xCD] 2"
  have wf: "reader_wf ?s" "wide_keeps_zero (\<lambda>x k. 0)" "\<not> mOverRead ?s"
    by (simp_all add: new_bit_reader_wf wide_keeps_zero_def) (simp add: new_bit_reader_def)
  obtain x t where g: "getBitsGraceful ABitReader_fillReservoir (\<lambda>x k. 0) 5 ?s = Some (Some x, t)" "mNumBitsLeft t = 11"
    by (simp add: getBitsGraceful_def ABitReader_fillReservoir_def new_bit_reader_def numeral_eq_Suc Let_def)
  then show ?thesis
    using putBits_undoes_getBits [OF wf, of 5 x t] new_bit_reader_stream(1) [of "[0xAB, 0xCD]" 2] by auto
qed

end
