(* ===== verification/Avc_Headers.thy ===== *)
theory Avc_Headers
  imports Bit_Reader "HOL-Library.Monad_Syntax"
begin

text \<open>
  The header parsers of \<open>media/libstagefright/foundation/avc_utils.cpp\<close>: Exp-Golomb codes, the
  H.264 sequence parameter set, the MPEG-4 VOL header and the MPEG audio frame header. The
  parsers take the bit reader as its operations, because the code passes it as a base class
  pointer; they run on \<open>ABitReader\<close> and, for the proofs, on plain lists of bits. A \<open>CHECK\<close>
  that fails aborts the process: \<open>None\<close>.
\<close>

section \<open>Bit readers as the parsers see them\<close>

record 's bit_ops =
  op_get :: "nat \<Rightarrow> 's \<Rightarrow> (u32 \<times> 's) option"
  op_graceful :: "nat \<Rightarrow> 's \<Rightarrow> (u32 option \<times> 's) option"
  op_skip :: "nat \<Rightarrow> 's \<Rightarrow> 's option"
  op_left :: "'s \<Rightarrow> nat"

definition abr_ops :: "wide_shift \<Rightarrow> bit_reader bit_ops" where
  "abr_ops wide =
     \<lparr>op_get = getBits ABitReader_fillReservoir wide,
      op_graceful = getBitsGraceful ABitReader_fillReservoir wide,
      op_skip = (\<lambda>n s. map_option snd (skipBits ABitReader_fillReservoir wide n s)),
      op_left = numBitsLeft\<rparr>"

definition list_ops :: "bool list bit_ops" where
  "list_ops =
     \<lparr>op_get = (\<lambda>n bs. if n \<le> 32 \<and> n \<le> length bs then Some (word_of_bits (take n bs), drop n bs) else None),
      op_graceful = (\<lambda>n bs. if n > 32 then Some (None, bs)
                            else Some (if n \<le> length bs then Some (word_of_bits (take n bs)) else None, drop n bs)),
      op_skip = (\<lambda>n bs. Some (drop n bs)),
      op_left = length\<rparr>"

section \<open>Exp-Golomb codes\<close>

text \<open>
  The loops that count zero bits. Each round takes a bit, so one more round than there are bits
  is enough; \<open>getBitsWithFallback\<close> answers 1 at the end of the data.
\<close>

fun ue_zeroes :: "'s bit_ops \<Rightarrow> nat \<Rightarrow> nat \<Rightarrow> 's \<Rightarrow> (nat \<times> 's) option" where
  "ue_zeroes ops 0 numZeroes s = None"
| "ue_zeroes ops (Suc fuel) numZeroes s =
     do { (b, s) \<leftarrow> op_get ops 1 s;
          if b = 0 then ue_zeroes ops fuel (numZeroes + 1) s else Some (numZeroes, s) }"

definition parseUE :: "wide_shift \<Rightarrow> 's bit_ops \<Rightarrow> 's \<Rightarrow> (u32 \<times> 's) option" where
  "parseUE wide ops s =
     do { (numZeroes, s) \<leftarrow> ue_zeroes ops (op_left ops s + 1) 0 s;
          (x, s) \<leftarrow> op_get ops numZeroes s;
          Some (x + shl32 wide 1 numZeroes - 1, s) }"

definition op_fallback :: "'s bit_ops \<Rightarrow> nat \<Rightarrow> u32 \<Rightarrow> 's \<Rightarrow> (u32 \<times> 's) option" where
  "op_fallback ops n fallback s =
     do { (r, s) \<leftarrow> op_graceful ops n s; Some (case r of None \<Rightarrow> fallback | Some x \<Rightarrow> x, s) }"

fun ue_zeroes_fallback :: "'s bit_ops \<Rightarrow> nat \<Rightarrow> nat \<Rightarrow> 's \<Rightarrow> (nat \<times> 's) option" where
  "ue_zeroes_fallback ops 0 numZeroes s = None"
| "ue_zeroes_fallback ops (Suc fuel) numZeroes s =
     do { (b, s) \<leftarrow> op_fallback ops 1 1 s;
          if b = 0 then ue_zeroes_fallback ops fuel (numZeroes + 1) s else Some (numZeroes, s) }"

definition parseUEWithFallback :: "'s bit_ops \<Rightarrow> u32 \<Rightarrow> 's \<Rightarrow> (u32 \<times> 's) option" where
  "parseUEWithFallback ops fallback s =
     do { (numZeroes, s) \<leftarrow> ue_zeroes_fallback ops (op_left ops s + 1) 0 s;
          if numZeroes < 32
          then do { (r, s) \<leftarrow> op_graceful ops numZeroes s;
                    Some (case r of Some x \<Rightarrow> x + push_bit numZeroes 1 - 1 | None \<Rightarrow> fallback, s) }
          else do { s \<leftarrow> op_skip ops numZeroes s; Some (fallback, s) } }"

text \<open>The value of a signed code; the conditional of the code is computed in \<open>unsigned\<close>.\<close>

definition se_value :: "u32 \<Rightarrow> int" where
  "se_value codeNum =
     (if odd codeNum then sint (drop_bit 1 (codeNum + 1)) else sint (- drop_bit 1 codeNum))"

definition parseSE :: "wide_shift \<Rightarrow> 's bit_ops \<Rightarrow> 's \<Rightarrow> (int \<times> 's) option" where
  "parseSE wide ops s = do { (codeNum, s) \<leftarrow> parseUE wide ops s; Some (se_value codeNum, s) }"

definition parseSEWithFallback :: "'s bit_ops \<Rightarrow> int \<Rightarrow> 's \<Rightarrow> (int \<times> 's) option" where
  "parseSEWithFallback ops fallback s =
     do { (codeNum, s) \<leftarrow> parseUEWithFallback ops (- 1) s;
          Some (if codeNum = - 1 then fallback else se_value codeNum, s) }"

section \<open>Sequence parameter set\<close>

fun scaling_list_loop :: "wide_shift \<Rightarrow> 's bit_ops \<Rightarrow> nat \<Rightarrow> nat \<Rightarrow> nat \<Rightarrow> 's \<Rightarrow> 's option" where
  "scaling_list_loop wide ops 0 lastScale nextScale s = Some s"
| "scaling_list_loop wide ops (Suc todo) lastScale nextScale s =
     do { (nextScale, s) \<leftarrow>
            (if nextScale \<noteq> 0
             then do { (d, s) \<leftarrow> parseSE wide ops s;
                       let delta_scale = (if d < -128 then -128 else if d > 127 then 127 else d)
                       in Some (nat ((int lastScale + (delta_scale + 256)) mod 256), s) }
             else Some (nextScale, s));
          scaling_list_loop wide ops todo (if nextScale = 0 then lastScale else nextScale) nextScale s }"

definition skipScalingList :: "wide_shift \<Rightarrow> 's bit_ops \<Rightarrow> nat \<Rightarrow> 's \<Rightarrow> 's option" where
  "skipScalingList wide ops sizeOfScalingList s = scaling_list_loop wide ops sizeOfScalingList 8 8 s"

text \<open>The loop over the eight scaling lists, from \<open>i\<close> on.\<close>

fun scaling_matrix_loop :: "wide_shift \<Rightarrow> 's bit_ops \<Rightarrow> nat \<Rightarrow> nat \<Rightarrow> 's \<Rightarrow> 's option" where
  "scaling_matrix_loop wide ops i 0 s = Some s"
| "scaling_matrix_loop wide ops i (Suc todo) s =
     do { (present, s) \<leftarrow> op_get ops 1 s;
          s \<leftarrow> (if present \<noteq> 0 then skipScalingList wide ops (if i < 6 then 16 else 64) s else Some s);
          scaling_matrix_loop wide ops (i + 1) todo s }"

text \<open>The part that only the high profiles have; its value is \<open>chroma_format_idc\<close>.\<close>

definition high_profile_part :: "wide_shift \<Rightarrow> 's bit_ops \<Rightarrow> u32 \<Rightarrow> 's \<Rightarrow> (u32 \<times> 's) option" where
  "high_profile_part wide ops profile_idc s =
     (if profile_idc \<in> {100, 110, 122, 244, 44, 83, 86}
      then do { (chroma_format_idc, s) \<leftarrow> parseUE wide ops s;
                s \<leftarrow> (if chroma_format_idc = 3 then op_skip ops 1 s else Some s);
                (x, s) \<leftarrow> parseUE wide ops s;
                (x, s) \<leftarrow> parseUE wide ops s;
                s \<leftarrow> op_skip ops 1 s;
                (present, s) \<leftarrow> op_get ops 1 s;
                s \<leftarrow> (if present \<noteq> 0 then scaling_matrix_loop wide ops 0 8 s else Some s);
                Some (chroma_format_idc, s) }
      else Some (1, s))"

fun skip_ue_loop :: "wide_shift \<Rightarrow> 's bit_ops \<Rightarrow> nat \<Rightarrow> 's \<Rightarrow> 's option" where
  "skip_ue_loop wide ops 0 s = Some s"
| "skip_ue_loop wide ops (Suc todo) s = do { (x, s) \<leftarrow> parseUE wide ops s; skip_ue_loop wide ops todo s }"

definition pic_order_part :: "wide_shift \<Rightarrow> 's bit_ops \<Rightarrow> 's \<Rightarrow> 's option" where
  "pic_order_part wide ops s =
     do { (pic_order_cnt_type, s) \<leftarrow> parseUE wide ops s;
          if pic_order_cnt_type = 0 then do { (x, s) \<leftarrow> parseUE wide ops s; Some s }
          else if pic_order_cnt_type = 1
          then do { (x, s) \<leftarrow> op_get ops 1 s;
                    (x, s) \<leftarrow> parseUE wide ops s;
                    (x, s) \<leftarrow> parseUE wide ops s;
                    (cycle, s) \<leftarrow> parseUE wide ops s;
                    skip_ue_loop wide ops (unat cycle) s }
          else Some s }"

text \<open>
  Cropping one dimension: the three builtins with overflow checks, computed exactly on integers
  and tested against the range of their result.
\<close>

definition crop_dimension :: "int \<Rightarrow> u32 \<Rightarrow> u32 \<Rightarrow> u32 \<Rightarrow> int" where
  "crop_dimension dim a b cropUnit =
     (let sum = uint a + uint b; prod = sum * uint cropUnit; diff = dim - prod
      in if sum \<ge> 2 ^ 32 \<or> prod \<ge> 2 ^ 32 \<or> diff < - (2 ^ 31) \<or> diff \<ge> 2 ^ 31 \<or> diff < 0 then 0 else diff)"

definition crop_part ::
  "wide_shift \<Rightarrow> 's bit_ops \<Rightarrow> u32 \<Rightarrow> u32 \<Rightarrow> int \<Rightarrow> int \<Rightarrow> 's \<Rightarrow> ((int \<times> int) \<times> 's) option" where
  "crop_part wide ops chroma_format_idc frame_mbs_only_flag width height s =
     do { (frame_cropping_flag, s) \<leftarrow> op_get ops 1 s;
          if frame_cropping_flag \<noteq> 0
          then do { (l, s) \<leftarrow> parseUE wide ops s;
                    (r, s) \<leftarrow> parseUE wide ops s;
                    (t, s) \<leftarrow> parseUE wide ops s;
                    (b, s) \<leftarrow> parseUE wide ops s;
                    let cropUnitX = (if chroma_format_idc = 0 then 1 else if chroma_format_idc = 3 then 1 else 2);
                        cropUnitY = (if chroma_format_idc = 0 then 2 - frame_mbs_only_flag
                                     else (if chroma_format_idc = 1 then 2 else 1) * (2 - frame_mbs_only_flag))
                    in Some ((crop_dimension width l r cropUnitX, crop_dimension height t b cropUnitY), s) }
          else Some ((width, height), s) }"

definition kFixedSARs :: "(u32 \<times> u32) list" where
  "kFixedSARs = [(0, 0), (1, 1), (12, 11), (10, 11), (16, 11), (40, 33), (24, 11), (20, 11), (32, 11),
     (80, 33), (18, 11), (15, 11), (64, 33), (160, 99), (4, 3), (3, 2), (2, 1)]"

definition sar_part :: "'s bit_ops \<Rightarrow> 's \<Rightarrow> ((int \<times> int) \<times> 's) option" where
  "sar_part ops s =
     do { (vui_parameters_present_flag, s) \<leftarrow> op_get ops 1 s;
          if vui_parameters_present_flag = 0 then Some ((0, 0), s)
          else do { (aspect_ratio_info_present_flag, s) \<leftarrow> op_get ops 1 s;
                    if aspect_ratio_info_present_flag = 0 then Some ((0, 0), s)
                    else do { (aspect_ratio_idc, s) \<leftarrow> op_get ops 8 s;
                              if aspect_ratio_idc = 255
                              then do { (w, s) \<leftarrow> op_get ops 16 s; (h, s) \<leftarrow> op_get ops 16 s; Some ((sint w, sint h), s) }
                              else if 0 < aspect_ratio_idc \<and> unat aspect_ratio_idc < length kFixedSARs
                              then (let (w, h) = kFixedSARs ! unat aspect_ratio_idc in Some ((sint w, sint h), s))
                              else Some ((0, 0), s) } } }"

text \<open>Width, height and sample aspect ratio, from the bits after the NAL header.\<close>

definition avc_dimensions :: "wide_shift \<Rightarrow> 's bit_ops \<Rightarrow> 's \<Rightarrow> ((int \<times> int) \<times> int \<times> int) option" where
  "avc_dimensions wide ops s =
     do { (profile_idc, s) \<leftarrow> op_get ops 8 s;
          s \<leftarrow> op_skip ops 16 s;
          (x, s) \<leftarrow> parseUE wide ops s;
          (chroma_format_idc, s) \<leftarrow> high_profile_part wide ops profile_idc s;
          (x, s) \<leftarrow> parseUE wide ops s;
          s \<leftarrow> pic_order_part wide ops s;
          (x, s) \<leftarrow> parseUE wide ops s;
          (x, s) \<leftarrow> op_get ops 1 s;
          (pic_width_in_mbs_minus1, s) \<leftarrow> parseUE wide ops s;
          (pic_height_in_map_units_minus1, s) \<leftarrow> parseUE wide ops s;
          (frame_mbs_only_flag, s) \<leftarrow> op_get ops 1 s;
          let width = sint (pic_width_in_mbs_minus1 * 16 + 16);
              height = sint ((2 - frame_mbs_only_flag) * (pic_height_in_map_units_minus1 * 16 + 16))
          in do { s \<leftarrow> (if frame_mbs_only_flag = 0 then map_option snd (op_get ops 1 s) else Some s);
                  (x, s) \<leftarrow> op_get ops 1 s;
                  (dims, s) \<leftarrow> crop_part wide ops chroma_format_idc frame_mbs_only_flag width height s;
                  (sar, s) \<leftarrow> sar_part ops s;
                  Some (dims, sar) } }"

text \<open>The reader starts after the first byte; an empty buffer would be read out of bounds.\<close>

definition FindAVCDimensions :: "wide_shift \<Rightarrow> u8 list \<Rightarrow> ((int \<times> int) \<times> int \<times> int) option" where
  "FindAVCDimensions wide seqParamSet =
     (case seqParamSet of
        [] \<Rightarrow> None
      | h # rest \<Rightarrow> avc_dimensions wide (abr_ops wide) (new_bit_reader rest (length rest)))"

section \<open>MPEG-4 VOL header\<close>

text \<open>\<open>CHECK(br.getBits(1))\<close> on a marker bit.\<close>

definition marker :: "'s bit_ops \<Rightarrow> 's \<Rightarrow> 's option" where
  "marker ops s = do { (b, s) \<leftarrow> op_get ops 1 s; if b \<noteq> 0 then Some s else None }"

definition vbv_part :: "'s bit_ops \<Rightarrow> 's \<Rightarrow> 's option" where
  "vbv_part ops s =
     do { s \<leftarrow> op_skip ops 15 s; s \<leftarrow> marker ops s;
          s \<leftarrow> op_skip ops 15 s; s \<leftarrow> marker ops s;
          s \<leftarrow> op_skip ops 15 s; s \<leftarrow> marker ops s;
          s \<leftarrow> op_skip ops 3 s; s \<leftarrow> op_skip ops 11 s; s \<leftarrow> marker ops s;
          s \<leftarrow> op_skip ops 15 s; marker ops s }"

definition vol_control_part :: "'s bit_ops \<Rightarrow> 's \<Rightarrow> 's option" where
  "vol_control_part ops s =
     do { (vol_control_parameters, s) \<leftarrow> op_get ops 1 s;
          if vol_control_parameters = 0 then Some s
          else do { s \<leftarrow> op_skip ops 2 s; s \<leftarrow> op_skip ops 1 s;
                    (vbv_parameters, s) \<leftarrow> op_get ops 1 s;
                    if vbv_parameters \<noteq> 0 then vbv_part ops s else Some s } }"

text \<open>The loop that counts the bits of a time increment.\<close>

fun increment_bits :: "nat \<Rightarrow> nat" where
  "increment_bits resolution = (if resolution = 0 then 0 else 1 + increment_bits (resolution div 2))"

declare increment_bits.simps [simp del]

definition vop_rate_part :: "'s bit_ops \<Rightarrow> u32 \<Rightarrow> 's \<Rightarrow> 's option" where
  "vop_rate_part ops vop_time_increment_resolution s =
     do { (fixed_vop_rate, s) \<leftarrow> op_get ops 1 s;
          if fixed_vop_rate = 0 then Some s
          else if vop_time_increment_resolution = 0 then None
          else op_skip ops (increment_bits (unat (vop_time_increment_resolution - 1))) s }"

definition vol_dimensions :: "'s bit_ops \<Rightarrow> 's \<Rightarrow> (int \<times> int) option" where
  "vol_dimensions ops s =
     do { s \<leftarrow> op_skip ops 1 s;
          (video_object_type_indication, s) \<leftarrow> op_get ops 8 s;
          s \<leftarrow> (if video_object_type_indication = 0x21 then None else Some s);
          (is_object_layer_identifier, s) \<leftarrow> op_get ops 1 s;
          s \<leftarrow> (if is_object_layer_identifier \<noteq> 0
               then do { (x, s) \<leftarrow> op_get ops 4 s; (x, s) \<leftarrow> op_get ops 3 s; Some s } else Some s);
          (aspect_ratio_info, s) \<leftarrow> op_get ops 4 s;
          s \<leftarrow> (if aspect_ratio_info = 0x0f then do { s \<leftarrow> op_skip ops 8 s; op_skip ops 8 s } else Some s);
          s \<leftarrow> vol_control_part ops s;
          (video_object_layer_shape, s) \<leftarrow> op_get ops 2 s;
          s \<leftarrow> (if video_object_layer_shape \<noteq> 0 then None else Some s);
          s \<leftarrow> marker ops s;
          (vop_time_increment_resolution, s) \<leftarrow> op_get ops 16 s;
          s \<leftarrow> marker ops s;
          s \<leftarrow> vop_rate_part ops vop_time_increment_resolution s;
          s \<leftarrow> marker ops s;
          (video_object_layer_width, s) \<leftarrow> op_get ops 13 s;
          s \<leftarrow> marker ops s;
          (video_object_layer_height, s) \<leftarrow> op_get ops 13 s;
          s \<leftarrow> marker ops s;
          (interlaced, s) \<leftarrow> op_get ops 1 s;
          Some (sint video_object_layer_width, sint video_object_layer_height) }"

definition ExtractDimensionsFromVOLHeader :: "wide_shift \<Rightarrow> u8 list \<Rightarrow> (int \<times> int) option" where
  "ExtractDimensionsFromVOLHeader wide data =
     (if length data < 4 then None
      else vol_dimensions (abr_ops wide) (new_bit_reader (drop 4 data) (length data - 4)))"

section \<open>MPEG audio frame header\<close>

record mpeg_audio_info =
  frame_size :: nat
  out_sampling_rate :: nat
  out_channels :: nat
  out_bitrate :: nat
  out_num_samples :: nat

definition kSamplingRateV1 :: "nat list" where
  "kSamplingRateV1 = [44100, 48000, 32000]"

definition kBitrateV1 :: "nat list" where
  "kBitrateV1 = [32, 64, 96, 128, 160, 192, 224, 256, 288, 320, 352, 384, 416, 448]"

definition kBitrateV2_L1 :: "nat list" where
  "kBitrateV2_L1 = [32, 48, 56, 64, 80, 96, 112, 128, 144, 160, 176, 192, 224, 256]"

definition kBitrateV1L2 :: "nat list" where
  "kBitrateV1L2 = [32, 48, 56, 64, 80, 96, 112, 128, 160, 192, 224, 256, 320, 384]"

definition kBitrateV1L3 :: "nat list" where
  "kBitrateV1L3 = [32, 40, 48, 56, 64, 80, 96, 112, 128, 160, 192, 224, 256, 320]"

definition kBitrateV2 :: "nat list" where
  "kBitrateV2 = [8, 16, 24, 32, 40, 48, 56, 64, 80, 96, 112, 128, 144, 160]"

text \<open>
  Frame size, bit rate and samples from the fields of an accepted header. The products stay
  far below the range of \<open>int\<close>, so natural numbers do.
\<close>

definition mpeg_frame :: "nat \<Rightarrow> nat \<Rightarrow> nat \<Rightarrow> nat \<Rightarrow> nat \<Rightarrow> nat \<times> nat \<times> nat" where
  "mpeg_frame version layer bitrate_index sampling_rate padding =
     (if layer = 3
      then (let bitrate = (if version = 3 then kBitrateV1 else kBitrateV2_L1) ! (bitrate_index - 1)
            in ((12000 * bitrate div sampling_rate + padding) * 4, bitrate, 384))
      else if version = 3
      then (let bitrate = (if layer = 2 then kBitrateV1L2 else kBitrateV1L3) ! (bitrate_index - 1)
            in (144000 * bitrate div sampling_rate + padding, bitrate, 1152))
      else (let bitrate = kBitrateV2 ! (bitrate_index - 1)
            in ((if layer = 1 then 72000 else 144000) * bitrate div sampling_rate + padding, bitrate,
                if layer = 1 then 576 else 1152)))"

definition header_field :: "u32 \<Rightarrow> nat \<Rightarrow> u32 \<Rightarrow> nat" where
  "header_field header sh msk = unat (drop_bit sh header AND msk)"

definition GetMPEGAudioFrameSize :: "u32 \<Rightarrow> bool \<times> mpeg_audio_info" where
  "GetMPEGAudioFrameSize header =
     (let refused = (False, \<lparr>frame_size = 0, out_sampling_rate = 0, out_channels = 0, out_bitrate = 0, out_num_samples = 1152\<rparr>);
          version = header_field header 19 3;
          layer = header_field header 17 3;
          bitrate_index = header_field header 12 0x0f;
          sampling_rate_index = header_field header 10 3
      in if header AND 0xffe00000 \<noteq> 0xffe00000 then refused
         else if version = 1 then refused
         else if layer = 0 then refused
         else if bitrate_index = 0 \<or> bitrate_index = 0x0f then refused
         else if sampling_rate_index = 3 then refused
         else
           (let rate = kSamplingRateV1 ! sampling_rate_index;
                sampling_rate = (if version = 2 then rate div 2 else if version = 0 then rate div 4 else rate);
                padding = header_field header 9 1;
                (sz, bitrate, samples) = mpeg_frame version layer bitrate_index sampling_rate padding
            in (True, \<lparr>frame_size = sz, out_sampling_rate = sampling_rate,
                       out_channels = (if header_field header 6 3 = 3 then 1 else 2),
                       out_bitrate = bitrate, out_num_samples = samples\<rparr>)))"

section \<open>From the reader to lists of bits\<close>

text \<open>
  The contract between a reader and the list of bits that it stands for: every operation gives
  the same result on both and keeps them related.
\<close>

abbreviation same_result :: "('s \<Rightarrow> 't \<Rightarrow> bool) \<Rightarrow> ('a \<times> 's) option \<Rightarrow> ('a \<times> 't) option \<Rightarrow> bool" where
  "same_result R \<equiv> rel_option (rel_prod (=) R)"

locale reader_refines_list =
  fixes ops :: "'s bit_ops" and R :: "'s \<Rightarrow> bool list \<Rightarrow> bool"
  assumes get: "R s bs \<Longrightarrow> same_result R (op_get ops n s) (op_get list_ops n bs)"
    and graceful: "R s bs \<Longrightarrow> same_result R (op_graceful ops n s) (op_graceful list_ops n bs)"
    and skip: "R s bs \<Longrightarrow> rel_option R (op_skip ops n s) (op_skip list_ops n bs)"
    and left: "R s bs \<Longrightarrow> op_left ops s = op_left list_ops bs"

text \<open>Rules that walk through two runs of the same parser side by side.\<close>

lemma same_if:
  assumes "c \<Longrightarrow> rel_option B a a'" and "\<not> c \<Longrightarrow> rel_option B b b'"
  shows "rel_option B (if c then a else b) (if c then a' else b')"
  using assms by simp

context reader_refines_list
begin

lemma same_bind:
  assumes "same_result R m m'" and "\<And>x s t. R s t \<Longrightarrow> rel_option B (f x s) (g x t)"
  shows "rel_option B (m \<bind> (\<lambda>(x, s). f x s)) (m' \<bind> (\<lambda>(x, t). g x t))"
  using assms by (cases m; cases m') auto

lemma state_bind:
  assumes "rel_option R m m'" and "\<And>s t. R s t \<Longrightarrow> rel_option B (f s) (g t)"
  shows "rel_option B (m \<bind> f) (m' \<bind> g)"
  using assms by (cases m; cases m') auto

lemma same_map_snd: "same_result R m m' \<Longrightarrow> rel_option R (map_option snd m) (map_option snd m')"
  by (cases m; cases m') auto

lemma same_some: "R s t \<Longrightarrow> same_result R (Some (x, s)) (Some (x, t))" "R s t \<Longrightarrow> rel_option R (Some s) (Some t)"
  "rel_option (=) (Some y) (Some y)" "rel_option B None None"
  by simp_all

lemmas same_rules = same_bind state_bind same_if same_map_snd same_some get graceful skip

lemma same_ue_zeroes:
  "R s bs \<Longrightarrow> same_result R (ue_zeroes ops fuel k s) (ue_zeroes list_ops fuel k bs)"
proof (induction fuel arbitrary: k s bs)
  case 0
  show ?case by simp
next
  case (Suc fuel)
  show ?case by (simp only: ue_zeroes.simps) (rule same_rules get Suc | assumption)+
qed

lemma same_parseUE: "R s bs \<Longrightarrow> same_result R (parseUE wide ops s) (parseUE wide list_ops bs)"
  unfolding parseUE_def by (subst left, assumption) (rule same_rules same_ue_zeroes get | assumption)+

lemma same_parseSE: "R s bs \<Longrightarrow> same_result R (parseSE wide ops s) (parseSE wide list_ops bs)"
  unfolding parseSE_def by (rule same_rules same_parseUE | assumption)+

lemma same_scaling_list:
  "R s bs \<Longrightarrow> rel_option R (skipScalingList wide ops n s) (skipScalingList wide list_ops n bs)"
proof -
  have "R s bs \<Longrightarrow> rel_option R (scaling_list_loop wide ops n l k s) (scaling_list_loop wide list_ops n l k bs)" for l k
  proof (induction n arbitrary: l k s bs)
    case 0
    then show ?case by simp
  next
    case (Suc n)
    show ?case
      by (simp only: scaling_list_loop.simps Let_def) (rule same_rules same_parseSE Suc | assumption)+
  qed
  then show "R s bs \<Longrightarrow> ?thesis" by (simp add: skipScalingList_def)
qed

lemma same_scaling_matrix:
  "R s bs \<Longrightarrow> rel_option R (scaling_matrix_loop wide ops i n s) (scaling_matrix_loop wide list_ops i n bs)"
proof (induction n arbitrary: i s bs)
  case 0
  then show ?case by simp
next
  case (Suc n)
  show ?case by (simp only: scaling_matrix_loop.simps) (rule same_rules get same_scaling_list Suc | assumption)+
qed

lemma same_skip_ue: "R s bs \<Longrightarrow> rel_option R (skip_ue_loop wide ops n s) (skip_ue_loop wide list_ops n bs)"
proof (induction n arbitrary: s bs)
  case 0
  then show ?case by simp
next
  case (Suc n)
  show ?case by (simp only: skip_ue_loop.simps) (rule same_rules same_parseUE Suc | assumption)+
qed

lemma same_high_profile:
  "R s bs \<Longrightarrow> same_result R (high_profile_part wide ops p s) (high_profile_part wide list_ops p bs)"
  unfolding high_profile_part_def by (rule same_rules same_parseUE get skip same_scaling_matrix | assumption)+

lemma same_pic_order: "R s bs \<Longrightarrow> rel_option R (pic_order_part wide ops s) (pic_order_part wide list_ops bs)"
  unfolding pic_order_part_def by (rule same_rules same_parseUE get same_skip_ue | assumption)+

lemma same_crop:
  "R s bs \<Longrightarrow> same_result R (crop_part wide ops c f w h s) (crop_part wide list_ops c f w h bs)"
  unfolding crop_part_def Let_def by (rule same_rules same_parseUE get | assumption)+

lemma same_sar: "R s bs \<Longrightarrow> same_result R (sar_part ops s) (sar_part list_ops bs)"
  unfolding sar_part_def Let_def case_prod_beta [of _ "kFixedSARs ! _"] by (rule same_rules get | assumption)+

lemma same_avc_dimensions: "R s bs \<Longrightarrow> avc_dimensions wide ops s = avc_dimensions wide list_ops bs"
  unfolding option.rel_eq [symmetric] avc_dimensions_def Let_def
  by (rule same_rules same_parseUE get skip same_high_profile same_pic_order same_crop same_sar | assumption)+

lemma same_marker: "R s bs \<Longrightarrow> rel_option R (marker ops s) (marker list_ops bs)"
  unfolding marker_def by (rule same_rules get | assumption)+

lemma same_vol_dimensions: "R s bs \<Longrightarrow> vol_dimensions ops s = vol_dimensions list_ops bs"
  unfolding option.rel_eq [symmetric] vol_dimensions_def vol_control_part_def vop_rate_part_def vbv_part_def
  by (rule same_rules get skip same_marker | assumption)+

lemma same_fallback: "R s bs \<Longrightarrow> same_result R (op_fallback ops n x s) (op_fallback list_ops n x bs)"
  unfolding op_fallback_def by (rule same_rules | assumption)+

lemma same_ue_zeroes_fallback:
  "R s bs \<Longrightarrow> same_result R (ue_zeroes_fallback ops fuel k s) (ue_zeroes_fallback list_ops fuel k bs)"
proof (induction fuel arbitrary: k s bs)
  case 0
  show ?case by simp
next
  case (Suc fuel)
  show ?case by (simp only: ue_zeroes_fallback.simps) (rule same_rules same_fallback Suc | assumption)+
qed

lemma same_parseUEWithFallback:
  "R s bs \<Longrightarrow> same_result R (parseUEWithFallback ops x s) (parseUEWithFallback list_ops x bs)"
  unfolding parseUEWithFallback_def
  by (subst left, assumption) (rule same_rules same_ue_zeroes_fallback | assumption)+

lemma same_parseSEWithFallback:
  "R s bs \<Longrightarrow> same_result R (parseSEWithFallback ops x s) (parseSEWithFallback list_ops x bs)"
  unfolding parseSEWithFallback_def by (rule same_rules same_parseUEWithFallback | assumption)+

end

text \<open>\<open>ABitReader\<close> keeps the contract with the bits that it has still to deliver.\<close>

definition abr_rel :: "wide_shift \<Rightarrow> bit_reader \<Rightarrow> bool list \<Rightarrow> bool" where
  "abr_rel wide s bs \<longleftrightarrow> wide_keeps_zero wide \<and> reader_wf s \<and> bit_stream raw_bytes s = bs"

lemma length_bit_stream_raw: "reader_wf s \<Longrightarrow> length (bit_stream raw_bytes s) = numBitsLeft s"
  by (auto simp: reader_wf_def bit_stream_def numBitsLeft_def raw_bytes_def)

interpretation abr_list: reader_refines_list "abr_ops wide" "abr_rel wide" for wide
proof unfold_locales
  fix s bs n
  assume r: "abr_rel wide s bs"
  then have a: "reader_wf s" "wide_keeps_zero wide" and bs: "bit_stream raw_bytes s = bs" by (simp_all add: abr_rel_def)
  show g: "same_result (abr_rel wide) (op_graceful (abr_ops wide) n s) (op_graceful list_ops n bs)"
    using abr.graceful_spec [OF a, of n] a bs
    by (auto simp: abr_ops_def list_ops_def abr_rel_def getBitsGraceful_def split: if_splits)
  have "n \<le> 32 \<or> getBitsGraceful ABitReader_fillReservoir wide n s = Some (None, s)"
    by (auto simp: getBitsGraceful_def)
  then show "same_result (abr_rel wide) (op_get (abr_ops wide) n s) (op_get list_ops n bs)"
    using abr.graceful_spec [OF a, of n] a bs
    by (auto simp: abr_ops_def list_ops_def abr_rel_def getBits_def getBitsGraceful_def split: if_splits)
  show "rel_option (abr_rel wide) (op_skip (abr_ops wide) n s) (op_skip list_ops n bs)"
    using abr.skip_spec [OF a, of n] a bs by (auto simp: abr_ops_def list_ops_def abr_rel_def)
  show "op_left (abr_ops wide) s = op_left list_ops bs"
    using length_bit_stream_raw [OF a(1)] bs by (simp add: abr_ops_def list_ops_def)
qed

section \<open>Codes on lists of bits\<close>

text \<open>A number in \<open>n\<close> bits, most significant first, and the Exp-Golomb code of a number.\<close>

definition nbits :: "nat \<Rightarrow> nat \<Rightarrow> bool list" where
  "nbits n x = map (\<lambda>i. bit x (n - 1 - i)) [0..<n]"

fun ue_len :: "nat \<Rightarrow> nat" where
  "ue_len v = (if v = 0 then 0 else 1 + ue_len ((v - 1) div 2))"

declare ue_len.simps [simp del]

definition ue_bits :: "nat \<Rightarrow> bool list" where
  "ue_bits v = replicate (ue_len v) False @ nbits (ue_len v + 1) (v + 1)"

lemma length_nbits [simp]: "length (nbits n x) = n"
  by (simp add: nbits_def)

lemma word_of_nbits:
  assumes "n \<le> 32" and "x < 2 ^ n"
  shows "word_of_bits (nbits n x) = word_of_nat x"
proof (rule bit_word_eqI)
  fix k assume "k < LENGTH(32)"
  then have k: "k < 32" by simp
  have "\<not> bit x k" if "n \<le> k"
    using assms(2) that by (metis bit_take_bit_iff not_less take_bit_nat_eq_self)
  with k assms(1) show "bit (word_of_bits (nbits n x)) k = bit (word_of_nat x :: u32) k"
    by (auto simp: bit_append_bits bit_of_nat_iff nbits_def)
qed

lemma list_get_nbits:
  assumes "n \<le> 32" and "x < 2 ^ n"
  shows "op_get list_ops n (nbits n x @ r) = Some (word_of_nat x, r)"
  using assms by (simp add: list_ops_def word_of_nbits)

lemma list_get_bit: "op_get list_ops 1 (b # bs) = Some (of_bool b, bs)" "op_get list_ops (Suc 0) (b # bs) = Some (of_bool b, bs)"
  by (simp_all add: list_ops_def append_bits_def)

lemma list_get_empty: "op_get list_ops 1 [] = None"
  by (simp add: list_ops_def)

lemma list_skip: "length xs = n \<Longrightarrow> op_skip list_ops n (xs @ bs) = Some bs"
  by (simp add: list_ops_def)

lemma ue_zeroes_list:
  assumes "k < fuel"
  shows "ue_zeroes list_ops fuel j (replicate k False @ True # r) = Some (j + k, r)"
  using assms
proof (induction k arbitrary: fuel j)
  case 0
  then obtain f where "fuel = Suc f" by (cases fuel) auto
  then show ?case by (simp add: list_get_bit)
next
  case (Suc k)
  then obtain f where f: "fuel = Suc f" "k < f" by (cases fuel) auto
  with Suc.IH [of f "j + 1"] show ?case by (simp add: list_get_bit)
qed

lemma ue_len_bounds: "2 ^ ue_len v \<le> v + 1 \<and> v + 1 < 2 ^ (ue_len v + 1)"
proof (induction v rule: ue_len.induct)
  case (1 v)
  show ?case
  proof (cases "v = 0")
    case True
    then show ?thesis by (simp add: ue_len.simps)
  next
    case False
    define w where "w = (v - 1) div 2"
    have v: "v = 2 * w + 1 \<or> v = 2 * w + 2" using False unfolding w_def by arith
    have "ue_len v = 1 + ue_len w" using False by (subst ue_len.simps) (simp add: w_def)
    with 1 [OF False] v show ?thesis by (auto simp: w_def [symmetric])
  qed
qed

lemma nbits_Suc: "nbits (Suc k) x = bit x k # nbits k x"
  by (simp add: nbits_def upt_conv_Cons comp_def flip: map_Suc_upt del: upt_Suc)

lemma nbits_low: "nbits k (x mod 2 ^ k) = nbits k x"
  by (auto simp: nbits_def bit_take_bit_iff simp flip: take_bit_eq_mod)

text \<open>The code of a number, split into its zeros, its marker bit and its low bits.\<close>

lemma ue_bits_split:
  assumes "v < 2 ^ 32 - 1"
  shows "\<exists>k x. k < 32 \<and> x < 2 ^ k \<and> v + 1 = 2 ^ k + x \<and> ue_bits v = replicate k False @ True # nbits k x"
proof -
  let ?k = "ue_len v"
  have b: "2 ^ ?k \<le> v + 1" "v + 1 < 2 * 2 ^ ?k" using ue_len_bounds [of v] by simp_all
  have "2 ^ ?k < (2 ^ 32 :: nat)" using b assms by linarith
  then have k: "?k < 32" using power_less_imp_less_exp [of 2 ?k 32] by simp
  define x where "x = v + 1 - 2 ^ ?k"
  have x: "x < 2 ^ ?k" "v + 1 = 2 ^ ?k + x" using b unfolding x_def by linarith+
  have "(v + 1) div 2 ^ ?k = 1" using b by (intro div_nat_eqI) simp_all
  then have top: "bit (v + 1) ?k" by (simp add: bit_iff_odd)
  have "(v + 1) mod 2 ^ ?k = x" using x by simp
  then have "nbits ?k (v + 1) = nbits ?k x" using nbits_low [of ?k "v + 1"] by simp
  with top have "ue_bits v = replicate ?k False @ True # nbits ?k x" by (simp add: ue_bits_def nbits_Suc)
  with k x show ?thesis by blast
qed

lemma golomb_value:
  assumes "v + 1 = 2 ^ k + x"
  shows "(word_of_nat x :: u32) + push_bit k 1 - 1 = word_of_nat v"
proof -
  have "(word_of_nat (v + 1) :: u32) = word_of_nat (2 ^ k + x)" by (simp only: assms)
  then show ?thesis by (simp add: push_bit_eq_mult algebra_simps)
qed

lemma parseUE_list:
  assumes "v < 2 ^ 32 - 1"
  shows "parseUE wide list_ops (ue_bits v @ r) = Some (word_of_nat v, r)"
proof -
  obtain k x where kx: "k < 32" "x < 2 ^ k" "v + 1 = 2 ^ k + x" and bits: "ue_bits v = replicate k False @ True # nbits k x"
    using ue_bits_split [OF assms] by blast
  have z: "ue_zeroes list_ops (op_left list_ops (ue_bits v @ r) + 1) 0 (ue_bits v @ r) = Some (k, nbits k x @ r)"
    using ue_zeroes_list [of k "op_left list_ops (ue_bits v @ r) + 1" 0 "nbits k x @ r"]
    by (simp add: bits list_ops_def)
  show ?thesis
    unfolding parseUE_def z using kx list_get_nbits [of k x r] golomb_value [OF kx(3)] by (simp add: shl32_def)
qed

text \<open>Small numbers read back from words.\<close>

lemma uint_word_of_nat: "n < 2 ^ 32 \<Longrightarrow> uint (word_of_nat n :: u32) = int n"
  by (simp add: unsigned_of_nat take_bit_nat_eq_self)

lemma sint_word_of_nat:
  assumes "n < 2 ^ 31"
  shows "sint (word_of_nat n :: u32) = int n"
  using assms uint_word_of_nat [of n] by (simp add: sint_uint signed_take_bit_int_eq_self)

section \<open>A sequence parameter set and its bits\<close>

text \<open>
  The syntax of a sequence parameter set of a profile without the high profile part, with
  picture order count type 0 and no VUI parameters, as the standard writes it.
\<close>

record sps =
  sps_profile :: nat
  sps_flags_level :: nat
  sps_id :: nat
  sps_log2_frame_num :: nat
  sps_log2_lsb :: nat
  sps_ref_frames :: nat
  sps_gaps :: bool
  sps_width_mbs :: nat
  sps_height_units :: nat
  sps_frame_only :: bool
  sps_adaptive :: bool
  sps_direct :: bool
  sps_crop :: "(nat \<times> nat \<times> nat \<times> nat) option"

definition crop_bits :: "(nat \<times> nat \<times> nat \<times> nat) option \<Rightarrow> bool list" where
  "crop_bits c =
     (case c of None \<Rightarrow> [False]
      | Some (l, r, t, b) \<Rightarrow> True # ue_bits l @ ue_bits r @ ue_bits t @ ue_bits b)"

definition sps_bits :: "sps \<Rightarrow> bool list" where
  "sps_bits d =
     nbits 8 (sps_profile d) @ nbits 16 (sps_flags_level d) @ ue_bits (sps_id d) @
     ue_bits (sps_log2_frame_num d) @ ue_bits 0 @ ue_bits (sps_log2_lsb d) @ ue_bits (sps_ref_frames d) @
     [sps_gaps d] @ ue_bits (sps_width_mbs d) @ ue_bits (sps_height_units d) @ [sps_frame_only d] @
     (if sps_frame_only d then [] else [sps_adaptive d]) @ [sps_direct d] @ crop_bits (sps_crop d) @ [False]"

text \<open>The size of the picture in luma samples, before and after cropping (4:2:0).\<close>

definition sps_fields :: "sps \<Rightarrow> nat" where
  "sps_fields d = (if sps_frame_only d then 1 else 2)"

definition sps_size :: "sps \<Rightarrow> nat \<times> nat" where
  "sps_size d =
     (let w = 16 * (sps_width_mbs d + 1); h = sps_fields d * (16 * (sps_height_units d + 1))
      in case sps_crop d of
           None \<Rightarrow> (w, h)
         | Some (l, r, t, b) \<Rightarrow> (w - 2 * (l + r), h - 2 * sps_fields d * (t + b)))"

definition sps_ok :: "sps \<Rightarrow> bool" where
  "sps_ok d \<longleftrightarrow>
     sps_profile d < 256 \<and> sps_profile d \<notin> {100, 110, 122, 244, 44, 83, 86} \<and>
     sps_id d < 2 ^ 32 - 1 \<and> sps_log2_frame_num d < 2 ^ 32 - 1 \<and> sps_log2_lsb d < 2 ^ 32 - 1 \<and>
     sps_ref_frames d < 2 ^ 32 - 1 \<and> sps_width_mbs d < 2 ^ 26 \<and> sps_height_units d < 2 ^ 26 - 1 \<and>
     (case sps_crop d of
        None \<Rightarrow> True
      | Some (l, r, t, b) \<Rightarrow>
          2 * (l + r) \<le> 16 * (sps_width_mbs d + 1) \<and>
          2 * sps_fields d * (t + b) \<le> sps_fields d * (16 * (sps_height_units d + 1)))"

lemma crop_dimension_exact:
  assumes "u * (a + b) \<le> dim" and "dim < 2 ^ 31" and "0 < u"
  shows "crop_dimension (int dim) (word_of_nat a) (word_of_nat b) (word_of_nat u) = int (dim - u * (a + b))"
proof -
  have s: "a + b \<le> dim" using assms(1,3) by (metis le_trans mult_le_mono1 nat_mult_1 Suc_leI One_nat_def)
  have "u \<le> dim \<or> a + b = 0" using assms(1) by (cases "a + b") auto
  then show ?thesis
  proof
    assume "u \<le> dim"
    with s assms(2) have "uint (word_of_nat a :: u32) = int a" "uint (word_of_nat b :: u32) = int b"
      "uint (word_of_nat u :: u32) = int u" by (auto intro!: uint_word_of_nat)
    moreover define P where "P = u * (a + b)"
    moreover have "(int a + int b) * int u = int P" by (simp add: P_def algebra_simps)
    ultimately show ?thesis
      using s assms(1,2) by (simp add: crop_dimension_def Let_def of_nat_diff flip: P_def)
  next
    assume "a + b = 0"
    with assms(2) show ?thesis by (simp add: crop_dimension_def)
  qed
qed

text \<open>The parts of the parser on the bits of a parameter set.\<close>

lemma high_profile_list:
  assumes "p < 256" and "p \<notin> {100, 110, 122, 244, 44, 83, 86}"
  shows "high_profile_part wide list_ops (word_of_nat p) r = Some (1, r)"
proof -
  have "unat (word_of_nat p :: u32) = p" using assms(1) by (simp add: unsigned_of_nat take_bit_nat_eq_self)
  moreover have "unat (word_of_nat p :: u32) \<in> {100, 110, 122, 244, 44, 83, 86}"
    if "(word_of_nat p :: u32) \<in> {100, 110, 122, 244, 44, 83, 86}"
    using imageI [OF that, of unat] by simp
  ultimately have "(word_of_nat p :: u32) \<notin> {100, 110, 122, 244, 44, 83, 86}"
    using assms(2) by metis
  then show ?thesis by (simp only: high_profile_part_def if_False)
qed

lemma pic_order_list:
  assumes "v < 2 ^ 32 - 1"
  shows "pic_order_part wide list_ops (ue_bits 0 @ ue_bits v @ r) = Some r"
  using assms by (simp add: pic_order_part_def parseUE_list)

lemma crop_list:
  assumes w: "w < 2 ^ 31" and h: "h < 2 ^ 31"
    and ok: "case c of None \<Rightarrow> True | Some (l, r, t, b) \<Rightarrow>
      2 * (l + r) \<le> w \<and> 2 * (if fo then 1 else 2) * (t + b) \<le> h"
  shows "crop_part wide list_ops 1 (of_bool fo) (int w) (int h) (crop_bits c @ q) =
    Some (case c of None \<Rightarrow> (int w, int h)
      | Some (l, r, t, b) \<Rightarrow> (int (w - 2 * (l + r)), int (h - 2 * (if fo then 1 else 2) * (t + b))), q)"
proof (cases c)
  case None
  then show ?thesis by (simp add: crop_part_def crop_bits_def list_get_bit)
next
  case (Some lrtb)
  obtain l r t b where c: "c = Some (l, r, t, b)" using Some by (cases lrtb) auto
  have "l < 2 ^ 32 - 1" "r < 2 ^ 32 - 1" "t < 2 ^ 32 - 1" "b < 2 ^ 32 - 1"
    using ok w h by (auto simp: c split: if_splits)
  moreover have "crop_dimension (int w) (word_of_nat l) (word_of_nat r) 2 = int (w - 2 * (l + r))"
    using crop_dimension_exact [of 2 l r w] ok w by (simp add: c)
  moreover have "crop_dimension (int h) (word_of_nat t) (word_of_nat b) (2 * (2 - of_bool fo)) =
      int (h - 2 * (if fo then 1 else 2) * (t + b))"
    using crop_dimension_exact [of "2 * (if fo then 1 else 2)" t b h] ok h by (auto simp: c split: if_splits)
  ultimately show ?thesis
    by (simp add: c crop_part_def crop_bits_def list_get_bit parseUE_list)
qed

lemma avc_dimensions_list:
  assumes ok: "sps_ok d"
  shows "avc_dimensions wide list_ops (sps_bits d @ r) =
    Some ((int (fst (sps_size d)), int (snd (sps_size d))), 0, 0)"
proof -
  define w h where "w = 16 * (sps_width_mbs d + 1)" and "h = sps_fields d * (16 * (sps_height_units d + 1))"
  have wh: "w < 2 ^ 31" "h < 2 ^ 31" using ok by (auto simp: w_def h_def sps_ok_def sps_fields_def)
  have sw: "sint (word_of_nat (sps_width_mbs d) * 16 + 16 :: u32) = int w"
    using sint_word_of_nat [OF wh(1)] by (simp add: w_def algebra_simps)
  have sh: "sint ((2 - of_bool (sps_frame_only d)) * (word_of_nat (sps_height_units d) * 16 + 16) :: u32) = int h"
    using sint_word_of_nat [OF wh(2)] by (cases "sps_frame_only d") (simp_all add: h_def sps_fields_def algebra_simps)
  have rest: "crop_part wide list_ops 1 (of_bool (sps_frame_only d)) (int w) (int h) (crop_bits (sps_crop d) @ q) =
      Some ((int (fst (sps_size d)), int (snd (sps_size d))), q)" for q
    using crop_list [OF wh, where c = "sps_crop d" and fo = "sps_frame_only d" and wide = wide and q = q] ok
    by (auto simp: sps_ok_def sps_size_def sps_fields_def w_def h_def Let_def split: option.splits)
  have sar: "sar_part list_ops (False # r) = Some ((0, 0), r)" by (simp add: sar_part_def list_get_bit)
  note steps = avc_dimensions_def sps_bits_def sps_ok_def list_get_nbits list_skip parseUE_list high_profile_list
    pic_order_list list_get_bit sar Let_def
  show ?thesis
    using ok sw sh rest [of "False # r"] by (cases "sps_frame_only d") (simp_all add: steps)
qed

text \<open>The mapping of signed numbers to code numbers.\<close>

definition se_code :: "int \<Rightarrow> nat" where
  "se_code k = (if k > 0 then nat (2 * k - 1) else nat (- 2 * k))"

lemma drop_bit_word_of_nat: "n < 2 ^ 32 \<Longrightarrow> drop_bit 1 (word_of_nat n :: u32) = word_of_nat (n div 2)"
proof (rule unsigned_word_eqI [where ?'a = nat])
  assume "n < 2 ^ 32"
  then show "unat (drop_bit 1 (word_of_nat n :: u32)) = unat (word_of_nat (n div 2) :: u32)"
    unfolding unat_drop_bit_eq unsigned_of_nat by (simp add: take_bit_nat_eq_self drop_bit_eq_div)
qed

lemma odd_word_of_nat: "odd (word_of_nat n :: u32) \<longleftrightarrow> odd n"
  by (simp add: bit_of_nat_iff flip: bit_0)

lemma se_value_code:
  assumes "- (2 ^ 31) < k" and "k < 2 ^ 31"
  shows "se_value (word_of_nat (se_code k)) = k"
proof (cases "k > 0")
  case True
  define m where "m = nat k"
  have m: "0 < m" "m < 2 ^ 31" "k = int m" "se_code k = 2 * m - 1" using True assms by (auto simp: m_def se_code_def)
  have "(word_of_nat (2 * m - 1) :: u32) + 1 = word_of_nat (2 * m)" using m(1) by (simp add: of_nat_diff)
  then show ?thesis
    using m drop_bit_word_of_nat [of "2 * m"] sint_word_of_nat [OF m(2)]
    by (simp add: se_value_def odd_word_of_nat)
next
  case False
  define m where "m = nat (- k)"
  have m: "m < 2 ^ 31" "k = - int m" "se_code k = 2 * m" using False assms by (auto simp: m_def se_code_def)
  have "sint (- word_of_nat m :: u32) = - int m"
    using m(1) signed_of_int [where ?'b = 32 and n = "- int m" and ?'a = int]
    by (simp add: signed_take_bit_int_eq_self)
  then show ?thesis
    using m drop_bit_word_of_nat [of "2 * m"] by (simp add: se_value_def odd_word_of_nat)
qed

section \<open>Properties\<close>

lemma abr_parse:
  assumes "reader_wf s" and "wide_keeps_zero wide"
    and "same_result (abr_rel wide) m (Some (x, r))"
  shows "\<exists>t. m = Some (x, t) \<and> reader_wf t \<and> bit_stream raw_bytes t = r"
  using assms(3) by (cases m) (auto simp: abr_rel_def)

text \<open>
  Exp-Golomb codes, unsigned and signed. On a reader whose next bits are the code of a
  number below \<open>2^32 - 1\<close>, \<open>parseUE\<close> returns the number and leaves the reader exactly behind the
  code, however the code is spread over bytes and refills; \<open>parseSE\<close> does so for every signed
  number above \<open>-2^31\<close>.
\<close>

theorem parse_golomb_roundtrip:
  assumes "reader_wf s" and "wide_keeps_zero wide"
  shows "(v < 2 ^ 32 - 1 \<and> bit_stream raw_bytes s = ue_bits v @ r \<longrightarrow>
      (\<exists>t. parseUE wide (abr_ops wide) s = Some (word_of_nat v, t) \<and> reader_wf t \<and> bit_stream raw_bytes t = r)) \<and>
    (- (2 ^ 31) < k \<and> k < 2 ^ 31 \<and> bit_stream raw_bytes s = ue_bits (se_code k) @ r \<longrightarrow>
      (\<exists>t. parseSE wide (abr_ops wide) s = Some (k, t) \<and> reader_wf t \<and> bit_stream raw_bytes t = r))"
proof (intro conjI impI; elim conjE)
  assume v: "v < 2 ^ 32 - 1" and bs: "bit_stream raw_bytes s = ue_bits v @ r"
  have "abr_rel wide s (ue_bits v @ r)" using assms bs by (simp add: abr_rel_def)
  from abr_list.same_parseUE [OF this, of wide] parseUE_list [OF v]
  show "\<exists>t. parseUE wide (abr_ops wide) s = Some (word_of_nat v, t) \<and> reader_wf t \<and> bit_stream raw_bytes t = r"
    by (intro abr_parse [OF assms]) simp
next
  assume k: "- (2 ^ 31) < k" "k < 2 ^ 31" and bs: "bit_stream raw_bytes s = ue_bits (se_code k) @ r"
  have "abr_rel wide s (ue_bits (se_code k) @ r)" using assms bs by (simp add: abr_rel_def)
  moreover have "se_code k < 2 ^ 32 - 1" using k by (auto simp: se_code_def)
  ultimately show "\<exists>t. parseSE wide (abr_ops wide) s = Some (k, t) \<and> reader_wf t \<and> bit_stream raw_bytes t = r"
    using abr_list.same_parseSE [of wide s "ue_bits (se_code k) @ r" wide] se_value_code [OF k]
    by (intro abr_parse [OF assms]) (simp add: parseSE_def parseUE_list)
qed

theorem parse_golomb_roundtrip_witness:
  "(\<exists>t. parseUE (\<lambda>x k. 0) (abr_ops (\<lambda>x k. 0)) (new_bit_reader [0x28] 1) = Some (4, t)) \<and>
   (\<exists>t. parseSE (\<lambda>x k. 0) (abr_ops (\<lambda>x k. 0)) (new_bit_reader [0x28] 1) = Some (- 2, t))"
proof -
  have "bit_stream raw_bytes (new_bit_reader [0x28] 1) = ue_bits 4 @ [False, False, False]"
    by (simp add: new_bit_reader_stream byte_bits_def upt_rec ue_bits_def nbits_def ue_len.simps bit_0)
  with parse_golomb_roundtrip [of "new_bit_reader [0x28] 1" "\<lambda>x k. 0" 4 "[False, False, False]" "- 2"]
    new_bit_reader_wf [of 1 "[0x28]"]
  show ?thesis by (auto simp: wide_keeps_zero_def se_code_def)
qed

lemma list_fallback: "op_fallback list_ops 1 1 (b # bs) = Some (of_bool b, bs)" "op_fallback list_ops 1 1 [] = Some (1, [])"
  by (simp_all add: op_fallback_def list_ops_def append_bits_def)

lemma ue_zeroes_fallback_list:
  assumes "length bs < fuel"
  shows "\<exists>k r. ue_zeroes_fallback list_ops fuel j bs = Some (k, r)"
  using assms
proof (induction fuel arbitrary: j bs)
  case 0
  then show ?case by simp
next
  case (Suc fuel)
  then show ?case by (cases bs) (simp_all add: list_fallback del: One_nat_def)
qed

lemma ue_zeroes_fallback_code:
  assumes "k < fuel"
  shows "ue_zeroes_fallback list_ops fuel j (replicate k False @ True # r) = Some (j + k, r)"
    and "ue_zeroes_fallback list_ops fuel j (replicate k False) = Some (j + k, [])"
  using assms
proof (induction k arbitrary: fuel j)
  case 0
  { case 1 then show ?case by (cases fuel) (simp_all add: list_fallback del: One_nat_def) }
  { case 2 then show ?case by (cases fuel) (simp_all add: list_fallback del: One_nat_def) }
next
  case (Suc k)
  { case 1 then show ?case using Suc(1) by (cases fuel) (simp_all add: list_fallback del: One_nat_def) }
  { case 2 then show ?case using Suc(2) by (cases fuel) (simp_all add: list_fallback del: One_nat_def) }
qed

lemma fallback_list_total: "\<exists>x r. parseUEWithFallback list_ops fb bs = Some (x, r)"
proof -
  obtain k r where "ue_zeroes_fallback list_ops (op_left list_ops bs + 1) 0 bs = Some (k, r)"
    using ue_zeroes_fallback_list [of bs "op_left list_ops bs + 1" 0] by (auto simp: list_ops_def)
  then show ?thesis by (auto simp: parseUEWithFallback_def list_ops_def)
qed

lemma fallback_list_code:
  assumes "v < 2 ^ 32 - 1"
  shows "parseUEWithFallback list_ops fb (ue_bits v @ r) = Some (word_of_nat v, r)"
proof -
  obtain k x where kx: "k < 32" "x < 2 ^ k" "v + 1 = 2 ^ k + x" and bits: "ue_bits v = replicate k False @ True # nbits k x"
    using ue_bits_split [OF assms] by blast
  have "ue_zeroes_fallback list_ops (op_left list_ops (ue_bits v @ r) + 1) 0 (ue_bits v @ r) = Some (k, nbits k x @ r)"
    using ue_zeroes_fallback_code(1) [of k "op_left list_ops (ue_bits v @ r) + 1" 0 "nbits k x @ r"]
    by (simp add: bits list_ops_def)
  moreover have "op_graceful list_ops k (nbits k x @ r) = Some (Some (word_of_nat x), r)"
    using kx by (simp add: list_ops_def word_of_nbits)
  ultimately show ?thesis using kx(1) golomb_value [OF kx(3)] by (simp add: parseUEWithFallback_def)
qed



text \<open>A 320 by 240 baseline stream, with its height cropped from 15 macroblocks to 236.\<close>

definition qvga_sps :: sps where
  "qvga_sps = \<lparr>sps_profile = 66, sps_flags_level = 0xC00D, sps_id = 0, sps_log2_frame_num = 0, sps_log2_lsb = 0,
     sps_ref_frames = 1, sps_gaps = False, sps_width_mbs = 19, sps_height_units = 14, sps_frame_only = True,
     sps_adaptive = False, sps_direct = True, sps_crop = Some (0, 0, 0, 2)\<rparr>"

lemma nbits_eval: "nbits 0 x = []" "nbits (numeral k) x = bit x (pred_numeral k) # nbits (pred_numeral k) x"
  "nbits (Suc n) x = bit x n # nbits n x"
  by (simp add: nbits_def) (simp_all add: numeral_eq_Suc nbits_Suc)

lemma byte_bits_eval: "byte_bits b = [bit b 7, bit b 6, bit b 5, bit b 4, bit b 3, bit b 2, bit b 1, bit b 0]"
  by (simp add: byte_bits_def upt_rec numeral_eq_Suc)

lemma replicate_eval: "replicate (numeral k) a = a # replicate (pred_numeral k) a"
  by (simp add: numeral_eq_Suc)

lemma ue_bits_examples:
  "ue_bits 0 = [True]" "ue_bits (Suc 0) = [False, True, False]" "ue_bits 2 = [False, True, True]"
  "ue_bits 14 = [False, False, False, True, True, True, True]"
  "ue_bits 19 = [False, False, False, False, True, False, True, False, False]"
proof -
  have len: "ue_len 0 = 0" "ue_len (Suc 0) = 1" "ue_len 2 = 1" "ue_len 14 = 3" "ue_len 19 = 4"
    by (simp_all add: ue_len.simps)
  show "ue_bits 0 = [True]" "ue_bits (Suc 0) = [False, True, False]" "ue_bits 2 = [False, True, True]"
    by (simp_all add: ue_bits_def len nbits_eval bit_0 bit_Suc)
  show "ue_bits 14 = [False, False, False, True, True, True, True]"
    "ue_bits 19 = [False, False, False, False, True, False, True, False, False]"
    by (simp_all add: ue_bits_def len nbits_eval bit_0 replicate_eval)
qed

lemma qvga_sps_bits:
  "bits_of_bytes [0x42, 0xC0, 0x0D, 0xF4, 0x0A, 0x0F, 0xFD, 0x80] = sps_bits qvga_sps @ replicate 6 False"
  "sps_ok qvga_sps" "sps_size qvga_sps = (320, 236)"
  by (simp_all add: sps_bits_def qvga_sps_def crop_bits_def ue_bits_examples nbits_eval byte_bits_eval bit_0 replicate_eval
    sps_ok_def sps_fields_def sps_size_def)



section \<open>Bounds of MPEG audio frames\<close>

lemma header_field_less: "header_field h sh 3 < 4" "header_field h sh 0x0f < 16" "header_field h sh 1 < 2"
proof -
  have low: "unat (x AND msk) \<le> unat msk" for x msk :: u32
    by (rule word_le_nat_alt [THEN iffD1], rule word_and_le1)
  show "header_field h sh 3 < 4" using low [of "drop_bit sh h" 3] by (simp add: header_field_def)
  show "header_field h sh 0x0f < 16" using low [of "drop_bit sh h" "0x0f"] by (simp add: header_field_def)
  show "header_field h sh 1 < 2" using low [of "drop_bit sh h" 1] by (simp add: header_field_def)
qed

text \<open>Every entry of a table of fourteen lies between the bounds that all its entries respect.\<close>

lemma table_bounds:
  fixes lo hi :: nat
  assumes "0 < i" and "i < 15" and "length xs = 14 \<and> (\<forall>b \<in> set xs. lo \<le> b \<and> b \<le> hi)"
  shows "lo \<le> xs ! (i - 1)" and "xs ! (i - 1) \<le> hi"
  using assms nth_mem [of "i - 1" xs] by auto

text \<open>A scaled quotient lies between those of the bounds of its parts.\<close>

lemma scaled_quotient_bounds:
  fixes b lo hi c r r_lo r_hi :: nat
  assumes "lo \<le> b" and "b \<le> hi" and "r_lo \<le> r" and "r \<le> r_hi" and "0 < r_lo"
  shows "c * lo div r_hi \<le> c * b div r" and "c * b div r \<le> c * hi div r_lo"
proof -
  have "c * lo div r_hi \<le> c * lo div r" using assms by (intro div_le_mono2) simp_all
  also have "\<dots> \<le> c * b div r" using assms by (intro div_le_mono mult_le_mono2) simp
  finally show "c * lo div r_hi \<le> c * b div r" .
  have "c * b div r \<le> c * hi div r" using assms by (intro div_le_mono mult_le_mono2) simp
  also have "\<dots> \<le> c * hi div r_lo" using assms by (intro div_le_mono2) simp_all
  finally show "c * b div r \<le> c * hi div r_lo" .
qed

lemma table_ranges:
  "length kBitrateV1 = 14 \<and> (\<forall>b \<in> set kBitrateV1. 32 \<le> b \<and> b \<le> 448)"
  "length kBitrateV2_L1 = 14 \<and> (\<forall>b \<in> set kBitrateV2_L1. 32 \<le> b \<and> b \<le> 256)"
  "length kBitrateV1L2 = 14 \<and> (\<forall>b \<in> set kBitrateV1L2. 32 \<le> b \<and> b \<le> 384)"
  "length kBitrateV1L3 = 14 \<and> (\<forall>b \<in> set kBitrateV1L3. 32 \<le> b \<and> b \<le> 384)"
  "length kBitrateV2 = 14 \<and> (\<forall>b \<in> set kBitrateV2. 8 \<le> b \<and> b \<le> 160)"
  by (simp_all add: kBitrateV1_def kBitrateV2_L1_def kBitrateV1L2_def kBitrateV1L3_def kBitrateV2_def)

lemma mpeg_frame_bounds:
  assumes i: "0 < i" "i < 15" and p: "p < 2"
    and rate: "if v = 3 then 32000 \<le> sr \<and> sr \<le> 48000 else 8000 \<le> sr \<and> sr \<le> 24000"
  shows "24 \<le> fst (mpeg_frame v l i sr p) \<and> fst (mpeg_frame v l i sr p) \<le> 2881"
proof -
  note table = table_bounds [OF i]
  have p4: "p * 4 \<le> 4" "p \<le> 1" using p by simp_all
  consider "l = 3" "v = 3" | "l = 3" "v \<noteq> 3" | "l \<noteq> 3" "v = 3" | "l \<noteq> 3" "v \<noteq> 3" by blast
  then show ?thesis
  proof cases
    case 1
    then show ?thesis
      using p4 rate scaled_quotient_bounds [of 32 "kBitrateV1 ! (i - 1)" 448 32000 sr 48000 12000]
        table [of kBitrateV1 32 448, OF table_ranges(1)]
      by (simp add: mpeg_frame_def Let_def)
  next
    case 2
    then show ?thesis
      using p4 rate scaled_quotient_bounds [of 32 "kBitrateV2_L1 ! (i - 1)" 256 8000 sr 24000 12000]
        table [of kBitrateV2_L1 32 256, OF table_ranges(2)]
      by (simp add: mpeg_frame_def Let_def)
  next
    case 3
    then show ?thesis
      using p4 rate scaled_quotient_bounds [of 32 "(if l = 2 then kBitrateV1L2 else kBitrateV1L3) ! (i - 1)" 384 32000 sr 48000 144000]
        table [of kBitrateV1L2 32 384, OF table_ranges(3)] table [of kBitrateV1L3 32 384, OF table_ranges(4)]
      by (cases "l = 2") (simp_all add: mpeg_frame_def Let_def)
  next
    case 4
    then show ?thesis
      using p4 rate scaled_quotient_bounds [of 8 "kBitrateV2 ! (i - 1)" 160 8000 sr 24000 72000]
        scaled_quotient_bounds [of 8 "kBitrateV2 ! (i - 1)" 160 8000 sr 24000 144000]
        table [of kBitrateV2 8 160, OF table_ranges(5)]
      by (cases "l = 1") (simp_all add: mpeg_frame_def Let_def)
  qed
qed

lemma sampling_rate_bounds:
  assumes "i < 3" and "r = kSamplingRateV1 ! i"
    and "sr = (if v = 2 then r div 2 else if v = 0 then r div 4 else r)" and "v = 0 \<or> v = 2 \<or> v = (3::nat)"
  shows "if v = 3 then 32000 \<le> sr \<and> sr \<le> 48000 else 8000 \<le> sr \<and> sr \<le> 24000"
proof -
  from \<open>i < 3\<close> have "i = 0 \<or> i = 1 \<or> i = 2" by arith
  then have "r = 44100 \<or> r = 48000 \<or> r = 32000" using assms(2) by (auto simp: kSamplingRateV1_def)
  then show ?thesis using assms(3,4) by auto
qed

text \<open>The fields that make a header acceptable: sync bits, a known version and layer, a bit rate and a sampling rate.\<close>

definition mpeg_header_valid :: "u32 \<Rightarrow> bool" where
  "mpeg_header_valid header \<longleftrightarrow>
     header AND 0xffe00000 = 0xffe00000 \<and> header_field header 19 3 \<noteq> 1 \<and> header_field header 17 3 \<noteq> 0
     \<and> header_field header 12 0x0f \<notin> {0, 15} \<and> header_field header 10 3 \<noteq> 3"

lemma mpeg_refused:
  assumes "\<not> mpeg_header_valid header"
  shows "GetMPEGAudioFrameSize header
    = (False, \<lparr>frame_size = 0, out_sampling_rate = 0, out_channels = 0, out_bitrate = 0, out_num_samples = 1152\<rparr>)"
proof -
  have chain: "(if a then x else if b then x else if c then x else if d then x else if e then x else y) = x"
    if "a \<or> b \<or> c \<or> d \<or> e" for a b c d e and x y :: "bool \<times> mpeg_audio_info"
    using that by auto
  show ?thesis
    unfolding GetMPEGAudioFrameSize_def Let_def
    by (rule chain) (use assms in \<open>auto simp: mpeg_header_valid_def\<close>)
qed

lemma mpeg_accepted:
  assumes "mpeg_header_valid header"
  defines "v \<equiv> header_field header 19 3" and "r \<equiv> kSamplingRateV1 ! header_field header 10 3"
  defines "sr \<equiv> if v = 2 then r div 2 else if v = 0 then r div 4 else r"
  shows "fst (GetMPEGAudioFrameSize header)"
    and "frame_size (snd (GetMPEGAudioFrameSize header))
      = fst (mpeg_frame v (header_field header 17 3) (header_field header 12 0x0f) sr (header_field header 9 1))"
    and "out_sampling_rate (snd (GetMPEGAudioFrameSize header)) = sr"
  using assms(1) unfolding mpeg_header_valid_def GetMPEGAudioFrameSize_def Let_def assms(2-4)
  by (simp_all add: split_beta)

text \<open>
  MPEG audio frame headers. \<open>GetMPEGAudioFrameSize\<close> accepts exactly the headers with the
  eleven sync bits, a known version and layer, and neither the free nor a reserved rate. The
  frame of an accepted one has between 24 and 2881 bytes, more than the header's own four, so
  a scanner that advances by the frame size makes progress, and its sampling rate lies between
  8 and 48 kHz; a refused one reports size zero.
\<close>

theorem mpeg_frame_size_bounds:
  "fst (GetMPEGAudioFrameSize header) = mpeg_header_valid header
   \<and> (let info = snd (GetMPEGAudioFrameSize header)
      in if mpeg_header_valid header
         then 24 \<le> frame_size info \<and> frame_size info \<le> 2881
           \<and> 8000 \<le> out_sampling_rate info \<and> out_sampling_rate info \<le> 48000
         else frame_size info = 0)"
proof (cases "mpeg_header_valid header")
  case False
  then show ?thesis by (simp add: mpeg_refused)
next
  case True
  note less = header_field_less [of header]
  have range: "0 < header_field header 12 0x0f" "header_field header 12 0x0f < 15" "header_field header 10 3 < 3"
    "header_field header 19 3 = 0 \<or> header_field header 19 3 = 2 \<or> header_field header 19 3 = 3"
    using True less(2) [of 12] less(1) [of 10] less(1) [of 19] unfolding mpeg_header_valid_def by auto
  note sr = sampling_rate_bounds [OF range(3) refl refl range(4)]
  show ?thesis
    using True mpeg_accepted [OF True] mpeg_frame_bounds [OF range(1,2) less(3) sr] sr
    unfolding Let_def by (simp split: if_splits)
qed

end
