(* ===== verification/Nal_Units.thy ===== *)
theory Nal_Units
  imports Avc_Headers
begin

unbundle bit_operations_syntax

text \<open>
  Byte streams of NAL units in \<open>media/libstagefright/foundation/avc_utils.cpp\<close>: cutting a stream
  at its start codes (\<open>getNextNALUnit\<close>), the loops over the units of an access unit (\<open>FindNAL\<close>,
  \<open>IsIDR\<close>, \<open>IsAVCReferenceFrame\<close>, \<open>FindAVCLayerId\<close>) and the codec specific data made from its
  parameter sets (\<open>MakeAVCCodecSpecificData\<close>). A pointer with a size is the list of the bytes
  from there on; offsets are those of the code.
\<close>

section \<open>Cutting a stream at its start codes\<close>

text \<open>The offset of the first start code, or the last offset but one.\<close>

function start_code_scan :: "u8 list \<Rightarrow> nat \<Rightarrow> nat" where
  "start_code_scan data offset =
     (if offset + 2 < length data
      then if data ! (offset + 2) = 1 \<and> data ! offset = 0 \<and> data ! (offset + 1) = 0 then offset
           else start_code_scan data (offset + 1)
      else offset)"
  by auto
termination by (relation "measure (\<lambda>(data, offset). length data - offset)") auto

function skip_to_one :: "u8 list \<Rightarrow> nat \<Rightarrow> nat" where
  "skip_to_one data offset =
     (if offset < length data \<and> data ! offset \<noteq> 1 then skip_to_one data (offset + 1) else offset)"
  by auto
termination by (relation "measure (\<lambda>(data, offset). length data - offset)") auto

declare start_code_scan.simps [simp del] skip_to_one.simps [simp del]

lemma skip_to_one_ge: "offset \<le> skip_to_one data offset"
proof (induction data offset rule: skip_to_one.induct)
  case (1 data offset)
  then show ?case by (subst skip_to_one.simps) (auto dest: Suc_leD)
qed

text \<open>
  The offset of the last byte of the next start code, \<open>None\<close> at the end of the data. The code
  tests \<open>offset == size\<close>; it never passes the size.
\<close>

function next_start_code :: "u8 list \<Rightarrow> nat \<Rightarrow> nat option" where
  "next_start_code data offset =
     (let o1 = skip_to_one data offset
      in if o1 \<ge> length data then None
         else if data ! (o1 - 1) = 0 \<and> data ! (o1 - 2) = 0 then Some o1
         else next_start_code data (o1 + 1))"
  by auto
termination
proof (relation "measure (\<lambda>(data, offset). length data - offset)", simp, clarsimp)
  fix data offset
  assume "\<not> length data \<le> skip_to_one data offset"
  then show "length data - Suc (skip_to_one data offset) < length data - offset"
    using skip_to_one_ge [of offset data] by linarith
qed

text \<open>Trailing zero bytes are cut off, down to a single byte.\<close>

fun trim_end :: "u8 list \<Rightarrow> nat \<Rightarrow> nat \<Rightarrow> nat" where
  "trim_end data startOffset endOffset =
     (if endOffset > startOffset + 1 \<and> data ! (endOffset - 1) = 0 then trim_end data startOffset (endOffset - 1)
      else endOffset)"

declare next_start_code.simps [simp del] trim_end.simps [simp del]

text \<open>\<open>-EAGAIN\<close> with the data left, or a unit and the data behind it.\<close>

datatype nal_result = Nal_again "u8 list" | Nal_unit "u8 list" "u8 list"

definition getNextNALUnit :: "bool \<Rightarrow> u8 list \<Rightarrow> nal_result" where
  "getNextNALUnit startCodeFollows data =
     (let size = length data
      in if size < 3 then Nal_again data
         else
           (let offset = start_code_scan data 0
            in if offset + 2 \<ge> size then Nal_again (take 2 (drop offset data))
               else
                 (let startOffset = offset + 3
                  in case (case next_start_code data startOffset of
                             Some o1 \<Rightarrow> Some o1
                           | None \<Rightarrow> if startCodeFollows then Some (size + 2) else None) of
                       None \<Rightarrow> Nal_again data
                     | Some offset \<Rightarrow>
                         (let endOffset = trim_end data startOffset (offset - 2)
                          in Nal_unit (take (endOffset - startOffset) (drop startOffset data))
                               (if offset + 2 < size then drop (offset - 2) data else [])))))"

section \<open>Reference: splitting lists at start codes\<close>

text \<open>
  The bytes before the first start code and, if there is one, those behind it; and the unit that
  such bytes hold, without trailing zeros but with at least one byte.
\<close>

fun split_code :: "u8 list \<Rightarrow> u8 list \<times> u8 list option" where
  "split_code [] = ([], None)"
| "split_code (x # xs) =
     (if take 3 (x # xs) = [0, 0, 1] then ([], Some (drop 2 xs))
      else (x # fst (split_code xs), snd (split_code xs)))"

fun trim_zeros :: "u8 list \<Rightarrow> u8 list" where
  "trim_zeros [] = []"
| "trim_zeros (x # xs) = x # rev (dropWhile (\<lambda>b. b = 0) (rev xs))"

definition next_unit :: "u8 list \<Rightarrow> (u8 list \<times> u8 list) option" where
  "next_unit data =
     (case snd (split_code data) of
        None \<Rightarrow> None
      | Some body \<Rightarrow>
          Some (trim_zeros (fst (split_code body)),
                case snd (split_code body) of
                  Some b \<Rightarrow> if 2 \<le> length b then [0, 0, 1] @ b else []
                | None \<Rightarrow> []))"

text \<open>Whether a second start code closes the first unit.\<close>

definition unit_closed :: "u8 list \<Rightarrow> bool" where
  "unit_closed data \<longleftrightarrow> (case snd (split_code data) of None \<Rightarrow> False | Some body \<Rightarrow> snd (split_code body) \<noteq> None)"

text \<open>How the splitting and the offsets of the code correspond.\<close>

definition code_at :: "u8 list \<Rightarrow> nat \<Rightarrow> bool" where
  "code_at data i \<longleftrightarrow> take 3 (drop i data) = [0, 0, 1]"

lemma code_at_nth:
  "code_at data i \<longleftrightarrow> i + 2 < length data \<and> data ! i = 0 \<and> data ! (i + 1) = 0 \<and> data ! (i + 2) = 1"
proof (cases "i + 2 < length data")
  case True
  then have "take 3 (drop i data) = [data ! i, data ! (i + 1), data ! (i + 2)]"
    by (simp add: Cons_nth_drop_Suc [symmetric] numeral_3_eq_3)
  with True show ?thesis by (simp add: code_at_def)
next
  case False
  then have "length (take 3 (drop i data)) < 3" by simp
  then have "take 3 (drop i data) \<noteq> [0, 0, 1]" by (metis length_Cons list.size(3) numeral_3_eq_3 less_irrefl)
  with False show ?thesis by (simp add: code_at_def)
qed

lemma code_at_drop: "code_at (drop i data) k \<longleftrightarrow> code_at data (i + k)"
  by (simp add: code_at_def add.commute)

lemma code_at_Cons: "code_at (x # xs) (Suc k) \<longleftrightarrow> code_at xs k"
  by (simp add: code_at_def)

lemma split_code_none:
  assumes "\<And>k. \<not> code_at xs k"
  shows "split_code xs = (xs, None)"
  using assms
proof (induction xs)
  case (Cons x xs)
  have "\<not> code_at xs k" for k using Cons.prems [of "Suc k"] by (simp add: code_at_Cons)
  moreover have "take 3 (x # xs) \<noteq> [0, 0, 1]" using Cons.prems [of 0] by (simp add: code_at_def)
  ultimately show ?case using Cons.IH by simp
qed simp

lemma split_code_some:
  assumes "code_at xs n" and "\<And>k. k < n \<Longrightarrow> \<not> code_at xs k"
  shows "split_code xs = (take n xs, Some (drop (n + 3) xs))"
  using assms
proof (induction n arbitrary: xs)
  case 0
  then show ?case by (cases xs) (simp_all add: code_at_def numeral_3_eq_3 numeral_2_eq_2)
next
  case (Suc n)
  then obtain x ys where xs: "xs = x # ys" by (cases xs) (simp_all add: code_at_def)
  have "take 3 (x # ys) \<noteq> [0, 0, 1]" using Suc.prems(2) [of 0] by (simp add: code_at_def xs)
  moreover have "\<not> code_at ys k" if "k < n" for k using Suc.prems(2) [of "Suc k"] that by (simp add: xs code_at_Cons)
  ultimately show ?case using Suc.IH [of ys] Suc.prems(1) by (simp add: xs code_at_Cons eval_nat_numeral)
qed

lemma start_code_scan_spec:
  assumes "i + 2 \<le> length data"
  shows "i \<le> start_code_scan data i \<and> start_code_scan data i + 2 \<le> length data
    \<and> (\<forall>k. i \<le> k \<and> k < start_code_scan data i \<longrightarrow> \<not> code_at data k)
    \<and> (start_code_scan data i + 2 < length data \<longrightarrow> code_at data (start_code_scan data i))"
  using assms
proof (induction data i rule: start_code_scan.induct)
  case (1 data i)
  show ?case
  proof (cases "i + 2 < length data \<and> \<not> code_at data i")
    case True
    then have step: "start_code_scan data i = start_code_scan data (i + 1)"
      by (subst start_code_scan.simps) (auto simp: code_at_nth)
    have "k = i \<or> i + 1 \<le> k" if "i \<le> k" for k using that by arith
    with "1.IH" True step show ?thesis by (fastforce simp: code_at_nth)
  next
    case False
    then have "start_code_scan data i = i" by (subst start_code_scan.simps) (auto simp: code_at_nth)
    with False "1.prems" show ?thesis by auto
  qed
qed

lemma skip_to_one_spec:
  "(\<forall>k. i \<le> k \<and> k < skip_to_one data i \<longrightarrow> k < length data \<and> data ! k \<noteq> 1)
   \<and> (skip_to_one data i < length data \<longrightarrow> data ! skip_to_one data i = 1)"
proof (induction data i rule: skip_to_one.induct)
  case (1 data i)
  show ?case
  proof (cases "i < length data \<and> data ! i \<noteq> 1")
    case True
    then have step: "skip_to_one data i = skip_to_one data (i + 1)" by (subst skip_to_one.simps) simp
    have "k = i \<or> i + 1 \<le> k" if "i \<le> k" for k using that by arith
    with "1.IH" True step show ?thesis by fastforce
  next
    case False
    then have "skip_to_one data i = i" by (subst skip_to_one.simps) auto
    with False show ?thesis by auto
  qed
qed

lemma next_start_code_spec:
  assumes "2 \<le> i"
  shows "case next_start_code data i of
      Some j \<Rightarrow> i \<le> j \<and> code_at data (j - 2) \<and> (\<forall>k. i - 2 \<le> k \<and> k < j - 2 \<longrightarrow> \<not> code_at data k)
    | None \<Rightarrow> \<forall>k \<ge> i - 2. \<not> code_at data k"
  using assms
proof (induction data i rule: next_start_code.induct)
  case (1 data i)
  let ?j = "skip_to_one data i"
  have no: "\<not> code_at data k" if "i - 2 \<le> k" "k + 2 < ?j" for k
    using skip_to_one_spec [of i data] that by (auto simp: code_at_nth)
  have ge: "i \<le> ?j" by (rule skip_to_one_ge)
  consider "length data \<le> ?j" | "?j < length data" "code_at data (?j - 2)" | "?j < length data" "\<not> code_at data (?j - 2)"
    by linarith
  then show ?case
  proof cases
    case 1
    then have "next_start_code data i = None" by (subst next_start_code.simps) simp
    moreover have "\<not> code_at data k" if "i - 2 \<le> k" for k
      using no [OF that] 1 by (cases "k + 2 < ?j") (auto simp: code_at_nth)
    ultimately show ?thesis by simp
  next
    case 2
    moreover have "?j - 2 + 1 = ?j - 1" using ge "1.prems" by linarith
    ultimately have "next_start_code data i = Some ?j"
      by (subst next_start_code.simps) (simp add: Let_def code_at_nth)
    with 2 no ge show ?thesis by auto
  next
    case 3
    have idx: "?j - 2 + 1 = ?j - 1" "?j - 2 + 2 = ?j" using ge "1.prems" by linarith+
    have one: "data ! ?j = 1" using 3(1) skip_to_one_spec [of i data] by blast
    have zeros: "\<not> (data ! (?j - 1) = 0 \<and> data ! (?j - 2) = 0)"
      using 3 one unfolding code_at_nth idx by blast
    then have step: "next_start_code data i = next_start_code data (?j + 1)"
      using 3(1) by (subst next_start_code.simps) (auto simp: Let_def)
    have low: "\<not> code_at data k" if "i - 2 \<le> k" "k < ?j + 1 - 2" for k
    proof (cases "k + 2 < ?j")
      case False
      then have "k = ?j - 2" using that(2) by linarith
      with 3(2) show ?thesis by simp
    qed (rule no [OF that(1)])
    have "k < ?j + 1 - 2 \<or> ?j + 1 - 2 \<le> k" for k by linarith
    moreover note "1.IH" [OF refl _ zeros]
    ultimately show ?thesis using 3(1) step low ge "1.prems" by (fastforce split: option.splits)
  qed
qed

lemma trim_zeros_snoc: "trim_zeros (xs @ [b]) = (if xs \<noteq> [] \<and> b = 0 then trim_zeros xs else xs @ [b])"
  by (cases xs) simp_all

lemma trim_end_spec:
  assumes "s \<le> e" and "e \<le> length data"
  shows "trim_end data s e \<le> e \<and> s \<le> trim_end data s e
    \<and> take (trim_end data s e - s) (drop s data) = trim_zeros (take (e - s) (drop s data))"
  using assms
proof (induction data s e rule: trim_end.induct)
  case (1 data s e)
  show ?case
  proof (cases "s < e")
    case False
    then show ?thesis using "1.prems" by (subst (1 2 3) trim_end.simps) simp
  next
    case True
    then have snoc: "take (e - s) (drop s data) = take (e - 1 - s) (drop s data) @ [data ! (e - 1)]"
      using "1.prems" take_Suc_conv_app_nth [of "e - 1 - s" "drop s data"] by (simp add: Suc_diff_Suc)
    have ne: "take (e - 1 - s) (drop s data) \<noteq> [] \<longleftrightarrow> s + 1 < e" using True "1.prems" by auto
    show ?thesis
    proof (cases "e > s + 1 \<and> data ! (e - 1) = 0")
      case t: True
      then have "trim_end data s e = trim_end data s (e - 1)" by (subst trim_end.simps) simp
moreover have "s \<le> e - 1" "e - 1 \<le> length data" using t "1.prems" by linarith+
      note ih = "1.IH" [OF t this]
      moreover have "trim_end data s (e - 1) \<le> e" using ih by linarith
      ultimately show ?thesis using t ne snoc by (simp add: trim_zeros_snoc)
    next
      case False
      then have "trim_end data s e = e" by (subst trim_end.simps) auto
      with False True ne snoc show ?thesis by (auto simp: trim_zeros_snoc)
    qed
  qed
qed

text \<open>The code agrees with the splitting of lists.\<close>

lemma getNextNALUnit_split:
  "getNextNALUnit follows data =
     (case next_unit data of
        Some (u, rest) \<Rightarrow>
          if unit_closed data \<or> follows then Nal_unit u rest else Nal_again data
      | None \<Rightarrow> Nal_again (if length data < 3 then data else drop (length data - 2) data))"
proof (cases "length data < 3")
  case True
  then have "split_code data = (data, None)" by (intro split_code_none) (simp add: code_at_nth)
  with True show ?thesis by (simp add: getNextNALUnit_def next_unit_def)
next
  case long: False
  let ?o = "start_code_scan data 0"
  have scan: "?o + 2 \<le> length data" "\<And>k. k < ?o \<Longrightarrow> \<not> code_at data k"
    "?o + 2 < length data \<Longrightarrow> code_at data ?o"
    using start_code_scan_spec [of 0 data] long by auto
  show ?thesis
  proof (cases "?o + 2 < length data")
    case False
    then have o: "?o = length data - 2" using scan(1) by linarith
    have "\<not> code_at data k" for k using scan(2) [of k] o by (cases "k < ?o") (auto simp: code_at_nth)
    then have "split_code data = (data, None)" by (rule split_code_none)
    with long False o show ?thesis by (simp add: getNextNALUnit_def next_unit_def Let_def)
  next
    case True
    let ?s = "?o + 3"
    have split: "split_code data = (take ?o data, Some (drop ?s data))"
      using split_code_some [OF scan(3) [OF True] scan(2)] by simp
    have near: "\<not> code_at data (?o + 1)" "\<not> code_at data (?o + 2)"
      using scan(3) [OF True] by (auto simp: code_at_nth)
    have ns: "2 \<le> ?s" by simp
    show ?thesis
    proof (cases "next_start_code data ?s")
      case None
      then have "\<not> code_at (drop ?s data) k" for k using next_start_code_spec [OF ns, of data] by (simp add: code_at_drop)
      then have body: "split_code (drop ?s data) = (drop ?s data, None)" by (rule split_code_none)
      have "?s \<le> length data" using True by simp
      note trim = trim_end_spec [OF this order_refl]
      show ?thesis
        using long True None split body trim by (simp add: getNextNALUnit_def next_unit_def unit_closed_def Let_def)
    next
      case (Some j)
      then have j: "?s \<le> j" "code_at data (j - 2)" "\<And>k. ?o + 1 \<le> k \<Longrightarrow> k < j - 2 \<Longrightarrow> \<not> code_at data k"
        using next_start_code_spec [OF ns, of data] by auto
      have js: "?s \<le> j - 2"
      proof (rule ccontr)
        assume "\<not> ?s \<le> j - 2"
        with j(1) have "j - 2 = ?o + 1 \<or> j - 2 = ?o + 2" by linarith
        with near j(2) show False by auto
      qed
      have len: "j < length data" using j(1,2) unfolding code_at_nth by linarith
      have "split_code (drop ?s data) = (take (j - 2 - ?s) (drop ?s data), Some (drop (j - 2 - ?s + 3) (drop ?s data)))"
        using j js by (intro split_code_some) (simp_all add: code_at_drop)
      moreover have "j - 2 - ?s + 3 + ?s = j + 1" using js by linarith
      ultimately have body: "split_code (drop ?s data) = (take (j - 2 - ?s) (drop ?s data), Some (drop (j + 1) data))"
        by (simp add: add.commute)
      have "take 3 (drop (j - 2) data) = [0, 0, 1]" using j(2) by (simp add: code_at_def)
      moreover have "drop (j - 2) data = take 3 (drop (j - 2) data) @ drop (j + 1) data"
        using js append_take_drop_id [of 3 "drop (j - 2) data"] by (simp add: add.commute)
      ultimately have rest: "drop (j - 2) data = [0, 0, 1] @ drop (j + 1) data" by simp
      have "j - 2 \<le> length data" using len by simp
      note trim = trim_end_spec [OF js this]
      show ?thesis
        using long True Some split body trim rest by (auto simp: getNextNALUnit_def next_unit_def unit_closed_def Let_def)
    qed
  qed
qed

lemma getNextNALUnit_next_unit:
  "getNextNALUnit True data =
     (case next_unit data of
        Some (u, rest) \<Rightarrow> Nal_unit u rest
      | None \<Rightarrow> Nal_again (if length data < 3 then data else drop (length data - 2) data))"
  by (simp add: getNextNALUnit_split split: option.split prod.split)

section \<open>Loops over the units\<close>

lemma split_code_length:
  "snd (split_code data) = Some b \<Longrightarrow> length (fst (split_code data)) + length b + 3 = length data"
proof (induction data)
  case (Cons x xs)
  then show ?case by (cases "take 3 (x # xs) = [0, 0, 1]") (auto simp: take_Suc_conv_app_nth take_Cons' split: if_splits dest!: arg_cong [where f = length])
qed simp

lemma getNextNALUnit_shorter:
  "getNextNALUnit True data = Nal_unit nal rest \<Longrightarrow> length rest < length data"
proof -
  assume "getNextNALUnit True data = Nal_unit nal rest"
  then have "next_unit data = Some (nal, rest)" by (simp add: getNextNALUnit_next_unit split: option.splits prod.splits)
  then obtain body where body: "snd (split_code data) = Some body"
    and rest: "rest = (case snd (split_code body) of Some b \<Rightarrow> if 2 \<le> length b then [0, 0, 1] @ b else [] | None \<Rightarrow> [])"
    by (auto simp: next_unit_def split: option.splits)
  note split_code_length [OF body]
  moreover have "length rest \<le> length body"
    using rest split_code_length [of body] by (auto split: option.splits)
  ultimately show ?thesis by linarith
qed

text \<open>
  The loops \<open>while (getNextNALUnit(&data, &size, &nalStart, &nalSize, true) == OK)\<close>; each round
  shortens the data.
\<close>

function FindNAL :: "u8 \<Rightarrow> u8 list \<Rightarrow> u8 list option" where
  "FindNAL nalType data =
     (case getNextNALUnit True data of
        Nal_again _ \<Rightarrow> None
      | Nal_unit nal rest \<Rightarrow>
          if length nal > 0 \<and> nal ! 0 AND 0x1f = nalType then Some nal else FindNAL nalType rest)"
  by auto
termination by (relation "measure (\<lambda>(nalType, data). length data)") (auto dest: getNextNALUnit_shorter)

function IsIDR :: "u8 list \<Rightarrow> bool" where
  "IsIDR data =
     (case getNextNALUnit True data of
        Nal_again _ \<Rightarrow> False
      | Nal_unit nal rest \<Rightarrow>
          if length nal = 0 then IsIDR rest
          else if nal ! 0 AND 0x1f = 5 then True
          else IsIDR rest)"
  by auto
termination by (relation "measure length") (auto dest: getNextNALUnit_shorter)

text \<open>The loop of \<open>IsAVCReferenceFrame\<close>; an access unit without data, a null pointer, is \<open>None\<close>.\<close>

function reference_loop :: "u8 list \<Rightarrow> bool" where
  "reference_loop data =
     (case getNextNALUnit True data of
        Nal_again _ \<Rightarrow> True
      | Nal_unit nal rest \<Rightarrow>
          if length nal = 0 then False
          else if nal ! 0 AND 0x1f = 5 then True
          else if nal ! 0 AND 0x1f = 1 then drop_bit 5 (nal ! 0) AND 3 \<noteq> 0
          else reference_loop rest)"
  by auto
termination by (relation "measure length") (auto dest: getNextNALUnit_shorter)

declare FindNAL.simps [simp del] IsIDR.simps [simp del] reference_loop.simps [simp del]

definition IsAVCReferenceFrame :: "u8 list option \<Rightarrow> bool" where
  "IsAVCReferenceFrame accessUnit = (case accessUnit of None \<Rightarrow> False | Some data \<Rightarrow> reference_loop data)"

definition FindAVCLayerId :: "u8 list \<Rightarrow> u32" where
  "FindAVCLayerId data =
     (case FindNAL 0xE (take 32 data) of
        Some svcNAL \<Rightarrow> if length svcNAL \<ge> 4 then ucast (drop_bit 5 (svcNAL ! 3) AND 7) else 0
      | None \<Rightarrow> 0)"

section \<open>Codec specific data\<close>

definition AVCProfileToString :: "u8 \<Rightarrow> string" where
  "AVCProfileToString profile =
     (if profile = 0x42 then ''Baseline'' else if profile = 0x4d then ''Main''
      else if profile = 0x58 then ''Extended'' else if profile = 0x64 then ''High''
      else if profile = 0x6e then ''High 10'' else if profile = 0x7a then ''High 422''
      else if profile = 0xf4 then ''High 444'' else if profile = 0x2c then ''CAVLC 444 Intra''
      else ''Unknown'')"

text \<open>
  \<open>None\<close> is an abort or a read outside the parameter set, \<open>Some None\<close> the null pointer of an
  access unit without parameter set. The other outputs are width and height and the sample
  aspect ratio, which an unspecified or square ratio resets to zero.
\<close>

definition MakeAVCCodecSpecificData ::
  "wide_shift \<Rightarrow> u8 list \<Rightarrow> (u8 list \<times> (int \<times> int) \<times> int \<times> int) option option" where
  "MakeAVCCodecSpecificData wide data =
     (case FindNAL 7 data of
        None \<Rightarrow> Some None
      | Some seqParamSet \<Rightarrow>
          do { ((width, height), sarWidth, sarHeight) \<leftarrow> FindAVCDimensions wide seqParamSet;
               picParamSet \<leftarrow> FindNAL 8 data;
               profile_level \<leftarrow> mem_read seqParamSet (Some 1) 3;
               let csd = [1] @ profile_level
                     @ [push_bit 2 0x3f OR 1, 0xe0 OR 1]
                     @ [word_of_nat (length seqParamSet div 256), word_of_nat (length seqParamSet mod 256)] @ seqParamSet
                     @ [1]
                     @ [word_of_nat (length picParamSet div 256), word_of_nat (length picParamSet mod 256)] @ picParamSet;
                   sar = (if sarWidth > 0 \<and> sarHeight > 0 \<and> (sarWidth \<noteq> 1 \<or> sarHeight \<noteq> 1)
                          then (sarWidth, sarHeight) else (0, 0))
               in Some (Some (csd, (width, height), sar)) })"

section \<open>The units of a stream\<close>

text \<open>What the loops run through, and the loops as searches in that list.\<close>

function nal_units :: "u8 list \<Rightarrow> u8 list list" where
  "nal_units data =
     (case getNextNALUnit True data of Nal_again _ \<Rightarrow> [] | Nal_unit nal rest \<Rightarrow> nal # nal_units rest)"
  by auto
termination by (relation "measure length") (auto dest: getNextNALUnit_shorter)

declare nal_units.simps [simp del]

definition nal_type :: "u8 list \<Rightarrow> u8" where
  "nal_type nal = nal ! 0 AND 0x1f"

lemma FindNAL_units: "FindNAL t data = find (\<lambda>u. u \<noteq> [] \<and> nal_type u = t) (nal_units data)"
proof (induction t data rule: FindNAL.induct)
  case (1 t data)
  then show ?case
    by (subst FindNAL.simps, subst nal_units.simps) (auto simp: nal_type_def split: nal_result.split)
qed

lemma IsIDR_units: "IsIDR data \<longleftrightarrow> (\<exists>u \<in> set (nal_units data). u \<noteq> [] \<and> nal_type u = 5)"
proof (induction data rule: IsIDR.induct)
  case (1 data)
  then show ?case
    by (subst IsIDR.simps, subst nal_units.simps) (auto simp: nal_type_def split: nal_result.split)
qed

text \<open>The first unit that decides: an empty one, an IDR slice or another slice.\<close>

definition decides :: "u8 list \<Rightarrow> bool" where
  "decides u \<longleftrightarrow> u = [] \<or> nal_type u = 5 \<or> nal_type u = 1"

lemma reference_units:
  "reference_loop data =
     (case find decides (nal_units data) of
        None \<Rightarrow> True
      | Some u \<Rightarrow> u \<noteq> [] \<and> (nal_type u = 5 \<or> 0 < drop_bit 5 (u ! 0) AND 3))"
proof (induction data rule: reference_loop.induct)
  case (1 data)
  then show ?case
    by (subst reference_loop.simps, subst nal_units.simps)
      (auto simp: nal_type_def decides_def [abs_def] word_neq_0_conv split: nal_result.split)
qed

section \<open>Annex B streams\<close>

text \<open>
  A unit as an encoder writes it: not empty, no start code inside and no zero byte at its end. In
  a stream every unit has a start code in front of it, itself after any number of zero bytes.
\<close>

definition unit_ok :: "u8 list \<Rightarrow> bool" where
  "unit_ok u \<longleftrightarrow> u \<noteq> [] \<and> last u \<noteq> 0 \<and> snd (split_code u) = None"

fun annexb :: "(nat \<times> u8 list) list \<Rightarrow> u8 list" where
  "annexb [] = []"
| "annexb ((n, u) # us) = replicate n 0 @ [0, 0, 1] @ u @ annexb us"

lemma code_at_append:
  assumes "u \<noteq> []" and "last u \<noteq> 0" and "k < length u" and "code_at (u @ r) k"
  shows "code_at u k"
proof -
  have at: "k + 2 < length (u @ r)" "(u @ r) ! k = 0" "(u @ r) ! (k + 1) = 0" "(u @ r) ! (k + 2) = 1"
    using assms(4) unfolding code_at_nth by blast+
  have last: "u ! (length u - 1) \<noteq> 0" using assms(1,2) by (simp add: last_conv_nth)
  have "k \<noteq> length u - 1" using at(2) last assms(3) by (auto simp: nth_append)
  moreover have "k + 1 \<noteq> length u - 1"
  proof
    assume e: "k + 1 = length u - 1"
    then have "(u @ r) ! (k + 1) = u ! (length u - 1)" using assms(1) by (simp add: nth_append)
    with at(3) last show False by simp
  qed
  ultimately have "k + 2 < length u" using assms(3) by linarith
  with at show ?thesis unfolding code_at_nth by (simp add: nth_append)
qed

lemma code_free: "snd (split_code u) = None \<Longrightarrow> \<not> code_at u k"
proof (induction u arbitrary: k)
  case (Cons x xs)
  then show ?case by (cases k) (auto simp: code_at_Cons code_at_def [of _ 0] split: if_splits)
qed (simp add: code_at_def)

lemma code_at_zeros: "k < n \<Longrightarrow> \<not> code_at (replicate n 0 @ [0, 0, 1] @ r) k"
  unfolding code_at_nth by (auto simp: nth_append nth_Cons split: nat.splits if_splits)

lemma split_code_unit:
  assumes "unit_ok u"
  shows "split_code (u @ replicate n 0 @ [0, 0, 1] @ r) = (u @ replicate n 0, Some r)"
    and "split_code (u @ replicate n 0) = (u @ replicate n 0, None)"
proof -
  have u: "u \<noteq> []" "last u \<noteq> 0" "\<And>k. \<not> code_at u k" using assms by (auto simp: unit_ok_def code_free)
  let ?r = "replicate n 0 @ [0, 0, 1] @ r"
  have "code_at (u @ ?r) (length u + n)" by (simp add: code_at_def)
  moreover have "\<not> code_at (u @ ?r) k" if "k < length u + n" for k
  proof (cases "k < length u")
    case False
    then have "\<not> code_at ?r (k - length u)" using that by (intro code_at_zeros) linarith
    with False show ?thesis using code_at_drop [of "length u" "u @ ?r" "k - length u"] by simp
  qed (use u code_at_append [of u k ?r] in blast)
  ultimately show "split_code (u @ ?r) = (u @ replicate n 0, Some r)"
    using split_code_some [of "u @ ?r" "length u + n"] by simp
  have "\<not> code_at (u @ replicate n 0) k" for k
  proof (cases "k < length u")
    case False
    then have "code_at (u @ replicate n 0) k \<longleftrightarrow> code_at (replicate n 0) (k - length u)"
      using code_at_drop [of "length u" "u @ replicate n 0" "k - length u"] by simp
    then show ?thesis unfolding code_at_nth by auto
  qed (use u code_at_append [of u k "replicate n 0"] in blast)
  then show "split_code (u @ replicate n 0) = (u @ replicate n 0, None)" by (rule split_code_none)
qed

lemma split_code_zeros: "split_code (replicate n 0 @ [0, 0, 1] @ r) = (replicate n 0, Some r)"
proof -
  have "code_at (replicate n 0 @ [0, 0, 1] @ r) n" by (simp add: code_at_def)
  from split_code_some [OF this code_at_zeros] show ?thesis by simp
qed

lemma trim_zeros_unit: "unit_ok u \<Longrightarrow> trim_zeros (u @ replicate n 0) = u"
proof (induction n)
  case 0
  then have "u = butlast u @ [last u]" "last u \<noteq> 0" by (simp_all add: unit_ok_def)
  then show ?case using trim_zeros_snoc [of "butlast u" "last u"] by auto
next
  case (Suc n)
  have "u @ replicate (Suc n) 0 = (u @ replicate n 0) @ [0]" by (simp add: replicate_append_same)
  with Suc show ?case using trim_zeros_snoc [of "u @ replicate n 0" 0] by (auto simp: unit_ok_def)
qed

lemma next_unit_stream:
  assumes "unit_ok u"
  shows "next_unit (replicate n 0 @ [0, 0, 1] @ u @ replicate m 0 @ [0, 0, 1] @ r)
      = Some (u, if 2 \<le> length r then [0, 0, 1] @ r else [])"
    and "next_unit (replicate n 0 @ [0, 0, 1] @ u @ replicate m 0) = Some (u, [])"
  using split_code_unit [OF assms] split_code_zeros trim_zeros_unit [OF assms] by (simp_all add: next_unit_def)

lemma nal_units_step:
  "nal_units data = (case next_unit data of None \<Rightarrow> [] | Some (u, rest) \<Rightarrow> u # nal_units rest)"
  by (subst nal_units.simps) (simp add: getNextNALUnit_next_unit split: option.split prod.split)

lemma nal_units_Nil: "nal_units [] = []"
  by (subst nal_units_step) (simp add: next_unit_def)

lemma nal_units_stream:
  assumes "unit_ok u" and "\<forall>(m, v) \<in> set us. unit_ok v" and "us = [] \<or> 2 \<le> length (snd (last us)) + k"
  shows "nal_units (replicate n 0 @ [0, 0, 1] @ u @ annexb us @ replicate k 0) = u # map snd us"
  using assms
proof (induction us arbitrary: n u)
  case Nil
  then show ?case using next_unit_stream(2) [of u n k] by (subst nal_units_step) (simp add: nal_units_Nil)
next
  case (Cons mv us)
  obtain m v where mv: "mv = (m, v)" by (cases mv)
  let ?r = "v @ annexb us @ replicate k 0"
  have "2 \<le> length ?r"
  proof (cases us)
    case Nil
    with Cons.prems(3) show ?thesis by (simp add: mv)
  next
    case (Cons w ws)
    then show ?thesis by (cases w) simp
  qed
  moreover have "nal_units (replicate 0 0 @ [0, 0, 1] @ ?r) = v # map snd us"
    using Cons.prems by (intro Cons.IH) (auto simp: mv split: if_splits)
  ultimately show ?case
    using next_unit_stream(1) [OF Cons.prems(1), of n m ?r] by (subst nal_units_step) (simp add: mv)
qed

text \<open>Every unit and the data behind it come from different bytes of the data.\<close>

lemma split_code_fst_length: "length (fst (split_code data)) \<le> length data"
  by (induction data) auto

lemma length_trim_zeros: "length (trim_zeros u) \<le> length u"
  by (cases u) (simp_all add: length_dropWhile_le order_trans [OF length_dropWhile_le])

lemma next_unit_length: "next_unit data = Some (u, rest) \<Longrightarrow> length u + length rest < length data"
proof -
  assume "next_unit data = Some (u, rest)"
  then obtain body where body: "snd (split_code data) = Some body" and u: "u = trim_zeros (fst (split_code body))"
    and rest: "rest = (case snd (split_code body) of Some b \<Rightarrow> if 2 \<le> length b then [0, 0, 1] @ b else [] | None \<Rightarrow> [])"
    by (auto simp: next_unit_def split: option.splits)
  have "length u + length rest \<le> length body"
    using length_trim_zeros [of "fst (split_code body)"] split_code_fst_length [of body] split_code_length [of body] rest u
    by (auto split: option.splits)
  then show ?thesis using split_code_length [OF body] by linarith
qed

text \<open>
  C11: \<open>getNextNALUnit\<close> cuts at start codes. Its scans over offsets compute exactly this: drop
  everything up to the first \<open>00 00 01\<close>; the unit is what follows, up to the next such code or
  the end, without trailing zeros; the data left starts at that next code. Unless the caller
  says that a start code follows, a unit that the data ends in is not delivered yet. Without a
  start code it reports \<open>-EAGAIN\<close> and keeps the last two bytes, which may begin one. Unit and
  remainder are together shorter than the data, so the loops over it end.
\<close>

theorem getNextNALUnit_reference:
  "getNextNALUnit follows data =
     (case next_unit data of
        Some (u, rest) \<Rightarrow>
          if unit_closed data \<or> follows then Nal_unit u rest else Nal_again data
      | None \<Rightarrow> Nal_again (if length data < 3 then data else drop (length data - 2) data))
   \<and> (case getNextNALUnit follows data of
        Nal_unit u rest \<Rightarrow> length u + length rest < length data
      | Nal_again left \<Rightarrow> length left \<le> length data)"
  using getNextNALUnit_split [of follows data] next_unit_length [of data]
  by (auto split: option.splits prod.splits)

text \<open>
  NAL streams round trip. From the stream of any sequence of units, with start codes of three
  or more bytes in front of the units and zero bytes after the last, the loops run through
  exactly the units written, in order, provided the last one has two bytes or is followed by a
  zero byte, or is the only one.
\<close>

theorem nal_stream_roundtrip:
  assumes "us \<noteq> []" and "\<forall>(n, u) \<in> set us. unit_ok u" and "length us = 1 \<or> 2 \<le> length (snd (last us)) + k"
  shows "nal_units (annexb us @ replicate k 0) = map snd us"
proof -
  obtain n u vs where us: "us = (n, u) # vs" using assms(1) by (cases us) auto
  have "nal_units (replicate n 0 @ [0, 0, 1] @ u @ annexb vs @ replicate k 0) = u # map snd vs"
    using assms(2,3) by (intro nal_units_stream) (auto simp: us split: if_splits)
  then show ?thesis by (simp add: us)
qed

theorem nal_stream_roundtrip_witness:
  "nal_units [0, 0, 0, 1, 0x67, 0x42, 0, 0, 1, 0x68, 0xCE, 0, 0, 0, 1, 0x65, 0x88, 0] = [[0x67, 0x42], [0x68, 0xCE], [0x65, 0x88]]"
  using nal_stream_roundtrip [of "[(1, [0x67, 0x42]), (0, [0x68, 0xCE]), (1, [0x65, 0x88])]" 1]
  by (simp add: unit_ok_def)

text \<open>
  A final unit of one byte is lost. Whenever a stream ends in a start code and a single byte,
  as a unit that ends the sequence or the stream does, after another unit, \<open>getNextNALUnit\<close>
  discards the byte: the loops see all units but the last.
\<close>

theorem nal_last_byte_lost:
  assumes "unit_ok u"
  shows "getNextNALUnit True (annexb [(n, u), (m, [b])]) = Nal_unit u []
    \<and> nal_units (annexb [(n, u), (m, [b])]) = [u]"
proof -
  have next_two: "next_unit (annexb [(n, u), (m, [b])]) = Some (u, [])"
    using next_unit_stream(1) [OF assms, of n m "[b]"] by simp
  show ?thesis
    unfolding nal_units_step [of "annexb _"] getNextNALUnit_next_unit next_two by (simp add: nal_units_Nil)
qed

theorem nal_last_byte_lost_witness:
  "nal_units [0, 0, 1, 0x65, 0x88, 0, 0, 1, 0x0a] = [[0x65, 0x88]]"
  using nal_last_byte_lost [of "[0x65, 0x88]" 0 0 "0x0a"] by (simp add: unit_ok_def)

text \<open>
  The searches. Over the units of an access unit, \<open>FindNAL\<close> returns the first one of the
  wanted type, \<open>IsIDR\<close> tells whether there is an IDR slice, and \<open>IsAVCReferenceFrame\<close> decides by the
  first slice: an IDR slice is a reference, another slice is one if its \<open>nal_ref_idc\<close> is not
  zero; an empty unit before it makes the answer false, no slice at all makes it true.
\<close>

theorem nal_searches:
  "FindNAL t data = find (\<lambda>u. u \<noteq> [] \<and> nal_type u = t) (nal_units data)
   \<and> IsIDR data = (\<exists>u \<in> set (nal_units data). u \<noteq> [] \<and> nal_type u = 5)
   \<and> IsAVCReferenceFrame (Some data) =
       (case find decides (nal_units data) of
          None \<Rightarrow> True
        | Some u \<Rightarrow> u \<noteq> [] \<and> (nal_type u = 5 \<or> 0 < drop_bit 5 (u ! 0) AND 3))
   \<and> \<not> IsAVCReferenceFrame None"
  by (simp add: FindNAL_units IsIDR_units reference_units IsAVCReferenceFrame_def)

section \<open>Reading codec specific data back\<close>

text \<open>
  A reader of the configuration record as ISO/IEC 14496-15 lays it out: version, profile bytes,
  length size, sequence parameter sets and picture parameter sets, each with a 16 bit length.
\<close>

fun read_sets :: "nat \<Rightarrow> u8 list \<Rightarrow> (u8 list list \<times> u8 list) option" where
  "read_sets 0 bs = Some ([], bs)"
| "read_sets (Suc n) (h # l # bs) =
     (let len = unat h * 256 + unat l
      in if length bs < len then None
         else do { (ss, r) \<leftarrow> read_sets n (drop len bs); Some (take len bs # ss, r) })"
| "read_sets (Suc n) _ = None"

fun read_avcc :: "u8 list \<Rightarrow> (u8 list \<times> nat \<times> u8 list list \<times> u8 list list) option" where
  "read_avcc (v # p # c # l # z # n # rest) =
     (if v \<noteq> 1 then None
      else do { (sps, r) \<leftarrow> read_sets (unat (n AND 0x1f)) rest;
                (pps, r) \<leftarrow> (case r of [] \<Rightarrow> None | m # r \<Rightarrow> read_sets (unat m) r);
                if r = [] then Some ([p, c, l], unat (z AND 3) + 1, sps, pps) else None })"
| "read_avcc _ = None"

lemma read_sets_one:
  assumes "length s < 2 ^ 16"
  shows "read_sets 1 (word_of_nat (length s div 256) # word_of_nat (length s mod 256) # s @ r) = Some ([s], r)"
proof -
  have "length s div 256 < 256" using assms by simp
  then have "unat (word_of_nat (length s div 256) :: u8) = length s div 256"
    by (simp add: unsigned_of_nat take_bit_nat_eq_self)
  moreover have "unat (word_of_nat (length s mod 256) :: u8) = length s mod 256"
    by (simp add: unsigned_of_nat take_bit_nat_eq_self)
  ultimately show ?thesis by (simp add: One_nat_def Let_def del: unsigned_of_nat)
qed

lemma read_avcc_record:
  assumes "length sps < 2 ^ 16" and "length pps < 2 ^ 16"
  shows "read_avcc ([1] @ [p, c, l] @ [push_bit 2 0x3f OR 1, 0xe0 OR 1]
      @ [word_of_nat (length sps div 256), word_of_nat (length sps mod 256)] @ sps
      @ [1] @ [word_of_nat (length pps div 256), word_of_nat (length pps mod 256)] @ pps)
    = Some ([p, c, l], 2, [sps], [pps])"
  using read_sets_one [OF assms(1)] read_sets_one [OF assms(2), of "[]"]
  by (simp add: Let_def del: read_sets.simps)

text \<open>Parsing succeeds only on at least five bytes, so the copy of the profile bytes is in bounds.\<close>

lemma FindAVCDimensions_list:
  assumes "wide_keeps_zero wide"
  shows "FindAVCDimensions wide (h # bytes) = avc_dimensions wide list_ops (bits_of_bytes bytes)"
proof -
  have "abr_rel wide (new_bit_reader bytes (length bytes)) (bits_of_bytes bytes)"
    using assms by (simp add: abr_rel_def new_bit_reader_wf new_bit_reader_stream)
  from abr_list.same_avc_dimensions [OF this, of wide] show ?thesis by (simp add: FindAVCDimensions_def)
qed

lemma parseUE_list_nonempty: "parseUE wide list_ops [] = None"
  by (simp add: parseUE_def list_ops_def)

lemma avc_dimensions_needs_bits:
  assumes "avc_dimensions wide list_ops bs = Some x"
  shows "24 < length bs"
proof (rule ccontr)
  assume "\<not> 24 < length bs"
  then have "drop 16 (drop 8 bs) = []" by simp
  with assms show False
    by (cases "8 \<le> length bs") (simp_all add: avc_dimensions_def list_ops_def parseUE_list_nonempty [unfolded list_ops_def])
qed

lemma profile_copy_in_bounds:
  assumes "wide_keeps_zero wide" and "FindAVCDimensions wide sps = Some x"
  shows "mem_read sps (Some 1) 3 = Some [sps ! 1, sps ! 2, sps ! 3]"
proof -
  obtain h bytes where sps: "sps = h # bytes" using assms(2) by (cases sps) (simp_all add: FindAVCDimensions_def)
  have "24 < length (bits_of_bytes bytes)"
    using assms FindAVCDimensions_list [of wide h bytes] by (intro avc_dimensions_needs_bits) (simp add: sps)
  then have "4 \<le> length sps" by (simp add: sps)
  then show ?thesis
    by (simp add: mem_read_def Cons_nth_drop_Suc [symmetric] eval_nat_numeral)
qed

text \<open>The result, once both parameter sets are found.\<close>

lemma MakeAVCCodecSpecificData_found:
  assumes "wide_keeps_zero wide" and "FindNAL 7 data = Some sps" and "FindNAL 8 data = Some pps"
    and "FindAVCDimensions wide sps = Some ((w, h), sw, sh)"
  obtains csd where "MakeAVCCodecSpecificData wide data
      = Some (Some (csd, (w, h), if sw > 0 \<and> sh > 0 \<and> (sw \<noteq> 1 \<or> sh \<noteq> 1) then (sw, sh) else (0, 0)))"
    and "length csd = 11 + length sps + length pps"
    and "length sps < 2 ^ 16 \<Longrightarrow> length pps < 2 ^ 16 \<Longrightarrow>
      read_avcc csd = Some ([sps ! 1, sps ! 2, sps ! 3], 2, [sps], [pps])"
proof -
  let ?csd = "[1] @ [sps ! 1, sps ! 2, sps ! 3] @ [push_bit 2 0x3f OR 1, 0xe0 OR 1]
      @ [word_of_nat (length sps div 256), word_of_nat (length sps mod 256)] @ sps
      @ [1] @ [word_of_nat (length pps div 256), word_of_nat (length pps mod 256)] @ pps"
  have "MakeAVCCodecSpecificData wide data
      = Some (Some (?csd, (w, h), if sw > 0 \<and> sh > 0 \<and> (sw \<noteq> 1 \<or> sh \<noteq> 1) then (sw, sh) else (0, 0)))"
    using assms(2-4) profile_copy_in_bounds [OF assms(1,4)] by (simp add: MakeAVCCodecSpecificData_def Let_def)
  then show thesis by (rule that) (use read_avcc_record [of sps pps] in simp_all)
qed

text \<open>
  Making the configuration is memory safe. \<open>MakeAVCCodecSpecificData\<close> fails only where a
  \<open>CHECK\<close> does, when the sequence parameter set does not parse or the picture parameter set is
  missing: the copy of the three profile bytes, which nothing guards, never reads outside the
  parameter set, because parsing has already consumed more than that. It returns the null
  pointer exactly when there is no sequence parameter set.
\<close>

theorem csd_memory_safe:
  assumes "wide_keeps_zero wide"
  shows "(MakeAVCCodecSpecificData wide data = None \<longleftrightarrow>
      (\<exists>sps. FindNAL 7 data = Some sps \<and> (FindAVCDimensions wide sps = None \<or> FindNAL 8 data = None)))
    \<and> (MakeAVCCodecSpecificData wide data = Some None \<longleftrightarrow> FindNAL 7 data = None)"
proof (cases "\<exists>sps x pps. FindNAL 7 data = Some sps \<and> FindAVCDimensions wide sps = Some x \<and> FindNAL 8 data = Some pps")
  case True
  then obtain sps w h sw sh pps where found: "FindNAL 7 data = Some sps" "FindNAL 8 data = Some pps"
    "FindAVCDimensions wide sps = Some ((w, h), sw, sh)" by auto
  from MakeAVCCodecSpecificData_found [OF assms found] obtain r where
    "MakeAVCCodecSpecificData wide data = Some (Some r)" by metis
  with found show ?thesis by simp
next
  case False
  then show ?thesis
    by (cases "FindNAL 7 data"; cases "FindAVCDimensions wide (the (FindNAL 7 data))"; cases "FindNAL 8 data")
      (auto simp: MakeAVCCodecSpecificData_def)
qed

theorem csd_memory_safe_witness:
  "MakeAVCCodecSpecificData (\<lambda>x k. 0) [0, 0, 1, 0x65, 0x88] = Some None"
proof -
  have "nal_units (annexb [(0, [0x65, 0x88])]) = [[0x65, 0x88]]"
    using nal_units_stream [of "[0x65, 0x88]" "[]" 0 0] by (simp add: unit_ok_def)
  then have "FindNAL 7 [0, 0, 1, 0x65, 0x88] = None" by (simp add: FindNAL_units nal_type_def)
  then show ?thesis using csd_memory_safe [of "\<lambda>x k. 0" "[0, 0, 1, 0x65, 0x88]"] by (simp add: wide_keeps_zero_def)
qed



end
