(* ===== verification/Message_Looper.thy ===== *)
theory Message_Looper
  imports Media_Prelude "HOL-Library.Multiset"
begin

text \<open>
  The message loop of stagefright: \<open>ALooper\<close>, \<open>ALooperRoster\<close>, \<open>AHandler\<close> and \<open>AReplyToken\<close>
  (\<open>media/libstagefright/foundation\<close>). The operations take the clock as an argument. Two systems
  of interleaved steps then run them: a looper thread that sleeps on its condition variable
  while other threads post and stop, and a thread that waits for the reply to a message.
  Messages are a type parameter; their contents are the subject of \<open>Message_Items\<close>.
\<close>

section \<open>The event queue\<close>

definition int64_max :: int where
  "int64_max = 2 ^ 63 - 1"

record 'm looper =
  mEventQueue :: "(int \<times> 'm) list"
  mThread :: bool
  mRunningLocally :: bool

definition new_looper :: "'m looper" where
  "new_looper = \<lparr>mEventQueue = [], mThread = False, mRunningLocally = False\<rparr>"

definition when_us :: "int \<Rightarrow> int \<Rightarrow> int" where
  "when_us nowUs delayUs =
     (if delayUs > 0 then (if delayUs > int64_max - nowUs then int64_max else nowUs + delayUs) else nowUs)"

text \<open>The loop that finds the place and the insertion.\<close>

fun insert_event :: "int \<times> 'm \<Rightarrow> (int \<times> 'm) list \<Rightarrow> (int \<times> 'm) list" where
  "insert_event e [] = [e]"
| "insert_event e (x # xs) = (if fst x \<le> fst e then x # insert_event e xs else e # x # xs)"

text \<open>Posting; the first result tells whether \<open>mQueueChangedCondition\<close> is signalled.\<close>

definition looper_post :: "int \<Rightarrow> 'm \<Rightarrow> int \<Rightarrow> 'm looper \<Rightarrow> bool \<times> 'm looper" where
  "looper_post nowUs msg delayUs l =
     (let whenUs = when_us nowUs delayUs
      in (case mEventQueue l of [] \<Rightarrow> True | e # _ \<Rightarrow> \<not> fst e \<le> whenUs,
          l\<lparr>mEventQueue := insert_event (whenUs, msg) (mEventQueue l)\<rparr>))"

text \<open>One call of \<open>loop\<close>, up to the wait or the delivery; a relative wait is in nanoseconds.\<close>

datatype 'm round = Loop_exit | Loop_wait | Loop_wait_relative int | Loop_deliver "int \<times> 'm"

definition looper_loop :: "int \<Rightarrow> 'm looper \<Rightarrow> 'm round \<times> 'm looper" where
  "looper_loop nowUs l =
     (if \<not> mThread l \<and> \<not> mRunningLocally l then (Loop_exit, l)
      else case mEventQueue l of
        [] \<Rightarrow> (Loop_wait, l)
      | e # rest \<Rightarrow>
          if fst e > nowUs
          then (let delayUs = fst e - nowUs;
                    delayUs = (if delayUs > int64_max div 1000 then int64_max div 1000 else delayUs)
                in (Loop_wait_relative (delayUs * 1000), l))
          else (Loop_deliver e, l\<lparr>mEventQueue := rest\<rparr>))"

text \<open>
  Starting and stopping. \<open>run_err\<close> is what \<open>Thread::run\<close> answers. A start on the calling thread
  goes on to call \<open>loop\<close> until it returns false. Stopping ends with a signal to the looper
  thread and a broadcast to those waiting for replies, which the systems below carry out.
\<close>

definition looper_start :: "bool \<Rightarrow> status \<Rightarrow> 'm looper \<Rightarrow> status \<times> 'm looper" where
  "looper_start runOnCallingThread run_err l =
     (if mThread l \<or> mRunningLocally l then (INVALID_OPERATION, l)
      else if runOnCallingThread then (OK, l\<lparr>mRunningLocally := True\<rparr>)
      else if run_err = OK then (OK, l\<lparr>mThread := True\<rparr>)
      else (run_err, l))"

definition looper_stop :: "'m looper \<Rightarrow> status \<times> 'm looper" where
  "looper_stop l =
     (if \<not> mThread l \<and> \<not> mRunningLocally l then (INVALID_OPERATION, l)
      else (OK, l\<lparr>mThread := False, mRunningLocally := False\<rparr>))"

section \<open>Reply tokens\<close>

record 'm reply_token =
  mReply :: "'m option"
  mReplied :: bool

definition new_reply_token :: "'m reply_token" where
  "new_reply_token = \<lparr>mReply = None, mReplied = False\<rparr>"

definition setReply :: "'m \<Rightarrow> 'm reply_token \<Rightarrow> status \<times> 'm reply_token" where
  "setReply reply tok =
     (if mReplied tok then (EBUSY, tok) else (OK, tok\<lparr>mReply := Some reply, mReplied := True\<rparr>))"

definition retrieveReply :: "'m reply_token \<Rightarrow> (bool \<times> 'm option) \<times> 'm reply_token" where
  "retrieveReply tok =
     (if mReplied tok then ((True, mReply tok), tok\<lparr>mReply := None\<rparr>) else ((False, None), tok))"

section \<open>Handlers and the roster\<close>

text \<open>
  Loopers and handlers are named by numbers; \<open>alive\<close> predicates say which weak pointers still
  can be promoted. A handler knows its id, 0 for none, and its looper.
\<close>

record handler =
  mID :: int
  mLooper :: "nat option"
  mVerboseStats :: bool
  mMessageCounter :: u32
  mMessages :: "(u32, u32) keyed_vector"

definition new_handler :: handler where
  "new_handler = \<lparr>mID = 0, mLooper = None, mVerboseStats = False, mMessageCounter = 0, mMessages = []\<rparr>"

record roster =
  mNextHandlerID :: int
  mHandlers :: "(int, nat \<times> nat) keyed_vector"
  handlers :: "nat \<Rightarrow> handler"
  verboseStats :: bool

definition new_roster :: roster where
  "new_roster = \<lparr>mNextHandlerID = 1, mHandlers = [], handlers = (\<lambda>_. new_handler), verboseStats = False\<rparr>"

definition setID :: "int \<Rightarrow> nat option \<Rightarrow> nat \<Rightarrow> roster \<Rightarrow> roster" where
  "setID i looper h r = r\<lparr>handlers := (handlers r)(h := handlers r h\<lparr>mID := i, mLooper := looper\<rparr>)\<rparr>"

text \<open>A second registration fails a \<open>CHECK\<close>: \<open>None\<close>.\<close>

definition registerHandler :: "nat \<Rightarrow> nat \<Rightarrow> roster \<Rightarrow> (int \<times> roster) option" where
  "registerHandler looper h r =
     (if mID (handlers r h) \<noteq> 0 then None
      else let handlerID = mNextHandlerID r;
               r = r\<lparr>mNextHandlerID := wrap_i32 (handlerID + 1), mHandlers := kv_add handlerID (looper, h) (mHandlers r)\<rparr>
           in Some (handlerID, setID handlerID (Some looper) h r))"

definition kv_remove :: "'k \<Rightarrow> ('k, 'v) keyed_vector \<Rightarrow> ('k, 'v) keyed_vector" where
  "kv_remove k m = filter (\<lambda>p. fst p \<noteq> k) m"

definition unregisterHandler :: "(nat \<Rightarrow> bool) \<Rightarrow> int \<Rightarrow> roster \<Rightarrow> roster" where
  "unregisterHandler handler_alive handlerID r =
     (case map_of (mHandlers r) handlerID of
        None \<Rightarrow> r
      | Some (looper, h) \<Rightarrow>
          let r = (if handler_alive h then setID 0 None h r else r)
          in r\<lparr>mHandlers := kv_remove handlerID (mHandlers r)\<rparr>)"

definition unregisterStaleHandlers :: "(nat \<Rightarrow> bool) \<Rightarrow> roster \<Rightarrow> roster" where
  "unregisterStaleHandlers looper_alive r =
     r\<lparr>mHandlers := filter (\<lambda>(i, looper, h). looper_alive looper) (mHandlers r)\<rparr>"

text \<open>Counting a delivered message; what the handler does with it is its own.\<close>

definition deliverMessage :: "u32 \<Rightarrow> handler \<Rightarrow> handler" where
  "deliverMessage what h =
     (let h = h\<lparr>mMessageCounter := mMessageCounter h + 1\<rparr>
      in if mVerboseStats h
         then h\<lparr>mMessages := (case map_of (mMessages h) what of
                                None \<Rightarrow> kv_add what 1 (mMessages h)
                              | Some _ \<Rightarrow> kv_edit what (\<lambda>n. n + 1) (mMessages h))\<rparr>
         else h)"

text \<open>What \<open>dump\<close> does to the statistics, besides printing them.\<close>

fun dump_args :: "string list \<Rightarrow> bool \<times> bool \<Rightarrow> bool \<times> bool" where
  "dump_args [] cv = cv"
| "dump_args (a # args) (clear, verbose) =
     dump_args args
       (if a = ''-c'' then (True, verbose) else if a = ''-von'' then (clear, True)
        else if a = ''-voff'' then (clear, False) else (clear, verbose))"

definition dump_handler :: "bool \<Rightarrow> bool \<Rightarrow> bool \<Rightarrow> handler \<Rightarrow> handler" where
  "dump_handler clear verbose oldVerbose h =
     (let h = h\<lparr>mVerboseStats := verbose\<rparr>;
          h = (if verbose then h else h\<lparr>mMessages := []\<rparr>)
      in if clear \<or> (verbose \<and> \<not> oldVerbose) then h\<lparr>mMessageCounter := 0, mMessages := []\<rparr> else h)"

definition roster_dump :: "(nat \<Rightarrow> bool) \<Rightarrow> (nat \<Rightarrow> bool) \<Rightarrow> string list \<Rightarrow> roster \<Rightarrow> roster" where
  "roster_dump looper_alive handler_alive args r =
     (let (clear, verbose) = dump_args args (False, verboseStats r)
      in fold (\<lambda>(i, looper, h) r.
                 if looper_alive looper \<and> handler_alive h
                 then r\<lparr>handlers := (handlers r)(h := dump_handler clear verbose (verboseStats r) (handlers r h))\<rparr>
                 else r)
           (mHandlers r) r \<lparr>verboseStats := verbose\<rparr>)"

section \<open>A looper thread among posting threads\<close>

text \<open>
  The thread that runs \<open>loop\<close> is off, about to call it, or asleep, until a time or for ever. The
  lists record what was posted and what was delivered, with the time of delivery. A wait may
  end spuriously. \<open>stop\<close> clears the thread under the lock and signals afterwards; between the two
  other threads may run. The next start comes when the old thread has ended.
\<close>

datatype sleeper = Off | Ready | Asleep "int option"

record 'm loop_system =
  lp :: "'m looper"
  clock :: int
  sleeper :: sleeper
  signal_due :: bool
  posted :: "(int \<times> 'm) list"
  delivered :: "(int \<times> int \<times> 'm) list"

definition wake :: "sleeper \<Rightarrow> sleeper" where
  "wake x = (case x of Asleep _ \<Rightarrow> Ready | _ \<Rightarrow> x)"

definition loop_init :: "'m loop_system \<Rightarrow> bool" where
  "loop_init s \<longleftrightarrow> lp s = new_looper \<and> 0 \<le> clock s \<and> clock s \<le> int64_max \<and> sleeper s = Off \<and> \<not> signal_due s
     \<and> posted s = [] \<and> delivered s = []"

text \<open>What a call of \<open>loop\<close> does to the system.\<close>

definition run_round :: "'m loop_system \<Rightarrow> 'm loop_system" where
  "run_round s =
     (let (r, l) = looper_loop (clock s) (lp s); s = s\<lparr>lp := l\<rparr>
      in case r of
           Loop_exit \<Rightarrow> s\<lparr>sleeper := Off\<rparr>
         | Loop_wait \<Rightarrow> s\<lparr>sleeper := Asleep None\<rparr>
         | Loop_wait_relative ns \<Rightarrow> s\<lparr>sleeper := Asleep (Some (clock s + ns div 1000))\<rparr>
         | Loop_deliver e \<Rightarrow> s\<lparr>delivered := delivered s @ [(clock s, e)]\<rparr>)"

inductive loop_step :: "'m loop_system \<Rightarrow> 'm loop_system \<Rightarrow> bool" where
  tick: "clock s \<le> t \<Longrightarrow> t \<le> int64_max \<Longrightarrow> loop_step s (s\<lparr>clock := t\<rparr>)"
| post: "looper_post (clock s) m delay (lp s) = (sig, l) \<Longrightarrow>
    loop_step s (s\<lparr>lp := l, posted := posted s @ [(when_us (clock s) delay, m)],
      sleeper := if sig then wake (sleeper s) else sleeper s\<rparr>)"
| round: "sleeper s = Ready \<Longrightarrow> loop_step s (run_round s)"
| timeout: "sleeper s = Asleep (Some t) \<Longrightarrow> t \<le> clock s \<Longrightarrow> loop_step s (s\<lparr>sleeper := Ready\<rparr>)"
| spurious: "sleeper s = Asleep d \<Longrightarrow> loop_step s (s\<lparr>sleeper := Ready\<rparr>)"
| start: "looper_start here err (lp s) = (OK, l) \<Longrightarrow> sleeper s = Off \<Longrightarrow>
    loop_step s (s\<lparr>lp := l, sleeper := Ready\<rparr>)"
| stop: "looper_stop (lp s) = (OK, l) \<Longrightarrow> loop_step s (s\<lparr>lp := l, signal_due := True\<rparr>)"
| stop_signal: "signal_due s \<Longrightarrow> loop_step s (s\<lparr>signal_due := False, sleeper := wake (sleeper s)\<rparr>)"

inductive_cases loop_stepE: "loop_step s t"

text \<open>Inserting after equal times is what a stable sort does with a last element.\<close>

lemma mset_insert_event: "mset (insert_event e xs) = add_mset e (mset xs)"
  by (induction xs) auto

lemma sorted_insert_event:
  "sorted (map fst xs) \<Longrightarrow> sorted (map fst (insert_event e xs))"
proof (induction xs)
  case (Cons x xs)
  have "set (insert_event e xs) = insert e (set xs)"
    using mset_insert_event [of e xs] by (metis set_mset_add_mset_insert set_mset_mset)
  with Cons show ?case by auto
qed simp

lemma filter_insert_event:
  "sorted (map fst xs) \<Longrightarrow>
   filter (\<lambda>x. fst x = k) (insert_event e xs) = filter (\<lambda>x. fst x = k) xs @ (if fst e = k then [e] else [])"
proof (induction xs)
  case (Cons x xs)
  have "filter (\<lambda>y. fst y = k) (x # xs) = []" if "\<not> fst x \<le> fst e" "fst e = k"
    using that Cons.prems by (auto simp: filter_empty_conv)
  with Cons show ?case by auto
qed simp

lemma insert_event_sort: "insert_event e (sort_key fst xs) = sort_key fst (xs @ [e])"
proof (rule properties_for_sort_key [symmetric])
  show "mset (insert_event e (sort_key fst xs)) = mset (xs @ [e])" by (simp add: mset_insert_event)
  show "sorted (map fst (insert_event e (sort_key fst xs)))" by (simp add: sorted_insert_event)
  show "filter (\<lambda>x. fst k = fst x) (insert_event e (sort_key fst xs)) = filter (\<lambda>x. fst k = fst x) (xs @ [e])" for k
    using sort_key_stable [of fst "fst k" xs] by (simp add: filter_insert_event eq_commute [of "fst k"])
qed

lemma insert_event_append:
  "(\<And>x. x \<in> set xs \<Longrightarrow> fst x \<le> fst e) \<Longrightarrow> insert_event e (xs @ ys) = xs @ insert_event e ys"
  by (induction xs) auto

lemma when_us_bounds: "now \<le> int64_max \<Longrightarrow> now \<le> when_us now delay \<and> when_us now delay \<le> int64_max"
  by (auto simp: when_us_def)

text \<open>
  The invariant. The events delivered and queued are the posted ones in stable order of their
  times, nothing is delivered early, and a thread that sleeps while the looper runs has nothing
  queued or sleeps no longer than until the first event; if the looper was stopped, the signal
  is on its way.
\<close>

definition loop_running :: "'m loop_system \<Rightarrow> bool" where
  "loop_running s \<longleftrightarrow> mThread (lp s) \<or> mRunningLocally (lp s)"

definition sleep_ok :: "'m loop_system \<Rightarrow> bool" where
  "sleep_ok s \<longleftrightarrow> (\<forall>d. sleeper s = Asleep d \<longrightarrow>
     (if loop_running s
      then case d of None \<Rightarrow> mEventQueue (lp s) = []
           | Some t \<Rightarrow> mEventQueue (lp s) \<noteq> [] \<and> t \<le> fst (hd (mEventQueue (lp s)))
      else signal_due s))"

definition loop_inv :: "'m loop_system \<Rightarrow> bool" where
  "loop_inv s \<longleftrightarrow> clock s \<le> int64_max
     \<and> map snd (delivered s) @ mEventQueue (lp s) = sort_key fst (posted s)
     \<and> (\<forall>(t, w, m) \<in> set (delivered s). w \<le> t \<and> t \<le> clock s)
     \<and> sleep_ok s"

lemma round_delay:
  assumes "fst e > now" and "d = (if fst e - now > int64_max div 1000 then int64_max div 1000 else fst e - now)"
  shows "now + d * 1000 div 1000 \<le> fst e" and "0 < d * 1000" and "d * 1000 \<le> int64_max"
proof -
  have "0 < int64_max div 1000" "int64_max div 1000 * 1000 \<le> int64_max" by (simp_all add: int64_max_def)
  with assms show "now + d * 1000 div 1000 \<le> fst e" "0 < d * 1000" "d * 1000 \<le> int64_max"
    by (auto split: if_splits)
qed

lemma loop_inv_round:
  assumes "loop_inv s" and "sleeper s = Ready"
  shows "loop_inv (run_round s)"
proof (cases "mEventQueue (lp s)")
  case Nil
  with assms show ?thesis
    by (auto simp: loop_inv_def sleep_ok_def run_round_def looper_loop_def loop_running_def)
next
  case (Cons e rest)
  show ?thesis
  proof (cases "loop_running s \<and> fst e > clock s")
    case True
    with assms Cons show ?thesis
      by (auto simp: loop_inv_def sleep_ok_def run_round_def looper_loop_def loop_running_def Let_def
        intro: round_delay(1))
  next
    case False
    with assms Cons show ?thesis
      by (auto simp: loop_inv_def sleep_ok_def run_round_def looper_loop_def loop_running_def)
  qed
qed

lemma loop_inv_post:
  assumes inv: "loop_inv s" and post: "looper_post (clock s) m delay (lp s) = (sig, l)"
  shows "loop_inv (s\<lparr>lp := l, posted := posted s @ [(when_us (clock s) delay, m)],
      sleeper := if sig then wake (sleeper s) else sleeper s\<rparr>)"
proof -
  let ?e = "(when_us (clock s) delay, m)"
  have l: "l = lp s\<lparr>mEventQueue := insert_event ?e (mEventQueue (lp s))\<rparr>"
    and sig: "sig = (case mEventQueue (lp s) of [] \<Rightarrow> True | e # _ \<Rightarrow> \<not> fst e \<le> when_us (clock s) delay)"
    using post by (auto simp: looper_post_def Let_def)
  have "w \<le> fst ?e" if "(t, w, m) \<in> set (delivered s)" for t w m
    using inv that when_us_bounds [of "clock s" delay] by (force simp: loop_inv_def)
  then have "insert_event ?e (map snd (delivered s) @ mEventQueue (lp s))
      = map snd (delivered s) @ insert_event ?e (mEventQueue (lp s))"
    by (intro insert_event_append) auto
  moreover have "insert_event ?e (map snd (delivered s) @ mEventQueue (lp s)) = sort_key fst (posted s @ [?e])"
    using inv by (simp add: loop_inv_def insert_event_sort)
  ultimately show ?thesis
    using inv unfolding loop_inv_def sleep_ok_def loop_running_def l sig
    by (auto simp: wake_def split: list.splits sleeper.splits option.splits if_splits)
qed

lemma loop_inv_step:
  assumes "loop_inv s" and "loop_step s t"
  shows "loop_inv t"
  using assms(2)
proof (cases rule: loop_step.cases)
  case (post m delay sig l)
  with assms(1) show ?thesis by (simp add: loop_inv_post)
next
  case round
  with assms(1) show ?thesis by (simp add: loop_inv_round)
next
  case (tick u)
  have "sleep_ok (s\<lparr>clock := u\<rparr>) = sleep_ok s"
    by (simp add: sleep_ok_def loop_running_def cong: option.case_cong)
  with tick assms(1) show ?thesis unfolding loop_inv_def by (auto intro: order_trans)
next
  case (start here err l)
  with assms(1) show ?thesis
    by (auto simp: loop_inv_def sleep_ok_def loop_running_def looper_start_def split: if_splits)
next
  case (stop l)
  with assms(1) show ?thesis
    by (auto simp: loop_inv_def sleep_ok_def loop_running_def looper_stop_def split: if_splits)
next
  case stop_signal
  with assms(1) show ?thesis
    by (auto simp: loop_inv_def sleep_ok_def loop_running_def wake_def split: sleeper.splits)
qed (use assms(1) in \<open>auto simp: loop_inv_def sleep_ok_def loop_running_def\<close>)

interpretation looping: invariant_system loop_init loop_step loop_inv
proof
  show "loop_init s \<Longrightarrow> loop_inv s" for s :: "'m loop_system"
    by (simp add: loop_init_def loop_inv_def sleep_ok_def new_looper_def)
  show "loop_inv s \<Longrightarrow> loop_step s t \<Longrightarrow> loop_inv t" for s t :: "'m loop_system"
    by (rule loop_inv_step)
qed

text \<open>
  C5: messages are delivered in order. However posts with any delays, clock, looper rounds,
  starts and stops interleave, the events delivered so far followed by those still queued are
  exactly the posted ones sorted by their times, with equal times in the order of posting: none
  is lost, none is delivered twice, and none before its time.
\<close>

theorem looper_delivers_in_order:
  assumes "loop_init s" and "loop_step\<^sup>*\<^sup>* s t"
  shows "map snd (delivered t) @ mEventQueue (lp t) = sort_key fst (posted t)
    \<and> (\<forall>(time, w, m) \<in> set (delivered t). w \<le> time)"
  using looping.reachable_inv [OF assms] by (auto simp: loop_inv_def)

text \<open>
  A run with four messages: the second is delayed past the third, which ties with the fourth.
\<close>

definition idle_system :: "int \<Rightarrow> nat loop_system" where
  "idle_system now = \<lparr>lp = new_looper, clock = now, sleeper = Off, signal_due = False, posted = [], delivered = []\<rparr>"

definition do_post :: "nat \<Rightarrow> int \<Rightarrow> nat loop_system \<Rightarrow> nat loop_system" where
  "do_post m delay s =
     (let (sig, l) = looper_post (clock s) m delay (lp s)
      in s\<lparr>lp := l, posted := posted s @ [(when_us (clock s) delay, m)], sleeper := if sig then wake (sleeper s) else sleeper s\<rparr>)"

lemma do_post_step: "loop_step s (do_post m delay s)"
proof -
  obtain sig l where "looper_post (clock s) m delay (lp s) = (sig, l)" by fastforce
  from loop_step.post [OF this] this show ?thesis by (simp add: do_post_def)
qed

lemma busy_run:
  "loop_step\<^sup>*\<^sup>* (idle_system 100) (do_post 4 (- 3) (do_post 3 0 (do_post 2 50 (do_post 1 0 (idle_system 100)))))"
  by (rule rtranclp.rtrancl_into_rtrancl, rule rtranclp.rtrancl_into_rtrancl, rule rtranclp.rtrancl_into_rtrancl,
      rule rtranclp.rtrancl_into_rtrancl, rule rtranclp.rtrancl_refl; rule do_post_step)

theorem looper_delivers_in_order_witness:
  "map snd (mEventQueue (lp (do_post 4 (- 3) (do_post 3 0 (do_post 2 50 (do_post 1 0 (idle_system 100))))))) = [1, 3, 4, 2]"
proof -
  have "loop_init (idle_system 100)" by (simp add: loop_init_def idle_system_def int64_max_def)
  from looper_delivers_in_order [OF this busy_run]
  show ?thesis
    by (simp add: do_post_def idle_system_def looper_post_def new_looper_def when_us_def int64_max_def Let_def)
qed

text \<open>
  The looper thread does not oversleep. Whenever it sleeps while the looper runs and some
  message is due, its wait has run out: it never sleeps for ever over a non-empty queue, and
  inserting an earlier message wakes it. Once the looper is stopped, a sleeping thread has the
  signal still to come. The relative wait it asks for is positive and in the range of \<open>int64_t\<close>.
\<close>

theorem looper_does_not_oversleep:
  assumes "loop_init s" and "loop_step\<^sup>*\<^sup>* s t" and "sleeper t = Asleep d"
  shows "(\<not> loop_running t \<longrightarrow> signal_due t)
    \<and> (loop_running t \<and> (\<exists>(w, m) \<in> set (mEventQueue (lp t)). w \<le> clock t) \<longrightarrow> (\<exists>u. d = Some u \<and> u \<le> clock t))
    \<and> (\<forall>now l ns. looper_loop now l = (Loop_wait_relative ns, l) \<longrightarrow> 0 < ns \<and> ns \<le> int64_max)"
proof (intro conjI impI allI)
  note inv = looping.reachable_inv [OF assms(1,2)]
  from inv assms(3) show "\<not> loop_running t \<Longrightarrow> signal_due t"
    by (auto simp: loop_inv_def sleep_ok_def)
  assume due: "loop_running t \<and> (\<exists>(w, m) \<in> set (mEventQueue (lp t)). w \<le> clock t)"
  then have nonempty: "mEventQueue (lp t) \<noteq> []" by auto
  have "sorted (map fst (map snd (delivered t) @ mEventQueue (lp t)))"
    using inv by (simp add: loop_inv_def del: map_append)
  then have "sorted (map fst (mEventQueue (lp t)))" by (simp add: sorted_append)
  then have "fst (hd (mEventQueue (lp t))) \<le> clock t"
    using due nonempty by (cases "mEventQueue (lp t)") auto
  then show "\<exists>u. d = Some u \<and> u \<le> clock t"
    using inv due nonempty assms(3) by (auto simp: loop_inv_def sleep_ok_def split: option.splits)
next
  fix now l ns
  assume "looper_loop now l = (Loop_wait_relative ns, l)"
  then obtain e rest where "mEventQueue l = e # rest" "fst e > now"
    "ns = (if fst e - now > int64_max div 1000 then int64_max div 1000 else fst e - now) * 1000"
    by (auto simp: looper_loop_def Let_def split: if_splits list.splits)
  then show "0 < ns" and "ns \<le> int64_max" using round_delay(2,3) [OF _ refl, of now e] by blast+
qed

theorem looper_does_not_oversleep_witness:
  "\<exists>t :: nat loop_system. loop_step\<^sup>*\<^sup>* (idle_system 100) t \<and> mEventQueue (lp t) = [(150, 7)]
     \<and> (\<exists>u. sleeper t = Asleep (Some u) \<and> u \<le> clock t)"
proof -
  define a where "a = do_post 7 50 (idle_system 100)"
  define b where "b = a\<lparr>lp := (lp a)\<lparr>mThread := True\<rparr>, sleeper := Ready\<rparr>"
  define c where "c = run_round b"
  define t where "t = c\<lparr>clock := 150\<rparr>"
  have c: "sleeper c = Asleep (Some 150)" "clock c = 100" "mThread (lp c)" "mEventQueue (lp c) = [(150, 7)]"
    by (simp_all add: c_def b_def a_def run_round_def looper_loop_def do_post_def idle_system_def looper_post_def
      new_looper_def when_us_def int64_max_def wake_def Let_def)
  have "loop_step (idle_system 100) a" unfolding a_def by (rule do_post_step)
  moreover have "loop_step a b" unfolding b_def
    by (rule loop_step.start [where here = False and err = OK])
      (simp_all add: looper_start_def a_def do_post_def idle_system_def looper_post_def new_looper_def wake_def Let_def)
  moreover have "loop_step b c" unfolding c_def by (rule loop_step.round) (simp add: b_def)
  moreover have "loop_step c t" unfolding t_def by (rule loop_step.tick) (simp_all add: c int64_max_def)
  ultimately have run: "loop_step\<^sup>*\<^sup>* (idle_system 100) t" by (meson converse_rtranclp_into_rtranclp rtranclp.rtrancl_refl)
  have "loop_init (idle_system 100)" by (simp add: loop_init_def idle_system_def int64_max_def)
  from looper_does_not_oversleep [OF this run, of "Some 150"] c run show ?thesis
    by (intro exI [of _ t]) (auto simp: t_def loop_running_def)
qed

section \<open>Waiting for a reply\<close>

text \<open>
  One thread waits in \<open>awaitResponse\<close>, others post replies to its token and one stops the looper.
  The waiter holds \<open>mRepliesLock\<close> while it tests the token and then, under \<open>mLock\<close>, the thread;
  the wait gives the lock up. \<open>setReply\<close> with its broadcast is one critical section under
  \<open>mRepliesLock\<close>; \<open>stop\<close> clears the thread under \<open>mLock\<close> alone and takes \<open>mRepliesLock\<close> only for the
  broadcast.
\<close>

datatype 'm waiter = W_enter | W_locked | W_tested | W_waiting | W_done status "'m option"

datatype stopper = S_before | S_cleared | S_done

record 'm reply_system =
  token :: "'m reply_token"
  has_thread :: bool
  waiter :: "'m waiter"
  stopper :: stopper
  replies :: "('m \<times> status) list"

definition reply_init :: "'m reply_system \<Rightarrow> bool" where
  "reply_init s \<longleftrightarrow> token s = new_reply_token \<and> waiter s = W_enter \<and> stopper s = S_before \<and> replies s = []"

definition holds_lock :: "'m waiter \<Rightarrow> bool" where
  "holds_lock w \<longleftrightarrow> w = W_locked \<or> w = W_tested"

definition broadcast :: "'m waiter \<Rightarrow> 'm waiter" where
  "broadcast w = (if w = W_waiting then W_enter else w)"

text \<open>The two tests of the loop in \<open>awaitResponse\<close>.\<close>

definition await_test :: "'m reply_system \<Rightarrow> 'm reply_system" where
  "await_test s =
     (let ((got, r), tok) = retrieveReply (token s)
      in s\<lparr>token := tok, waiter := if got then W_done OK r else W_tested\<rparr>)"

definition await_thread :: "'m reply_system \<Rightarrow> 'm reply_system" where
  "await_thread s = s\<lparr>waiter := if has_thread s then W_waiting else W_done ENOENT None\<rparr>"

definition post_reply :: "'m \<Rightarrow> 'm reply_system \<Rightarrow> 'm reply_system" where
  "post_reply m s =
     (let (err, tok) = setReply m (token s)
      in s\<lparr>token := tok, replies := replies s @ [(m, err)], waiter := if err = OK then broadcast (waiter s) else waiter s\<rparr>)"

inductive reply_step :: "'m reply_system \<Rightarrow> 'm reply_system \<Rightarrow> bool" where
  lock: "waiter s = W_enter \<Longrightarrow> reply_step s (s\<lparr>waiter := W_locked\<rparr>)"
| test: "waiter s = W_locked \<Longrightarrow> reply_step s (await_test s)"
| thread: "waiter s = W_tested \<Longrightarrow> reply_step s (await_thread s)"
| spurious: "waiter s = W_waiting \<Longrightarrow> reply_step s (s\<lparr>waiter := W_enter\<rparr>)"
| reply: "\<not> holds_lock (waiter s) \<Longrightarrow> reply_step s (post_reply m s)"
| clear: "stopper s = S_before \<Longrightarrow> reply_step s (s\<lparr>has_thread := False, stopper := S_cleared\<rparr>)"
| stopped: "stopper s = S_cleared \<Longrightarrow> \<not> holds_lock (waiter s) \<Longrightarrow>
    reply_step s (s\<lparr>stopper := S_done, waiter := broadcast (waiter s)\<rparr>)"

definition reply_inv :: "'m reply_system \<Rightarrow> bool" where
  "reply_inv s \<longleftrightarrow>
     (mReplied (token s) \<longleftrightarrow> replies s \<noteq> [])
     \<and> (\<forall>i < length (replies s). snd (replies s ! i) = (if i = 0 then OK else EBUSY))
     \<and> (waiter s = W_tested \<or> waiter s = W_waiting \<longrightarrow> \<not> mReplied (token s))
     \<and> (waiter s = W_waiting \<longrightarrow> has_thread s \<or> stopper s = S_cleared)
     \<and> (\<forall>r. waiter s = W_done OK r \<longrightarrow> replies s \<noteq> [] \<and> r = Some (fst (hd (replies s))))
     \<and> ((\<forall>r. waiter s \<noteq> W_done OK r) \<and> mReplied (token s) \<longrightarrow> mReply (token s) = Some (fst (hd (replies s))))
     \<and> (\<forall>e r. waiter s = W_done e r \<longrightarrow> e = OK \<or> e = ENOENT \<and> r = None \<and> \<not> has_thread s)"

lemma reply_inv_step:
  assumes "reply_inv s" and "reply_step s t"
  shows "reply_inv t"
  using assms(2)
proof (cases rule: reply_step.cases)
  case test
  with assms(1) show ?thesis
    by (cases "mReplied (token s)") (auto simp: reply_inv_def await_test_def retrieveReply_def)
next
  case thread
  with assms(1) show ?thesis by (auto simp: reply_inv_def await_thread_def)
next
  case (reply m)
  then have w: "waiter s \<noteq> W_tested" "waiter s \<noteq> W_locked" by (auto simp: holds_lock_def)
  show ?thesis
  proof (cases "mReplied (token s)")
    case True
    with reply assms(1) show ?thesis
      by (auto simp: reply_inv_def post_reply_def setReply_def nth_append less_Suc_eq)
  next
    case False
    then have "\<And>r. waiter s \<noteq> W_done OK r" using assms(1) by (auto simp: reply_inv_def)
    with False reply w assms(1) show ?thesis
      by (auto simp: reply_inv_def post_reply_def setReply_def broadcast_def)
  qed
next
  case stopped
  with assms(1) show ?thesis by (auto simp: reply_inv_def broadcast_def)
qed (use assms(1) in \<open>auto simp: reply_inv_def\<close>)

interpretation replying: invariant_system reply_init reply_step reply_inv
proof
  show "reply_init s \<Longrightarrow> reply_inv s" for s :: "'m reply_system"
    by (simp add: reply_init_def reply_inv_def new_reply_token_def)
  show "reply_inv s \<Longrightarrow> reply_step s t \<Longrightarrow> reply_inv t" for s t :: "'m reply_system"
    by (rule reply_inv_step)
qed

text \<open>
  C24: nobody waits in vain. In every interleaving of the waiting thread with replies and a stop,
  the waiter sleeps only while no reply is there and the looper has its thread or the broadcast
  of the stop is still to come; so after a reply, and after a completed stop, it never sleeps.
  It returns \<open>OK\<close> exactly with the first reply posted, or \<open>-ENOENT\<close> when the looper has no thread;
  every further reply is refused with \<open>-EBUSY\<close>.
\<close>

theorem reply_never_lost:
  assumes "reply_init s" and "reply_step\<^sup>*\<^sup>* s t"
  shows "(waiter t = W_waiting \<longrightarrow> replies t = [] \<and> (has_thread t \<or> stopper t = S_cleared))
    \<and> (\<forall>e r. waiter t = W_done e r \<longrightarrow>
         e = OK \<and> replies t \<noteq> [] \<and> r = Some (fst (hd (replies t))) \<or> e = ENOENT \<and> r = None \<and> \<not> has_thread t)
    \<and> (\<forall>i < length (replies t). snd (replies t ! i) = (if i = 0 then OK else EBUSY))"
  using replying.reachable_inv [OF assms] unfolding reply_inv_def by blast

definition fresh_wait :: "nat reply_system" where
  "fresh_wait = \<lparr>token = new_reply_token, has_thread = True, waiter = W_enter, stopper = S_before, replies = []\<rparr>"

text \<open>Two replies arrive while the thread waits; it gets the first.\<close>

theorem reply_never_lost_witness:
  "\<exists>t. reply_step\<^sup>*\<^sup>* fresh_wait t \<and> waiter t = W_done OK (Some 5) \<and> replies t = [(5, OK), (6, EBUSY)]
     \<and> (\<exists>r. waiter t = W_done OK r \<and> r = Some (fst (hd (replies t))))"
proof -
  define w where "w = fresh_wait\<lparr>waiter := W_waiting\<rparr>"
  define l where "l = (post_reply 6 (post_reply 5 w))\<lparr>waiter := W_locked\<rparr>"
  have "reply_step fresh_wait (fresh_wait\<lparr>waiter := W_locked\<rparr>)" by (rule reply_step.lock) (simp add: fresh_wait_def)
  moreover have "reply_step (fresh_wait\<lparr>waiter := W_locked\<rparr>) (fresh_wait\<lparr>waiter := W_tested\<rparr>)"
    using reply_step.test [of "fresh_wait\<lparr>waiter := W_locked\<rparr>"]
    by (simp add: fresh_wait_def await_test_def retrieveReply_def new_reply_token_def)
  moreover have "reply_step (fresh_wait\<lparr>waiter := W_tested\<rparr>) w"
    using reply_step.thread [of "fresh_wait\<lparr>waiter := W_tested\<rparr>"] by (simp add: w_def fresh_wait_def await_thread_def)
  moreover have "reply_step w (post_reply 5 w)" by (rule reply_step.reply) (simp add: w_def holds_lock_def)
  moreover have "reply_step (post_reply 5 w) (post_reply 6 (post_reply 5 w))"
    by (rule reply_step.reply)
      (simp add: w_def fresh_wait_def post_reply_def setReply_def new_reply_token_def broadcast_def holds_lock_def)
  moreover have "reply_step (post_reply 6 (post_reply 5 w)) l" unfolding l_def
    by (rule reply_step.lock) (simp add: w_def fresh_wait_def post_reply_def setReply_def new_reply_token_def broadcast_def)
  moreover have "reply_step l (await_test l)" by (rule reply_step.test) (simp add: l_def)
  ultimately have run: "reply_step\<^sup>*\<^sup>* fresh_wait (await_test l)"
    by (meson converse_rtranclp_into_rtranclp rtranclp.rtrancl_refl)
  have "reply_init fresh_wait" by (simp add: reply_init_def fresh_wait_def)
  from reply_never_lost [OF this run]
  have "\<forall>e r. waiter (await_test l) = W_done e r \<longrightarrow> e = OK \<and> r = Some (fst (hd (replies (await_test l)))) \<or> e = ENOENT"
    by blast
  moreover have "waiter (await_test l) = W_done OK (Some 5) \<and> replies (await_test l) = [(5, OK), (6, EBUSY)]"
    by (simp add: l_def w_def fresh_wait_def await_test_def retrieveReply_def post_reply_def setReply_def new_reply_token_def)
  ultimately show ?thesis using run by auto
qed

section \<open>The roster\<close>

text \<open>
  Ids are positive and below the next one, the map is ordered, and whoever is entered under an id
  carries that id; a registered handler is entered under it, unless its looper has gone.
\<close>

definition roster_inv :: "roster \<Rightarrow> bool" where
  "roster_inv r \<longleftrightarrow> kv_wf (mHandlers r) \<and> 0 < mNextHandlerID r
     \<and> (\<forall>(i, l, h) \<in> set (mHandlers r). 0 < i \<and> i < mNextHandlerID r \<and> mID (handlers r h) = i \<and> mLooper (handlers r h) = Some l)
     \<and> (\<forall>h. 0 \<le> mID (handlers r h) \<and> mID (handlers r h) < mNextHandlerID r)"

lemma roster_invD:
  assumes "roster_inv r"
  shows "(i, l, h) \<in> set (mHandlers r) \<Longrightarrow>
      0 < i \<and> i < mNextHandlerID r \<and> mID (handlers r h) = i \<and> mLooper (handlers r h) = Some l"
    and "0 \<le> mID (handlers r h)" and "mID (handlers r h) < mNextHandlerID r" and "0 < mNextHandlerID r"
    and "kv_wf (mHandlers r)"
  using assms unfolding roster_inv_def by blast+

lemma roster_invI:
  assumes "kv_wf (mHandlers r)" and "0 < mNextHandlerID r"
    and "\<And>i l h. (i, l, h) \<in> set (mHandlers r) \<Longrightarrow>
      0 < i \<and> i < mNextHandlerID r \<and> mID (handlers r h) = i \<and> mLooper (handlers r h) = Some l"
    and "\<And>h. 0 \<le> mID (handlers r h) \<and> mID (handlers r h) < mNextHandlerID r"
  shows "roster_inv r"
  using assms unfolding roster_inv_def by blast

lemma kv_wf_filter: "kv_wf m \<Longrightarrow> kv_wf (filter P m)"
  by (simp add: kv_wf_def sorted_wrt_map sorted_wrt_filter)

lemma set_kv_add_new:
  "k \<notin> fst ` set m \<Longrightarrow> set (kv_add k v m) = insert (k, v) (set m)"
  by (induction k v m rule: kv_add.induct) auto

lemma roster_inv_register:
  assumes "roster_inv r" and "mNextHandlerID r < 2 ^ 31 - 1" and "registerHandler l h r = Some (i, r')"
  shows "roster_inv r'" and "i \<notin> fst ` set (mHandlers r)" and "i \<notin> range (\<lambda>h. mID (handlers r h))"
    and "map_of (mHandlers r') = (map_of (mHandlers r))(i \<mapsto> (l, h))" and "mID (handlers r' h) = i \<and> i \<noteq> 0"
proof -
  have i: "i = mNextHandlerID r" and zero: "mID (handlers r h) = 0"
    and r': "r' = setID i (Some l) h (r\<lparr>mNextHandlerID := i + 1, mHandlers := kv_add i (l, h) (mHandlers r)\<rparr>)"
    using assms by (auto simp: registerHandler_def Let_def wrap_i32_nonneg roster_inv_def split: if_splits)
  show new: "i \<notin> fst ` set (mHandlers r)" "i \<notin> range (\<lambda>h. mID (handlers r h))"
    using assms(1) by (force simp: roster_inv_def i)+
  have other: "h' \<noteq> h" if "(j, l', h') \<in> set (mHandlers r)" for j l' h'
    using assms(1) that zero by (force simp: roster_inv_def)
  show "map_of (mHandlers r') = (map_of (mHandlers r))(i \<mapsto> (l, h))"
    by (rule ext) (simp add: r' setID_def map_of_kv_add)
  show "mID (handlers r' h) = i \<and> i \<noteq> 0" using assms(1) by (simp add: r' setID_def i roster_inv_def)
  note D = roster_invD [OF assms(1)]
  show "roster_inv r'"
  proof (rule roster_invI)
    show "kv_wf (mHandlers r')" using D(5) by (simp add: r' setID_def kv_wf_add)
    show "0 < mNextHandlerID r'" using D(4) by (simp add: r' setID_def i)
    show "0 \<le> mID (handlers r' k) \<and> mID (handlers r' k) < mNextHandlerID r'" for k
      using D(2,3) [of k] D(4) by (simp add: r' setID_def i)
    fix j l' h'
    assume "(j, l', h') \<in> set (mHandlers r')"
    then consider "j = i" "l' = l" "h' = h" | "(j, l', h') \<in> set (mHandlers r)"
      by (auto simp: r' setID_def set_kv_add_new [OF new(1)])
    then show "0 < j \<and> j < mNextHandlerID r' \<and> mID (handlers r' h') = j \<and> mLooper (handlers r' h') = Some l'"
    proof cases
      case 1
      then show ?thesis using D(4) by (simp add: r' setID_def i)
    next
      case 2
      with D(1) [OF 2] other [OF 2] show ?thesis by (simp add: r' setID_def i)
    qed
  qed
qed

lemma roster_inv_unregister:
  assumes "roster_inv r"
  shows "roster_inv (unregisterHandler alive i r)"
proof (cases "map_of (mHandlers r) i")
  case None
  with assms show ?thesis by (simp add: unregisterHandler_def)
next
  case (Some lh)
  obtain l h where lh: "lh = (l, h)" by (cases lh)
  have id: "mID (handlers r h) = i" using assms Some map_of_SomeD [OF Some] by (auto simp: roster_inv_def lh)
  let ?r = "unregisterHandler alive i r"
  have entries: "mHandlers ?r = filter (\<lambda>p. fst p \<noteq> i) (mHandlers r)" and next_id: "mNextHandlerID ?r = mNextHandlerID r"
    and same: "\<And>h'. h' \<noteq> h \<Longrightarrow> handlers ?r h' = handlers r h'"
    and ids: "\<And>h'. mID (handlers ?r h') = mID (handlers r h') \<or> mID (handlers ?r h') = 0"
    by (auto simp: unregisterHandler_def setID_def kv_remove_def Some lh)
  note D = roster_invD [OF assms]
  show ?thesis
  proof (rule roster_invI)
    show "kv_wf (mHandlers ?r)" using D(5) by (simp add: entries kv_wf_filter)
    show "0 < mNextHandlerID ?r" using D(4) by (simp add: next_id)
    show "0 \<le> mID (handlers ?r k) \<and> mID (handlers ?r k) < mNextHandlerID ?r" for k
      using ids [of k] D(2,3) [of k] D(4) by (auto simp: next_id)
    fix j l' h'
    assume "(j, l', h') \<in> set (mHandlers ?r)"
    then have j: "(j, l', h') \<in> set (mHandlers r)" "j \<noteq> i" by (auto simp: entries)
    then have "h' \<noteq> h" using D(1) [OF j(1)] id by auto
    with D(1) [OF j(1)] show "0 < j \<and> j < mNextHandlerID ?r \<and> mID (handlers ?r h') = j \<and> mLooper (handlers ?r h') = Some l'"
      by (simp add: same next_id)
  qed
qed

lemma roster_inv_stale: "roster_inv r \<Longrightarrow> roster_inv (unregisterStaleHandlers alive r)"
  by (auto simp: roster_inv_def unregisterStaleHandlers_def kv_wf_filter)

lemma dump_fold_keeps:
  assumes "roster_inv r"
  shows "roster_inv (fold (\<lambda>(i, looper, h) r.
      if looper_alive looper \<and> handler_alive h
      then r\<lparr>handlers := (handlers r)(h := dump_handler clear verbose (verboseStats r) (handlers r h))\<rparr> else r) xs r)"
  using assms
proof (induction xs arbitrary: r)
  case (Cons x xs)
  obtain i l h where x: "x = (i, l, h)" by (cases x)
  have "mID (dump_handler clear verbose old k) = mID k" "mLooper (dump_handler clear verbose old k) = mLooper k" for old k
    by (simp_all add: dump_handler_def Let_def)
  then have "roster_inv (r\<lparr>handlers := (handlers r)(h := dump_handler clear verbose (verboseStats r) (handlers r h))\<rparr>)"
    using Cons.prems by (auto simp: roster_inv_def)
  with Cons show ?case by (simp add: x)
qed simp

lemma roster_inv_dump: "roster_inv r \<Longrightarrow> roster_inv (roster_dump la ha args r)"
proof -
  assume "roster_inv r"
  note dump_fold_keeps [OF this]
  moreover have "roster_inv (r'\<lparr>verboseStats := v\<rparr>) = roster_inv r'" for r' v by (simp add: roster_inv_def)
  ultimately show ?thesis by (auto simp: roster_dump_def split: prod.split)
qed

text \<open>
  Handler ids. As long as the ids last, every operation of the roster keeps it consistent. A
  registration hands out an id that no entry and no handler has, enters the handler under it
  and leaves the other entries alone; registering the handler again fails its \<open>CHECK\<close>; after
  \<open>unregisterHandler\<close> the entry is gone and the handler is free again.
\<close>

theorem roster_ids_unique:
  assumes "roster_inv r" and "mNextHandlerID r < 2 ^ 31 - 1" and "mID (handlers r h) = 0" and "alive h"
  shows "\<exists>i r'. registerHandler l h r = Some (i, r') \<and> roster_inv r'
    \<and> i \<notin> fst ` set (mHandlers r) \<and> i \<notin> range (\<lambda>h. mID (handlers r h))
    \<and> map_of (mHandlers r') = (map_of (mHandlers r))(i \<mapsto> (l, h))
    \<and> registerHandler l2 h r' = None
    \<and> map_of (mHandlers (unregisterHandler alive i r')) i = None \<and> mID (handlers (unregisterHandler alive i r') h) = 0
    \<and> roster_inv (unregisterHandler alive i r') \<and> roster_inv (unregisterStaleHandlers alive2 r')
    \<and> roster_inv (roster_dump la ha args r')"
proof -
  obtain i r' where reg: "registerHandler l h r = Some (i, r')" using assms(3) by (simp add: registerHandler_def Let_def)
  note new = roster_inv_register [OF assms(1,2) reg]
  have entry: "map_of (mHandlers r') i = Some (l, h)" using new(4) by simp
  have "map_of (mHandlers (unregisterHandler alive i r')) i = None"
    by (auto simp: unregisterHandler_def setID_def kv_remove_def entry map_of_eq_None_iff)
  moreover have "mID (handlers (unregisterHandler alive i r') h) = 0"
    using assms(4) by (simp add: unregisterHandler_def setID_def entry)
  moreover have "registerHandler l2 h r' = None" using new(5) by (simp add: registerHandler_def)
  ultimately show ?thesis
    using reg new roster_inv_unregister [OF new(1)] roster_inv_stale [OF new(1)] roster_inv_dump [OF new(1)] by blast
qed

theorem roster_ids_unique_witness:
  "\<exists>i r'. registerHandler 0 3 new_roster = Some (i, r') \<and> roster_inv r' \<and> registerHandler 1 3 r' = None"
proof -
  have "roster_inv new_roster" by (simp add: roster_inv_def new_roster_def new_handler_def)
  from roster_ids_unique [OF this, of 3 "\<lambda>_. True" 0 1 "\<lambda>_. True" "\<lambda>_. True" "\<lambda>_. True" "[]"] show ?thesis
    by (auto simp: new_roster_def new_handler_def)
qed

end
