(* ===== verification/Message_Items.thy ===== *)
theory Message_Items
  imports Message_Looper "HOL-Library.Monad_Syntax"
begin

text \<open>
  \<open>AMessage\<close> of \<open>media/libstagefright/foundation\<close>: a message with up to 64 named items of eleven
  types, its target, and its transfer through a \<open>Parcel\<close>. Nested messages are values: nothing
  here depends on two messages sharing a nested one. Floating point numbers are their bit
  patterns, and the conversions and comparisons of the hardware are parameters; so are the
  \<open>Parcel\<close> of the platform and the handlers that are alive. A \<open>CHECK\<close> that fails and a null pointer
  that is dereferenced are \<open>None\<close>.
\<close>

section \<open>Items and messages\<close>

datatype amsg_type = kTypeInt32 | kTypeInt64 | kTypeSize | kTypeFloat | kTypeDouble | kTypePointer
  | kTypeString | kTypeObject | kTypeMessage | kTypeRect | kTypeBuffer

text \<open>A buffer has a size and, unless its data pointer is null, that many bytes.\<close>

datatype abuffer = ABuffer nat "u8 list option"

text \<open>The handler id, handler and looper that a message is for.\<close>

record target =
  mTarget :: int
  mHandler :: "nat option"
  mLooperRef :: "nat option"

datatype 'o amessage = AMessage (msg_what: u32) (msg_target: target) (msg_items: "(string \<times> 'o item) list")
and 'o item =
    Int32 u32 | Int64 u64 | Size u64 | Float u32 | Double u64 | Pointer u64
  | Str string | Object "'o option" | Message "'o amessage option" | Rect u32 u32 u32 u32 | Buffer "abuffer option"

fun item_type :: "'o item \<Rightarrow> amsg_type" where
  "item_type (Int32 _) = kTypeInt32"
| "item_type (Int64 _) = kTypeInt64"
| "item_type (Size _) = kTypeSize"
| "item_type (Float _) = kTypeFloat"
| "item_type (Double _) = kTypeDouble"
| "item_type (Pointer _) = kTypePointer"
| "item_type (Str _) = kTypeString"
| "item_type (Object _) = kTypeObject"
| "item_type (Message _) = kTypeMessage"
| "item_type (Rect _ _ _ _) = kTypeRect"
| "item_type (Buffer _) = kTypeBuffer"

definition no_target :: target where
  "no_target = \<lparr>mTarget = 0, mHandler = None, mLooperRef = None\<rparr>"

definition empty_message :: "'o amessage" where
  "empty_message = AMessage 0 no_target []"

definition setWhat :: "u32 \<Rightarrow> 'o amessage \<Rightarrow> 'o amessage" where
  "setWhat what m = AMessage what (msg_target m) (msg_items m)"

text \<open>\<open>env\<close> gives the handlers that are alive. The id and looper are those the handler has now.\<close>

definition target_of :: "(nat \<Rightarrow> handler option) \<Rightarrow> nat option \<Rightarrow> target" where
  "target_of env h =
     (case h of
        None \<Rightarrow> no_target
      | Some n \<Rightarrow> (case env n of
                     None \<Rightarrow> no_target
                   | Some k \<Rightarrow> \<lparr>mTarget = mID k, mHandler = Some n, mLooperRef = mLooper k\<rparr>))"

definition setTarget :: "(nat \<Rightarrow> handler option) \<Rightarrow> nat option \<Rightarrow> 'o amessage \<Rightarrow> 'o amessage" where
  "setTarget env h m = AMessage (msg_what m) (target_of env h) (msg_items m)"

definition new_message :: "(nat \<Rightarrow> handler option) \<Rightarrow> u32 \<Rightarrow> nat option \<Rightarrow> 'o amessage" where
  "new_message env what h = AMessage what (target_of env h) []"

definition with_items :: "'o amessage \<Rightarrow> (string \<times> 'o item) list \<Rightarrow> 'o amessage" where
  "with_items m items = AMessage (msg_what m) (msg_target m) items"

definition clear :: "'o amessage \<Rightarrow> 'o amessage" where
  "clear m = with_items m []"

definition kMaxNumItems :: nat where
  "kMaxNumItems = 64"

definition countEntries :: "'o amessage \<Rightarrow> nat" where
  "countEntries m = length (msg_items m)"

section \<open>Finding and setting items\<close>

fun find_index :: "string \<Rightarrow> (string \<times> 'v) list \<Rightarrow> nat" where
  "find_index name [] = 0"
| "find_index name ((n, v) # items) =
     (if length name = length n \<and> n = name then 0 else Suc (find_index name items))"

definition findItemIndex :: "string \<Rightarrow> 'o amessage \<Rightarrow> nat" where
  "findItemIndex name m = find_index name (msg_items m)"

text \<open>
  The slot for a name: the present one, its value freed and its type cleared, or a new one. The
  callers store a value there at once.
\<close>

definition allocateItem :: "string \<Rightarrow> 'o amessage \<Rightarrow> (nat \<times> 'o amessage) option" where
  "allocateItem name m =
     (let i = findItemIndex name m
      in if i < countEntries m then Some (i, with_items m ((msg_items m)[i := (name, Int32 0)]))
         else if countEntries m < kMaxNumItems
         then Some (countEntries m, with_items m (msg_items m @ [(name, Int32 0)]))
         else None)"

definition store_at :: "nat \<Rightarrow> 'o item \<Rightarrow> 'o amessage \<Rightarrow> 'o amessage" where
  "store_at i v m = with_items m ((msg_items m)[i := (fst (msg_items m ! i), v)])"

text \<open>The setters: \<open>setInt32\<close> and its like, \<open>setString\<close>, \<open>setRect\<close>, \<open>setMessage\<close>, \<open>setObjectInternal\<close>.\<close>

definition set_value :: "string \<Rightarrow> 'o item \<Rightarrow> 'o amessage \<Rightarrow> 'o amessage option" where
  "set_value name v m = do { (i, m) \<leftarrow> allocateItem name m; Some (store_at i v m) }"

definition findItem :: "string \<Rightarrow> amsg_type \<Rightarrow> 'o amessage \<Rightarrow> 'o item option" where
  "findItem name type m =
     (let i = findItemIndex name m
      in if i < countEntries m
         then (if item_type (snd (msg_items m ! i)) = type then Some (snd (msg_items m ! i)) else None)
         else None)"

definition contains :: "string \<Rightarrow> 'o amessage \<Rightarrow> bool" where
  "contains name m \<longleftrightarrow> findItemIndex name m < countEntries m"

definition c_str :: "string \<Rightarrow> string" where
  "c_str s = takeWhile (\<lambda>c. c \<noteq> CHR 0x00) s"

text \<open>The typed setters and finders.\<close>

definition setInt32 :: "string \<Rightarrow> u32 \<Rightarrow> 'o amessage \<Rightarrow> 'o amessage option" where
  "setInt32 name value = set_value name (Int32 value)"

definition setInt64 :: "string \<Rightarrow> u64 \<Rightarrow> 'o amessage \<Rightarrow> 'o amessage option" where
  "setInt64 name value = set_value name (Int64 value)"

definition setSize :: "string \<Rightarrow> u64 \<Rightarrow> 'o amessage \<Rightarrow> 'o amessage option" where
  "setSize name value = set_value name (Size value)"

definition setFloat :: "string \<Rightarrow> u32 \<Rightarrow> 'o amessage \<Rightarrow> 'o amessage option" where
  "setFloat name value = set_value name (Float value)"

definition setDouble :: "string \<Rightarrow> u64 \<Rightarrow> 'o amessage \<Rightarrow> 'o amessage option" where
  "setDouble name value = set_value name (Double value)"

definition setPointer :: "string \<Rightarrow> u64 \<Rightarrow> 'o amessage \<Rightarrow> 'o amessage option" where
  "setPointer name value = set_value name (Pointer value)"

text \<open>A negative length takes the characters up to the terminating zero, \<open>s\<close> being those in memory.\<close>

definition setString :: "string \<Rightarrow> string \<Rightarrow> int \<Rightarrow> 'o amessage \<Rightarrow> 'o amessage option" where
  "setString name s len = set_value name (Str (if len < 0 then c_str s else take (nat len) s))"

definition setObject :: "string \<Rightarrow> 'o option \<Rightarrow> 'o amessage \<Rightarrow> 'o amessage option" where
  "setObject name obj = set_value name (Object obj)"

definition setBuffer :: "string \<Rightarrow> abuffer option \<Rightarrow> 'o amessage \<Rightarrow> 'o amessage option" where
  "setBuffer name buffer = set_value name (Buffer buffer)"

definition setMessage :: "string \<Rightarrow> 'o amessage option \<Rightarrow> 'o amessage \<Rightarrow> 'o amessage option" where
  "setMessage name obj = set_value name (Message obj)"

definition setRect :: "string \<Rightarrow> u32 \<Rightarrow> u32 \<Rightarrow> u32 \<Rightarrow> u32 \<Rightarrow> 'o amessage \<Rightarrow> 'o amessage option" where
  "setRect name l t r b = set_value name (Rect l t r b)"

definition findInt32 :: "string \<Rightarrow> 'o amessage \<Rightarrow> u32 option" where
  "findInt32 name m = (case findItem name kTypeInt32 m of Some (Int32 x) \<Rightarrow> Some x | _ \<Rightarrow> None)"

definition findInt64 :: "string \<Rightarrow> 'o amessage \<Rightarrow> u64 option" where
  "findInt64 name m = (case findItem name kTypeInt64 m of Some (Int64 x) \<Rightarrow> Some x | _ \<Rightarrow> None)"

definition findSize :: "string \<Rightarrow> 'o amessage \<Rightarrow> u64 option" where
  "findSize name m = (case findItem name kTypeSize m of Some (Size x) \<Rightarrow> Some x | _ \<Rightarrow> None)"

definition findFloat :: "string \<Rightarrow> 'o amessage \<Rightarrow> u32 option" where
  "findFloat name m = (case findItem name kTypeFloat m of Some (Float x) \<Rightarrow> Some x | _ \<Rightarrow> None)"

definition findDouble :: "string \<Rightarrow> 'o amessage \<Rightarrow> u64 option" where
  "findDouble name m = (case findItem name kTypeDouble m of Some (Double x) \<Rightarrow> Some x | _ \<Rightarrow> None)"

definition findPointer :: "string \<Rightarrow> 'o amessage \<Rightarrow> u64 option" where
  "findPointer name m = (case findItem name kTypePointer m of Some (Pointer x) \<Rightarrow> Some x | _ \<Rightarrow> None)"

definition findString :: "string \<Rightarrow> 'o amessage \<Rightarrow> string option" where
  "findString name m = (case findItem name kTypeString m of Some (Str x) \<Rightarrow> Some x | _ \<Rightarrow> None)"

definition findObject :: "string \<Rightarrow> 'o amessage \<Rightarrow> 'o option option" where
  "findObject name m = (case findItem name kTypeObject m of Some (Object x) \<Rightarrow> Some x | _ \<Rightarrow> None)"

definition findBuffer :: "string \<Rightarrow> 'o amessage \<Rightarrow> abuffer option option" where
  "findBuffer name m = (case findItem name kTypeBuffer m of Some (Buffer x) \<Rightarrow> Some x | _ \<Rightarrow> None)"

definition findMessage :: "string \<Rightarrow> 'o amessage \<Rightarrow> 'o amessage option option" where
  "findMessage name m = (case findItem name kTypeMessage m of Some (Message x) \<Rightarrow> Some x | _ \<Rightarrow> None)"

definition findRect :: "string \<Rightarrow> 'o amessage \<Rightarrow> (u32 \<times> u32 \<times> u32 \<times> u32) option" where
  "findRect name m = (case findItem name kTypeRect m of Some (Rect a b c d) \<Rightarrow> Some (a, b, c, d) | _ \<Rightarrow> None)"

text \<open>The conversions of the hardware: what the code uses of them.\<close>

record float_ops =
  f64_to_f32 :: "u64 \<Rightarrow> u32"
  i64_to_f32 :: "u64 \<Rightarrow> u32"
  i32_to_f32 :: "u32 \<Rightarrow> u32"
  size_to_f32 :: "u64 \<Rightarrow> u32"
  size_to_f64 :: "u64 \<Rightarrow> u64"
  f32_differs :: "u32 \<Rightarrow> u32 \<Rightarrow> bool"
  f64_differs :: "u64 \<Rightarrow> u64 \<Rightarrow> bool"
  f32_as_size :: "u32 \<Rightarrow> u64"

definition findAsFloat :: "float_ops \<Rightarrow> string \<Rightarrow> 'o amessage \<Rightarrow> u32 option" where
  "findAsFloat fo name m =
     (let i = findItemIndex name m
      in if i < countEntries m
         then (case snd (msg_items m ! i) of
                 Float x \<Rightarrow> Some x
               | Double x \<Rightarrow> Some (f64_to_f32 fo x)
               | Int64 x \<Rightarrow> Some (i64_to_f32 fo x)
               | Int32 x \<Rightarrow> Some (i32_to_f32 fo x)
               | Size x \<Rightarrow> Some (size_to_f32 fo x)
               | _ \<Rightarrow> None)
         else None)"

definition findAsInt64 :: "string \<Rightarrow> 'o amessage \<Rightarrow> u64 option" where
  "findAsInt64 name m =
     (let i = findItemIndex name m
      in if i < countEntries m
         then (case snd (msg_items m ! i) of Int64 x \<Rightarrow> Some x | Int32 x \<Rightarrow> Some (scast x) | _ \<Rightarrow> None)
         else None)"

section \<open>Entries by index\<close>

definition findEntryByName :: "string option \<Rightarrow> 'o amessage \<Rightarrow> nat" where
  "findEntryByName name m = (case name of None \<Rightarrow> countEntries m | Some n \<Rightarrow> findItemIndex n m)"

definition getEntryNameAt :: "nat \<Rightarrow> 'o amessage \<Rightarrow> string option \<times> amsg_type" where
  "getEntryNameAt index m =
     (if index \<ge> countEntries m then (None, kTypeInt32)
      else (Some (fst (msg_items m ! index)), item_type (snd (msg_items m ! index))))"

text \<open>\<open>ItemData\<close> is a value of one of the types or unused, \<open>None\<close>.\<close>

definition getEntryAt :: "nat \<Rightarrow> 'o amessage \<Rightarrow> 'o item option" where
  "getEntryAt index m = (if index < countEntries m then Some (snd (msg_items m ! index)) else None)"

definition setEntryNameAt :: "nat \<Rightarrow> string option \<Rightarrow> 'o amessage \<Rightarrow> status \<times> 'o amessage" where
  "setEntryNameAt index name m =
     (if index \<ge> countEntries m then (BAD_INDEX, m)
      else case name of
        None \<Rightarrow> (BAD_VALUE, m)
      | Some n \<Rightarrow>
          if n = fst (msg_items m ! index) then (OK, m)
          else if findItemIndex n m < countEntries m then (ALREADY_EXISTS, m)
          else (OK, with_items m ((msg_items m)[index := (n, snd (msg_items m ! index))])))"

text \<open>A used item has one of the eleven types, so the branch for \<open>BAD_TYPE\<close> is not reached.\<close>

definition setEntryAt :: "nat \<Rightarrow> 'o item option \<Rightarrow> 'o amessage \<Rightarrow> status \<times> 'o amessage" where
  "setEntryAt index item m =
     (if index \<ge> countEntries m then (BAD_INDEX, m)
      else case item of None \<Rightarrow> (BAD_VALUE, m) | Some v \<Rightarrow> (OK, store_at index v m))"

text \<open>The last entry takes the place of the removed one.\<close>

definition removeEntryAt :: "nat \<Rightarrow> 'o amessage \<Rightarrow> status \<times> 'o amessage" where
  "removeEntryAt index m =
     (if index \<ge> countEntries m then (BAD_INDEX, m)
      else let n = countEntries m - 1
           in (OK, with_items m (take n (if index < n then (msg_items m)[index := msg_items m ! n] else msg_items m))))"

definition setItem :: "string \<Rightarrow> 'o item option \<Rightarrow> 'o amessage \<Rightarrow> 'o amessage option" where
  "setItem name item m =
     (if item \<noteq> None then do { (i, m) \<leftarrow> allocateItem name m; Some (snd (setEntryAt i item m)) } else Some m)"

definition findItemData :: "string option \<Rightarrow> 'o amessage \<Rightarrow> 'o item option" where
  "findItemData name m = getEntryAt (findEntryByName name m) m"

text \<open>\<open>extend\<close>, for another message than the receiver itself.\<close>

fun extend_loop :: "(string \<times> 'o item) list \<Rightarrow> 'o amessage \<Rightarrow> 'o amessage option" where
  "extend_loop [] m = Some m"
| "extend_loop ((name, v) # items) m =
     do { (i, m) \<leftarrow> allocateItem name m; extend_loop items (snd (setEntryAt i (Some v) m)) }"

definition amsg_extend :: "'o amessage option \<Rightarrow> 'o amessage \<Rightarrow> 'o amessage option" where
  "amsg_extend other m = (case other of None \<Rightarrow> Some m | Some x \<Rightarrow> extend_loop (msg_items x) m)"

section \<open>Posting and replying\<close>

definition amsg_deliver :: "(nat \<Rightarrow> handler option) \<Rightarrow> 'o amessage \<Rightarrow> (nat \<times> handler) option" where
  "amsg_deliver env m =
     (case mHandler (msg_target m) of
        None \<Rightarrow> None
      | Some h \<Rightarrow> map_option (\<lambda>k. (h, deliverMessage (msg_what m) k)) (env h))"

definition live_looper :: "(nat \<Rightarrow> bool) \<Rightarrow> 'o amessage \<Rightarrow> nat option" where
  "live_looper looper_alive m =
     (case mLooperRef (msg_target m) of None \<Rightarrow> None | Some l \<Rightarrow> if looper_alive l then Some l else None)"

type_synonym 'o loopers = "nat \<Rightarrow> 'o amessage looper"

definition amsg_post :: "(nat \<Rightarrow> bool) \<Rightarrow> int \<Rightarrow> int \<Rightarrow> 'o amessage \<Rightarrow> 'o loopers \<Rightarrow> status \<times> 'o loopers" where
  "amsg_post looper_alive now delayUs m loopers =
     (case live_looper looper_alive m of
        None \<Rightarrow> (ENOENT, loopers)
      | Some l \<Rightarrow> (OK, loopers(l := snd (looper_post now m delayUs (loopers l)))))"

text \<open>
  \<open>postAndAwaitResponse\<close> up to the wait: the new token is put into the message, which is posted
  without delay. The wait is the system of \<open>Message_Looper\<close>.
\<close>

definition postAndAwaitResponse ::
  "(nat \<Rightarrow> bool) \<Rightarrow> 'o \<Rightarrow> int \<Rightarrow> 'o amessage \<Rightarrow> 'o loopers \<Rightarrow> (status \<times> 'o amessage \<times> 'o loopers) option" where
  "postAndAwaitResponse looper_alive tok now m loopers =
     (case live_looper looper_alive m of
        None \<Rightarrow> Some (ENOENT, m, loopers)
      | Some l \<Rightarrow>
          do { m \<leftarrow> setObject ''replyID'' (Some tok) m;
               Some (OK, m, loopers(l := snd (looper_post now m 0 (loopers l)))) })"

definition amsg_postReply ::
  "bool \<Rightarrow> 'm \<Rightarrow> 'm reply_token option \<Rightarrow> status \<times> 'm reply_token option" where
  "amsg_postReply looper_alive reply tok =
     (case tok of
        None \<Rightarrow> (ENOENT, None)
      | Some k \<Rightarrow> if \<not> looper_alive then (ENOENT, tok) else (let (e, k) = setReply reply k in (e, Some k)))"

text \<open>The token is taken out of the message: its item stays, as a null object.\<close>

definition senderAwaitsResponse :: "'o amessage \<Rightarrow> (bool \<times> 'o option) \<times> 'o amessage option" where
  "senderAwaitsResponse m =
     (case findObject ''replyID'' m of
        Some tok \<Rightarrow> ((tok \<noteq> None, tok), setObject ''replyID'' None m)
      | None \<Rightarrow> ((False, None), Some m))"

section \<open>Copying\<close>

text \<open>References are followed to count them, also null ones.\<close>

fun dup :: "(nat \<Rightarrow> handler option) \<Rightarrow> 'o amessage \<Rightarrow> 'o amessage option"
  and dup_item :: "(nat \<Rightarrow> handler option) \<Rightarrow> 'o item \<Rightarrow> 'o item option"
  and dup_items :: "(nat \<Rightarrow> handler option) \<Rightarrow> (string \<times> 'o item) list \<Rightarrow> (string \<times> 'o item) list option" where
  "dup env (AMessage what tgt items) =
     do { items \<leftarrow> dup_items env items; Some (AMessage what (target_of env (mHandler tgt)) items) }"
| "dup_item env (Object None) = None"
| "dup_item env (Buffer None) = None"
| "dup_item env (Message None) = None"
| "dup_item env (Message (Some m)) = do { m \<leftarrow> dup env m; Some (Message (Some m)) }"
| "dup_item env v = Some v"
| "dup_items env [] = Some []"
| "dup_items env ((n, v) # items) =
     do { v \<leftarrow> dup_item env v; items \<leftarrow> dup_items env items; Some ((n, v) # items) }"

section \<open>Parcels\<close>

text \<open>The \<open>Parcel\<close> of the platform: what is written to it and read from it in order.\<close>

record 'p parcel_ops =
  writeInt32 :: "u32 \<Rightarrow> 'p \<Rightarrow> 'p"
  writeInt64 :: "u64 \<Rightarrow> 'p \<Rightarrow> 'p"
  writeFloat :: "u32 \<Rightarrow> 'p \<Rightarrow> 'p"
  writeDouble :: "u64 \<Rightarrow> 'p \<Rightarrow> 'p"
  writeCString :: "string \<Rightarrow> 'p \<Rightarrow> 'p"
  readInt32 :: "'p \<Rightarrow> u32 \<times> 'p"
  readInt64 :: "'p \<Rightarrow> u64 \<times> 'p"
  readFloat :: "'p \<Rightarrow> u32 \<times> 'p"
  readDouble :: "'p \<Rightarrow> u64 \<times> 'p"
  readCString :: "'p \<Rightarrow> string option \<times> 'p"

fun type_code :: "amsg_type \<Rightarrow> u32" where
  "type_code kTypeInt32 = 0"
| "type_code kTypeInt64 = 1"
| "type_code kTypeSize = 2"
| "type_code kTypeFloat = 3"
| "type_code kTypeDouble = 4"
| "type_code kTypePointer = 5"
| "type_code kTypeString = 6"
| "type_code kTypeObject = 7"
| "type_code kTypeMessage = 8"
| "type_code kTypeRect = 9"
| "type_code kTypeBuffer = 10"

fun writeToParcel :: "'p parcel_ops \<Rightarrow> 'o amessage \<Rightarrow> 'p \<Rightarrow> 'p option"
  and write_value :: "'p parcel_ops \<Rightarrow> 'o item \<Rightarrow> 'p \<Rightarrow> 'p option"
  and write_items :: "'p parcel_ops \<Rightarrow> (string \<times> 'o item) list \<Rightarrow> 'p \<Rightarrow> 'p option" where
  "writeToParcel po (AMessage what tgt items) p =
     write_items po items (writeInt32 po (word_of_nat (length items)) (writeInt32 po what p))"
| "write_value po (Int32 x) p = Some (writeInt32 po x p)"
| "write_value po (Int64 x) p = Some (writeInt64 po x p)"
| "write_value po (Size x) p = Some (writeInt32 po (ucast x) p)"
| "write_value po (Float x) p = Some (writeFloat po x p)"
| "write_value po (Double x) p = Some (writeDouble po x p)"
| "write_value po (Str x) p = Some (writeCString po (c_str x) p)"
| "write_value po (Message (Some m)) p = writeToParcel po m p"
| "write_value po _ p = None"
| "write_items po [] p = Some p"
| "write_items po ((n, v) # items) p =
     do { p \<leftarrow> write_value po v (writeInt32 po (type_code (item_type v)) (writeCString po n p)); write_items po items p }"

text \<open>
  What reading gives: a message, or the null pointer. With the null pointer comes the number of
  items that were counted but not yet set up when the unfinished message was destroyed: its
  destructor frees the names of all counted items.
\<close>

datatype 'o parcel_outcome = Parsed "'o amessage" | Null_after nat

datatype 'o read_result = Read_value "'o item" | Read_stop | Read_null

text \<open>The value of an item; \<open>sub\<close> reads a nested message, if another level is allowed.\<close>

definition read_value ::
  "'p parcel_ops \<Rightarrow> ('p \<Rightarrow> 'o parcel_outcome \<times> 'p) option \<Rightarrow> u32 \<Rightarrow> 'p \<Rightarrow> 'o read_result \<times> 'p" where
  "read_value po sub code p =
     (if code = type_code kTypeInt32 then (let (x, p) = readInt32 po p in (Read_value (Int32 x), p))
      else if code = type_code kTypeInt64 then (let (x, p) = readInt64 po p in (Read_value (Int64 x), p))
      else if code = type_code kTypeSize then (let (x, p) = readInt32 po p in (Read_value (Size (scast x)), p))
      else if code = type_code kTypeFloat then (let (x, p) = readFloat po p in (Read_value (Float x), p))
      else if code = type_code kTypeDouble then (let (x, p) = readDouble po p in (Read_value (Double x), p))
      else if code = type_code kTypeString
      then (case readCString po p of (None, p) \<Rightarrow> (Read_stop, p) | (Some s, p) \<Rightarrow> (Read_value (Str s), p))
      else if code = type_code kTypeMessage
      then (case sub of
              None \<Rightarrow> (Read_null, p)
            | Some f \<Rightarrow> (case f p of
                           (Null_after _, p) \<Rightarrow> (Read_null, p)
                         | (Parsed m, p) \<Rightarrow> (Read_value (Message (Some m)), p)))
      else (Read_null, p))"

text \<open>The loop over the items: \<open>todo\<close> more, after those of \<open>acc\<close>.\<close>

fun read_items ::
  "'p parcel_ops \<Rightarrow> ('p \<Rightarrow> 'o parcel_outcome \<times> 'p) option \<Rightarrow> u32 \<Rightarrow> nat \<Rightarrow> (string \<times> 'o item) list \<Rightarrow> 'p
     \<Rightarrow> 'o parcel_outcome \<times> 'p" where
  "read_items po sub what 0 acc p = (Parsed (AMessage what no_target acc), p)"
| "read_items po sub what (Suc todo) acc p =
     (case readCString po p of
        (None, p) \<Rightarrow> (Parsed (AMessage what no_target acc), p)
      | (Some name, p) \<Rightarrow>
          (let (code, p) = readInt32 po p
           in case read_value po sub code p of
                (Read_value v, p) \<Rightarrow> read_items po sub what todo (acc @ [(name, v)]) p
              | (Read_stop, p) \<Rightarrow> (Parsed (AMessage what no_target acc), p)
              | (Read_null, p) \<Rightarrow> (Null_after (Suc todo), p)))"

definition read_message ::
  "'p parcel_ops \<Rightarrow> ('p \<Rightarrow> 'o parcel_outcome \<times> 'p) option \<Rightarrow> 'p \<Rightarrow> 'o parcel_outcome \<times> 'p" where
  "read_message po sub p =
     (let (what, p) = readInt32 po p; (n, p) = readInt32 po p;
          numItems = (if unat (scast n :: u64) > kMaxNumItems then kMaxNumItems else unat (scast n :: u64))
      in read_items po sub what numItems [] p)"

fun FromParcel :: "'p parcel_ops \<Rightarrow> nat \<Rightarrow> 'p \<Rightarrow> 'o parcel_outcome \<times> 'p" where
  "FromParcel po 0 p = read_message po None p"
| "FromParcel po (Suc level) p = read_message po (Some (FromParcel po level)) p"

section \<open>Differences\<close>

definition buffers_differ :: "abuffer \<Rightarrow> abuffer \<Rightarrow> bool" where
  "buffers_differ a b = (case (a, b) of (ABuffer n d, ABuffer n' d') \<Rightarrow> n \<noteq> n' \<or> d \<noteq> d')"

text \<open>
  The item that \<open>changesFrom\<close> records for an item, \<open>Some None\<close> for none, given the item of the same
  name and type in the other message. A changed \<open>float\<close> or \<open>double\<close> is passed on as \<open>item.u.sizeValue\<close>:
  the bytes of the union as an integer, converted to floating point again.
\<close>

fun changesFrom :: "float_ops \<Rightarrow> (nat \<Rightarrow> handler option) \<Rightarrow> bool \<Rightarrow> 'o amessage \<Rightarrow> 'o amessage option \<Rightarrow> 'o amessage option"
  and change :: "float_ops \<Rightarrow> (nat \<Rightarrow> handler option) \<Rightarrow> bool \<Rightarrow> 'o item \<Rightarrow> 'o item option \<Rightarrow> 'o item option option"
  and changes_loop :: "float_ops \<Rightarrow> (nat \<Rightarrow> handler option) \<Rightarrow> bool \<Rightarrow> (string \<times> 'o item) list \<Rightarrow> 'o amessage
     \<Rightarrow> 'o amessage \<Rightarrow> 'o amessage option" where
  "changesFrom fo env deep (AMessage what tgt items) None = Some (AMessage what tgt items)"
| "changesFrom fo env deep (AMessage what tgt items) (Some other) =
     changes_loop fo env deep items other
       (AMessage (if what \<noteq> msg_what other then what else 0)
          (if mHandler tgt \<noteq> mHandler (msg_target other) then target_of env (mHandler tgt) else no_target) [])"
| "change fo env deep (Float x) oitem =
     Some (if (case oitem of Some (Float y) \<Rightarrow> f32_differs fo x y | _ \<Rightarrow> True)
           then Some (Float (size_to_f32 fo (f32_as_size fo x))) else None)"
| "change fo env deep (Double x) oitem =
     Some (if (case oitem of Some (Double y) \<Rightarrow> f64_differs fo x y | _ \<Rightarrow> True)
           then Some (Double (size_to_f64 fo x)) else None)"
| "change fo env deep (Buffer (Some b)) oitem =
     Some (if (case oitem of Some (Buffer (Some ob)) \<Rightarrow> buffers_differ b ob | _ \<Rightarrow> True)
           then Some (Buffer (Some b)) else None)"
| "change fo env deep (Message (Some m)) oitem =
     do { changes \<leftarrow> changesFrom fo env deep m (case oitem of Some (Message om) \<Rightarrow> om | _ \<Rightarrow> None);
          Some (if countEntries changes \<noteq> 0 then Some (Message (Some (if deep then changes else m))) else None) }"
| "change fo env deep v oitem = Some (if oitem \<noteq> Some v then Some v else None)"
| "changes_loop fo env deep [] other diff = Some diff"
| "changes_loop fo env deep ((n, v) # items) other diff =
     do { c \<leftarrow> change fo env deep v (findItem n (item_type v) other);
          diff \<leftarrow> (case c of None \<Rightarrow> Some diff | Some w \<Rightarrow> set_value n w diff);
          changes_loop fo env deep items other diff }"

section \<open>Items as a map\<close>

text \<open>Names are unique and there are at most as many as slots.\<close>

abbreviation names :: "'o amessage \<Rightarrow> string set" where
  "names m \<equiv> fst ` set (msg_items m)"

definition amsg_wf :: "'o amessage \<Rightarrow> bool" where
  "amsg_wf m \<longleftrightarrow> distinct (map fst (msg_items m)) \<and> countEntries m \<le> kMaxNumItems"

lemma with_items_simps [simp]:
  "msg_items (with_items m xs) = xs" "msg_what (with_items m xs) = msg_what m" "msg_target (with_items m xs) = msg_target m"
  by (simp_all add: with_items_def)

lemma find_index_less [simp]: "find_index n xs < length xs \<longleftrightarrow> n \<in> fst ` set xs"
  by (induction n xs rule: find_index.induct) auto

lemma find_index_nth:
  "n \<in> fst ` set xs \<Longrightarrow> fst (xs ! find_index n xs) = n \<and> map_of xs n = Some (snd (xs ! find_index n xs))"
  by (induction n xs rule: find_index.induct) auto

lemma map_of_put:
  "n \<in> fst ` set xs \<Longrightarrow> map_of (xs[find_index n xs := (n, v)]) = (map_of xs)(n \<mapsto> v)"
proof (induction xs)
  case (Cons p xs)
  then show ?case by (cases p; cases "fst p = n") (simp_all add: fun_eq_iff)
qed simp

lemma map_of_new:
  assumes "n \<notin> fst ` set xs"
  shows "map_of (xs @ [(n, v)]) = (map_of xs)(n \<mapsto> v)"
proof -
  have "map_of xs n = None" using assms by (simp add: map_of_eq_None_iff)
  then show ?thesis by (auto simp: map_add_def fun_eq_iff split: option.splits)
qed

lemma names_put: "map fst (xs[find_index n xs := (n, v)]) = map fst xs"
  by (induction n xs rule: find_index.induct) auto

text \<open>What every setter does: it fails only when a new name meets a full message.\<close>

lemma set_value_cases:
  "set_value n v m =
     (if n \<in> names m then Some (with_items m ((msg_items m)[find_index n (msg_items m) := (n, v)]))
      else if countEntries m < kMaxNumItems then Some (with_items m (msg_items m @ [(n, v)]))
      else None)"
  by (auto simp: set_value_def allocateItem_def store_at_def findItemIndex_def countEntries_def with_items_def Let_def
    nth_append)

lemma set_value_effect:
  assumes "set_value n v m = Some m'"
  shows "map_of (msg_items m') = (map_of (msg_items m))(n \<mapsto> v)" and "msg_what m' = msg_what m" and "msg_target m' = msg_target m"
    and "amsg_wf m \<Longrightarrow> amsg_wf m'" and "names m' = insert n (names m)"
proof -
  consider (put) "n \<in> names m" "m' = with_items m ((msg_items m)[find_index n (msg_items m) := (n, v)])"
    | (new) "n \<notin> names m" "countEntries m < kMaxNumItems" "m' = with_items m (msg_items m @ [(n, v)])"
    using assms by (auto simp: set_value_cases split: if_splits)
  then have "map_of (msg_items m') = (map_of (msg_items m))(n \<mapsto> v) \<and> msg_what m' = msg_what m \<and> msg_target m' = msg_target m
    \<and> (amsg_wf m \<longrightarrow> amsg_wf m') \<and> names m' = insert n (names m)"
  proof cases
    case put
    let ?xs = "(msg_items m)[find_index n (msg_items m) := (n, v)]"
    have "fst ` set ?xs = names m" using names_put [of "msg_items m" n v] by (metis list.set_map)
    with put show ?thesis by (simp add: map_of_put amsg_wf_def countEntries_def names_put insert_absorb)
  next
    case new
    have "map_of (msg_items m @ [(n, v)]) = (map_of (msg_items m))(n \<mapsto> v)" by (rule map_of_new [OF new(1)])
    with new show ?thesis by (simp add: amsg_wf_def countEntries_def del: map_of_append)
  qed
  then show "map_of (msg_items m') = (map_of (msg_items m))(n \<mapsto> v)" "msg_what m' = msg_what m" "msg_target m' = msg_target m"
    "amsg_wf m \<Longrightarrow> amsg_wf m'" "names m' = insert n (names m)" by simp_all
qed

lemma findItem_map_of:
  "findItem n ty m = (case map_of (msg_items m) n of None \<Rightarrow> None | Some v \<Rightarrow> if item_type v = ty then Some v else None)"
proof (cases "n \<in> names m")
  case True
  with find_index_nth [OF True] show ?thesis by (auto simp: findItem_def findItemIndex_def countEntries_def)
next
  case False
  then have "map_of (msg_items m) n = None" by (simp add: map_of_eq_None_iff)
  with False show ?thesis by (simp add: findItem_def findItemIndex_def countEntries_def)
qed

lemma set_value_None: "set_value n v m = None \<longleftrightarrow> n \<notin> names m \<and> kMaxNumItems \<le> countEntries m"
  by (auto simp: set_value_cases)

lemma allocateItem_index: "allocateItem n m = Some (i, m') \<Longrightarrow> i < countEntries m'"
  by (cases "n \<in> names m") (simp_all add: allocateItem_def countEntries_def findItemIndex_def Let_def split: if_splits, force+)

lemma setItem_set_value: "setItem n (Some v) m = set_value n v m"
  by (cases "allocateItem n m") (auto simp: setItem_def set_value_def setEntryAt_def dest: allocateItem_index)

lemma extend_loop_Cons: "extend_loop ((n, v) # items) m = do { m \<leftarrow> set_value n v m; extend_loop items m }"
  by (cases "allocateItem n m") (auto simp: set_value_def setEntryAt_def dest: allocateItem_index)

declare extend_loop.simps(2) [simp del]

lemma extend_loop_effect:
  assumes "extend_loop items m = Some m'"
  shows "map_of (msg_items m') = map_of (msg_items m) ++ map_of (rev items)" and "amsg_wf m \<Longrightarrow> amsg_wf m'"
  using assms
proof (induction items arbitrary: m)
  case Nil
  { case 1 then show ?case by simp next case 2 then show ?case by simp }
next
  case (Cons nv items)
  obtain n v where nv: "nv = (n, v)" by (cases nv)
  { case 1
    then obtain k where k: "set_value n v m = Some k" "extend_loop items k = Some m'"
      by (auto simp: nv extend_loop_Cons bind_eq_Some_conv)
    show ?case using Cons(1) [OF k(2)] set_value_effect(1) [OF k(1)]
      by (simp add: nv map_add_def fun_eq_iff split: option.splits)
  next
    case 2
    then obtain k where k: "set_value n v m = Some k" "extend_loop items k = Some m'"
      by (auto simp: nv extend_loop_Cons bind_eq_Some_conv)
    show ?case using Cons(2) [OF _ k(2)] set_value_effect(4) [OF k(1) 2(1)] by blast }
qed

section \<open>Properties of messages\<close>

text \<open>The operations on a message that callers have, each on any arguments.\<close>

inductive amsg_step :: "'o amessage \<Rightarrow> 'o amessage \<Rightarrow> bool" where
  set: "set_value n v m = Some m' \<Longrightarrow> amsg_step m m'"
| set_item: "setItem n v m = Some m' \<Longrightarrow> amsg_step m m'"
| what: "amsg_step m (setWhat w m)"
| target: "amsg_step m (setTarget env h m)"
| clear: "amsg_step m (clear m)"
| rename: "setEntryNameAt i n m = (e, m') \<Longrightarrow> amsg_step m m'"
| entry: "setEntryAt i v m = (e, m') \<Longrightarrow> amsg_step m m'"
| remove: "removeEntryAt i m = (e, m') \<Longrightarrow> amsg_step m m'"
| extend: "amsg_extend x m = Some m' \<Longrightarrow> amsg_step m m'"
| awaits: "senderAwaitsResponse m = (r, Some m') \<Longrightarrow> amsg_step m m'"
| await: "postAndAwaitResponse alive tok now m ls = Some (e, m', ls') \<Longrightarrow> amsg_step m m'"
| dup: "dup env m = Some m' \<Longrightarrow> amsg_step m m'"
| changes: "changesFrom fo env deep m x = Some m' \<Longrightarrow> amsg_step m m'"

lemma amsg_wf_same_names:
  "map fst (msg_items m') = map fst (msg_items m) \<Longrightarrow> amsg_wf m' \<longleftrightarrow> amsg_wf m"
  using map_eq_imp_length_eq by (fastforce simp: amsg_wf_def countEntries_def)

lemma dup_items_names: "dup_items env items = Some items' \<Longrightarrow> map fst items' = map fst items"
  by (induction items arbitrary: items') (auto simp: bind_eq_Some_conv)

lemma amsg_wf_rename: "amsg_wf m \<Longrightarrow> amsg_wf (snd (setEntryNameAt i n m))"
proof (cases n)
  case (Some k)
  assume wf: "amsg_wf m"
  show ?thesis
  proof (cases "i < countEntries m \<and> k \<notin> names m")
    case True
    then have "distinct ((map fst (msg_items m))[i := k])"
      using wf by (intro distinct_list_update) (auto simp: amsg_wf_def)
    with True wf show ?thesis
      by (simp add: setEntryNameAt_def Some amsg_wf_def countEntries_def findItemIndex_def map_update)
  next
    case False
    with wf show ?thesis by (auto simp: setEntryNameAt_def Some findItemIndex_def countEntries_def)
  qed
qed (simp add: setEntryNameAt_def)

lemma amsg_wf_remove: "amsg_wf m \<Longrightarrow> amsg_wf (snd (removeEntryAt i m))"
proof (cases "i < countEntries m")
  case True
  assume wf: "amsg_wf m"
  let ?xs = "map fst (msg_items m)" and ?n = "countEntries m - 1"
  have "Suc ?n = length ?xs" and n: "?n < length ?xs" using True by (simp_all add: countEntries_def)
  with take_Suc_conv_app_nth [OF n] have "?xs = take ?n ?xs @ [?xs ! ?n]" by simp
  then have d: "distinct (take ?n ?xs)" "?xs ! ?n \<notin> set (take ?n ?xs)"
    using wf by (metis amsg_wf_def distinct_append disjoint_iff list.set_intros(1))+
  have "distinct (take ?n (?xs[i := ?xs ! ?n]))"
    using d by (auto simp: take_update_swap intro: distinct_list_update)
  with True wf d show ?thesis
    by (auto simp: removeEntryAt_def amsg_wf_def countEntries_def Let_def map_update simp flip: take_map)
qed (simp add: removeEntryAt_def)

lemma changes_loop_wf:
  "changes_loop fo env deep items other diff = Some d \<Longrightarrow> amsg_wf diff \<Longrightarrow> amsg_wf d"
proof (induction items arbitrary: diff)
  case (Cons nv items)
  obtain n v where nv: "nv = (n, v)" by (cases nv)
  from Cons show ?case
    by (auto simp: nv bind_eq_Some_conv split: option.splits dest: set_value_effect(4))
qed simp

lemma amsg_wf_step:
  assumes "amsg_wf m" and "amsg_step m m'"
  shows "amsg_wf m'"
  using assms(2)
proof (cases rule: amsg_step.cases)
  case (set n v)
  with assms(1) show ?thesis by (blast intro: set_value_effect(4))
next
  case (set_item n v)
  with assms(1) show ?thesis
    by (cases v) (auto simp: setItem_set_value setItem_def [of _ None] intro: set_value_effect(4))
next
  case (rename i n e)
  with assms(1) show ?thesis using amsg_wf_rename [of m i n] by simp
next
  case (entry i v e)
  then have "map fst (msg_items m') = map fst (msg_items m)"
    by (auto simp: setEntryAt_def store_at_def map_update countEntries_def split: if_splits option.splits)
      (metis list_update_id nth_map not_le_imp_less)
  with assms(1) amsg_wf_same_names show ?thesis by blast
next
  case (remove i e)
  with assms(1) show ?thesis using amsg_wf_remove [of m i] by simp
next
  case (extend x)
  with assms(1) show ?thesis by (auto simp: amsg_extend_def intro: extend_loop_effect(2) split: option.splits)
next
  case (awaits r)
  with assms(1) show ?thesis
    by (auto simp: senderAwaitsResponse_def setObject_def intro: set_value_effect(4) split: option.splits)
next
  case (await alive tok now ls e ls')
  with assms(1) show ?thesis
    by (auto simp: postAndAwaitResponse_def setObject_def bind_eq_Some_conv intro: set_value_effect(4) split: option.splits)
next
  case (dup env)
  then have "map fst (msg_items m') = map fst (msg_items m)"
    by (cases m) (auto simp: bind_eq_Some_conv dup_items_names)
  with assms(1) amsg_wf_same_names show ?thesis by blast
next
  case (changes fo env deep x)
  have "amsg_wf (AMessage w t [])" for w t by (simp add: amsg_wf_def countEntries_def)
  with changes assms(1) show ?thesis by (cases m; cases x) (auto intro: changes_loop_wf)
qed (use assms(1) in \<open>auto simp: amsg_wf_def countEntries_def setWhat_def setTarget_def clear_def\<close>)

interpretation messaging: invariant_system "\<lambda>m. \<exists>env w h. m = new_message env w h" amsg_step amsg_wf
proof
  show "\<exists>env w h. m = new_message env w h \<Longrightarrow> amsg_wf m" for m :: "'o amessage"
    by (auto simp: new_message_def amsg_wf_def countEntries_def)
qed (rule amsg_wf_step)



section \<open>Messages through parcels\<close>

text \<open>
  What the code relies on of a parcel: values are read in the order in which they were written.
  \<open>unread\<close> is what is written and not read yet; a C string has no zero inside.
\<close>

datatype parcel_value = PInt32 u32 | PInt64 u64 | PFloat u32 | PDouble u64 | PCString string

locale parcel_fifo =
  fixes po :: "'p parcel_ops" and unread :: "'p \<Rightarrow> parcel_value list"
  assumes write_Int32: "unread (writeInt32 po x p) = unread p @ [PInt32 x]"
    and write_Int64: "unread (writeInt64 po y p) = unread p @ [PInt64 y]"
    and write_Float: "unread (writeFloat po x p) = unread p @ [PFloat x]"
    and write_Double: "unread (writeDouble po y p) = unread p @ [PDouble y]"
    and write_CString: "c_str s = s \<Longrightarrow> unread (writeCString po s p) = unread p @ [PCString s]"
    and read_Int32: "unread p = PInt32 x # r \<Longrightarrow> \<exists>q. readInt32 po p = (x, q) \<and> unread q = r"
    and read_Int64: "unread p = PInt64 y # r \<Longrightarrow> \<exists>q. readInt64 po p = (y, q) \<and> unread q = r"
    and read_Float: "unread p = PFloat x # r \<Longrightarrow> \<exists>q. readFloat po p = (x, q) \<and> unread q = r"
    and read_Double: "unread p = PDouble y # r \<Longrightarrow> \<exists>q. readDouble po p = (y, q) \<and> unread q = r"
    and read_CString: "unread p = PCString s # r \<Longrightarrow> \<exists>q. readCString po p = (Some s, q) \<and> unread q = r"

text \<open>
  The messages that can be sent: no item of a type that cannot cross processes, no null message,
  nested no deeper than the reader allows, sizes that fit \<open>int32_t\<close>, strings without zero bytes.
\<close>

fun sendable :: "nat \<Rightarrow> 'o amessage \<Rightarrow> bool"
  and sendable_item :: "nat \<Rightarrow> 'o item \<Rightarrow> bool"
  and sendable_items :: "nat \<Rightarrow> (string \<times> 'o item) list \<Rightarrow> bool" where
  "sendable l (AMessage what tgt items) \<longleftrightarrow> length items \<le> kMaxNumItems \<and> sendable_items l items"
| "sendable_item l (Size x) \<longleftrightarrow> unat x < 2 ^ 31"
| "sendable_item l (Str s) \<longleftrightarrow> c_str s = s"
| "sendable_item l (Message (Some m)) \<longleftrightarrow> (case l of 0 \<Rightarrow> False | Suc k \<Rightarrow> sendable k m)"
| "sendable_item l (Message None) \<longleftrightarrow> False"
| "sendable_item l (Object x) \<longleftrightarrow> False"
| "sendable_item l (Pointer x) \<longleftrightarrow> False"
| "sendable_item l (Rect a b c d) \<longleftrightarrow> False"
| "sendable_item l (Buffer x) \<longleftrightarrow> False"
| "sendable_item l _ \<longleftrightarrow> True"
| "sendable_items l [] \<longleftrightarrow> True"
| "sendable_items l ((n, v) # items) \<longleftrightarrow> c_str n = n \<and> sendable_item l v \<and> sendable_items l items"

text \<open>What arrives: the targets are gone, at every level.\<close>

fun received :: "'o amessage \<Rightarrow> 'o amessage"
  and received_item :: "'o item \<Rightarrow> 'o item"
  and received_items :: "(string \<times> 'o item) list \<Rightarrow> (string \<times> 'o item) list" where
  "received (AMessage what tgt items) = AMessage what no_target (received_items items)"
| "received_item (Message (Some m)) = Message (Some (received m))"
| "received_item v = v"
| "received_items [] = []"
| "received_items ((n, v) # items) = (n, received_item v) # received_items items"

fun encoded :: "'o amessage \<Rightarrow> parcel_value list"
  and encoded_item :: "'o item \<Rightarrow> parcel_value list"
  and encoded_items :: "(string \<times> 'o item) list \<Rightarrow> parcel_value list" where
  "encoded (AMessage what tgt items) = PInt32 what # PInt32 (word_of_nat (length items)) # encoded_items items"
| "encoded_item (Int32 x) = [PInt32 x]"
| "encoded_item (Int64 x) = [PInt64 x]"
| "encoded_item (Size x) = [PInt32 (ucast x)]"
| "encoded_item (Float x) = [PFloat x]"
| "encoded_item (Double x) = [PDouble x]"
| "encoded_item (Str x) = [PCString (c_str x)]"
| "encoded_item (Message (Some m)) = encoded m"
| "encoded_item _ = []"
| "encoded_items [] = []"
| "encoded_items ((n, v) # items) = PCString n # PInt32 (type_code (item_type v)) # encoded_item v @ encoded_items items"

lemma scast_small:
  assumes "uint (w :: u32) < 2 ^ 31"
  shows "uint (scast w :: u64) = uint w"
proof -
  have "- (2 ^ 31) \<le> uint w" by (rule order_trans [OF _ unsigned_greater_eq]) simp
  then have "signed_take_bit 31 (uint w) = uint w" using assms by (intro signed_take_bit_int_eq_self)
  then have "sint w = uint w" by (simp add: sint_uint)
  then have "uint (scast w :: u64) = take_bit 64 (uint w)" by (simp only: scast_eq uint_word_of_int_eq) simp
  also have "\<dots> = uint w" using assms by (intro take_bit_int_eq_self) simp_all
  finally show ?thesis .
qed

lemma size_through_int32:
  assumes "unat (x :: u64) < 2 ^ 31"
  shows "scast (ucast x :: u32) = x"
proof -
  have "int (unat x) < int (2 ^ 31)" using assms by (simp only: of_nat_less_iff)
  then have u: "uint x < 2 ^ 31" by (simp only: uint_nat of_nat_power of_nat_numeral)
  then have "take_bit 32 (uint x) = uint x" by (intro take_bit_int_eq_self) simp_all
  then have "uint (ucast x :: u32) = uint x" by (simp add: unsigned_ucast_eq)
  with u scast_small [of "ucast x"] show ?thesis by (simp add: word_uint_eq_iff)
qed

lemma items_through_int32: 
  assumes "n \<le> kMaxNumItems"
  shows "unat (scast (word_of_nat n :: u32) :: u64) = n"
proof -
  have "unat (word_of_nat n :: u32) = n" using assms by (simp add: kMaxNumItems_def unsigned_of_nat take_bit_nat_eq_self)
  then have u: "uint (word_of_nat n :: u32) = int n" by (simp add: uint_nat)
  with assms scast_small [of "word_of_nat n"] show ?thesis by (simp only: unat_eq_nat_uint) (simp add: kMaxNumItems_def)
qed

text \<open>What a level of reading passes on for nested messages.\<close>

definition sub_reader :: "'p parcel_ops \<Rightarrow> nat \<Rightarrow> ('p \<Rightarrow> 'o parcel_outcome \<times> 'p) option" where
  "sub_reader po l = (case l of 0 \<Rightarrow> None | Suc k \<Rightarrow> Some (FromParcel po k))"

lemma FromParcel_sub: "FromParcel po l p = read_message po (sub_reader po l) p"
  by (cases l) (simp_all add: sub_reader_def)

context parcel_fifo
begin

lemma write_sendable:
  fixes m :: "'o amessage" and v :: "'o item" and items :: "(string \<times> 'o item) list"
  shows "sendable l m \<Longrightarrow> \<exists>q. writeToParcel po m p = Some q \<and> unread q = unread p @ encoded m"
    and "sendable_item l v \<Longrightarrow> \<exists>q. write_value po v p = Some q \<and> unread q = unread p @ encoded_item v"
    and "sendable_items l items \<Longrightarrow> \<exists>q. write_items po items p = Some q \<and> unread q = unread p @ encoded_items items"
proof (induction l m and l v and l items arbitrary: p and p and p rule: sendable_sendable_item_sendable_items.induct)
  case (1 l what tgt items)
  then show ?case by (fastforce simp: write_Int32)
next
  case (4 l m)
  then show ?case by (cases l) auto
next
  case (12 l n v items)
  from 12 obtain q where q: "write_value po v (writeInt32 po (type_code (item_type v)) (writeCString po n p)) = Some q"
    "unread q = unread p @ [PCString n, PInt32 (type_code (item_type v))] @ encoded_item v"
    by (fastforce simp: write_Int32 write_CString)
  moreover obtain q2 where "write_items po items q = Some q2" "unread q2 = unread q @ encoded_items items"
    using 12 by fastforce
  ultimately show ?case by auto
qed (auto simp: write_Int32 write_Int64 write_Float write_Double write_CString)

lemma read_sendable:
  fixes m :: "'o amessage" and v :: "'o item" and items :: "(string \<times> 'o item) list"
  shows "sendable l m \<Longrightarrow> unread p = encoded m @ r \<Longrightarrow> \<exists>q. FromParcel po l p = (Parsed (received m), q) \<and> unread q = r"
    and "sendable_item l v \<Longrightarrow> unread p = encoded_item v @ r \<Longrightarrow>
      \<exists>q. read_value po (sub_reader po l) (type_code (item_type v)) p = (Read_value (received_item v), q) \<and> unread q = r"
    and "sendable_items l items \<Longrightarrow> unread p = encoded_items items @ r \<Longrightarrow>
      \<exists>q. read_items po (sub_reader po l) what (length items) acc p
        = (Parsed (AMessage what no_target (acc @ received_items items)), q) \<and> unread q = r"
proof (induction l m and l v and l items arbitrary: p r and p r and p r acc what rule: sendable_sendable_item_sendable_items.induct)
  case (1 l w tgt items)
  obtain q1 where q1: "readInt32 po p = (w, q1)" "unread q1 = PInt32 (word_of_nat (length items)) # encoded_items items @ r"
    using read_Int32 [of p w] 1 by auto
  obtain q2 where q2: "readInt32 po q1 = (word_of_nat (length items), q2)" "unread q2 = encoded_items items @ r"
    using read_Int32 [OF q1(2)] by auto
  obtain q3 where "read_items po (sub_reader po l) w (length items) [] q2 = (Parsed (AMessage w no_target (received_items items)), q3)"
    "unread q3 = r"
    using 1(1) [OF _ q2(2), of w "[]"] 1(2) by auto
  moreover have "length items \<le> kMaxNumItems" using 1 by simp
  ultimately show ?case using q1(1) q2(1) by (simp add: FromParcel_sub read_message_def items_through_int32)
next
  case (12 l n v items)
  obtain q1 where q1: "readCString po p = (Some n, q1)"
    "unread q1 = PInt32 (type_code (item_type v)) # encoded_item v @ encoded_items items @ r"
    using read_CString [of p n] 12(4) by auto
  obtain q2 where q2: "readInt32 po q1 = (type_code (item_type v), q2)" "unread q2 = encoded_item v @ encoded_items items @ r"
    using read_Int32 [OF q1(2)] by auto
  obtain q3 where q3: "read_value po (sub_reader po l) (type_code (item_type v)) q2 = (Read_value (received_item v), q3)"
    "unread q3 = encoded_items items @ r"
    using 12(1) [OF _ q2(2)] 12(3) by auto
  obtain q4 where "read_items po (sub_reader po l) what (length items) (acc @ [(n, received_item v)]) q3
      = (Parsed (AMessage what no_target ((acc @ [(n, received_item v)]) @ received_items items)), q4)" "unread q4 = r"
    using 12(2) [OF _ q3(2), of what "acc @ [(n, received_item v)]"] 12(3) by auto
  with q1(1) q2(1) q3(1) show ?case by simp
next
  case (4 l m)
  then obtain k where k: "l = Suc k" "sendable k m" by (cases l) auto
  with 4 obtain q where "FromParcel po k p = (Parsed (received m), q)" "unread q = r" by fastforce
  with k show ?case by (simp add: read_value_def sub_reader_def)
qed (auto dest: read_Int32 read_Int64 read_Float read_Double read_CString simp: read_value_def size_through_int32)

lemma roundtrip:
  assumes "sendable l m" and "unread p = []"
  shows "\<exists>q s. writeToParcel po m p = Some q \<and> FromParcel po l q = (Parsed (received m), s) \<and> unread s = []"
proof -
  obtain q where q: "writeToParcel po m p = Some q" "unread q = encoded m @ []"
    using write_sendable(1) [OF assms(1), of p] assms(2) by auto
  with read_sendable(1) [OF assms(1) q(2)] show ?thesis by blast
qed

end

text \<open>A parcel as a list, to show that the assumptions can be met.\<close>

definition list_parcel :: "parcel_value list parcel_ops" where
  "list_parcel =
     \<lparr>writeInt32 = (\<lambda>x p. p @ [PInt32 x]), writeInt64 = (\<lambda>x p. p @ [PInt64 x]),
      writeFloat = (\<lambda>x p. p @ [PFloat x]), writeDouble = (\<lambda>x p. p @ [PDouble x]),
      writeCString = (\<lambda>s p. p @ [PCString s]),
      readInt32 = (\<lambda>p. case p of PInt32 x # r \<Rightarrow> (x, r) | _ \<Rightarrow> (0, p)),
      readInt64 = (\<lambda>p. case p of PInt64 x # r \<Rightarrow> (x, r) | _ \<Rightarrow> (0, p)),
      readFloat = (\<lambda>p. case p of PFloat x # r \<Rightarrow> (x, r) | _ \<Rightarrow> (0, p)),
      readDouble = (\<lambda>p. case p of PDouble x # r \<Rightarrow> (x, r) | _ \<Rightarrow> (0, p)),
      readCString = (\<lambda>p. case p of PCString s # r \<Rightarrow> (Some s, r) | _ \<Rightarrow> (None, p))\<rparr>"

interpretation list_parcel: parcel_fifo list_parcel "\<lambda>p. p"
  by unfold_locales (simp_all add: list_parcel_def)

text \<open>
  C29: messages survive parcels. Over any parcel that hands back what was written in order, a
  message that can be sent is written without failure, and reading it, with at least its depth
  of nesting allowed, gives the same message with the targets cleared, and consumes exactly
  what was written.
\<close>

theorem parcel_roundtrip:
  assumes "parcel_fifo po unread" and "sendable l m" and "unread p = []"
  shows "\<exists>q s. writeToParcel po m p = Some q \<and> FromParcel po l q = (Parsed (received m), s) \<and> unread s = []"
  using parcel_fifo.roundtrip [OF assms] .

definition sample_message :: "nat amessage" where
  "sample_message = AMessage 0x666d74 \<lparr>mTarget = 3, mHandler = Some 1, mLooperRef = Some 2\<rparr>
     [(''mime'', Str ''video/avc''), (''size'', Size 4096),
      (''sub'', Message (Some (AMessage 1 no_target [(''rate'', Double 0x403DF853E2556B28)])))]"

theorem parcel_roundtrip_witness:
  "\<exists>q s. writeToParcel list_parcel sample_message [] = Some q
     \<and> FromParcel list_parcel 1 q = (Parsed (AMessage 0x666d74 no_target (msg_items sample_message)), s) \<and> s = []"
  using parcel_roundtrip [OF list_parcel.parcel_fifo_axioms, of 1 sample_message "[]"]
  by (simp add: sample_message_def c_str_def kMaxNumItems_def)

lemma read_items_outcome:
  "case fst (read_items po sub w n acc q) of Parsed m \<Rightarrow> countEntries m \<le> length acc + n | Null_after k \<Rightarrow> 0 < k \<and> k \<le> n"
proof (induction n arbitrary: acc q)
  case 0
  show ?case by (simp add: countEntries_def)
next
  case (Suc n)
  have "case fst (read_items po sub w n (acc @ [nv]) q') of Parsed m \<Rightarrow> countEntries m \<le> length acc + Suc n
      | Null_after k \<Rightarrow> 0 < k \<and> k \<le> Suc n" for nv q'
    using Suc [of "acc @ [nv]" q'] by (auto split: parcel_outcome.splits)
  then show ?case
    by (auto simp: countEntries_def split: prod.split option.split read_result.split)
qed

text \<open>
  A refused parcel damages memory. Whatever the parcel holds, reading ends, and a message it
  gives has at most 64 items. But when it returns null, because of an item type that cannot be
  transferred, a nested message that is refused, or too deep a nesting, the message under
  construction still counts at least one item whose name was never set, and its destructor frees
  that uninitialised pointer.
\<close>

theorem parcel_null_frees_garbage:
  "case fst (FromParcel po l p :: 'o parcel_outcome \<times> 'p) of
     Parsed m \<Rightarrow> countEntries m \<le> kMaxNumItems
   | Null_after k \<Rightarrow> 0 < k \<and> k \<le> kMaxNumItems"
proof -
  obtain w n q where items: "(FromParcel po l p :: 'o parcel_outcome \<times> 'p) = read_items po (sub_reader po l) w n [] q" "n \<le> kMaxNumItems"
    unfolding FromParcel_sub read_message_def Let_def split_beta by auto
  from read_items_outcome [of "[] :: (string \<times> 'o item) list" n po "sub_reader po l" w q] items(2) show ?thesis
    unfolding items(1) by (auto split: parcel_outcome.splits)
qed

section \<open>Copies and differences\<close>

text \<open>A null object, buffer or message anywhere inside.\<close>

fun has_null :: "'o amessage \<Rightarrow> bool"
  and item_null :: "'o item \<Rightarrow> bool"
  and items_null :: "(string \<times> 'o item) list \<Rightarrow> bool" where
  "has_null (AMessage what tgt items) \<longleftrightarrow> items_null items"
| "item_null (Object None) \<longleftrightarrow> True"
| "item_null (Buffer None) \<longleftrightarrow> True"
| "item_null (Message None) \<longleftrightarrow> True"
| "item_null (Message (Some m)) \<longleftrightarrow> has_null m"
| "item_null v \<longleftrightarrow> False"
| "items_null [] \<longleftrightarrow> False"
| "items_null ((n, v) # items) \<longleftrightarrow> item_null v \<or> items_null items"

fun retargeted :: "(nat \<Rightarrow> handler option) \<Rightarrow> 'o amessage \<Rightarrow> 'o amessage"
  and retargeted_item :: "(nat \<Rightarrow> handler option) \<Rightarrow> 'o item \<Rightarrow> 'o item"
  and retargeted_items :: "(nat \<Rightarrow> handler option) \<Rightarrow> (string \<times> 'o item) list \<Rightarrow> (string \<times> 'o item) list" where
  "retargeted env (AMessage what tgt items) = AMessage what (target_of env (mHandler tgt)) (retargeted_items env items)"
| "retargeted_item env (Message (Some m)) = Message (Some (retargeted env m))"
| "retargeted_item env v = v"
| "retargeted_items env [] = []"
| "retargeted_items env ((n, v) # items) = (n, retargeted_item env v) # retargeted_items env items"

lemma dup_cases:
  fixes m :: "'o amessage" and v :: "'o item" and items :: "(string \<times> 'o item) list"
  shows "dup env m = (if has_null m then None else Some (retargeted env m))"
    and "dup_item env v = (if item_null v then None else Some (retargeted_item env v))"
    and "dup_items env items = (if items_null items then None else Some (retargeted_items env items))"
  by (induction m and v and items rule: has_null_item_null_items_null.induct) auto

text \<open>
  \<open>dup\<close> copies everything but null references. A message without null objects, buffers and
  messages is copied with all its items, nested messages too, and with targets that are
  current; one null reference anywhere makes \<open>dup\<close> dereference it. That happens to every request
  whose handler has taken the reply token: \<open>senderAwaitsResponse\<close> leaves a null object behind.
\<close>

theorem dup_follows_null:
  "dup env (m :: 'o amessage) = (if has_null m then None else Some (retargeted env m))
   \<and> (case senderAwaitsResponse m of
        ((awaits, tok), r) \<Rightarrow> (if findObject ''replyID'' m = None then r = Some m else (\<exists>m'. r = Some m' \<and> dup env m' = None)))"
proof -
  have null: "items_null items" if "(n, Object None) \<in> set items" for n and items :: "(string \<times> 'o item) list"
    using that by (induction items) auto
  show ?thesis
  proof (cases "findObject ''replyID'' m")
    case None
    then show ?thesis by (simp add: senderAwaitsResponse_def dup_cases(1))
  next
    case (Some tok)
    then have "map_of (msg_items m) ''replyID'' = Some (Object tok)"
      by (auto simp: findObject_def findItem_map_of split: option.splits if_splits item.splits)
    then have "''replyID'' \<in> names m" by (metis map_of_eq_None_iff option.distinct(1))
    then obtain m' where m': "set_value ''replyID'' (Object None) m = Some m'" by (simp add: set_value_cases)
    have "(''replyID'', Object None) \<in> set (msg_items m')"
      using set_value_effect(1) [OF m'] by (intro map_of_SomeD) simp
    then have "has_null m'" using null by (cases m') auto
    then show ?thesis using Some m' by (simp add: senderAwaitsResponse_def setObject_def dup_cases(1))
  qed
qed

text \<open>Items other than messages: what the difference says and what it means to the receiver.\<close>

definition flat :: "'o item \<Rightarrow> bool" where
  "flat v \<longleftrightarrow> item_type v \<noteq> kTypeMessage"

fun recorded :: "float_ops \<Rightarrow> 'o item \<Rightarrow> 'o item" where
  "recorded fo (Float x) = Float (size_to_f32 fo (f32_as_size fo x))"
| "recorded fo (Double x) = Double (size_to_f64 fo x)"
| "recorded fo v = v"

fun items_differ :: "float_ops \<Rightarrow> 'o item \<Rightarrow> 'o item option \<Rightarrow> bool" where
  "items_differ fo (Float x) (Some (Float y)) \<longleftrightarrow> f32_differs fo x y"
| "items_differ fo (Double x) (Some (Double y)) \<longleftrightarrow> f64_differs fo x y"
| "items_differ fo v oitem \<longleftrightarrow> oitem \<noteq> Some v"

lemma buffers_differ_iff: "buffers_differ a b \<longleftrightarrow> a \<noteq> b"
  by (cases a; cases b) (auto simp: buffers_differ_def)

lemma change_flat:
  assumes "flat v"
  shows "change fo env deep v oitem = Some (if items_differ fo v oitem then Some (recorded fo v) else None)"
  using assms
  by (cases "(fo, env, deep, v, oitem)" rule: change.cases)
    (auto simp: flat_def buffers_differ_iff split: option.splits item.splits)

lemma names_card: "amsg_wf m \<Longrightarrow> card (names m) = countEntries m"
  by (metis amsg_wf_def countEntries_def distinct_card length_map list.set_map)

lemma set_value_fits:
  assumes "amsg_wf m" and "card (insert n (names m)) \<le> kMaxNumItems"
  shows "\<exists>m'. set_value n v m = Some m'"
  using assms names_card [OF assms(1)] by (cases "n \<in> names m") (simp_all add: set_value_cases card_insert_if)

lemma changes_loop_flat:
  assumes "amsg_wf diff" and "distinct (map fst items)" and "\<forall>(n, v) \<in> set items. flat v"
    and "names diff \<inter> fst ` set items = {}" and "card (names diff \<union> fst ` set items) \<le> kMaxNumItems"
  shows "\<exists>d. changes_loop fo env deep items other diff = Some d \<and> amsg_wf d \<and> names d \<subseteq> names diff \<union> fst ` set items
    \<and> (\<forall>n. map_of (msg_items d) n = (case map_of items n of
          None \<Rightarrow> map_of (msg_items diff) n
        | Some v \<Rightarrow> if items_differ fo v (findItem n (item_type v) other) then Some (recorded fo v) else None))"
  using assms
proof (induction items arbitrary: diff)
  case Nil
  then show ?case by simp
next
  case (Cons nv items)
  obtain n v where nv: "nv = (n, v)" by (cases nv)
  let ?differs = "items_differ fo v (findItem n (item_type v) other)"
  have new: "n \<notin> fst ` set items" "n \<notin> names diff" using Cons.prems(2,4) by (auto simp: nv)
  have "card (insert n (names diff)) \<le> card (names diff \<union> fst ` set (nv # items))"
    by (rule card_mono) (auto simp: nv)
  then obtain m' where m': "set_value n (recorded fo v) diff = Some m'"
    using set_value_fits [OF Cons.prems(1)] Cons.prems(5) by fastforce
  define diff' where "diff' = (if ?differs then m' else diff)"
  note eff = set_value_effect [OF m']
  have step: "changes_loop fo env deep (nv # items) other diff = changes_loop fo env deep items other diff'"
    using Cons.prems(3) by (auto simp: nv change_flat m' diff'_def)
  have wf: "amsg_wf diff'" using eff(4) Cons.prems(1) by (simp add: diff'_def)
  have names': "names diff' \<subseteq> insert n (names diff)" by (auto simp: diff'_def eff(5))
  have "card (names diff' \<union> fst ` set items) \<le> card (names diff \<union> fst ` set (nv # items))"
    using names' by (intro card_mono) (auto simp: nv)
  moreover have "names diff \<inter> fst ` set items = {}" using Cons.prems(4) by (simp add: nv)
  then have "names diff' \<inter> fst ` set items = {}" using names' new(1) by blast
  ultimately have "\<exists>d. changes_loop fo env deep items other diff' = Some d \<and> amsg_wf d
      \<and> names d \<subseteq> names diff' \<union> fst ` set items \<and> (\<forall>k. map_of (msg_items d) k = (case map_of items k of
          None \<Rightarrow> map_of (msg_items diff') k
        | Some w \<Rightarrow> if items_differ fo w (findItem k (item_type w) other) then Some (recorded fo w) else None))"
    using Cons.prems by (intro Cons.IH [OF wf]) (auto simp: nv)
  then obtain d where d: "changes_loop fo env deep items other diff' = Some d" "amsg_wf d"
    "names d \<subseteq> names diff' \<union> fst ` set items" "\<And>k. map_of (msg_items d) k = (case map_of items k of
          None \<Rightarrow> map_of (msg_items diff') k
        | Some w \<Rightarrow> if items_differ fo w (findItem k (item_type w) other) then Some (recorded fo w) else None)"
    by blast
  have n: "map_of items n = None" "map_of (msg_items diff) n = None" using new by (simp_all add: map_of_eq_None_iff)
  have "names d \<subseteq> names diff \<union> fst ` set (nv # items)" using d(3) names' by (auto simp: nv)
  moreover have "map_of (msg_items d) k = (case map_of (nv # items) k of
          None \<Rightarrow> map_of (msg_items diff) k
        | Some w \<Rightarrow> if items_differ fo w (findItem k (item_type w) other) then Some (recorded fo w) else None)" for k
  proof (cases "k = n")
    case True
    then show ?thesis using d(4) [of n] n by (simp add: nv diff'_def eff(1))
  next
    case False
    then show ?thesis using d(4) [of k] by (simp add: nv diff'_def eff(1) cong: option.case_cong)
  qed
  ultimately show ?case using step d(1,2) by auto
qed

lemma extend_loop_fits:
  assumes "amsg_wf m" and "card (names m \<union> fst ` set items) \<le> kMaxNumItems"
  shows "\<exists>r. extend_loop items m = Some r"
  using assms
proof (induction items arbitrary: m)
  case (Cons nv items)
  obtain n v where nv: "nv = (n, v)" by (cases nv)
  have "card (insert n (names m)) \<le> card (names m \<union> fst ` set (nv # items))" by (rule card_mono) (auto simp: nv)
  then obtain m' where m': "set_value n v m = Some m'"
    using set_value_fits [OF Cons.prems(1)] Cons.prems(2) by fastforce
  have "names m' \<union> fst ` set items = names m \<union> fst ` set (nv # items)" by (auto simp: set_value_effect(5) [OF m'] nv)
  with Cons.IH [of m'] set_value_effect(4) [OF m' Cons.prems(1)] Cons.prems(2) show ?case
    by (simp add: nv extend_loop_Cons m')
qed simp

text \<open>
  Differences and \<open>extend\<close>. For a message without nested messages, \<open>changesFrom\<close> another one
  succeeds, and extending the other by it, if the names fit, makes every item of the message
  found there with its value, unless it is a floating point number: a \<open>float\<close> or \<open>double\<close> that
  changed arrives as the conversion to floating point of its own bit pattern. Names that only
  the other has keep their items.
\<close>

theorem changes_then_extend:
  assumes "amsg_wf m" and "amsg_wf other" and "\<forall>(n, v) \<in> set (msg_items m). flat v"
    and "card (names m \<union> names other) \<le> kMaxNumItems"
  shows "\<exists>d r. changesFrom fo env deep m (Some other) = Some d \<and> amsg_extend (Some d) other = Some r \<and> amsg_wf r
    \<and> (\<forall>(n, v) \<in> set (msg_items m). findItem n (item_type v) r =
         (if items_differ fo v (findItem n (item_type v) other) then Some (recorded fo v) else findItem n (item_type v) other))
    \<and> (\<forall>n ty. n \<notin> names m \<longrightarrow> findItem n ty r = findItem n ty other)"
proof -
  obtain what tgt items where m: "m = AMessage what tgt items" by (cases m)
  define diff :: "'a amessage" where "diff = AMessage (if what \<noteq> msg_what other then what else 0)
      (if mHandler tgt \<noteq> mHandler (msg_target other) then target_of env (mHandler tgt) else no_target) []"
  have none: "msg_items diff = []" and "amsg_wf diff" by (simp_all add: diff_def amsg_wf_def countEntries_def)
  have "card (names diff \<union> fst ` set items) \<le> kMaxNumItems"
    using names_card [OF assms(1)] assms(1) by (simp add: none m amsg_wf_def)
  with \<open>amsg_wf diff\<close> obtain d where d: "changes_loop fo env deep items other diff = Some d" "amsg_wf d" "names d \<subseteq> fst ` set items"
    "\<And>n. map_of (msg_items d) n = (case map_of items n of None \<Rightarrow> None
        | Some v \<Rightarrow> if items_differ fo v (findItem n (item_type v) other) then Some (recorded fo v) else None)"
    using changes_loop_flat [of diff items fo env deep other] assms(1,3)
    by (auto simp: none m amsg_wf_def [of "AMessage _ _ _"] cong: option.case_cong)
  have "card (names other \<union> names d) \<le> card (names m \<union> names other)"
    using d(3) by (intro card_mono) (auto simp: m)
  then obtain r where r: "extend_loop (msg_items d) other = Some r"
    using extend_loop_fits [OF assms(2), of "msg_items d"] assms(4) by fastforce
  have "map_of (rev (msg_items d)) = map_of (msg_items d)"
    using d(2) by (simp add: amsg_wf_def map_of_inject_set rev_map [symmetric])
  then have found: "map_of (msg_items r) = map_of (msg_items other) ++ map_of (msg_items d)"
    using extend_loop_effect(1) [OF r] by simp
  have type: "item_type (recorded fo v) = item_type v" for v :: "'a item"
    by (cases "(fo, v)" rule: recorded.cases) auto
  have "findItem n (item_type v) r =
      (if items_differ fo v (findItem n (item_type v) other) then Some (recorded fo v) else findItem n (item_type v) other)"
    if "(n, v) \<in> set items" for n v
  proof -
    have "map_of items n = Some v" using that assms(1) by (simp add: m amsg_wf_def)
    then show ?thesis by (simp add: findItem_map_of [of _ _ r] findItem_map_of [of n _ other] found d(4) type map_add_def
      split: option.split)
  qed
  moreover have "findItem n ty r = findItem n ty other" if "n \<notin> names m" for n ty
  proof -
    have "map_of items n = None" using that by (simp add: m map_of_eq_None_iff)
    then show ?thesis by (simp add: findItem_map_of found d(4) map_add_def)
  qed
  moreover have "changesFrom fo env deep m (Some other) = Some d" using d(1) by (simp add: m diff_def)
  moreover have "amsg_wf r" by (rule extend_loop_effect(2) [OF r assms(2)])
  ultimately show ?thesis using r by (auto simp: amsg_extend_def m)
qed

text \<open>A changed integer arrives, a changed \<open>double\<close> does not.\<close>

definition sample_floats :: float_ops where
  "sample_floats = \<lparr>f64_to_f32 = ucast, i64_to_f32 = ucast, i32_to_f32 = (\<lambda>x. x), size_to_f32 = ucast,
     size_to_f64 = (\<lambda>x. x + 1), f32_differs = (\<noteq>), f64_differs = (\<noteq>), f32_as_size = ucast\<rparr>"

theorem changes_then_extend_witness:
  "\<exists>d r. changesFrom sample_floats (\<lambda>_. None) False (AMessage 1 no_target [(''w'', Int32 640), (''r'', Double 30)])
        (Some (AMessage 1 no_target [(''w'', Int32 320), (''h'', Int32 240)]) :: nat amessage option) = Some d
     \<and> amsg_extend (Some d) (AMessage 1 no_target [(''w'', Int32 320), (''h'', Int32 240)]) = Some r
     \<and> findItem ''w'' kTypeInt32 r = Some (Int32 640) \<and> findItem ''h'' kTypeInt32 r = Some (Int32 240)
     \<and> findItem ''r'' kTypeDouble r = Some (Double 31)"
proof -
  let ?m = "AMessage 1 no_target [(''w'', Int32 640), (''r'', Double 30)] :: nat amessage"
  let ?o = "AMessage 1 no_target [(''w'', Int32 320), (''h'', Int32 240)] :: nat amessage"
  have wf: "amsg_wf ?m" "amsg_wf ?o" by (simp_all add: amsg_wf_def countEntries_def kMaxNumItems_def)
  have flat: "\<forall>(n, v) \<in> set (msg_items ?m). flat v" by (simp add: flat_def)
  have "names ?m \<union> names ?o = {''w'', ''r'', ''h''}" by auto
  then have "card (names ?m \<union> names ?o) \<le> kMaxNumItems" by (simp add: kMaxNumItems_def)
  from changes_then_extend [OF wf flat this, of sample_floats "\<lambda>_. None" False] obtain d r where
    run: "changesFrom sample_floats (\<lambda>_. None) False ?m (Some ?o) = Some d" "amsg_extend (Some d) ?o = Some r"
    and mine: "\<forall>(n, v) \<in> set (msg_items ?m). findItem n (item_type v) r =
       (if items_differ sample_floats v (findItem n (item_type v) ?o) then Some (recorded sample_floats v) else findItem n (item_type v) ?o)"
    and other: "\<forall>n ty. n \<notin> names ?m \<longrightarrow> findItem n ty r = findItem n ty ?o"
    by blast
  have "findItem ''h'' kTypeInt32 r = Some (Int32 240)" using other by (simp add: findItem_map_of [of _ _ ?o])
  moreover have "findItem ''w'' kTypeInt32 r = Some (Int32 640)" "findItem ''r'' kTypeDouble r = Some (Double 31)"
    using mine by (simp_all add: findItem_map_of [of _ _ ?o] sample_floats_def)
  ultimately show ?thesis using run by blast
qed

end
