(* ===== verification/Sample_Table.thy ===== *)
theory Sample_Table
  imports Media_Prelude "HOL-Library.Multiset"
begin

text \<open>
  \<open>SampleTable\<close> and \<open>SampleIterator\<close> of the MP4 extractor (\<open>media/extractors/mp4\<close>): the tables that
  say where each sample of a track lies, how long it is and when it is shown. This theory has
  the data and the operations; \<open>Sample_Seek\<close> and \<open>Sample_Search\<close> prove them correct. Unsigned
  machine integers are natural numbers. The library is built with the sanitizers for signed and
  unsigned overflow (\<open>Android.bp\<close>), which trap; so \<open>None\<close> stands for an overflow, a failed \<open>CHECK\<close>
  or an access outside an array or to memory that was never written. Positions in the file are
  exact integers.
\<close>

section \<open>The file and the heap\<close>

text \<open>
  The data source delivers at most the bytes asked for, and allocation may fail; both are
  parameters, as are the content of an array that \<open>new\<close> leaves unset and the sorting function
  \<open>qsort\<close> of the C library, which is free in the order of equal elements.
\<close>

record file_env =
  readAt :: "int \<Rightarrow> nat \<Rightarrow> u8 list"
  alloc :: "nat \<Rightarrow> bool"
  unset :: "nat \<Rightarrow> nat \<times> nat"
  qsort :: "(nat \<times> nat) list \<Rightarrow> (nat \<times> nat) list"

definition be_value :: "u8 list \<Rightarrow> nat" where
  "be_value bs = foldl (\<lambda>v b. v * 256 + unat b) 0 bs"

definition U32_AT :: "u8 list \<Rightarrow> nat \<Rightarrow> nat" where
  "U32_AT bs i = be_value (take 4 (drop i bs))"

definition wrap_u32 :: "nat \<Rightarrow> nat" where
  "wrap_u32 n = n mod 2 ^ 32"

definition to_int32 :: "nat \<Rightarrow> int" where
  "to_int32 n = wrap_i32 (int n)"

section \<open>Data\<close>

record chunk_entry =
  startChunk :: nat
  samplesPerChunk :: nat
  chunkDesc :: nat

text \<open>\<open>CompositionDeltaLookup\<close>: pairs of a sample count and an offset, and the cached position.\<close>

record delta_lookup =
  mDeltaEntries :: "(nat \<times> int) list option"
  mCurrentDeltaEntry :: nat
  mCurrentEntrySampleIndex :: nat

record sample_iterator =
  mInitialized :: bool
  mSampleToChunkIndex :: nat
  mFirstChunk :: nat
  mFirstChunkSampleIndex :: nat
  mStopChunk :: nat
  mStopChunkSampleIndex :: nat
  mSamplesPerChunk :: nat
  mChunkDesc :: nat
  mCurrentChunkIndex :: nat
  mCurrentChunkOffset :: int
  mCurrentChunkSampleSizes :: "nat list"
  mTimeToSampleIndex :: nat
  mTTSSampleIndex :: nat
  mTTSSampleTime :: nat
  mTTSCount :: nat
  mTTSDuration :: nat
  mCurrentSampleIndex :: nat
  mCurrentSampleOffset :: int
  mCurrentSampleSize :: nat
  mCurrentSampleTime :: nat
  mCurrentSampleDuration :: nat

datatype offset_type = kChunkOffsetType32 | kChunkOffsetType64
datatype size_type = kSampleSizeType32 | kSampleSizeTypeCompact

text \<open>
  The table. \<open>mTimeToSample\<close> is the array of counts and durations in pairs; an entry of
  \<open>mSampleTimeEntries\<close> is a sample index with its composition time.
\<close>

record sample_table =
  mChunkOffsetOffset :: int
  mChunkOffsetType :: offset_type
  mNumChunkOffsets :: nat
  mSampleToChunkOffset :: int
  mNumSampleToChunkOffsets :: nat
  mSampleSizeOffset :: int
  mSampleSizeFieldSize :: nat
  mDefaultSampleSize :: nat
  mNumSampleSizes :: nat
  mHasTimeToSample :: bool
  mTimeToSampleCount :: nat
  mTimeToSample :: "(nat \<times> nat) list"
  mSampleTimeEntries :: "(nat \<times> nat) list option"
  mCompositionTimeDeltaEntries :: "(nat \<times> int) list option"
  mCompositionDeltaLookup :: delta_lookup
  mSyncSampleOffset :: int
  mNumSyncSamples :: nat
  mSyncSamples :: "nat list"
  mLastSyncSampleIndex :: nat
  mSampleIterator :: sample_iterator
  mSampleToChunkEntries :: "chunk_entry list"
  mTotalSize :: nat

definition kMaxTotalSize :: nat where
  "kMaxTotalSize = 200 * 2 ^ 20"

definition reset :: "sample_iterator \<Rightarrow> sample_iterator" where
  "reset it = it\<lparr>mSampleToChunkIndex := 0, mFirstChunk := 0, mFirstChunkSampleIndex := 0, mStopChunk := 0,
     mStopChunkSampleIndex := 0, mSamplesPerChunk := 0, mChunkDesc := 0\<rparr>"

text \<open>The fields that the constructor leaves open are zero here; they are not read before \<open>mInitialized\<close>.\<close>

definition new_iterator :: sample_iterator where
  "new_iterator =
     \<lparr>mInitialized = False, mSampleToChunkIndex = 0, mFirstChunk = 0, mFirstChunkSampleIndex = 0, mStopChunk = 0,
      mStopChunkSampleIndex = 0, mSamplesPerChunk = 0, mChunkDesc = 0, mCurrentChunkIndex = 0,
      mCurrentChunkOffset = 0, mCurrentChunkSampleSizes = [], mTimeToSampleIndex = 0, mTTSSampleIndex = 0,
      mTTSSampleTime = 0, mTTSCount = 0, mTTSDuration = 0, mCurrentSampleIndex = 0, mCurrentSampleOffset = 0,
      mCurrentSampleSize = 0, mCurrentSampleTime = 0, mCurrentSampleDuration = 0\<rparr>"

definition new_lookup :: delta_lookup where
  "new_lookup = \<lparr>mDeltaEntries = None, mCurrentDeltaEntry = 0, mCurrentEntrySampleIndex = 0\<rparr>"

definition new_table :: sample_table where
  "new_table =
     \<lparr>mChunkOffsetOffset = -1, mChunkOffsetType = kChunkOffsetType32, mNumChunkOffsets = 0,
      mSampleToChunkOffset = -1, mNumSampleToChunkOffsets = 0, mSampleSizeOffset = -1, mSampleSizeFieldSize = 0,
      mDefaultSampleSize = 0, mNumSampleSizes = 0, mHasTimeToSample = False, mTimeToSampleCount = 0,
      mTimeToSample = [], mSampleTimeEntries = None, mCompositionTimeDeltaEntries = None,
      mCompositionDeltaLookup = new_lookup, mSyncSampleOffset = -1, mNumSyncSamples = 0, mSyncSamples = [],
      mLastSyncSampleIndex = 0, mSampleIterator = new_iterator, mSampleToChunkEntries = [], mTotalSize = 0\<rparr>"

definition isValid :: "sample_table \<Rightarrow> bool" where
  "isValid t \<longleftrightarrow> mChunkOffsetOffset t \<ge> 0 \<and> mSampleToChunkOffset t \<ge> 0 \<and> mSampleSizeOffset t \<ge> 0 \<and> mHasTimeToSample t"

section \<open>Composition time offsets\<close>

definition setEntries :: "(nat \<times> int) list \<Rightarrow> delta_lookup \<Rightarrow> delta_lookup" where
  "setEntries es lk = \<lparr>mDeltaEntries = Some es, mCurrentDeltaEntry = 0, mCurrentEntrySampleIndex = 0\<rparr>"

text \<open>The loop from the cached entry on; it gives the offset and the new position.\<close>

fun delta_loop :: "nat \<Rightarrow> nat \<Rightarrow> nat \<Rightarrow> (nat \<times> int) list \<Rightarrow> int \<times> nat \<times> nat" where
  "delta_loop sampleIndex entry first [] = (0, entry, first)"
| "delta_loop sampleIndex entry first ((sampleCount, off) # es) =
     (if sampleIndex < first + sampleCount then (off, entry, first)
      else delta_loop sampleIndex (entry + 1) (first + sampleCount) es)"

definition getCompositionTimeOffset :: "nat \<Rightarrow> delta_lookup \<Rightarrow> int \<times> delta_lookup" where
  "getCompositionTimeOffset sampleIndex lk =
     (case mDeltaEntries lk of
        None \<Rightarrow> (0, lk)
      | Some es \<Rightarrow>
          let lk = (if sampleIndex < mCurrentEntrySampleIndex lk
                    then lk\<lparr>mCurrentDeltaEntry := 0, mCurrentEntrySampleIndex := 0\<rparr> else lk);
              (off, entry, first) = delta_loop sampleIndex (mCurrentDeltaEntry lk) (mCurrentEntrySampleIndex lk)
                (drop (mCurrentDeltaEntry lk) es)
          in (off, lk\<lparr>mCurrentDeltaEntry := entry, mCurrentEntrySampleIndex := first\<rparr>))"

section \<open>Reading the boxes\<close>

definition setChunkOffsetParams :: "file_env \<Rightarrow> offset_type \<Rightarrow> int \<Rightarrow> nat \<Rightarrow> sample_table \<Rightarrow> status \<times> sample_table" where
  "setChunkOffsetParams env type data_offset data_size t =
     (if mChunkOffsetOffset t \<ge> 0 then (ERROR_MALFORMED, t)
      else let t = t\<lparr>mChunkOffsetOffset := data_offset, mChunkOffsetType := type\<rparr>
      in if data_size < 8 then (ERROR_MALFORMED, t)
      else let header = readAt env data_offset 8
      in if length header < 8 then (ERROR_IO, t)
      else if U32_AT header 0 \<noteq> 0 then (ERROR_MALFORMED, t)
      else let t = t\<lparr>mNumChunkOffsets := U32_AT header 4\<rparr>
      in if (data_size - 8) div (if type = kChunkOffsetType32 then 4 else 8) < mNumChunkOffsets t then (ERROR_MALFORMED, t)
      else (OK, t))"

text \<open>The loop over the entries, \<open>todo\<close> of them from number \<open>i\<close> on.\<close>

fun read_chunk_entries :: "file_env \<Rightarrow> int \<Rightarrow> nat \<Rightarrow> nat \<Rightarrow> chunk_entry list \<Rightarrow> status \<times> chunk_entry list" where
  "read_chunk_entries env off i 0 acc = (OK, acc)"
| "read_chunk_entries env off i (Suc todo) acc =
     (let buffer = readAt env (off + 8 + int i * 12) 12
      in if length buffer \<noteq> 12 then (ERROR_IO, acc)
         else if U32_AT buffer 0 < 1 then (ERROR_OUT_OF_RANGE, acc)
         else read_chunk_entries env off (i + 1) todo
                (acc @ [\<lparr>startChunk = U32_AT buffer 0 - 1, samplesPerChunk = U32_AT buffer 4, chunkDesc = U32_AT buffer 8\<rparr>]))"

definition setSampleToChunkParams :: "file_env \<Rightarrow> int \<Rightarrow> nat \<Rightarrow> sample_table \<Rightarrow> status \<times> sample_table" where
  "setSampleToChunkParams env data_offset data_size t =
     (if mSampleToChunkOffset t \<ge> 0 then (ERROR_MALFORMED, t)
      else if data_offset < 0 then (ERROR_MALFORMED, t)
      else let t = t\<lparr>mSampleToChunkOffset := data_offset\<rparr>
      in if data_size < 8 then (ERROR_MALFORMED, t)
      else let header = readAt env data_offset 8
      in if length header < 8 then (ERROR_IO, t)
      else if U32_AT header 0 \<noteq> 0 then (ERROR_MALFORMED, t)
      else let n = U32_AT header 4; t = t\<lparr>mNumSampleToChunkOffsets := n\<rparr>
      in if (data_size - 8) div 12 < n then (ERROR_MALFORMED, t)
      else if kMaxTotalSize div 12 \<le> n then (ERROR_OUT_OF_RANGE, t)
      else let t = t\<lparr>mTotalSize := mTotalSize t + n * 12\<rparr>
      in if mTotalSize t > kMaxTotalSize then (ERROR_OUT_OF_RANGE, t)
      else if \<not> alloc env (n * 12) then (ERROR_OUT_OF_RANGE, t)
      else if n = 0 then (OK, t\<lparr>mSampleToChunkEntries := []\<rparr>)
      else if 2 ^ 63 - 1 - 8 - int ((n - 1) * 12) < data_offset then (ERROR_MALFORMED, t)
      else let (err, entries) = read_chunk_entries env data_offset 0 n []
      in (err, t\<lparr>mSampleToChunkEntries := entries\<rparr>))"

definition setSampleSizeParams :: "file_env \<Rightarrow> size_type \<Rightarrow> int \<Rightarrow> nat \<Rightarrow> sample_table \<Rightarrow> status \<times> sample_table" where
  "setSampleSizeParams env type data_offset data_size t =
     (if mSampleSizeOffset t \<ge> 0 then (ERROR_MALFORMED, t)
      else let t = t\<lparr>mSampleSizeOffset := data_offset\<rparr>
      in if data_size < 12 then (ERROR_MALFORMED, t)
      else let header = readAt env data_offset 12
      in if length header < 12 then (ERROR_IO, t)
      else if U32_AT header 0 \<noteq> 0 then (ERROR_MALFORMED, t)
      else let t = t\<lparr>mDefaultSampleSize := U32_AT header 4, mNumSampleSizes := U32_AT header 8\<rparr>
      in if mNumSampleSizes t > (2 ^ 32 - 1 - 12) div 16 then (ERROR_MALFORMED, t)
      else if type = kSampleSizeType32
      then (let t = t\<lparr>mSampleSizeFieldSize := 32\<rparr>
            in if mDefaultSampleSize t \<noteq> 0 then (OK, t)
               else if data_size < 12 + mNumSampleSizes t * 4 then (ERROR_MALFORMED, t) else (OK, t))
      else if mDefaultSampleSize t \<ge> 256 then (ERROR_MALFORMED, t)
      else (let t = t\<lparr>mSampleSizeFieldSize := mDefaultSampleSize t, mDefaultSampleSize := 0\<rparr>
            in if mSampleSizeFieldSize t \<notin> {4, 8, 16} then (ERROR_MALFORMED, t)
               else if data_size < 12 + (mNumSampleSizes t * mSampleSizeFieldSize t + 4) div 8 then (ERROR_MALFORMED, t)
               else (OK, t)))"

text \<open>Big-endian 32 bit numbers of a byte array, in pairs and one by one.\<close>

fun u32_pairs :: "nat \<Rightarrow> u8 list \<Rightarrow> (nat \<times> nat) list" where
  "u32_pairs 0 bs = []"
| "u32_pairs (Suc n) bs = (U32_AT bs 0, U32_AT bs 4) # u32_pairs n (drop 8 bs)"

fun u32_list :: "nat \<Rightarrow> u8 list \<Rightarrow> nat list" where
  "u32_list 0 bs = []"
| "u32_list (Suc n) bs = U32_AT bs 0 # u32_list n (drop 4 bs)"

definition setTimeToSampleParams :: "file_env \<Rightarrow> int \<Rightarrow> nat \<Rightarrow> sample_table \<Rightarrow> status \<times> sample_table" where
  "setTimeToSampleParams env data_offset data_size t =
     (if mHasTimeToSample t \<or> data_size < 8 then (ERROR_MALFORMED, t)
      else let header = readAt env data_offset 8
      in if length header < 8 then (ERROR_IO, t)
      else if U32_AT header 0 \<noteq> 0 then (ERROR_MALFORMED, t)
      else let n = U32_AT header 4; t = t\<lparr>mTimeToSampleCount := n\<rparr>
      in if n > (2 ^ 32 - 1) div 8 then (ERROR_OUT_OF_RANGE, t)
      else let t = t\<lparr>mTotalSize := mTotalSize t + n * 8\<rparr>
      in if mTotalSize t > kMaxTotalSize then (ERROR_OUT_OF_RANGE, t)
      else if \<not> alloc env (n * 8) then (ERROR_OUT_OF_RANGE, t)
      else let bytes = readAt env (data_offset + 8) (n * 8)
      in if length bytes < n * 8 then (ERROR_IO, t)
      else (OK, t\<lparr>mTimeToSample := u32_pairs n bytes, mHasTimeToSample := True\<rparr>))"

definition setCompositionTimeToSampleParams :: "file_env \<Rightarrow> int \<Rightarrow> nat \<Rightarrow> sample_table \<Rightarrow> status \<times> sample_table" where
  "setCompositionTimeToSampleParams env data_offset data_size t =
     (if mCompositionTimeDeltaEntries t \<noteq> None \<or> data_size < 8 then (ERROR_MALFORMED, t)
      else let header = readAt env data_offset 8
      in if length header < 8 then (ERROR_IO, t)
      else let version = U32_AT header 0 div 2 ^ 24; flags = U32_AT header 0 mod 2 ^ 24
      in if (version \<noteq> 0 \<and> version \<noteq> 1) \<or> flags \<noteq> 0 then (ERROR_MALFORMED, t)
      else let n = U32_AT header 4
      in if data_size \<noteq> (n + 1) * 8 then (ERROR_MALFORMED, t)
      else if n * 8 > kMaxTotalSize then (ERROR_OUT_OF_RANGE, t)
      else let t = t\<lparr>mTotalSize := mTotalSize t + n * 8\<rparr>
      in if mTotalSize t > kMaxTotalSize then (ERROR_OUT_OF_RANGE, t)
      else if \<not> alloc env (n * 8) then (ERROR_OUT_OF_RANGE, t)
      else let bytes = readAt env (data_offset + 8) (n * 8)
      in if length bytes < n * 8 then (ERROR_IO, t)
      else let es = map (\<lambda>(c, d). (c, to_int32 d)) (u32_pairs n bytes)
      in (OK, t\<lparr>mCompositionTimeDeltaEntries := Some es, mCompositionDeltaLookup := setEntries es (mCompositionDeltaLookup t)\<rparr>))"

definition setSyncSampleParams :: "file_env \<Rightarrow> int \<Rightarrow> nat \<Rightarrow> sample_table \<Rightarrow> status \<times> sample_table" where
  "setSyncSampleParams env data_offset data_size t =
     (if mSyncSampleOffset t \<ge> 0 \<or> data_size < 8 then (ERROR_MALFORMED, t)
      else let header = readAt env data_offset 8
      in if length header < 8 then (ERROR_IO, t)
      else if U32_AT header 0 \<noteq> 0 then (ERROR_MALFORMED, t)
      else let n = U32_AT header 4
      in if n * 4 > kMaxTotalSize then (ERROR_OUT_OF_RANGE, t)
      else let t = t\<lparr>mTotalSize := mTotalSize t + n * 4\<rparr>
      in if mTotalSize t > kMaxTotalSize then (ERROR_OUT_OF_RANGE, t)
      else if \<not> alloc env (n * 4) then (ERROR_OUT_OF_RANGE, t)
      else let bytes = readAt env (data_offset + 8) (n * 4)
      in if length bytes \<noteq> n * 4 then (ERROR_IO, t)
      else (OK, t\<lparr>mSyncSamples := map (\<lambda>x. x - 1) (u32_list n bytes), mSyncSampleOffset := data_offset, mNumSyncSamples := n\<rparr>))"

definition setPredictSampleSize :: "nat \<Rightarrow> sample_table \<Rightarrow> sample_table" where
  "setPredictSampleSize sampleSize t = t\<lparr>mDefaultSampleSize := sampleSize\<rparr>"

definition countChunkOffsets :: "sample_table \<Rightarrow> nat" where
  "countChunkOffsets t = mNumChunkOffsets t"

definition countSamples :: "sample_table \<Rightarrow> nat" where
  "countSamples t = mNumSampleSizes t"

section \<open>The iterator\<close>

text \<open>
  The loop of \<open>findChunkRange\<close>; each round uses up an entry. An entry that the array does not have
  is an access out of bounds.
\<close>

function findChunkRange :: "sample_table \<Rightarrow> nat \<Rightarrow> sample_iterator \<Rightarrow> (status \<times> sample_iterator) option" where
  "findChunkRange t sampleIndex it =
     (if sampleIndex < mStopChunkSampleIndex it then Some (OK, it)
      else if mSampleToChunkIndex it \<ge> mNumSampleToChunkOffsets t then Some (ERROR_OUT_OF_RANGE, it)
      else if mSampleToChunkIndex it \<ge> length (mSampleToChunkEntries t) then None
      else
        (let first = mStopChunkSampleIndex it;
             entry = mSampleToChunkEntries t ! mSampleToChunkIndex it;
             it = it\<lparr>mFirstChunkSampleIndex := first, mFirstChunk := startChunk entry,
                     mSamplesPerChunk := samplesPerChunk entry, mChunkDesc := chunkDesc entry\<rparr>;
             k = mSampleToChunkIndex it
         in if k + 1 < mNumSampleToChunkOffsets t
            then if k + 1 \<ge> length (mSampleToChunkEntries t) then None
                 else
                   (let stop = startChunk (mSampleToChunkEntries t ! (k + 1));
                        it = it\<lparr>mStopChunk := stop\<rparr>
                    in if mSamplesPerChunk it = 0 \<or> stop < mFirstChunk it
                          \<or> stop - mFirstChunk it > (2 ^ 32 - 1) div mSamplesPerChunk it
                          \<or> (stop - mFirstChunk it) * mSamplesPerChunk it > 2 ^ 32 - 1 - first
                       then Some (ERROR_OUT_OF_RANGE, it)
                       else findChunkRange t sampleIndex
                              (it\<lparr>mStopChunkSampleIndex := first + (stop - mFirstChunk it) * mSamplesPerChunk it,
                                  mSampleToChunkIndex := k + 1\<rparr>))
            else findChunkRange t sampleIndex
                   (it\<lparr>mStopChunk := 2 ^ 32 - 1, mStopChunkSampleIndex := 2 ^ 32 - 1, mSampleToChunkIndex := k + 1\<rparr>)))"
  by auto
termination
  by (relation "measure (\<lambda>(t, i, it). mNumSampleToChunkOffsets t - mSampleToChunkIndex it)") (auto simp: Let_def)

declare findChunkRange.simps [simp del]

text \<open>The offset is zero when it cannot be read.\<close>

definition getChunkOffset :: "file_env \<Rightarrow> sample_table \<Rightarrow> nat \<Rightarrow> (status \<times> int) option" where
  "getChunkOffset env t chunk =
     (if chunk \<ge> mNumChunkOffsets t then Some (ERROR_OUT_OF_RANGE, 0)
      else if mChunkOffsetType t = kChunkOffsetType32
      then if 4 * chunk \<ge> 2 ^ 32 then None
           else Some (let bs = readAt env (mChunkOffsetOffset t + 8 + int (4 * chunk)) 4
                      in if length bs < 4 then (ERROR_IO, 0) else (OK, int (be_value bs)))
      else if 8 * chunk \<ge> 2 ^ 32 then None
           else Some (let bs = readAt env (mChunkOffsetOffset t + 8 + int (8 * chunk)) 8
                      in if length bs < 8 then (ERROR_IO, 0) else (OK, wrap_i64 (int (be_value bs)))))"

definition size_field :: "file_env \<Rightarrow> int \<Rightarrow> nat \<Rightarrow> status \<times> nat" where
  "size_field env off n = (let bs = readAt env off n in if length bs < n then (ERROR_IO, 0) else (OK, be_value bs))"

definition getSampleSizeDirect :: "file_env \<Rightarrow> sample_table \<Rightarrow> nat \<Rightarrow> (status \<times> nat) option" where
  "getSampleSizeDirect env t sampleIndex =
     (if sampleIndex \<ge> mNumSampleSizes t then Some (ERROR_OUT_OF_RANGE, 0)
      else if mDefaultSampleSize t > 0 then Some (OK, mDefaultSampleSize t)
      else let off = mSampleSizeOffset t + 12
      in if mSampleSizeFieldSize t = 32
         then if 4 * sampleIndex \<ge> 2 ^ 32 then None else Some (size_field env (off + int (4 * sampleIndex)) 4)
         else if mSampleSizeFieldSize t = 16
         then if 2 * sampleIndex \<ge> 2 ^ 32 then None else Some (size_field env (off + int (2 * sampleIndex)) 2)
         else if mSampleSizeFieldSize t = 8 then Some (size_field env (off + int sampleIndex) 1)
         else if mSampleSizeFieldSize t \<noteq> 4 then None
         else Some (let (err, x) = size_field env (off + int (sampleIndex div 2)) 1
                    in (err, if err \<noteq> OK then 0 else if odd sampleIndex then x mod 16 else x div 16)))"

text \<open>
  The loop that reads the sizes of a chunk. It stops early at the end of the size table, then
  with the number of samples that were there.
\<close>

datatype sizes_read = Sizes_all "nat list" | Sizes_short "nat list" | Sizes_error status

fun read_sizes :: "file_env \<Rightarrow> sample_table \<Rightarrow> nat \<Rightarrow> nat \<Rightarrow> nat list \<Rightarrow> sizes_read option" where
  "read_sizes env t index 0 acc = Some (Sizes_all acc)"
| "read_sizes env t index (Suc todo) acc =
     (case getSampleSizeDirect env t index of
        None \<Rightarrow> None
      | Some (err, sz) \<Rightarrow>
          if err = OK then read_sizes env t (index + 1) todo (acc @ [sz])
          else if err = ERROR_OUT_OF_RANGE then Some (Sizes_short acc)
          else Some (Sizes_error err))"

text \<open>Errors end an operation, \<open>OK\<close> goes on.\<close>

type_synonym table_result = "(status \<times> sample_table) option"

definition and_then :: "table_result \<Rightarrow> (sample_table \<Rightarrow> table_result) \<Rightarrow> table_result" where
  "and_then r f = (case r of None \<Rightarrow> None | Some (err, t) \<Rightarrow> if err = OK then f t else Some (err, t))"

definition set_iter :: "sample_iterator \<Rightarrow> sample_table \<Rightarrow> sample_table" where
  "set_iter it t = t\<lparr>mSampleIterator := it\<rparr>"

text \<open>The parts of \<open>seekTo\<close>: the range of chunks, the chunk, the place in it, the time.\<close>

definition seek_range :: "nat \<Rightarrow> sample_table \<Rightarrow> table_result" where
  "seek_range sampleIndex t =
     (let it = mSampleIterator t;
          it = (if \<not> mInitialized it \<or> sampleIndex < mFirstChunkSampleIndex it then reset it else it)
      in case (if sampleIndex \<ge> mStopChunkSampleIndex it then findChunkRange t sampleIndex it else Some (OK, it)) of
           None \<Rightarrow> None
         | Some (err, it) \<Rightarrow>
             if err \<noteq> OK then Some (err, set_iter it t)
             else if \<not> sampleIndex < mStopChunkSampleIndex it then None
             else if mSamplesPerChunk it = 0 then Some (ERROR_MALFORMED, set_iter it t)
             else Some (OK, set_iter it t))"

definition seek_chunk :: "file_env \<Rightarrow> nat \<Rightarrow> sample_table \<Rightarrow> table_result" where
  "seek_chunk env sampleIndex t =
     (let it = mSampleIterator t;
          nth_chunk = (sampleIndex - mFirstChunkSampleIndex it) div mSamplesPerChunk it;
          chunk = nth_chunk + mFirstChunk it
      in if chunk \<ge> 2 ^ 32 then None
         else if mInitialized it \<and> chunk = mCurrentChunkIndex it then Some (OK, t)
         else case getChunkOffset env t chunk of
           None \<Rightarrow> None
         | Some (err, off) \<Rightarrow>
             (let it = it\<lparr>mCurrentChunkOffset := off\<rparr>
              in if err \<noteq> OK then Some (err, set_iter it t)
                 else case read_sizes env t (mFirstChunkSampleIndex it + mSamplesPerChunk it * nth_chunk) (mSamplesPerChunk it) [] of
                   None \<Rightarrow> None
                 | Some (Sizes_error err) \<Rightarrow> Some (err, set_iter (it\<lparr>mCurrentChunkSampleSizes := []\<rparr>) t)
                 | Some (Sizes_short sizes) \<Rightarrow>
                     Some (OK, set_iter (it\<lparr>mCurrentChunkSampleSizes := sizes, mSamplesPerChunk := length sizes,
                                            mCurrentChunkIndex := chunk\<rparr>) t)
                 | Some (Sizes_all sizes) \<Rightarrow>
                     Some (OK, set_iter (it\<lparr>mCurrentChunkSampleSizes := sizes, mCurrentChunkIndex := chunk\<rparr>) t)))"

text \<open>The sum is taken in 64 bit unsigned and stored as a signed number.\<close>

fun add_sizes :: "int \<Rightarrow> nat list \<Rightarrow> int option" where
  "add_sizes off [] = Some off"
| "add_sizes off (s # ss) = (if off mod 2 ^ 64 + int s \<ge> 2 ^ 64 then None else add_sizes (wrap_i64 (off + int s)) ss)"

definition seek_offset :: "nat \<Rightarrow> sample_table \<Rightarrow> table_result" where
  "seek_offset sampleIndex t =
     (let it = mSampleIterator t
      in if mSamplesPerChunk it = 0 then None
         else
           (let rel = (sampleIndex - mFirstChunkSampleIndex it) mod mSamplesPerChunk it;
                sizes = mCurrentChunkSampleSizes it
            in if rel \<ge> length sizes then None
               else case add_sizes (mCurrentChunkOffset it) (take rel sizes) of
                 None \<Rightarrow> None
               | Some off \<Rightarrow> Some (OK, set_iter (it\<lparr>mCurrentSampleOffset := off, mCurrentSampleSize := sizes ! rel\<rparr>) t)))"

text \<open>The loop that finds the run of equal durations.\<close>

function find_time :: "sample_table \<Rightarrow> nat \<Rightarrow> sample_iterator \<Rightarrow> (status \<times> sample_iterator) option" where
  "find_time t sampleIndex it =
     (if mTTSSampleIndex it > 2 ^ 32 - 1 - mTTSCount it then Some (ERROR_OUT_OF_RANGE, it)
      else if sampleIndex < mTTSSampleIndex it + mTTSCount it then Some (OK, it)
      else if mTimeToSampleIndex it \<ge> mTimeToSampleCount t
           \<or> (mTTSDuration it \<noteq> 0 \<and> mTTSCount it > (2 ^ 64 - 1) div mTTSDuration it)
           \<or> mTTSSampleTime it > 2 ^ 64 - 1 - mTTSCount it * mTTSDuration it
      then Some (ERROR_OUT_OF_RANGE, it)
      else if mTimeToSampleIndex it \<ge> length (mTimeToSample t) then None
      else find_time t sampleIndex
             (it\<lparr>mTTSSampleIndex := mTTSSampleIndex it + mTTSCount it,
                 mTTSSampleTime := mTTSSampleTime it + mTTSCount it * mTTSDuration it,
                 mTTSCount := fst (mTimeToSample t ! mTimeToSampleIndex it),
                 mTTSDuration := snd (mTimeToSample t ! mTimeToSampleIndex it),
                 mTimeToSampleIndex := mTimeToSampleIndex it + 1\<rparr>))"
  by auto
termination
  by (relation "measure (\<lambda>(t, i, it). mTimeToSampleCount t - mTimeToSampleIndex it)") auto

declare find_time.simps [simp del]

text \<open>When the code calls the sum of a time and an offset an overflow.\<close>

definition offset_overflows :: "nat \<Rightarrow> nat \<Rightarrow> int \<Rightarrow> bool" where
  "offset_overflows limit time off \<longleftrightarrow>
     (off < 0 \<and> int time < (if off = - (2 ^ 31) then int limit else - off)) \<or> (off > 0 \<and> int time > 2 ^ 64 - 1 - off)"

definition findSampleTimeAndDuration :: "nat \<Rightarrow> sample_table \<Rightarrow> table_result" where
  "findSampleTimeAndDuration sampleIndex t =
     (if sampleIndex \<ge> mNumSampleSizes t then Some (ERROR_OUT_OF_RANGE, t)
      else case find_time t sampleIndex (mSampleIterator t) of
        None \<Rightarrow> None
      | Some (err, it) \<Rightarrow>
          if err \<noteq> OK then Some (err, set_iter it t)
          else if sampleIndex < mTTSSampleIndex it \<or> mTTSDuration it * (sampleIndex - mTTSSampleIndex it) \<ge> 2 ^ 64
               \<or> mTTSSampleTime it + mTTSDuration it * (sampleIndex - mTTSSampleIndex it) \<ge> 2 ^ 64
          then Some (ERROR_OUT_OF_RANGE, set_iter it t)
          else
            (let time = mTTSSampleTime it + mTTSDuration it * (sampleIndex - mTTSSampleIndex it);
                 (off, lk) = getCompositionTimeOffset sampleIndex (mCompositionDeltaLookup t);
                 t = t\<lparr>mCompositionDeltaLookup := lk\<rparr>
             in if offset_overflows (2 ^ 63 - 1) time off
                then Some (ERROR_OUT_OF_RANGE, set_iter (it\<lparr>mCurrentSampleTime := time\<rparr>) t)
                else if off = - (2 ^ 31) then None
                else Some (OK, set_iter (it\<lparr>mCurrentSampleTime := nat (int time + off), mCurrentSampleDuration := mTTSDuration it\<rparr>) t)))"

definition seek_time :: "nat \<Rightarrow> sample_table \<Rightarrow> table_result" where
  "seek_time sampleIndex t =
     (let it = mSampleIterator t;
          it = (if sampleIndex < mTTSSampleIndex it
                then it\<lparr>mTimeToSampleIndex := 0, mTTSSampleIndex := 0, mTTSSampleTime := 0, mTTSCount := 0, mTTSDuration := 0\<rparr>
                else it)
      in and_then (findSampleTimeAndDuration sampleIndex (set_iter it t))
           (\<lambda>t. Some (OK, set_iter ((mSampleIterator t)\<lparr>mCurrentSampleIndex := sampleIndex, mInitialized := True\<rparr>) t)))"

definition seekTo :: "file_env \<Rightarrow> nat \<Rightarrow> sample_table \<Rightarrow> table_result" where
  "seekTo env sampleIndex t =
     (if sampleIndex \<ge> mNumSampleSizes t then Some (ERROR_END_OF_STREAM, t)
      else if mSampleToChunkOffset t < 0 \<or> mChunkOffsetOffset t < 0 \<or> mSampleSizeOffset t < 0 \<or> mTimeToSampleCount t = 0
      then Some (ERROR_MALFORMED, t)
      else if mInitialized (mSampleIterator t) \<and> mCurrentSampleIndex (mSampleIterator t) = sampleIndex then Some (OK, t)
      else and_then (seek_range sampleIndex t) (\<lambda>t. and_then (seek_chunk env sampleIndex t)
             (\<lambda>t. and_then (seek_offset sampleIndex t) (seek_time sampleIndex))))"

definition getLastSampleIndexInChunk :: "sample_table \<Rightarrow> nat option" where
  "getLastSampleIndexInChunk t =
     (let it = mSampleIterator t; cur = mCurrentSampleIndex it
      in if mSamplesPerChunk it = 0 \<or> cur < mFirstChunkSampleIndex it \<or> cur + mSamplesPerChunk it \<ge> 2 ^ 32 then None
         else Some (cur + mSamplesPerChunk it - (cur - mFirstChunkSampleIndex it) mod mSamplesPerChunk it - 1))"

section \<open>The table of composition times\<close>

definition getSampleSize_l :: "file_env \<Rightarrow> sample_table \<Rightarrow> nat \<Rightarrow> (status \<times> nat) option" where
  "getSampleSize_l env t sampleIndex = getSampleSizeDirect env t sampleIndex"

text \<open>The loop of \<open>getMaxSampleSize\<close>, with \<open>todo\<close> samples left from number \<open>i\<close> on.\<close>

fun max_size_loop :: "file_env \<Rightarrow> sample_table \<Rightarrow> nat \<Rightarrow> nat \<Rightarrow> nat \<Rightarrow> (status \<times> nat) option" where
  "max_size_loop env t i 0 max_size = Some (OK, max_size)"
| "max_size_loop env t i (Suc todo) max_size =
     (case getSampleSize_l env t i of
        None \<Rightarrow> None
      | Some (err, sample_size) \<Rightarrow>
          if err \<noteq> OK then Some (err, max_size)
          else max_size_loop env t (i + 1) todo (if sample_size > max_size then sample_size else max_size))"

definition getMaxSampleSize :: "file_env \<Rightarrow> sample_table \<Rightarrow> (status \<times> nat) option" where
  "getMaxSampleSize env t = max_size_loop env t 0 (mNumSampleSizes t) 0"

text \<open>The difference is returned as a 32 bit number.\<close>

definition abs_difference :: "nat \<Rightarrow> nat \<Rightarrow> nat" where
  "abs_difference time1 time2 = wrap_u32 (if time1 > time2 then time1 - time2 else time2 - time1)"

record fill_state =
  fillIndex :: nat
  fillTime :: nat
  fillLookup :: delta_lookup
  fillEntries :: "(nat \<times> nat) list"

definition fill_one :: "nat \<Rightarrow> nat \<Rightarrow> fill_state \<Rightarrow> fill_state option" where
  "fill_one num delta s =
     (let i = fillIndex s;
          (off, lk) = getCompositionTimeOffset i (fillLookup s);
          bad = offset_overflows (2 ^ 31 - 1) (fillTime s) off;
          time = (if bad then if off < 0 then 0 else 2 ^ 64 - 1 else fillTime s);
          off = (if bad then 0 else off)
      in if i < num \<and> off = - (2 ^ 31) then None
         else if i + 1 \<ge> 2 ^ 32 then None
         else
           (let s = (if i < num
                     then s\<lparr>fillTime := time, fillLookup := lk, fillEntries := (fillEntries s)[i := (i, nat (int time + off))]\<rparr>
                     else s)
            in Some (s\<lparr>fillIndex := i + 1, fillTime := (if fillTime s > 2 ^ 64 - 1 - delta then 2 ^ 64 - 1 else fillTime s + delta)\<rparr>)))"

fun fill_run :: "nat \<Rightarrow> nat \<Rightarrow> nat \<Rightarrow> fill_state \<Rightarrow> fill_state option" where
  "fill_run num delta 0 s = Some s"
| "fill_run num delta (Suc n) s = (case fill_one num delta s of None \<Rightarrow> None | Some s \<Rightarrow> fill_run num delta n s)"

fun fill_runs :: "nat \<Rightarrow> (nat \<times> nat) list \<Rightarrow> fill_state \<Rightarrow> fill_state option" where
  "fill_runs num [] s = Some s"
| "fill_runs num ((n, delta) # rs) s = (case fill_run num delta n s of None \<Rightarrow> None | Some s \<Rightarrow> fill_runs num rs s)"

definition buildSampleEntriesTable :: "file_env \<Rightarrow> sample_table \<Rightarrow> sample_table option" where
  "buildSampleEntriesTable env t =
     (if mSampleTimeEntries t \<noteq> None \<or> mNumSampleSizes t = 0 then Some t
      else let num = mNumSampleSizes t; t = t\<lparr>mTotalSize := mTotalSize t + num * 16\<rparr>
      in if mTotalSize t > kMaxTotalSize then Some t
      else if \<not> alloc env (num * 16) then Some t
      else if length (mTimeToSample t) < mTimeToSampleCount t then None
      else case fill_runs num (take (mTimeToSampleCount t) (mTimeToSample t))
                  \<lparr>fillIndex = 0, fillTime = 0, fillLookup = mCompositionDeltaLookup t, fillEntries = map (unset env) [0..<num]\<rparr> of
             None \<Rightarrow> None
           | Some s \<Rightarrow> Some (t\<lparr>mSampleTimeEntries := Some (qsort env (fillEntries s)), mCompositionDeltaLookup := fillLookup s\<rparr>))"

section \<open>Searching\<close>

definition getSampleTime :: "sample_table \<Rightarrow> nat \<Rightarrow> nat \<Rightarrow> nat \<Rightarrow> nat option" where
  "getSampleTime t sample_index scale_num scale_den =
     (case mSampleTimeEntries t of
        None \<Rightarrow> Some 0
      | Some es \<Rightarrow>
          if sample_index < mNumSampleSizes t \<and> scale_den \<noteq> 0
          then if sample_index \<ge> length es \<or> snd (es ! sample_index) * scale_num \<ge> 2 ^ 64 then None
               else Some (snd (es ! sample_index) * scale_num div scale_den)
          else Some 0)"

datatype find_flag = kFlagBefore | kFlagAfter | kFlagClosest | kFlagFrameIndex

text \<open>The loop that both searches have: the place of the value, or where it would be inserted.\<close>

datatype place = At nat | Gap nat

function bsearch :: "(nat \<Rightarrow> nat option) \<Rightarrow> nat \<Rightarrow> nat \<Rightarrow> nat \<Rightarrow> place option" where
  "bsearch key req left right_plus_one =
     (if left < right_plus_one
      then let center = left + (right_plus_one - left) div 2
           in case key center of
                None \<Rightarrow> None
              | Some x \<Rightarrow>
                  if req < x then bsearch key req left center
                  else if req > x then bsearch key req (center + 1) right_plus_one
                  else Some (At center)
      else Some (Gap left))"
  by auto
termination
  by (relation "measure (\<lambda>(key, req, l, r). r - l)") auto

declare bsearch.simps [simp del]

text \<open>The flag that is in force at the ends, where only one neighbour exists.\<close>

definition gap_flag :: "nat \<Rightarrow> nat \<Rightarrow> find_flag \<Rightarrow> find_flag option" where
  "gap_flag num left flags =
     (if left = num then if flags = kFlagAfter then None else Some kFlagBefore
      else if left = 0 then Some kFlagAfter else Some flags)"

definition pick_entry :: "sample_table \<Rightarrow> nat \<Rightarrow> (status \<times> nat option \<times> sample_table) option" where
  "pick_entry t i =
     (case mSampleTimeEntries t of
        None \<Rightarrow> None
      | Some es \<Rightarrow> if i < length es then Some (OK, Some (fst (es ! i)), t) else None)"

definition findSampleAtTime :: "file_env \<Rightarrow> nat \<Rightarrow> nat \<Rightarrow> nat \<Rightarrow> find_flag \<Rightarrow> sample_table \<Rightarrow> (status \<times> nat option \<times> sample_table) option" where
  "findSampleAtTime env req_time scale_num scale_den flags t =
     (case buildSampleEntriesTable env t of
        None \<Rightarrow> None
      | Some t \<Rightarrow>
          if mSampleTimeEntries t = None then Some (ERROR_OUT_OF_RANGE, None, t)
          else if flags = kFlagFrameIndex
          then if req_time \<ge> mNumSampleSizes t then Some (ERROR_OUT_OF_RANGE, None, t) else pick_entry t req_time
          else case bsearch (\<lambda>i. getSampleTime t i scale_num scale_den) req_time 0 (mNumSampleSizes t) of
                 None \<Rightarrow> None
               | Some (At center) \<Rightarrow> pick_entry t center
               | Some (Gap left) \<Rightarrow>
                   (case gap_flag (mNumSampleSizes t) left flags of
                      None \<Rightarrow> Some (ERROR_OUT_OF_RANGE, None, t)
                    | Some kFlagBefore \<Rightarrow> pick_entry t (left - 1)
                    | Some kFlagAfter \<Rightarrow> pick_entry t left
                    | Some flags \<Rightarrow>
                        (case (getSampleTime t left scale_num scale_den, getSampleTime t (left - 1) scale_num scale_den) of
                           (Some upper, Some lower) \<Rightarrow>
                             pick_entry t (if abs_difference upper req_time > abs_difference req_time lower then left - 1 else left)
                         | _ \<Rightarrow> None)))"

text \<open>The route for \<open>kFlagClosest\<close>: three seeks and a comparison of the times.\<close>

definition seek_for_time :: "file_env \<Rightarrow> nat \<Rightarrow> sample_table \<Rightarrow> (nat \<Rightarrow> sample_table \<Rightarrow> (status \<times> nat \<times> sample_table) option)
    \<Rightarrow> (status \<times> nat \<times> sample_table) option" where
  "seek_for_time env i t k =
     (case seekTo env i t of
        None \<Rightarrow> None
      | Some (err, t) \<Rightarrow> if err \<noteq> OK then Some (err, 0, t) else k (mCurrentSampleTime (mSampleIterator t)) t)"

definition findSyncSampleNear :: "file_env \<Rightarrow> nat \<Rightarrow> find_flag \<Rightarrow> sample_table \<Rightarrow> (status \<times> nat \<times> sample_table) option" where
  "findSyncSampleNear env start_sample_index flags t =
     (if mSyncSampleOffset t < 0 then Some (OK, start_sample_index, t)
      else if mNumSyncSamples t = 0 then Some (OK, 0, t)
      else let ss = mSyncSamples t
      in case bsearch (\<lambda>i. if i < length ss then Some (ss ! i) else None) start_sample_index 0 (mNumSyncSamples t) of
           None \<Rightarrow> None
         | Some (At center) \<Rightarrow> Some (OK, ss ! center, t)
         | Some (Gap left) \<Rightarrow>
             (case gap_flag (mNumSyncSamples t) left flags of
                None \<Rightarrow> Some (ERROR_OUT_OF_RANGE, 0, t)
              | Some kFlagBefore \<Rightarrow> Some (OK, ss ! (left - 1), t)
              | Some kFlagAfter \<Rightarrow> Some (OK, ss ! left, t)
              | Some kFlagFrameIndex \<Rightarrow> None
              | Some kFlagClosest \<Rightarrow>
                  seek_for_time env start_sample_index t (\<lambda>sample_time t.
                  seek_for_time env (ss ! left) t (\<lambda>upper_time t.
                  seek_for_time env (ss ! (left - 1)) t (\<lambda>lower_time t.
                    Some (OK, ss ! (if abs_difference upper_time sample_time > abs_difference sample_time lower_time
                                    then left - 1 else left), t))))))"

text \<open>The best of the sync samples read so far, with its size.\<close>

fun thumbnail_loop :: "file_env \<Rightarrow> sample_table \<Rightarrow> nat list \<Rightarrow> (nat \<times> nat) option \<Rightarrow> (status \<times> nat option) option" where
  "thumbnail_loop env t [] best = Some (OK, Some (case best of None \<Rightarrow> 0 | Some (x, sz) \<Rightarrow> x))"
| "thumbnail_loop env t (x # xs) best =
     (case getSampleSize_l env t x of
        None \<Rightarrow> None
      | Some (err, sampleSize) \<Rightarrow>
          if err \<noteq> OK then Some (err, None)
          else thumbnail_loop env t xs
                 (case best of None \<Rightarrow> Some (x, sampleSize)
                  | Some (y, maxSampleSize) \<Rightarrow> if sampleSize > maxSampleSize then Some (x, sampleSize) else best))"

definition findThumbnailSample :: "file_env \<Rightarrow> sample_table \<Rightarrow> (status \<times> nat option) option" where
  "findThumbnailSample env t =
     (if mSyncSampleOffset t < 0 then Some (OK, Some 0)
      else if length (mSyncSamples t) < min 20 (mNumSyncSamples t) then None
      else thumbnail_loop env t (take (min 20 (mNumSyncSamples t)) (mSyncSamples t)) None)"

fun sync_scan :: "nat \<Rightarrow> nat \<Rightarrow> nat list \<Rightarrow> nat" where
  "sync_scan sampleIndex i [] = i"
| "sync_scan sampleIndex i (x # xs) = (if x < sampleIndex then sync_scan sampleIndex (i + 1) xs else i)"

definition is_sync_sample :: "nat \<Rightarrow> sample_table \<Rightarrow> bool \<times> sample_table" where
  "is_sync_sample sampleIndex t =
     (if mSyncSampleOffset t < 0 then (True, t)
      else let ss = take (mNumSyncSamples t) (mSyncSamples t);
               last = mLastSyncSampleIndex t;
               i = (if last < length ss \<and> ss ! last \<le> sampleIndex then last else 0);
               i = sync_scan sampleIndex i (drop i ss)
           in (i < length ss \<and> ss ! i = sampleIndex, t\<lparr>mLastSyncSampleIndex := i\<rparr>))"

record meta_data =
  metaOffset :: int
  metaSize :: nat
  metaTime :: nat
  metaSync :: bool
  metaDuration :: nat

text \<open>\<open>want_sync\<close> says whether the caller passed a place for \<open>isSyncSample\<close>.\<close>

definition getMetaDataForSample :: "file_env \<Rightarrow> nat \<Rightarrow> bool \<Rightarrow> sample_table \<Rightarrow> (status \<times> meta_data option \<times> sample_table) option" where
  "getMetaDataForSample env sampleIndex want_sync t =
     (case seekTo env sampleIndex t of
        None \<Rightarrow> None
      | Some (err, t) \<Rightarrow>
          if err \<noteq> OK then Some (err, None, t)
          else let it = mSampleIterator t;
                   (sync, t) = (if want_sync then is_sync_sample sampleIndex t else (False, t))
               in Some (OK, Some \<lparr>metaOffset = mCurrentSampleOffset it, metaSize = mCurrentSampleSize it,
                                 metaTime = mCurrentSampleTime it, metaSync = sync,
                                 metaDuration = mCurrentSampleDuration it\<rparr>, t))"

end
