(* ===== verification/Sample_Seek.thy ===== *)
theory Sample_Seek
  imports Sample_Table
begin

text \<open>
  What a seek in the sample table of the MP4 extractor must give, and that it gives it after
  every history of earlier seeks. The reference expands the run-length tables of the file: the
  chunk layout into the list of all samples with their chunk, the times into a list of
  durations. The iterator caches positions in the runs; the proofs show that the cached
  positions never matter.
\<close>

section \<open>Run-length tables\<close>

definition expand :: "(nat \<times> 'v) list \<Rightarrow> 'v list" where
  "expand rs = concat (map (\<lambda>(c, v). replicate c v) rs)"

lemma expand_simps [simp]:
  "expand [] = []"
  "expand ((c, v) # rs) = replicate c v @ expand rs"
  "expand (rs @ rs') = expand rs @ expand rs'"
  by (simp_all add: expand_def)

lemma expand_take_Suc:
  "k < length rs \<Longrightarrow> expand (take (Suc k) rs) = expand (take k rs) @ replicate (fst (rs ! k)) (snd (rs ! k))"
  by (cases "rs ! k") (simp add: take_Suc_conv_app_nth)

lemma expand_split:
  assumes "k < length rs"
  shows "expand rs = expand (take k rs) @ replicate (fst (rs ! k)) (snd (rs ! k)) @ expand (drop (Suc k) rs)"
  using assms expand_take_Suc [OF assms] append_take_drop_id [of "Suc k" rs]
  by (metis append.assoc expand_simps(3))

lemma length_expand_take_le: "length (expand (take k rs)) \<le> length (expand rs)"
  using append_take_drop_id [of k rs] by (metis expand_simps(3) le_add1 length_append)

text \<open>The values of a run, and the sum up to a place in it.\<close>

lemma nth_in_replicate:
  assumes "length A \<le> i" "i < length A + c"
  shows "(A @ replicate c v @ B) ! i = v" "i < length (A @ replicate c v @ B)"
  using assms by (auto simp: nth_append)

lemma sum_in_replicate:
  fixes v :: nat
  assumes "length A \<le> i" "i < length A + c"
  shows "sum_list (take i (A @ replicate c v @ B)) = sum_list A + v * (i - length A)"
  using assms by (auto simp: min_def sum_list_replicate)

lemma expand_in_run:
  assumes "k < length rs" "length (expand (take k rs)) \<le> i" "i < length (expand (take k rs)) + fst (rs ! k)"
  shows "expand rs ! i = snd (rs ! k)" "i < length (expand rs)"
  unfolding expand_split [OF assms(1)] by (rule nth_in_replicate [OF assms(2,3)])+

lemma sum_expand_in_run:
  fixes rs :: "(nat \<times> nat) list"
  assumes "k < length rs" "length (expand (take k rs)) \<le> i" "i < length (expand (take k rs)) + fst (rs ! k)"
  shows "sum_list (take i (expand rs)) = sum_list (expand (take k rs)) + snd (rs ! k) * (i - length (expand (take k rs)))"
  unfolding expand_split [OF assms(1)] using sum_in_replicate [OF assms(2,3)] by simp

section \<open>Composition offsets\<close>

definition ref_delta :: "(nat \<times> int) list option \<Rightarrow> nat \<Rightarrow> int" where
  "ref_delta es i = (case es of None \<Rightarrow> 0 | Some es \<Rightarrow> if i < length (expand es) then expand es ! i else 0)"

definition lookup_ok :: "(nat \<times> int) list option \<Rightarrow> delta_lookup \<Rightarrow> bool" where
  "lookup_ok es lk \<longleftrightarrow> mDeltaEntries lk = es \<and>
     (case es of None \<Rightarrow> True
      | Some es \<Rightarrow> mCurrentDeltaEntry lk \<le> length es
          \<and> mCurrentEntrySampleIndex lk = length (expand (take (mCurrentDeltaEntry lk) es)))"

lemma delta_loop_ref:
  assumes "k \<le> length es" "length (expand (take k es)) \<le> i"
  shows "\<exists>k'. delta_loop i k (length (expand (take k es))) (drop k es) = (ref_delta (Some es) i, k', length (expand (take k' es))) \<and> k' \<le> length es"
  using assms
proof (induction "length es - k" arbitrary: k)
  case 0
  then show ?case by (auto simp: ref_delta_def)
next
  case (Suc n)
  then have k: "k < length es" by simp
  obtain c d where e: "es ! k = (c, d)" by (cases "es ! k")
  have d: "drop k es = (c, d) # drop (Suc k) es" using k e by (metis Cons_nth_drop_Suc)
  show ?case
  proof (cases "i < length (expand (take k es)) + c")
    case True
    then show ?thesis using expand_in_run [OF k Suc.prems(2)] k e d by (auto simp: ref_delta_def)
  next
    case False
    then show ?thesis using Suc.hyps(1) [of "Suc k"] Suc.hyps(2) k e d by (simp add: expand_take_Suc)
  qed
qed

lemma getCompositionTimeOffset_ref:
  assumes "lookup_ok es lk"
  shows "\<exists>lk'. getCompositionTimeOffset i lk = (ref_delta es i, lk') \<and> lookup_ok es lk'"
proof (cases es)
  case None
  then show ?thesis using assms by (simp add: getCompositionTimeOffset_def lookup_ok_def ref_delta_def)
next
  case (Some xs)
  define lk0 where "lk0 = (if i < mCurrentEntrySampleIndex lk then lk\<lparr>mCurrentDeltaEntry := 0, mCurrentEntrySampleIndex := 0\<rparr> else lk)"
  have ok: "mDeltaEntries lk = Some xs" "mDeltaEntries lk0 = Some xs" "mCurrentDeltaEntry lk0 \<le> length xs"
    "mCurrentEntrySampleIndex lk0 = length (expand (take (mCurrentDeltaEntry lk0) xs))" "mCurrentEntrySampleIndex lk0 \<le> i"
    using assms Some by (auto simp: lookup_ok_def lk0_def)
  obtain k' where "delta_loop i (mCurrentDeltaEntry lk0) (mCurrentEntrySampleIndex lk0) (drop (mCurrentDeltaEntry lk0) xs)
      = (ref_delta (Some xs) i, k', length (expand (take k' xs)))" "k' \<le> length xs"
    using delta_loop_ref [of "mCurrentDeltaEntry lk0" xs i] ok by auto
  then show ?thesis using ok(1,2) Some
    by (auto simp: getCompositionTimeOffset_def lookup_ok_def lk0_def [symmetric] Let_def)
qed

section \<open>The chunk layout\<close>

text \<open>
  The samples of a chunk are given by the last entry that starts at it or before. The layout of
  the first \<open>n\<close> chunks lists every sample as its chunk and its place in the chunk.
\<close>

definition chunk_spc :: "chunk_entry list \<Rightarrow> nat \<Rightarrow> nat" where
  "chunk_spc es c = samplesPerChunk (last (filter (\<lambda>e. startChunk e \<le> c) es))"

definition layout :: "chunk_entry list \<Rightarrow> nat \<Rightarrow> (nat \<times> nat) list" where
  "layout es n = concat (map (\<lambda>c. map (Pair c) [0..<chunk_spc es c]) [0..<n])"

definition stsc_ok :: "chunk_entry list \<Rightarrow> nat \<Rightarrow> bool" where
  "stsc_ok es n \<longleftrightarrow> es \<noteq> [] \<and> startChunk (es ! 0) = 0 \<and> sorted_wrt (<) (map startChunk es)
     \<and> list_all (\<lambda>e. 0 < samplesPerChunk e \<and> startChunk e < n) es"

lemma layout_Suc: "layout es (Suc n) = layout es n @ map (Pair n) [0..<chunk_spc es n]"
  by (simp add: layout_def)

lemma layout_0 [simp]: "layout es 0 = []"
  by (simp add: layout_def)

lemma length_layout_mono: "m \<le> n \<Longrightarrow> length (layout es m) \<le> length (layout es n)"
  by (induction n rule: nat_induct_at_least) (auto simp: layout_Suc)

text \<open>A chunk keeps its place when more chunks follow.\<close>

lemma layout_nth:
  assumes "c < n" "r < chunk_spc es c"
  shows "layout es n ! (length (layout es c) + r) = (c, r)" "length (layout es c) + r < length (layout es n)"
proof -
  have "layout es n ! (length (layout es c) + r) = (c, r) \<and> length (layout es c) + r < length (layout es n)"
    using assms
  proof (induction n)
    case (Suc n)
    show ?case
    proof (cases "c = n")
      case True
      then show ?thesis using Suc.prems by (simp add: layout_Suc nth_append)
    next
      case False
      then show ?thesis using Suc by (auto simp: layout_Suc nth_append)
    qed
  qed simp
  then show "layout es n ! (length (layout es c) + r) = (c, r)" "length (layout es c) + r < length (layout es n)"
    by auto
qed

text \<open>The entry that is in force for a chunk.\<close>

definition in_entry :: "chunk_entry list \<Rightarrow> nat \<Rightarrow> nat \<Rightarrow> bool" where
  "in_entry es j c \<longleftrightarrow> j < length es \<and> startChunk (es ! j) \<le> c \<and> (Suc j < length es \<longrightarrow> c < startChunk (es ! Suc j))"

lemma chunk_spc_entry:
  assumes "stsc_ok es n" "in_entry es j c"
  shows "chunk_spc es c = samplesPerChunk (es ! j)"
proof -
  have srt: "startChunk (es ! a) < startChunk (es ! b)" if "a < b" "b < length es" for a b
    using assms(1) that by (auto simp: stsc_ok_def sorted_wrt_iff_nth_less)
  have j: "j < length es" using assms(2) by (simp add: in_entry_def)
  have "filter (\<lambda>e. startChunk e \<le> c) (drop (Suc j) es) = []"
  proof -
    have "\<not> startChunk (drop (Suc j) es ! a) \<le> c" if "a < length (drop (Suc j) es)" for a
      using assms(2) srt [of "Suc j" "Suc j + a"] that by (cases a) (fastforce simp: in_entry_def)+
    then show ?thesis by (metis filter_False in_set_conv_nth)
  qed
  moreover have "filter (\<lambda>e. startChunk e \<le> c) (take (Suc j) es) = filter (\<lambda>e. startChunk e \<le> c) (take j es) @ [es ! j]"
    using assms(2) j by (simp add: take_Suc_conv_app_nth in_entry_def)
  ultimately have "filter (\<lambda>e. startChunk e \<le> c) es = filter (\<lambda>e. startChunk e \<le> c) (take j es) @ [es ! j]"
    by (metis append_Nil2 append_take_drop_id filter_append)
  then show ?thesis by (simp add: chunk_spc_def)
qed

lemma length_layout_entry:
  assumes "stsc_ok es n" "\<And>c. a \<le> c \<Longrightarrow> c < b \<Longrightarrow> in_entry es j c" "a \<le> b"
  shows "length (layout es b) = length (layout es a) + (b - a) * samplesPerChunk (es ! j)"
  using assms(3,2)
proof (induction b rule: nat_induct_at_least)
  case (Suc b)
  then have "chunk_spc es b = samplesPerChunk (es ! j)" by (intro chunk_spc_entry [OF assms(1)]) auto
  moreover have "Suc b - a = Suc (b - a)" using Suc.hyps by simp
  ultimately show ?case using Suc.IH Suc.prems by (simp add: layout_Suc)
qed simp

section \<open>The range of chunks\<close>

text \<open>The iterator stands on entry \<open>j\<close> of the chunk table, or before the first one.\<close>

definition at_entry :: "chunk_entry list \<Rightarrow> nat \<Rightarrow> sample_iterator \<Rightarrow> bool" where
  "at_entry es j it \<longleftrightarrow> j < length es \<and> mSampleToChunkIndex it = Suc j
     \<and> mFirstChunk it = startChunk (es ! j) \<and> mSamplesPerChunk it = samplesPerChunk (es ! j)
     \<and> mFirstChunkSampleIndex it = length (layout es (startChunk (es ! j)))
     \<and> mStopChunkSampleIndex it = (if Suc j < length es then length (layout es (startChunk (es ! Suc j))) else 2 ^ 32 - 1)"

definition range_ok :: "chunk_entry list \<Rightarrow> sample_iterator \<Rightarrow> bool" where
  "range_ok es it \<longleftrightarrow>
     (mSampleToChunkIndex it = 0 \<and> mFirstChunkSampleIndex it = 0 \<and> mStopChunkSampleIndex it = 0) \<or> (\<exists>j. at_entry es j it)"

definition chunks_ok :: "sample_table \<Rightarrow> bool" where
  "chunks_ok t \<longleftrightarrow> mNumSampleToChunkOffsets t = length (mSampleToChunkEntries t)
     \<and> stsc_ok (mSampleToChunkEntries t) (mNumChunkOffsets t)
     \<and> length (layout (mSampleToChunkEntries t) (mNumChunkOffsets t)) = mNumSampleSizes t
     \<and> mNumSampleSizes t < 2 ^ 32 - 1"

lemma stsc_entry:
  assumes "stsc_ok es n" "j < length es"
  shows "0 < samplesPerChunk (es ! j)" "startChunk (es ! j) < n" "Suc j < length es \<Longrightarrow> startChunk (es ! j) < startChunk (es ! Suc j)"
  using assms by (auto simp: stsc_ok_def list_all_length sorted_wrt_iff_nth_less)

lemma layout_next_entry:
  assumes "stsc_ok es n" "Suc j < length es"
  shows "length (layout es (startChunk (es ! Suc j)))
    = length (layout es (startChunk (es ! j))) + (startChunk (es ! Suc j) - startChunk (es ! j)) * samplesPerChunk (es ! j)"
  using stsc_entry(3) [OF assms(1), of j] assms(2)
  by (intro length_layout_entry [OF assms(1)]) (auto simp: in_entry_def)

lemma findChunkRange_step:
  assumes t: "chunks_ok t" "es = mSampleToChunkEntries t" and it: "range_ok es it"
    and i: "mStopChunkSampleIndex it \<le> i" "i < 2 ^ 32 - 1"
  shows "\<exists>it1. findChunkRange t i it = findChunkRange t i it1 \<and> at_entry es (mSampleToChunkIndex it) it1
    \<and> mFirstChunkSampleIndex it1 = mStopChunkSampleIndex it \<and> reset it1 = reset it"
proof -
  define k where "k = mSampleToChunkIndex it"
  have es: "stsc_ok es (mNumChunkOffsets t)" "mNumSampleToChunkOffsets t = length es" "mSampleToChunkEntries t = es"
    using t by (auto simp: chunks_ok_def)
  have k: "k < length es" and stop: "mStopChunkSampleIndex it = length (layout es (startChunk (es ! k)))"
    using it i es(1) by (auto simp: range_ok_def at_entry_def k_def stsc_ok_def split: if_splits)
  note sc = stsc_entry [OF es(1) k]
  define entered where "entered stop n = it\<lparr>mFirstChunkSampleIndex := mStopChunkSampleIndex it, mFirstChunk := startChunk (es ! k),
      mSamplesPerChunk := samplesPerChunk (es ! k), mChunkDesc := chunkDesc (es ! k), mStopChunk := stop,
      mStopChunkSampleIndex := n, mSampleToChunkIndex := Suc k\<rparr>" for stop n
  show ?thesis
  proof (cases "Suc k < length es")
    case True
    define w where "w = startChunk (es ! Suc k) - startChunk (es ! k)"
    note nxt = layout_next_entry [OF es(1) True]
    have "length (layout es (startChunk (es ! Suc k))) \<le> mNumSampleSizes t"
      using length_layout_mono [of "startChunk (es ! Suc k)" "mNumChunkOffsets t" es] stsc_entry(2) [OF es(1) True] t
      by (simp add: chunks_ok_def)
    then have b: "length (layout es (startChunk (es ! k))) + w * samplesPerChunk (es ! k) < 2 ^ 32 - 1"
      using nxt t by (simp add: chunks_ok_def w_def)
    then have "w * samplesPerChunk (es ! k) \<le> 2 ^ 32 - 1" by simp
    then have "w \<le> (2 ^ 32 - 1) div samplesPerChunk (es ! k)"
      using sc(1) by (simp add: less_eq_div_iff_mult_less_eq)
    moreover have "\<not> 2 ^ 32 - 1 - length (layout es (startChunk (es ! k))) < w * samplesPerChunk (es ! k)"
      using b by linarith
    ultimately have "findChunkRange t i it = findChunkRange t i (entered (startChunk (es ! Suc k)) (length (layout es (startChunk (es ! Suc k)))))"
      using b sc True i(1) stop nxt
      by (subst findChunkRange.simps) (simp add: entered_def es k_def [symmetric] w_def [symmetric] k Let_def not_less)
    then show ?thesis using True k stop
      by (intro exI [of _ "entered (startChunk (es ! Suc k)) (length (layout es (startChunk (es ! Suc k))))"]) (auto simp: at_entry_def reset_def entered_def k_def)
  next
    case False
    then have "findChunkRange t i it = findChunkRange t i (entered (2 ^ 32 - 1) (2 ^ 32 - 1))"
      using k i(1) by (subst findChunkRange.simps) (simp add: entered_def es k_def [symmetric] Let_def not_less)
    then show ?thesis using False k stop by (intro exI [of _ "entered (2 ^ 32 - 1) (2 ^ 32 - 1)"]) (auto simp: at_entry_def reset_def entered_def k_def)
  qed
qed

lemma findChunkRange_ok:
  assumes t: "chunks_ok t" "es = mSampleToChunkEntries t" and it: "range_ok es it"
    and i: "mFirstChunkSampleIndex it \<le> i" "i < 2 ^ 32 - 1"
  shows "\<exists>it' j. findChunkRange t i it = Some (OK, it') \<and> at_entry es j it' \<and> i < mStopChunkSampleIndex it'
    \<and> mFirstChunkSampleIndex it' \<le> i \<and> reset it' = reset it"
  using it i(1)
proof (induction "length es - mSampleToChunkIndex it" arbitrary: it rule: less_induct)
  case less
  show ?case
  proof (cases "i < mStopChunkSampleIndex it")
    case True
    then have "findChunkRange t i it = Some (OK, it)" by (subst findChunkRange.simps) simp
    then show ?thesis using True less.prems by (auto simp: range_ok_def)
  next
    case False
    then obtain it1 where 1: "findChunkRange t i it = findChunkRange t i it1" "at_entry es (mSampleToChunkIndex it) it1"
        "mFirstChunkSampleIndex it1 = mStopChunkSampleIndex it" "reset it1 = reset it"
      using findChunkRange_step [OF t less.prems(1) _ i(2)] by auto
    then show ?thesis using less.hyps [of it1] False
      by (fastforce simp: at_entry_def range_ok_def)
  qed
qed

text \<open>The chunk and the place that the code computes are those of the layout.\<close>

lemma layout_at_entry:
  assumes t: "chunks_ok t" "es = mSampleToChunkEntries t" and it: "at_entry es j it"
    and i: "mFirstChunkSampleIndex it \<le> i" "i < mStopChunkSampleIndex it" "i < mNumSampleSizes t"
    and c: "c = (i - mFirstChunkSampleIndex it) div mSamplesPerChunk it + mFirstChunk it"
    and r: "r = (i - mFirstChunkSampleIndex it) mod mSamplesPerChunk it"
  shows "layout es (mNumChunkOffsets t) ! i = (c, r)" "chunk_spc es c = mSamplesPerChunk it" "c < mNumChunkOffsets t"
    "length (layout es c) = mFirstChunkSampleIndex it + mSamplesPerChunk it * ((i - mFirstChunkSampleIndex it) div mSamplesPerChunk it)"
    "i = length (layout es c) + r"
proof -
  define p where "p = mSamplesPerChunk it"
  define s where "s = startChunk (es ! j)"
  define q where "q = (i - mFirstChunkSampleIndex it) div p"
  have es: "stsc_ok es (mNumChunkOffsets t)" using t by (simp add: chunks_ok_def)
  have j: "j < length es" "p = samplesPerChunk (es ! j)" "mFirstChunk it = s" "mFirstChunkSampleIndex it = length (layout es s)"
    using it by (auto simp: at_entry_def p_def s_def)
  have p: "0 < p" using stsc_entry(1) [OF es j(1)] j(2) by simp
  have cq: "c = s + q" and rp: "r < p" using c r j p by (auto simp: q_def p_def)
  have iq: "i = length (layout es s) + p * q + r"
    using i(1) j(4) r by (simp add: q_def p_def)
  have in_e: "in_entry es j d" if "s \<le> d" "d \<le> c" for d
  proof -
    have "c < startChunk (es ! Suc j)" if "Suc j < length es"
    proof -
      have "i < length (layout es s) + (startChunk (es ! Suc j) - s) * p"
        using i(2) it that layout_next_entry [OF es that] j(2) by (simp add: at_entry_def s_def)
      then have "q * p < (startChunk (es ! Suc j) - s) * p" using iq by (simp add: algebra_simps)
      then have "q < startChunk (es ! Suc j) - s" by simp
      then show ?thesis using cq by linarith
    qed
    then show ?thesis using that j(1) by (auto simp: in_entry_def s_def)
  qed
  show spc: "chunk_spc es c = mSamplesPerChunk it"
    using chunk_spc_entry [OF es in_e [of c]] cq j(2) by (simp add: p_def)
  have len: "length (layout es c) = length (layout es s) + q * p"
    using length_layout_entry [OF es, of s c j] in_e cq j(2) by simp
  then show "length (layout es c) = mFirstChunkSampleIndex it + mSamplesPerChunk it * ((i - mFirstChunkSampleIndex it) div mSamplesPerChunk it)"
    using j(4) by (simp add: q_def p_def)
  show eq: "i = length (layout es c) + r" using len iq by simp
  show cn: "c < mNumChunkOffsets t"
  proof (rule ccontr)
    assume "\<not> c < mNumChunkOffsets t"
    then have "mNumSampleSizes t \<le> length (layout es c)"
      using length_layout_mono [of "mNumChunkOffsets t" c es] t by (simp add: chunks_ok_def)
    then show False using eq i(3) by simp
  qed
  show "layout es (mNumChunkOffsets t) ! i = (c, r)"
    using layout_nth(1) [OF cn] spc rp eq by (simp add: p_def)
qed

section \<open>Chunk offsets and sample sizes\<close>

definition size_of :: "file_env \<Rightarrow> sample_table \<Rightarrow> nat \<Rightarrow> nat" where
  "size_of env t i = (case getSampleSizeDirect env t i of None \<Rightarrow> 0 | Some (err, n) \<Rightarrow> n)"

definition chunk_offset :: "file_env \<Rightarrow> sample_table \<Rightarrow> nat \<Rightarrow> int" where
  "chunk_offset env t c = (case getChunkOffset env t c of None \<Rightarrow> 0 | Some (err, off) \<Rightarrow> off)"

definition chunk_sizes :: "file_env \<Rightarrow> sample_table \<Rightarrow> nat \<Rightarrow> nat list" where
  "chunk_sizes env t c = map (size_of env t)
     [length (layout (mSampleToChunkEntries t) c)..<length (layout (mSampleToChunkEntries t) (Suc c))]"

text \<open>The file can be read wherever the tables point, and no chunk reaches beyond the largest file offset.\<close>

definition file_ok :: "file_env \<Rightarrow> sample_table \<Rightarrow> bool" where
  "file_ok env t \<longleftrightarrow>
     list_all (\<lambda>i. map_option fst (getSampleSizeDirect env t i) = Some OK) [0..<mNumSampleSizes t]
     \<and> list_all (\<lambda>c. map_option fst (getChunkOffset env t c) = Some OK \<and> 0 \<le> chunk_offset env t c
          \<and> chunk_offset env t c + int (sum_list (chunk_sizes env t c)) < 2 ^ 63) [0..<mNumChunkOffsets t]
     \<and> mNumChunkOffsets t < 2 ^ 32"

lemma file_okD:
  assumes "file_ok env t"
  shows "i < mNumSampleSizes t \<Longrightarrow> getSampleSizeDirect env t i = Some (OK, size_of env t i)"
    "c < mNumChunkOffsets t \<Longrightarrow> getChunkOffset env t c = Some (OK, chunk_offset env t c)"
    "c < mNumChunkOffsets t \<Longrightarrow> 0 \<le> chunk_offset env t c"
    "c < mNumChunkOffsets t \<Longrightarrow> chunk_offset env t c + int (sum_list (chunk_sizes env t c)) < 2 ^ 63"
proof -
  have read: "x = Some (OK, case x of None \<Rightarrow> d | Some (err, v) \<Rightarrow> v)" if "map_option fst x = Some OK" for x and d :: 'v
    using that by auto
  show "i < mNumSampleSizes t \<Longrightarrow> getSampleSizeDirect env t i = Some (OK, size_of env t i)"
    using assms unfolding file_ok_def size_of_def list_all_iff by (intro read) simp
  show "c < mNumChunkOffsets t \<Longrightarrow> getChunkOffset env t c = Some (OK, chunk_offset env t c)"
    using assms unfolding file_ok_def chunk_offset_def list_all_iff by (intro read) simp
qed (use assms in \<open>auto simp: file_ok_def list_all_iff\<close>)

lemma read_sizes_ok:
  assumes "\<And>i. index \<le> i \<Longrightarrow> i < index + todo \<Longrightarrow> getSampleSizeDirect env t i = Some (OK, size_of env t i)"
  shows "read_sizes env t index todo acc = Some (Sizes_all (acc @ map (size_of env t) [index..<index + todo]))"
  using assms
proof (induction todo arbitrary: index acc)
  case (Suc todo)
  have "[index..<index + Suc todo] = index # [Suc index..<Suc index + todo]" by (simp add: upt_conv_Cons)
  then show ?case using Suc.prems [of index] Suc.IH [of "Suc index"] Suc.prems by simp
qed simp

lemma add_sizes_ok:
  assumes "0 \<le> off" "off + int (sum_list ss) < 2 ^ 63"
  shows "add_sizes off ss = Some (off + int (sum_list ss))"
  using assms
proof (induction ss arbitrary: off)
  case (Cons s ss)
  have "off mod 2 ^ 64 = off" using Cons.prems by (intro mod_pos_pos_trivial) simp_all
  moreover have "wrap_i64 (off + int s) = off + int s" using Cons.prems by (intro wrap_i64_id) simp_all
  ultimately show ?case using Cons by simp
qed simp

text \<open>The operations that read the file do not look at the cached positions.\<close>

definition put :: "sample_iterator \<Rightarrow> delta_lookup \<Rightarrow> nat \<Rightarrow> sample_table \<Rightarrow> sample_table" where
  "put it lk ls t = t\<lparr>mSampleIterator := it, mCompositionDeltaLookup := lk, mLastSyncSampleIndex := ls\<rparr>"

lemma put_simps [simp]:
  "mSampleIterator (put it lk ls t) = it" "mCompositionDeltaLookup (put it lk ls t) = lk" "mLastSyncSampleIndex (put it lk ls t) = ls"
  "mChunkOffsetOffset (put it lk ls t) = mChunkOffsetOffset t" "mSampleToChunkOffset (put it lk ls t) = mSampleToChunkOffset t"
  "mSampleSizeOffset (put it lk ls t) = mSampleSizeOffset t" "mNumSampleSizes (put it lk ls t) = mNumSampleSizes t"
  "mTimeToSampleCount (put it lk ls t) = mTimeToSampleCount t" "mTimeToSample (put it lk ls t) = mTimeToSample t"
  "mSampleToChunkEntries (put it lk ls t) = mSampleToChunkEntries t" "mNumChunkOffsets (put it lk ls t) = mNumChunkOffsets t"
  "mNumSampleToChunkOffsets (put it lk ls t) = mNumSampleToChunkOffsets t" "mSyncSampleOffset (put it lk ls t) = mSyncSampleOffset t"
  "mNumSyncSamples (put it lk ls t) = mNumSyncSamples t" "mSyncSamples (put it lk ls t) = mSyncSamples t"
  "mCompositionTimeDeltaEntries (put it lk ls t) = mCompositionTimeDeltaEntries t"
  "mChunkOffsetType (put it lk ls t) = mChunkOffsetType t" "mSampleSizeFieldSize (put it lk ls t) = mSampleSizeFieldSize t"
  "mDefaultSampleSize (put it lk ls t) = mDefaultSampleSize t"
  "set_iter it' (put it lk ls t) = put it' lk ls t" "(put it lk ls t)\<lparr>mCompositionDeltaLookup := lk'\<rparr> = put it lk' ls t"
  "(put it lk ls t)\<lparr>mLastSyncSampleIndex := ls'\<rparr> = put it lk ls' t"
  by (simp_all add: put_def set_iter_def)

lemma put_self: "put (mSampleIterator t) (mCompositionDeltaLookup t) (mLastSyncSampleIndex t) t = t"
  by (simp add: put_def)

lemma put_reads [simp]:
  "getChunkOffset env (put it lk ls t) c = getChunkOffset env t c"
  "getSampleSizeDirect env (put it lk ls t) i = getSampleSizeDirect env t i"
  "chunks_ok (put it lk ls t) = chunks_ok t"
  unfolding getChunkOffset_def getSampleSizeDirect_def chunks_ok_def put_simps by (rule refl)+

lemma put_read_sizes [simp]: "read_sizes env (put it lk ls t) i n acc = read_sizes env t i n acc"
  by (induction n arbitrary: i acc) (simp_all split: option.splits prod.splits)

section \<open>Seeking within the chunk\<close>

text \<open>A chunk that the iterator holds is held completely and correctly.\<close>

definition cached :: "file_env \<Rightarrow> sample_table \<Rightarrow> sample_iterator \<Rightarrow> bool" where
  "cached env t it \<longleftrightarrow> mCurrentChunkOffset it = chunk_offset env t (mCurrentChunkIndex it)
     \<and> mCurrentChunkSampleSizes it = chunk_sizes env t (mCurrentChunkIndex it)"

definition ref_chunk :: "sample_table \<Rightarrow> nat \<Rightarrow> nat \<times> nat" where
  "ref_chunk t i = layout (mSampleToChunkEntries t) (mNumChunkOffsets t) ! i"

definition ref_offset :: "file_env \<Rightarrow> sample_table \<Rightarrow> nat \<Rightarrow> int" where
  "ref_offset env t i =
     (let (c, r) = ref_chunk t i in chunk_offset env t c + int (sum_list (map (size_of env t) [i - r..<i])))"

definition run_holds :: "sample_table \<Rightarrow> nat \<Rightarrow> sample_iterator \<Rightarrow> bool" where
  "run_holds t i it \<longleftrightarrow> (\<exists>j. at_entry (mSampleToChunkEntries t) j it) \<and> mFirstChunkSampleIndex it \<le> i \<and> i < mStopChunkSampleIndex it"

lemma seek_range_ok:
  assumes t: "chunks_ok t" and i: "i < mNumSampleSizes t" and it: "range_ok (mSampleToChunkEntries t) it"
  shows "\<exists>it'. seek_range i (put it lk ls t) = Some (OK, put it' lk ls t) \<and> run_holds t i it' \<and> reset it' = reset it"
proof -
  define it0 where "it0 = (if \<not> mInitialized it \<or> i < mFirstChunkSampleIndex it then reset it else it)"
  have it0: "range_ok (mSampleToChunkEntries t) it0" "mFirstChunkSampleIndex it0 \<le> i" "reset it0 = reset it"
    using it by (auto simp: it0_def range_ok_def reset_def)
  have i32: "i < 2 ^ 32 - 1" using t i by (simp add: chunks_ok_def)
  obtain it' j where "findChunkRange (put it lk ls t) i it0 = Some (OK, it')" "at_entry (mSampleToChunkEntries t) j it'"
      "i < mStopChunkSampleIndex it'" "mFirstChunkSampleIndex it' \<le> i" "reset it' = reset it"
    using findChunkRange_ok [of "put it lk ls t" "mSampleToChunkEntries t" it0 i] t it0 i32 by auto
  moreover have "0 < mSamplesPerChunk it'"
    using calculation(2) t stsc_entry(1) [of "mSampleToChunkEntries t" "mNumChunkOffsets t" j]
    by (auto simp: at_entry_def chunks_ok_def)
  moreover have "(if mStopChunkSampleIndex it0 \<le> i then findChunkRange (put it lk ls t) i it0 else Some (OK, it0)) = Some (OK, it')"
    using calculation(1) by (subst (asm) findChunkRange.simps) (auto simp: calculation(1))
  ultimately show ?thesis
    unfolding seek_range_def Let_def put_simps it0_def [symmetric]
    by (intro exI [of _ it']) (auto simp: run_holds_def)
qed

lemma seek_chunk_ok:
  assumes t: "chunks_ok t" "file_ok env t" and i: "i < mNumSampleSizes t" and it: "run_holds t i it"
    and c: "mInitialized it \<Longrightarrow> cached env t it" and cr: "ref_chunk t i = (c, r)"
  shows "seek_chunk env i (put it lk ls t) = Some (OK, put (it\<lparr>mCurrentChunkOffset := chunk_offset env t c,
    mCurrentChunkSampleSizes := chunk_sizes env t c, mCurrentChunkIndex := c\<rparr>) lk ls t)"
proof -
  obtain j where j: "at_entry (mSampleToChunkEntries t) j it" "mFirstChunkSampleIndex it \<le> i" "i < mStopChunkSampleIndex it"
    using it by (auto simp: run_holds_def)
  note lay = layout_at_entry [OF t(1) refl j i refl refl]
  have c_eq: "c = (i - mFirstChunkSampleIndex it) div mSamplesPerChunk it + mFirstChunk it"
    using lay(1) cr by (simp add: ref_chunk_def)
  note lay = lay [folded c_eq]
  have next_chunk: "length (layout (mSampleToChunkEntries t) (Suc c)) = length (layout (mSampleToChunkEntries t) c) + mSamplesPerChunk it"
    using lay(2) by (simp add: layout_Suc)
  have "length (layout (mSampleToChunkEntries t) (Suc c)) \<le> mNumSampleSizes t"
    using length_layout_mono [of "Suc c" "mNumChunkOffsets t" "mSampleToChunkEntries t"] lay(3) t(1) by (simp add: chunks_ok_def)
  then have "read_sizes env t (mFirstChunkSampleIndex it + mSamplesPerChunk it * ((i - mFirstChunkSampleIndex it) div mSamplesPerChunk it))
      (mSamplesPerChunk it) [] = Some (Sizes_all (chunk_sizes env t c))"
    using read_sizes_ok [of "length (layout (mSampleToChunkEntries t) c)" "mSamplesPerChunk it" env t "[]"] file_okD(1) [OF t(2)]
      next_chunk lay(4) by (simp add: chunk_sizes_def)
  moreover have "c < 2 ^ 32" using lay(3) t(2) by (simp add: file_ok_def)
  moreover have "it\<lparr>mCurrentChunkOffset := chunk_offset env t c, mCurrentChunkSampleSizes := chunk_sizes env t c, mCurrentChunkIndex := c\<rparr> = it"
    if "mInitialized it" "c = mCurrentChunkIndex it" using c [OF that(1)] that(2) by (simp add: cached_def)
  ultimately show ?thesis
    using file_okD(2) [OF t(2) lay(3)] c_eq by (simp add: seek_chunk_def Let_def)
qed

lemma seek_offset_ok:
  assumes t: "chunks_ok t" "file_ok env t" and i: "i < mNumSampleSizes t" and it: "run_holds t i it"
    and c: "cached env t it" and cr: "ref_chunk t i = (mCurrentChunkIndex it, r)"
  shows "seek_offset i (put it lk ls t) = Some (OK, put (it\<lparr>mCurrentSampleOffset := ref_offset env t i,
    mCurrentSampleSize := size_of env t i\<rparr>) lk ls t)"
proof -
  define c0 where "c0 = mCurrentChunkIndex it"
  define f where "f = length (layout (mSampleToChunkEntries t) c0)"
  obtain j where j: "at_entry (mSampleToChunkEntries t) j it" "mFirstChunkSampleIndex it \<le> i" "i < mStopChunkSampleIndex it"
    using it by (auto simp: run_holds_def)
  note lay0 = layout_at_entry [OF t(1) refl j i refl refl]
  have r: "r = (i - mFirstChunkSampleIndex it) mod mSamplesPerChunk it"
    and c0: "(i - mFirstChunkSampleIndex it) div mSamplesPerChunk it + mFirstChunk it = c0"
    using lay0(1) cr by (simp_all add: ref_chunk_def c0_def)
  note lay = lay0 [unfolded c0, folded r]
  have p: "0 < mSamplesPerChunk it" using j(1) t(1) stsc_entry(1) by (fastforce simp: at_entry_def chunks_ok_def)
  have rp: "r < mSamplesPerChunk it" using p r by simp
  have len: "length (layout (mSampleToChunkEntries t) (Suc c0)) = f + mSamplesPerChunk it"
    using lay(2) by (simp add: layout_Suc f_def)
  have if_r: "i = f + r" using lay(5) by (simp add: f_def)
  have sizes: "mCurrentChunkSampleSizes it = map (size_of env t) [f..<f + mSamplesPerChunk it]"
    using c len by (simp add: cached_def chunk_sizes_def c0_def f_def)
  have tk: "take r (mCurrentChunkSampleSizes it) = map (size_of env t) [i - r..<i]"
    using sizes rp if_r by (simp add: take_map take_upt)
  have off: "mCurrentChunkOffset it = chunk_offset env t c0" using c by (simp add: cached_def c0_def)
  have "sum_list (take r (mCurrentChunkSampleSizes it)) \<le> sum_list (chunk_sizes env t c0)"
    using c by (metis append_take_drop_id cached_def c0_def le_add1 sum_list_append)
  then have "add_sizes (mCurrentChunkOffset it) (take r (mCurrentChunkSampleSizes it)) = Some (ref_offset env t i)"
    using file_okD(3,4) [OF t(2) lay(3)] cr off tk
    by (subst add_sizes_ok) (auto simp: ref_offset_def c0_def [symmetric])
  moreover have "mCurrentChunkSampleSizes it ! r = size_of env t i" "r < length (mCurrentChunkSampleSizes it)"
    using sizes rp if_r by simp_all
  ultimately show ?thesis using p r by (simp add: seek_offset_def Let_def)
qed

section \<open>The time of a sample\<close>

text \<open>The iterator stands on run \<open>j\<close> of the durations, or before the first one.\<close>

definition at_run :: "(nat \<times> nat) list \<Rightarrow> nat \<Rightarrow> sample_iterator \<Rightarrow> bool" where
  "at_run rs j it \<longleftrightarrow> j < length rs \<and> mTimeToSampleIndex it = Suc j \<and> mTTSSampleIndex it = length (expand (take j rs))
     \<and> mTTSSampleTime it = sum_list (expand (take j rs)) \<and> mTTSCount it = fst (rs ! j) \<and> mTTSDuration it = snd (rs ! j)"

definition reset_tts :: "sample_iterator \<Rightarrow> sample_iterator" where
  "reset_tts it = it\<lparr>mTimeToSampleIndex := 0, mTTSSampleIndex := 0, mTTSSampleTime := 0, mTTSCount := 0, mTTSDuration := 0\<rparr>"

lemma reset_tts_sel:
  "mTimeToSampleIndex (reset_tts it) = 0" "mTTSSampleIndex (reset_tts it) = 0" "mTTSSampleTime (reset_tts it) = 0"
  "mTTSCount (reset_tts it) = 0"
  by (simp_all add: reset_tts_def)

definition tts_ok :: "(nat \<times> nat) list \<Rightarrow> sample_iterator \<Rightarrow> bool" where
  "tts_ok rs it \<longleftrightarrow> reset_tts it = it \<or> (\<exists>j. at_run rs j it)"

text \<open>The durations cover the samples; neither the count of samples nor the times overflow.\<close>

definition times_ok :: "sample_table \<Rightarrow> bool" where
  "times_ok t \<longleftrightarrow> mTimeToSampleCount t = length (mTimeToSample t)
     \<and> mNumSampleSizes t \<le> length (expand (mTimeToSample t)) \<and> length (expand (mTimeToSample t)) < 2 ^ 32
     \<and> sum_list (expand (mTimeToSample t)) < 2 ^ 64"

lemma sum_expand_take_le: "sum_list (expand (take k rs)) \<le> sum_list (expand (rs :: (nat \<times> nat) list))"
  using append_take_drop_id [of k rs] by (metis expand_simps(3) le_add1 sum_list_append)

text \<open>One round of the loop goes to the next run.\<close>

lemma find_time_step:
  assumes t: "times_ok t" "rs = mTimeToSample t" and it: "tts_ok rs it"
    and i: "mTTSSampleIndex it + mTTSCount it \<le> i" "i < mNumSampleSizes t"
  shows "\<exists>it1. find_time t i it = find_time t i it1 \<and> at_run rs (mTimeToSampleIndex it) it1
    \<and> mTTSSampleIndex it1 \<le> i \<and> reset_tts it1 = reset_tts it"
proof -
  define k where "k = mTimeToSampleIndex it"
  define it1 where "it1 = it\<lparr>mTTSSampleIndex := length (expand (take k rs)), mTTSSampleTime := sum_list (expand (take k rs)),
      mTTSCount := fst (rs ! k), mTTSDuration := snd (rs ! k), mTimeToSampleIndex := Suc k\<rparr>"
  have pos: "mTTSSampleIndex it + mTTSCount it = length (expand (take k rs))
      \<and> mTTSSampleTime it + mTTSCount it * mTTSDuration it = sum_list (expand (take k rs)) \<and> k \<le> length rs"
  proof (cases "\<exists>j. at_run rs j it")
    case True
    then show ?thesis by (auto simp: at_run_def k_def expand_take_Suc sum_list_replicate)
  next
    case False
    then have "reset_tts it = it" using it by (simp add: tts_ok_def)
    then have "mTimeToSampleIndex it = 0 \<and> mTTSSampleIndex it = 0 \<and> mTTSSampleTime it = 0 \<and> mTTSCount it = 0"
      by (metis reset_tts_sel)
    then show ?thesis by (simp add: k_def)
  qed
  have cover: "i < length (expand rs)" "length (expand rs) < 2 ^ 32" "sum_list (expand rs) < 2 ^ 64"
    using t i(2) by (auto simp: times_ok_def)
  then have k: "k < length rs" using pos i(1) by (cases "k = length rs") auto
  have le: "sum_list (expand (take k rs)) \<le> sum_list (expand rs)" "length (expand (take k rs)) \<le> length (expand rs)"
    using sum_expand_take_le length_expand_take_le by blast+
  have b: "mTTSSampleIndex it + mTTSCount it < 2 ^ 32" "mTTSSampleTime it + mTTSCount it * mTTSDuration it < 2 ^ 64"
    using pos le cover by linarith+
  have "\<not> (mTTSDuration it \<noteq> 0 \<and> mTTSCount it > (2 ^ 64 - 1) div mTTSDuration it)"
    using b(2) by (cases "mTTSDuration it = 0") (simp_all add: not_less less_eq_div_iff_mult_less_eq)
  then have "find_time t i it = find_time t i it1"
    using b pos i k t by (subst find_time.simps) (auto simp: it1_def times_ok_def k_def [symmetric] not_less)
  moreover have "length (expand (take k rs)) \<le> i" using pos i(1) by simp
  ultimately show ?thesis using k by (intro exI [of _ it1]) (auto simp: at_run_def reset_tts_def k_def it1_def)
qed

lemma find_time_ok:
  assumes t: "times_ok t" "rs = mTimeToSample t" and it: "tts_ok rs it"
    and i: "mTTSSampleIndex it \<le> i" "i < mNumSampleSizes t"
  shows "\<exists>it' j. find_time t i it = Some (OK, it') \<and> at_run rs j it' \<and> mTTSSampleIndex it' \<le> i
    \<and> i < mTTSSampleIndex it' + mTTSCount it' \<and> reset_tts it' = reset_tts it"
  using it i(1)
proof (induction "length rs - mTimeToSampleIndex it" arbitrary: it rule: less_induct)
  case less
  show ?case
  proof (cases "i < mTTSSampleIndex it + mTTSCount it")
    case True
    obtain j where j: "at_run rs j it"
      using less.prems True unfolding tts_ok_def by (metis add_0 not_less0 reset_tts_sel(2,4))
    then have "mTTSSampleIndex it + mTTSCount it = length (expand (take (Suc j) rs))" by (simp add: at_run_def expand_take_Suc)
    then have "mTTSSampleIndex it + mTTSCount it < 2 ^ 32"
      using length_expand_take_le [of "Suc j" rs] t by (simp add: times_ok_def)
    then have "find_time t i it = Some (OK, it)" using True by (subst find_time.simps) simp
    then show ?thesis using True less.prems j by auto
  next
    case False
    then obtain it1 where 1: "find_time t i it = find_time t i it1" "at_run rs (mTimeToSampleIndex it) it1"
        "mTTSSampleIndex it1 \<le> i" "reset_tts it1 = reset_tts it"
      using find_time_step [OF t less.prems(1) _ i(2)] by auto
    then have "length rs - mTimeToSampleIndex it1 < length rs - mTimeToSampleIndex it" "tts_ok rs it1"
      by (auto simp: at_run_def tts_ok_def)
    then show ?thesis using less.hyps [of it1] 1 by auto
  qed
qed

definition ref_dts :: "sample_table \<Rightarrow> nat \<Rightarrow> nat" where
  "ref_dts t i = sum_list (take i (expand (mTimeToSample t)))"

definition ref_cts :: "sample_table \<Rightarrow> nat \<Rightarrow> nat" where
  "ref_cts t i = nat (int (ref_dts t i) + ref_delta (mCompositionTimeDeltaEntries t) i)"

definition offsets_ok :: "sample_table \<Rightarrow> bool" where
  "offsets_ok t \<longleftrightarrow> list_all (\<lambda>i. let d = ref_delta (mCompositionTimeDeltaEntries t) i
      in - (2 ^ 31) < d \<and> 0 \<le> int (ref_dts t i) + d \<and> int (ref_dts t i) + d < 2 ^ 64) [0..<mNumSampleSizes t]"

lemma offsets_okD:
  assumes "offsets_ok t" "i < mNumSampleSizes t"
  shows "- (2 ^ 31) < ref_delta (mCompositionTimeDeltaEntries t) i"
    "0 \<le> int (ref_dts t i) + ref_delta (mCompositionTimeDeltaEntries t) i"
    "int (ref_dts t i) + ref_delta (mCompositionTimeDeltaEntries t) i < 2 ^ 64"
  using assms by (auto simp: offsets_ok_def list_all_iff Let_def)

lemma findSampleTimeAndDuration_ok:
  assumes t: "times_ok t" "offsets_ok t" and it: "tts_ok (mTimeToSample t) it" "mTTSSampleIndex it \<le> i"
    and lk: "lookup_ok (mCompositionTimeDeltaEntries t) lk" and i: "i < mNumSampleSizes t"
  shows "\<exists>it' lk'. findSampleTimeAndDuration i (put it lk ls t) = Some (OK, put (it'\<lparr>mCurrentSampleTime := ref_cts t i,
      mCurrentSampleDuration := expand (mTimeToSample t) ! i\<rparr>) lk' ls t)
    \<and> tts_ok (mTimeToSample t) it' \<and> lookup_ok (mCompositionTimeDeltaEntries t) lk' \<and> reset_tts it' = reset_tts it"
proof -
  define rs where "rs = mTimeToSample t"
  define d where "d = ref_delta (mCompositionTimeDeltaEntries t) i"
  obtain it' j where ft: "find_time (put it lk ls t) i it = Some (OK, it')" "at_run rs j it'" "mTTSSampleIndex it' \<le> i"
      "i < mTTSSampleIndex it' + mTTSCount it'" "reset_tts it' = reset_tts it"
    using find_time_ok [of "put it lk ls t" rs it i] t(1) it i by (auto simp: times_ok_def rs_def)
  then have j: "j < length rs" "length (expand (take j rs)) \<le> i" "i < length (expand (take j rs)) + fst (rs ! j)"
    by (auto simp: at_run_def)
  have dts: "mTTSSampleTime it' + mTTSDuration it' * (i - mTTSSampleIndex it') = ref_dts t i" "mTTSDuration it' = expand rs ! i"
    using sum_expand_in_run [OF j] expand_in_run(1) [OF j] ft(2) by (simp_all add: at_run_def ref_dts_def rs_def)
  have "ref_dts t i \<le> sum_list (expand rs)"
    unfolding ref_dts_def rs_def by (metis append_take_drop_id le_add1 sum_list_append)
  then have dts64: "ref_dts t i < 2 ^ 64" using t(1) by (simp add: times_ok_def rs_def)
  then have dur64: "mTTSDuration it' * (i - mTTSSampleIndex it') < 2 ^ 64" using dts(1) by linarith
  have d: "- (2 ^ 31) < d" "0 \<le> int (ref_dts t i) + d" "int (ref_dts t i) + d < 2 ^ 64"
    using offsets_okD [OF t(2) i] by (simp_all add: d_def)
  obtain lk' where lk': "getCompositionTimeOffset i lk = (d, lk')" "lookup_ok (mCompositionTimeDeltaEntries t) lk'"
    using getCompositionTimeOffset_ref [OF lk] by (auto simp: d_def)
  have "\<not> offset_overflows (2 ^ 63 - 1) (ref_dts t i) d" "d \<noteq> - (2 ^ 31)"
    using d by (auto simp: offset_overflows_def)
  then have "findSampleTimeAndDuration i (put it lk ls t) = Some (OK, put (it'\<lparr>mCurrentSampleTime := ref_cts t i,
      mCurrentSampleDuration := expand rs ! i\<rparr>) lk' ls t)"
    unfolding findSampleTimeAndDuration_def put_simps ft(1) Let_def option.case prod.case dts(1)
    using i ft(3) dts64 dur64 lk'(1) by (simp add: dts(2) ref_cts_def d_def [symmetric] not_le)
  then show ?thesis using ft lk' by (auto simp: tts_ok_def rs_def)
qed

section \<open>A seek after any history\<close>

text \<open>The box sizes and the file agree; this is what the format asks of a track.\<close>

definition table_ok :: "file_env \<Rightarrow> sample_table \<Rightarrow> bool" where
  "table_ok env t \<longleftrightarrow> 0 \<le> mChunkOffsetOffset t \<and> 0 \<le> mSampleToChunkOffset t \<and> 0 \<le> mSampleSizeOffset t
     \<and> chunks_ok t \<and> file_ok env t \<and> times_ok t \<and> offsets_ok t
     \<and> mNumSyncSamples t = length (mSyncSamples t) \<and> sorted (mSyncSamples t)"

definition position :: "sample_iterator \<Rightarrow> int \<times> nat \<times> nat \<times> nat" where
  "position it = (mCurrentSampleOffset it, mCurrentSampleSize it, mCurrentSampleTime it, mCurrentSampleDuration it)"

definition ref_position :: "file_env \<Rightarrow> sample_table \<Rightarrow> nat \<Rightarrow> int \<times> nat \<times> nat \<times> nat" where
  "ref_position env t i = (ref_offset env t i, size_of env t i, ref_cts t i, expand (mTimeToSample t) ! i)"

definition iter_inv :: "file_env \<Rightarrow> sample_table \<Rightarrow> sample_iterator \<Rightarrow> delta_lookup \<Rightarrow> bool" where
  "iter_inv env t it lk \<longleftrightarrow> range_ok (mSampleToChunkEntries t) it \<and> tts_ok (mTimeToSample t) it
     \<and> lookup_ok (mCompositionTimeDeltaEntries t) lk
     \<and> (mInitialized it \<longrightarrow> cached env t it \<and> position it = ref_position env t (mCurrentSampleIndex it))"

lemma tts_ok_iff:
  "tts_ok rs it \<longleftrightarrow> (mTimeToSampleIndex it = 0 \<and> mTTSSampleIndex it = 0 \<and> mTTSSampleTime it = 0 \<and> mTTSCount it = 0 \<and> mTTSDuration it = 0)
     \<or> (\<exists>j. at_run rs j it)"
  by (cases it) (auto simp: tts_ok_def reset_tts_def)

lemma reset_keeps:
  "mInitialized (reset it) = mInitialized it" "mCurrentChunkIndex (reset it) = mCurrentChunkIndex it"
  "mCurrentChunkOffset (reset it) = mCurrentChunkOffset it" "mCurrentChunkSampleSizes (reset it) = mCurrentChunkSampleSizes it"
  "tts_ok rs (reset it) = tts_ok rs it" "cached env t (reset it) = cached env t it"
  by (simp_all add: reset_def tts_ok_iff at_run_def cached_def)

lemma reset_tts_keeps:
  "range_ok es (reset_tts it) = range_ok es it" "cached env t (reset_tts it) = cached env t it"
  "mCurrentSampleOffset (reset_tts it) = mCurrentSampleOffset it" "mCurrentSampleSize (reset_tts it) = mCurrentSampleSize it"
  by (simp_all add: reset_tts_def range_ok_def at_entry_def cached_def)

lemma seek_time_ok:
  assumes t: "times_ok t" "offsets_ok t" and it: "tts_ok (mTimeToSample t) it"
    and lk: "lookup_ok (mCompositionTimeDeltaEntries t) lk" and i: "i < mNumSampleSizes t"
  shows "\<exists>it' lk'. seek_time i (put it lk ls t) = Some (OK, put (it'\<lparr>mCurrentSampleTime := ref_cts t i,
      mCurrentSampleDuration := expand (mTimeToSample t) ! i, mCurrentSampleIndex := i, mInitialized := True\<rparr>) lk' ls t)
    \<and> tts_ok (mTimeToSample t) it' \<and> lookup_ok (mCompositionTimeDeltaEntries t) lk' \<and> reset_tts it' = reset_tts it"
proof -
  define it0 where "it0 = (if i < mTTSSampleIndex it then reset_tts it else it)"
  have it0: "tts_ok (mTimeToSample t) it0" "mTTSSampleIndex it0 \<le> i" "reset_tts it0 = reset_tts it"
    using it by (auto simp: it0_def tts_ok_iff reset_tts_sel) (auto simp: reset_tts_def)
  obtain it' lk' where "findSampleTimeAndDuration i (put it0 lk ls t) = Some (OK, put (it'\<lparr>mCurrentSampleTime := ref_cts t i,
      mCurrentSampleDuration := expand (mTimeToSample t) ! i\<rparr>) lk' ls t)"
      "tts_ok (mTimeToSample t) it'" "lookup_ok (mCompositionTimeDeltaEntries t) lk'" "reset_tts it' = reset_tts it"
    using findSampleTimeAndDuration_ok [OF t it0(1,2) lk i, of ls] it0(3) by auto
  then show ?thesis
    unfolding seek_time_def Let_def put_simps reset_tts_def [symmetric] it0_def [symmetric]
    by (intro exI [of _ it'] exI [of _ lk']) (simp add: and_then_def)
qed

theorem seekTo_ok:
  assumes t: "table_ok env t" and i: "i < mNumSampleSizes t" and inv: "iter_inv env t it lk"
  shows "\<exists>it' lk'. seekTo env i (put it lk ls t) = Some (OK, put it' lk' ls t) \<and> iter_inv env t it' lk'
    \<and> position it' = ref_position env t i"
proof (cases "mInitialized it \<and> mCurrentSampleIndex it = i")
  case True
  have "mTimeToSampleCount t \<noteq> 0" using t i by (auto simp: table_ok_def times_ok_def)
  then show ?thesis using True t i inv by (auto simp: seekTo_def table_ok_def iter_inv_def)
next
  case False
  have T: "chunks_ok t" "file_ok env t" "times_ok t" "offsets_ok t" using t by (auto simp: table_ok_def)
  obtain c r where cr: "ref_chunk t i = (c, r)" by (cases "ref_chunk t i")
  obtain it1 where 1: "seek_range i (put it lk ls t) = Some (OK, put it1 lk ls t)" "run_holds t i it1" "reset it1 = reset it"
    using seek_range_ok [OF T(1) i] inv unfolding iter_inv_def by blast
  have keep1: "tts_ok (mTimeToSample t) it1" "mInitialized it1 \<Longrightarrow> cached env t it1"
    using inv unfolding iter_inv_def by (metis 1(3) reset_keeps(5), metis 1(3) reset_keeps(1,6))
  define it2 where "it2 = it1\<lparr>mCurrentChunkOffset := chunk_offset env t c,
    mCurrentChunkSampleSizes := chunk_sizes env t c, mCurrentChunkIndex := c\<rparr>"
  have 2: "seek_chunk env i (put it1 lk ls t) = Some (OK, put it2 lk ls t)"
    using seek_chunk_ok [OF T(1,2) i 1(2) keep1(2) cr] by (simp add: it2_def)
  have keep2: "run_holds t i it2" "cached env t it2" "ref_chunk t i = (mCurrentChunkIndex it2, r)" "tts_ok (mTimeToSample t) it2"
    using 1(2) keep1(1) cr by (auto simp: it2_def run_holds_def at_entry_def cached_def tts_ok_iff at_run_def)
  define it3 where "it3 = it2\<lparr>mCurrentSampleOffset := ref_offset env t i, mCurrentSampleSize := size_of env t i\<rparr>"
  have 3: "seek_offset i (put it2 lk ls t) = Some (OK, put it3 lk ls t)"
    using seek_offset_ok [OF T(1,2) i keep2(1,2,3)] by (simp add: it3_def)
  have keep3: "range_ok (mSampleToChunkEntries t) it3" "cached env t it3" "tts_ok (mTimeToSample t) it3"
    using keep2 by (auto simp: it3_def run_holds_def range_ok_def at_entry_def cached_def tts_ok_iff at_run_def)
  have lk: "lookup_ok (mCompositionTimeDeltaEntries t) lk" using inv by (simp add: iter_inv_def)
  obtain it4 lk' where 4: "seek_time i (put it3 lk ls t) = Some (OK, put (it4\<lparr>mCurrentSampleTime := ref_cts t i,
      mCurrentSampleDuration := expand (mTimeToSample t) ! i, mCurrentSampleIndex := i, mInitialized := True\<rparr>) lk' ls t)"
      "tts_ok (mTimeToSample t) it4" "lookup_ok (mCompositionTimeDeltaEntries t) lk'" "reset_tts it4 = reset_tts it3"
    using seek_time_ok [OF T(3,4) keep3(3) lk i] by blast
  have keep4: "range_ok (mSampleToChunkEntries t) it4 = range_ok (mSampleToChunkEntries t) it3" "cached env t it4 = cached env t it3"
    "mCurrentSampleOffset it4 = mCurrentSampleOffset it3" "mCurrentSampleSize it4 = mCurrentSampleSize it3"
    using 4(4) by (metis reset_tts_keeps(1), metis reset_tts_keeps(2), metis reset_tts_keeps(3), metis reset_tts_keeps(4))
  define it5 where "it5 = it4\<lparr>mCurrentSampleTime := ref_cts t i, mCurrentSampleDuration := expand (mTimeToSample t) ! i,
    mCurrentSampleIndex := i, mInitialized := True\<rparr>"
  have "mTimeToSampleCount t \<noteq> 0" using t i by (auto simp: table_ok_def times_ok_def)
  then have "seekTo env i (put it lk ls t) = Some (OK, put it5 lk' ls t)"
    using False t i by (auto simp: seekTo_def table_ok_def and_then_def 1(1) 2 3 4(1) it5_def)
  moreover have "position it5 = ref_position env t i"
    using keep4(3,4) by (simp add: it5_def it3_def position_def ref_position_def)
  moreover have "range_ok (mSampleToChunkEntries t) it5" "cached env t it5" "tts_ok (mTimeToSample t) it5" "mCurrentSampleIndex it5 = i"
    using keep3(1,2) keep4(1,2) 4(2) by (simp_all add: it5_def range_ok_def at_entry_def cached_def tts_ok_iff at_run_def)
  ultimately show ?thesis using 4(3) by (auto simp: iter_inv_def)
qed

section \<open>Sync samples\<close>

lemma sync_scan_spec:
  assumes "i \<le> length ss"
  shows "i \<le> sync_scan x i (drop i ss) \<and> sync_scan x i (drop i ss) \<le> length ss
    \<and> (\<forall>k. i \<le> k \<longrightarrow> k < sync_scan x i (drop i ss) \<longrightarrow> ss ! k < x)
    \<and> (sync_scan x i (drop i ss) < length ss \<longrightarrow> x \<le> ss ! sync_scan x i (drop i ss))"
  using assms
proof (induction "length ss - i" arbitrary: i)
  case 0
  then show ?case by simp
next
  case (Suc n)
  then have i: "i < length ss" by simp
  then have d: "drop i ss = ss ! i # drop (Suc i) ss" by (simp add: Cons_nth_drop_Suc)
  show ?case
  proof (cases "ss ! i < x")
    case True
    have "n = length ss - Suc i" "Suc i \<le> length ss" using Suc.hyps(2) i by auto
    from Suc.hyps(1) [OF this] show ?thesis
      using True by (auto simp: d Suc_le_eq) (metis le_neq_implies_less)+
  qed (use i in \<open>auto simp: d\<close>)
qed

text \<open>Where the last search ended does not matter.\<close>

lemma is_sync_sample_ok:
  assumes "mNumSyncSamples t = length (mSyncSamples t)" "sorted (mSyncSamples t)"
  shows "\<exists>ls'. is_sync_sample x (put it lk ls t) = (mSyncSampleOffset t < 0 \<or> x \<in> set (mSyncSamples t), put it lk ls' t)"
proof (cases "mSyncSampleOffset t < 0")
  case False
  define ss where "ss = mSyncSamples t"
  define i where "i = (if ls < length ss \<and> ss ! ls \<le> x then ls else 0)"
  define k where "k = sync_scan x i (drop i ss)"
  have i: "i \<le> length ss" by (simp add: i_def)
  note scan = sync_scan_spec [OF i, of x, folded k_def]
  have before: "ss ! m \<le> ss ! n" if "m \<le> n" "n < length ss" for m n
    using assms(2) that by (simp add: ss_def sorted_nth_mono)
  have "k < length ss \<and> ss ! k = x \<longleftrightarrow> x \<in> set ss"
  proof
    assume "x \<in> set ss"
    then obtain m where m: "m < length ss" "ss ! m = x" by (auto simp: in_set_conv_nth)
    show "k < length ss \<and> ss ! k = x"
    proof (cases "m < i")
      case True
      then have "i < length ss" "ss ! i = x" using m before [of m i] by (auto simp: i_def split: if_splits)
      then show ?thesis using scan by (metis le_neq_implies_less less_irrefl order_refl)
    next
      case False
      then have "k \<le> m" using scan m by (metis less_irrefl not_less)
      then show ?thesis using scan m before [of k m] by auto
    qed
  qed auto
  then show ?thesis using False assms(1)
    by (auto simp: is_sync_sample_def Let_def ss_def [symmetric] i_def [symmetric] k_def [symmetric])
qed (auto simp: is_sync_sample_def)

section \<open>The queries of a client\<close>

text \<open>What the queries never change: all but the caches and the table of composition times.\<close>

definition core :: "sample_table \<Rightarrow> sample_table" where
  "core t = put new_iterator new_lookup 0 (t\<lparr>mSampleTimeEntries := None, mTotalSize := 0\<rparr>)"

lemma core_put [simp]: "core (put it lk ls t) = core t"
  by (simp add: core_def put_def)

lemma core_build [simp]: "core (t\<lparr>mSampleTimeEntries := es, mCompositionDeltaLookup := lk\<rparr>) = core t" "core (t\<lparr>mTotalSize := n\<rparr>) = core t"
  by (simp_all add: core_def put_def)

lemma core_fields:
  "mNumSampleSizes (core t) = mNumSampleSizes t" "mSampleToChunkEntries (core t) = mSampleToChunkEntries t"
  "mNumChunkOffsets (core t) = mNumChunkOffsets t" "mTimeToSample (core t) = mTimeToSample t"
  "mCompositionTimeDeltaEntries (core t) = mCompositionTimeDeltaEntries t" "mSyncSampleOffset (core t) = mSyncSampleOffset t"
  "mSyncSamples (core t) = mSyncSamples t" "mNumSyncSamples (core t) = mNumSyncSamples t"
  "getChunkOffset env (core t) c = getChunkOffset env t c" "getSampleSizeDirect env (core t) i = getSampleSizeDirect env t i"
  "mChunkOffsetOffset (core t) = mChunkOffsetOffset t" "mSampleToChunkOffset (core t) = mSampleToChunkOffset t"
  "mSampleSizeOffset (core t) = mSampleSizeOffset t" "mTimeToSampleCount (core t) = mTimeToSampleCount t"
  "mNumSampleToChunkOffsets (core t) = mNumSampleToChunkOffsets t"
  unfolding core_def put_reads by (simp_all add: getChunkOffset_def getSampleSizeDirect_def Let_def)

lemma core_reads:
  "size_of env (core t) i = size_of env t i" "chunk_offset env (core t) c = chunk_offset env t c"
  "chunk_sizes env (core t) c = chunk_sizes env t c" "ref_dts (core t) i = ref_dts t i"
  unfolding size_of_def chunk_offset_def chunk_sizes_def ref_dts_def core_fields
  by (rule refl)+

lemma core_refs:
  "ref_position env (core t) i = ref_position env t i" "table_ok env (core t) = table_ok env t"
  "iter_inv env (core t) it lk = iter_inv env t it lk"
  unfolding ref_position_def ref_offset_def ref_chunk_def ref_cts_def table_ok_def file_ok_def chunks_ok_def times_ok_def
    offsets_ok_def iter_inv_def cached_def core_reads core_fields
  by (simp_all add: core_reads [abs_def])

text \<open>The invariant of a track \<open>t0\<close> while it is queried.\<close>

definition track_inv :: "file_env \<Rightarrow> sample_table \<Rightarrow> sample_table \<Rightarrow> bool" where
  "track_inv env t0 t \<longleftrightarrow> core t = core t0 \<and> iter_inv env t0 (mSampleIterator t) (mCompositionDeltaLookup t)"

lemma track_inv_seek:
  assumes "table_ok env t0" "track_inv env t0 t" "i < mNumSampleSizes t0"
  shows "\<exists>t'. seekTo env i t = Some (OK, t') \<and> track_inv env t0 t' \<and> position (mSampleIterator t') = ref_position env t0 i
    \<and> mLastSyncSampleIndex t' = mLastSyncSampleIndex t"
proof -
  have eq: "core t = core t0" using assms(2) by (simp add: track_inv_def)
  have t: "table_ok env t" "iter_inv env t (mSampleIterator t) (mCompositionDeltaLookup t)" "i < mNumSampleSizes t"
    using assms eq core_refs(2) [of env t] core_refs(2) [of env t0] core_refs(3) [of env t] core_refs(3) [of env t0]
      core_fields(1) [of t] core_fields(1) [of t0]
    by (simp_all add: track_inv_def)
  have ref: "ref_position env t i = ref_position env t0 i" "iter_inv env t = iter_inv env t0"
    using eq core_refs(1) [of env t] core_refs(1) [of env t0] core_refs(3) [of env t] core_refs(3) [of env t0] by (auto intro!: ext)
  obtain it' lk' where "seekTo env i t = Some (OK, put it' lk' (mLastSyncSampleIndex t) t)" "iter_inv env t it' lk'"
      "position it' = ref_position env t i"
    using seekTo_ok [OF t(1,3,2), of "mLastSyncSampleIndex t"] put_self [of t] by auto
  then show ?thesis using eq by (simp add: track_inv_def ref)
qed

lemma track_inv_seekTo:
  assumes "table_ok env t0" "track_inv env t0 t" "seekTo env i t = Some (st, t')"
  shows "track_inv env t0 t'"
proof (cases "i < mNumSampleSizes t0")
  case True
  then show ?thesis using track_inv_seek [OF assms(1,2) True] assms(3) by auto
next
  case False
  have "mNumSampleSizes t = mNumSampleSizes t0"
    using assms(2) core_fields(1) [of t] core_fields(1) [of t0] by (simp add: track_inv_def)
  then show ?thesis using False assms(2,3) by (simp add: seekTo_def)
qed

lemma track_inv_sync: "track_inv env t0 (t\<lparr>mLastSyncSampleIndex := ls\<rparr>) = track_inv env t0 t"
  by (simp add: track_inv_def core_def put_def)

lemma getMetaData_inv:
  assumes "table_ok env t0" "track_inv env t0 t" "getMetaDataForSample env i w t = Some (st, r, t')"
  shows "track_inv env t0 t'"
  using assms track_inv_seekTo [OF assms(1,2)]
  by (auto simp: getMetaDataForSample_def is_sync_sample_def track_inv_sync Let_def split: option.splits if_splits)

lemma seek_for_time_inv:
  assumes "table_ok env t0" "track_inv env t0 t" "seek_for_time env i t k = Some (st, x, t')"
    and "\<And>n t1. track_inv env t0 t1 \<Longrightarrow> k n t1 = Some (st, x, t') \<Longrightarrow> track_inv env t0 t'"
  shows "track_inv env t0 t'"
proof -
  obtain e t1 where t1: "seekTo env i t = Some (e, t1)" using assms(3) by (auto simp: seek_for_time_def split: option.splits)
  then have "track_inv env t0 t1" by (rule track_inv_seekTo [OF assms(1,2)])
  then show ?thesis using assms(3,4) t1 by (cases "e = OK") (auto simp: seek_for_time_def)
qed

lemma findSyncSampleNear_inv:
  assumes "table_ok env t0" "track_inv env t0 t" "findSyncSampleNear env i fl t = Some (st, x, t')"
  shows "track_inv env t0 t'"
proof -
  have closest: "track_inv env t0 t'"
    if "seek_for_time env i t (\<lambda>a t. seek_for_time env j t (\<lambda>b t. seek_for_time env k t (\<lambda>c t. Some (OK, f a b c, t)))) = Some (st, x, t')"
    for j k f
    using that assms(2) by (elim seek_for_time_inv [OF assms(1), rotated]) (blast | simp)+
  show ?thesis
    using assms(2,3) unfolding findSyncSampleNear_def Let_def
    by (simp split: if_split_asm option.split_asm place.split_asm find_flag.split_asm) (rule closest, assumption)
qed

text \<open>Filling the table of composition times moves the cached composition entry only.\<close>

lemma fill_lookup:
  "lookup_ok es (fillLookup s) \<Longrightarrow> fill_one num d s = Some s' \<Longrightarrow> lookup_ok es (fillLookup s')"
  "lookup_ok es (fillLookup s) \<Longrightarrow> fill_run num d n s = Some s' \<Longrightarrow> lookup_ok es (fillLookup s')"
  "lookup_ok es (fillLookup s) \<Longrightarrow> fill_runs num rs s = Some s' \<Longrightarrow> lookup_ok es (fillLookup s')"
proof -
  have one: "lookup_ok es (fillLookup s')" if "lookup_ok es (fillLookup s)" "fill_one num d s = Some s'" for s d s'
    using that getCompositionTimeOffset_ref [OF that(1), of "fillIndex s"]
    by (auto simp: fill_one_def Let_def split: if_splits)
  then show "lookup_ok es (fillLookup s) \<Longrightarrow> fill_one num d s = Some s' \<Longrightarrow> lookup_ok es (fillLookup s')" .
  have run: "lookup_ok es (fillLookup s')" if "lookup_ok es (fillLookup s)" "fill_run num d n s = Some s'" for s d n s'
    using that by (induction n arbitrary: s) (auto split: option.splits intro: one)
  then show "lookup_ok es (fillLookup s) \<Longrightarrow> fill_run num d n s = Some s' \<Longrightarrow> lookup_ok es (fillLookup s')" .
  show "lookup_ok es (fillLookup s) \<Longrightarrow> fill_runs num rs s = Some s' \<Longrightarrow> lookup_ok es (fillLookup s')"
    by (induction rs arbitrary: s) (simp, use run in \<open>fastforce split: option.splits\<close>)
qed

lemma build_inv:
  assumes "track_inv env t0 t" "buildSampleEntriesTable env t = Some t'"
  shows "track_inv env t0 t'"
  using assms
  by (auto simp: buildSampleEntriesTable_def track_inv_def iter_inv_def Let_def dest!: fill_lookup(3) [rotated] split: if_splits option.splits)

lemma pick_entry_same: "pick_entry t i = Some (st, x, t') \<Longrightarrow> t' = t"
  by (auto simp: pick_entry_def split: option.splits if_splits)

lemma findSampleAtTime_inv:
  assumes "track_inv env t0 t" "findSampleAtTime env q a b fl t = Some (st, x, t')"
  shows "track_inv env t0 t'"
proof -
  obtain t1 where t1: "buildSampleEntriesTable env t = Some t1" using assms(2) by (auto simp: findSampleAtTime_def split: option.splits)
  have "t' = t1"
    using assms(2) by (auto simp: findSampleAtTime_def t1 dest!: pick_entry_same split: if_splits option.splits place.splits find_flag.splits)
  then show ?thesis using build_inv [OF assms(1) t1] by simp
qed

inductive track_step :: "file_env \<Rightarrow> sample_table \<Rightarrow> sample_table \<Rightarrow> bool" for env where
  meta: "getMetaDataForSample env i w t = Some (st, r, t') \<Longrightarrow> track_step env t t'"
| near: "findSyncSampleNear env i fl t = Some (st, x, t') \<Longrightarrow> track_step env t t'"
| time: "findSampleAtTime env q a b fl t = Some (st, y, t') \<Longrightarrow> track_step env t t'"

inductive_cases track_stepE: "track_step env t t'"

definition fresh_track :: "sample_table \<Rightarrow> bool" where
  "fresh_track t \<longleftrightarrow> mSampleIterator t = new_iterator
     \<and> mCompositionDeltaLookup t = \<lparr>mDeltaEntries = mCompositionTimeDeltaEntries t, mCurrentDeltaEntry = 0, mCurrentEntrySampleIndex = 0\<rparr>"

interpretation querying: invariant_system "\<lambda>t. t = t0 \<and> fresh_track t" "\<lambda>t t'. table_ok env t0 \<and> track_step env t t'" "track_inv env t0"
  for env t0
proof
  show "t = t0 \<and> fresh_track t \<Longrightarrow> track_inv env t0 t" for t
    by (auto simp: fresh_track_def track_inv_def iter_inv_def range_ok_def tts_ok_iff lookup_ok_def new_iterator_def split: option.splits)
  show "track_inv env t0 t \<Longrightarrow> table_ok env t0 \<and> track_step env t t' \<Longrightarrow> track_inv env t0 t'" for t t'
    by (auto elim!: track_stepE intro: getMetaData_inv findSyncSampleNear_inv findSampleAtTime_inv)
qed

definition ref_meta :: "file_env \<Rightarrow> sample_table \<Rightarrow> nat \<Rightarrow> meta_data" where
  "ref_meta env t i =
     \<lparr>metaOffset = ref_offset env t i, metaSize = size_of env t i, metaTime = ref_cts t i,
      metaSync = (mSyncSampleOffset t < 0 \<or> i \<in> set (mSyncSamples t)), metaDuration = expand (mTimeToSample t) ! i\<rparr>"

text \<open>
  C2: on a track whose tables agree with one another and with the file, the extractor can query
  in any order it likes: after any sequence of metadata queries, searches by time and searches
  for sync samples, the metadata of a sample is what the expanded tables say: the offset of its
  chunk plus the sizes of the samples before it in the chunk, its own size, its composition time
  and duration, and whether it is in the list of sync samples.
\<close>

theorem metadata_after_any_queries:
  assumes "table_ok env t0" "fresh_track t0" "(track_step env)\<^sup>*\<^sup>* t0 t" "i < mNumSampleSizes t0"
  shows "\<exists>t'. getMetaDataForSample env i True t = Some (OK, Some (ref_meta env t0 i), t')"
proof -
  have "(\<lambda>t t'. table_ok env t0 \<and> track_step env t t')\<^sup>*\<^sup>* t0 t"
    using assms(1,3) by (metis (mono_tags, lifting) mono_rtranclp)
  then have inv: "track_inv env t0 t" using querying.reachable_inv assms(2) by blast
  obtain t1 where t1: "seekTo env i t = Some (OK, t1)" "track_inv env t0 t1" "position (mSampleIterator t1) = ref_position env t0 i"
    using track_inv_seek [OF assms(1) inv assms(4)] by blast
  have eq: "core t1 = core t0" using t1(2) by (simp add: track_inv_def)
  then have f: "mSyncSampleOffset t1 = mSyncSampleOffset t0" "mSyncSamples t1 = mSyncSamples t0" "mNumSyncSamples t1 = mNumSyncSamples t0"
    by (metis core_fields(6), metis core_fields(7), metis core_fields(8))
  then have "\<exists>ls. is_sync_sample i t1 = (mSyncSampleOffset t0 < 0 \<or> i \<in> set (mSyncSamples t0), put (mSampleIterator t1) (mCompositionDeltaLookup t1) ls t1)"
    using is_sync_sample_ok [of t1 i "mSampleIterator t1" "mCompositionDeltaLookup t1" "mLastSyncSampleIndex t1"] assms(1)
    by (simp add: table_ok_def put_self)
  then show ?thesis using t1(1,3)
    by (auto simp: getMetaDataForSample_def ref_meta_def position_def ref_position_def)
qed

text \<open>A track of five samples in three chunks, with 8 bit sample sizes and three sync samples.\<close>

definition demo_file :: "u8 list" where
  "demo_file = [0,0,0,0,0,0,0,3, 0,0,0,100, 0,0,1,44, 0,0,0,200, 0,0,0,0,0,0,0,8,0,0,0,5, 10,20,30,40,50]"

definition demo_env :: file_env where
  "demo_env = \<lparr>readAt = (\<lambda>off n. take n (drop (nat off) demo_file)), alloc = (\<lambda>n. True), unset = (\<lambda>i. (0, 0)),
     qsort = sort_key snd\<rparr>"

definition demo_track :: sample_table where
  "demo_track = new_table
     \<lparr>mChunkOffsetOffset := 0, mNumChunkOffsets := 3, mSampleToChunkOffset := 40, mNumSampleToChunkOffsets := 2,
      mSampleToChunkEntries := [\<lparr>startChunk = 0, samplesPerChunk = 2, chunkDesc = 1\<rparr>, \<lparr>startChunk = 2, samplesPerChunk = 1, chunkDesc = 1\<rparr>],
      mSampleSizeOffset := 20, mSampleSizeFieldSize := 8, mNumSampleSizes := 5, mHasTimeToSample := True,
      mTimeToSampleCount := 2, mTimeToSample := [(3, 1000), (2, 500)],
      mCompositionTimeDeltaEntries := Some [(2, 0), (3, -200)],
      mCompositionDeltaLookup := \<lparr>mDeltaEntries = Some [(2, 0), (3, -200)], mCurrentDeltaEntry = 0, mCurrentEntrySampleIndex = 0\<rparr>,
      mSyncSampleOffset := 99, mNumSyncSamples := 2, mSyncSamples := [0, 3]\<rparr>"

lemma demo_fields [simp]:
  "mChunkOffsetOffset demo_track = 0" "mChunkOffsetType demo_track = kChunkOffsetType32" "mNumChunkOffsets demo_track = 3"
  "mSampleToChunkOffset demo_track = 40" "mNumSampleToChunkOffsets demo_track = 2"
  "mSampleToChunkEntries demo_track = [\<lparr>startChunk = 0, samplesPerChunk = 2, chunkDesc = 1\<rparr>, \<lparr>startChunk = 2, samplesPerChunk = 1, chunkDesc = 1\<rparr>]"
  "mSampleSizeOffset demo_track = 20" "mSampleSizeFieldSize demo_track = 8" "mDefaultSampleSize demo_track = 0" "mNumSampleSizes demo_track = 5"
  "mTimeToSampleCount demo_track = 2" "mTimeToSample demo_track = [(3, 1000), (2, 500)]"
  "mCompositionTimeDeltaEntries demo_track = Some [(2, 0), (3, -200)]"
  "mSyncSampleOffset demo_track = 99" "mNumSyncSamples demo_track = 2" "mSyncSamples demo_track = [0, 3]"
  by (simp_all add: demo_track_def new_table_def)

lemma demo_read: "readAt demo_env off n = take n (drop (nat off) demo_file)"
  by (simp add: demo_env_def)

lemma demo_layout:
  "layout (mSampleToChunkEntries demo_track) 3 = [(0, 0), (0, 1), (1, 0), (1, 1), (2, 0)]"
  "length (layout (mSampleToChunkEntries demo_track) 1) = 2" "length (layout (mSampleToChunkEntries demo_track) 2) = 4"
  by (simp_all add: layout_def chunk_spc_def upt_rec)

lemma demo_chunks:
  "getChunkOffset demo_env demo_track 0 = Some (OK, 100)" "getChunkOffset demo_env demo_track (Suc 0) = Some (OK, 300)"
  "getChunkOffset demo_env demo_track 2 = Some (OK, 200)"
  by (simp_all add: getChunkOffset_def demo_read demo_file_def be_value_def)

lemma demo_sizes: "i < 5 \<Longrightarrow> getSampleSizeDirect demo_env demo_track i = Some (OK, 10 * i + 10)"
proof -
  assume "i < 5"
  then have "i \<in> {0, 1, 2, 3, 4}" by auto
  then show ?thesis by (auto simp: getSampleSizeDirect_def size_field_def demo_read demo_file_def be_value_def)
qed

lemma demo_size_of: "i < 5 \<Longrightarrow> size_of demo_env demo_track i = 10 * i + 10"
  by (simp add: size_of_def demo_sizes)

lemma demo_lists:
  "[0..<5] = [0, 1, 2, 3, 4]" "[0..<3] = [0, 1, 2]" "[2..<4] = [2, 3]" "[4..<5] = [4]" "[0..<2] = [0, 1]" "[2..<3] = [2]"
  by (simp_all add: upt_rec)

lemma demo_expand:
  "expand [(3, 1000), (2, 500)] = [1000, 1000, 1000, 500, 500]"
  "expand [(2, 0), (3, -200)] = [0, 0, -200, -200, -200]"
proof -
  have "replicate 3 x = [x, x, x]" "replicate 2 x = [x, x]" for x :: 'x
    by (simp_all add: numeral_eq_Suc)
  note this [simp]
  show "expand [(3, 1000), (2, 500)] = [1000, 1000, 1000, 500, 500]" by simp
  show "expand [(2, 0), (3, -200)] = [0, 0, -200, -200, -200]" by simp
qed

lemma demo_track_ok: "table_ok demo_env demo_track" "fresh_track demo_track"
proof -
  have "chunks_ok demo_track"
    using demo_layout(1) by (simp add: chunks_ok_def stsc_ok_def)
  moreover have "file_ok demo_env demo_track"
    using demo_layout
    by (simp add: file_ok_def numeral_2_eq_2 [symmetric] numeral_3_eq_3 [symmetric] demo_lists demo_sizes demo_chunks chunk_offset_def chunk_sizes_def demo_size_of)
  moreover have "times_ok demo_track" by (simp add: times_ok_def demo_expand del: expand_simps)
  moreover have "offsets_ok demo_track"
    by (simp add: offsets_ok_def ref_delta_def ref_dts_def demo_lists demo_expand del: expand_simps)
  ultimately show "table_ok demo_env demo_track" by (simp add: table_ok_def)
qed (simp add: fresh_track_def demo_track_def new_table_def)

lemma demo_refs:
  "ref_meta demo_env demo_track 3 = \<lparr>metaOffset = 330, metaSize = 40, metaTime = 2800, metaSync = True, metaDuration = 500\<rparr>"
  using demo_layout(1) by (simp add: ref_meta_def ref_offset_def ref_chunk_def chunk_offset_def demo_chunks demo_size_of
      ref_cts_def ref_dts_def ref_delta_def demo_lists demo_expand del: expand_simps)

theorem metadata_after_any_queries_witness:
  "\<exists>t t'. (track_step demo_env)\<^sup>*\<^sup>* demo_track t
     \<and> getMetaDataForSample demo_env 3 True t
       = Some (OK, Some \<lparr>metaOffset = 330, metaSize = 40, metaTime = 2800, metaSync = True, metaDuration = 500\<rparr>, t')"
proof -
  have n: "mNumSampleSizes demo_track = 5" by (simp add: demo_track_def)
  obtain t where "getMetaDataForSample demo_env 4 True demo_track = Some (OK, Some (ref_meta demo_env demo_track 4), t)"
    using metadata_after_any_queries [OF demo_track_ok rtranclp.rtrancl_refl, of 4] n by auto
  then have "(track_step demo_env)\<^sup>*\<^sup>* demo_track t" by (blast intro: track_step.meta)
  then show ?thesis using metadata_after_any_queries [OF demo_track_ok, of t 3] n demo_refs by auto
qed

section \<open>A last chunk that is not full\<close>

lemma read_sizes_short:
  assumes "\<And>i. index \<le> i \<Longrightarrow> i < mNumSampleSizes t \<Longrightarrow> getSampleSizeDirect env t i = Some (OK, size_of env t i)"
    and "mNumSampleSizes t < index + todo" "index \<le> mNumSampleSizes t"
  shows "read_sizes env t index todo acc = Some (Sizes_short (acc @ map (size_of env t) [index..<mNumSampleSizes t]))"
  using assms
proof (induction todo arbitrary: index acc)
  case (Suc todo)
  show ?case
  proof (cases "index = mNumSampleSizes t")
    case True
    then show ?thesis by (simp add: getSampleSizeDirect_def)
  next
    case False
    then have "[index..<mNumSampleSizes t] = index # [Suc index..<mNumSampleSizes t]" using Suc.prems(3) by (simp add: upt_conv_Cons)
    then show ?thesis using Suc.prems Suc.IH [of "Suc index"] False by simp
  qed
qed simp

lemma seek_range_single:
  assumes entry: "mSampleToChunkEntries t = [e]" "mNumSampleToChunkOffsets t = 1" "startChunk e = 0" "samplesPerChunk e = p"
    and "i < 2 ^ 32 - 1" "0 < p"
  shows "seek_range i (put new_iterator lk ls t) = Some (OK, put (new_iterator\<lparr>mSamplesPerChunk := p, mChunkDesc := chunkDesc e,
    mStopChunk := 2 ^ 32 - 1, mStopChunkSampleIndex := 2 ^ 32 - 1, mSampleToChunkIndex := 1\<rparr>) lk ls t)"
    (is "_ = Some (OK, put ?it1 lk ls t)")
proof -
  have "findChunkRange (put new_iterator lk ls t) i ?it1 = Some (OK, ?it1)"
    using assms(5) by (subst findChunkRange.simps) simp
  moreover have "findChunkRange (put new_iterator lk ls t) i (reset new_iterator) = findChunkRange (put new_iterator lk ls t) i ?it1"
    using entry by (subst findChunkRange.simps) (simp add: reset_def new_iterator_def Let_def)
  ultimately have "findChunkRange (put new_iterator lk ls t) i (reset new_iterator) = Some (OK, ?it1)" by simp
  moreover have "mStopChunkSampleIndex (reset new_iterator) \<le> i" "\<not> mInitialized new_iterator"
    by (simp_all add: reset_def new_iterator_def)
  ultimately show ?thesis using assms(5,6) by (simp add: seek_range_def Let_def)
qed

lemma length_layout_single: "length (layout [e] n) = n * samplesPerChunk e" if "startChunk e = 0"
  using that by (induction n) (simp_all add: layout_Suc chunk_spc_def)


definition short_track :: sample_table where
  "short_track = demo_track\<lparr>mNumChunkOffsets := 2, mNumSampleToChunkOffsets := 1,
     mSampleToChunkEntries := [\<lparr>startChunk = 0, samplesPerChunk = 3, chunkDesc = 1\<rparr>]\<rparr>"

lemma short_fields [simp]:
  "mNumChunkOffsets short_track = 2" "mNumSampleToChunkOffsets short_track = 1" "mNumSampleSizes short_track = 5"
  "mSampleToChunkEntries short_track = [\<lparr>startChunk = 0, samplesPerChunk = 3, chunkDesc = 1\<rparr>]"
  "mChunkOffsetOffset short_track = 0" "mSampleToChunkOffset short_track = 40" "mSampleSizeOffset short_track = 20"
  by (simp_all add: short_track_def)

lemma short_reads:
  "getSampleSizeDirect demo_env short_track i = getSampleSizeDirect demo_env demo_track i"
  "getChunkOffset demo_env short_track 0 = Some (OK, 100)" "getChunkOffset demo_env short_track (Suc 0) = Some (OK, 300)"
  unfolding getSampleSizeDirect_def
  by (simp_all add: short_track_def getChunkOffset_def demo_read demo_file_def be_value_def)

lemma short_sizes:
  "i < 5 \<Longrightarrow> size_of demo_env short_track i = 10 * i + 10" "size_of demo_env short_track 5 = 0"
  by (simp_all add: size_of_def short_reads demo_sizes) (simp add: getSampleSizeDirect_def)

lemma short_track_ok: "file_ok demo_env short_track" "times_ok short_track" "offsets_ok short_track" "fresh_track short_track"
proof -
  have len: "length (layout (mSampleToChunkEntries short_track) n) = n * 3" for n by (simp add: length_layout_single)
  have upt: "[3..<6] = [3, 4, 5]" by (simp add: upt_rec)
  show "file_ok demo_env short_track"
    unfolding file_ok_def chunk_sizes_def len chunk_offset_def
    by (simp add: demo_lists upt short_reads demo_sizes short_sizes)
  show "times_ok short_track" by (simp add: times_ok_def short_track_def demo_expand del: expand_simps)
  show "offsets_ok short_track"
    by (simp add: offsets_ok_def short_track_def ref_delta_def ref_dts_def demo_lists demo_expand del: expand_simps)
  show "fresh_track short_track" by (simp add: fresh_track_def short_track_def demo_track_def new_table_def)
qed


end
