(* ===== verification/Sample_Search.thy ===== *)
theory Sample_Search
  imports Sample_Seek
begin

text \<open>
  The searches of the sample table: by time in the sorted table of composition times, for a sync
  sample near a sample, and the bound on the memory that the tables of a track can take. Both
  searches run the same binary search; what it finds is stated once.
\<close>

section \<open>Binary search\<close>

lemma bsearch_spec:
  assumes "\<And>i. i < n \<Longrightarrow> key i = Some (f i)" "\<And>i j. i \<le> j \<Longrightarrow> j < n \<Longrightarrow> f i \<le> (f j :: nat)"
    and "l \<le> r" "r \<le> n" "\<And>i. i < l \<Longrightarrow> f i < x" "\<And>i. r \<le> i \<Longrightarrow> i < n \<Longrightarrow> x < f i"
  shows "\<exists>p. bsearch key x l r = Some p \<and>
    (case p of At c \<Rightarrow> c < n \<and> f c = x | Gap c \<Rightarrow> c \<le> n \<and> (\<forall>i<c. f i < x) \<and> (\<forall>i. c \<le> i \<longrightarrow> i < n \<longrightarrow> x < f i))"
  using assms(3-)
proof (induction "r - l" arbitrary: l r rule: less_induct)
  case less
  show ?case
  proof (cases "l < r")
    case False
    then show ?thesis using less.prems by (subst bsearch.simps) (auto simp: le_antisym)
  next
    case True
    define c where "c = l + (r - l) div 2"
    have c: "l \<le> c" "c < r" "c < n" using True less.prems by (auto simp: c_def)
    have unf: "bsearch key x l r = (if x < f c then bsearch key x l c else if x > f c then bsearch key x (c + 1) r else Some (At c))"
      using True assms(1) [OF c(3)] by (subst bsearch.simps) (simp add: c_def Let_def)
    consider "x < f c" | "f c < x" | "x = f c" by linarith
    then show ?thesis
    proof cases
      case 1
      then have "x < f i" if "c \<le> i" "i < n" for i using assms(2) [OF that] by simp
      then show ?thesis using less.hyps [of c l] less.prems c 1 by (simp add: unf)
    next
      case 2
      then have "f i < x" if "i < c + 1" for i using assms(2) [of i c] that c by simp
      moreover have "bsearch key x l r = bsearch key x (c + 1) r" using 2 unf by simp
      ultimately show ?thesis using less.hyps [of r "c + 1"] less.prems c by simp
    next
      case 3
      then have "bsearch key x l r = Some (At c)" using unf by simp
      then show ?thesis using c 3 by simp
    qed
  qed
qed

text \<open>
  What a search may answer for a list of times: the latest one that is not after the request, or
  the earliest one when all are after it; the earliest one that is not before; or a nearest one.
\<close>

definition answers :: "find_flag \<Rightarrow> nat \<Rightarrow> nat list \<Rightarrow> nat option \<Rightarrow> bool" where
  "answers flags x ts r =
     (case flags of
        kFlagBefore \<Rightarrow> (\<exists>a\<in>set ts. r = Some a \<and> ((a \<le> x \<and> (\<forall>b\<in>set ts. b \<le> x \<longrightarrow> b \<le> a)) \<or> (x < a \<and> (\<forall>b\<in>set ts. a \<le> b))))
      | kFlagAfter \<Rightarrow> (case r of None \<Rightarrow> \<forall>b\<in>set ts. b < x | Some a \<Rightarrow> a \<in> set ts \<and> x \<le> a \<and> (\<forall>b\<in>set ts. x \<le> b \<longrightarrow> a \<le> b))
      | kFlagClosest \<Rightarrow> (\<exists>a\<in>set ts. r = Some a \<and> (\<forall>b\<in>set ts. \<bar>int a - int x\<bar> \<le> \<bar>int b - int x\<bar>))
      | kFlagFrameIndex \<Rightarrow> False)"

text \<open>The choice between the two neighbours of a gap, once the flag at the ends is settled.\<close>

definition gap_choice :: "nat \<Rightarrow> nat list \<Rightarrow> nat \<Rightarrow> find_flag \<Rightarrow> nat option" where
  "gap_choice x ts c flags =
     (case gap_flag (length ts) c flags of
        None \<Rightarrow> None
      | Some kFlagBefore \<Rightarrow> Some (c - 1)
      | Some kFlagAfter \<Rightarrow> Some c
      | Some f \<Rightarrow> Some (if abs_difference (ts ! c) x > abs_difference x (ts ! (c - 1)) then c - 1 else c))"

lemma abs_difference_exact: "\<bar>int a - int b\<bar> < 2 ^ 32 \<Longrightarrow> int (abs_difference a b) = \<bar>int a - int b\<bar>"
  by (cases "b < a") (simp_all add: abs_difference_def wrap_u32_def)

lemma gap_neighbours:
  assumes "sorted ts" "\<forall>i<c. ts ! i < x" "\<forall>i. c \<le> i \<longrightarrow> i < length ts \<longrightarrow> x < ts ! i" "b \<in> set ts" "c \<le> length ts"
  shows "b < x \<and> 0 < c \<and> b \<le> ts ! (c - 1) \<or> x < b \<and> c < length ts \<and> ts ! c \<le> b"
proof -
  obtain i where i: "i < length ts" "b = ts ! i" using assms(4) by (auto simp: in_set_conv_nth)
  show ?thesis
  proof (cases "i < c")
    case True
    then have "ts ! i \<le> ts ! (c - 1)" using sorted_nth_mono [OF assms(1), of i "c - 1"] assms(5) by simp
    then show ?thesis using True assms(2) i by auto
  next
    case False
    then have "ts ! c \<le> ts ! i" using sorted_nth_mono [OF assms(1), of c i] i(1) by simp
    then show ?thesis using False assms(3) i by auto
  qed
qed

lemma gap_choice_range:
  assumes "ts \<noteq> []" "c \<le> length ts" "gap_choice x ts c flags = Some i"
  shows "i < length ts"
  using assms by (auto simp: gap_choice_def gap_flag_def split: if_splits find_flag.splits option.splits)

lemma gap_choice_answers:
  assumes ts: "sorted ts" "ts \<noteq> []" and c: "c \<le> length ts" "\<forall>i<c. ts ! i < x" "\<forall>i. c \<le> i \<longrightarrow> i < length ts \<longrightarrow> x < ts ! i"
    and fl: "flags \<noteq> kFlagFrameIndex" "flags = kFlagClosest \<Longrightarrow> \<forall>a\<in>set ts. \<bar>int a - int x\<bar> < 2 ^ 32"
  shows "answers flags x ts (map_option ((!) ts) (gap_choice x ts c flags))"
proof -
  note nb = gap_neighbours [OF ts(1) c(2,3) _ c(1)]
  have lo: "ts ! (c - 1) \<in> set ts \<and> ts ! (c - 1) < x" if "0 < c" using c that by simp
  have hi: "ts ! c \<in> set ts \<and> x < ts ! c" if "c < length ts" using c that by simp
  show ?thesis
  proof (cases "c = length ts \<or> c = 0")
    case True
    then show ?thesis
    proof
      assume e: "c = length ts"
      then have up: "b < x \<and> b \<le> ts ! (c - 1)" if "b \<in> set ts" for b using nb [OF that] by auto
      have "0 < c" using ts(2) e by simp
      then show ?thesis using e lo fl(1) by (cases flags) (auto simp: answers_def gap_choice_def gap_flag_def dest!: up)
    next
      assume e: "c = 0"
      then have up: "x < b \<and> ts ! 0 \<le> b" if "b \<in> set ts" for b using nb [OF that] by auto
      show ?thesis using e hi ts(2) fl(1) by (cases flags) (auto simp: answers_def gap_choice_def gap_flag_def dest!: up)
    qed
  next
    case False
    then have e: "0 < c" "c < length ts" using c(1) by auto
    have gf: "gap_flag (length ts) c f = Some f" for f using e by (simp add: gap_flag_def)
    show ?thesis
    proof (cases flags)
      case kFlagBefore
      then show ?thesis using lo hi e by (auto simp: answers_def gap_choice_def gf dest!: nb)
    next
      case kFlagAfter
      then show ?thesis using lo hi e by (auto simp: answers_def gap_choice_def gf dest!: nb)
    next
      case kFlagClosest
      then have "int (abs_difference (ts ! c) x) = int (ts ! c) - int x" "int (abs_difference x (ts ! (c - 1))) = int x - int (ts ! (c - 1))"
        using abs_difference_exact [of "ts ! c" x] abs_difference_exact [of x "ts ! (c - 1)"] lo [OF e(1)] hi [OF e(2)]
          fl(2) [THEN bspec, of "ts ! c"] fl(2) [THEN bspec, of "ts ! (c - 1)"]
        by linarith+
      then have d: "abs_difference (ts ! c) x > abs_difference x (ts ! (c - 1)) \<longleftrightarrow> int (ts ! c) - int x > int x - int (ts ! (c - 1))"
        by linarith
      show ?thesis using lo hi e kFlagClosest d unfolding answers_def gap_choice_def gf
        by (auto dest!: nb)
    qed (use fl(1) in simp)
  qed
qed

section \<open>Searching for a sync sample\<close>

text \<open>
  In a sorted list of sync samples, \<open>findSyncSampleNear\<close> finds the last sync sample at or
  before the given one (the first of all when none is) or the first at or after it, and reports
  \<open>ERROR_OUT_OF_RANGE\<close> exactly when one after it is asked for and there is none. Every sample counts
  as a sync sample when the track has no list of them.
\<close>

theorem findSyncSampleNear_spec:
  assumes "mNumSyncSamples t = length (mSyncSamples t)" "sorted (mSyncSamples t)" "mSyncSamples t \<noteq> []"
    and fl: "flags = kFlagBefore \<or> flags = kFlagAfter"
  shows "\<exists>err x. findSyncSampleNear env i flags t = Some (err, x, t)
    \<and> (if mSyncSampleOffset t < 0 then err = OK \<and> x = i
       else err \<in> {OK, ERROR_OUT_OF_RANGE} \<and> answers flags i (mSyncSamples t) (if err = OK then Some x else None))"
proof (cases "mSyncSampleOffset t < 0")
  case True
  then show ?thesis by (simp add: findSyncSampleNear_def)
next
  case False
  define ss where "ss = mSyncSamples t"
  let ?key = "\<lambda>i. if i < length ss then Some (ss ! i) else None"
  have ss: "sorted ss" "ss \<noteq> []" "mNumSyncSamples t = length ss" "mSyncSamples t = ss" using assms by (simp_all add: ss_def)
  obtain p where p: "bsearch ?key i 0 (length ss) = Some p"
      "case p of At c \<Rightarrow> c < length ss \<and> ss ! c = i
       | Gap c \<Rightarrow> c \<le> length ss \<and> (\<forall>j<c. ss ! j < i) \<and> (\<forall>j. c \<le> j \<longrightarrow> j < length ss \<longrightarrow> i < ss ! j)"
    using bsearch_spec [of "length ss" ?key "\<lambda>i. ss ! i" 0 "length ss" i] sorted_nth_mono [OF ss(1)] by auto
  show ?thesis
  proof (cases p)
    case (At c)
    then have "answers flags i ss (Some i)" using p(2) fl by (auto simp: answers_def)
    then show ?thesis using At p False ss by (simp add: findSyncSampleNear_def)
  next
    case (Gap c)
    then have g: "c \<le> length ss" "\<forall>j<c. ss ! j < i" "\<forall>j. c \<le> j \<longrightarrow> j < length ss \<longrightarrow> i < ss ! j" using p(2) by auto
    have "answers flags i ss (map_option ((!) ss) (gap_choice i ss c flags))"
      using gap_choice_answers [OF ss(1,2) g] fl by auto
    then show ?thesis using Gap p(1) False ss fl
      by (auto simp: findSyncSampleNear_def gap_choice_def gap_flag_def split: if_splits)
  qed
qed

theorem findSyncSampleNear_spec_witness:
  "\<exists>err x. findSyncSampleNear demo_env 2 kFlagAfter demo_track = Some (err, x, demo_track)
     \<and> answers kFlagAfter 2 [0, 3] (if err = OK then Some x else None)"
  using findSyncSampleNear_spec [of demo_track kFlagAfter demo_env 2] by auto

section \<open>The table of composition times\<close>

text \<open>The nested loops of \<open>buildSampleEntriesTable\<close> walk over the expanded durations.\<close>

fun fill_list :: "nat \<Rightarrow> nat list \<Rightarrow> fill_state \<Rightarrow> fill_state option" where
  "fill_list num [] s = Some s"
| "fill_list num (d # ds) s = (case fill_one num d s of None \<Rightarrow> None | Some s \<Rightarrow> fill_list num ds s)"

lemma fill_list_append:
  "fill_list num (ds @ ds') s = (case fill_list num ds s of None \<Rightarrow> None | Some s \<Rightarrow> fill_list num ds' s)"
  by (induction ds arbitrary: s) (simp_all split: option.splits)

lemma fill_run_list: "fill_run num d n s = fill_list num (replicate n d) s"
  by (induction n arbitrary: s) (simp_all split: option.splits)

lemma fill_runs_list: "fill_runs num rs s = fill_list num (expand rs) s"
  by (induction rs arbitrary: s) (auto simp: fill_list_append fill_run_list split: option.splits)

definition filled :: "sample_table \<Rightarrow> nat \<Rightarrow> fill_state \<Rightarrow> bool" where
  "filled t m s \<longleftrightarrow> fillIndex s = m \<and> fillTime s = sum_list (take m (expand (mTimeToSample t)))
     \<and> lookup_ok (mCompositionTimeDeltaEntries t) (fillLookup s) \<and> length (fillEntries s) = mNumSampleSizes t
     \<and> (\<forall>i<m. i < mNumSampleSizes t \<longrightarrow> fillEntries s ! i = (i, ref_cts t i))"

lemma fill_one_ok:
  assumes t: "times_ok t" "offsets_ok t" and m: "m < length (expand (mTimeToSample t))" and s: "filled t m s"
  shows "\<exists>s'. fill_one (mNumSampleSizes t) (expand (mTimeToSample t) ! m) s = Some s' \<and> filled t (Suc m) s'"
proof -
  define d where "d = ref_delta (mCompositionTimeDeltaEntries t) m"
  define ds where "ds = expand (mTimeToSample t)"
  obtain lk' where lk: "getCompositionTimeOffset m (fillLookup s) = (d, lk')" "lookup_ok (mCompositionTimeDeltaEntries t) lk'"
    using getCompositionTimeOffset_ref [of "mCompositionTimeDeltaEntries t" "fillLookup s" m] s by (auto simp: filled_def d_def)
  have s': "fillIndex s = m" "fillTime s = sum_list (take m ds)" "fillTime s = ref_dts t m"
    using s by (simp_all add: filled_def ds_def ref_dts_def)
  have sum: "sum_list (take (Suc m) ds) = sum_list (take m ds) + ds ! m" using m by (simp add: ds_def take_Suc_conv_app_nth)
  have "sum_list (take (Suc m) ds) \<le> sum_list ds" by (metis append_take_drop_id le_add1 sum_list_append)
  then have le: "fillTime s + ds ! m < 2 ^ 64" "Suc m < 2 ^ 32" using t(1) m sum s'(2) by (simp_all add: times_ok_def ds_def)
  have ok: "\<not> offset_overflows (2 ^ 31 - 1) (fillTime s) d \<and> d \<noteq> - (2 ^ 31) \<and> nat (int (fillTime s) + d) = ref_cts t m"
    if "m < mNumSampleSizes t"
    using offsets_okD [OF t(2) that] s'(3) by (auto simp: d_def offset_overflows_def ref_cts_def)
  show ?thesis
  proof (cases "m < mNumSampleSizes t")
    case True
    then show ?thesis using ok lk s' le s sum
      by (auto simp: fill_one_def Let_def filled_def ds_def [symmetric] nth_list_update less_Suc_eq)
  next
    case False
    then show ?thesis using lk s' le s sum
      by (auto simp: fill_one_def Let_def filled_def ds_def [symmetric] less_Suc_eq)
  qed
qed

lemma fill_list_ok:
  assumes t: "times_ok t" "offsets_ok t" and s: "filled t m s" "m \<le> length (expand (mTimeToSample t))"
  shows "\<exists>s'. fill_list (mNumSampleSizes t) (drop m (expand (mTimeToSample t))) s = Some s' \<and> filled t (length (expand (mTimeToSample t))) s'"
  using s
proof (induction "length (expand (mTimeToSample t)) - m" arbitrary: m s)
  case 0
  then show ?case by simp
next
  case (Suc n)
  then have m: "m < length (expand (mTimeToSample t))" by simp
  then obtain s1 where "fill_one (mNumSampleSizes t) (expand (mTimeToSample t) ! m) s = Some s1" "filled t (Suc m) s1"
    using fill_one_ok [OF t m] Suc.prems by blast
  then show ?case using Suc.hyps(1) [of "Suc m" s1] Suc.hyps(2) m by (simp add: Cons_nth_drop_Suc [symmetric])
qed

text \<open>What \<open>qsort\<close> promises: a permutation in the order of the comparison function.\<close>

definition qsort_ok :: "file_env \<Rightarrow> bool" where
  "qsort_ok env \<longleftrightarrow> (\<forall>xs. mset (qsort env xs) = mset xs \<and> sorted (map snd (qsort env xs)))"

lemma buildSampleEntriesTable_ok:
  assumes t: "times_ok t" "offsets_ok t" "lookup_ok (mCompositionTimeDeltaEntries t) (mCompositionDeltaLookup t)"
    and mem: "mSampleTimeEntries t = None" "mTotalSize t + mNumSampleSizes t * 16 \<le> kMaxTotalSize" "alloc env (mNumSampleSizes t * 16)"
    and num: "0 < mNumSampleSizes t"
  shows "\<exists>t'. buildSampleEntriesTable env t = Some t' \<and> mNumSampleSizes t' = mNumSampleSizes t
    \<and> mSampleTimeEntries t' = Some (qsort env (map (\<lambda>i. (i, ref_cts t i)) [0..<mNumSampleSizes t]))"
proof -
  define s0 where "s0 = \<lparr>fillIndex = 0, fillTime = 0, fillLookup = mCompositionDeltaLookup t, fillEntries = map (unset env) [0..<mNumSampleSizes t]\<rparr>"
  have "filled t 0 s0" using t(3) by (simp add: filled_def s0_def)
  from fill_list_ok [OF t(1,2) this]
  obtain s' where s': "fill_runs (mNumSampleSizes t) (mTimeToSample t) s0 = Some s'" "filled t (length (expand (mTimeToSample t))) s'"
    by (auto simp: fill_runs_list)
  have "fillEntries s' = map (\<lambda>i. (i, ref_cts t i)) [0..<mNumSampleSizes t]"
    using s'(2) t(1) by (intro nth_equalityI) (auto simp: filled_def times_ok_def)
  then show ?thesis using s'(1) t(1) mem num
    by (simp add: buildSampleEntriesTable_def Let_def s0_def [symmetric] times_ok_def)
qed

definition scaled :: "nat \<Rightarrow> nat \<Rightarrow> nat \<Rightarrow> nat" where
  "scaled num den time = time * num div den"

text \<open>The times of all samples, in the unit of the caller.\<close>

definition sample_times :: "sample_table \<Rightarrow> nat \<Rightarrow> nat \<Rightarrow> nat list" where
  "sample_times t num den = map (\<lambda>i. scaled num den (ref_cts t i)) [0..<mNumSampleSizes t]"

lemma scaled_mono: "a \<le> b \<Longrightarrow> scaled num den a \<le> scaled num den b"
  by (simp add: scaled_def div_le_mono)

text \<open>The search in a table that is built, by its list of times.\<close>

lemma find_in_sorted:
  assumes es: "sorted (map snd es)" "es \<noteq> []" and no_ovf: "\<forall>e\<in>set es. snd e * num < 2 ^ 64" and den: "den \<noteq> 0"
    and t: "mSampleTimeEntries t = Some es" "mNumSampleSizes t = length es"
    and fl: "flags \<noteq> kFlagFrameIndex" "flags = kFlagClosest \<Longrightarrow> \<forall>a\<in>set (map (scaled num den \<circ> snd) es). \<bar>int a - int x\<bar> < 2 ^ 32"
    and b: "buildSampleEntriesTable env t0 = Some t"
  shows "\<exists>r. findSampleAtTime env x num den flags t0 = Some (if r = None then ERROR_OUT_OF_RANGE else OK, map_option (\<lambda>i. fst (es ! i)) r, t)
    \<and> (\<forall>i. r = Some i \<longrightarrow> i < length es)
    \<and> answers flags x (map (scaled num den \<circ> snd) es) (map_option (\<lambda>i. scaled num den (snd (es ! i))) r)"
proof -
  define ts where "ts = map (scaled num den \<circ> snd) es"
  have ts: "sorted ts" "ts \<noteq> []" "length ts = length es" "\<And>i. i < length es \<Longrightarrow> ts ! i = scaled num den (snd (es ! i))"
  proof -
    have "sorted_wrt (\<lambda>a b. snd a \<le> snd b) es" using es(1) by (simp add: sorted_wrt_map)
    then have "sorted_wrt (\<lambda>a b. scaled num den (snd a) \<le> scaled num den (snd b)) es"
      by (rule sorted_wrt_mono_rel [rotated]) (simp add: scaled_mono)
    then show "sorted ts" by (simp add: ts_def sorted_wrt_map)
  qed (use es(2) in \<open>simp_all add: ts_def\<close>)
  have key: "getSampleTime t i num den = Some (ts ! i)" if "i < length es" for i
    using that t den no_ovf ts(4) [OF that] by (simp add: getSampleTime_def scaled_def not_le)
  obtain p where p: "bsearch (\<lambda>i. getSampleTime t i num den) x 0 (length es) = Some p"
      "case p of At c \<Rightarrow> c < length es \<and> ts ! c = x
       | Gap c \<Rightarrow> c \<le> length es \<and> (\<forall>j<c. ts ! j < x) \<and> (\<forall>j. c \<le> j \<longrightarrow> j < length es \<longrightarrow> x < ts ! j)"
    using bsearch_spec [of "length es" "\<lambda>i. getSampleTime t i num den" "\<lambda>i. ts ! i" 0 "length es" x] key sorted_nth_mono [OF ts(1)] ts(3) by auto
  have pick: "pick_entry t i = Some (OK, Some (fst (es ! i)), t)" if "i < length es" for i using that t by (simp add: pick_entry_def)
  show ?thesis
  proof (cases p)
    case (At c)
    then have "answers flags x ts (Some (ts ! c))" using p(2) fl(1) ts(3) by (cases flags) (auto simp: answers_def)
    then show ?thesis using At p pick [of c] b fl(1) t ts(4) [of c]
      by (intro exI [of _ "Some c"]) (simp add: findSampleAtTime_def ts_def [symmetric])
  next
    case (Gap c)
    then have g: "c \<le> length ts" "\<forall>j<c. ts ! j < x" "\<forall>j. c \<le> j \<longrightarrow> j < length ts \<longrightarrow> x < ts ! j" using p(2) ts(3) by auto
    have ans: "answers flags x ts (map_option ((!) ts) (gap_choice x ts c flags))"
      using gap_choice_answers [OF ts(1,2) g fl(1)] fl(2) by (simp add: ts_def)
    have range: "i < length es" if "gap_choice x ts c flags = Some i" for i using gap_choice_range [OF ts(2) g(1) that] ts(3) by simp
    have "findSampleAtTime env x num den flags t0
        = Some (if gap_choice x ts c flags = None then ERROR_OUT_OF_RANGE else OK, map_option (\<lambda>i. fst (es ! i)) (gap_choice x ts c flags), t)"
      using Gap p(1) b fl(1) t ts(2,3) g(1)
      by (auto simp: findSampleAtTime_def gap_choice_def gap_flag_def pick key split: find_flag.splits)
    moreover have "map_option (\<lambda>i. scaled num den (snd (es ! i))) (gap_choice x ts c flags) = map_option ((!) ts) (gap_choice x ts c flags)"
      using range ts(4) by (cases "gap_choice x ts c flags") simp_all
    ultimately show ?thesis using ans range by (auto simp: ts_def [symmetric])
  qed
qed

lemma answers_set: "set ts = set ts' \<Longrightarrow> answers flags x ts r = answers flags x ts' r"
  by (cases flags; cases r) (simp_all add: answers_def)


lemma demo_times: "sample_times demo_track 1 1 = [0, 1000, 1800, 2800, 3300]"
  by (simp add: sample_times_def scaled_def ref_cts_def ref_dts_def ref_delta_def demo_lists demo_expand del: expand_simps)


section \<open>The memory of a track\<close>

definition held_bytes :: "sample_table \<Rightarrow> nat" where
  "held_bytes t = 12 * length (mSampleToChunkEntries t) + 8 * length (mTimeToSample t)
     + (case mCompositionTimeDeltaEntries t of None \<Rightarrow> 0 | Some es \<Rightarrow> 8 * length es) + 4 * length (mSyncSamples t)
     + (case mSampleTimeEntries t of None \<Rightarrow> 0 | Some es \<Rightarrow> 16 * length es)"

text \<open>The operations that allocate, with arguments that the file chooses.\<close>

inductive table_step :: "file_env \<Rightarrow> sample_table \<Rightarrow> sample_table \<Rightarrow> bool" for env where
  stco: "setChunkOffsetParams env ty off n t = (st, t') \<Longrightarrow> table_step env t t'"
| stsc: "setSampleToChunkParams env off n t = (st, t') \<Longrightarrow> table_step env t t'"
| stsz: "setSampleSizeParams env ty' off n t = (st, t') \<Longrightarrow> table_step env t t'"
| stts: "setTimeToSampleParams env off n t = (st, t') \<Longrightarrow> table_step env t t'"
| ctts: "setCompositionTimeToSampleParams env off n t = (st, t') \<Longrightarrow> table_step env t t'"
| stss: "setSyncSampleParams env off n t = (st, t') \<Longrightarrow> table_step env t t'"
| build: "buildSampleEntriesTable env t = Some t' \<Longrightarrow> table_step env t t'"

inductive_cases table_stepE: "table_step env t t'"

definition memory_inv :: "sample_table \<Rightarrow> bool" where
  "memory_inv t \<longleftrightarrow> held_bytes t \<le> mTotalSize t \<and> held_bytes t \<le> kMaxTotalSize"

lemma length_u32 [simp]: "length (u32_pairs n bs) = n" "length (u32_list n bs) = n"
  by (induction n arbitrary: bs) simp_all

lemma length_read_chunk_entries: "length (snd (read_chunk_entries env off i n acc)) \<le> length acc + n"
proof (induction n arbitrary: i acc)
  case (Suc n)
  have "length (snd (read_chunk_entries env off (i + 1) n (acc @ [e]))) \<le> length acc + Suc n" for e
    using Suc.IH [of "i + 1" "acc @ [e]"] by simp
  then show ?case by (simp add: Let_def)
qed simp

lemma length_fill:
  "fill_list num ds s = Some s' \<Longrightarrow> length (fillEntries s') = length (fillEntries s)"
  by (induction ds arbitrary: s) (fastforce simp: fill_one_def Let_def split: option.splits prod.splits if_splits)+

lemma memory_stsc:
  assumes "memory_inv t" "setSampleToChunkParams env off n t = (st, t')"
  shows "memory_inv t'"
  using assms length_read_chunk_entries [of env off 0 "U32_AT (readAt env off 8) 4" "[]"]
  by (fastforce simp: setSampleToChunkParams_def memory_inv_def held_bytes_def Let_def split: if_splits prod.splits)

lemma memory_stts:
  assumes "memory_inv t" "setTimeToSampleParams env off n t = (st, t')"
  shows "memory_inv t'"
  using assms by (auto simp: setTimeToSampleParams_def memory_inv_def held_bytes_def Let_def split: if_splits)

lemma memory_ctts:
  assumes "memory_inv t" "setCompositionTimeToSampleParams env off n t = (st, t')"
  shows "memory_inv t'"
  using assms by (auto simp: setCompositionTimeToSampleParams_def memory_inv_def held_bytes_def Let_def split: if_splits option.splits)

lemma memory_stss:
  assumes "memory_inv t" "setSyncSampleParams env off n t = (st, t')"
  shows "memory_inv t'"
  using assms by (auto simp: setSyncSampleParams_def memory_inv_def held_bytes_def Let_def split: if_splits)

lemma memory_build:
  assumes "memory_inv t" "qsort_ok env" "buildSampleEntriesTable env t = Some t'"
  shows "memory_inv t'"
proof -
  have len: "length (qsort env xs) = length xs" for xs using assms(2) by (metis mset_eq_length qsort_ok_def)
  show ?thesis using assms(1,3)
    by (auto simp: buildSampleEntriesTable_def memory_inv_def held_bytes_def Let_def len fill_runs_list dest!: length_fill
        split: if_splits option.splits)
qed

lemma memory_no_table:
  "memory_inv t \<Longrightarrow> setChunkOffsetParams env ty off n t = (st, t') \<Longrightarrow> memory_inv t'"
  "memory_inv t \<Longrightarrow> setSampleSizeParams env ty' off n t = (st, t') \<Longrightarrow> memory_inv t'"
  by (auto simp: setChunkOffsetParams_def setSampleSizeParams_def memory_inv_def held_bytes_def Let_def split: if_splits)

lemmas memory_keeps = memory_no_table memory_stsc memory_stts memory_ctts memory_stss memory_build

interpretation loading: invariant_system "\<lambda>t. t = new_table" "\<lambda>t t'. qsort_ok env \<and> table_step env t t'" memory_inv
  for env
proof
  show "t = new_table \<Longrightarrow> memory_inv t" for t by (simp add: memory_inv_def held_bytes_def new_table_def)
  show "memory_inv t \<Longrightarrow> qsort_ok env \<and> table_step env t t' \<Longrightarrow> memory_inv t'" for t t'
    by (auto elim!: table_stepE intro: memory_keeps)
qed

text \<open>
  Whatever boxes a file has, in whatever order and however often they repeat, and whichever
  reads and allocations fail on the way, the tables of a track never hold more than 200 MiB, nor
  more than the code has accounted for in \<open>mTotalSize\<close>.
\<close>

theorem tables_stay_below_limit:
  assumes "qsort_ok env" "(table_step env)\<^sup>*\<^sup>* new_table t"
  shows "held_bytes t \<le> 200 * 2 ^ 20 \<and> held_bytes t \<le> mTotalSize t"
proof -
  have "(\<lambda>t t'. qsort_ok env \<and> table_step env t t')\<^sup>*\<^sup>* new_table t"
    using assms by (metis (mono_tags, lifting) mono_rtranclp)
  then have "memory_inv t" using loading.reachable_inv by blast
  then show ?thesis by (simp add: memory_inv_def kMaxTotalSize_def)
qed

theorem tables_stay_below_limit_witness:
  "let t = snd (setSyncSampleParams demo_env 0 20 new_table)
   in mSyncSamples t = [99, 299, 199] \<and> held_bytes t = 12 \<and> held_bytes t \<le> 200 * 2 ^ 20"
proof -
  define t where "t = snd (setSyncSampleParams demo_env 0 20 new_table)"
  have u32: "u32_list 3 bs = [U32_AT bs 0, U32_AT (drop 4 bs) 0, U32_AT (drop 4 (drop 4 bs)) 0]" for bs
    by (simp add: numeral_3_eq_3)
  have t: "mSyncSamples t = [99, 299, 199]" "held_bytes t = 12"
    by (simp_all add: u32 t_def setSyncSampleParams_def demo_read demo_file_def U32_AT_def be_value_def Let_def new_table_def kMaxTotalSize_def
        held_bytes_def demo_env_def)
  have "table_step demo_env new_table t"
    unfolding t_def by (rule table_step.stss [of _ 0 20 _ "fst (setSyncSampleParams demo_env 0 20 new_table)"]) simp
  then have "(table_step demo_env)\<^sup>*\<^sup>* new_table t" by blast
  moreover have "qsort_ok demo_env" by (simp add: qsort_ok_def demo_env_def)
  ultimately have "held_bytes t \<le> 200 * 2 ^ 20" using tables_stay_below_limit by blast
  then show ?thesis using t by (simp add: t_def Let_def)
qed

end
