(* ===== verification/Camera_Clients.thy ===== *)
theory Camera_Clients
  imports Media_Prelude "HOL-Library.Sublist"
begin

text \<open>
  Which clients may hold a camera: \<open>ClientManager\<close> of the camera service (the eviction policy, in
  \<open>libcameraservice/utils/ClientManager.h\<close>) and the operations of \<open>CameraService.cpp\<close> that use it when
  a client connects. A smaller number is a higher priority.
\<close>

section \<open>Priorities and descriptors\<close>

record client_priority =
  priScore :: int
  priState :: int
  mIsVendorClient :: bool

definition setScore :: "int \<Rightarrow> client_priority \<Rightarrow> client_priority" where
  "setScore score p = (if mIsVendorClient p then p else p\<lparr>priScore := score\<rparr>)"

definition setState :: "int \<Rightarrow> client_priority \<Rightarrow> client_priority" where
  "setState state p = (if mIsVendorClient p then p else p\<lparr>priState := state\<rparr>)"

definition priority_eq :: "client_priority \<Rightarrow> client_priority \<Rightarrow> bool" where
  "priority_eq a b \<longleftrightarrow> priScore a = priScore b \<and> priState a = priState b"

definition priority_less :: "client_priority \<Rightarrow> client_priority \<Rightarrow> bool" where
  "priority_less a b \<longleftrightarrow> (if priScore a = priScore b then priState a < priState b else priScore a < priScore b)"

definition priority_le :: "client_priority \<Rightarrow> client_priority \<Rightarrow> bool" where
  "priority_le a b \<longleftrightarrow> \<not> priority_less b a"

text \<open>
  A descriptor is shared through pointers, which the code compares; \<open>dPtr\<close> is its address. The set
  of conflicting keys is listed.
\<close>

record ('k, 'v) client_descriptor =
  dPtr :: nat
  mKey :: 'k
  mValue :: 'v
  mCost :: int
  mConflicting :: "'k list"
  mPriority :: client_priority
  mOwnerId :: int

definition isConflicting :: "'k \<Rightarrow> ('k, 'v) client_descriptor \<Rightarrow> bool" where
  "isConflicting k d \<longleftrightarrow> k = mKey d \<or> k \<in> set (mConflicting d)"

definition setPriority :: "client_priority \<Rightarrow> ('k, 'v) client_descriptor \<Rightarrow> ('k, 'v) client_descriptor" where
  "setPriority p d = d\<lparr>mPriority := setState (priState p) (setScore (priScore p) (mPriority d))\<rparr>"

section \<open>The client manager\<close>

text \<open>The calls of the listener are logged in the order in which they are made.\<close>

datatype ('k, 'v) client_event =
  onClientAdded "('k, 'v) client_descriptor" | onClientRemoved "('k, 'v) client_descriptor"

record ('k, 'v) client_manager =
  mMaxCost :: int
  mClients :: "('k, 'v) client_descriptor list"
  hasListener :: bool
  listenerCalls :: "('k, 'v) client_event list"

definition DEFAULT_MAX_COST :: int where
  "DEFAULT_MAX_COST = 100"

definition new_client_manager :: "int \<Rightarrow> ('k, 'v) client_manager" where
  "new_client_manager totalCost = \<lparr>mMaxCost = totalCost, mClients = [], hasListener = False, listenerCalls = []\<rparr>"

definition default_client_manager :: "('k, 'v) client_manager" where
  "default_client_manager = new_client_manager DEFAULT_MAX_COST"

definition tell :: "('k, 'v) client_event list \<Rightarrow> ('k, 'v) client_manager \<Rightarrow> ('k, 'v) client_manager" where
  "tell es m = (if hasListener m then m\<lparr>listenerCalls := listenerCalls m @ es\<rparr> else m)"

definition setListener :: "bool \<Rightarrow> ('k, 'v) client_manager \<Rightarrow> ('k, 'v) client_manager" where
  "setListener present m = m\<lparr>hasListener := present\<rparr>"

definition getCurrentCostLocked :: "('k, 'v) client_manager \<Rightarrow> int" where
  "getCurrentCostLocked m = foldl (\<lambda>c x. c + mCost x) 0 (mClients m)"

text \<open>The highest priority among the clients and the incoming one, and the last owner that has it.\<close>

definition highest_step :: "client_priority \<times> int \<Rightarrow> ('k, 'v) client_descriptor \<Rightarrow> client_priority \<times> int" where
  "highest_step hi i = (if priority_le (mPriority i) (fst hi) then (mPriority i, mOwnerId i) else hi)"

definition highest_owner :: "('k, 'v) client_descriptor \<Rightarrow> ('k, 'v) client_descriptor list \<Rightarrow> int" where
  "highest_owner client cs =
     (let hi = foldl highest_step (mPriority client, mOwnerId client) cs
      in if priority_eq (fst hi) (mPriority client) then mOwnerId client else snd hi)"

definition conflicting :: "('k, 'v) client_descriptor \<Rightarrow> ('k, 'v) client_descriptor \<Rightarrow> bool" where
  "conflicting client i \<longleftrightarrow> mKey i = mKey client \<or> isConflicting (mKey client) i \<or> isConflicting (mKey i) client"

definition too_costly :: "int \<Rightarrow> ('k, 'v) client_descriptor \<Rightarrow> int \<Rightarrow> int \<Rightarrow> ('k, 'v) client_descriptor \<Rightarrow> bool" where
  "too_costly maxCost client hpo totalCost i \<longleftrightarrow>
     totalCost > maxCost \<and> mCost i > 0 \<and> \<not> priority_less (mPriority i) (mPriority client)
     \<and> \<not> (hpo = mOwnerId client \<and> mOwnerId client = mOwnerId i)"

text \<open>The loop that builds the list; \<open>None\<close> when a conflicting client of higher priority is met.\<close>

fun evict_loop ::
  "int \<Rightarrow> ('k, 'v) client_descriptor \<Rightarrow> int \<Rightarrow> int \<Rightarrow> ('k, 'v) client_descriptor list \<Rightarrow> ('k, 'v) client_descriptor list \<Rightarrow>
   (('k, 'v) client_descriptor list \<times> int) option" where
  "evict_loop maxCost client hpo totalCost evictList [] = Some (evictList, totalCost)"
| "evict_loop maxCost client hpo totalCost evictList (i # is) =
     (if conflicting client i \<and> priority_less (mPriority i) (mPriority client) then None
      else if conflicting client i \<or> too_costly maxCost client hpo totalCost i
      then evict_loop maxCost client hpo (totalCost - mCost i) (evictList @ [i]) is
      else evict_loop maxCost client hpo totalCost evictList is)"

definition incompatible :: "int \<Rightarrow> ('k, 'v) client_descriptor \<Rightarrow> int \<Rightarrow> ('k, 'v) client_descriptor \<Rightarrow> bool" where
  "incompatible maxCost client totalCost i \<longleftrightarrow>
     priority_less (mPriority i) (mPriority client) \<and> (conflicting client i \<or> totalCost > maxCost \<and> mCost i > 0)"

definition wouldEvictLocked ::
  "('k, 'v) client_manager \<Rightarrow> ('k, 'v) client_descriptor option \<Rightarrow> bool \<Rightarrow> ('k, 'v) client_descriptor option list" where
  "wouldEvictLocked m client returnIncompatibleClients =
     (case client of
        None \<Rightarrow> [None]
      | Some c \<Rightarrow>
          (let totalCost = getCurrentCostLocked m + mCost c;
               hpo = highest_owner c (mClients m)
           in if returnIncompatibleClients then map Some (filter (incompatible (mMaxCost m) c totalCost) (mClients m))
              else case evict_loop (mMaxCost m) c hpo totalCost [] (mClients m) of
                     None \<Rightarrow> [client]
                   | Some (evictList, totalCost) \<Rightarrow>
                       if totalCost > mMaxCost m \<and> hpo \<noteq> mOwnerId c then [client] else map Some evictList))"

definition wouldEvict :: "('k, 'v) client_manager \<Rightarrow> ('k, 'v) client_descriptor option \<Rightarrow> ('k, 'v) client_descriptor option list" where
  "wouldEvict m client = wouldEvictLocked m client False"

definition getIncompatibleClients :: "('k, 'v) client_manager \<Rightarrow> ('k, 'v) client_descriptor option \<Rightarrow> ('k, 'v) client_descriptor option list" where
  "getIncompatibleClients m client = wouldEvictLocked m client True"

definition same_ptr :: "('k, 'v) client_descriptor option \<Rightarrow> ('k, 'v) client_descriptor option \<Rightarrow> bool" where
  "same_ptr a b \<longleftrightarrow> map_option dPtr a = map_option dPtr b"

text \<open>
  The \<open>remove_if\<close> of \<open>addAndEvict\<close> walks over all clients with a cursor in the evicted ones. It
  reads the element under the cursor for every client: \<open>None\<close> when the cursor is at the end then.
\<close>

fun remove_evicted ::
  "('k, 'v) client_descriptor list \<Rightarrow> ('k, 'v) client_descriptor list \<Rightarrow> ('k, 'v) client_descriptor list option" where
  "remove_evicted [] evicted = Some []"
| "remove_evicted (c # cs) [] = None"
| "remove_evicted (c # cs) (e # es) =
     (if mKey c = mKey e then remove_evicted cs es else map_option ((#) c) (remove_evicted cs (e # es)))"

definition addAndEvict ::
  "('k, 'v) client_manager \<Rightarrow> ('k, 'v) client_descriptor option \<Rightarrow> (('k, 'v) client_descriptor option list \<times> ('k, 'v) client_manager) option" where
  "addAndEvict m client =
     (let evicted = wouldEvictLocked m client False
      in if evicted \<noteq> [] \<and> same_ptr (hd evicted) client then Some (evicted, m)
         else case client of
           None \<Rightarrow> None
         | Some c \<Rightarrow>
             (let es = map the evicted
              in case (if es = [] then Some (m, mClients m)
                       else map_option (Pair (tell [onClientRemoved (hd es)] m)) (remove_evicted (mClients m) es)) of
                   None \<Rightarrow> None
                 | Some (m, cs) \<Rightarrow> Some (evicted, (tell [onClientAdded c] m)\<lparr>mClients := cs @ [c]\<rparr>)))"

definition getAll :: "('k, 'v) client_manager \<Rightarrow> ('k, 'v) client_descriptor list" where
  "getAll m = mClients m"

text \<open>The vector is created with as many default keys as there are clients, then appended to.\<close>

definition getAllKeys :: "'k \<Rightarrow> ('k, 'v) client_manager \<Rightarrow> 'k list" where
  "getAllKeys default_key m = replicate (length (mClients m)) default_key @ map mKey (mClients m)"

definition getAllOwners :: "('k, 'v) client_manager \<Rightarrow> int list" where
  "getAllOwners m = sorted_list_of_set (set (map mOwnerId (mClients m)))"

definition updatePriorities :: "(int \<rightharpoonup> client_priority) \<Rightarrow> ('k, 'v) client_manager \<Rightarrow> ('k, 'v) client_manager" where
  "updatePriorities ps m =
     m\<lparr>mClients := map (\<lambda>i. case ps (mOwnerId i) of None \<Rightarrow> i | Some p \<Rightarrow> setPriority p i) (mClients m)\<rparr>"

definition get_client :: "'k \<Rightarrow> ('k, 'v) client_manager \<Rightarrow> ('k, 'v) client_descriptor option" where
  "get_client k m = find (\<lambda>i. mKey i = k) (mClients m)"

definition removeAll_clients :: "('k, 'v) client_manager \<Rightarrow> ('k, 'v) client_manager" where
  "removeAll_clients m = (tell (map onClientRemoved (mClients m)) m)\<lparr>mClients := []\<rparr>"

text \<open>The two functions \<open>remove\<close>; the first gives back the last descriptor that it took out.\<close>

definition remove_key :: "'k \<Rightarrow> ('k, 'v) client_manager \<Rightarrow> ('k, 'v) client_descriptor option \<times> ('k, 'v) client_manager" where
  "remove_key k m =
     (let gone = filter (\<lambda>i. mKey i = k) (mClients m)
      in (if gone = [] then None else Some (last gone),
          (tell (map onClientRemoved gone) m)\<lparr>mClients := filter (\<lambda>i. mKey i \<noteq> k) (mClients m)\<rparr>))"

definition remove_client :: "('k, 'v) client_descriptor option \<Rightarrow> ('k, 'v) client_manager \<Rightarrow> ('k, 'v) client_manager" where
  "remove_client d m =
     (let gone = filter (\<lambda>i. same_ptr (Some i) d) (mClients m)
      in (tell (map onClientRemoved gone) m)\<lparr>mClients := filter (\<lambda>i. \<not> same_ptr (Some i) d) (mClients m)\<rparr>)"

text \<open>
  Waiting for a client to leave: each wake-up has the result of \<open>waitRelative\<close> and the clients at
  that time. \<open>None\<close> while the thread still waits.
\<close>

fun waitUntilRemoved ::
  "('k, 'v) client_descriptor option \<Rightarrow> ('k, 'v) client_descriptor list \<Rightarrow> (status \<times> ('k, 'v) client_descriptor list) list \<Rightarrow> status option" where
  "waitUntilRemoved client cs [] = (if \<exists>i\<in>set cs. same_ptr (Some i) client then None else Some OK)"
| "waitUntilRemoved client cs ((ret, cs') # wakes) =
     (if \<exists>i\<in>set cs. same_ptr (Some i) client then if ret \<noteq> OK then Some ret else waitUntilRemoved client cs' wakes else Some OK)"

section \<open>Connecting to a camera\<close>

text \<open>
  In the service the keys are camera names and the values client objects, \<open>None\<close> the null pointer.
  What lies outside is in the environment: process priorities, the state of the cameras, whether
  the caller is a vendor process, and the client objects' own answers.
\<close>

type_synonym camera_descriptor = "(string, nat option) client_descriptor"
type_synonym camera_manager = "(string, nat option) client_manager"

datatype device_status = NOT_PRESENT | PRESENT | ENUMERATING | NOT_AVAILABLE | DEVICE_UNKNOWN

abbreviation ENODEV :: status where
  "ENODEV \<equiv> Status_Code (-19)"

abbreviation TIMED_OUT :: status where
  "TIMED_OUT \<equiv> Status_Code (-110)"

record camera_env =
  getProcessStatesScoresFromPids :: "int list \<Rightarrow> status \<times> (int \<times> int) list"
  cameraStates :: "string \<rightharpoonup> int \<times> string list"
  cameraStatus :: "string \<rightharpoonup> device_status"
  isServingCall :: bool
  canCastToApiClient :: "nat \<Rightarrow> bool"
  getRemote :: "nat \<Rightarrow> nat"

definition kVendorClientScore :: int where
  "kVendorClientScore = 200"

definition kVendorClientState :: int where
  "kVendorClientState = 1"

definition makeClientDescriptor ::
  "camera_env \<Rightarrow> nat \<Rightarrow> string \<Rightarrow> nat option \<Rightarrow> int \<Rightarrow> string list \<Rightarrow> int \<Rightarrow> int \<Rightarrow> int \<Rightarrow> camera_descriptor" where
  "makeClientDescriptor env ptr key value cost conflictingKeys score ownerId state =
     \<lparr>dPtr = ptr, mKey = key, mValue = value, mCost = cost, mConflicting = conflictingKeys,
      mPriority = \<lparr>priScore = (if isServingCall env then kVendorClientScore else score),
                   priState = (if isServingCall env then kVendorClientState else state), mIsVendorClient = isServingCall env\<rparr>,
      mOwnerId = ownerId\<rparr>"

definition makeClientDescriptor_from :: "camera_env \<Rightarrow> nat \<Rightarrow> nat option \<Rightarrow> camera_descriptor \<Rightarrow> camera_descriptor" where
  "makeClientDescriptor_from env ptr value partial =
     makeClientDescriptor env ptr (mKey partial) value (mCost partial) (mConflicting partial)
       (priScore (mPriority partial)) (mOwnerId partial) (priState (mPriority partial))"

definition checkIfDeviceIsUsable :: "camera_env \<Rightarrow> string \<Rightarrow> status" where
  "checkIfDeviceIsUsable env cameraId =
     (case cameraStatus env cameraId of
        None \<Rightarrow> ENODEV
      | Some NOT_PRESENT \<Rightarrow> ENODEV
      | Some ENUMERATING \<Rightarrow> EBUSY
      | Some _ \<Rightarrow> OK)"

text \<open>
  What other threads do while the service lock is released: for each evicted client the active
  clients when the wait for it begins, with the wake-ups of the wait, and the active clients when
  the lock is taken again.
\<close>

record window =
  waits :: "(camera_descriptor list \<times> (status \<times> camera_descriptor list) list) list"
  relocked :: "camera_descriptor list"

text \<open>The loop of waits; it ends at the first one that fails.\<close>

fun wait_all :: "camera_descriptor option list \<Rightarrow> (camera_descriptor list \<times> (status \<times> camera_descriptor list) list) list \<Rightarrow> status option" where
  "wait_all [] ws = Some OK"
| "wait_all (e # es) [] = None"
| "wait_all (e # es) ((cs, wakes) # ws) =
     (case waitUntilRemoved e cs wakes of
        None \<Rightarrow> None
      | Some ret \<Rightarrow> if ret = TIMED_OUT then Some EBUSY else if ret \<noteq> OK then Some ret else wait_all es ws)"

text \<open>
  The call aborts the process, still waits, or returns; then with the status, whether the service
  lock is held, the client to reuse, the descriptor for the new client, and the manager.
\<close>

datatype connect_outcome =
    Aborted
  | Waiting
  | Returned status bool "nat option" "camera_descriptor option" camera_manager

definition reusable_client :: "camera_env \<Rightarrow> string \<Rightarrow> nat \<Rightarrow> camera_manager \<Rightarrow> nat option" where
  "reusable_client env cameraId remoteCallback m =
     (case get_client cameraId m of
        None \<Rightarrow> None
      | Some current \<Rightarrow>
          (case mValue current of
             None \<Rightarrow> None
           | Some c \<Rightarrow> if canCastToApiClient env c \<and> getRemote env c = remoteCallback then Some c else None))"

definition owner_priorities :: "int list \<Rightarrow> (int \<times> int) list \<Rightarrow> int \<rightharpoonup> client_priority" where
  "owner_priorities ownerPids infos =
     map_of (zip (butlast ownerPids) (map (\<lambda>(state, score). \<lparr>priScore = score, priState = state, mIsVendorClient = False\<rparr>) infos))"

definition handleEvictionsLocked ::
  "camera_env \<Rightarrow> string \<Rightarrow> int \<Rightarrow> bool \<Rightarrow> nat \<Rightarrow> nat \<Rightarrow> window \<Rightarrow> camera_manager \<Rightarrow> connect_outcome" where
  "handleEvictionsLocked env cameraId clientPid api1 remoteCallback ptr win m =
     (case (if api1 then reusable_client env cameraId remoteCallback m else None) of
        Some c \<Rightarrow> Returned OK True (Some c) None m
      | None \<Rightarrow>
          (let ownerPids = getAllOwners m @ [clientPid];
               (err, infos) = getProcessStatesScoresFromPids env ownerPids
           in if err \<noteq> OK then Returned err True None None m
              else
                (let m = updatePriorities (owner_priorities ownerPids infos) m
                 in case cameraStates env cameraId of
                      None \<Rightarrow> Returned BAD_VALUE True None None m
                    | Some (cost, conflictingKeys) \<Rightarrow>
                        (let (state, score) = last infos;
                             d = makeClientDescriptor env ptr cameraId None cost conflictingKeys score clientPid state;
                             evicted = wouldEvict m (Some d)
                         in if \<exists>x\<in>set evicted. same_ptr x (Some d) then Returned EBUSY True None None m
                            else if \<exists>x\<in>set evicted. mValue (the x) = None then Aborted
                            else case wait_all evicted (waits win) of
                                   None \<Rightarrow> Waiting
                                 | Some ret \<Rightarrow>
                                     (let m = m\<lparr>mClients := relocked win\<rparr>
                                      in if ret \<noteq> OK then Returned ret False None None m
                                         else if checkIfDeviceIsUsable env cameraId \<noteq> OK
                                         then Returned (checkIfDeviceIsUsable env cameraId) True None None m
                                         else Returned OK True None (Some d) m)))))"

definition finishConnectLocked :: "camera_env \<Rightarrow> nat \<Rightarrow> nat \<Rightarrow> camera_descriptor \<Rightarrow> camera_manager \<Rightarrow> camera_manager option" where
  "finishConnectLocked env client ptr desc m =
     (case addAndEvict m (Some (makeClientDescriptor_from env ptr (Some client) desc)) of
        None \<Rightarrow> None
      | Some (evicted, m) \<Rightarrow> if length evicted > 0 then None else Some m)"

definition removeByClient :: "nat \<Rightarrow> camera_manager \<Rightarrow> camera_manager" where
  "removeByClient client m =
     foldl (\<lambda>m i. if mValue i = Some client then remove_client (Some i) m else m) m (getAll m)"

definition removeClientLocked :: "string \<Rightarrow> camera_manager \<Rightarrow> nat option \<times> camera_manager" where
  "removeClientLocked cameraId m =
     (let (d, m) = remove_key cameraId m in (case d of None \<Rightarrow> None | Some i \<Rightarrow> mValue i, m))"

text \<open>The clients that die with their process; the result says whether one was disconnected.\<close>

definition evictClientIdByRemote :: "camera_env \<Rightarrow> nat \<Rightarrow> camera_manager \<Rightarrow> bool \<times> camera_manager" where
  "evictClientIdByRemote env remote m =
     foldl (\<lambda>(ret, m) i. case mValue i of
                None \<Rightarrow> (ret, remove_client (Some i) m)
              | Some c \<Rightarrow> if getRemote env c = remote then (True, remove_client (Some i) m) else (ret, m))
       (False, m) (getAll m)"

end
