(* ===== verification/Camera_Eviction.thy ===== *)
theory Camera_Eviction
  imports Camera_Clients
begin

text \<open>
  The eviction policy of the camera service: what it evicts and whom it turns away, that active
  clients stay compatible, and that a connection which was cleared to go on never aborts the
  service, whatever other threads remove meanwhile.
\<close>

section \<open>Priorities\<close>

lemma priority_total: "\<not> priority_less a b \<Longrightarrow> \<not> priority_less b a \<Longrightarrow> priority_eq a b"
  by (auto simp: priority_less_def priority_eq_def split: if_splits)

lemma priority_less_trans: "priority_less a b \<Longrightarrow> priority_less b c \<Longrightarrow> priority_less a c"
  by (auto simp: priority_less_def split: if_splits)

lemma priority_le_less_trans: "\<not> priority_less b a \<Longrightarrow> priority_less b c \<Longrightarrow> priority_less a c"
  by (auto simp: priority_less_def split: if_splits)

lemma priority_irrefl [simp]: "\<not> priority_less a a"
  by (simp add: priority_less_def)

lemma priority_eq_less: "priority_eq a b \<Longrightarrow> priority_less a c = priority_less b c" "priority_eq a b \<Longrightarrow> priority_less c a = priority_less c b"
  by (simp_all add: priority_eq_def priority_less_def)

section \<open>The loop\<close>

abbreviation total_cost :: "('k, 'v) client_descriptor list \<Rightarrow> int" where
  "total_cost cs \<equiv> sum_list (map mCost cs)"

abbreviation outranks :: "('k, 'v) client_descriptor \<Rightarrow> ('k, 'v) client_descriptor \<Rightarrow> bool" where
  "outranks i c \<equiv> priority_less (mPriority i) (mPriority c)"

text \<open>The clients that may be evicted to save cost.\<close>

definition evictable :: "('k, 'v) client_descriptor \<Rightarrow> int \<Rightarrow> ('k, 'v) client_descriptor \<Rightarrow> bool" where
  "evictable c hpo i \<longleftrightarrow> mCost i > 0 \<and> \<not> outranks i c \<and> \<not> (hpo = mOwnerId c \<and> mOwnerId c = mOwnerId i)"

lemma foldl_cost: "foldl (\<lambda>c x. c + mCost x) a cs = a + total_cost cs"
  by (induction cs arbitrary: a) simp_all

lemma getCurrentCostLocked_sum: "getCurrentCostLocked m = total_cost (mClients m)"
  by (simp add: getCurrentCostLocked_def foldl_cost)

lemma evict_loop_None:
  "evict_loop maxc c hpo tot acc cs = None \<longleftrightarrow> (\<exists>i\<in>set cs. conflicting c i \<and> outranks i c)"
  by (induction maxc c hpo tot acc cs rule: evict_loop.induct) auto

lemma evict_loop_Some:
  assumes "evict_loop maxc c hpo tot acc cs = Some (es, tot')"
  shows "\<exists>E. es = acc @ E \<and> subseq E cs \<and> tot' = tot - total_cost E
    \<and> (\<forall>e\<in>set E. (conflicting c e \<or> evictable c hpo e) \<and> \<not> outranks e c) \<and> (\<forall>i\<in>set cs. conflicting c i \<longrightarrow> i \<in> set E)"
  using assms
proof (induction maxc c hpo tot acc cs rule: evict_loop.induct)
  case (1 maxc c hpo tot acc)
  then show ?case by auto
next
  case (2 maxc c hpo tot acc i "is")
  consider "conflicting c i \<and> outranks i c"
    | (take) "\<not> (conflicting c i \<and> outranks i c)" "conflicting c i \<or> too_costly maxc c hpo tot i"
    | (skip) "\<not> (conflicting c i \<and> outranks i c)" "\<not> (conflicting c i \<or> too_costly maxc c hpo tot i)"
    by blast
  then show ?case
  proof cases
    case 1
    then show ?thesis using 2 by simp
  next
    case take
    then obtain E where "es = (acc @ [i]) @ E" "subseq E is" "tot' = tot - mCost i - total_cost E"
      "\<forall>e\<in>set E. (conflicting c e \<or> evictable c hpo e) \<and> \<not> outranks e c" "\<forall>j\<in>set is. conflicting c j \<longrightarrow> j \<in> set E"
      using 2 by auto
    moreover have "(conflicting c i \<or> evictable c hpo i) \<and> \<not> outranks i c" using take(1) take(2) by (auto simp: too_costly_def evictable_def)
    ultimately show ?thesis using take(1) by (intro exI [of _ "i # E"]) auto
  next
    case skip
    then obtain E where "es = acc @ E" "subseq E is" "tot' = tot - total_cost E"
      "\<forall>e\<in>set E. (conflicting c e \<or> evictable c hpo e) \<and> \<not> outranks e c" "\<forall>j\<in>set is. conflicting c j \<longrightarrow> j \<in> set E"
      using 2 by auto
    then show ?thesis using skip by (intro exI [of _ E]) auto
  qed
qed

text \<open>If the cost is still too high at the end, everything that may be evicted was.\<close>

lemma evict_loop_over:
  assumes "evict_loop maxc c hpo tot acc cs = Some (es, tot')" "tot' > maxc" "\<forall>i\<in>set cs. 0 \<le> mCost i"
  shows "es = acc @ filter (\<lambda>i. conflicting c i \<or> evictable c hpo i) cs \<and> tot' \<le> tot"
  using assms
proof (induction maxc c hpo tot acc cs rule: evict_loop.induct)
  case (1 maxc c hpo tot acc)
  then show ?case by simp
next
  case (2 maxc c hpo tot acc i "is")
  show ?case
  proof (cases "conflicting c i \<or> too_costly maxc c hpo tot i")
    case True
    then show ?thesis using 2 by (auto simp: too_costly_def evictable_def split: if_splits)
  next
    case False
    then have "es = acc @ filter (\<lambda>i. conflicting c i \<or> evictable c hpo i) is \<and> tot' \<le> tot" using 2 by auto
    moreover have "\<not> evictable c hpo i" using False calculation 2(4) by (auto simp: too_costly_def evictable_def)
    ultimately show ?thesis using False by simp
  qed
qed

section \<open>Who has the highest priority\<close>

lemma highest_fold:
  "(\<exists>i\<in>set cs. foldl highest_step hi cs = (mPriority i, mOwnerId i)) \<or> foldl highest_step hi cs = hi"
  by (induction cs arbitrary: hi) (auto simp: highest_step_def split: if_splits)

lemma highest_fold_le:
  "\<not> priority_less (fst hi) (fst (foldl highest_step hi cs))
    \<and> (\<forall>i\<in>set cs. \<not> priority_less (mPriority i) (fst (foldl highest_step hi cs)))"
proof (induction cs arbitrary: hi)
  case (Cons x cs)
  have "\<not> priority_less (fst hi) (fst (highest_step hi x))" "\<not> priority_less (mPriority x) (fst (highest_step hi x))"
    by (auto simp: highest_step_def priority_le_def dest: priority_less_trans)
  then show ?case using Cons.IH [of "highest_step hi x"] by (auto dest: priority_le_less_trans)
qed simp

lemma highest_owner_top:
  assumes "\<forall>i\<in>set cs. \<not> outranks i c"
  shows "highest_owner c cs = mOwnerId c"
proof -
  have "priority_eq (fst (foldl highest_step (mPriority c, mOwnerId c) cs)) (mPriority c)"
    using assms highest_fold [of cs "(mPriority c, mOwnerId c)"] highest_fold_le [of "(mPriority c, mOwnerId c)" cs]
    by (intro priority_total) auto
  then show ?thesis by (simp add: highest_owner_def)
qed

lemma highest_owner_other:
  assumes "highest_owner c cs = mOwnerId c" "i \<in> set cs" "outranks i c"
  shows "\<exists>j\<in>set cs. mOwnerId j = mOwnerId c \<and> outranks j c"
proof -
  define hi where "hi = foldl highest_step (mPriority c, mOwnerId c) cs"
  have le: "\<not> priority_less (mPriority i) (fst hi)"
    using highest_fold_le [of "(mPriority c, mOwnerId c)" cs] assms(2) by (simp add: hi_def)
  then have out: "priority_less (fst hi) (mPriority c)" using assms(3) priority_le_less_trans by blast
  then have "\<not> priority_eq (fst hi) (mPriority c)" using priority_eq_less(1) priority_irrefl by blast
  then have own: "snd hi = mOwnerId c" using assms(1) by (simp add: highest_owner_def hi_def [symmetric] Let_def)
  have "hi \<noteq> (mPriority c, mOwnerId c)" using out by auto
  then obtain j where "j \<in> set cs" "hi = (mPriority j, mOwnerId j)"
    using highest_fold [of cs "(mPriority c, mOwnerId c)"] by (auto simp: hi_def)
  then show ?thesis using out own by auto
qed

section \<open>What the policy decides\<close>

text \<open>The clients that stay whatever happens: neither in conflict nor evictable for their cost.\<close>

definition staying :: "('k, 'v) client_descriptor \<Rightarrow> int \<Rightarrow> ('k, 'v) client_descriptor list \<Rightarrow> ('k, 'v) client_descriptor list" where
  "staying c hpo cs = filter (\<lambda>i. \<not> (conflicting c i \<or> evictable c hpo i)) cs"

definition turned_away :: "int \<Rightarrow> ('k, 'v) client_descriptor \<Rightarrow> ('k, 'v) client_descriptor list \<Rightarrow> bool" where
  "turned_away maxc c cs \<longleftrightarrow>
     (\<exists>i\<in>set cs. conflicting c i \<and> outranks i c)
     \<or> highest_owner c cs \<noteq> mOwnerId c \<and> total_cost (staying c (highest_owner c cs) cs) + mCost c > maxc"

lemma total_cost_filter: "total_cost (filter P cs) + total_cost (filter (\<lambda>i. \<not> P i) cs) = total_cost cs"
  by (induction cs) auto

lemma total_cost_subseq: "subseq E cs \<Longrightarrow> \<forall>i\<in>set cs. 0 \<le> mCost i \<Longrightarrow> total_cost E \<le> total_cost cs"
  by (induction rule: list_emb.induct) (auto simp: add_increasing intro!: sum_list_nonneg)

lemma evict_loop_final:
  assumes "evict_loop maxc c hpo tot acc cs = Some (es, tot')" "\<forall>i\<in>set cs. 0 \<le> mCost i"
  shows "tot' > maxc \<longleftrightarrow> tot - total_cost (filter (\<lambda>i. conflicting c i \<or> evictable c hpo i) cs) > maxc"
proof
  assume "tot' > maxc"
  then show "tot - total_cost (filter (\<lambda>i. conflicting c i \<or> evictable c hpo i) cs) > maxc"
    using evict_loop_over [OF assms(1) _ assms(2)] evict_loop_Some [OF assms(1)] by auto
next
  assume less: "tot - total_cost (filter (\<lambda>i. conflicting c i \<or> evictable c hpo i) cs) > maxc"
  obtain E where E: "subseq E cs" "tot' = tot - total_cost E" "\<forall>e\<in>set E. conflicting c e \<or> evictable c hpo e"
    using evict_loop_Some [OF assms(1)] by blast
  then have "subseq E (filter (\<lambda>i. conflicting c i \<or> evictable c hpo i) cs)"
    by (metis (no_types, lifting) filter_True subseq_filter)
  then have "total_cost E \<le> total_cost (filter (\<lambda>i. conflicting c i \<or> evictable c hpo i) cs)"
    using assms(2) by (intro total_cost_subseq) auto
  then show "tot' > maxc" using less E(2) by linarith
qed

text \<open>Within the limit only conflicts are evicted.\<close>

lemma evict_loop_within:
  assumes "tot \<le> maxc" "\<forall>i\<in>set cs. 0 \<le> mCost i" "\<forall>i\<in>set cs. conflicting c i \<longrightarrow> \<not> outranks i c"
  shows "\<exists>tot'\<le>maxc. evict_loop maxc c hpo tot acc cs = Some (acc @ filter (conflicting c) cs, tot')"
  using assms
proof (induction maxc c hpo tot acc cs rule: evict_loop.induct)
  case (2 maxc c hpo tot acc i "is")
  have "\<not> too_costly maxc c hpo tot i" using 2(3) by (simp add: too_costly_def)
  then show ?case using 2 by (cases "conflicting c i") auto
qed auto

lemma wouldEvict_cases:
  assumes "\<forall>i\<in>set (mClients m). 0 \<le> mCost i" and hpo_def: "hpo = highest_owner c (mClients m)"
  shows "if turned_away (mMaxCost m) c (mClients m) then wouldEvict m (Some c) = [Some c]
    else \<exists>E tot'. wouldEvict m (Some c) = map Some E
      \<and> evict_loop (mMaxCost m) c hpo (total_cost (mClients m) + mCost c) [] (mClients m) = Some (E, tot')
      \<and> (tot' \<le> mMaxCost m \<or> hpo = mOwnerId c)"
proof (cases "evict_loop (mMaxCost m) c hpo (total_cost (mClients m) + mCost c) [] (mClients m)")
  case None
  then have "turned_away (mMaxCost m) c (mClients m)" using evict_loop_None [THEN iffD1, OF None] by (simp add: turned_away_def)
  then show ?thesis using None
    by (simp add: wouldEvict_def wouldEvictLocked_def getCurrentCostLocked_sum hpo_def [symmetric] Let_def)
next
  case (Some r)
  obtain E tot' where r: "r = (E, tot')" by (cases r)
  have no: "\<not> (\<exists>i\<in>set (mClients m). conflicting c i \<and> outranks i c)" using Some evict_loop_None by (metis option.distinct(1))
  have "tot' > mMaxCost m \<longleftrightarrow> total_cost (staying c hpo (mClients m)) + mCost c > mMaxCost m"
    using evict_loop_final [OF Some [unfolded r] assms(1)] total_cost_filter [of "\<lambda>i. conflicting c i \<or> evictable c hpo i" "mClients m"]
    by (simp add: staying_def) linarith
  then show ?thesis using no Some r
    by (auto simp: turned_away_def wouldEvict_def wouldEvictLocked_def getCurrentCostLocked_sum hpo_def Let_def)
qed

lemma eviction_policy_accept:
  assumes "\<forall>i\<in>set (mClients m). 0 \<le> mCost i" "\<not> turned_away (mMaxCost m) c (mClients m)"
  shows "\<exists>E. wouldEvict m (Some c) = map Some E \<and> subseq E (mClients m) \<and> (\<forall>e\<in>set E. \<not> outranks e c)
    \<and> (\<forall>i\<in>set (mClients m). conflicting c i \<longrightarrow> i \<in> set E)
    \<and> (total_cost (mClients m) + mCost c \<le> mMaxCost m \<longrightarrow> E = filter (conflicting c) (mClients m))
    \<and> (total_cost (mClients m) - total_cost E + mCost c > mMaxCost m \<longrightarrow>
         highest_owner c (mClients m) = mOwnerId c \<and> (\<forall>i\<in>set (mClients m). evictable c (mOwnerId c) i \<longrightarrow> i \<in> set E))"
proof -
  obtain E tot' where E: "wouldEvict m (Some c) = map Some E"
    "evict_loop (mMaxCost m) c (highest_owner c (mClients m)) (total_cost (mClients m) + mCost c) [] (mClients m) = Some (E, tot')"
    "tot' \<le> mMaxCost m \<or> highest_owner c (mClients m) = mOwnerId c"
    using wouldEvict_cases [OF assms(1) refl, of c] assms(2) by auto
  have no: "\<forall>i\<in>set (mClients m). conflicting c i \<longrightarrow> \<not> outranks i c" using assms(2) by (auto simp: turned_away_def)
  have "E = filter (conflicting c) (mClients m)" if "total_cost (mClients m) + mCost c \<le> mMaxCost m"
    using evict_loop_within [OF that assms(1) no, of "highest_owner c (mClients m)" "[]"] E(2) by auto
  moreover have tot: "tot' = total_cost (mClients m) + mCost c - total_cost E" using evict_loop_Some [OF E(2)] by auto
  moreover have "\<forall>i\<in>set (mClients m). evictable c (mOwnerId c) i \<longrightarrow> i \<in> set E" if "tot' > mMaxCost m"
    using evict_loop_over [OF E(2) that assms(1)] E(3) that by auto
  ultimately show ?thesis using E(1,3) evict_loop_Some [OF E(2)] by (auto simp: algebra_simps)
qed


section \<open>Adding a client\<close>

lemma conflicting_sym: "conflicting a b = conflicting b a"
  by (auto simp: conflicting_def isConflicting_def)

text \<open>The first client is the first evicted one, or comes before all of them.\<close>

lemma subseq_head:
  assumes "subseq (e # es) (c # cs)" "distinct (map mKey (c # cs))"
  shows "if mKey c = mKey e then c = e \<and> subseq es cs else subseq (e # es) cs"
proof (cases "c = e")
  case True
  then show ?thesis using assms(1) by simp
next
  case False
  then have "subseq (e # es) cs" using assms(1) by (auto split: if_splits)
  moreover have "e \<in> set cs" using list_emb_set [OF calculation, of e] by auto
  then have "mKey c \<noteq> mKey e" using assms(2) by auto
  ultimately show ?thesis by simp
qed

lemma remove_evicted_some:
  assumes "remove_evicted cs es = Some cs'" "subseq es cs" "distinct (map mKey cs)"
  shows "cs' = filter (\<lambda>i. i \<notin> set es) cs"
  using assms
proof (induction cs es arbitrary: cs' rule: remove_evicted.induct)
  case (3 c cs e es)
  note hd = subseq_head [OF 3(4,5)]
  have key: "c \<notin> set cs" using 3(5) by auto
  show ?case
  proof (cases "mKey c = mKey e")
    case True
    then have "cs' = filter (\<lambda>i. i \<notin> set es) cs" "c = e" using 3 hd by simp_all
    then show ?thesis using key by (auto intro!: filter_cong)
  next
    case False
    then obtain ds where ds: "remove_evicted cs (e # es) = Some ds" "cs' = c # ds" using 3(3) by auto
    then have "ds = filter (\<lambda>i. i \<notin> set (e # es)) cs" using 3(2) [OF False] hd False 3(5) by simp
    moreover have "subseq (e # es) cs" using hd False by simp
    then have "c \<notin> set (e # es)" using list_emb_set [of "(=)" "e # es" cs c] key by blast
    ultimately show ?thesis using ds(2) by simp
  qed
qed auto

text \<open>The cursor runs past the end as soon as a client follows the last evicted one.\<close>

lemma remove_evicted_none:
  assumes "subseq es cs" "distinct (map mKey cs)" "es \<noteq> []"
  shows "remove_evicted cs es = None \<longleftrightarrow> last es \<noteq> last cs"
  using assms
proof (induction cs es rule: remove_evicted.induct)
  case (3 c cs e es)
  note hd = subseq_head [OF 3(3,4)]
  show ?case
  proof (cases "mKey c = mKey e")
    case True
    then have ce: "c = e" "subseq es cs" using hd by simp_all
    show ?thesis
    proof (cases "es = []")
      case True
      then show ?thesis using ce 3(4) by (cases cs) auto
    next
      case False
      then have "cs \<noteq> []" using ce(2) by auto
      then show ?thesis using 3(1) [OF True ce(2)] 3(4) False ce(1) True by simp
    qed
  next
    case False
    then have ce: "subseq (e # es) cs" using hd by simp
    then have "cs \<noteq> []" by auto
    then show ?thesis using 3(2) [OF False ce] 3(4) False by simp
  qed
qed auto

text \<open>No two active clients are in conflict, in particular none share a camera.\<close>

abbreviation all_compatible :: "('k, 'v) client_descriptor list \<Rightarrow> bool" where
  "all_compatible cs \<equiv> sorted_wrt (\<lambda>a b. \<not> conflicting a b) cs"

lemma compatible_keys: "all_compatible cs \<Longrightarrow> distinct (map mKey cs)"
  by (induction cs) (auto simp: conflicting_def)

lemma compatible_filter: "all_compatible cs \<Longrightarrow> all_compatible (filter P cs)"
  by (induction cs) auto

definition manager_ok :: "('k, 'v) client_manager \<Rightarrow> bool" where
  "manager_ok m \<longleftrightarrow> all_compatible (mClients m) \<and> (\<forall>i\<in>set (mClients m). 0 \<le> mCost i)"

lemma tell_fields [simp]: "mClients (tell es m) = mClients m" "mMaxCost (tell es m) = mMaxCost m" "hasListener (tell es m) = hasListener m"
  by (simp_all add: tell_def)

text \<open>The outcome of \<open>addAndEvict\<close> for a descriptor that is not in use yet.\<close>

lemma addAndEvict_accepts:
  assumes ok: "manager_ok m" and new: "\<forall>i\<in>set (mClients m). dPtr i \<noteq> dPtr c"
    and acc: "\<not> turned_away (mMaxCost m) c (mClients m)" and E: "wouldEvict m (Some c) = map Some E"
  shows "subseq E (mClients m)"
    and "addAndEvict m (Some c) = None \<longleftrightarrow> E \<noteq> [] \<and> last E \<noteq> last (mClients m)"
    and "addAndEvict m (Some c) = Some (ev, m') \<Longrightarrow> ev = map Some E \<and> mClients m' = filter (\<lambda>i. i \<notin> set E) (mClients m) @ [c]
      \<and> m' = (tell (map onClientRemoved (take 1 E) @ [onClientAdded c]) m)\<lparr>mClients := mClients m'\<rparr>"
proof -
  have cost: "\<forall>i\<in>set (mClients m). 0 \<le> mCost i" and keys: "distinct (map mKey (mClients m))"
    using ok compatible_keys by (auto simp: manager_ok_def)
  show sub: "subseq E (mClients m)"
    using eviction_policy_accept [OF cost acc] E by auto
  have "\<not> same_ptr (Some (hd E)) (Some c)" if "E \<noteq> []"
    using list_emb_set [OF sub, of "hd E"] new that by (auto simp: same_ptr_def)
  then have add: "addAndEvict m (Some c) =
      (case (if E = [] then Some (m, mClients m) else map_option (Pair (tell [onClientRemoved (hd E)] m)) (remove_evicted (mClients m) E)) of
         None \<Rightarrow> None | Some (m, cs) \<Rightarrow> Some (map Some E, (tell [onClientAdded c] m)\<lparr>mClients := cs @ [c]\<rparr>))"
    using E by (cases E) (simp_all add: addAndEvict_def wouldEvict_def Let_def comp_def split: option.split)
  show "addAndEvict m (Some c) = None \<longleftrightarrow> E \<noteq> [] \<and> last E \<noteq> last (mClients m)"
    using remove_evicted_none [OF sub keys] by (auto simp: add split: option.splits)
  show "addAndEvict m (Some c) = Some (ev, m') \<Longrightarrow> ev = map Some E \<and> mClients m' = filter (\<lambda>i. i \<notin> set E) (mClients m) @ [c]
      \<and> m' = (tell (map onClientRemoved (take 1 E) @ [onClientAdded c]) m)\<lparr>mClients := mClients m'\<rparr>"
    using remove_evicted_some [OF _ sub keys]
    by (cases E) (auto simp: add tell_def split: option.splits if_splits)
qed

lemma compatible_add:
  assumes ok: "manager_ok m" and new: "\<forall>i\<in>set (mClients m). dPtr i \<noteq> dPtr c" "0 \<le> mCost c"
    and add: "addAndEvict m (Some c) = Some (ev, m')"
  shows "manager_ok m'"
proof (cases "turned_away (mMaxCost m) c (mClients m)")
  case True
  have cost: "\<forall>i\<in>set (mClients m). 0 \<le> mCost i" using ok by (simp add: manager_ok_def)
  have "wouldEvictLocked m (Some c) False = [Some c]"
    using wouldEvict_cases [OF cost refl, of c] True by (simp add: wouldEvict_def)
  then show ?thesis using add ok by (simp add: addAndEvict_def same_ptr_def)
next
  case False
  have cost: "\<forall>i\<in>set (mClients m). 0 \<le> mCost i" using ok by (simp add: manager_ok_def)
  obtain E where E: "wouldEvict m (Some c) = map Some E" "\<forall>i\<in>set (mClients m). conflicting c i \<longrightarrow> i \<in> set E"
    using eviction_policy_accept [OF cost False] by auto
  have "mClients m' = filter (\<lambda>i. i \<notin> set E) (mClients m) @ [c]"
    using addAndEvict_accepts(3) [OF ok new(1) False E(1) add] by simp
  then show ?thesis using ok E(2) new(2)
    by (auto simp: manager_ok_def sorted_wrt_append compatible_filter conflicting_sym)
qed

text \<open>The operations on the manager; a descriptor is added by the thread that made it.\<close>

inductive manager_step :: "('k, 'v) client_manager \<Rightarrow> ('k, 'v) client_manager \<Rightarrow> bool" where
  add: "addAndEvict m (Some c) = Some (ev, m') \<Longrightarrow> \<forall>i\<in>set (mClients m). dPtr i \<noteq> dPtr c \<Longrightarrow> 0 \<le> mCost c \<Longrightarrow> manager_step m m'"
| add_null: "addAndEvict m None = Some (ev, m') \<Longrightarrow> manager_step m m'"
| update: "manager_step m (updatePriorities ps m)"
| remove_key: "manager_step m (snd (remove_key k m))"
| remove_client: "manager_step m (remove_client d m)"
| remove_all: "manager_step m (removeAll_clients m)"
| listener: "manager_step m (setListener b m)"

inductive_cases manager_stepE: "manager_step m m'"

lemma conflicting_setPriority [simp]:
  "conflicting (setPriority p a) b = conflicting a b" "conflicting a (setPriority p b) = conflicting a b" "mCost (setPriority p a) = mCost a"
  by (simp_all add: conflicting_def isConflicting_def setPriority_def)

lemma updatePriorities_ok: "manager_ok m \<Longrightarrow> manager_ok (updatePriorities ps m)"
  by (auto simp: manager_ok_def updatePriorities_def sorted_wrt_map split: option.splits
      elim!: sorted_wrt_mono_rel [rotated])

lemma manager_step_ok: "manager_ok m \<Longrightarrow> manager_step m m' \<Longrightarrow> manager_ok m'"
  by (erule manager_stepE)
    (auto intro: compatible_add updatePriorities_ok
      simp: addAndEvict_def wouldEvictLocked_def same_ptr_def remove_key_def remove_client_def removeAll_clients_def setListener_def Let_def,
     auto simp: manager_ok_def compatible_filter)

interpretation managing: invariant_system "\<lambda>m. \<exists>n. m = new_client_manager n" manager_step manager_ok
proof
  show "\<exists>n. m = new_client_manager n \<Longrightarrow> manager_ok m" for m by (auto simp: manager_ok_def new_client_manager_def)
  show "manager_ok m \<Longrightarrow> manager_step m m' \<Longrightarrow> manager_ok m'" for m m' by (rule manager_step_ok)
qed

text \<open>
  C26: over every sequence of operations, from an empty manager on, no two active clients are in
  conflict: no camera has two clients, and no client is active beside one whose camera either of
  them cannot be used with.
\<close>

theorem active_clients_compatible:
  assumes "manager_step\<^sup>*\<^sup>* (new_client_manager n) m" "a < length (mClients m)" "b < length (mClients m)" "a \<noteq> b"
  shows "mKey (mClients m ! a) \<noteq> mKey (mClients m ! b) \<and> mKey (mClients m ! a) \<notin> set (mConflicting (mClients m ! b))"
proof -
  have "manager_ok m" using managing.reachable_inv assms(1) by blast
  then have "\<not> conflicting (mClients m ! min a b) (mClients m ! max a b)"
    using assms(2-) by (auto simp: manager_ok_def sorted_wrt_iff_nth_less min_def max_def)
  then show ?thesis using assms(4) by (cases "a < b") (auto simp: conflicting_def isConflicting_def min_def max_def)
qed

text \<open>
  C38: \<open>addAndEvict\<close> with clients to evict. The cursor of the removal loop is read for every client
  left, so the call reads past the end of the evicted ones, undefined behaviour, unless the last
  client to evict is also the last active one. Where it is defined, the evicted clients are gone
  and the new one is last, but the listener hears of the first evicted client only.
\<close>

theorem addAndEvict_reads_past_end:
  assumes "manager_ok m" "\<forall>i\<in>set (mClients m). dPtr i \<noteq> dPtr c" "\<not> turned_away (mMaxCost m) c (mClients m)"
    and "wouldEvict m (Some c) = map Some E" "E \<noteq> []"
  shows "(addAndEvict m (Some c) = None \<longleftrightarrow> last E \<noteq> last (mClients m))
    \<and> (addAndEvict m (Some c) = Some (ev, m') \<and> hasListener m \<longrightarrow>
         mClients m' = filter (\<lambda>i. i \<notin> set E) (mClients m) @ [c]
         \<and> listenerCalls m' = listenerCalls m @ [onClientRemoved (hd E), onClientAdded c])"
proof -
  have "listenerCalls m' = listenerCalls m @ [onClientRemoved (hd E), onClientAdded c]"
    if "addAndEvict m (Some c) = Some (ev, m')" "hasListener m"
  proof -
    have "listenerCalls m' = listenerCalls (tell (map onClientRemoved (take 1 E) @ [onClientAdded c]) m)"
      using addAndEvict_accepts(3) [OF assms(1-4) that(1)] by (metis client_manager.select_convs(4) client_manager.surjective client_manager.update_convs(2))
    then show ?thesis using that(2) assms(5) by (cases E) (simp_all add: tell_def)
  qed
  then show ?thesis using addAndEvict_accepts(2,3) [OF assms(1-4)] assms(5) by blast
qed

section \<open>Connecting\<close>

text \<open>While the service lock is released, clients may only be removed.\<close>

lemma waitUntilRemoved_gone:
  assumes "waitUntilRemoved e cs wakes = Some OK"
  shows "\<exists>s\<in>set (cs # map snd wakes). \<forall>i\<in>set s. \<not> same_ptr (Some i) e"
  using assms by (induction e cs wakes rule: waitUntilRemoved.induct) (auto split: if_splits)

definition snapshots :: "(camera_descriptor list \<times> (status \<times> camera_descriptor list) list) list \<Rightarrow> camera_descriptor list list" where
  "snapshots ws = concat (map (\<lambda>(s, wakes). s # map snd wakes) ws)"

definition only_removals :: "camera_descriptor list \<Rightarrow> window \<Rightarrow> bool" where
  "only_removals cs win \<longleftrightarrow> sorted_wrt (\<lambda>a b. subseq b a) (cs # snapshots (waits win) @ [relocked win])"

lemma wait_all_gone:
  assumes "wait_all es ws = Some OK" "e \<in> set es"
  shows "\<exists>s\<in>set (snapshots ws). \<forall>i\<in>set s. \<not> same_ptr (Some i) e"
  using assms
proof (induction es ws rule: wait_all.induct)
  case (3 x es cs wakes ws)
  have w: "waitUntilRemoved x cs wakes = Some OK" "wait_all es ws = Some OK"
    using 3(2) by (auto split: option.splits if_splits)
  have snaps: "set (snapshots ((cs, wakes) # ws)) = set (cs # map snd wakes) \<union> set (snapshots ws)" by (simp add: snapshots_def)
  show ?case
  proof (cases "e = x")
    case True
    then show ?thesis using waitUntilRemoved_gone [OF w(1)] unfolding snaps by blast
  next
    case False
    then have "\<exists>s\<in>set (snapshots ws). \<forall>i\<in>set s. \<not> same_ptr (Some i) e" using 3(1) [OF w(1) _ _ w(2)] 3(3) by simp
    then show ?thesis unfolding snaps by blast
  qed
qed auto

text \<open>After all waits, nothing that was evicted is among the active clients, and nothing new is.\<close>

lemma relocked_clients:
  assumes "only_removals cs win" "wait_all (map Some E) (waits win) = Some OK"
  shows "subseq (relocked win) cs" "e \<in> set E \<Longrightarrow> e \<notin> set (relocked win)"
proof -
  have sub: "subseq (relocked win) s" if "s \<in> set (cs # snapshots (waits win))" for s
    using assms(1) that by (auto simp: only_removals_def sorted_wrt_append)
  then show "subseq (relocked win) cs" by simp
  assume "e \<in> set E"
  then obtain s where s: "s \<in> set (snapshots (waits win))" "\<forall>i\<in>set s. \<not> same_ptr (Some i) (Some e)"
    using wait_all_gone [OF assms(2), of "Some e"] by auto
  then have "e \<notin> set s" by (auto simp: same_ptr_def)
  then show "e \<notin> set (relocked win)" using list_emb_set [OF sub [of s], of e] s(1) by auto
qed

text \<open>
  Once the clients to evict are gone, the descriptor is accepted without further evictions, if no
  client of its own process has a higher priority. Only key, conflicts, cost, priority and owner
  of the descriptor matter.
\<close>

definition same_claim :: "('k, 'v) client_descriptor \<Rightarrow> ('k, 'v) client_descriptor \<Rightarrow> bool" where
  "same_claim c d \<longleftrightarrow> mKey c = mKey d \<and> set (mConflicting c) = set (mConflicting d) \<and> mCost c = mCost d
     \<and> priority_eq (mPriority c) (mPriority d) \<and> mOwnerId c = mOwnerId d"

lemma same_claim_preds:
  assumes "same_claim c d"
  shows "conflicting c i = conflicting d i" "outranks i c = outranks i d" "evictable c h i = evictable d h i"
  using assms by (auto simp: same_claim_def conflicting_def isConflicting_def evictable_def priority_eq_less(2))

lemma subseq_within: "subseq xs ys \<Longrightarrow> \<forall>x\<in>set xs. P x \<Longrightarrow> subseq xs (filter P ys)"
  by (metis filter_True subseq_filter)

lemma accepted_after_evictions:
  assumes cost: "\<forall>i\<in>set (mClients m). 0 \<le> mCost i" and acc: "\<not> turned_away (mMaxCost m) c (mClients m)"
    and E: "wouldEvict m (Some c) = map Some E" and own: "\<forall>i\<in>set (mClients m). mOwnerId i = mOwnerId c \<longrightarrow> \<not> outranks i c"
    and R: "subseq R (mClients m)" "\<forall>e\<in>set E. e \<notin> set R" and d: "same_claim d c"
  shows "wouldEvictLocked (m\<lparr>mClients := R\<rparr>) (Some d) False = []"
proof -
  have in_m: "i \<in> set (mClients m)" if "i \<in> set R" for i using list_emb_set [OF R(1) that] by auto
  have costR: "\<forall>i\<in>set R. 0 \<le> mCost i" using cost in_m by blast
  obtain E' where E': "wouldEvict m (Some c) = map Some E'" "\<forall>i\<in>set (mClients m). conflicting c i \<longrightarrow> i \<in> set E'" "subseq E' (mClients m)"
      "total_cost (mClients m) - total_cost E' + mCost c > mMaxCost m \<longrightarrow>
         highest_owner c (mClients m) = mOwnerId c \<and> (\<forall>i\<in>set (mClients m). evictable c (mOwnerId c) i \<longrightarrow> i \<in> set E')"
    using eviction_policy_accept [OF cost acc] by blast
  have "E' = E" using E E'(1) by (simp add: inj_map_eq_map)
  note E' = E' [unfolded this]
  have nc: "\<forall>i\<in>set R. \<not> conflicting d i" using E'(2) R(2) in_m same_claim_preds(1) [OF d] by blast
  have sum: "total_cost R + total_cost E \<le> total_cost (mClients m)"
    using total_cost_subseq [OF subseq_within [OF R(1), of "\<lambda>i. i \<notin> set E"]] total_cost_subseq [OF subseq_within [OF E'(3), of "\<lambda>i. i \<in> set E"]]
      total_cost_filter [of "\<lambda>i. i \<in> set E" "mClients m"] R(2) cost by fastforce
  show ?thesis
  proof (cases "total_cost R + mCost d \<le> mMaxCost m")
    case True
    then show ?thesis using evict_loop_within [OF True costR, of d "highest_owner d R" "[]"] nc
      by (auto simp: wouldEvictLocked_def getCurrentCostLocked_sum Let_def)
  next
    case False
    have "total_cost (mClients m) - total_cost E + mCost c > mMaxCost m" using False sum d by (simp add: same_claim_def)
    then have top: "highest_owner c (mClients m) = mOwnerId c" "\<forall>i\<in>set (mClients m). evictable c (mOwnerId c) i \<longrightarrow> i \<in> set E"
      using E'(4) by blast+
    have "\<not> outranks i c" if "i \<in> set (mClients m)" for i using highest_owner_other [OF top(1) that] own by blast
    then have hpo: "highest_owner d R = mOwnerId d" using in_m same_claim_preds(2) [OF d] by (intro highest_owner_top) auto
    have ne: "\<not> evictable d (mOwnerId d) i" if "i \<in> set R" for i
      using top(2) R(2) in_m [OF that] that same_claim_preds(3) [OF d] d by (auto simp: same_claim_def)
    obtain es tot' where es: "evict_loop (mMaxCost m) d (highest_owner d R) (total_cost R + mCost d) [] R = Some (es, tot')"
      using evict_loop_None nc by (metis option.exhaust surj_pair)
    have "es = []"
    proof -
      obtain E2 where E2: "es = E2" "subseq E2 R" "\<forall>e\<in>set E2. conflicting d e \<or> evictable d (highest_owner d R) e"
        using evict_loop_Some [OF es] by auto
      have "e \<notin> set E2" for e using E2(3) list_emb_set [OF E2(2), of e] nc ne hpo by auto
      then show ?thesis using E2(1) by (cases E2) auto
    qed
    then show ?thesis using es hpo by (simp add: wouldEvictLocked_def getCurrentCostLocked_sum Let_def)
  qed
qed

text \<open>The manager with the priorities that the activity manager answers.\<close>

definition refreshed :: "camera_env \<Rightarrow> int \<Rightarrow> camera_manager \<Rightarrow> camera_manager" where
  "refreshed env clientPid m =
     (let pids = getAllOwners m @ [clientPid]
      in updatePriorities (owner_priorities pids (snd (getProcessStatesScoresFromPids env pids))) m)"

text \<open>The activity manager answers each process with its state and score.\<close>

definition answers_per_process :: "camera_env \<Rightarrow> (int \<Rightarrow> int \<times> int) \<Rightarrow> bool" where
  "answers_per_process env info \<longleftrightarrow> (\<forall>pids. getProcessStatesScoresFromPids env pids = (OK, map info pids))"

text \<open>A process is a vendor process or not, and a client of a vendor process has its fixed priority.\<close>

definition vendors_ok :: "camera_env \<Rightarrow> int \<Rightarrow> camera_manager \<Rightarrow> bool" where
  "vendors_ok env clientPid m \<longleftrightarrow>
     (\<forall>i\<in>set (mClients m). (mOwnerId i = clientPid \<longrightarrow> mIsVendorClient (mPriority i) = isServingCall env)
        \<and> (mIsVendorClient (mPriority i) \<longrightarrow> priScore (mPriority i) = kVendorClientScore \<and> priState (mPriority i) = kVendorClientState))"

lemma owner_priorities_map:
  assumes "distinct ps" "p \<in> set ps"
  shows "owner_priorities (ps @ [q]) (map info (ps @ [q]))
    p = Some \<lparr>priScore = snd (info p), priState = fst (info p), mIsVendorClient = False\<rparr>"
proof -
  have "zip ps (map (\<lambda>(state, score). \<lparr>priScore = score, priState = state, mIsVendorClient = False\<rparr>) (map info (ps @ [q])))
      = zip ps (map (\<lambda>p. \<lparr>priScore = snd (info p), priState = fst (info p), mIsVendorClient = False\<rparr>) ps)"
    by (simp add: zip_append2 case_prod_beta comp_def)
  then show ?thesis using assms
    by (simp add: owner_priorities_def map_of_zip_map)
qed

text \<open>After the refresh, the clients of the connecting process have the priority of the new one.\<close>

lemma refreshed_owner:
  assumes "answers_per_process env info" "vendors_ok env pid m" "i \<in> set (mClients (refreshed env pid m))" "mOwnerId i = pid"
  shows "priority_eq (mPriority i) (mPriority (makeClientDescriptor env ptr key v cost conf (snd (info pid)) pid (fst (info pid))))"
proof -
  obtain i0 where i0: "i0 \<in> set (mClients m)" "mOwnerId i0 = pid"
      "i = setPriority \<lparr>priScore = snd (info pid), priState = fst (info pid), mIsVendorClient = False\<rparr> i0"
    using assms(1,3,4) owner_priorities_map [of "getAllOwners m" _ pid info]
    by (auto simp: refreshed_def updatePriorities_def answers_per_process_def Let_def getAllOwners_def setPriority_def split: option.splits)
  then show ?thesis using assms(2)
    by (auto simp: vendors_ok_def setPriority_def setScore_def setState_def priority_eq_def makeClientDescriptor_def)
qed

lemma refreshed_clients:
  assumes "i \<in> set (mClients (refreshed env pid m))"
  shows "\<exists>i0\<in>set (mClients m). mValue i = mValue i0 \<and> dPtr i = dPtr i0"
  using assms by (fastforce simp: refreshed_def updatePriorities_def Let_def setPriority_def split: option.splits)

lemma refreshed_ok: "manager_ok m \<Longrightarrow> manager_ok (refreshed env pid m)"
  by (simp add: refreshed_def Let_def updatePriorities_ok)

text \<open>What is left of the function once the priorities are known.\<close>

lemma handleEvictions_known:
  assumes "answers_per_process env info" "cameraStates env cid = Some (cost, conf)"
    and "\<not> api1 \<or> reusable_client env cid remote m = None"
    and d_def: "d = makeClientDescriptor env ptr cid None cost conf (snd (info pid)) pid (fst (info pid))"
    and m1_def: "m1 = refreshed env pid m"
  shows "handleEvictionsLocked env cid pid api1 remote ptr win m =
    (if \<exists>x\<in>set (wouldEvict m1 (Some d)). same_ptr x (Some d) then Returned EBUSY True None None m1
     else if \<exists>x\<in>set (wouldEvict m1 (Some d)). mValue (the x) = None then Aborted
     else case wait_all (wouldEvict m1 (Some d)) (waits win) of
            None \<Rightarrow> Waiting
          | Some ret \<Rightarrow>
              if ret \<noteq> OK then Returned ret False None None (m1\<lparr>mClients := relocked win\<rparr>)
              else if checkIfDeviceIsUsable env cid \<noteq> OK
              then Returned (checkIfDeviceIsUsable env cid) True None None (m1\<lparr>mClients := relocked win\<rparr>)
              else Returned OK True None (Some d) (m1\<lparr>mClients := relocked win\<rparr>))"
proof -
  obtain st sc where "info pid = (st, sc)" by (cases "info pid")
  then show ?thesis using assms(1-3)
    by (auto simp: handleEvictionsLocked_def answers_per_process_def d_def m1_def refreshed_def Let_def split: option.splits)
qed

text \<open>
  C13: a connection that was cleared to go on never aborts the camera service. Let active clients
  be compatible, with objects and costs that are not negative, and let clients only be removed
  while the service lock is released. Then \<open>handleEvictionsLocked\<close> does not abort, and whenever it
  returns a descriptor, \<open>finishConnectLocked\<close> adds the client without a further eviction, which
  would be fatal, and without the undefined read of the removal loop.
\<close>

theorem cleared_connection_never_aborts:
  assumes m: "manager_ok m" "\<forall>i\<in>set (mClients m). mValue i \<noteq> None \<and> dPtr i \<noteq> ptr \<and> dPtr i \<noteq> ptr'"
    and env: "answers_per_process env info" "vendors_ok env pid m" "\<forall>cost conf. cameraStates env cid = Some (cost, conf) \<longrightarrow> 0 \<le> cost"
    and win: "only_removals (mClients (refreshed env pid m)) win"
  shows "handleEvictionsLocked env cid pid api1 remote ptr win m \<noteq> Aborted
    \<and> (\<forall>d m'. handleEvictionsLocked env cid pid api1 remote ptr win m = Returned OK True None (Some d) m' \<longrightarrow>
         (\<exists>m''. finishConnectLocked env client ptr' d m' = Some m''
            \<and> mClients m'' = relocked win @ [makeClientDescriptor_from env ptr' (Some client) d]))"
proof (cases "cameraStates env cid = None \<or> api1 \<and> reusable_client env cid remote m \<noteq> None")
  case True
  then show ?thesis using env(1)
    by (auto simp: handleEvictionsLocked_def answers_per_process_def Let_def split: option.splits prod.splits)
next
  case False
  then obtain cost conf where cs: "cameraStates env cid = Some (cost, conf)" by auto
  define d where "d = makeClientDescriptor env ptr cid None cost conf (snd (info pid)) pid (fst (info pid))"
  define m1 where "m1 = refreshed env pid m"
  define d' where "d' = makeClientDescriptor_from env ptr' (Some client) d"
  have "\<not> api1 \<or> reusable_client env cid remote m = None" using False by auto
  note known = handleEvictions_known [OF env(1) cs this d_def m1_def, of win]
  have m1: "manager_ok m1" "\<And>i. i \<in> set (mClients m1) \<Longrightarrow> mValue i \<noteq> None \<and> dPtr i \<noteq> ptr \<and> dPtr i \<noteq> ptr'"
    using refreshed_ok [OF m(1)] m(2) refreshed_clients [of _ env pid m] by (fastforce simp: m1_def)+
  then have cost: "\<forall>i\<in>set (mClients m1). 0 \<le> mCost i" by (simp add: manager_ok_def)
  have own: "\<forall>i\<in>set (mClients m1). mOwnerId i = mOwnerId d \<longrightarrow> \<not> outranks i d"
    using refreshed_owner [OF env(1,2), of _ ptr cid None cost conf] priority_eq_less(1)
    by (fastforce simp: m1_def d_def makeClientDescriptor_def)
  show ?thesis
  proof (cases "turned_away (mMaxCost m1) d (mClients m1)")
    case True
    then have "wouldEvict m1 (Some d) = [Some d]" using wouldEvict_cases [OF cost refl, of d] by simp
    then show ?thesis by (simp add: known same_ptr_def)
  next
    case acc: False
    obtain E where E: "wouldEvict m1 (Some d) = map Some E" "subseq E (mClients m1)"
      using eviction_policy_accept [OF cost acc] by auto
    have inE: "mValue e \<noteq> None" if "e \<in> set E" for e using m1(2) list_emb_set [OF E(2) that] by auto
    have sc: "same_claim d' d"
      by (simp add: same_claim_def d'_def d_def makeClientDescriptor_from_def makeClientDescriptor_def priority_eq_def)
    have fin: "finishConnectLocked env client ptr' d (m1\<lparr>mClients := relocked win\<rparr>) = Some ((tell [onClientAdded d'] (m1\<lparr>mClients := relocked win\<rparr>))\<lparr>mClients := relocked win @ [d']\<rparr>)"
      if "wait_all (map Some E) (waits win) = Some OK"
    proof -
      have "wouldEvictLocked (m1\<lparr>mClients := relocked win\<rparr>) (Some d') False = []"
        using accepted_after_evictions [OF cost acc E(1) own _ _ sc] relocked_clients [OF win [folded m1_def] that] by blast
      then show ?thesis by (simp add: finishConnectLocked_def addAndEvict_def d'_def [symmetric] Let_def)
    qed
    have "\<not> (\<exists>x\<in>set (map Some E). mValue (the x) = None)" using inE by auto
    note k = known [unfolded E(1) if_not_P [OF this]]
    show ?thesis using fin by (auto simp: k d'_def split: option.splits if_splits)
  qed
qed

text \<open>
  When the wait for an evicted client fails or times out, \<open>handleEvictionsLocked\<close> returns the
  error without having taken the service lock again. The lock guard of its caller then unlocks
  and signals without owning the lock. On every other return the lock is held.
\<close>

theorem failed_wait_returns_unlocked:
  "(\<exists>st c d m'. handleEvictionsLocked env cid pid api1 remote ptr win m = Returned st False c d m') \<longleftrightarrow>
   (\<exists>infos cost conf state score ev ret.
      (api1 \<longrightarrow> reusable_client env cid remote m = None)
      \<and> getProcessStatesScoresFromPids env (getAllOwners m @ [pid]) = (OK, infos)
      \<and> cameraStates env cid = Some (cost, conf) \<and> last infos = (state, score)
      \<and> ev = wouldEvict (refreshed env pid m) (Some (makeClientDescriptor env ptr cid None cost conf score pid state))
      \<and> (\<forall>x\<in>set ev. map_option dPtr x \<noteq> Some ptr \<and> mValue (the x) \<noteq> None)
      \<and> wait_all ev (waits win) = Some ret \<and> ret \<noteq> OK)"
  by (auto simp: handleEvictionsLocked_def refreshed_def Let_def same_ptr_def makeClientDescriptor_def
      split: option.splits prod.splits if_splits)

section \<open>A front and a back camera\<close>

definition demo_client :: "nat \<Rightarrow> string \<Rightarrow> int \<Rightarrow> int \<Rightarrow> camera_descriptor" where
  "demo_client ptr key owner score =
     \<lparr>dPtr = ptr, mKey = key, mValue = Some ptr, mCost = 50, mConflicting = [],
      mPriority = \<lparr>priScore = score, priState = 0, mIsVendorClient = False\<rparr>, mOwnerId = owner\<rparr>"

abbreviation back_client :: camera_descriptor where
  "back_client \<equiv> demo_client 5 ''0'' 10 5"

abbreviation front_client :: camera_descriptor where
  "front_client \<equiv> demo_client 2 ''1'' 20 3"

abbreviation new_back_client :: camera_descriptor where
  "new_back_client \<equiv> demo_client 3 ''0'' 30 4"

definition demo_manager :: camera_manager where
  "demo_manager = \<lparr>mMaxCost = 100, mClients = [back_client, front_client], hasListener = True, listenerCalls = []\<rparr>"

lemma demo_manager_fields [simp]:
  "mMaxCost demo_manager = 100" "mClients demo_manager = [back_client, front_client]" "hasListener demo_manager"
  by (simp_all add: demo_manager_def)

lemmas camera_eval = demo_client_def conflicting_def isConflicting_def priority_less_def priority_eq_def priority_le_def
  highest_owner_def highest_step_def too_costly_def evictable_def

lemma demo_ok: "manager_ok demo_manager"
  by (simp add: manager_ok_def camera_eval)

lemma demo_evicts: "\<not> turned_away 100 new_back_client [back_client, front_client]"
    "wouldEvict demo_manager (Some new_back_client) = map Some [back_client]"
  by (simp_all add: turned_away_def staying_def wouldEvict_def wouldEvictLocked_def getCurrentCostLocked_def camera_eval)


theorem active_clients_compatible_witness:
  "\<exists>m. manager_step\<^sup>*\<^sup>* (new_client_manager 100) m \<and> mClients m = [back_client, front_client] \<and> mKey (mClients m ! 0) \<noteq> mKey (mClients m ! 1)"
proof -
  define m1 :: camera_manager where "m1 = (new_client_manager 100)\<lparr>mClients := [back_client]\<rparr>"
  define m2 :: camera_manager where "m2 = (new_client_manager 100)\<lparr>mClients := [back_client, front_client]\<rparr>"
  have "addAndEvict (new_client_manager 100) (Some back_client) = Some ([], m1)" "addAndEvict m1 (Some front_client) = Some ([], m2)"
    by (simp_all add: addAndEvict_def wouldEvictLocked_def getCurrentCostLocked_def new_client_manager_def camera_eval m1_def m2_def tell_def)
  then have "manager_step (new_client_manager 100) m1" "manager_step m1 m2"
    by (auto intro!: manager_step.add simp: new_client_manager_def m1_def demo_client_def)
  then have "manager_step\<^sup>*\<^sup>* (new_client_manager 100) m2" by (meson converse_rtranclp_into_rtranclp rtranclp.rtrancl_refl)
  moreover have "mClients m2 = [back_client, front_client]" by (simp add: m2_def)
  ultimately show ?thesis using active_clients_compatible [of 100 m2 0 1] by auto
qed

theorem addAndEvict_reads_past_end_witness:
  "addAndEvict demo_manager (Some new_back_client) = None"
proof -
  have "\<forall>i\<in>set (mClients demo_manager). dPtr i \<noteq> dPtr new_back_client" by (simp add: demo_client_def)
  then show ?thesis using addAndEvict_reads_past_end [OF demo_ok _ _ demo_evicts(2)] demo_evicts(1)
    by (simp add: demo_client_def)
qed

definition demo_camera_env :: camera_env where
  "demo_camera_env =
     \<lparr>getProcessStatesScoresFromPids = (\<lambda>pids. (OK, map (\<lambda>p. (0, if p = 10 then 5 else if p = 20 then 3 else 4)) pids)),
      cameraStates = (\<lambda>c. if c = ''0'' then Some (50, []) else None), cameraStatus = (\<lambda>c. Some PRESENT), isServingCall = False,
      canCastToApiClient = (\<lambda>c. True), getRemote = (\<lambda>c. c)\<rparr>"

lemma demo_refreshed: "refreshed demo_camera_env 30 demo_manager = demo_manager"
  by (simp add: refreshed_def updatePriorities_def owner_priorities_def getAllOwners_def sorted_list_of_set_sort_remdups
      demo_camera_env_def demo_manager_def demo_client_def setPriority_def setScore_def setState_def Let_def)

lemma demo_answers: "answers_per_process demo_camera_env (\<lambda>p. (0, if p = 10 then 5 else if p = 20 then 3 else 4))"
  by (simp add: answers_per_process_def demo_camera_env_def)

theorem cleared_connection_never_aborts_witness:
  "\<exists>d m' m''. handleEvictionsLocked demo_camera_env ''0'' 30 False 0 3 \<lparr>waits = [([front_client], [])], relocked = [front_client]\<rparr> demo_manager
        = Returned OK True None (Some d) m'
     \<and> finishConnectLocked demo_camera_env 7 4 d m' = Some m'' \<and> mClients m'' = [front_client, demo_client 4 ''0'' 30 4\<lparr>mValue := Some 7\<rparr>]"
proof -
  let ?win = "\<lparr>waits = [([front_client], [])], relocked = [front_client]\<rparr>"
  let ?d = "new_back_client\<lparr>mValue := None\<rparr>"
  have d: "makeClientDescriptor demo_camera_env 3 ''0'' None 50 [] 4 30 0 = ?d"
    "makeClientDescriptor_from demo_camera_env 4 (Some 7) ?d = demo_client 4 ''0'' 30 4\<lparr>mValue := Some 7\<rparr>"
    by (simp_all add: makeClientDescriptor_from_def makeClientDescriptor_def demo_camera_env_def demo_client_def)
  have ev: "wouldEvict demo_manager (Some ?d) = [Some back_client]"
    by (simp add: wouldEvict_def wouldEvictLocked_def getCurrentCostLocked_def camera_eval)
  have st: "cameraStates demo_camera_env ''0'' = Some (50, [])" "checkIfDeviceIsUsable demo_camera_env ''0'' = OK"
    by (simp_all add: demo_camera_env_def checkIfDeviceIsUsable_def)
  have pt: "\<not> same_ptr (Some back_client) (Some ?d)" "mValue back_client \<noteq> None" "\<not> same_ptr (Some front_client) (Some back_client)"
    by (simp_all add: same_ptr_def demo_client_def)
  have h: "handleEvictionsLocked demo_camera_env ''0'' 30 False 0 3 ?win demo_manager
      = Returned OK True None (Some ?d) (demo_manager\<lparr>mClients := [front_client]\<rparr>)"
    using handleEvictions_known [OF demo_answers st(1) _ refl refl, of False 0 demo_manager 30 3 ?win]
    by (simp add: demo_refreshed d(1) ev st(2) pt)
  have "only_removals (mClients (refreshed demo_camera_env 30 demo_manager)) ?win"
    by (simp add: demo_refreshed only_removals_def snapshots_def)
  moreover have "vendors_ok demo_camera_env 30 demo_manager" by (simp add: vendors_ok_def demo_client_def)
  moreover have "\<forall>i\<in>set (mClients demo_manager). mValue i \<noteq> None \<and> dPtr i \<noteq> 3 \<and> dPtr i \<noteq> 4" by (simp add: demo_client_def)
  moreover have "\<forall>cost conf. cameraStates demo_camera_env ''0'' = Some (cost, conf) \<longrightarrow> 0 \<le> cost" by (simp add: demo_camera_env_def)
  ultimately show ?thesis
    using cleared_connection_never_aborts [OF demo_ok _ demo_answers, of 3 4 30 "''0''" ?win False 0 7] h d(2) by auto
qed

theorem failed_wait_returns_unlocked_witness:
  "\<exists>st c d m'. handleEvictionsLocked demo_camera_env ''0'' 30 False 0 3
      \<lparr>waits = [([back_client, front_client], [(TIMED_OUT, [back_client, front_client])])], relocked = []\<rparr> demo_manager = Returned st False c d m'"
proof -
  have "wouldEvict demo_manager (Some (makeClientDescriptor demo_camera_env 3 ''0'' None 50 [] 4 30 0)) = [Some back_client]"
    by (simp add: makeClientDescriptor_def demo_camera_env_def wouldEvict_def wouldEvictLocked_def getCurrentCostLocked_def camera_eval)
  then show ?thesis
    unfolding failed_wait_returns_unlocked demo_refreshed
    by (simp add: demo_camera_env_def same_ptr_def demo_client_def)
qed

end
