(* ===== verification/Buffer_Pool.thy ===== *)
theory Buffer_Pool
  imports Media_Prelude
begin

text \<open>
  The buffer pool of the codec processes: \<open>media/bufferpool/2.0/AccessorImpl.cpp\<close> with the helpers of
  \<open>BufferStatus.cpp\<close>. The pool hands buffers to connections, follows their transfers by the status
  messages that clients post, recycles buffers that nobody uses, and invalidates ranges of them.
  A standard map is a map, a standard set a set that is walked in ascending order. \<open>None\<close> is the
  use of an iterator that points to no element.
\<close>

section \<open>Data\<close>

type_synonym buffer_id = u32
type_synonym transaction_id = u64
type_synonym connection_id = int

datatype result_status = RS_OK | NO_MEMORY | CRITICAL_ERROR

datatype buffer_status =
    NOT_USED | USED | TRANSFER_TO | TRANSFER_FROM | TRANSFER_TIMEOUT | TRANSFER_LOST
  | TRANSFER_FETCH | TRANSFER_OK | TRANSFER_ERROR | INVALIDATION_ACK

record buffer_status_message =
  transactionId :: transaction_id
  bufferId :: buffer_id
  newStatus :: buffer_status
  connectionId :: connection_id
  targetConnectionId :: connection_id

text \<open>An allocation is represented by its handle.\<close>

record internal_buffer =
  ibId :: buffer_id
  mOwnerCount :: nat
  mTransactionCount :: nat
  mAllocation :: nat
  mAllocSize :: u64
  mConfig :: "u8 list"
  mInvalidated :: bool

definition new_buffer :: "buffer_id \<Rightarrow> nat \<Rightarrow> u64 \<Rightarrow> u8 list \<Rightarrow> internal_buffer" where
  "new_buffer i alloc allocSize allocConfig =
     \<lparr>ibId = i, mOwnerCount = 0, mTransactionCount = 0, mAllocation = alloc, mAllocSize = allocSize,
      mConfig = allocConfig, mInvalidated = False\<rparr>"

record transaction_status =
  tsId :: transaction_id
  mBufferId :: buffer_id
  mSender :: connection_id
  mReceiver :: connection_id
  mStatus :: buffer_status
  tsTimestampUs :: int
  mSenderValidated :: bool

definition new_transaction :: "buffer_status_message \<Rightarrow> int \<Rightarrow> transaction_status" where
  "new_transaction message timestampUs =
     (if newStatus message = TRANSFER_TO
      then \<lparr>tsId = transactionId message, mBufferId = bufferId message, mSender = connectionId message,
            mReceiver = targetConnectionId message, mStatus = newStatus message, tsTimestampUs = timestampUs,
            mSenderValidated = True\<rparr>
      else \<lparr>tsId = transactionId message, mBufferId = bufferId message, mSender = - 1,
            mReceiver = connectionId message, mStatus = newStatus message, tsTimestampUs = timestampUs,
            mSenderValidated = False\<rparr>)"

text \<open>Maps of sets; \<open>erase\<close> drops a key with its last value.\<close>

definition ms_insert :: "('k \<rightharpoonup> 'v set) \<Rightarrow> 'k \<Rightarrow> 'v \<Rightarrow> bool \<times> ('k \<rightharpoonup> 'v set)" where
  "ms_insert m k v =
     (case m k of
        None \<Rightarrow> (True, m(k \<mapsto> {v}))
      | Some S \<Rightarrow> if v \<notin> S then (True, m(k \<mapsto> insert v S)) else (False, m))"

definition ms_erase :: "('k \<rightharpoonup> 'v set) \<Rightarrow> 'k \<Rightarrow> 'v \<Rightarrow> bool \<times> ('k \<rightharpoonup> 'v set)" where
  "ms_erase m k v =
     (case m k of
        None \<Rightarrow> (False, m)
      | Some S \<Rightarrow> (v \<in> S, if S - {v} = {} then m(k := None) else m(k \<mapsto> S - {v})))"

definition ms_contains :: "('k \<rightharpoonup> 'v set) \<Rightarrow> 'k \<Rightarrow> 'v \<Rightarrow> bool" where
  "ms_contains m k v = (case m k of None \<Rightarrow> False | Some S \<Rightarrow> v \<in> S)"

text \<open>What \<open>--\<close> does to a count of type \<open>size_t\<close>.\<close>

definition size_dec :: "nat \<Rightarrow> nat" where
  "size_dec n = (if n = 0 then 2 ^ 64 - 1 else n - 1)"

definition isMessageLater :: "u32 \<Rightarrow> u32 \<Rightarrow> bool" where
  "isMessageLater curMsgId prevMsgId \<longleftrightarrow> curMsgId \<noteq> prevMsgId \<and> curMsgId - prevMsgId < prevMsgId - curMsgId"

definition isBufferInRange :: "buffer_id \<Rightarrow> buffer_id \<Rightarrow> buffer_id \<Rightarrow> bool" where
  "isBufferInRange from to b = (if from < to then from \<le> b \<and> b < to else from \<le> b \<or> b < to)"

section \<open>Statistics\<close>

record pool_stats =
  mSizeCached :: u64
  mBuffersCached :: u64
  mSizeInUse :: u64
  mBuffersInUse :: u64
  mTotalAllocations :: u64
  mTotalRecycles :: u64
  mTotalTransfers :: u64
  mTotalFetches :: u64

definition new_stats :: pool_stats where
  "new_stats = \<lparr>mSizeCached = 0, mBuffersCached = 0, mSizeInUse = 0, mBuffersInUse = 0,
                mTotalAllocations = 0, mTotalRecycles = 0, mTotalTransfers = 0, mTotalFetches = 0\<rparr>"

definition onBufferAllocated :: "u64 \<Rightarrow> pool_stats \<Rightarrow> pool_stats" where
  "onBufferAllocated allocSize s =
     s\<lparr>mSizeCached := mSizeCached s + allocSize, mBuffersCached := mBuffersCached s + 1,
       mSizeInUse := mSizeInUse s + allocSize, mBuffersInUse := mBuffersInUse s + 1,
       mTotalAllocations := mTotalAllocations s + 1\<rparr>"

definition onBufferEvicted :: "u64 \<Rightarrow> pool_stats \<Rightarrow> pool_stats" where
  "onBufferEvicted allocSize s = s\<lparr>mSizeCached := mSizeCached s - allocSize, mBuffersCached := mBuffersCached s - 1\<rparr>"

definition onBufferRecycled :: "u64 \<Rightarrow> pool_stats \<Rightarrow> pool_stats" where
  "onBufferRecycled allocSize s =
     s\<lparr>mSizeInUse := mSizeInUse s + allocSize, mBuffersInUse := mBuffersInUse s + 1,
       mTotalAllocations := mTotalAllocations s + 1, mTotalRecycles := mTotalRecycles s + 1\<rparr>"

definition onBufferUnused :: "u64 \<Rightarrow> pool_stats \<Rightarrow> pool_stats" where
  "onBufferUnused allocSize s = s\<lparr>mSizeInUse := mSizeInUse s - allocSize, mBuffersInUse := mBuffersInUse s - 1\<rparr>"

definition onBufferSent :: "pool_stats \<Rightarrow> pool_stats" where
  "onBufferSent s = s\<lparr>mTotalTransfers := mTotalTransfers s + 1\<rparr>"

definition onBufferFetched :: "pool_stats \<Rightarrow> pool_stats" where
  "onBufferFetched s = s\<lparr>mTotalFetches := mTotalFetches s + 1\<rparr>"

section \<open>Invalidation\<close>

record pending_invalidation =
  mNeedsAck :: bool
  mFrom :: u32
  mTo :: u32
  mLeft :: nat

record invalidation_message =
  messageId :: u32
  fromBufferId :: u32
  toBufferId :: u32

text \<open>Observers are remote objects, \<open>None\<close> the null pointer.\<close>

record pool_invalidation =
  mPendings :: "pending_invalidation list"
  mAcks :: "connection_id \<rightharpoonup> u32"
  mObservers :: "connection_id \<rightharpoonup> nat option"
  mInvalidationId :: u32
  invId :: u32

definition onConnect :: "connection_id \<Rightarrow> nat option \<Rightarrow> pool_invalidation \<Rightarrow> pool_invalidation" where
  "onConnect conId observer v =
     v\<lparr>mAcks := (mAcks v)(conId \<mapsto> mInvalidationId v),
       mObservers := (if mObservers v conId = None then (mObservers v)(conId \<mapsto> observer) else mObservers v)\<rparr>"

definition onClose :: "connection_id \<Rightarrow> pool_invalidation \<Rightarrow> pool_invalidation" where
  "onClose conId v = v\<lparr>mAcks := (mAcks v)(conId := None), mObservers := (mObservers v)(conId := None)\<rparr>"

definition onAck :: "connection_id \<Rightarrow> u32 \<Rightarrow> pool_invalidation \<Rightarrow> pool_invalidation" where
  "onAck conId msgId v =
     (case mAcks v conId of
        None \<Rightarrow> v
      | Some prev \<Rightarrow> if isMessageLater msgId prev then v\<lparr>mAcks := (mAcks v)(conId \<mapsto> msgId)\<rparr> else v)"

text \<open>The next message id; zero is skipped when the counter wraps.\<close>

definition next_msg_id :: "u32 \<Rightarrow> u32" where
  "next_msg_id n = (if n + 1 = 0 then n + 2 else n + 1)"

text \<open>\<open>isInvalidated\<close> counts the buffer as gone when it is in the range.\<close>

definition isInvalidated :: "buffer_id \<Rightarrow> pending_invalidation \<Rightarrow> bool \<times> pending_invalidation" where
  "isInvalidated b pend =
     (if isBufferInRange (mFrom pend) (mTo pend) b
      then (size_dec (mLeft pend) = 0, pend\<lparr>mLeft := size_dec (mLeft pend)\<rparr>) else (False, pend))"

fun hit_pendings ::
  "buffer_id \<Rightarrow> u32 \<Rightarrow> invalidation_message list \<Rightarrow> pending_invalidation list \<Rightarrow>
   u32 \<times> invalidation_message list \<times> pending_invalidation list" where
  "hit_pendings b invalidationId channel [] = (invalidationId, channel, [])"
| "hit_pendings b invalidationId channel (pend # ps) =
     (case isInvalidated b pend of
        (True, pend) \<Rightarrow>
          (let invalidationId = (if mNeedsAck pend then next_msg_id invalidationId else invalidationId);
               msgId = (if mNeedsAck pend then invalidationId else 0)
           in hit_pendings b invalidationId
                (channel @ [\<lparr>messageId = msgId, fromBufferId = mFrom pend, toBufferId = mTo pend\<rparr>]) ps)
      | (False, pend) \<Rightarrow>
          (let (i, c, ps) = hit_pendings b invalidationId channel ps in (i, c, pend # ps)))"

section \<open>The pool\<close>

text \<open>
  The observer is the set of connections that have a message queue; the channel is the list of
  invalidation messages written to it.
\<close>

record buffer_pool =
  mTimestampUs :: int
  mLastCleanUpUs :: int
  mLastLogUs :: int
  mSeq :: buffer_id
  mStartSeq :: buffer_id
  mValid :: bool
  mBufferStatusQueues :: "connection_id set"
  mInvalidationChannel :: "invalidation_message list"
  mUsingBuffers :: "connection_id \<rightharpoonup> buffer_id set"
  mUsingConnections :: "buffer_id \<rightharpoonup> connection_id set"
  mPendingTransactions :: "connection_id \<rightharpoonup> transaction_id set"
  mCompletedTransactions :: "transaction_id set"
  mTransactions :: "transaction_id \<rightharpoonup> transaction_status"
  mBuffers :: "buffer_id \<rightharpoonup> internal_buffer"
  mFreeBuffers :: "buffer_id set"
  mConnectionIds :: "connection_id set"
  mInvalidation :: pool_invalidation
  mStats :: pool_stats

definition new_pool :: "int \<Rightarrow> bool \<Rightarrow> u32 \<Rightarrow> buffer_pool" where
  "new_pool now channelValid seq =
     \<lparr>mTimestampUs = now, mLastCleanUpUs = now, mLastLogUs = now, mSeq = 0, mStartSeq = 0, mValid = channelValid,
      mBufferStatusQueues = {}, mInvalidationChannel = [], mUsingBuffers = Map.empty, mUsingConnections = Map.empty,
      mPendingTransactions = Map.empty, mCompletedTransactions = {}, mTransactions = Map.empty, mBuffers = Map.empty,
      mFreeBuffers = {}, mConnectionIds = {},
      mInvalidation = \<lparr>mPendings = [], mAcks = Map.empty, mObservers = Map.empty, mInvalidationId = 0, invId = seq\<rparr>,
      mStats = new_stats\<rparr>"

definition stat :: "(pool_stats \<Rightarrow> pool_stats) \<Rightarrow> buffer_pool \<Rightarrow> buffer_pool" where
  "stat f p = p\<lparr>mStats := f (mStats p)\<rparr>"

definition onBufferInvalidated :: "buffer_id \<Rightarrow> buffer_pool \<Rightarrow> buffer_pool" where
  "onBufferInvalidated b p =
     (let (i, c, ps) = hit_pendings b (mInvalidationId (mInvalidation p)) (mInvalidationChannel p) (mPendings (mInvalidation p))
      in p\<lparr>mInvalidationChannel := c, mInvalidation := (mInvalidation p)\<lparr>mInvalidationId := i, mPendings := ps\<rparr>\<rparr>)"

text \<open>
  What is done wherever a count of a buffer has dropped: an unused buffer becomes free, or leaves the
  pool when it was invalidated.
\<close>

definition settle_buffer :: "buffer_id \<Rightarrow> internal_buffer \<Rightarrow> buffer_pool \<Rightarrow> buffer_pool" where
  "settle_buffer b i p =
     (if mOwnerCount i = 0 \<and> mTransactionCount i = 0
      then if \<not> mInvalidated i
           then (stat (onBufferUnused (mAllocSize i)) p)\<lparr>mFreeBuffers := insert b (mFreeBuffers p)\<rparr>
           else onBufferInvalidated b
                  ((stat (onBufferEvicted (mAllocSize i)) (stat (onBufferUnused (mAllocSize i)) p))\<lparr>mBuffers := (mBuffers p)(b := None)\<rparr>)
      else p)"

definition handleOwnBuffer :: "connection_id \<Rightarrow> buffer_id \<Rightarrow> buffer_pool \<Rightarrow> (bool \<times> buffer_pool) option" where
  "handleOwnBuffer conn b p =
     (let (added, ub) = ms_insert (mUsingBuffers p) conn b;
          uc = snd (ms_insert (mUsingConnections p) b conn);
          p = p\<lparr>mUsingBuffers := ub, mUsingConnections := uc\<rparr>
      in if added
         then case mBuffers p b of
                None \<Rightarrow> None
              | Some i \<Rightarrow> Some (True, p\<lparr>mBuffers := (mBuffers p)(b \<mapsto> i\<lparr>mOwnerCount := mOwnerCount i + 1\<rparr>)\<rparr>)
         else Some (False, p))"

definition handleReleaseBuffer :: "connection_id \<Rightarrow> buffer_id \<Rightarrow> buffer_pool \<Rightarrow> (bool \<times> buffer_pool) option" where
  "handleReleaseBuffer conn b p =
     (let (deleted, ub) = ms_erase (mUsingBuffers p) conn b;
          uc = snd (ms_erase (mUsingConnections p) b conn);
          p = p\<lparr>mUsingBuffers := ub, mUsingConnections := uc\<rparr>
      in if deleted
         then case mBuffers p b of
                None \<Rightarrow> None
              | Some i \<Rightarrow>
                  (let i = i\<lparr>mOwnerCount := size_dec (mOwnerCount i)\<rparr>
                   in Some (True, settle_buffer b i (p\<lparr>mBuffers := (mBuffers p)(b \<mapsto> i)\<rparr>)))
         else Some (False, p))"

definition handleTransferTo :: "buffer_status_message \<Rightarrow> buffer_pool \<Rightarrow> bool \<times> buffer_pool" where
  "handleTransferTo message p =
     (let t = transactionId message
      in if t \<in> mCompletedTransactions p then (True, p\<lparr>mCompletedTransactions := mCompletedTransactions p - {t}\<rparr>)
         else case mBuffers p (bufferId message) of
           None \<Rightarrow> (False, p)
         | Some i \<Rightarrow>
             if \<not> ms_contains (mUsingBuffers p) (connectionId message) (bufferId message) then (False, p)
             else case mTransactions p t of
               Some ts \<Rightarrow> (True, p\<lparr>mTransactions := (mTransactions p)(t \<mapsto> ts\<lparr>mSender := connectionId message, mSenderValidated := True\<rparr>)\<rparr>)
             | None \<Rightarrow>
                 if targetConnectionId message \<notin> mConnectionIds p then (False, p)
                 else (True, (stat onBufferSent p)\<lparr>
                        mTransactions := (mTransactions p)(t \<mapsto> new_transaction message (mTimestampUs p)),
                        mPendingTransactions := snd (ms_insert (mPendingTransactions p) (targetConnectionId message) t),
                        mBuffers := (mBuffers p)(bufferId message \<mapsto> i\<lparr>mTransactionCount := mTransactionCount i + 1\<rparr>)\<rparr>))"

definition handleTransferFrom :: "buffer_status_message \<Rightarrow> buffer_pool \<Rightarrow> (bool \<times> buffer_pool) option" where
  "handleTransferFrom message p =
     (let t = transactionId message
      in case mTransactions p t of
           None \<Rightarrow>
             (case mBuffers p (bufferId message) of
                None \<Rightarrow> None
              | Some i \<Rightarrow>
                  Some (True, (stat onBufferSent p)\<lparr>
                    mTransactions := (mTransactions p)(t \<mapsto> new_transaction message (mTimestampUs p)),
                    mPendingTransactions := snd (ms_insert (mPendingTransactions p) (connectionId message) t),
                    mBuffers := (mBuffers p)(bufferId message \<mapsto> i\<lparr>mTransactionCount := mTransactionCount i + 1\<rparr>)\<rparr>))
         | Some ts \<Rightarrow>
             Some (True, if connectionId message = mReceiver ts
                         then p\<lparr>mTransactions := (mTransactions p)(t \<mapsto> ts\<lparr>mStatus := TRANSFER_FROM\<rparr>)\<rparr> else p))"

text \<open>
  The result of a transfer uses the buffer that the message names. When the receiver has the
  buffer already, \<open>handleOwnBuffer\<close> changes nothing.
\<close>

definition handleTransferResult :: "buffer_status_message \<Rightarrow> buffer_pool \<Rightarrow> (bool \<times> buffer_pool) option" where
  "handleTransferResult message p =
     (let t = transactionId message; b = bufferId message
      in case mTransactions p t of
           None \<Rightarrow> Some (False, p)
         | Some ts \<Rightarrow>
             (let (deleted, pt) = ms_erase (mPendingTransactions p) (connectionId message) t;
                  p = p\<lparr>mPendingTransactions := pt\<rparr>
              in if \<not> deleted then Some (False, p)
                 else
                   (let p = (if mSenderValidated ts then p
                             else p\<lparr>mCompletedTransactions := insert t (mCompletedTransactions p)\<rparr>)
                    in case (if newStatus message = TRANSFER_OK then map_option snd (handleOwnBuffer (connectionId message) b p)
                             else Some p) of
                         None \<Rightarrow> None
                       | Some p \<Rightarrow>
                           (case mBuffers p b of
                              None \<Rightarrow> None
                            | Some i \<Rightarrow>
                                (let i = i\<lparr>mTransactionCount := size_dec (mTransactionCount i)\<rparr>;
                                     p = settle_buffer b i (p\<lparr>mBuffers := (mBuffers p)(b \<mapsto> i)\<rparr>)
                                 in Some (True, p\<lparr>mTransactions := (mTransactions p)(t := None)\<rparr>))))))"

definition handle_message :: "buffer_status_message \<Rightarrow> buffer_pool \<Rightarrow> buffer_pool option" where
  "handle_message message p =
     (case newStatus message of
        NOT_USED \<Rightarrow> map_option snd (handleReleaseBuffer (connectionId message) (bufferId message) p)
      | TRANSFER_TO \<Rightarrow> Some (snd (handleTransferTo message p))
      | TRANSFER_FROM \<Rightarrow> map_option snd (handleTransferFrom message p)
      | TRANSFER_OK \<Rightarrow> map_option snd (handleTransferResult message p)
      | TRANSFER_ERROR \<Rightarrow> map_option snd (handleTransferResult message p)
      | INVALIDATION_ACK \<Rightarrow> Some (p\<lparr>mInvalidation := onAck (connectionId message) (bufferId message) (mInvalidation p)\<rparr>)
      | USED \<Rightarrow> Some p
      | TRANSFER_TIMEOUT \<Rightarrow> Some p
      | TRANSFER_LOST \<Rightarrow> Some p
      | TRANSFER_FETCH \<Rightarrow> Some p)"

fun handle_messages :: "buffer_status_message list \<Rightarrow> buffer_pool \<Rightarrow> buffer_pool option" where
  "handle_messages [] p = Some p"
| "handle_messages (m # ms) p = (case handle_message m p of None \<Rightarrow> None | Some p \<Rightarrow> handle_messages ms p)"

text \<open>
  What the queues give up when they are read: for each connection the messages in order, and
  whether every one that was announced could be read; after a failure no other queue is read. The
  connection of a message is that of its queue.
\<close>

record pool_input =
  inpNow :: int
  inpReads :: "connection_id \<Rightarrow> buffer_status_message list \<times> bool"

fun getBufferStatusChanges ::
  "(connection_id \<Rightarrow> buffer_status_message list \<times> bool) \<Rightarrow> connection_id list \<Rightarrow> buffer_status_message list" where
  "getBufferStatusChanges reads [] = []"
| "getBufferStatusChanges reads (c # cs) =
     (let (ms, complete) = reads c
      in map (\<lambda>m. m\<lparr>connectionId := c\<rparr>) ms @ (if complete then getBufferStatusChanges reads cs else []))"

definition processStatusMessages :: "pool_input \<Rightarrow> buffer_pool \<Rightarrow> buffer_pool option" where
  "processStatusMessages inp p =
     handle_messages (getBufferStatusChanges (inpReads inp) (sorted_list_of_set (mBufferStatusQueues p)))
       (p\<lparr>mTimestampUs := inpNow inp\<rparr>)"

text \<open>Closing a connection: its buffers, then the transfers to it.\<close>

fun close_buffers :: "connection_id \<Rightarrow> buffer_id list \<Rightarrow> buffer_pool \<Rightarrow> buffer_pool option" where
  "close_buffers conn [] p = Some p"
| "close_buffers conn (b # bs) p =
     (let (deleted, uc) = ms_erase (mUsingConnections p) b conn;
          p = p\<lparr>mUsingConnections := uc\<rparr>
      in if deleted
         then case mBuffers p b of
                None \<Rightarrow> None
              | Some i \<Rightarrow>
                  (let i = i\<lparr>mOwnerCount := size_dec (mOwnerCount i)\<rparr>
                   in close_buffers conn bs (settle_buffer b i (p\<lparr>mBuffers := (mBuffers p)(b \<mapsto> i)\<rparr>)))
         else close_buffers conn bs p)"

fun close_transactions :: "transaction_id list \<Rightarrow> buffer_pool \<Rightarrow> buffer_pool option" where
  "close_transactions [] p = Some p"
| "close_transactions (t # ts) p =
     (case mTransactions p t of
        None \<Rightarrow> close_transactions ts p
      | Some tr \<Rightarrow>
          (let p = (if mSenderValidated tr then p else p\<lparr>mCompletedTransactions := insert t (mCompletedTransactions p)\<rparr>);
               b = mBufferId tr
           in case mBuffers p b of
                None \<Rightarrow> None
              | Some i \<Rightarrow>
                  (let i = i\<lparr>mTransactionCount := size_dec (mTransactionCount i)\<rparr>;
                       p = settle_buffer b i (p\<lparr>mBuffers := (mBuffers p)(b \<mapsto> i)\<rparr>)
                   in close_transactions ts (p\<lparr>mTransactions := (mTransactions p)(t := None)\<rparr>))))"

definition handleClose :: "connection_id \<Rightarrow> buffer_pool \<Rightarrow> buffer_pool option" where
  "handleClose conn p =
     (case (case mUsingBuffers p conn of
              None \<Rightarrow> Some p
            | Some bs \<Rightarrow> map_option (\<lambda>p. p\<lparr>mUsingBuffers := (mUsingBuffers p)(conn := None)\<rparr>) (close_buffers conn (sorted_list_of_set bs) p)) of
        None \<Rightarrow> None
      | Some p \<Rightarrow>
          (case (case mPendingTransactions p conn of
                   None \<Rightarrow> Some p
                 | Some ts \<Rightarrow> close_transactions (sorted_list_of_set ts) p) of
             None \<Rightarrow> None
           | Some p \<Rightarrow> Some (p\<lparr>mConnectionIds := mConnectionIds p - {conn}\<rparr>)))"

text \<open>
  The first free buffer that the allocator finds compatible. \<open>mBuffers[id]\<close> makes a null entry when
  the id is not there, and the null entry is used.
\<close>

fun find_free :: "(u8 list \<Rightarrow> u8 list \<Rightarrow> bool) \<Rightarrow> u8 list \<Rightarrow> (buffer_id \<rightharpoonup> internal_buffer) \<Rightarrow> buffer_id list \<Rightarrow> buffer_id option option" where
  "find_free compatible params bufs [] = Some None"
| "find_free compatible params bufs (b # bs) =
     (case bufs b of
        None \<Rightarrow> None
      | Some i \<Rightarrow> if compatible params (mConfig i) then Some (Some b) else find_free compatible params bufs bs)"

definition getFreeBuffer ::
  "(u8 list \<Rightarrow> u8 list \<Rightarrow> bool) \<Rightarrow> u8 list \<Rightarrow> buffer_pool \<Rightarrow> ((buffer_id \<times> nat) option \<times> buffer_pool) option" where
  "getFreeBuffer compatible params p =
     (case find_free compatible params (mBuffers p) (sorted_list_of_set (mFreeBuffers p)) of
        None \<Rightarrow> None
      | Some None \<Rightarrow> Some (None, p)
      | Some (Some b) \<Rightarrow>
          (case mBuffers p b of
             None \<Rightarrow> None
           | Some i \<Rightarrow> Some (Some (b, mAllocation i),
               (stat (onBufferRecycled (mAllocSize i)) p)\<lparr>mFreeBuffers := mFreeBuffers p - {b}\<rparr>)))"

definition SYNC_BUFFERID :: buffer_id where
  "SYNC_BUFFERID = 0xFFFFFFFF"

definition addNewBuffer ::
  "nat \<Rightarrow> u64 \<Rightarrow> u8 list \<Rightarrow> buffer_pool \<Rightarrow> result_status \<times> (buffer_id \<times> nat) option \<times> buffer_pool" where
  "addNewBuffer alloc allocSize params p =
     (let b = mSeq p;
          p = p\<lparr>mSeq := (if mSeq p + 1 = SYNC_BUFFERID then 0 else mSeq p + 1)\<rparr>
      in if mBuffers p b = None
         then (RS_OK, Some (b, alloc),
               (stat (onBufferAllocated allocSize) p)\<lparr>mBuffers := (mBuffers p)(b \<mapsto> new_buffer b alloc allocSize params)\<rparr>)
         else (NO_MEMORY, None, p))"

definition kCleanUpDurationUs :: int where
  "kCleanUpDurationUs = 500000"

definition kLogDurationUs :: int where
  "kLogDurationUs = 5000000"

definition kMinAllocBytesForEviction :: u64 where
  "kMinAllocBytesForEviction = 1024 * 1024 * 15"

definition kMinBufferCountForEviction :: nat where
  "kMinBufferCountForEviction = 40"

definition unused :: "buffer_id \<Rightarrow> buffer_pool \<Rightarrow> internal_buffer option" where
  "unused b p =
     (case mBuffers p b of
        None \<Rightarrow> None
      | Some i \<Rightarrow> if mOwnerCount i = 0 \<and> mTransactionCount i = 0 then Some i else None)"

definition evict_free :: "buffer_id \<Rightarrow> internal_buffer \<Rightarrow> buffer_pool \<Rightarrow> buffer_pool" where
  "evict_free b i p =
     (stat (onBufferEvicted (mAllocSize i)) p)\<lparr>mBuffers := (mBuffers p)(b := None), mFreeBuffers := mFreeBuffers p - {b}\<rparr>"

fun cleanUp_loop :: "bool \<Rightarrow> buffer_id list \<Rightarrow> buffer_pool \<Rightarrow> buffer_pool" where
  "cleanUp_loop clearCache [] p = p"
| "cleanUp_loop clearCache (b # bs) p =
     (if \<not> clearCache \<and> mSizeCached (mStats p) < kMinAllocBytesForEviction \<and> card (dom (mBuffers p)) < kMinBufferCountForEviction
      then p
      else case unused b p of
             Some i \<Rightarrow> cleanUp_loop clearCache bs (evict_free b i p)
           | None \<Rightarrow> cleanUp_loop clearCache bs p)"

definition pool_cleanUp :: "bool \<Rightarrow> buffer_pool \<Rightarrow> buffer_pool" where
  "pool_cleanUp clearCache p =
     (if clearCache \<or> mTimestampUs p > mLastCleanUpUs p + kCleanUpDurationUs
      then cleanUp_loop clearCache (sorted_list_of_set (mFreeBuffers p))
             (p\<lparr>mLastCleanUpUs := mTimestampUs p,
                mLastLogUs := (if mTimestampUs p > mLastLogUs p + kLogDurationUs then mTimestampUs p else mLastLogUs p)\<rparr>)
      else p)"

text \<open>The thread that watches for acknowledgements: the pools it has to poll.\<close>

record accessor_invalidator =
  mAccessors :: "u32 set"
  mReady :: bool

definition addAccessor :: "u32 \<Rightarrow> accessor_invalidator \<Rightarrow> accessor_invalidator" where
  "addAccessor i a = (if i \<notin> mAccessors a then a\<lparr>mReady := True, mAccessors := insert i (mAccessors a)\<rparr> else a)"

definition delAccessor :: "u32 \<Rightarrow> accessor_invalidator \<Rightarrow> accessor_invalidator" where
  "delAccessor i a =
     (let a = a\<lparr>mAccessors := mAccessors a - {i}\<rparr> in if mAccessors a = {} then a\<lparr>mReady := False\<rparr> else a)"

definition onInvalidationRequest ::
  "bool \<Rightarrow> u32 \<Rightarrow> u32 \<Rightarrow> nat \<Rightarrow> buffer_pool \<times> accessor_invalidator \<Rightarrow> buffer_pool \<times> accessor_invalidator" where
  "onInvalidationRequest needsAck from to left = (\<lambda>(p, a).
     (let v = mInvalidation p;
          v = (if needsAck then v\<lparr>mInvalidationId := next_msg_id (mInvalidationId v)\<rparr> else v);
          msgId = (if needsAck then mInvalidationId v else 0)
      in (if left = 0
          then p\<lparr>mInvalidation := v, mInvalidationChannel := mInvalidationChannel p @ [\<lparr>messageId = msgId, fromBufferId = from, toBufferId = to\<rparr>]\<rparr>
          else p\<lparr>mInvalidation := v\<lparr>mPendings := mPendings v @ [\<lparr>mNeedsAck = needsAck, mFrom = from, mTo = to, mLeft = left\<rparr>]\<rparr>\<rparr>,
          addAccessor (invId v) a)))"

fun invalidate_free :: "buffer_id \<Rightarrow> buffer_id \<Rightarrow> buffer_id list \<Rightarrow> buffer_pool \<Rightarrow> buffer_pool" where
  "invalidate_free from to [] p = p"
| "invalidate_free from to (b # bs) p =
     (if isBufferInRange from to b
      then case unused b p of
             Some i \<Rightarrow> invalidate_free from to bs (evict_free b i p)
           | None \<Rightarrow> invalidate_free from to bs p
      else invalidate_free from to bs p)"

definition invalidate :: "bool \<Rightarrow> buffer_id \<Rightarrow> buffer_id \<Rightarrow> buffer_pool \<times> accessor_invalidator \<Rightarrow> buffer_pool \<times> accessor_invalidator" where
  "invalidate needsAck from to = (\<lambda>(p, a).
     (let p = invalidate_free from to (sorted_list_of_set (mFreeBuffers p)) p;
          left = card (Set.filter (isBufferInRange from to) (dom (mBuffers p)));
          p = p\<lparr>mBuffers := (\<lambda>b. map_option (\<lambda>i. if isBufferInRange from to b then i\<lparr>mInvalidated := True\<rparr> else i) (mBuffers p b))\<rparr>
      in onInvalidationRequest needsAck from to left (p, a)))"

definition pool_flush :: "buffer_pool \<times> accessor_invalidator \<Rightarrow> buffer_pool \<times> accessor_invalidator" where
  "pool_flush = (\<lambda>(p, a).
     (let from = mStartSeq p; to = mSeq p; p = p\<lparr>mStartSeq := mSeq p\<rparr>
      in if from \<noteq> to then invalidate True from to (p, a) else (p, a)))"

section \<open>The operations of the accessor\<close>

text \<open>\<open>BufferStatusObserver::open\<close> and \<open>close\<close>; whether the queue can be created is an argument.\<close>

definition observer_open :: "bool \<Rightarrow> connection_id \<Rightarrow> buffer_pool \<Rightarrow> result_status \<times> buffer_pool" where
  "observer_open queueValid conn p =
     (if conn \<in> mBufferStatusQueues p then (CRITICAL_ERROR, p)
      else if \<not> queueValid then (NO_MEMORY, p)
      else (RS_OK, p\<lparr>mBufferStatusQueues := insert conn (mBufferStatusQueues p)\<rparr>))"

definition observer_close :: "connection_id \<Rightarrow> buffer_pool \<Rightarrow> result_status \<times> buffer_pool" where
  "observer_close conn p =
     (if conn \<notin> mBufferStatusQueues p then (CRITICAL_ERROR, p)
      else (RS_OK, p\<lparr>mBufferStatusQueues := mBufferStatusQueues p - {conn}\<rparr>))"

text \<open>The id of a connection has the process in the upper and a running number in the lower half.\<close>

definition connection_id_of :: "int \<Rightarrow> u32 \<Rightarrow> connection_id" where
  "connection_id_of sPid sSeqId = sPid * 2 ^ 32 + uint sSeqId"

definition register_connection :: "nat option \<Rightarrow> bool \<Rightarrow> connection_id \<Rightarrow> buffer_pool \<Rightarrow> result_status \<times> buffer_pool" where
  "register_connection observer queueValid i p =
     (let (status, p) = observer_open queueValid i p
      in (status, if status = RS_OK
                  then p\<lparr>mConnectionIds := insert i (mConnectionIds p), mInvalidation := onConnect i observer (mInvalidation p)\<rparr>
                  else p))"

definition connect ::
  "int \<Rightarrow> nat option \<Rightarrow> bool \<Rightarrow> pool_input \<Rightarrow> u32 \<times> buffer_pool \<Rightarrow>
   (result_status \<times> (connection_id \<times> u32) option \<times> u32 \<times> buffer_pool) option" where
  "connect sPid observer queueValid inp = (\<lambda>(sSeqId, p).
     (let i = connection_id_of sPid sSeqId; (status, p) = register_connection observer queueValid i p;
          msgId = mInvalidationId (mInvalidation p)
      in case processStatusMessages inp p of
           None \<Rightarrow> None
         | Some p \<Rightarrow> Some (status, if status = RS_OK then Some (i, msgId) else None,
                           if status = RS_OK then sSeqId + 1 else sSeqId, pool_cleanUp False p)))"

definition close :: "connection_id \<Rightarrow> pool_input \<Rightarrow> buffer_pool \<Rightarrow> (result_status \<times> buffer_pool) option" where
  "close conn inp p =
     (case processStatusMessages inp p of
        None \<Rightarrow> None
      | Some p \<Rightarrow>
          (case handleClose conn p of
             None \<Rightarrow> None
           | Some p \<Rightarrow>
               (let p = snd (observer_close conn p);
                    p = p\<lparr>mInvalidation := onClose conn (mInvalidation p)\<rparr>
                in Some (RS_OK, pool_cleanUp True p))))"

text \<open>
  \<open>allocate\<close> releases the lock while the allocator works: first the attempt to recycle, which
  succeeds or leaves the allocation to the allocator, then the rest with the allocator's answer.
\<close>

definition own_allocated :: "connection_id \<Rightarrow> buffer_id \<Rightarrow> buffer_pool \<Rightarrow> buffer_pool option" where
  "own_allocated conn b p = map_option (\<lambda>r. pool_cleanUp False (snd r)) (handleOwnBuffer conn b p)"

definition allocate_recycle ::
  "(u8 list \<Rightarrow> u8 list \<Rightarrow> bool) \<Rightarrow> connection_id \<Rightarrow> u8 list \<Rightarrow> pool_input \<Rightarrow> buffer_pool \<Rightarrow> ((buffer_id \<times> nat) option \<times> buffer_pool) option" where
  "allocate_recycle compatible conn params inp p =
     (case processStatusMessages inp p of
        None \<Rightarrow> None
      | Some p \<Rightarrow>
          (case getFreeBuffer compatible params p of
             None \<Rightarrow> None
           | Some (None, p) \<Rightarrow> Some (None, p)
           | Some (Some (b, handle), p) \<Rightarrow> map_option (Pair (Some (b, handle))) (own_allocated conn b p)))"

definition allocate_new ::
  "connection_id \<Rightarrow> u8 list \<Rightarrow> result_status \<times> nat \<times> u64 \<Rightarrow> buffer_pool \<Rightarrow> (result_status \<times> (buffer_id \<times> nat) option \<times> buffer_pool) option" where
  "allocate_new conn params = (\<lambda>(status, alloc, allocSize) p.
     (if status \<noteq> RS_OK then Some (status, None, pool_cleanUp False p)
      else case addNewBuffer alloc allocSize params p of
             (status, Some (b, handle), p) \<Rightarrow> map_option (\<lambda>p. (status, Some (b, handle), p)) (own_allocated conn b p)
           | (status, None, p) \<Rightarrow> Some (status, None, pool_cleanUp False p)))"

definition fetch ::
  "connection_id \<Rightarrow> transaction_id \<Rightarrow> buffer_id \<Rightarrow> pool_input \<Rightarrow> buffer_pool \<Rightarrow> (result_status \<times> nat option \<times> buffer_pool) option" where
  "fetch conn t b inp p =
     (case processStatusMessages inp p of
        None \<Rightarrow> None
      | Some p \<Rightarrow>
          (case mTransactions p t of
             Some ts \<Rightarrow>
               if ms_contains (mPendingTransactions p) conn t \<and> mSenderValidated ts \<and> mStatus ts = TRANSFER_FROM \<and> mBufferId ts = b
               then (let p = p\<lparr>mTransactions := (mTransactions p)(t \<mapsto> ts\<lparr>mStatus := TRANSFER_FETCH\<rparr>)\<rparr>
                     in case mBuffers p b of
                          Some i \<Rightarrow> Some (RS_OK, Some (mAllocation i), stat onBufferFetched p)
                        | None \<Rightarrow> Some (CRITICAL_ERROR, None, pool_cleanUp False p))
               else Some (CRITICAL_ERROR, None, pool_cleanUp False p)
           | None \<Rightarrow> Some (CRITICAL_ERROR, None, pool_cleanUp False p)))"

definition cleanUp :: "bool \<Rightarrow> pool_input \<Rightarrow> buffer_pool \<Rightarrow> buffer_pool option" where
  "cleanUp clearCache inp p = map_option (pool_cleanUp clearCache) (processStatusMessages inp p)"

definition flush :: "pool_input \<Rightarrow> buffer_pool \<times> accessor_invalidator \<Rightarrow> (buffer_pool \<times> accessor_invalidator) option" where
  "flush inp = (\<lambda>(p, a). map_option (\<lambda>p. pool_flush (p, a)) (processStatusMessages inp p))"

text \<open>
  Acknowledgements. The connections whose observer is gone are collected as values of type \<open>int\<close>,
  and closed under these numbers.
\<close>

fun ack_loop ::
  "connection_id list \<Rightarrow> pool_invalidation \<Rightarrow> (connection_id \<times> nat) list \<Rightarrow> int set \<Rightarrow> pool_invalidation \<times> (connection_id \<times> nat) list \<times> int set" where
  "ack_loop [] v observers deads = (v, observers, deads)"
| "ack_loop (c # cs) v observers deads =
     (if mAcks v c \<noteq> Some (mInvalidationId v)
      then case mObservers v c of
             Some (Some observer) \<Rightarrow>
               ack_loop cs (v\<lparr>mAcks := (mAcks v)(c \<mapsto> mInvalidationId v)\<rparr>) (observers @ [(c, observer)]) deads
           | _ \<Rightarrow> ack_loop cs (v\<lparr>mObservers := (mObservers v)(c \<mapsto> None)\<rparr>) observers (insert (wrap_i32 c) deads)
      else ack_loop cs v observers deads)"

definition onHandleAck ::
  "pool_invalidation \<times> accessor_invalidator \<Rightarrow> ((connection_id \<times> nat) list \<times> u32) \<times> pool_invalidation \<times> accessor_invalidator" where
  "onHandleAck = (\<lambda>(v, a).
     (let (v', observers, deads) =
            (if mInvalidationId v \<noteq> 0 then ack_loop (sorted_list_of_set (dom (mAcks v))) v [] {} else (v, [], {}));
          v' = foldl (\<lambda>v c. onClose c v) v' (sorted_list_of_set deads)
      in ((observers, mInvalidationId v), v', if mPendings v' = [] then delAccessor (invId v') a else a)))"

text \<open>\<open>handleInvalidateAck\<close> sends the current invalidation id to the observers it returns.\<close>

definition handleInvalidateAck ::
  "pool_input \<Rightarrow> buffer_pool \<times> accessor_invalidator \<Rightarrow> (((connection_id \<times> nat) list \<times> u32) \<times> buffer_pool \<times> accessor_invalidator) option" where
  "handleInvalidateAck inp = (\<lambda>(p, a).
     map_option (\<lambda>p. let (r, v, a) = onHandleAck (mInvalidation p, a) in (r, p\<lparr>mInvalidation := v\<rparr>, a)) (processStatusMessages inp p))"

text \<open>
  A round of the polling thread: the pools that still exist handle their acknowledgements, the
  others are taken off the list; the thread stops when the list is empty and sleeps longer and
  longer while it is not. The list is copied at the start of the round.
\<close>

fun poll_pools ::
  "(u32 \<Rightarrow> pool_input) \<Rightarrow> u32 list \<Rightarrow> (u32 \<rightharpoonup> buffer_pool) \<times> accessor_invalidator \<Rightarrow> u32 set \<Rightarrow>
   ((u32 \<rightharpoonup> buffer_pool) \<times> accessor_invalidator \<times> u32 set) option" where
  "poll_pools inps [] (pools, a) erased = Some (pools, a, erased)"
| "poll_pools inps (i # is) (pools, a) erased =
     (case pools i of
        None \<Rightarrow> poll_pools inps is (pools, a) (insert i erased)
      | Some p \<Rightarrow>
          (case handleInvalidateAck (inps i) (p, a) of
             None \<Rightarrow> None
           | Some (r, p, a) \<Rightarrow> poll_pools inps is (pools(i \<mapsto> p), a) erased))"

definition invalidator_round ::
  "(u32 \<Rightarrow> pool_input) \<Rightarrow> (u32 \<rightharpoonup> buffer_pool) \<times> accessor_invalidator \<Rightarrow> u32 \<times> nat \<Rightarrow>
   ((u32 \<rightharpoonup> buffer_pool) \<times> accessor_invalidator \<times> u32 \<times> nat) option" where
  "invalidator_round inps = (\<lambda>(pools, a) (numSpin, sleepUs).
     (let (numSpin, sleepUs) = (if mReady a then (numSpin, sleepUs) else (0, 1))
      in case poll_pools inps (sorted_list_of_set (mAccessors a)) (pools, a) {} of
           None \<Rightarrow> None
         | Some (pools, a, erased) \<Rightarrow>
             (let a = a\<lparr>mAccessors := mAccessors a - erased\<rparr>
              in if mAccessors a = {} then Some (pools, a\<lparr>mReady := False\<rparr>, numSpin, sleepUs)
                 else Some (pools, a, numSpin + 1, if (numSpin + 1) mod 1024 = 0 \<and> sleepUs < 10000 then sleepUs * 10 else sleepUs))))"

end
