(* ===== verification/Pool_Ownership.thy ===== *)
theory Pool_Ownership
  imports Buffer_Pool
begin

text \<open>
  Who uses the buffers of the pool. The counts of a buffer are compared with the connections that
  own it and the transfers that are under way; a buffer is free exactly when nobody uses it. The
  invariant is kept by every operation, provided that the messages of the clients are credible.
\<close>

section \<open>Maps of sets as relations\<close>

definition ms_rel :: "('k \<rightharpoonup> 'v set) \<Rightarrow> ('k \<times> 'v) set" where
  "ms_rel m = {(k, v). ms_contains m k v}"

lemma ms_contains_rel: "ms_contains m k v \<longleftrightarrow> (k, v) \<in> ms_rel m"
  by (simp add: ms_rel_def)

lemma ms_rel_empty [simp]: "ms_rel Map.empty = {}"
  by (simp add: ms_rel_def ms_contains_def)

lemma ms_insert_rel [simp]: "ms_rel (snd (ms_insert m k v)) = insert (k, v) (ms_rel m)"
  by (auto simp: ms_rel_def ms_contains_def ms_insert_def split: option.splits if_splits)

lemma ms_insert_fst [simp]: "fst (ms_insert m k v) \<longleftrightarrow> (k, v) \<notin> ms_rel m"
  by (auto simp: ms_rel_def ms_contains_def ms_insert_def split: option.splits)

lemma ms_erase_rel [simp]: "ms_rel (snd (ms_erase m k v)) = ms_rel m - {(k, v)}"
  by (auto simp: ms_rel_def ms_contains_def ms_erase_def split: option.splits if_splits dest: subsetD)

lemma ms_erase_fst [simp]: "fst (ms_erase m k v) \<longleftrightarrow> (k, v) \<in> ms_rel m"
  by (auto simp: ms_rel_def ms_contains_def ms_erase_def split: option.splits)

lemma ms_rel_at: "m k = Some S \<Longrightarrow> S = ms_rel m `` {k}"
  by (auto simp: ms_rel_def ms_contains_def)

lemma ms_rel_at_None: "m k = None \<Longrightarrow> (k, v) \<notin> ms_rel m"
  by (auto simp: ms_rel_def ms_contains_def)

lemma ms_rel_drop [simp]: "ms_rel (m(k := None)) = ms_rel m - {k} \<times> UNIV"
  by (auto simp: ms_rel_def ms_contains_def split: if_splits)

section \<open>The invariant\<close>

text \<open>The connections that own a buffer and the transfers of it.\<close>

definition owners :: "buffer_id \<Rightarrow> buffer_pool \<Rightarrow> connection_id set" where
  "owners b p = ms_rel (mUsingConnections p) `` {b}"

definition transfers :: "buffer_id \<Rightarrow> buffer_pool \<Rightarrow> transaction_id set" where
  "transfers b p = {t. \<exists>ts. mTransactions p t = Some ts \<and> mBufferId ts = b}"

definition counts_ok :: "buffer_pool \<Rightarrow> bool" where
  "counts_ok p \<longleftrightarrow>
     finite (ms_rel (mUsingConnections p)) \<and> finite (ms_rel (mPendingTransactions p))
     \<and> finite (dom (mTransactions p)) \<and> finite (dom (mBuffers p)) \<and> finite (mBufferStatusQueues p)
     \<and> (\<forall>b. owners b p \<noteq> {} \<longrightarrow> b \<in> dom (mBuffers p))
     \<and> (\<forall>t ts. mTransactions p t = Some ts \<longrightarrow> mBufferId ts \<in> dom (mBuffers p) \<and> (mReceiver ts, t) \<in> ms_rel (mPendingTransactions p))
     \<and> (\<forall>c t ts. (c, t) \<in> ms_rel (mPendingTransactions p) \<and> mTransactions p t = Some ts \<longrightarrow> mReceiver ts = c)
     \<and> (\<forall>b i. mBuffers p b = Some i \<longrightarrow> mOwnerCount i = card (owners b p) \<and> mTransactionCount i = card (transfers b p))"

definition users_ok :: "buffer_pool \<Rightarrow> bool" where
  "users_ok p \<longleftrightarrow> ms_rel (mUsingBuffers p) = (ms_rel (mUsingConnections p))\<inverse>"

text \<open>A buffer that an operation holds for the moment is not free, used or not.\<close>

definition free_ok :: "buffer_id set \<Rightarrow> buffer_pool \<Rightarrow> bool" where
  "free_ok held p \<longleftrightarrow>
     (\<forall>b. b \<in> mFreeBuffers p \<longleftrightarrow> b \<notin> held \<and> (\<exists>i. mBuffers p b = Some i \<and> mOwnerCount i = 0 \<and> mTransactionCount i = 0))
     \<and> (\<forall>b\<in>mFreeBuffers p. \<forall>i. mBuffers p b = Some i \<longrightarrow> \<not> mInvalidated i)"

definition alloc_size :: "(buffer_id \<rightharpoonup> internal_buffer) \<Rightarrow> buffer_id \<Rightarrow> u64" where
  "alloc_size bufs b = (case bufs b of None \<Rightarrow> 0 | Some i \<Rightarrow> mAllocSize i)"

definition stats_ok :: "buffer_pool \<Rightarrow> bool" where
  "stats_ok p \<longleftrightarrow>
     mBuffersCached (mStats p) = of_nat (card (dom (mBuffers p)))
     \<and> mSizeCached (mStats p) = (\<Sum>b\<in>dom (mBuffers p). alloc_size (mBuffers p) b)
     \<and> mBuffersInUse (mStats p) = of_nat (card (dom (mBuffers p) - mFreeBuffers p))
     \<and> mSizeInUse (mStats p) = (\<Sum>b\<in>dom (mBuffers p) - mFreeBuffers p. alloc_size (mBuffers p) b)"

definition core_ok :: "buffer_id set \<Rightarrow> buffer_pool \<Rightarrow> bool" where
  "core_ok held p \<longleftrightarrow> counts_ok p \<and> free_ok held p \<and> stats_ok p"

definition pool_ok_but :: "buffer_id set \<Rightarrow> buffer_pool \<Rightarrow> bool" where
  "pool_ok_but held p \<longleftrightarrow> core_ok held p \<and> users_ok p"

abbreviation pool_ok :: "buffer_pool \<Rightarrow> bool" where
  "pool_ok p \<equiv> pool_ok_but {} p"

lemma new_pool_ok: "pool_ok (new_pool now v s)"
  by (simp add: pool_ok_but_def core_ok_def counts_ok_def users_ok_def free_ok_def stats_ok_def new_pool_def new_stats_def
      owners_def transfers_def)

lemma size_dec_card: "finite S \<Longrightarrow> x \<in> S \<Longrightarrow> size_dec (card S) = card (S - {x})"
  by (auto simp: size_dec_def card_gt_0_iff)

lemma finite_owners: "counts_ok p \<Longrightarrow> finite (owners b p)"
  by (simp add: counts_ok_def owners_def finite_Image)

lemma finite_transfers: "counts_ok p \<Longrightarrow> finite (transfers b p)"
  by (rule finite_subset [of _ "dom (mTransactions p)"]) (auto simp: counts_ok_def transfers_def)

lemma finite_pending: "counts_ok p \<Longrightarrow> finite (ms_rel (mPendingTransactions p) `` {c})"
  by (simp add: counts_ok_def finite_Image)

text \<open>Fields that the counting does not look at.\<close>

lemma stat_fields [simp]:
  "mBuffers (stat f p) = mBuffers p" "mFreeBuffers (stat f p) = mFreeBuffers p" "mUsingBuffers (stat f p) = mUsingBuffers p"
  "mUsingConnections (stat f p) = mUsingConnections p" "mPendingTransactions (stat f p) = mPendingTransactions p"
  "mTransactions (stat f p) = mTransactions p" "mStats (stat f p) = f (mStats p)"
  "mCompletedTransactions (stat f p) = mCompletedTransactions p" "mConnectionIds (stat f p) = mConnectionIds p"
  "mInvalidation (stat f p) = mInvalidation p" "mInvalidationChannel (stat f p) = mInvalidationChannel p"
  "mSeq (stat f p) = mSeq p" "mStartSeq (stat f p) = mStartSeq p" "mTimestampUs (stat f p) = mTimestampUs p"
  "mBufferStatusQueues (stat f p) = mBufferStatusQueues p"
  by (simp_all add: stat_def)

lemma onBufferInvalidated_fields [simp]:
  "mBuffers (onBufferInvalidated b p) = mBuffers p" "mFreeBuffers (onBufferInvalidated b p) = mFreeBuffers p"
  "mUsingBuffers (onBufferInvalidated b p) = mUsingBuffers p" "mUsingConnections (onBufferInvalidated b p) = mUsingConnections p"
  "mPendingTransactions (onBufferInvalidated b p) = mPendingTransactions p" "mTransactions (onBufferInvalidated b p) = mTransactions p"
  "mStats (onBufferInvalidated b p) = mStats p" "mCompletedTransactions (onBufferInvalidated b p) = mCompletedTransactions p"
  "mConnectionIds (onBufferInvalidated b p) = mConnectionIds p" "mBufferStatusQueues (onBufferInvalidated b p) = mBufferStatusQueues p"
  "mSeq (onBufferInvalidated b p) = mSeq p" "mStartSeq (onBufferInvalidated b p) = mStartSeq p"
  by (simp_all add: onBufferInvalidated_def case_prod_beta Let_def)

lemma settle_fields [simp]:
  "mUsingBuffers (settle_buffer b i p) = mUsingBuffers p" "mUsingConnections (settle_buffer b i p) = mUsingConnections p"
  "mPendingTransactions (settle_buffer b i p) = mPendingTransactions p" "mTransactions (settle_buffer b i p) = mTransactions p"
  "mCompletedTransactions (settle_buffer b i p) = mCompletedTransactions p" "mConnectionIds (settle_buffer b i p) = mConnectionIds p"
  "mBufferStatusQueues (settle_buffer b i p) = mBufferStatusQueues p"
  "mSeq (settle_buffer b i p) = mSeq p" "mStartSeq (settle_buffer b i p) = mStartSeq p"
  by (simp_all add: settle_buffer_def)

lemma owners_settle [simp]: "owners x (settle_buffer b i p) = owners x p" "transfers x (settle_buffer b i p) = transfers x p"
  by (simp_all add: owners_def transfers_def)

section \<open>Holding and settling a buffer\<close>

lemma core_hold: "core_ok {} p \<Longrightarrow> b \<notin> mFreeBuffers p \<Longrightarrow> core_ok {b} p"
  by (auto simp: core_ok_def free_ok_def)

lemma core_let_go:
  "core_ok {b} p \<Longrightarrow> mBuffers p b = Some i \<Longrightarrow> mOwnerCount i \<noteq> 0 \<or> mTransactionCount i \<noteq> 0 \<Longrightarrow> core_ok {} p"
  unfolding core_ok_def free_ok_def by (metis empty_iff option.inject singletonD)

text \<open>Edits of a buffer that is held leave the free buffers and the sizes alone.\<close>

lemma free_ok_edit:
  assumes "free_ok {b} p" "mBuffers p b \<noteq> None" "mFreeBuffers q = mFreeBuffers p" "mBuffers q = (mBuffers p)(b \<mapsto> i)"
  shows "free_ok {b} q"
  using assms by (auto simp: free_ok_def)

lemma stats_ok_edit:
  assumes "stats_ok p" "mBuffers p b = Some i" "mAllocSize i' = mAllocSize i" "mFreeBuffers q = mFreeBuffers p"
    "mBuffers q = (mBuffers p)(b \<mapsto> i')" "mSizeCached (mStats q) = mSizeCached (mStats p)" "mBuffersCached (mStats q) = mBuffersCached (mStats p)"
    "mSizeInUse (mStats q) = mSizeInUse (mStats p)" "mBuffersInUse (mStats q) = mBuffersInUse (mStats p)"
  shows "stats_ok q"
proof -
  have "alloc_size ((mBuffers p)(b \<mapsto> i')) = alloc_size (mBuffers p)" using assms(2,3) by (auto simp: alloc_size_def)
  moreover have "dom ((mBuffers p)(b \<mapsto> i')) = dom (mBuffers p)" using assms(2) by auto
  ultimately show ?thesis using assms unfolding stats_ok_def by simp
qed

lemma settle_free_stats:
  assumes "stats_ok p" "mBuffers p b = Some i" "b \<notin> mFreeBuffers p" "finite (dom (mBuffers p))"
  shows "stats_ok ((stat (onBufferUnused (mAllocSize i)) p)\<lparr>mFreeBuffers := insert b (mFreeBuffers p)\<rparr>)"
proof -
  have b: "b \<in> dom (mBuffers p) - mFreeBuffers p" "alloc_size (mBuffers p) b = mAllocSize i" using assms by (auto simp: alloc_size_def)
  let ?U = "dom (mBuffers p) - mFreeBuffers p"
  have U: "dom (mBuffers p) - insert b (mFreeBuffers p) = ?U - {b}" by auto
  have "card ?U = Suc (card (?U - {b}))" by (rule card.remove [OF _ b(1)]) (use assms(4) in simp)
  moreover have "sum (alloc_size (mBuffers p)) ?U = mAllocSize i + sum (alloc_size (mBuffers p)) (?U - {b})"
    unfolding b(2) [symmetric] by (rule sum.remove [OF _ b(1)]) (use assms(4) in simp)
  ultimately show ?thesis using assms(1) unfolding stats_ok_def by (simp add: onBufferUnused_def U)
qed

lemma remove_stats:
  assumes "stats_ok p" "mBuffers p b = Some i" "finite (dom (mBuffers p))" "b \<in> mFreeBuffers p"
  shows "stats_ok ((stat (onBufferEvicted (mAllocSize i)) p)\<lparr>mBuffers := (mBuffers p)(b := None), mFreeBuffers := mFreeBuffers p - {b}\<rparr>)"
proof -
  let ?D = "dom (mBuffers p)"
  have b: "b \<in> ?D" "alloc_size (mBuffers p) b = mAllocSize i" using assms by (auto simp: alloc_size_def)
  have eq: "sum (alloc_size ((mBuffers p)(b := None))) S = sum (alloc_size (mBuffers p)) S" if "b \<notin> S" for S
    using that by (intro sum.cong) (auto simp: alloc_size_def)
  have c: "card ?D = Suc (card (?D - {b}))" by (rule card.remove [OF assms(3) b(1)])
  have s: "sum (alloc_size (mBuffers p)) ?D = mAllocSize i + sum (alloc_size (mBuffers p)) (?D - {b})"
    unfolding b(2) [symmetric] by (rule sum.remove [OF assms(3) b(1)])
  have d: "?D - {b} - (mFreeBuffers p - {b}) = ?D - mFreeBuffers p" "b \<notin> ?D - mFreeBuffers p" using assms(4) by auto
  show ?thesis using assms(1) unfolding stats_ok_def by (simp add: onBufferEvicted_def c s d(1) eq eq [OF d(2)])
qed

lemma counts_ok_cong:
  assumes "counts_ok p" "ms_rel (mUsingConnections q) = ms_rel (mUsingConnections p)" "ms_rel (mPendingTransactions q) = ms_rel (mPendingTransactions p)"
    "mTransactions q = mTransactions p" "mBuffers q = mBuffers p" "mBufferStatusQueues q = mBufferStatusQueues p"
  shows "counts_ok q"
proof -
  have "owners b q = owners b p" "transfers b q = transfers b p" for b using assms by (auto simp: owners_def transfers_def)
  then show ?thesis using assms unfolding counts_ok_def by simp
qed

lemma counts_ok_remove:
  assumes "counts_ok p" "mBuffers p b = Some i" "mOwnerCount i = 0" "mTransactionCount i = 0"
    "mUsingConnections q = mUsingConnections p" "mPendingTransactions q = mPendingTransactions p" "mBufferStatusQueues q = mBufferStatusQueues p"
    "mTransactions q = mTransactions p" "mBuffers q = (mBuffers p)(b := None)"
  shows "counts_ok q"
proof -
  have "card (owners b p) = 0" "card (transfers b p) = 0" using assms(1-4) by (auto simp: counts_ok_def)
  then have e: "owners b p = {}" "transfers b p = {}"
    using finite_owners [OF assms(1)] finite_transfers [OF assms(1)] by auto
  have same: "owners x q = owners x p" "transfers x q = transfers x p" for x using assms by (auto simp: owners_def transfers_def)
  show ?thesis using assms(1) e unfolding counts_ok_def same assms(5-9)
    by (auto simp: transfers_def)
qed

lemma settle_core:
  assumes "core_ok {b} p" "mBuffers p b = Some i"
  shows "core_ok {} (settle_buffer b i p)"
proof (cases "mOwnerCount i = 0 \<and> mTransactionCount i = 0")
  case False
  then show ?thesis using core_let_go [OF assms] by (auto simp: settle_buffer_def)
next
  case True
  have ok: "counts_ok p" "free_ok {b} p" "stats_ok p" "finite (dom (mBuffers p))" using assms(1) by (auto simp: core_ok_def counts_ok_def)
  have nf: "b \<notin> mFreeBuffers p" using ok(2) by (simp add: free_ok_def)
  have un: "stats_ok ((stat (onBufferUnused (mAllocSize i)) p)\<lparr>mFreeBuffers := insert b (mFreeBuffers p)\<rparr>)" (is "stats_ok ?q")
    by (rule settle_free_stats [OF ok(3) assms(2) nf ok(4)])
  show ?thesis
  proof (cases "mInvalidated i")
    case inv: False
    have "counts_ok ?q" by (rule counts_ok_cong [OF ok(1)]) simp_all
    moreover have "free_ok {} ?q" using ok(2) True inv assms(2) by (auto simp: free_ok_def)
    ultimately show ?thesis using un True inv by (simp add: settle_buffer_def core_ok_def)
  next
    case inv: True
    let ?r = "settle_buffer b i p"
    have f: "mBuffers ?r = (mBuffers p)(b := None)" "mFreeBuffers ?r = mFreeBuffers p" using True inv by (simp_all add: settle_buffer_def)
    have "counts_ok ?r" by (rule counts_ok_remove [OF ok(1) assms(2)]) (simp_all add: True f)
    moreover have "free_ok {} ?r" using ok(2) True assms(2) by (auto simp: free_ok_def f)
    moreover have "stats_ok ?r"
      using remove_stats [OF un, of b i] ok(4) assms(2) nf True inv by (simp add: settle_buffer_def stats_ok_def)
    ultimately show ?thesis by (simp add: core_ok_def)
  qed
qed

section \<open>Owners and transfers of a held buffer\<close>

lemma counts_ok_edit:
  assumes ok: "counts_ok p" "mBuffers p b = Some i" and q: "mBuffers q = (mBuffers p)(b \<mapsto> i')" "mBufferStatusQueues q = mBufferStatusQueues p"
    and others: "\<And>x. x \<noteq> b \<Longrightarrow> owners x q = owners x p" "\<And>x. x \<noteq> b \<Longrightarrow> transfers x q = transfers x p"
    and cnt: "mOwnerCount i' = card (owners b q)" "mTransactionCount i' = card (transfers b q)"
    and fin: "finite (ms_rel (mUsingConnections q))" "finite (ms_rel (mPendingTransactions q))" "finite (dom (mTransactions q))"
    and tx: "\<And>t ts. mTransactions q t = Some ts \<Longrightarrow> mBufferId ts \<in> dom (mBuffers p) \<and> (mReceiver ts, t) \<in> ms_rel (mPendingTransactions q)"
      "\<And>c t ts. (c, t) \<in> ms_rel (mPendingTransactions q) \<Longrightarrow> mTransactions q t = Some ts \<Longrightarrow> mReceiver ts = c"
  shows "counts_ok q"
proof -
  have d: "dom (mBuffers q) = dom (mBuffers p)" using ok(2) q(1) by auto
  have "x \<in> dom (mBuffers p)" if "owners x q \<noteq> {}" for x
    using that ok others(1) [of x] by (cases "x = b") (auto simp: counts_ok_def)
  moreover have "mOwnerCount j = card (owners x q) \<and> mTransactionCount j = card (transfers x q)" if "mBuffers q x = Some j" for x j
    using that ok q(1) others cnt by (cases "x = b") (auto simp: counts_ok_def)
  ultimately show ?thesis using ok(1) fin tx unfolding counts_ok_def d q(2) by blast
qed

lemma drop_owner:
  assumes ok: "counts_ok p" and b: "mBuffers p b = Some i" "(b, c) \<in> ms_rel (mUsingConnections p)"
    and q: "mBuffers q = (mBuffers p)(b \<mapsto> i\<lparr>mOwnerCount := size_dec (mOwnerCount i)\<rparr>)" "ms_rel (mUsingConnections q) = ms_rel (mUsingConnections p) - {(b, c)}"
      "mPendingTransactions q = mPendingTransactions p" "mTransactions q = mTransactions p" "mBufferStatusQueues q = mBufferStatusQueues p"
  shows "counts_ok q"
proof (rule counts_ok_edit [OF ok b(1) q(1,5)])
  have o: "owners b q = owners b p - {c}" using q(2) by (auto simp: owners_def)
  have "mOwnerCount i = card (owners b p)" "mTransactionCount i = card (transfers b p)" using ok b(1) by (auto simp: counts_ok_def)
  moreover have "c \<in> owners b p" using b(2) by (auto simp: owners_def)
  ultimately show "mOwnerCount (i\<lparr>mOwnerCount := size_dec (mOwnerCount i)\<rparr>) = card (owners b q)"
    "mTransactionCount (i\<lparr>mOwnerCount := size_dec (mOwnerCount i)\<rparr>) = card (transfers b q)"
    by (simp_all add: size_dec_card [OF finite_owners [OF ok]] o transfers_def q(4))
qed (use ok q in \<open>auto simp: counts_ok_def owners_def transfers_def\<close>)

lemma add_owner:
  assumes ok: "counts_ok p" and b: "mBuffers p b = Some i" "(b, c) \<notin> ms_rel (mUsingConnections p)"
    and q: "mBuffers q = (mBuffers p)(b \<mapsto> i\<lparr>mOwnerCount := mOwnerCount i + 1\<rparr>)" "ms_rel (mUsingConnections q) = insert (b, c) (ms_rel (mUsingConnections p))"
      "mPendingTransactions q = mPendingTransactions p" "mTransactions q = mTransactions p" "mBufferStatusQueues q = mBufferStatusQueues p"
  shows "counts_ok q"
proof (rule counts_ok_edit [OF ok b(1) q(1,5)])
  have o: "owners b q = insert c (owners b p)" using q(2) by (auto simp: owners_def)
  have "mOwnerCount i = card (owners b p)" "mTransactionCount i = card (transfers b p)" using ok b(1) by (auto simp: counts_ok_def)
  moreover have "c \<notin> owners b p" using b(2) by (auto simp: owners_def)
  ultimately show "mOwnerCount (i\<lparr>mOwnerCount := mOwnerCount i + 1\<rparr>) = card (owners b q)"
    "mTransactionCount (i\<lparr>mOwnerCount := mOwnerCount i + 1\<rparr>) = card (transfers b q)"
    by (simp_all add: finite_owners [OF ok] o transfers_def q(4))
qed (use ok q in \<open>auto simp: counts_ok_def owners_def transfers_def\<close>)

lemma add_transfer:
  assumes ok: "counts_ok p" and b: "mBuffers p b = Some i" "mTransactions p t = None" "\<And>c. (c, t) \<notin> ms_rel (mPendingTransactions p)"
    and ts: "mBufferId ts = b"
    and q: "mBuffers q = (mBuffers p)(b \<mapsto> i\<lparr>mTransactionCount := mTransactionCount i + 1\<rparr>)" "mUsingConnections q = mUsingConnections p"
      "ms_rel (mPendingTransactions q) = insert (mReceiver ts, t) (ms_rel (mPendingTransactions p))"
      "mTransactions q = (mTransactions p)(t \<mapsto> ts)" "mBufferStatusQueues q = mBufferStatusQueues p"
  shows "counts_ok q"
proof (rule counts_ok_edit [OF ok b(1) q(1,5)])
  have o: "transfers b q = insert t (transfers b p)" "owners b q = owners b p" using q b ts by (auto simp: transfers_def owners_def)
  have "mOwnerCount i = card (owners b p)" "mTransactionCount i = card (transfers b p)" using ok b(1) by (auto simp: counts_ok_def)
  moreover have "t \<notin> transfers b p" using b(2) by (auto simp: transfers_def)
  ultimately show "mOwnerCount (i\<lparr>mTransactionCount := mTransactionCount i + 1\<rparr>) = card (owners b q)"
    "mTransactionCount (i\<lparr>mTransactionCount := mTransactionCount i + 1\<rparr>) = card (transfers b q)"
    by (simp_all add: finite_transfers [OF ok] o)
  show "mReceiver ts' = c" if "(c, t') \<in> ms_rel (mPendingTransactions q)" "mTransactions q t' = Some ts'" for c t' ts'
    using that ok q b by (cases "t' = t") (auto simp: counts_ok_def)
qed (use ok q b ts in \<open>auto simp: counts_ok_def owners_def transfers_def split: if_splits\<close>)

text \<open>The pending entry of a transfer may go with it or stay.\<close>

lemma drop_transfer:
  assumes ok: "counts_ok p" and b: "mBuffers p b = Some i" "mTransactions p t = Some ts" "mBufferId ts = b"
    and q: "mBuffers q = (mBuffers p)(b \<mapsto> i\<lparr>mTransactionCount := size_dec (mTransactionCount i)\<rparr>)" "mUsingConnections q = mUsingConnections p"
      "ms_rel (mPendingTransactions p) - {(mReceiver ts, t)} \<subseteq> ms_rel (mPendingTransactions q)" "ms_rel (mPendingTransactions q) \<subseteq> ms_rel (mPendingTransactions p)"
      "mTransactions q = (mTransactions p)(t := None)" "mBufferStatusQueues q = mBufferStatusQueues p"
  shows "counts_ok q"
proof (rule counts_ok_edit [OF ok b(1) q(1,6)])
  have o: "transfers b q = transfers b p - {t}" "owners b q = owners b p" using q by (auto simp: transfers_def owners_def)
  have "mOwnerCount i = card (owners b p)" "mTransactionCount i = card (transfers b p)" using ok b(1) by (auto simp: counts_ok_def)
  moreover have "t \<in> transfers b p" using b by (auto simp: transfers_def)
  ultimately show "mOwnerCount (i\<lparr>mTransactionCount := size_dec (mTransactionCount i)\<rparr>) = card (owners b q)"
    "mTransactionCount (i\<lparr>mTransactionCount := size_dec (mTransactionCount i)\<rparr>) = card (transfers b q)"
    by (simp_all add: size_dec_card [OF finite_transfers [OF ok]] o)
  show "finite (ms_rel (mPendingTransactions q))" using ok q(4) by (auto simp: counts_ok_def intro: finite_subset)
  show "mBufferId ts' \<in> dom (mBuffers p) \<and> (mReceiver ts', t') \<in> ms_rel (mPendingTransactions q)" if "mTransactions q t' = Some ts'" for t' ts'
  proof -
    have "t' \<noteq> t" "mTransactions p t' = Some ts'" using that q(5) by (auto split: if_splits)
    then show ?thesis using ok q(3) unfolding counts_ok_def by blast
  qed
  show "mReceiver ts' = c" if "(c, t') \<in> ms_rel (mPendingTransactions q)" "mTransactions q t' = Some ts'" for c t' ts'
    using that ok q(4,5) by (auto simp: counts_ok_def split: if_splits)
qed (use ok q b in \<open>auto simp: counts_ok_def owners_def transfers_def split: if_splits\<close>)

section \<open>The handlers\<close>

lemma own_fields:
  assumes "handleOwnBuffer c b p = Some (r, p')"
  shows "mTransactions p' = mTransactions p" "mPendingTransactions p' = mPendingTransactions p" "mCompletedTransactions p' = mCompletedTransactions p"
    "mFreeBuffers p' = mFreeBuffers p" "mConnectionIds p' = mConnectionIds p" "mBufferStatusQueues p' = mBufferStatusQueues p"
    "mInvalidation p' = mInvalidation p" "mInvalidationChannel p' = mInvalidationChannel p" "mSeq p' = mSeq p" "mStartSeq p' = mStartSeq p"
    "mStats p' = mStats p" "ms_rel (mUsingConnections p') = insert (b, c) (ms_rel (mUsingConnections p))"
    "ms_rel (mUsingBuffers p') = insert (c, b) (ms_rel (mUsingBuffers p))"
  using assms by (auto simp: handleOwnBuffer_def Let_def case_prod_beta split: if_splits option.splits)

lemma own_ok:
  assumes ok: "pool_ok_but {b} p" and b: "mBuffers p b = Some i"
  obtains p' j where "handleOwnBuffer c b p = Some (c \<notin> owners b p, p')" "pool_ok_but {b} p'" "pool_ok p'"
    "mBuffers p' = (mBuffers p)(b \<mapsto> j)" "mOwnerCount j \<noteq> 0" "mTransactionCount j = mTransactionCount i" "mAllocation j = mAllocation i"
    "mInvalidated j = mInvalidated i"
proof -
  have u: "users_ok p" "counts_ok p" "free_ok {b} p" "stats_ok p" using ok by (auto simp: pool_ok_but_def core_ok_def)
  have mem: "(c, b) \<in> ms_rel (mUsingBuffers p) \<longleftrightarrow> c \<in> owners b p" "(b, c) \<in> ms_rel (mUsingConnections p) \<longleftrightarrow> c \<in> owners b p"
    using u(1) by (auto simp: users_ok_def owners_def)
  show thesis
  proof (cases "c \<in> owners b p")
    case True
    let ?q = "p\<lparr>mUsingBuffers := snd (ms_insert (mUsingBuffers p) c b), mUsingConnections := snd (ms_insert (mUsingConnections p) b c)\<rparr>"
    have own: "handleOwnBuffer c b p = Some (False, ?q)" using True mem by (simp add: handleOwnBuffer_def Let_def case_prod_beta)
    have "counts_ok ?q" using True mem by (intro counts_ok_cong [OF u(2)]) auto
    then have q: "core_ok {b} ?q" "users_ok ?q" using u(1,3,4) by (auto simp: core_ok_def free_ok_def stats_ok_def users_ok_def)
    have "mOwnerCount i = card (owners b p)" using u(2) b by (simp add: counts_ok_def)
    then have n: "mOwnerCount i \<noteq> 0" using True finite_owners [OF u(2)] by auto
    have "core_ok {} ?q" using core_let_go [OF q(1)] b n by simp
    moreover have "mBuffers p = (mBuffers p)(b \<mapsto> i)" using b by auto
    ultimately show thesis using that [of ?q i] own True q n b by (simp add: pool_ok_but_def)
  next
    case False
    let ?j = "i\<lparr>mOwnerCount := mOwnerCount i + 1\<rparr>"
    let ?q = "p\<lparr>mUsingBuffers := snd (ms_insert (mUsingBuffers p) c b), mUsingConnections := snd (ms_insert (mUsingConnections p) b c),
                mBuffers := (mBuffers p)(b \<mapsto> ?j)\<rparr>"
    have own: "handleOwnBuffer c b p = Some (True, ?q)" using False mem b by (simp add: handleOwnBuffer_def Let_def case_prod_beta)
    have "counts_ok ?q" using False mem by (intro add_owner [OF u(2) b, of c]) simp_all
    moreover have "free_ok {b} ?q" using b by (intro free_ok_edit [OF u(3)]) simp_all
    moreover have "stats_ok ?q" using b by (intro stats_ok_edit [OF u(4) b]) simp_all
    ultimately have q: "core_ok {b} ?q" "users_ok ?q" using u(1) by (auto simp: core_ok_def users_ok_def)
    then have "core_ok {} ?q" using core_let_go [OF q(1), of ?j] by simp
    then show thesis using that [of ?q ?j] own False q by (auto simp: pool_ok_but_def)
  qed
qed

text \<open>Dropping an owner, as \<open>handleReleaseBuffer\<close> and \<open>handleClose\<close> do it.\<close>

lemma release_core:
  assumes ok: "core_ok {} p" and b: "mBuffers p b = Some i" "(b, c) \<in> ms_rel (mUsingConnections p)"
    and q: "mBuffers q = (mBuffers p)(b \<mapsto> i\<lparr>mOwnerCount := size_dec (mOwnerCount i)\<rparr>)" "ms_rel (mUsingConnections q) = ms_rel (mUsingConnections p) - {(b, c)}"
      "mPendingTransactions q = mPendingTransactions p" "mTransactions q = mTransactions p" "mBufferStatusQueues q = mBufferStatusQueues p"
      "mFreeBuffers q = mFreeBuffers p" "mStats q = mStats p"
  shows "core_ok {} (settle_buffer b (i\<lparr>mOwnerCount := size_dec (mOwnerCount i)\<rparr>) q)"
proof (rule settle_core)
  have u: "counts_ok p" "free_ok {} p" "stats_ok p" using ok by (auto simp: core_ok_def)
  have "c \<in> owners b p" "mOwnerCount i = card (owners b p)" using u(1) b by (auto simp: counts_ok_def owners_def)
  then have "mOwnerCount i \<noteq> 0" using finite_owners [OF u(1), of b] by auto
  then have "b \<notin> mFreeBuffers p" using u(2) b(1) by (simp add: free_ok_def)
  then have held: "free_ok {b} p" using core_hold [OF ok] by (simp add: core_ok_def)
  have "free_ok {b} q" using b(1) q(1,6) by (intro free_ok_edit [OF held]) simp_all
  moreover have "counts_ok q" by (rule drop_owner [OF u(1) b q(1-5)])
  moreover have "stats_ok q" by (rule stats_ok_edit [OF u(3) b(1) _ q(6,1)]) (simp_all add: q(7))
  ultimately show "core_ok {b} q" by (simp add: core_ok_def)
qed (simp add: q(1))

lemma owned_exists:
  assumes "counts_ok p" "(b, c) \<in> ms_rel (mUsingConnections p)"
  obtains i where "mBuffers p b = Some i"
proof -
  have "owners b p \<noteq> {}" using assms(2) by (auto simp: owners_def)
  then show thesis using assms(1) that by (auto simp: counts_ok_def)
qed

lemma handleReleaseBuffer_ok:
  assumes ok: "pool_ok p"
  obtains p' where "handleReleaseBuffer c b p = Some (c \<in> owners b p, p')" "pool_ok p'"
    "ms_rel (mUsingConnections p') = ms_rel (mUsingConnections p) - {(b, c)}"
proof -
  have u: "users_ok p" "core_ok {} p" "counts_ok p" using ok by (auto simp: pool_ok_but_def core_ok_def)
  have mem: "(c, b) \<in> ms_rel (mUsingBuffers p) \<longleftrightarrow> c \<in> owners b p" "(b, c) \<in> ms_rel (mUsingConnections p) \<longleftrightarrow> c \<in> owners b p"
    using u(1) by (auto simp: users_ok_def owners_def)
  let ?q = "p\<lparr>mUsingBuffers := snd (ms_erase (mUsingBuffers p) c b), mUsingConnections := snd (ms_erase (mUsingConnections p) b c)\<rparr>"
  have users: "users_ok ?q" using u(1) by (auto simp: users_ok_def)
  show thesis
  proof (cases "c \<in> owners b p")
    case False
    then have "handleReleaseBuffer c b p = Some (False, ?q)" using mem by (simp add: handleReleaseBuffer_def Let_def case_prod_beta)
    moreover have "counts_ok ?q" using False mem by (intro counts_ok_cong [OF u(3)]) auto
    then have "core_ok {} ?q" using u(2) by (auto simp: core_ok_def free_ok_def stats_ok_def)
    ultimately show thesis using that [of ?q] False users by (simp add: pool_ok_but_def)
  next
    case True
    then obtain i where i: "mBuffers p b = Some i" using owned_exists [OF u(3)] mem by blast
    let ?j = "i\<lparr>mOwnerCount := size_dec (mOwnerCount i)\<rparr>"
    let ?r = "?q\<lparr>mBuffers := (mBuffers ?q)(b \<mapsto> ?j)\<rparr>"
    have "handleReleaseBuffer c b p = Some (True, settle_buffer b ?j ?r)"
      using True mem i by (simp add: handleReleaseBuffer_def Let_def case_prod_beta)
    moreover have "core_ok {} (settle_buffer b ?j ?r)" using True mem by (intro release_core [OF u(2) i, of c]) simp_all
    ultimately show thesis using that [of "settle_buffer b ?j ?r"] True users by (simp add: pool_ok_but_def users_ok_def)
  qed
qed

text \<open>
  What the pool has to believe of a message. A transfer that it does not know yet has a number that
  was not used before; if the receiver announces it first, its buffer is in use; and a result
  names the buffer of the transfer. Other messages need not be trusted.
\<close>

definition unknown_transfer :: "transaction_id \<Rightarrow> buffer_pool \<Rightarrow> bool" where
  "unknown_transfer t p \<longleftrightarrow> (\<forall>c. \<not> ms_contains (mPendingTransactions p) c t)"

definition credible :: "buffer_status_message \<Rightarrow> buffer_pool \<Rightarrow> bool" where
  "credible m p =
     (let t = transactionId m; b = bufferId m
      in case newStatus m of
           TRANSFER_TO \<Rightarrow> mTransactions p t = None \<and> t \<notin> mCompletedTransactions p \<longrightarrow> unknown_transfer t p
         | TRANSFER_FROM \<Rightarrow> mTransactions p t = None \<longrightarrow> unknown_transfer t p \<and> mBuffers p b \<noteq> None \<and> b \<notin> mFreeBuffers p
         | TRANSFER_OK \<Rightarrow> \<forall>ts. mTransactions p t = Some ts \<longrightarrow> mBufferId ts = b
         | TRANSFER_ERROR \<Rightarrow> \<forall>ts. mTransactions p t = Some ts \<longrightarrow> mBufferId ts = b
         | _ \<Rightarrow> True)"

lemma pool_ok_cong:
  assumes "pool_ok_but X p" "mUsingConnections q = mUsingConnections p" "mUsingBuffers q = mUsingBuffers p"
    "mPendingTransactions q = mPendingTransactions p" "mTransactions q = mTransactions p" "mBuffers q = mBuffers p"
    "mFreeBuffers q = mFreeBuffers p" "mStats q = mStats p" "mBufferStatusQueues q = mBufferStatusQueues p"
  shows "pool_ok_but X q"
proof -
  have "counts_ok q" by (rule counts_ok_cong [of p]) (use assms in \<open>simp_all add: pool_ok_but_def core_ok_def\<close>)
  then show ?thesis using assms by (simp add: pool_ok_but_def core_ok_def free_ok_def stats_ok_def users_ok_def)
qed

lemma edit_transfer:
  assumes "pool_ok p" "mTransactions p t = Some ts" "mBufferId ts' = mBufferId ts" "mReceiver ts' = mReceiver ts"
  shows "pool_ok (p\<lparr>mTransactions := (mTransactions p)(t \<mapsto> ts')\<rparr>)" (is "pool_ok ?q")
proof -
  have c: "counts_ok p" using assms(1) by (simp add: pool_ok_but_def core_ok_def)
  have t: "transfers b ?q = transfers b p" "owners b ?q = owners b p" for b using assms(2,3) by (auto simp: transfers_def owners_def)
  have "counts_ok ?q" using c assms(2-4) unfolding counts_ok_def t by (auto split: if_splits)
  then show ?thesis using assms(1) by (simp add: pool_ok_but_def core_ok_def free_ok_def stats_ok_def users_ok_def)
qed

lemma begin_transfer:
  assumes ok: "pool_ok p" and b: "mBuffers p b = Some i" "b \<notin> mFreeBuffers p" and t: "mTransactions p t = None" "unknown_transfer t p"
    and ts: "mBufferId ts = b"
  shows "pool_ok ((stat onBufferSent p)\<lparr>mTransactions := (mTransactions p)(t \<mapsto> ts),
           mPendingTransactions := snd (ms_insert (mPendingTransactions p) (mReceiver ts) t),
           mBuffers := (mBuffers p)(b \<mapsto> i\<lparr>mTransactionCount := mTransactionCount i + 1\<rparr>)\<rparr>)" (is "pool_ok ?q")
proof -
  have u: "counts_ok p" "free_ok {b} p" "stats_ok p" "users_ok p" using ok b(2) core_hold by (auto simp: pool_ok_but_def core_ok_def)
  have "counts_ok ?q" using t(2) by (intro add_transfer [OF u(1) b(1) t(1) _ ts]) (simp_all add: unknown_transfer_def ms_contains_rel)
  moreover have "free_ok {b} ?q" using b(1) by (intro free_ok_edit [OF u(2)]) simp_all
  moreover have "stats_ok ?q" by (rule stats_ok_edit [OF u(3) b(1)]) (simp_all add: onBufferSent_def)
  ultimately have q: "core_ok {b} ?q" by (simp add: core_ok_def)
  have "core_ok {} ?q" using core_let_go [OF q, of "i\<lparr>mTransactionCount := mTransactionCount i + 1\<rparr>"] by simp
  then show ?thesis using u(4) by (simp add: pool_ok_but_def users_ok_def)
qed

lemma owned_not_free:
  assumes "pool_ok p" "c \<in> owners b p"
  shows "b \<notin> mFreeBuffers p"
proof -
  have u: "counts_ok p" "free_ok {} p" using assms(1) by (auto simp: pool_ok_but_def core_ok_def)
  obtain i where i: "mBuffers p b = Some i" using owned_exists [OF u(1)] assms(2) by (auto simp: owners_def)
  then have "mOwnerCount i = card (owners b p)" using u(1) by (simp add: counts_ok_def)
  then have "mOwnerCount i \<noteq> 0" using assms(2) finite_owners [OF u(1), of b] by auto
  then show ?thesis using u(2) i by (simp add: free_ok_def)
qed

lemma handleTransferTo_ok:
  assumes "pool_ok p" "newStatus m = TRANSFER_TO" "credible m p"
  shows "pool_ok (snd (handleTransferTo m p))"
proof -
  let ?b = "bufferId m" and ?t = "transactionId m"
  have u: "users_ok p" using assms(1) by (simp add: pool_ok_but_def)
  have ts: "mBufferId (new_transaction m x) = ?b" "mReceiver (new_transaction m x) = targetConnectionId m" for x
    using assms(2) by (simp_all add: new_transaction_def)
  show ?thesis
  proof (cases "?t \<in> mCompletedTransactions p \<or> mBuffers p ?b = None \<or> \<not> ms_contains (mUsingBuffers p) (connectionId m) ?b")
    case True
    then show ?thesis using assms(1) by (auto simp: handleTransferTo_def Let_def intro: pool_ok_cong split: option.split)
  next
    case False
    then obtain i where i: "mBuffers p ?b = Some i" "?t \<notin> mCompletedTransactions p" "ms_contains (mUsingBuffers p) (connectionId m) ?b" by auto
    have "connectionId m \<in> owners ?b p" using i(3) u by (auto simp: ms_contains_rel users_ok_def owners_def)
    then have b: "?b \<notin> mFreeBuffers p" by (rule owned_not_free [OF assms(1)])
    show ?thesis
    proof (cases "mTransactions p ?t")
      case None
      then have "unknown_transfer ?t p" using assms(2,3) i(2) by (simp add: credible_def Let_def)
      from begin_transfer [OF assms(1) i(1) b None this ts(1), of "mTimestampUs p"] show ?thesis
        using i None assms(1) by (simp add: handleTransferTo_def Let_def ts(2))
    next
      case (Some tr)
      from edit_transfer [OF assms(1) Some, of "tr\<lparr>mSender := connectionId m, mSenderValidated := True\<rparr>"] show ?thesis
        using i Some by (simp add: handleTransferTo_def Let_def)
    qed
  qed
qed

lemma handleTransferFrom_ok:
  assumes "pool_ok p" "newStatus m = TRANSFER_FROM" "credible m p"
  obtains p' where "handleTransferFrom m p = Some (True, p')" "pool_ok p'"
proof (cases "mTransactions p (transactionId m)")
  case None
  then obtain i where "mBuffers p (bufferId m) = Some i" "bufferId m \<notin> mFreeBuffers p" "unknown_transfer (transactionId m) p"
    using assms(2,3) by (auto simp: credible_def Let_def)
  moreover have "mBufferId (new_transaction m x) = bufferId m" "mReceiver (new_transaction m x) = connectionId m" for x
    using assms(2) by (simp_all add: new_transaction_def)
  ultimately show ?thesis
    using that begin_transfer [OF assms(1) _ _ None, of "bufferId m" _ "new_transaction m (mTimestampUs p)"] None
    by (simp add: handleTransferFrom_def Let_def)
next
  case (Some ts)
  then show ?thesis using that edit_transfer [OF assms(1) Some, of "ts\<lparr>mStatus := TRANSFER_FROM\<rparr>"] assms(1)
    by (cases "connectionId m = mReceiver ts") (simp_all add: handleTransferFrom_def Let_def)
qed

text \<open>The end of a transfer.\<close>

lemma settle_drop_transaction:
  "(settle_buffer b i p)\<lparr>mTransactions := f\<rparr> = settle_buffer b i (p\<lparr>mTransactions := f\<rparr>)"
  by (simp add: settle_buffer_def onBufferInvalidated_def stat_def case_prod_beta Let_def)

lemma own_commute:
  "handleOwnBuffer c b (p\<lparr>mPendingTransactions := x, mCompletedTransactions := y\<rparr>)
   = map_option (\<lambda>(r, q). (r, q\<lparr>mPendingTransactions := x, mCompletedTransactions := y\<rparr>)) (handleOwnBuffer c b p)"
  by (simp add: handleOwnBuffer_def Let_def case_prod_beta split: option.split)

lemma finish_core:
  assumes ok: "core_ok {b} p" and b: "mBuffers p b = Some i" "mTransactions p t = Some ts" "mBufferId ts = b"
    and q: "mBuffers q = (mBuffers p)(b \<mapsto> i\<lparr>mTransactionCount := size_dec (mTransactionCount i)\<rparr>)" "mUsingConnections q = mUsingConnections p"
      "ms_rel (mPendingTransactions p) - {(mReceiver ts, t)} \<subseteq> ms_rel (mPendingTransactions q)" "ms_rel (mPendingTransactions q) \<subseteq> ms_rel (mPendingTransactions p)"
      "mTransactions q = (mTransactions p)(t := None)" "mBufferStatusQueues q = mBufferStatusQueues p" "mFreeBuffers q = mFreeBuffers p" "mStats q = mStats p"
  shows "core_ok {} (settle_buffer b (i\<lparr>mTransactionCount := size_dec (mTransactionCount i)\<rparr>) q)"
proof (rule settle_core)
  have u: "counts_ok p" "free_ok {b} p" "stats_ok p" using ok by (auto simp: core_ok_def)
  have "counts_ok q" by (rule drop_transfer [OF u(1) b q(1-6)])
  moreover have "free_ok {b} q" using b(1) q(1,7) by (intro free_ok_edit [OF u(2)]) simp_all
  moreover have "stats_ok q" by (rule stats_ok_edit [OF u(3) b(1) _ q(7,1)]) (simp_all add: q(8))
  ultimately show "core_ok {b} q" by (simp add: core_ok_def)
qed (simp add: q(1))

lemma transferred_not_free:
  assumes "core_ok {} p" "mTransactions p t = Some ts"
  obtains i where "mBuffers p (mBufferId ts) = Some i" "mBufferId ts \<notin> mFreeBuffers p" "mTransactionCount i \<noteq> 0"
proof -
  have u: "counts_ok p" "free_ok {} p" using assms(1) by (auto simp: core_ok_def)
  obtain i where i: "mBuffers p (mBufferId ts) = Some i" using u(1) assms(2) unfolding counts_ok_def by blast
  have "t \<in> transfers (mBufferId ts) p" "mTransactionCount i = card (transfers (mBufferId ts) p)" using assms(2) u(1) i by (auto simp: counts_ok_def transfers_def)
  then have "mTransactionCount i \<noteq> 0" using finite_transfers [OF u(1), of "mBufferId ts"] by auto
  then show thesis using that i u(2) by (simp add: free_ok_def)
qed

lemma handleTransferResult_known:
  assumes "mTransactions p (transactionId m) = Some ts" "(connectionId m, transactionId m) \<in> ms_rel (mPendingTransactions p)"
  defines "p1 \<equiv> p\<lparr>mPendingTransactions := snd (ms_erase (mPendingTransactions p) (connectionId m) (transactionId m)),
      mCompletedTransactions := if mSenderValidated ts then mCompletedTransactions p else insert (transactionId m) (mCompletedTransactions p)\<rparr>"
  shows "handleTransferResult m p =
    (case (if newStatus m = TRANSFER_OK then map_option snd (handleOwnBuffer (connectionId m) (bufferId m) p1) else Some p1) of
       None \<Rightarrow> None
     | Some p \<Rightarrow>
         (case mBuffers p (bufferId m) of
            None \<Rightarrow> None
          | Some i \<Rightarrow>
              Some (True, (settle_buffer (bufferId m) (i\<lparr>mTransactionCount := size_dec (mTransactionCount i)\<rparr>)
                (p\<lparr>mBuffers := (mBuffers p)(bufferId m \<mapsto> i\<lparr>mTransactionCount := size_dec (mTransactionCount i)\<rparr>)\<rparr>))
                \<lparr>mTransactions := (mTransactions p)(transactionId m := None)\<rparr>)))"
  using assms(1,2) unfolding p1_def
  by (cases "mSenderValidated ts") (simp_all add: handleTransferResult_def Let_def case_prod_beta cong: option.case_cong)

lemma handleTransferResult_ok:
  assumes ok: "pool_ok p" and m: "newStatus m = TRANSFER_OK \<or> newStatus m = TRANSFER_ERROR" "credible m p"
  obtains r p' where "handleTransferResult m p = Some (r, p')" "pool_ok p'"
proof (cases "\<exists>ts. mTransactions p (transactionId m) = Some ts \<and> (connectionId m, transactionId m) \<in> ms_rel (mPendingTransactions p)")
  case False
  show thesis
  proof (cases "mTransactions p (transactionId m)")
    case None
    then show thesis using that [of False p] ok by (simp add: handleTransferResult_def Let_def)
  next
    case (Some ts)
    let ?q = "p\<lparr>mPendingTransactions := snd (ms_erase (mPendingTransactions p) (connectionId m) (transactionId m))\<rparr>"
    have cp: "counts_ok p" using ok by (simp add: pool_ok_but_def core_ok_def)
    have n: "(connectionId m, transactionId m) \<notin> ms_rel (mPendingTransactions p)" using False Some by auto
    have "handleTransferResult m p = Some (False, ?q)" using Some n by (simp add: handleTransferResult_def Let_def case_prod_beta)
    moreover have "counts_ok ?q" using n by (intro counts_ok_cong [OF cp]) simp_all
    then have "pool_ok ?q" using ok by (simp add: pool_ok_but_def core_ok_def free_ok_def stats_ok_def users_ok_def)
    ultimately show thesis using that by blast
  qed
next
  case True
  let ?t = "transactionId m" and ?b = "bufferId m" and ?c = "connectionId m"
  obtain ts where ts: "mTransactions p ?t = Some ts" "(?c, ?t) \<in> ms_rel (mPendingTransactions p)" using True by blast
  have b: "mBufferId ts = ?b" using m ts(1) by (auto simp: credible_def Let_def)
  have rc: "mReceiver ts = ?c" using ok ts by (auto simp: pool_ok_but_def core_ok_def counts_ok_def)
  let ?pt = "snd (ms_erase (mPendingTransactions p) ?c ?t)"
  let ?cp = "if mSenderValidated ts then mCompletedTransactions p else insert ?t (mCompletedTransactions p)"
  obtain i where i: "mBuffers p ?b = Some i" "?b \<notin> mFreeBuffers p" using transferred_not_free [of p ?t ts] ok ts(1) b by (auto simp: pool_ok_but_def)
  have held: "pool_ok_but {?b} p" using ok core_hold [of p ?b] i(2) by (simp add: pool_ok_but_def)
  obtain q j where q: "(if newStatus m = TRANSFER_OK then map_option snd (handleOwnBuffer ?c ?b p) else Some p) = Some q"
    "pool_ok_but {?b} q" "mBuffers q ?b = Some j" "mTransactions q = mTransactions p" "mPendingTransactions q = mPendingTransactions p"
  proof (cases "newStatus m = TRANSFER_OK")
    case True
    obtain q j where "handleOwnBuffer ?c ?b p = Some (?c \<notin> owners ?b p, q)" "pool_ok_but {?b} q" "mBuffers q = (mBuffers p)(?b \<mapsto> j)"
      using own_ok [OF held i(1)] by metis
    then show thesis using that [of q j] True own_fields(1,2) by auto
  next
    case False
    then show thesis using that [of p i] held i by simp
  qed
  let ?j = "j\<lparr>mTransactionCount := size_dec (mTransactionCount j)\<rparr>"
  let ?r = "q\<lparr>mPendingTransactions := ?pt, mCompletedTransactions := ?cp, mBuffers := (mBuffers q)(?b \<mapsto> ?j), mTransactions := (mTransactions q)(?t := None)\<rparr>"
  have own1: "(if newStatus m = TRANSFER_OK then map_option snd (handleOwnBuffer ?c ?b (p\<lparr>mPendingTransactions := ?pt, mCompletedTransactions := ?cp\<rparr>))
      else Some (p\<lparr>mPendingTransactions := ?pt, mCompletedTransactions := ?cp\<rparr>)) = Some (q\<lparr>mPendingTransactions := ?pt, mCompletedTransactions := ?cp\<rparr>)"
    using q(1) by (cases "newStatus m = TRANSFER_OK") (auto simp: own_commute simp del: if_split)
  have "handleTransferResult m p = Some (True, settle_buffer ?b ?j ?r)"
    by (simp add: handleTransferResult_known [OF ts] own1 q(3) settle_drop_transaction)
  moreover have "core_ok {} (settle_buffer ?b ?j ?r)" using q ts b rc
    by (intro finish_core [of ?b q j ?t ts]) (auto simp: pool_ok_but_def)
  moreover have "users_ok (settle_buffer ?b ?j ?r)" using q(2) by (simp add: pool_ok_but_def users_ok_def)
  ultimately show thesis using that by (auto simp: pool_ok_but_def)
qed

section \<open>Messages\<close>

lemma handle_message_ok:
  assumes "pool_ok p" "credible m p"
  obtains p' where "handle_message m p = Some p'" "pool_ok p'"
proof (cases "newStatus m")
  case NOT_USED
  obtain r p' where "handleReleaseBuffer (connectionId m) (bufferId m) p = Some (r, p')" "pool_ok p'"
    using handleReleaseBuffer_ok [OF assms(1)] by metis
  then show thesis using that NOT_USED by (simp add: handle_message_def)
next
  case TRANSFER_TO
  then show thesis using that handleTransferTo_ok [OF assms(1) TRANSFER_TO assms(2)] by (simp add: handle_message_def)
next
  case TRANSFER_FROM
  obtain p' where "handleTransferFrom m p = Some (True, p')" "pool_ok p'"
    using handleTransferFrom_ok [OF assms(1) TRANSFER_FROM assms(2)] by metis
  then show thesis using that TRANSFER_FROM by (simp add: handle_message_def)
next
  case TRANSFER_OK
  obtain r p' where "handleTransferResult m p = Some (r, p')" "pool_ok p'"
    using handleTransferResult_ok [OF assms(1) _ assms(2)] TRANSFER_OK by metis
  then show thesis using that TRANSFER_OK by (simp add: handle_message_def)
next
  case TRANSFER_ERROR
  obtain r p' where "handleTransferResult m p = Some (r, p')" "pool_ok p'"
    using handleTransferResult_ok [OF assms(1) _ assms(2)] TRANSFER_ERROR by metis
  then show thesis using that TRANSFER_ERROR by (simp add: handle_message_def)
next
  case INVALIDATION_ACK
  have "pool_ok (p\<lparr>mInvalidation := onAck (connectionId m) (bufferId m) (mInvalidation p)\<rparr>)" by (rule pool_ok_cong [OF assms(1)]) simp_all
  then show thesis using that INVALIDATION_ACK by (simp add: handle_message_def)
qed (use that assms(1) in \<open>auto simp: handle_message_def\<close>)

fun all_credible :: "buffer_status_message list \<Rightarrow> buffer_pool \<Rightarrow> bool" where
  "all_credible [] p = True"
| "all_credible (m # ms) p \<longleftrightarrow> credible m p \<and> (case handle_message m p of None \<Rightarrow> True | Some q \<Rightarrow> all_credible ms q)"

lemma handle_messages_ok:
  "pool_ok p \<Longrightarrow> all_credible ms p \<Longrightarrow> \<exists>p'. handle_messages ms p = Some p' \<and> pool_ok p'"
proof (induction ms arbitrary: p)
  case (Cons m ms)
  obtain q where "handle_message m p = Some q" "pool_ok q" using handle_message_ok [OF Cons.prems(1)] Cons.prems(2) by auto
  then show ?case using Cons by simp
qed simp

definition credible_input :: "pool_input \<Rightarrow> buffer_pool \<Rightarrow> bool" where
  "credible_input inp p =
     all_credible (getBufferStatusChanges (inpReads inp) (sorted_list_of_set (mBufferStatusQueues p))) (p\<lparr>mTimestampUs := inpNow inp\<rparr>)"

lemma processStatusMessages_ok:
  assumes "pool_ok p" "credible_input inp p"
  obtains p' where "processStatusMessages inp p = Some p'" "pool_ok p'"
proof -
  have "pool_ok (p\<lparr>mTimestampUs := inpNow inp\<rparr>)" by (rule pool_ok_cong [OF assms(1)]) simp_all
  then show thesis using that handle_messages_ok assms(2) unfolding processStatusMessages_def credible_input_def by blast
qed

section \<open>Closing a connection\<close>

lemma close_buffers_ok:
  "core_ok {} p \<Longrightarrow> \<exists>p'. close_buffers c bs p = Some p' \<and> core_ok {} p' \<and> ms_rel (mUsingConnections p') = ms_rel (mUsingConnections p) - set bs \<times> {c}
     \<and> mUsingBuffers p' = mUsingBuffers p \<and> mPendingTransactions p' = mPendingTransactions p \<and> mTransactions p' = mTransactions p"
proof (induction bs arbitrary: p)
  case (Cons b bs)
  let ?q = "p\<lparr>mUsingConnections := snd (ms_erase (mUsingConnections p) b c)\<rparr>"
  have cp: "counts_ok p" using Cons.prems by (simp add: core_ok_def)
  show ?case
  proof (cases "(b, c) \<in> ms_rel (mUsingConnections p)")
    case False
    have "counts_ok ?q" using False by (intro counts_ok_cong [OF cp]) simp_all
    then have "core_ok {} ?q" using Cons.prems by (simp add: core_ok_def free_ok_def stats_ok_def)
    from Cons.IH [OF this] show ?thesis using False by (auto simp: Let_def case_prod_beta)
  next
    case True
    then obtain i where i: "mBuffers p b = Some i" using owned_exists [OF cp] by blast
    let ?j = "i\<lparr>mOwnerCount := size_dec (mOwnerCount i)\<rparr>"
    let ?r = "settle_buffer b ?j (?q\<lparr>mBuffers := (mBuffers ?q)(b \<mapsto> ?j)\<rparr>)"
    have "core_ok {} ?r" by (rule release_core [OF Cons.prems i True]) simp_all
    from Cons.IH [OF this] show ?thesis using True i by (auto simp: Let_def case_prod_beta)
  qed
qed simp

lemma close_transactions_ok:
  "core_ok {} p \<Longrightarrow> \<exists>p'. close_transactions ts p = Some p' \<and> core_ok {} p' \<and> mTransactions p' = mTransactions p |` (- set ts)
     \<and> mUsingConnections p' = mUsingConnections p \<and> mUsingBuffers p' = mUsingBuffers p \<and> mPendingTransactions p' = mPendingTransactions p"
proof (induction ts arbitrary: p)
  case (Cons t ts)
  show ?case
  proof (cases "mTransactions p t")
    case None
    have "mTransactions p |` (- insert t (set ts)) = mTransactions p |` (- set ts)" using None by (auto simp: restrict_map_def fun_eq_iff)
    then show ?thesis using Cons.IH [OF Cons.prems] None by simp
  next
    case (Some tr)
    obtain i where i: "mBuffers p (mBufferId tr) = Some i" "mBufferId tr \<notin> mFreeBuffers p" using transferred_not_free [OF Cons.prems Some] by metis
    let ?p = "p\<lparr>mCompletedTransactions := if mSenderValidated tr then mCompletedTransactions p else insert t (mCompletedTransactions p)\<rparr>"
    let ?j = "i\<lparr>mTransactionCount := size_dec (mTransactionCount i)\<rparr>"
    let ?r = "settle_buffer (mBufferId tr) ?j (?p\<lparr>mBuffers := (mBuffers p)(mBufferId tr \<mapsto> ?j), mTransactions := (mTransactions p)(t := None)\<rparr>)"
    have "core_ok {} ?r" by (rule finish_core [OF core_hold [OF Cons.prems i(2)] i(1) Some refl]) auto
    from Cons.IH [OF this] obtain p' where p': "close_transactions ts ?r = Some p'" "core_ok {} p'" "mTransactions p' = mTransactions ?r |` (- set ts)"
      "mUsingConnections p' = mUsingConnections ?r" "mUsingBuffers p' = mUsingBuffers ?r" "mPendingTransactions p' = mPendingTransactions ?r" by blast
    have "mTransactions ?r |` (- set ts) = mTransactions p |` (- insert t (set ts))" by (auto simp: restrict_map_def fun_eq_iff)
    moreover have "close_transactions (t # ts) p = close_transactions ts ?r"
      using Some i(1) by (cases "mSenderValidated tr") (simp_all add: Let_def settle_drop_transaction)
    ultimately show ?thesis using p' by simp
  qed
qed (simp add: restrict_map_def)

text \<open>After a close, the connection owns nothing and no transfer to it is left.\<close>

lemma handleClose_ok:
  assumes ok: "pool_ok p"
  obtains p' where "handleClose c p = Some p'" "pool_ok p'" "\<forall>b. owners b p' = owners b p - {c}"
    "\<forall>t ts. mTransactions p' t = Some ts \<longrightarrow> mReceiver ts \<noteq> c"
proof -
  have u: "core_ok {} p" "users_ok p" "counts_ok p" using ok by (auto simp: pool_ok_but_def core_ok_def)
  let ?first = "case mUsingBuffers p c of None \<Rightarrow> Some p
    | Some bs \<Rightarrow> map_option (\<lambda>p. p\<lparr>mUsingBuffers := (mUsingBuffers p)(c := None)\<rparr>) (close_buffers c (sorted_list_of_set bs) p)"
  obtain q where q: "?first = Some q" "pool_ok q" "\<forall>b. owners b q = owners b p - {c}" "mPendingTransactions q = mPendingTransactions p" "mTransactions q = mTransactions p"
  proof (cases "mUsingBuffers p c")
    case None
    have "c \<notin> owners b p" for b using u(2) ms_rel_at_None [of "mUsingBuffers p" c b, OF None] by (simp add: owners_def users_ok_def)
    then show thesis using that [of p] None ok by simp
  next
    case (Some bs)
    have eq: "bs = ms_rel (mUsingBuffers p) `` {c}" using Some by (rule ms_rel_at)
    then have bs: "bs = {b. (b, c) \<in> ms_rel (mUsingConnections p)}" "finite bs" using u(2,3) by (auto simp: users_ok_def counts_ok_def finite_Image)
    obtain r where r: "close_buffers c (sorted_list_of_set bs) p = Some r" "core_ok {} r" "ms_rel (mUsingConnections r) = ms_rel (mUsingConnections p) - bs \<times> {c}"
      "mUsingBuffers r = mUsingBuffers p" "mPendingTransactions r = mPendingTransactions p" "mTransactions r = mTransactions p"
      using close_buffers_ok [OF u(1), of c "sorted_list_of_set bs"] bs(2) by auto
    let ?r = "r\<lparr>mUsingBuffers := (mUsingBuffers r)(c := None)\<rparr>"
    have cr: "counts_ok r" using r(2) by (simp add: core_ok_def)
    have "counts_ok ?r" by (rule counts_ok_cong [OF cr]) simp_all
    then have "core_ok {} ?r" using r(2) by (simp add: core_ok_def free_ok_def stats_ok_def)
    moreover have "users_ok ?r" using u(2) r(3,4) bs(1) by (auto simp: users_ok_def)
    moreover have "owners b ?r = owners b p - {c}" for b using r(3) bs(1) by (auto simp: owners_def)
    ultimately show thesis using that [of ?r] Some r by (simp add: pool_ok_but_def)
  qed
  let ?second = "case mPendingTransactions q c of None \<Rightarrow> Some q | Some ts \<Rightarrow> close_transactions (sorted_list_of_set ts) q"
  have cq: "core_ok {} q" "counts_ok q" using q(2) by (auto simp: pool_ok_but_def core_ok_def)
  obtain r where r: "?second = Some r" "core_ok {} r" "mUsingConnections r = mUsingConnections q" "mUsingBuffers r = mUsingBuffers q"
    "\<forall>t ts. mTransactions r t = Some ts \<longrightarrow> mReceiver ts \<noteq> c"
  proof (cases "mPendingTransactions q c")
    case None
    then show thesis using that [of q] cq ms_rel_at_None [of "mPendingTransactions q" c] unfolding counts_ok_def by fastforce
  next
    case (Some ts)
    have fin: "ts = ms_rel (mPendingTransactions q) `` {c}" using Some by (rule ms_rel_at)
    then have fts: "finite ts" using finite_pending [OF cq(2), of c] by simp
    obtain r where r: "close_transactions (sorted_list_of_set ts) q = Some r" "core_ok {} r" "mTransactions r = mTransactions q |` (- ts)"
      "mUsingConnections r = mUsingConnections q" "mUsingBuffers r = mUsingBuffers q"
      using close_transactions_ok [OF cq(1), of "sorted_list_of_set ts"] fts by auto
    have "mReceiver tr \<noteq> c" if "mTransactions r t = Some tr" for t tr
      using that r(3) fin cq(2) unfolding counts_ok_def by (auto simp: restrict_map_def split: if_splits)
    then show thesis using that [of r] r Some by simp
  qed
  let ?s = "r\<lparr>mConnectionIds := mConnectionIds r - {c}\<rparr>"
  have "pool_ok r" using r q(2) by (simp add: pool_ok_but_def users_ok_def)
  then have "pool_ok ?s" by (rule pool_ok_cong) simp_all
  moreover have "handleClose c p = Some ?s" unfolding handleClose_def q(1) using r(1) by simp
  ultimately show thesis using that [of ?s] q(3) r by (auto simp: owners_def)
qed

section \<open>Allocation and eviction\<close>

lemma find_SomeD: "find P xs = Some x \<Longrightarrow> x \<in> set xs \<and> P x"
  by (induction xs) (auto split: if_splits)

lemma find_free_find:
  "set bs \<subseteq> dom bufs \<Longrightarrow> find_free compatible params bufs bs = Some (find (\<lambda>b. compatible params (mConfig (the (bufs b)))) bs)"
  by (induction bs) (auto split: option.splits)

lemma recycle_stats:
  assumes "stats_ok p" "mBuffers p b = Some i" "b \<in> mFreeBuffers p" "finite (dom (mBuffers p))"
  shows "stats_ok ((stat (onBufferRecycled (mAllocSize i)) p)\<lparr>mFreeBuffers := mFreeBuffers p - {b}\<rparr>)"
proof -
  let ?U = "dom (mBuffers p) - mFreeBuffers p"
  have b: "alloc_size (mBuffers p) b = mAllocSize i" "b \<notin> ?U" "finite ?U" using assms by (auto simp: alloc_size_def)
  have U: "dom (mBuffers p) - (mFreeBuffers p - {b}) = insert b ?U" using assms(2) by auto
  show ?thesis using assms(1) b unfolding stats_ok_def by (simp add: onBufferRecycled_def U)
qed

lemma free_users:
  assumes "pool_ok p" "b \<in> mFreeBuffers p"
  obtains i where "mBuffers p b = Some i" "\<not> mInvalidated i" "owners b p = {}" "transfers b p = {}"
proof -
  have u: "counts_ok p" "free_ok {} p" using assms(1) by (auto simp: pool_ok_but_def core_ok_def)
  obtain i where i: "mBuffers p b = Some i" "mOwnerCount i = 0" "mTransactionCount i = 0" "\<not> mInvalidated i" using u(2) assms(2) by (auto simp: free_ok_def)
  have "card (owners b p) = 0" "card (transfers b p) = 0" using u(1) i by (auto simp: counts_ok_def)
  then show thesis using that i finite_owners [OF u(1)] finite_transfers [OF u(1)] by simp
qed

lemma getFreeBuffer_ok:
  assumes ok: "pool_ok p"
  obtains (none) "getFreeBuffer compatible params p = Some (None, p)"
      "\<And>b i. b \<in> mFreeBuffers p \<Longrightarrow> mBuffers p b = Some i \<Longrightarrow> \<not> compatible params (mConfig i)"
    | (some) b i where "getFreeBuffer compatible params p =
          Some (Some (b, mAllocation i), (stat (onBufferRecycled (mAllocSize i)) p)\<lparr>mFreeBuffers := mFreeBuffers p - {b}\<rparr>)"
      "b \<in> mFreeBuffers p" "mBuffers p b = Some i" "compatible params (mConfig i)"
      "pool_ok_but {b} ((stat (onBufferRecycled (mAllocSize i)) p)\<lparr>mFreeBuffers := mFreeBuffers p - {b}\<rparr>)"
proof -
  have u: "counts_ok p" "free_ok {} p" "stats_ok p" "users_ok p" "finite (dom (mBuffers p))" using ok by (auto simp: pool_ok_but_def core_ok_def counts_ok_def)
  have sub: "mFreeBuffers p \<subseteq> dom (mBuffers p)" using u(2) by (auto simp: free_ok_def)
  then have fin: "finite (mFreeBuffers p)" using u(5) finite_subset by blast
  let ?f = "\<lambda>b. compatible params (mConfig (the (mBuffers p b)))"
  have ff: "find_free compatible params (mBuffers p) (sorted_list_of_set (mFreeBuffers p)) = Some (find ?f (sorted_list_of_set (mFreeBuffers p)))"
    using find_free_find sub fin by simp
  show thesis
  proof (cases "find ?f (sorted_list_of_set (mFreeBuffers p))")
    case None
    have "getFreeBuffer compatible params p = Some (None, p)" using ff None by (simp add: getFreeBuffer_def)
    moreover have "\<not> compatible params (mConfig i)" if "b \<in> mFreeBuffers p" "mBuffers p b = Some i" for b i
      using None that fin by (auto simp: find_None_iff)
    ultimately show thesis by (rule none)
  next
    case (Some b)
    then have b: "b \<in> mFreeBuffers p" "?f b" using fin by (auto dest: find_SomeD)
    obtain i where i: "mBuffers p b = Some i" using b(1) sub by auto
    let ?q = "(stat (onBufferRecycled (mAllocSize i)) p)\<lparr>mFreeBuffers := mFreeBuffers p - {b}\<rparr>"
    have "counts_ok ?q" by (rule counts_ok_cong [OF u(1)]) simp_all
    moreover have "free_ok {b} ?q" using u(2) by (auto simp: free_ok_def)
    moreover have "stats_ok ?q" by (rule recycle_stats [OF u(3) i b(1) u(5)])
    ultimately have "pool_ok_but {b} ?q" using u(4) by (simp add: pool_ok_but_def core_ok_def users_ok_def)
    then show thesis using some ff Some b i by (simp add: getFreeBuffer_def)
  qed
qed

lemma addNewBuffer_ok:
  assumes ok: "pool_ok p" and new: "mBuffers p (mSeq p) = None"
  obtains p' where "addNewBuffer alloc sz params p = (RS_OK, Some (mSeq p, alloc), p')" "pool_ok_but {mSeq p} p'"
    "mBuffers p' = (mBuffers p)(mSeq p \<mapsto> new_buffer (mSeq p) alloc sz params)" "owners (mSeq p) p' = {}" "mUsingConnections p' = mUsingConnections p"
proof -
  have u: "counts_ok p" "free_ok {} p" "stats_ok p" "users_ok p" "finite (dom (mBuffers p))" using ok by (auto simp: pool_ok_but_def core_ok_def counts_ok_def)
  let ?b = "mSeq p"
  define q where "q = (stat (onBufferAllocated sz) (p\<lparr>mSeq := if ?b + 1 = SYNC_BUFFERID then 0 else ?b + 1\<rparr>))\<lparr>mBuffers := (mBuffers p)(?b \<mapsto> new_buffer ?b alloc sz params)\<rparr>"
  have "\<forall>b. owners b p \<noteq> {} \<longrightarrow> b \<in> dom (mBuffers p)" "\<forall>t ts. mTransactions p t = Some ts \<longrightarrow> mBufferId ts \<in> dom (mBuffers p)"
    using u(1) by (simp_all add: counts_ok_def)
  then have none: "owners ?b p = {}" "transfers ?b p = {}" using new unfolding transfers_def by (auto simp: domIff) (metis option.simps(3))
  have same: "owners x q = owners x p" "transfers x q = transfers x p" for x by (simp_all add: q_def owners_def transfers_def)
  have "counts_ok q" using u(1) none unfolding counts_ok_def same by (auto simp: q_def new_buffer_def)
  moreover have "free_ok {?b} q" using u(2) new by (auto simp: free_ok_def q_def)
  moreover have "stats_ok q"
  proof -
    have nb: "?b \<notin> dom (mBuffers p)" "?b \<notin> mFreeBuffers p" using new u(2) by (auto simp: free_ok_def)
    then have d: "insert ?b (dom (mBuffers p)) - mFreeBuffers p = insert ?b (dom (mBuffers p) - mFreeBuffers p)" by auto
    have eq: "sum (alloc_size ((mBuffers p)(?b \<mapsto> x))) S = sum (alloc_size (mBuffers p)) S" if "?b \<notin> S" for S x
      using that by (intro sum.cong) (auto simp: alloc_size_def)
    have a: "alloc_size ((mBuffers p)(?b \<mapsto> new_buffer ?b alloc sz params)) ?b = sz" by (simp add: alloc_size_def new_buffer_def)
    show ?thesis using u(3,5) nb eq [OF nb(1)] eq [of "dom (mBuffers p) - mFreeBuffers p"] new
      unfolding stats_ok_def by (simp add: q_def onBufferAllocated_def d a)
  qed
  ultimately have "pool_ok_but {?b} q" using u(4) by (simp add: pool_ok_but_def core_ok_def users_ok_def q_def)
  moreover have "addNewBuffer alloc sz params p = (RS_OK, Some (?b, alloc), q)" using new by (simp add: addNewBuffer_def Let_def q_def)
  ultimately show thesis using that [of q] none(1) same(1) by (simp add: q_def)
qed

lemma evict_free_ok:
  assumes "pool_ok p" "unused b p = Some i"
  shows "pool_ok (evict_free b i p)"
proof -
  have u: "counts_ok p" "free_ok {} p" "stats_ok p" "users_ok p" "finite (dom (mBuffers p))" using assms(1) by (auto simp: pool_ok_but_def core_ok_def counts_ok_def)
  have i: "mBuffers p b = Some i" "mOwnerCount i = 0" "mTransactionCount i = 0" using assms(2) by (auto simp: unused_def split: option.splits if_splits)
  then have b: "b \<in> mFreeBuffers p" using u(2) by (simp add: free_ok_def)
  have "counts_ok (evict_free b i p)" by (rule counts_ok_remove [OF u(1) i]) (simp_all add: evict_free_def)
  moreover have "free_ok {} (evict_free b i p)" using u(2) by (auto simp: free_ok_def evict_free_def)
  moreover have "stats_ok (evict_free b i p)" using remove_stats [OF u(3) i(1) u(5) b] by (simp add: evict_free_def)
  ultimately show ?thesis using u(4) by (simp add: pool_ok_but_def core_ok_def users_ok_def evict_free_def)
qed

lemma cleanUp_loop_ok: "pool_ok p \<Longrightarrow> pool_ok (cleanUp_loop clear bs p)"
  by (induction clear bs p rule: cleanUp_loop.induct) (auto intro: evict_free_ok split: option.splits)

lemma pool_cleanUp_ok: "pool_ok p \<Longrightarrow> pool_ok (pool_cleanUp clear p)"
  unfolding pool_cleanUp_def by (auto intro!: cleanUp_loop_ok elim!: pool_ok_cong)

lemma cleanUp_loop_fields [simp]:
  "mUsingConnections (cleanUp_loop clear bs p) = mUsingConnections p" "mTransactions (cleanUp_loop clear bs p) = mTransactions p"
  by (induction clear bs p rule: cleanUp_loop.induct) (auto simp: evict_free_def split: option.splits)

lemma owners_cleanUp [simp]: "owners b (pool_cleanUp clear p) = owners b p" "transfers b (pool_cleanUp clear p) = transfers b p"
  by (simp_all add: pool_cleanUp_def owners_def transfers_def)

section \<open>Invalidation\<close>

lemma invalidate_free_ok:
  "pool_ok p \<Longrightarrow> pool_ok (invalidate_free from to bs p)
     \<and> mFreeBuffers (invalidate_free from to bs p) = mFreeBuffers p - {b \<in> set bs. isBufferInRange from to b}"
proof (induction bs arbitrary: p)
  case (Cons b bs)
  show ?case
  proof (cases "unused b p")
    case None
    have "b \<notin> mFreeBuffers p" using None Cons.prems by (auto simp: unused_def pool_ok_but_def core_ok_def free_ok_def split: option.splits if_splits)
    then show ?thesis using Cons None by auto
  next
    case (Some i)
    then have "pool_ok (evict_free b i p)" by (rule evict_free_ok [OF Cons.prems])
    from Cons.IH [OF this] Cons.IH [OF Cons.prems] show ?thesis using Some by (auto simp: evict_free_def)
  qed
qed simp

lemma mark_invalid_ok:
  assumes ok: "pool_ok p" and free: "\<forall>b\<in>mFreeBuffers p. \<not> R b"
  shows "pool_ok (p\<lparr>mBuffers := (\<lambda>b. map_option (\<lambda>i. if R b then i\<lparr>mInvalidated := True\<rparr> else i) (mBuffers p b))\<rparr>)" (is "pool_ok ?q")
proof -
  have u: "counts_ok p" "free_ok {} p" "stats_ok p" "users_ok p" using ok by (auto simp: pool_ok_but_def core_ok_def)
  have d: "dom (mBuffers ?q) = dom (mBuffers p)" by (auto simp: dom_def)
  have same: "owners x ?q = owners x p" "transfers x ?q = transfers x p" for x by (simp_all add: owners_def transfers_def)
  have "counts_ok ?q" using u(1) unfolding counts_ok_def same d by auto
  moreover have "free_ok {} ?q" using u(2) free by (fastforce simp: free_ok_def)
  moreover have "alloc_size (mBuffers ?q) = alloc_size (mBuffers p)" by (auto simp: alloc_size_def fun_eq_iff split: option.split)
  then have "stats_ok ?q" using u(3) unfolding stats_ok_def d by simp
  ultimately show ?thesis using u(4) by (simp add: pool_ok_but_def core_ok_def users_ok_def)
qed

lemma request_ok: "pool_ok p \<Longrightarrow> pool_ok (fst (onInvalidationRequest needsAck from to left (p, a)))"
  by (erule pool_ok_cong) (simp_all add: onInvalidationRequest_def Let_def)

lemma pool_flush_ok:
  assumes "pool_ok p"
  shows "pool_ok (fst (pool_flush (p, a)))"
proof -
  let ?p = "p\<lparr>mStartSeq := mSeq p\<rparr>" and ?R = "isBufferInRange (mStartSeq p) (mSeq p)"
  have ok: "pool_ok ?p" by (rule pool_ok_cong [OF assms]) simp_all
  have "finite (mFreeBuffers p)" using assms by (auto simp: pool_ok_but_def core_ok_def counts_ok_def free_ok_def intro: finite_subset [of _ "dom (mBuffers p)"])
  moreover define q where "q = invalidate_free (mStartSeq p) (mSeq p) (sorted_list_of_set (mFreeBuffers p)) ?p"
  ultimately have q: "pool_ok q" "\<forall>b\<in>mFreeBuffers q. \<not> ?R b"
    using invalidate_free_ok [OF ok] by auto
  show ?thesis using ok request_ok [OF mark_invalid_ok [OF q]]
    by (simp add: pool_flush_def invalidate_def q_def [symmetric] Let_def)
qed

section \<open>Operations\<close>

lemma own_allocated_ok:
  assumes "pool_ok_but {b} p" "mBuffers p b = Some i"
  obtains p' where "own_allocated c b p = Some p'" "pool_ok p'" "owners b p' = insert c (owners b p)" "\<forall>x. x \<noteq> b \<longrightarrow> owners x p' = owners x p"
proof -
  obtain r q where q: "handleOwnBuffer c b p = Some (r, q)" "pool_ok q" using own_ok [OF assms] by metis
  have "owners b q = insert c (owners b p)" "\<forall>x. x \<noteq> b \<longrightarrow> owners x q = owners x p" using own_fields(12) [OF q(1)] by (auto simp: owners_def)
  then show thesis using that [of "pool_cleanUp False q"] q by (simp add: own_allocated_def pool_cleanUp_ok)
qed

text \<open>A recycled buffer had no user, fits the request, and belongs to the caller alone.\<close>

lemma allocate_recycle_ok:
  assumes "pool_ok p" "credible_input inp p"
  obtains q r p' where "processStatusMessages inp p = Some q" "pool_ok q" "allocate_recycle compatible c params inp p = Some (r, p')" "pool_ok p'"
    "\<And>b h. r = Some (b, h) \<Longrightarrow> owners b q = {} \<and> transfers b q = {} \<and> owners b p' = {c}
       \<and> (\<exists>i. mBuffers q b = Some i \<and> mAllocation i = h \<and> compatible params (mConfig i) \<and> \<not> mInvalidated i)"
    "r = None \<Longrightarrow> \<forall>b\<in>mFreeBuffers p'. \<forall>i. mBuffers p' b = Some i \<longrightarrow> \<not> compatible params (mConfig i)"
proof -
  obtain q where q: "processStatusMessages inp p = Some q" "pool_ok q" using processStatusMessages_ok [OF assms] .
  show thesis
  proof (cases rule: getFreeBuffer_ok [OF q(2), of compatible params, case_names none some])
    case none
    then show thesis using that [of q None q] q by (auto simp: allocate_recycle_def)
  next
    case (some b i)
    let ?r = "(stat (onBufferRecycled (mAllocSize i)) q)\<lparr>mFreeBuffers := mFreeBuffers q - {b}\<rparr>"
    have i: "mBuffers ?r b = Some i" using some(3) by simp
    obtain p' where p': "own_allocated c b ?r = Some p'" "pool_ok p'" "owners b p' = insert c (owners b ?r)"
      using own_allocated_ok [OF some(5) i] by metis
    obtain j where j: "mBuffers q b = Some j" "\<not> mInvalidated j" "owners b q = {}" "transfers b q = {}" by (rule free_users [OF q(2) some(2)])
    have "owners b ?r = {}" using j(3) by (simp add: owners_def)
    then show thesis using that [of q "Some (b, mAllocation i)" p'] q some j p' by (simp add: allocate_recycle_def)
  qed
qed

lemma allocate_new_ok:
  assumes ok: "pool_ok p"
  obtains s r p' where "allocate_new c params ans p = Some (s, r, p')" "pool_ok p'"
    "\<And>b h. r = Some (b, h) \<Longrightarrow> b = mSeq p \<and> mBuffers p b = None \<and> owners b p' = {c}"
proof -
  obtain st alloc sz where ans: "ans = (st, alloc, sz)" by (cases ans)
  consider (refused) "st \<noteq> RS_OK" | (taken) "st = RS_OK" "mBuffers p (mSeq p) \<noteq> None" | (new) "st = RS_OK" "mBuffers p (mSeq p) = None" by blast
  then show thesis
  proof cases
    case refused
    then show thesis using that [of st None "pool_cleanUp False p"] ok by (simp add: allocate_new_def ans pool_cleanUp_ok)
  next
    case taken
    let ?q = "p\<lparr>mSeq := if mSeq p + 1 = SYNC_BUFFERID then 0 else mSeq p + 1\<rparr>"
    have "pool_ok (pool_cleanUp False ?q)" by (rule pool_cleanUp_ok, rule pool_ok_cong [OF ok]) simp_all
    then show thesis using that [of NO_MEMORY None "pool_cleanUp False ?q"] taken by (simp add: allocate_new_def ans addNewBuffer_def Let_def)
  next
    case new
    obtain q where q: "addNewBuffer alloc sz params p = (RS_OK, Some (mSeq p, alloc), q)" "pool_ok_but {mSeq p} q"
      "mBuffers q = (mBuffers p)(mSeq p \<mapsto> new_buffer (mSeq p) alloc sz params)" "owners (mSeq p) q = {}" using addNewBuffer_ok [OF ok new(2)] by metis
    have i: "mBuffers q (mSeq p) = Some (new_buffer (mSeq p) alloc sz params)" using q(3) by simp
    obtain p' where "own_allocated c (mSeq p) q = Some p'" "pool_ok p'" "owners (mSeq p) p' = {c}"
      using own_allocated_ok [OF q(2) i] q(4) by metis
    then show thesis using that [of RS_OK "Some (mSeq p, alloc)" p'] q(1) new by (simp add: allocate_new_def ans)
  qed
qed

lemma fetch_ok:
  assumes "pool_ok p" "credible_input inp p"
  obtains s h p' where "fetch c t b inp p = Some (s, h, p')" "pool_ok p'"
proof -
  obtain q where q: "processStatusMessages inp p = Some q" "pool_ok q" using processStatusMessages_ok [OF assms] .
  have cl: "pool_ok (pool_cleanUp False q)" by (rule pool_cleanUp_ok [OF q(2)])
  show thesis
  proof (cases "\<exists>ts. mTransactions q t = Some ts \<and> ms_contains (mPendingTransactions q) c t \<and> mSenderValidated ts \<and> mStatus ts = TRANSFER_FROM \<and> mBufferId ts = b")
    case False
    then have "fetch c t b inp p = Some (CRITICAL_ERROR, None, pool_cleanUp False q)" using q(1) by (auto simp: fetch_def split: option.split)
    then show thesis using that cl by blast
  next
    case True
    then obtain ts where ts: "mTransactions q t = Some ts" "ms_contains (mPendingTransactions q) c t" "mSenderValidated ts" "mStatus ts = TRANSFER_FROM" "mBufferId ts = b" by blast
    obtain i where i: "mBuffers q b = Some i" using transferred_not_free [of q t ts] q(2) ts(1,5) by (auto simp: pool_ok_but_def)
    let ?r = "q\<lparr>mTransactions := (mTransactions q)(t \<mapsto> ts\<lparr>mStatus := TRANSFER_FETCH\<rparr>)\<rparr>"
    have r: "pool_ok ?r" by (rule edit_transfer [OF q(2) ts(1)]) simp_all
    have cr: "counts_ok ?r" using r by (simp add: pool_ok_but_def core_ok_def)
    have "counts_ok (stat onBufferFetched ?r)" by (rule counts_ok_cong [OF cr]) simp_all
    then have "pool_ok (stat onBufferFetched ?r)" using r by (simp add: pool_ok_but_def core_ok_def free_ok_def stats_ok_def users_ok_def onBufferFetched_def)
    then show thesis using that q(1) ts i by (simp add: fetch_def)
  qed
qed

lemma register_ok: "pool_ok p \<Longrightarrow> pool_ok (snd (register_connection ob v i p))"
  by (auto simp: register_connection_def observer_open_def Let_def pool_ok_but_def core_ok_def counts_ok_def free_ok_def stats_ok_def users_ok_def
      owners_def transfers_def)

lemma close_ok:
  assumes "pool_ok p" "credible_input inp p"
  obtains p' where "close c inp p = Some (RS_OK, p')" "pool_ok p'" "\<forall>b. c \<notin> owners b p'" "\<forall>t ts. mTransactions p' t = Some ts \<longrightarrow> mReceiver ts \<noteq> c"
proof -
  obtain q where q: "processStatusMessages inp p = Some q" "pool_ok q" using processStatusMessages_ok [OF assms] .
  obtain r where r: "handleClose c q = Some r" "pool_ok r" "\<forall>b. owners b r = owners b q - {c}" "\<forall>t ts. mTransactions r t = Some ts \<longrightarrow> mReceiver ts \<noteq> c"
    using handleClose_ok [OF q(2)] by metis
  let ?s = "(snd (observer_close c r))\<lparr>mInvalidation := onClose c (mInvalidation (snd (observer_close c r)))\<rparr>"
  have s: "pool_ok ?s" using r(2)
    by (auto simp: observer_close_def pool_ok_but_def core_ok_def counts_ok_def free_ok_def stats_ok_def users_ok_def owners_def transfers_def)
  have f: "mUsingConnections ?s = mUsingConnections r" "mTransactions ?s = mTransactions r" by (simp_all add: observer_close_def)
  have "owners b (pool_cleanUp True ?s) = owners b r" "mTransactions (pool_cleanUp True ?s) = mTransactions r" for b
    using f by (simp_all add: pool_cleanUp_def owners_def)
  then show thesis using that [of "pool_cleanUp True ?s"] q(1) r s by (simp add: close_def Let_def pool_cleanUp_ok)
qed

end
