(* ===== verification/Pool_Protocol.thy ===== *)
theory Pool_Protocol
  imports Pool_Ownership
begin

text \<open>
  Runs of the buffer pool: the invariant over every sequence of operations, what a client gets from
  an allocation, the arrival order of the messages of a transfer, what a flush announces, and what
  messages that are not credible can do.
\<close>

section \<open>Runs\<close>

text \<open>
  The operations of the accessor, in any order and with any credible messages. Other pools change the
  list of the polling thread.
\<close>

inductive pool_step :: "buffer_pool \<times> accessor_invalidator \<Rightarrow> buffer_pool \<times> accessor_invalidator \<Rightarrow> bool" where
  step_connect: "credible_input inp (snd (register_connection ob v (connection_id_of pid sq) p)) \<Longrightarrow>
    connect pid ob v inp (sq, p) = Some (st, r, sq', p') \<Longrightarrow> pool_step (p, a) (p', a)"
| step_close: "credible_input inp p \<Longrightarrow> close c inp p = Some (st, p') \<Longrightarrow> pool_step (p, a) (p', a)"
| step_recycle: "credible_input inp p \<Longrightarrow> allocate_recycle compatible c params inp p = Some (r, p') \<Longrightarrow> pool_step (p, a) (p', a)"
| step_new: "allocate_new c params ans p = Some (st, r, p') \<Longrightarrow> pool_step (p, a) (p', a)"
| step_fetch: "credible_input inp p \<Longrightarrow> fetch c t b inp p = Some (st, h, p') \<Longrightarrow> pool_step (p, a) (p', a)"
| step_cleanUp: "credible_input inp p \<Longrightarrow> cleanUp clear inp p = Some p' \<Longrightarrow> pool_step (p, a) (p', a)"
| step_flush: "credible_input inp p \<Longrightarrow> flush inp (p, a) = Some s \<Longrightarrow> pool_step (p, a) s"
| step_ack: "credible_input inp p \<Longrightarrow> handleInvalidateAck inp (p, a) = Some (r, s) \<Longrightarrow> pool_step (p, a) s"
| step_others: "pool_step (p, a) (p, a')"

lemma connect_ok:
  assumes "pool_ok p" "credible_input inp (snd (register_connection ob v (connection_id_of pid sq) p))"
  obtains st r sq' p' where "connect pid ob v inp (sq, p) = Some (st, r, sq', p')" "pool_ok p'"
proof -
  let ?q = "snd (register_connection ob v (connection_id_of pid sq) p)"
  obtain q where "processStatusMessages inp ?q = Some q" "pool_ok q" using processStatusMessages_ok [OF register_ok [OF assms(1)] assms(2)] .
  then show thesis using that by (simp add: connect_def Let_def case_prod_beta pool_cleanUp_ok)
qed

lemma handleInvalidateAck_ok:
  assumes "pool_ok p" "credible_input inp p"
  obtains r p' a' where "handleInvalidateAck inp (p, a) = Some (r, p', a')" "pool_ok p'"
proof -
  obtain q where q: "processStatusMessages inp p = Some q" "pool_ok q" using processStatusMessages_ok [OF assms] .
  have "pool_ok (q\<lparr>mInvalidation := v\<rparr>)" for v by (rule pool_ok_cong [OF q(2)]) simp_all
  then show thesis using that q(1) by (simp add: handleInvalidateAck_def Let_def case_prod_beta)
qed

lemma pool_step_ok: "pool_step s t \<Longrightarrow> pool_ok (fst s) \<Longrightarrow> pool_ok (fst t)"
proof (induction rule: pool_step.induct)
  case (step_connect inp ob v pid sq p st r sq' p')
  then obtain st' r' sq'' q where "connect pid ob v inp (sq, p) = Some (st', r', sq'', q)" "pool_ok q" using connect_ok by (metis fst_conv)
  then show ?case using step_connect by simp
next
  case (step_close inp p c st p')
  then obtain q where "close c inp p = Some (RS_OK, q)" "pool_ok q" using close_ok by (metis fst_conv)
  then show ?case using step_close by simp
next
  case (step_recycle inp p compatible c params r p')
  then obtain r' q where "allocate_recycle compatible c params inp p = Some (r', q)" "pool_ok q" using allocate_recycle_ok by (metis fst_conv)
  then show ?case using step_recycle by simp
next
  case (step_new c params ans p st r p')
  then have "pool_ok p" by simp
  then obtain st' r' q where "allocate_new c params ans p = Some (st', r', q)" "pool_ok q" by (rule allocate_new_ok [where c = c and params = params and ans = ans])
  then show ?case using step_new by simp
next
  case (step_fetch inp p c t b st h p')
  then obtain st' h' q where "fetch c t b inp p = Some (st', h', q)" "pool_ok q" using fetch_ok by (metis fst_conv)
  then show ?case using step_fetch by simp
next
  case (step_cleanUp inp p clear p')
  then obtain q where "processStatusMessages inp p = Some q" "pool_ok q" using processStatusMessages_ok by (metis fst_conv)
  then show ?case using step_cleanUp by (auto simp: cleanUp_def pool_cleanUp_ok)
next
  case (step_flush inp p a s)
  then obtain q where "processStatusMessages inp p = Some q" "pool_ok q" using processStatusMessages_ok by (metis fst_conv)
  then show ?case using step_flush pool_flush_ok by (auto simp: flush_def)
next
  case (step_ack inp p a r s)
  then obtain r' q a' where "handleInvalidateAck inp (p, a) = Some (r', q, a')" "pool_ok q" using handleInvalidateAck_ok by (metis fst_conv)
  then show ?case using step_ack by simp
qed simp

interpretation pooling: invariant_system "\<lambda>s. \<exists>now v sq. fst s = new_pool now v sq" pool_step "\<lambda>s. pool_ok (fst s)"
  by unfold_locales (auto simp: new_pool_ok dest: pool_step_ok)

lemma reachable_pool_ok: "pool_step\<^sup>*\<^sup>* (new_pool now v sq, a\<^sub>0) (p, a) \<Longrightarrow> pool_ok p"
  using pooling.reachable_inv [of "(new_pool now v sq, a\<^sub>0)" "(p, a)"] by auto

text \<open>
  C7: the accounts of the pool. After any operations with credible messages, the counts of a buffer
  are the number of connections that own it and of transfers under way; a buffer is free exactly
  when it is in the pool and nobody uses it; nobody owns or transfers a buffer that is not in the
  pool; and the statistics, taken modulo \<open>2 ^ 64\<close>, are the number and size of the buffers in the
  pool and of those that are not free.
\<close>

theorem pool_accounting:
  assumes "pool_step\<^sup>*\<^sup>* (new_pool now v sq, a\<^sub>0) (p, a)"
  shows "(\<forall>b. b \<in> mFreeBuffers p \<longleftrightarrow> mBuffers p b \<noteq> None \<and> owners b p = {} \<and> transfers b p = {})
    \<and> (\<forall>b i. mBuffers p b = Some i \<longrightarrow> mOwnerCount i = card (owners b p) \<and> mTransactionCount i = card (transfers b p))
    \<and> (\<forall>b. mBuffers p b = None \<longrightarrow> owners b p = {} \<and> transfers b p = {})
    \<and> mBuffersCached (mStats p) = of_nat (card (dom (mBuffers p)))
    \<and> mSizeInUse (mStats p) = (\<Sum>b\<in>dom (mBuffers p) - mFreeBuffers p. mAllocSize (the (mBuffers p b)))"
proof -
  have ok: "pool_ok p" by (rule reachable_pool_ok [OF assms])
  then have u: "counts_ok p" "free_ok {} p" "stats_ok p" by (auto simp: pool_ok_but_def core_ok_def)
  have cnt: "\<forall>b i. mBuffers p b = Some i \<longrightarrow> mOwnerCount i = card (owners b p) \<and> mTransactionCount i = card (transfers b p)"
    using u(1) by (simp add: counts_ok_def)
  have "b \<in> mFreeBuffers p \<longleftrightarrow> mBuffers p b \<noteq> None \<and> owners b p = {} \<and> transfers b p = {}" for b
    using u(2) cnt finite_owners [OF u(1), of b] finite_transfers [OF u(1), of b] by (auto simp: free_ok_def)
  moreover have "owners b p = {} \<and> transfers b p = {}" if "mBuffers p b = None" for b
    using u(1) that unfolding counts_ok_def transfers_def by (auto simp: domIff) (metis option.simps(3))
  moreover have "(\<Sum>b\<in>dom (mBuffers p) - mFreeBuffers p. alloc_size (mBuffers p) b) = (\<Sum>b\<in>dom (mBuffers p) - mFreeBuffers p. mAllocSize (the (mBuffers p b)))"
    by (rule sum.cong) (auto simp: alloc_size_def)
  ultimately show ?thesis using cnt u(3) unfolding stats_ok_def by (intro conjI allI impI) simp_all
qed

text \<open>
  C16: allocations are exclusive, and clients cannot make the pool fail by credible messages. The
  attempt to recycle returns; a buffer that it hands out had no owner, no transfer and no pending
  invalidation after the messages were processed, suits the parameters, and afterwards belongs to
  the caller alone; without one, no free buffer suits. A new buffer gets an id that is not in the
  pool. Closing a connection succeeds and leaves nothing to it.
\<close>

theorem pool_allocations_exclusive:
  assumes "pool_step\<^sup>*\<^sup>* (new_pool now v sq, a\<^sub>0) (p, a)" "credible_input inp p"
  shows "(\<exists>q r p'. processStatusMessages inp p = Some q \<and> allocate_recycle compatible c params inp p = Some (r, p')
      \<and> (case r of
           Some (b, h) \<Rightarrow> owners b q = {} \<and> transfers b q = {} \<and> owners b p' = {c}
             \<and> (\<exists>i. mBuffers q b = Some i \<and> mAllocation i = h \<and> compatible params (mConfig i) \<and> \<not> mInvalidated i)
         | None \<Rightarrow> \<forall>b\<in>mFreeBuffers p'. \<not> compatible params (mConfig (the (mBuffers p' b)))))
    \<and> (\<exists>st r p'. allocate_new c params ans p = Some (st, r, p') \<and> (\<forall>b h. r = Some (b, h) \<longrightarrow> mBuffers p b = None \<and> owners b p' = {c}))
    \<and> (\<exists>p'. close c inp p = Some (RS_OK, p') \<and> (\<forall>b. c \<notin> owners b p') \<and> (\<forall>t ts. mTransactions p' t = Some ts \<longrightarrow> mReceiver ts \<noteq> c))"
proof -
  have ok: "pool_ok p" by (rule reachable_pool_ok [OF assms(1)])
  obtain q r p' where r: "processStatusMessages inp p = Some q" "allocate_recycle compatible c params inp p = Some (r, p')" "pool_ok p'"
    "\<And>b h. r = Some (b, h) \<Longrightarrow> owners b q = {} \<and> transfers b q = {} \<and> owners b p' = {c}
       \<and> (\<exists>i. mBuffers q b = Some i \<and> mAllocation i = h \<and> compatible params (mConfig i) \<and> \<not> mInvalidated i)"
    "r = None \<Longrightarrow> \<forall>b\<in>mFreeBuffers p'. \<forall>i. mBuffers p' b = Some i \<longrightarrow> \<not> compatible params (mConfig i)"
    by (rule allocate_recycle_ok [OF ok assms(2), of compatible c params]) blast
  have "mFreeBuffers p' \<subseteq> dom (mBuffers p')" using r(3) by (auto simp: pool_ok_but_def core_ok_def free_ok_def)
  then have "case r of
           Some (b, h) \<Rightarrow> owners b q = {} \<and> transfers b q = {} \<and> owners b p' = {c}
             \<and> (\<exists>i. mBuffers q b = Some i \<and> mAllocation i = h \<and> compatible params (mConfig i) \<and> \<not> mInvalidated i)
         | None \<Rightarrow> \<forall>b\<in>mFreeBuffers p'. \<not> compatible params (mConfig (the (mBuffers p' b)))"
    using r(4,5) by (auto split: option.split)
  moreover have "\<exists>st r p'. allocate_new c params ans p = Some (st, r, p') \<and> (\<forall>b h. r = Some (b, h) \<longrightarrow> mBuffers p b = None \<and> owners b p' = {c})"
    using allocate_new_ok [OF ok, of c params ans] by (metis (no_types, lifting))
  moreover have "\<exists>p'. close c inp p = Some (RS_OK, p') \<and> (\<forall>b. c \<notin> owners b p') \<and> (\<forall>t ts. mTransactions p' t = Some ts \<longrightarrow> mReceiver ts \<noteq> c)"
    using close_ok [OF ok assms(2), of c] by metis
  ultimately show ?thesis using r(1,2) by blast
qed

section \<open>The order of messages\<close>

text \<open>The pool after a transfer.\<close>

definition transferred :: "connection_id \<Rightarrow> buffer_id \<Rightarrow> internal_buffer \<Rightarrow> transaction_id \<Rightarrow> buffer_pool \<Rightarrow> buffer_pool" where
  "transferred B b i t p =
     (stat onBufferSent p)\<lparr>mUsingBuffers := snd (ms_insert (mUsingBuffers p) B b), mUsingConnections := snd (ms_insert (mUsingConnections p) b B),
       mPendingTransactions := snd (ms_erase (snd (ms_insert (mPendingTransactions p) B t)) B t),
       mBuffers := (mBuffers p)(b \<mapsto> i\<lparr>mOwnerCount := mOwnerCount i + (if (B, b) \<in> ms_rel (mUsingBuffers p) then 0 else 1)\<rparr>)\<rparr>"

lemma result_calc:
  assumes "mTransactions p t = Some ts" "(B, t) \<in> ms_rel (mPendingTransactions p)" "mBuffers p b = Some i"
    "mOwnerCount i \<noteq> 0 \<or> (B, b) \<notin> ms_rel (mUsingBuffers p)" "mTransactionCount i = Suc n"
  shows "handleTransferResult \<lparr>transactionId = t, bufferId = b, newStatus = TRANSFER_OK, connectionId = B, targetConnectionId = y\<rparr> p = Some (True,
     p\<lparr>mUsingBuffers := snd (ms_insert (mUsingBuffers p) B b), mUsingConnections := snd (ms_insert (mUsingConnections p) b B),
       mPendingTransactions := snd (ms_erase (mPendingTransactions p) B t),
       mCompletedTransactions := (if mSenderValidated ts then mCompletedTransactions p else insert t (mCompletedTransactions p)),
       mTransactions := (mTransactions p)(t := None),
       mBuffers := (mBuffers p)(b \<mapsto> i\<lparr>mOwnerCount := mOwnerCount i + (if (B, b) \<in> ms_rel (mUsingBuffers p) then 0 else 1), mTransactionCount := n\<rparr>)\<rparr>)"
proof -
  let ?m = "\<lparr>transactionId = t, bufferId = b, newStatus = TRANSFER_OK, connectionId = B, targetConnectionId = y\<rparr>"
  have ts: "mTransactions p (transactionId ?m) = Some ts" "(connectionId ?m, transactionId ?m) \<in> ms_rel (mPendingTransactions p)" using assms by simp_all
  show ?thesis using assms(3-5) by (subst handleTransferResult_known [OF ts], cases "(B, b) \<in> ms_rel (mUsingBuffers p)")
    (simp_all add: handleOwnBuffer_def Let_def case_prod_beta settle_buffer_def size_dec_def)
qed

text \<open>The messages that sender and receiver post for a transfer.\<close>

definition transfer_to_msg :: "connection_id \<Rightarrow> connection_id \<Rightarrow> buffer_id \<Rightarrow> transaction_id \<Rightarrow> buffer_status_message" where
  "transfer_to_msg A B b t = \<lparr>transactionId = t, bufferId = b, newStatus = TRANSFER_TO, connectionId = A, targetConnectionId = B\<rparr>"

definition transfer_from_msg :: "connection_id \<Rightarrow> buffer_id \<Rightarrow> transaction_id \<Rightarrow> buffer_status_message" where
  "transfer_from_msg B b t = \<lparr>transactionId = t, bufferId = b, newStatus = TRANSFER_FROM, connectionId = B, targetConnectionId = - 1\<rparr>"

definition transfer_ok_msg :: "connection_id \<Rightarrow> buffer_id \<Rightarrow> transaction_id \<Rightarrow> buffer_status_message" where
  "transfer_ok_msg B b t = \<lparr>transactionId = t, bufferId = b, newStatus = TRANSFER_OK, connectionId = B, targetConnectionId = - 1\<rparr>"

lemmas transfer_msgs = transfer_to_msg_def transfer_from_msg_def transfer_ok_msg_def

lemma transfer_calc:
  assumes i: "mBuffers p b = Some i" "mOwnerCount i \<noteq> 0" "ms_contains (mUsingBuffers p) A b" "B \<in> mConnectionIds p"
    and t: "mTransactions p t = None" "t \<notin> mCompletedTransactions p"
  shows "handle_messages [transfer_to_msg A B b t, transfer_from_msg B b t, transfer_ok_msg B b t] p = Some (transferred B b i t p)"
    "handle_messages [transfer_from_msg B b t, transfer_to_msg A B b t, transfer_ok_msg B b t] p = Some (transferred B b i t p)"
    "handle_messages [transfer_from_msg B b t, transfer_ok_msg B b t, transfer_to_msg A B b t] p = Some (transferred B b i t p)"
proof -
  let ?j = "i\<lparr>mTransactionCount := Suc (mTransactionCount i)\<rparr>" and ?pt = "snd (ms_insert (mPendingTransactions p) B t)"
  let ?begun = "\<lambda>ts. (stat onBufferSent p)\<lparr>mTransactions := (mTransactions p)(t \<mapsto> ts), mPendingTransactions := ?pt, mBuffers := (mBuffers p)(b \<mapsto> ?j)\<rparr>"
  let ?ts = "\<lambda>s. \<lparr>tsId = t, mBufferId = b, mSender = A, mReceiver = B, mStatus = s, tsTimestampUs = mTimestampUs p, mSenderValidated = True\<rparr>"
  let ?tf = "\<lparr>tsId = t, mBufferId = b, mSender = - 1, mReceiver = B, mStatus = TRANSFER_FROM, tsTimestampUs = mTimestampUs p, mSenderValidated = False\<rparr>"
  have to: "handle_message (transfer_to_msg A B b t) p = Some (?begun (?ts TRANSFER_TO))"
    using i t by (simp add: handle_message_def transfer_to_msg_def handleTransferTo_def Let_def new_transaction_def)
  have frm: "handle_message (transfer_from_msg B b t) p = Some (?begun ?tf)"
    using i t by (simp add: handle_message_def transfer_from_msg_def handleTransferFrom_def Let_def new_transaction_def)
  have frm2: "handle_message (transfer_from_msg B b t) (?begun (?ts TRANSFER_TO)) = Some (?begun (?ts TRANSFER_FROM))"
    by (simp add: handle_message_def transfer_from_msg_def handleTransferFrom_def Let_def)
  have to2: "handle_message (transfer_to_msg A B b t) (?begun ?tf) = Some (?begun (?ts TRANSFER_FROM))"
    using i t by (simp add: handle_message_def transfer_to_msg_def handleTransferTo_def Let_def)
  have res: "handle_message (transfer_ok_msg B b t) (?begun ts) = Some ((transferred B b i t p)\<lparr>mCompletedTransactions :=
      if mSenderValidated ts then mCompletedTransactions p else insert t (mCompletedTransactions p)\<rparr>)" for ts
    using result_calc [of "?begun ts" t ts B b ?j "mTransactionCount i" "- 1"] i(2) t
    by (auto simp: handle_message_def transfer_ok_msg_def transferred_def fun_upd_idem intro!: buffer_pool.equality)
  have to3: "handle_message (transfer_to_msg A B b t) ((transferred B b i t p)\<lparr>mCompletedTransactions := insert t (mCompletedTransactions p)\<rparr>) = Some (transferred B b i t p)"
    using t by (simp add: handle_message_def transfer_to_msg_def handleTransferTo_def Let_def transferred_def)
  have same: "(transferred B b i t p)\<lparr>mCompletedTransactions := mCompletedTransactions p\<rparr> = transferred B b i t p" by (simp add: transferred_def stat_def)
  show "handle_messages [transfer_to_msg A B b t, transfer_from_msg B b t, transfer_ok_msg B b t] p = Some (transferred B b i t p)"
    by (simp add: to frm2 res same)
  show "handle_messages [transfer_from_msg B b t, transfer_to_msg A B b t, transfer_ok_msg B b t] p = Some (transferred B b i t p)"
    by (simp add: frm to2 res same)
  show "handle_messages [transfer_from_msg B b t, transfer_ok_msg B b t, transfer_to_msg A B b t] p = Some (transferred B b i t p)"
    by (simp add: frm to3 res)
qed
text \<open>
  C19: the order in which the messages of a transfer arrive does not matter. The sender announces the
  transfer in its queue, the receiver reports in its own that it waits and then that it has the
  buffer; the pool may read them in any of three orders. The resulting pool is the same: the
  receiver owns the buffer besides the owners it had, and nothing of the transfer is left.
\<close>

theorem transfer_order_irrelevant:
  assumes "pool_step\<^sup>*\<^sup>* (new_pool now v sq, a\<^sub>0) (p, a)" "A \<in> owners b p" "B \<in> mConnectionIds p"
    "mTransactions p t = None" "t \<notin> mCompletedTransactions p"
  shows "\<exists>p'. handle_messages [transfer_to_msg A B b t, transfer_from_msg B b t, transfer_ok_msg B b t] p = Some p'
    \<and> handle_messages [transfer_from_msg B b t, transfer_to_msg A B b t, transfer_ok_msg B b t] p = Some p'
    \<and> handle_messages [transfer_from_msg B b t, transfer_ok_msg B b t, transfer_to_msg A B b t] p = Some p'
    \<and> owners b p' = insert B (owners b p) \<and> (\<forall>x. x \<noteq> b \<longrightarrow> owners x p' = owners x p)
    \<and> mTransactions p' = mTransactions p \<and> mCompletedTransactions p' = mCompletedTransactions p \<and> mFreeBuffers p' = mFreeBuffers p"
proof -
  have ok: "counts_ok p" "users_ok p" using reachable_pool_ok [OF assms(1)] by (auto simp: pool_ok_but_def core_ok_def)
  obtain i where i: "mBuffers p b = Some i" using owned_exists [OF ok(1)] assms(2) by (auto simp: owners_def)
  then have "mOwnerCount i = card (owners b p)" using ok(1) by (simp add: counts_ok_def)
  then have "mOwnerCount i \<noteq> 0" using assms(2) finite_owners [OF ok(1), of b] by auto
  moreover have "ms_contains (mUsingBuffers p) A b" using assms(2) ok(2) by (auto simp: ms_contains_rel users_ok_def owners_def)
  ultimately have "handle_messages [transfer_to_msg A B b t, transfer_from_msg B b t, transfer_ok_msg B b t] p = Some (transferred B b i t p)"
    "handle_messages [transfer_from_msg B b t, transfer_to_msg A B b t, transfer_ok_msg B b t] p = Some (transferred B b i t p)"
    "handle_messages [transfer_from_msg B b t, transfer_ok_msg B b t, transfer_to_msg A B b t] p = Some (transferred B b i t p)"
    using transfer_calc [OF i] assms(3-5) by blast+
  moreover have "owners b (transferred B b i t p) = insert B (owners b p)" "\<forall>x. x \<noteq> b \<longrightarrow> owners x (transferred B b i t p) = owners x p"
    "mTransactions (transferred B b i t p) = mTransactions p" "mCompletedTransactions (transferred B b i t p) = mCompletedTransactions p"
    "mFreeBuffers (transferred B b i t p) = mFreeBuffers p" by (auto simp: owners_def transferred_def)
  ultimately show ?thesis by blast
qed

text \<open>
  C39: a connection can take a free buffer. \<open>handleTransferFrom\<close> does not ask who sends. When a
  connection reports a transfer of a free buffer that nobody sends, and then its success, it owns
  the buffer, which stays in the free list: the next allocation that the buffer suits gives it to
  another connection as well.
\<close>

theorem free_buffer_claimed:
  assumes "pool_step\<^sup>*\<^sup>* (new_pool now v sq, a\<^sub>0) (p, a)" "b \<in> mFreeBuffers p" "mTransactions p t = None"
    "\<forall>x\<in>mFreeBuffers p. \<forall>j. mBuffers p x = Some j \<longrightarrow> (compatible params (mConfig j) \<longleftrightarrow> x = b)"
  shows "\<exists>p' h q r. handle_messages [transfer_from_msg B b t, transfer_ok_msg B b t] p = Some p'
    \<and> owners b p' = {B} \<and> b \<in> mFreeBuffers p'
    \<and> getFreeBuffer compatible params p' = Some (Some (b, h), q) \<and> handleOwnBuffer C b q = Some (C \<noteq> B, r) \<and> owners b r = {B, C}"
proof -
  have ok: "pool_ok p" by (rule reachable_pool_ok [OF assms(1)])
  then have u: "users_ok p" "counts_ok p" "free_ok {} p" by (auto simp: pool_ok_but_def core_ok_def)
  obtain i where i: "mBuffers p b = Some i" "owners b p = {}" using free_users [OF ok assms(2)] by metis
  have cnt: "mOwnerCount i = 0" "mTransactionCount i = 0" using u(3) assms(2) i(1) by (auto simp: free_ok_def)
  have nB: "(x, b) \<notin> ms_rel (mUsingBuffers p)" for x using u(1) i(2) by (auto simp: users_ok_def owners_def)
  let ?tf = "\<lparr>tsId = t, mBufferId = b, mSender = - 1, mReceiver = B, mStatus = TRANSFER_FROM, tsTimestampUs = mTimestampUs p, mSenderValidated = False\<rparr>"
  let ?p1 = "(stat onBufferSent p)\<lparr>mTransactions := (mTransactions p)(t \<mapsto> ?tf), mPendingTransactions := snd (ms_insert (mPendingTransactions p) B t),
      mBuffers := (mBuffers p)(b \<mapsto> i\<lparr>mTransactionCount := Suc (mTransactionCount i)\<rparr>)\<rparr>"
  have m1: "handle_message (transfer_from_msg B b t) p = Some ?p1"
    using i assms(3) by (simp add: handle_message_def transfer_from_msg_def handleTransferFrom_def Let_def new_transaction_def)
  let ?m = "transfer_ok_msg B b t"
  obtain p' where p': "handleTransferResult ?m ?p1 = Some (True, p')" "mUsingConnections p' = snd (ms_insert (mUsingConnections p) b B)"
    "mUsingBuffers p' = snd (ms_insert (mUsingBuffers p) B b)" "mFreeBuffers p' = mFreeBuffers p" "mBuffers p' = (mBuffers p)(b \<mapsto> i\<lparr>mOwnerCount := Suc 0, mTransactionCount := 0\<rparr>)"
    using result_calc [of ?p1 t ?tf B b "i\<lparr>mTransactionCount := Suc (mTransactionCount i)\<rparr>" 0 "- 1"] nB cnt by (simp add: transfer_ok_msg_def)
  have o: "owners b p' = {B}" using p'(2) i(2) by (auto simp: owners_def)
  have fin: "finite (mFreeBuffers p)" using u(2,3) by (auto simp: counts_ok_def free_ok_def intro: finite_subset [of _ "dom (mBuffers p)"])
  have sub: "mFreeBuffers p \<subseteq> dom (mBuffers p)" using u(3) by (auto simp: free_ok_def)
  have suits: "compatible params (mConfig (the (mBuffers p' x))) \<longleftrightarrow> x = b" if "x \<in> mFreeBuffers p" for x
    using that assms(2,4) sub i(1) unfolding p'(5) by (cases "x = b") auto
  have "find (\<lambda>x. compatible params (mConfig (the (mBuffers p' x)))) (sorted_list_of_set (mFreeBuffers p)) = Some b"
  proof (cases "find (\<lambda>x. compatible params (mConfig (the (mBuffers p' x)))) (sorted_list_of_set (mFreeBuffers p))")
    case None
    then show ?thesis using suits [OF assms(2)] assms(2) fin by (auto simp: find_None_iff)
  next
    case (Some x)
    then show ?thesis using suits fin by (auto dest: find_SomeD)
  qed
  moreover have "set (sorted_list_of_set (mFreeBuffers p)) \<subseteq> dom (mBuffers p')" using sub fin p'(5) by auto
  ultimately have ff: "find_free compatible params (mBuffers p') (sorted_list_of_set (mFreeBuffers p)) = Some (Some b)" by (simp add: find_free_find)
  let ?j = "i\<lparr>mOwnerCount := Suc 0, mTransactionCount := 0\<rparr>"
  let ?q = "(stat (onBufferRecycled (mAllocSize ?j)) p')\<lparr>mFreeBuffers := mFreeBuffers p - {b}\<rparr>"
  have q: "getFreeBuffer compatible params p' = Some (Some (b, mAllocation i), ?q)" using ff p'(4,5) by (simp add: getFreeBuffer_def)
  obtain r where r: "handleOwnBuffer C b ?q = Some (C \<noteq> B, r)" using p'(3,5) nB
    by (cases "C = B") (simp_all add: handleOwnBuffer_def Let_def case_prod_beta)
  have "owners b r = {B, C}" using own_fields(12) [OF r] o by (auto simp: owners_def)
  moreover have "handle_message ?m ?p1 = Some p'" using p'(1) by (simp add: handle_message_def transfer_ok_msg_def)
  then have "handle_messages [transfer_from_msg B b t, ?m] p = Some p'" by (simp add: m1)
  ultimately show ?thesis using o q r p'(4) assms(2) by blast
qed

section \<open>Witnesses\<close>

text \<open>
  A pool with one connection, which allocates a buffer and releases it; and the pool with the
  buffer still owned and a second connection.
\<close>

definition demo_quiet :: pool_input where
  "demo_quiet = \<lparr>inpNow = 0, inpReads = (\<lambda>c. ([], True))\<rparr>"

definition demo_release :: pool_input where
  "demo_release = \<lparr>inpNow = 0, inpReads = (\<lambda>c. ([\<lparr>transactionId = 0, bufferId = 0, newStatus = NOT_USED, connectionId = 0, targetConnectionId = 0\<rparr>], True))\<rparr>"

definition demo_invalidator :: accessor_invalidator where
  "demo_invalidator = \<lparr>mAccessors = {}, mReady = False\<rparr>"

definition demo_conn :: connection_id where
  "demo_conn = 8589934597"

definition demo_opened :: buffer_pool where
  "demo_opened = snd (register_connection (Some 7) True demo_conn (new_pool 0 True 0))"

definition demo_owned :: buffer_pool where
  "demo_owned = snd (snd (the (allocate_new demo_conn [] (RS_OK, 5, 64) demo_opened)))"

definition demo_free :: buffer_pool where
  "demo_free = the (cleanUp False demo_release demo_owned)"

lemma quiet_changes: "getBufferStatusChanges (inpReads demo_quiet) cs = []"
  by (induction cs) (simp_all add: demo_quiet_def)

lemma quiet_process: "processStatusMessages demo_quiet p = Some (p\<lparr>mTimestampUs := 0\<rparr>)" "credible_input demo_quiet p"
  by (simp_all only: processStatusMessages_def credible_input_def quiet_changes) (simp_all add: demo_quiet_def)

lemma demo_id: "connection_id_of 2 5 = demo_conn"
  by (simp add: connection_id_of_def demo_conn_def)

lemma no_cleanUp: "mTimestampUs p \<le> mLastCleanUpUs p \<Longrightarrow> pool_cleanUp False p = p"
  by (simp add: pool_cleanUp_def kCleanUpDurationUs_def)

lemma demo_opened_eq: "demo_opened = (new_pool 0 True 0)\<lparr>mBufferStatusQueues := {demo_conn}, mConnectionIds := {demo_conn},
   mInvalidation := \<lparr>mPendings = [], mAcks = [demo_conn \<mapsto> 0], mObservers = [demo_conn \<mapsto> Some 7], mInvalidationId = 0, invId = 0\<rparr>\<rparr>"
  by (simp add: demo_opened_def register_connection_def observer_open_def onConnect_def new_pool_def)

lemma demo_connect: "connect 2 (Some 7) True demo_quiet (5, new_pool 0 True 0) = Some (RS_OK, Some (demo_conn, 0), 6, demo_opened)"
  by (simp add: connect_def demo_id register_connection_def observer_open_def Let_def quiet_process demo_opened_def onConnect_def new_pool_def no_cleanUp)

lemma demo_owned_eq: "allocate_new demo_conn [] (RS_OK, 5, 64) demo_opened = Some (RS_OK, Some (0, 5), demo_owned)"
  "demo_owned = demo_opened\<lparr>mSeq := 1, mUsingBuffers := [demo_conn \<mapsto> {0}], mUsingConnections := [0 \<mapsto> {demo_conn}],
     mBuffers := [0 \<mapsto> (new_buffer 0 5 64 [])\<lparr>mOwnerCount := Suc 0\<rparr>], mStats := onBufferAllocated 64 new_stats\<rparr>"
  by (simp_all add: demo_owned_def allocate_new_def addNewBuffer_def demo_opened_eq new_pool_def own_allocated_def handleOwnBuffer_def ms_insert_def
      SYNC_BUFFERID_def no_cleanUp stat_def new_buffer_def)

lemma demo_free_eq: "cleanUp False demo_release demo_owned = Some demo_free"
  "mFreeBuffers demo_free = {0}" "dom (mBuffers demo_free) = {0}" "mTransactions demo_free = Map.empty"
  by (simp_all add: demo_free_def cleanUp_def demo_owned_eq(2) demo_opened_eq new_pool_def processStatusMessages_def demo_release_def handle_message_def
     handleReleaseBuffer_def ms_erase_def new_buffer_def size_dec_def settle_buffer_def stat_def no_cleanUp)

definition demo_conn2 :: connection_id where
  "demo_conn2 = 8589934598"

definition demo_shared :: buffer_pool where
  "demo_shared = snd (register_connection (Some 8) True demo_conn2 demo_owned)"

lemma demo_shared_eq: "connect 2 (Some 8) True demo_quiet (6, demo_owned) = Some (RS_OK, Some (demo_conn2, 0), 7, demo_shared)"
  "mConnectionIds demo_shared = {demo_conn2, demo_conn}" "mUsingConnections demo_shared = [0 \<mapsto> {demo_conn}]" "mTransactions demo_shared = Map.empty"
  "mCompletedTransactions demo_shared = {}"
proof -
  have i: "connection_id_of 2 6 = demo_conn2" by (simp add: connection_id_of_def demo_conn2_def)
  have ne: "demo_conn2 \<noteq> demo_conn" by (simp add: demo_conn_def demo_conn2_def)
  show "connect 2 (Some 8) True demo_quiet (6, demo_owned) = Some (RS_OK, Some (demo_conn2, 0), 7, demo_shared)"
    "mConnectionIds demo_shared = {demo_conn2, demo_conn}" "mUsingConnections demo_shared = [0 \<mapsto> {demo_conn}]" "mTransactions demo_shared = Map.empty"
    "mCompletedTransactions demo_shared = {}"
    by (simp_all add: connect_def i ne demo_shared_def demo_owned_eq(2) demo_opened_eq new_pool_def register_connection_def observer_open_def Let_def
        quiet_process onConnect_def no_cleanUp)
qed

lemma demo_reach:
  "pool_step\<^sup>*\<^sup>* (new_pool 0 True 0, demo_invalidator) (demo_owned, demo_invalidator)"
  "pool_step\<^sup>*\<^sup>* (new_pool 0 True 0, demo_invalidator) (demo_free, demo_invalidator)"
  "pool_step\<^sup>*\<^sup>* (new_pool 0 True 0, demo_invalidator) (demo_shared, demo_invalidator)"
proof -
  have 1: "pool_step (new_pool 0 True 0, demo_invalidator) (demo_opened, demo_invalidator)"
    by (rule step_connect [OF quiet_process(2) demo_connect])
  have 2: "pool_step (demo_opened, demo_invalidator) (demo_owned, demo_invalidator)" by (rule step_new [OF demo_owned_eq(1)])
  have "credible_input demo_release demo_owned"
    by (simp add: credible_input_def demo_release_def demo_owned_eq(2) demo_opened_eq new_pool_def credible_def split: option.split)
  then have 3: "pool_step (demo_owned, demo_invalidator) (demo_free, demo_invalidator)" by (rule step_cleanUp [OF _ demo_free_eq(1)])
  have 4: "pool_step (demo_owned, demo_invalidator) (demo_shared, demo_invalidator)"
    by (rule step_connect [OF quiet_process(2) demo_shared_eq(1)])
  show owned: "pool_step\<^sup>*\<^sup>* (new_pool 0 True 0, demo_invalidator) (demo_owned, demo_invalidator)" using 1 2 by (meson converse_rtranclp_into_rtranclp r_into_rtranclp)
  show "pool_step\<^sup>*\<^sup>* (new_pool 0 True 0, demo_invalidator) (demo_free, demo_invalidator)"
    "pool_step\<^sup>*\<^sup>* (new_pool 0 True 0, demo_invalidator) (demo_shared, demo_invalidator)"
    using owned 3 4 by (auto intro: rtranclp.rtrancl_into_rtrancl)
qed

theorem pool_accounting_witness:
  "0 \<in> mFreeBuffers demo_free \<and> owners 0 demo_free = {} \<and> transfers 0 demo_free = {} \<and> mSizeInUse (mStats demo_free) = 0"
  using pool_accounting [OF demo_reach(2)] by (simp add: demo_free_eq) blast

theorem pool_allocations_exclusive_witness:
  "\<exists>q r p'. processStatusMessages demo_quiet demo_free = Some q \<and> allocate_recycle (\<lambda>_ _. True) demo_conn2 [] demo_quiet demo_free = Some (r, p')
     \<and> (case r of Some (b, h) \<Rightarrow> owners b p' = {demo_conn2} | None \<Rightarrow> mFreeBuffers p' = {})"
proof -
  obtain q r p' where "processStatusMessages demo_quiet demo_free = Some q" "allocate_recycle (\<lambda>_ _. True) demo_conn2 [] demo_quiet demo_free = Some (r, p')"
    "case r of Some (b, h) \<Rightarrow> owners b q = {} \<and> transfers b q = {} \<and> owners b p' = {demo_conn2}
        \<and> (\<exists>i. mBuffers q b = Some i \<and> mAllocation i = h \<and> True \<and> \<not> mInvalidated i) | None \<Rightarrow> \<forall>b\<in>mFreeBuffers p'. \<not> True"
    using pool_allocations_exclusive [OF demo_reach(2) quiet_process(2), of "\<lambda>_ _. True" demo_conn2 "[]"] by blast
  then show ?thesis by (auto split: option.splits)
qed

theorem transfer_order_irrelevant_witness:
  "\<exists>p'. handle_messages [transfer_from_msg demo_conn2 0 4, transfer_to_msg demo_conn demo_conn2 0 4, transfer_ok_msg demo_conn2 0 4] demo_shared = Some p'
     \<and> owners 0 p' = {demo_conn2, demo_conn}"
proof -
  have o: "owners 0 demo_shared = {demo_conn}" by (auto simp: owners_def demo_shared_eq ms_rel_def ms_contains_def)
  have "demo_conn \<in> owners 0 demo_shared" "demo_conn2 \<in> mConnectionIds demo_shared" "mTransactions demo_shared 4 = None" "4 \<notin> mCompletedTransactions demo_shared"
    by (simp_all add: o demo_shared_eq)
  from transfer_order_irrelevant [OF demo_reach(3) this] show ?thesis unfolding o by blast
qed

theorem free_buffer_claimed_witness:
  "\<exists>p'. handle_messages [transfer_from_msg demo_conn 0 4, transfer_ok_msg demo_conn 0 4] demo_free = Some p' \<and> owners 0 p' = {demo_conn} \<and> 0 \<in> mFreeBuffers p'"
  using free_buffer_claimed [OF demo_reach(2), of 0 4 "\<lambda>_ _. True" "[]" demo_conn demo_conn2] demo_free_eq(2,4) by auto

end
