(* ===== verification/Pool_Flush.thy ===== *)
theory Pool_Flush
  imports Pool_Protocol
begin

text \<open>
  Flushing the pool. A flush invalidates the buffers allocated since the last one; those in use leave
  the pool when they are released, and the clients are told of a range when its last buffer has
  gone. The ids are compared as numbers here, so the statements are about runs in which the id
  counter does not wrap.
\<close>

section \<open>Pending ranges\<close>

definition in_range :: "u32 \<times> u32 \<Rightarrow> buffer_id \<Rightarrow> bool" where
  "in_range r b \<longleftrightarrow> fst r \<le> b \<and> b < snd r"

lemma in_range_iff: "f < t \<Longrightarrow> isBufferInRange f t = in_range (f, t)"
  by (auto simp: isBufferInRange_def in_range_def fun_eq_iff)

definition pend_range :: "pending_invalidation \<Rightarrow> u32 \<times> u32" where
  "pend_range d = (mFrom d, mTo d)"

definition msg_range :: "invalidation_message \<Rightarrow> u32 \<times> u32" where
  "msg_range m = (fromBufferId m, toBufferId m)"

definition left_in :: "u32 \<times> u32 \<Rightarrow> (buffer_id \<rightharpoonup> internal_buffer) \<Rightarrow> buffer_id set" where
  "left_in r B = {b \<in> dom B. in_range r b}"

lemma left_in_remove: "left_in r (B(b := None)) = left_in r B - {b}"
  by (auto simp: left_in_def)

lemma finite_left_in: "finite (dom B) \<Longrightarrow> finite (left_in r B)"
  by (simp add: left_in_def)

definition pend_ok :: "(buffer_id \<rightharpoonup> internal_buffer) \<Rightarrow> pending_invalidation \<Rightarrow> bool" where
  "pend_ok B d \<longleftrightarrow> mFrom d < mTo d \<and> mLeft d = card (left_in (pend_range d) B) \<and> mLeft d \<noteq> 0"

lemma isInvalidated_ok:
  assumes "pend_ok B d" "b \<in> dom B" "finite (dom B)" "isInvalidated b d = (hit, d')" and B': "\<And>r. left_in r B' = left_in r B - {b}"
  shows "pend_range d' = pend_range d" "if hit then left_in (pend_range d) B' = {} else pend_ok B' d'"
proof -
  let ?r = "pend_range d"
  have r: "isBufferInRange (mFrom d) (mTo d) = in_range ?r" using assms(1) by (simp add: pend_ok_def in_range_iff pend_range_def)
  show same: "pend_range d' = ?r" using assms(4) by (auto simp: isInvalidated_def pend_range_def split: if_splits)
  have fin: "finite (left_in ?r B')" using finite_left_in [OF assms(3)] by (simp add: B')
  show "if hit then left_in ?r B' = {} else pend_ok B' d'"
  proof (cases "in_range ?r b")
    case True
    then have "b \<in> left_in ?r B" using assms(2) by (simp add: left_in_def)
    then have sd: "size_dec (mLeft d) = card (left_in ?r B')"
      using assms(1) size_dec_card [OF finite_left_in [OF assms(3)]] by (simp add: pend_ok_def B')
    then have "hit \<longleftrightarrow> left_in ?r B' = {}" "d' = d\<lparr>mLeft := card (left_in ?r B')\<rparr>" using assms(4) True fin by (auto simp: isInvalidated_def r)
    then show ?thesis using assms(1) same fin by (simp add: pend_ok_def)
  next
    case False
    then have "left_in ?r B' = left_in ?r B" unfolding B' by (auto simp: left_in_def)
    then show ?thesis using assms(1,4) False by (auto simp: isInvalidated_def r pend_ok_def)
  qed
qed

lemma hit_pendings_ok:
  assumes "b \<in> dom B" "finite (dom B)" and B': "\<And>r. left_in r B' = left_in r B - {b}"
  shows "\<forall>d\<in>set ps. pend_ok B d \<Longrightarrow> hit_pendings b n ch ps = (n', ch', ps') \<Longrightarrow>
    (\<forall>d\<in>set ps'. pend_ok B' d) \<and> (\<forall>m\<in>set ch'. m \<in> set ch \<or> left_in (msg_range m) B' = {})
    \<and> msg_range ` set ch' \<union> pend_range ` set ps' = msg_range ` set ch \<union> pend_range ` set ps"
proof (induction ps arbitrary: n ch n' ch' ps')
  case (Cons d ps)
  obtain hit d' where h: "isInvalidated b d = (hit, d')" by fastforce
  have d: "pend_ok B d" "\<forall>d\<in>set ps. pend_ok B d" using Cons.prems(1) by auto
  note inv = isInvalidated_ok [OF d(1) assms(1,2) h B']
  show ?case
  proof (cases hit)
    case True
    define n1 where "n1 = (if mNeedsAck d' then next_msg_id n else n)"
    define m where "m = \<lparr>messageId = if mNeedsAck d' then n1 else 0, fromBufferId = mFrom d', toBufferId = mTo d'\<rparr>"
    have rest: "hit_pendings b n1 (ch @ [m]) ps = (n', ch', ps')" using Cons.prems(2) True
      by (cases "mNeedsAck d'") (simp_all add: h Let_def n1_def m_def)
    have m: "msg_range m = pend_range d" using inv(1) by (simp add: msg_range_def pend_range_def m_def)
    show ?thesis using Cons.IH [OF d(2) rest] inv(2) True m by auto
  next
    case False
    obtain ps2 where rest: "hit_pendings b n ch ps = (n', ch', ps2)" "ps' = d' # ps2" using Cons.prems(2) False by (auto simp: h Let_def split: prod.splits)
    show ?thesis using Cons.IH [OF d(2) rest(1)] inv False rest(2) by auto
  qed
qed simp

section \<open>What has been announced\<close>

text \<open>Ranges told to the clients, or waiting for their last buffer.\<close>

definition announced :: "buffer_pool \<Rightarrow> (u32 \<times> u32) set" where
  "announced p = msg_range ` set (mInvalidationChannel p) \<union> pend_range ` set (mPendings (mInvalidation p))"

definition flush_ok :: "buffer_pool \<Rightarrow> bool" where
  "flush_ok p \<longleftrightarrow>
     finite (dom (mBuffers p)) \<and> mStartSeq p \<le> mSeq p \<and> mSeq p < SYNC_BUFFERID
     \<and> (\<forall>b i. mBuffers p b = Some i \<longrightarrow> b < mSeq p \<and> (mInvalidated i \<longleftrightarrow> b < mStartSeq p))
     \<and> (\<forall>d\<in>set (mPendings (mInvalidation p)). pend_ok (mBuffers p) d)
     \<and> (\<forall>m\<in>set (mInvalidationChannel p). left_in (msg_range m) (mBuffers p) = {})
     \<and> (\<forall>r\<in>announced p. snd r \<le> mStartSeq p) \<and> (\<forall>x<mStartSeq p. \<exists>r\<in>announced p. in_range r x)"

lemma new_pool_flush_ok: "flush_ok (new_pool now v sq)"
  by (simp add: flush_ok_def new_pool_def announced_def SYNC_BUFFERID_def)

lemma flush_cong:
  assumes "flush_ok p" "\<And>b. map_option mInvalidated (mBuffers q b) = map_option mInvalidated (mBuffers p b)"
    "mSeq q = mSeq p" "mStartSeq q = mStartSeq p" "mInvalidationChannel q = mInvalidationChannel p"
    "mPendings (mInvalidation q) = mPendings (mInvalidation p)"
  shows "flush_ok q"
proof -
  have "mBuffers q b = None \<longleftrightarrow> mBuffers p b = None" for b using assms(2) [of b] by (metis option.map_disc_iff)
  then have d: "dom (mBuffers q) = dom (mBuffers p)" by (auto simp: dom_def)
  then have l: "left_in r (mBuffers q) = left_in r (mBuffers p)" for r by (simp add: left_in_def)
  have i: "(\<exists>j. mBuffers p b = Some j \<and> mInvalidated j = mInvalidated i)" if "mBuffers q b = Some i" for b i using assms(2) [of b] that by (auto simp: map_option_case split: option.splits)
  have "b < mSeq p \<and> (mInvalidated i \<longleftrightarrow> b < mStartSeq p)" if "mBuffers q b = Some i" for b i
    using i [OF that] assms(1) by (auto simp: flush_ok_def)
  then show ?thesis using assms(1,3-6) unfolding flush_ok_def announced_def pend_ok_def d l by auto
qed

lemma flush_settle:
  assumes ok: "flush_ok p" and b: "mBuffers p b = Some i"
  shows "flush_ok (settle_buffer b i p)"
proof (cases "mOwnerCount i = 0 \<and> mTransactionCount i = 0 \<and> mInvalidated i")
  case False
  then show ?thesis by (intro flush_cong [OF ok]) (auto simp: settle_buffer_def)
next
  case True
  obtain n ch ps where h: "hit_pendings b (mInvalidationId (mInvalidation p)) (mInvalidationChannel p) (mPendings (mInvalidation p)) = (n, ch, ps)"
    by (metis prod_cases3)
  let ?q = "settle_buffer b i p"
  have q: "mBuffers ?q = (mBuffers p)(b := None)" "mInvalidationChannel ?q = ch" "mPendings (mInvalidation ?q) = ps"
    using True h by (simp_all add: settle_buffer_def onBufferInvalidated_def)
  have dom: "b \<in> dom (mBuffers p)" "finite (dom (mBuffers p))" "\<forall>d\<in>set (mPendings (mInvalidation p)). pend_ok (mBuffers p) d"
    using ok b by (auto simp: flush_ok_def)
  have l: "left_in r (mBuffers ?q) = left_in r (mBuffers p) - {b}" for r unfolding q by (rule left_in_remove)
  note hit = hit_pendings_ok [OF dom(1,2) l dom(3) h]
  have "announced ?q = announced p" using hit unfolding announced_def q by simp
  moreover have "left_in (msg_range m) (mBuffers ?q) = {}" if "m \<in> set ch" for m
    using hit that ok l unfolding flush_ok_def by blast
  moreover have "finite (dom (mBuffers ?q))" using dom(2) q(1) by simp
  moreover have "b' < mSeq p \<and> (mInvalidated j \<longleftrightarrow> b' < mStartSeq p)" if "mBuffers ?q b' = Some j" for b' j
    using that ok unfolding flush_ok_def q(1) by (auto split: if_splits)
  ultimately show ?thesis using ok hit unfolding flush_ok_def q(2,3) by simp
qed

lemma flush_edit_settle:
  assumes "flush_ok p" "mBuffers p b = Some i" "mInvalidated i' = mInvalidated i" "mBuffers q = (mBuffers p)(b \<mapsto> i')"
    "mSeq q = mSeq p" "mStartSeq q = mStartSeq p" "mInvalidationChannel q = mInvalidationChannel p"
    "mPendings (mInvalidation q) = mPendings (mInvalidation p)"
  shows "flush_ok q" "flush_ok (settle_buffer b i' q)"
proof -
  show q: "flush_ok q" by (rule flush_cong [OF assms(1)]) (use assms in simp_all)
  show "flush_ok (settle_buffer b i' q)" by (rule flush_settle [OF q]) (simp add: assms(4))
qed

section \<open>The handlers keep the ranges\<close>

lemma flush_own: "handleOwnBuffer c b p = Some (r, q) \<Longrightarrow> flush_ok p \<Longrightarrow> flush_ok q"
  by (auto simp: handleOwnBuffer_def Let_def case_prod_beta elim!: flush_cong split: if_splits option.splits)

lemma flush_release: "handleReleaseBuffer c b p = Some (r, q) \<Longrightarrow> flush_ok p \<Longrightarrow> flush_ok q"
  by (auto simp: handleReleaseBuffer_def Let_def case_prod_beta elim: flush_cong elim!: flush_edit_settle(2) split: if_splits option.splits)

lemma flush_to: "flush_ok p \<Longrightarrow> flush_ok (snd (handleTransferTo m p))"
  by (auto simp: handleTransferTo_def Let_def elim!: flush_cong split: option.split)

lemma flush_from: "handleTransferFrom m p = Some (r, q) \<Longrightarrow> flush_ok p \<Longrightarrow> flush_ok q"
  by (auto simp: handleTransferFrom_def Let_def elim!: flush_cong split: option.splits if_splits)

lemma flush_drop_transaction: "flush_ok p \<Longrightarrow> flush_ok (p\<lparr>mTransactions := f\<rparr>)"
  by (erule flush_cong) simp_all

lemma flush_result:
  assumes "handleTransferResult m p = Some (r, q)" "flush_ok p"
  shows "flush_ok q"
proof (cases "\<exists>ts. mTransactions p (transactionId m) = Some ts \<and> (connectionId m, transactionId m) \<in> ms_rel (mPendingTransactions p)")
  case False
  then show ?thesis using assms
    by (auto simp: handleTransferResult_def Let_def case_prod_beta elim!: flush_cong split: option.splits if_splits)
next
  case True
  then obtain ts where ts: "mTransactions p (transactionId m) = Some ts" "(connectionId m, transactionId m) \<in> ms_rel (mPendingTransactions p)" by blast
  let ?p = "p\<lparr>mPendingTransactions := snd (ms_erase (mPendingTransactions p) (connectionId m) (transactionId m)),
      mCompletedTransactions := if mSenderValidated ts then mCompletedTransactions p else insert (transactionId m) (mCompletedTransactions p)\<rparr>"
  have "flush_ok ?p" by (rule flush_cong [OF assms(2)]) simp_all
  then have own: "flush_ok p2" if "(if newStatus m = TRANSFER_OK then map_option snd (handleOwnBuffer (connectionId m) (bufferId m) ?p) else Some ?p) = Some p2" for p2
    using that flush_own by (auto split: if_splits)
  from assms(1) obtain p2 i where "(if newStatus m = TRANSFER_OK then map_option snd (handleOwnBuffer (connectionId m) (bufferId m) ?p) else Some ?p) = Some p2"
    and i: "mBuffers p2 (bufferId m) = Some i" and q: "q = (settle_buffer (bufferId m) (i\<lparr>mTransactionCount := size_dec (mTransactionCount i)\<rparr>)
        (p2\<lparr>mBuffers := (mBuffers p2)(bufferId m \<mapsto> i\<lparr>mTransactionCount := size_dec (mTransactionCount i)\<rparr>)\<rparr>))
        \<lparr>mTransactions := (mTransactions p2)(transactionId m := None)\<rparr>"
    unfolding handleTransferResult_known [OF ts] by (auto split: option.splits)
  then show ?thesis unfolding q by (intro flush_drop_transaction flush_edit_settle(2) [OF own i]) simp_all
qed

lemma flush_ack: "mPendings (onAck c n v) = mPendings v"
  by (simp add: onAck_def split: option.split)

text \<open>Fields that the ranges do not depend on.\<close>

lemma flush_irrelevant [simp]:
  "flush_ok (p\<lparr>mUsingBuffers := f\<rparr>) = flush_ok p" "flush_ok (p\<lparr>mConnectionIds := cs\<rparr>) = flush_ok p" "flush_ok (p\<lparr>mTimestampUs := n\<rparr>) = flush_ok p"
  "flush_ok (p\<lparr>mBufferStatusQueues := cs\<rparr>) = flush_ok p" "flush_ok (p\<lparr>mTransactions := tr\<rparr>) = flush_ok p" "flush_ok (stat g p) = flush_ok p"
  "flush_ok (p\<lparr>mFreeBuffers := bs\<rparr>) = flush_ok p" "flush_ok (p\<lparr>mLastCleanUpUs := n\<rparr>) = flush_ok p" "flush_ok (p\<lparr>mLastCleanUpUs := n, mLastLogUs := n'\<rparr>) = flush_ok p"
  "mPendings v = mPendings (mInvalidation p) \<Longrightarrow> flush_ok (p\<lparr>mInvalidation := v\<rparr>) = flush_ok p"
  by (simp_all add: flush_ok_def announced_def)

lemma flush_message: "handle_message m p = Some q \<Longrightarrow> flush_ok p \<Longrightarrow> flush_ok q"
  by (auto simp: handle_message_def flush_to flush_ack split: buffer_status.splits dest: flush_own flush_release flush_from flush_result)

lemma flush_messages: "handle_messages ms p = Some q \<Longrightarrow> flush_ok p \<Longrightarrow> flush_ok q"
  by (induction ms arbitrary: p) (auto split: option.splits dest: flush_message)

lemma flush_process: "processStatusMessages inp p = Some q \<Longrightarrow> flush_ok p \<Longrightarrow> flush_ok q"
  unfolding processStatusMessages_def by (erule flush_messages) simp

lemma flush_close_buffers: "close_buffers c bs p = Some q \<Longrightarrow> flush_ok p \<Longrightarrow> flush_ok q"
proof (induction bs arbitrary: p)
  case (Cons b bs)
  let ?p = "p\<lparr>mUsingConnections := snd (ms_erase (mUsingConnections p) b c)\<rparr>"
  have p: "flush_ok ?p" by (rule flush_cong [OF Cons.prems(2)]) simp_all
  show ?case
  proof (cases "(b, c) \<in> ms_rel (mUsingConnections p)")
    case False
    then show ?thesis using Cons.IH [of ?p] Cons.prems(1) p by (simp add: Let_def case_prod_beta)
  next
    case True
    then obtain i where i: "mBuffers ?p b = Some i" "close_buffers c bs (settle_buffer b (i\<lparr>mOwnerCount := size_dec (mOwnerCount i)\<rparr>)
        (?p\<lparr>mBuffers := (mBuffers p)(b \<mapsto> i\<lparr>mOwnerCount := size_dec (mOwnerCount i)\<rparr>)\<rparr>)) = Some q"
      using Cons.prems(1) by (auto simp: Let_def case_prod_beta split: option.splits)
    show ?thesis by (rule Cons.IH [OF i(2)], rule flush_edit_settle(2) [OF p i(1)]) simp_all
  qed
qed simp

lemma flush_close_transactions: "close_transactions ts p = Some q \<Longrightarrow> flush_ok p \<Longrightarrow> flush_ok q"
proof (induction ts arbitrary: p)
  case (Cons t ts)
  show ?case
  proof (cases "mTransactions p t")
    case None
    then show ?thesis using Cons by simp
  next
    case (Some tr)
    let ?p = "if mSenderValidated tr then p else p\<lparr>mCompletedTransactions := insert t (mCompletedTransactions p)\<rparr>"
    have p: "flush_ok ?p" using Cons.prems(2) by (auto elim!: flush_cong)
    obtain i where i: "mBuffers ?p (mBufferId tr) = Some i" "close_transactions ts ((settle_buffer (mBufferId tr) (i\<lparr>mTransactionCount := size_dec (mTransactionCount i)\<rparr>)
        (?p\<lparr>mBuffers := (mBuffers ?p)(mBufferId tr \<mapsto> i\<lparr>mTransactionCount := size_dec (mTransactionCount i)\<rparr>)\<rparr>))
        \<lparr>mTransactions := (mTransactions ?p)(t := None)\<rparr>) = Some q"
      using Cons.prems(1) Some by (cases "mSenderValidated tr") (auto simp: Let_def split: option.splits)
    show ?thesis by (rule Cons.IH [OF i(2)], intro flush_drop_transaction flush_edit_settle(2) [OF p i(1)]) simp_all
  qed
qed simp

lemma flush_close: "handleClose c p = Some q \<Longrightarrow> flush_ok p \<Longrightarrow> flush_ok q"
  unfolding handleClose_def
  by (auto split: option.splits dest!: flush_close_buffers flush_close_transactions)

section \<open>Eviction, allocation and flush\<close>

lemma flush_same_ranges:
  assumes ok: "flush_ok p" and q: "mStartSeq q = mStartSeq p" "mInvalidationChannel q = mInvalidationChannel p" "mPendings (mInvalidation q) = mPendings (mInvalidation p)"
    and seq: "mSeq p \<le> mSeq q" "mSeq q < SYNC_BUFFERID" "finite (dom (mBuffers q))"
    and bufs: "\<And>b i. mBuffers q b = Some i \<Longrightarrow> b < mSeq q \<and> (mInvalidated i \<longleftrightarrow> b < mStartSeq p)"
      "\<And>b. b < mStartSeq p \<Longrightarrow> b \<in> dom (mBuffers q) \<longleftrightarrow> b \<in> dom (mBuffers p)"
  shows "flush_ok q"
proof -
  have a: "announced q = announced p" using q by (simp add: announced_def)
  have l: "left_in r (mBuffers q) = left_in r (mBuffers p)" if "r \<in> announced p" for r
  proof -
    have "snd r \<le> mStartSeq p" using ok that by (auto simp: flush_ok_def)
    then have "x \<in> dom (mBuffers q) \<longleftrightarrow> x \<in> dom (mBuffers p)" if "in_range r x" for x
      using that by (intro bufs(2)) (auto simp: in_range_def)
    then show ?thesis unfolding left_in_def by blast
  qed
  have "pend_range d \<in> announced p" if "d \<in> set (mPendings (mInvalidation p))" for d using that by (simp add: announced_def)
  then have "\<forall>d\<in>set (mPendings (mInvalidation p)). pend_ok (mBuffers q) d" using ok l by (auto simp: pend_ok_def flush_ok_def)
  moreover have "msg_range m \<in> announced p" if "m \<in> set (mInvalidationChannel p)" for m using that by (simp add: announced_def)
  then have "\<forall>m\<in>set (mInvalidationChannel p). left_in (msg_range m) (mBuffers q) = {}" using ok l by (auto simp: flush_ok_def)
  ultimately show ?thesis using ok seq bufs(1) unfolding flush_ok_def a q by auto
qed

lemma flush_evict:
  assumes "flush_ok p" "mBuffers p b = Some i" "\<not> mInvalidated i"
  shows "flush_ok (evict_free b i p)"
proof (rule flush_same_ranges [OF assms(1)])
  have "\<not> b < mStartSeq p" using assms by (auto simp: flush_ok_def)
  then show "x \<in> dom (mBuffers (evict_free b i p)) \<longleftrightarrow> x \<in> dom (mBuffers p)" if "x < mStartSeq p" for x using that by (auto simp: evict_free_def)
qed (use assms in \<open>auto simp: evict_free_def flush_ok_def split: if_splits\<close>)

lemma unused_not_invalidated: "pool_ok p \<Longrightarrow> unused b p = Some i \<Longrightarrow> mBuffers p b = Some i \<and> \<not> mInvalidated i"
  by (auto simp: unused_def pool_ok_but_def core_ok_def free_ok_def split: option.splits if_splits)

lemma flush_evict_unused: "pool_ok p \<Longrightarrow> flush_ok p \<Longrightarrow> unused b p = Some i \<Longrightarrow> flush_ok (evict_free b i p)"
  by (simp add: flush_evict unused_not_invalidated)

lemma flush_cleanUp_loop: "pool_ok p \<Longrightarrow> flush_ok p \<Longrightarrow> flush_ok (cleanUp_loop clear bs p)"
  by (induction clear bs p rule: cleanUp_loop.induct) (auto simp: evict_free_ok flush_evict_unused split: option.split)

lemma flush_cleanUp: "pool_ok p \<Longrightarrow> flush_ok p \<Longrightarrow> flush_ok (pool_cleanUp clear p)"
  unfolding pool_cleanUp_def by (auto intro!: flush_cleanUp_loop elim!: pool_ok_cong)

lemma next_id: "x < SYNC_BUFFERID \<Longrightarrow> x + 1 \<noteq> SYNC_BUFFERID \<Longrightarrow> x < x + 1 \<and> x + 1 < SYNC_BUFFERID" for x :: u32
  unfolding SYNC_BUFFERID_def by (simp add: word_less_nat_alt unat_word_ariths word_unat_eq_iff)

lemma flush_new:
  assumes ok: "flush_ok p" and seq: "mSeq p + 1 \<noteq> SYNC_BUFFERID" and new: "addNewBuffer alloc sz params p = (st, r, q)"
  shows "flush_ok q" "mBuffers p (mSeq p) = None"
proof -
  have s: "mSeq p < mSeq p + 1" "mSeq p + 1 < SYNC_BUFFERID" using next_id seq ok by (auto simp: flush_ok_def)
  show none: "mBuffers p (mSeq p) = None" using ok by (cases "mBuffers p (mSeq p)") (auto simp: flush_ok_def)
  have q: "mBuffers q = (mBuffers p)(mSeq p \<mapsto> new_buffer (mSeq p) alloc sz params)" "mSeq q = mSeq p + 1" "mStartSeq q = mStartSeq p"
    "mInvalidationChannel q = mInvalidationChannel p" "mInvalidation q = mInvalidation p"
    using new none seq by (auto simp: addNewBuffer_def Let_def)
  have st: "mStartSeq p \<le> mSeq p" "\<forall>b i. mBuffers p b = Some i \<longrightarrow> b < mSeq p \<and> (mInvalidated i \<longleftrightarrow> b < mStartSeq p)" using ok by (auto simp: flush_ok_def)
  show "flush_ok q"
  proof (rule flush_same_ranges [OF ok])
    show "b < mSeq q \<and> (mInvalidated i \<longleftrightarrow> b < mStartSeq p)" if "mBuffers q b = Some i" for b i
      using that st s(1) unfolding q by (cases "b = mSeq p") (auto simp: new_buffer_def intro: order.strict_trans)
    show "b \<in> dom (mBuffers q) \<longleftrightarrow> b \<in> dom (mBuffers p)" if "b < mStartSeq p" for b using that st(1) by (auto simp: q)
  qed (use ok q s in \<open>auto simp: flush_ok_def\<close>)
qed

lemma evict_free_start: "evict_free b i (p\<lparr>mStartSeq := n\<rparr>) = (evict_free b i p)\<lparr>mStartSeq := n\<rparr>"
  "unused b (p\<lparr>mStartSeq := n\<rparr>) = unused b p"
  by (simp_all add: evict_free_def stat_def unused_def)

lemma invalidate_free_start: "invalidate_free from to bs (p\<lparr>mStartSeq := n\<rparr>) = (invalidate_free from to bs p)\<lparr>mStartSeq := n\<rparr>"
  by (induction bs arbitrary: p) (auto simp: evict_free_start split: option.split)

lemma invalidate_free_fields: "mSeq (invalidate_free from to bs p) = mSeq p" "mStartSeq (invalidate_free from to bs p) = mStartSeq p"
  by (induction bs arbitrary: p) (auto simp: evict_free_def split: option.split)

lemma flush_invalidate_free: "pool_ok p \<Longrightarrow> flush_ok p \<Longrightarrow> flush_ok (invalidate_free from to bs p)"
  by (induction bs arbitrary: p) (auto simp: evict_free_ok flush_evict_unused split: option.split)

lemma flush_mark:
  assumes ok: "flush_ok p" and lt: "mStartSeq p < mSeq p"
    and q: "mBuffers q = (\<lambda>b. map_option (\<lambda>i. if isBufferInRange (mStartSeq p) (mSeq p) b then i\<lparr>mInvalidated := True\<rparr> else i) (mBuffers p b))"
      "mSeq q = mSeq p" "mStartSeq q = mSeq p"
    and add: "if left_in (mStartSeq p, mSeq p) (mBuffers p) = {}
      then \<exists>m. mInvalidationChannel q = mInvalidationChannel p @ [m] \<and> msg_range m = (mStartSeq p, mSeq p) \<and> mPendings (mInvalidation q) = mPendings (mInvalidation p)
      else \<exists>d. mPendings (mInvalidation q) = mPendings (mInvalidation p) @ [d] \<and> pend_range d = (mStartSeq p, mSeq p)
        \<and> mLeft d = card (left_in (mStartSeq p, mSeq p) (mBuffers p)) \<and> mInvalidationChannel q = mInvalidationChannel p"
  shows "flush_ok q"
proof -
  let ?r = "(mStartSeq p, mSeq p)"
  have d: "dom (mBuffers q) = dom (mBuffers p)" by (auto simp: q(1) dom_def)
  then have l: "left_in r (mBuffers q) = left_in r (mBuffers p)" for r by (simp add: left_in_def)
  have a: "announced q = insert ?r (announced p)" using add by (auto simp: announced_def split: if_splits)
  have pd: "pend_ok (mBuffers q) x" if "x \<in> set (mPendings (mInvalidation q))" for x
  proof (cases "x \<in> set (mPendings (mInvalidation p))")
    case True
    then show ?thesis using ok by (auto simp: flush_ok_def pend_ok_def l)
  next
    case False
    then have "pend_range x = ?r" "mLeft x = card (left_in ?r (mBuffers p))" "left_in ?r (mBuffers p) \<noteq> {}" using that add by (auto split: if_splits)
    then show ?thesis using lt ok finite_left_in [of "mBuffers p"] by (auto simp: pend_ok_def l flush_ok_def pend_range_def)
  qed
  have po: "left_in (msg_range x) (mBuffers q) = {}" if "x \<in> set (mInvalidationChannel q)" for x
    using that add ok unfolding l flush_ok_def by (auto split: if_splits)
  have bufs: "b < mSeq p \<and> mInvalidated i" if qb: "mBuffers q b = Some i" for b i
  proof -
    obtain j where j: "mBuffers p b = Some j" "i = (if isBufferInRange (mStartSeq p) (mSeq p) b then j\<lparr>mInvalidated := True\<rparr> else j)" using qb by (auto simp: q(1))
    then have "b < mSeq p" "mInvalidated j \<longleftrightarrow> b < mStartSeq p" using ok by (auto simp: flush_ok_def)
    then show ?thesis using j(2) in_range_iff [OF lt] by (auto simp: in_range_def)
  qed
  have cov: "\<exists>r\<in>announced q. in_range r x" if "x < mSeq p" for x
    using that ok unfolding a by (cases "x < mStartSeq p") (auto simp: flush_ok_def in_range_def)
  have "\<forall>r\<in>announced q. snd r \<le> mSeq p" using ok lt unfolding a by (auto simp: flush_ok_def)
  then show ?thesis using ok pd po bufs cov unfolding flush_ok_def d q(2,3) by auto
qed

lemma flush_pool_flush:
  assumes "pool_ok p" "flush_ok p"
  shows "flush_ok (fst (pool_flush (p, a)))"
proof (cases "mStartSeq p = mSeq p")
  case True
  have "flush_ok (p\<lparr>mStartSeq := mSeq p\<rparr>)" using assms(2) unfolding True [symmetric] by simp
  then show ?thesis using True by (simp add: pool_flush_def Let_def)
next
  case False
  then have lt: "mStartSeq p < mSeq p" using assms(2) by (auto simp: flush_ok_def)
  define q where "q = invalidate_free (mStartSeq p) (mSeq p) (sorted_list_of_set (mFreeBuffers p)) p"
  have q: "flush_ok q" "mStartSeq q = mStartSeq p" "mSeq q = mSeq p" by (simp_all add: q_def flush_invalidate_free assms invalidate_free_fields)
  have left: "{b \<in> dom (mBuffers q). isBufferInRange (mStartSeq q) (mSeq q) b} = left_in (mStartSeq q, mSeq q) (mBuffers q)"
    using in_range_iff [OF lt] q by (auto simp: left_in_def)
  have fin: "finite (left_in (mStartSeq q, mSeq q) (mBuffers q))" using q(1) finite_left_in by (auto simp: flush_ok_def)
  let ?r = "fst (onInvalidationRequest True (mStartSeq q) (mSeq q) (card (left_in (mStartSeq q, mSeq q) (mBuffers q)))
      (q\<lparr>mStartSeq := mSeq q, mBuffers := (\<lambda>b. map_option (\<lambda>i. if isBufferInRange (mStartSeq q) (mSeq q) b then i\<lparr>mInvalidated := True\<rparr> else i) (mBuffers q b))\<rparr>, a))"
  have "flush_ok ?r" by (rule flush_mark [OF q(1)]) (use lt q fin in \<open>auto simp: onInvalidationRequest_def Let_def msg_range_def pend_range_def\<close>)
  moreover have "fst (pool_flush (p, a)) = ?r"
    using False by (simp add: pool_flush_def invalidate_def Let_def invalidate_free_start q_def [symmetric] q(2,3) left [unfolded q(2,3)])
  ultimately show ?thesis by simp
qed

lemma onClose_pendings: "mPendings (foldl (\<lambda>v c. onClose c v) v cs) = mPendings v"
  by (induction cs arbitrary: v) (simp_all add: onClose_def)

lemma ack_loop_pendings: "mPendings (fst (ack_loop cs v obs ds)) = mPendings v"
  by (induction cs v obs ds rule: ack_loop.induct) (auto split: option.split)

lemma onHandleAck_pendings: "mPendings (fst (snd (onHandleAck (v, a)))) = mPendings v"
  by (simp add: onHandleAck_def Let_def case_prod_beta onClose_pendings ack_loop_pendings)

section \<open>Runs without wrap-around\<close>

definition unwrapped_step :: "buffer_pool \<times> accessor_invalidator \<Rightarrow> buffer_pool \<times> accessor_invalidator \<Rightarrow> bool" where
  "unwrapped_step s t \<longleftrightarrow> pool_step s t \<and> mSeq (fst s) + 1 \<noteq> SYNC_BUFFERID"

lemma flush_register: "flush_ok p \<Longrightarrow> flush_ok (snd (register_connection ob v i p))"
  by (auto simp: register_connection_def observer_open_def Let_def onConnect_def)

lemma flush_own_allocated:
  assumes "own_allocated c b p = Some q" "pool_ok_but {b} p" "mBuffers p b = Some i" "flush_ok p"
  shows "flush_ok q"
proof -
  obtain r p' where p': "handleOwnBuffer c b p = Some (r, p')" "pool_ok p'" using own_ok [OF assms(2,3)] by metis
  then show ?thesis using assms(1) flush_own [OF p'(1) assms(4)] by (auto simp: own_allocated_def flush_cleanUp)
qed

lemma unwrapped_ok: "pool_step s t \<Longrightarrow> mSeq (fst s) + 1 \<noteq> SYNC_BUFFERID \<Longrightarrow> pool_ok (fst s) \<Longrightarrow> flush_ok (fst s) \<Longrightarrow> flush_ok (fst t)"
proof (induction rule: pool_step.induct)
  case (step_connect inp ob v pid sq p st r sq' p' a)
  let ?q = "snd (register_connection ob v (connection_id_of pid sq) p)"
  have q: "pool_ok ?q" "flush_ok ?q" using step_connect by (simp_all add: register_ok flush_register)
  obtain r where "processStatusMessages inp ?q = Some r" "pool_ok r" using processStatusMessages_ok [OF q(1)] step_connect(1) by blast
  then show ?case using step_connect(2) flush_process [OF _ q(2)] by (auto simp: connect_def Let_def case_prod_beta flush_cleanUp)
next
  case (step_close inp p c st p' a)
  then have ok: "pool_ok p" "flush_ok p" by simp_all
  obtain q where q: "processStatusMessages inp p = Some q" "pool_ok q" using processStatusMessages_ok [OF ok(1) step_close(1)] .
  obtain r where r: "handleClose c q = Some r" "pool_ok r" using handleClose_ok [OF q(2)] by metis
  have fr: "flush_ok r" using flush_close [OF r(1)] flush_process [OF q(1)] ok(2) by blast
  let ?s = "(snd (observer_close c r))\<lparr>mInvalidation := onClose c (mInvalidation (snd (observer_close c r)))\<rparr>"
  have "pool_ok ?s" using r(2)
    by (auto simp: observer_close_def pool_ok_but_def core_ok_def counts_ok_def free_ok_def stats_ok_def users_ok_def owners_def transfers_def)
  moreover have "flush_ok ?s" using fr by (simp add: observer_close_def onClose_def)
  ultimately show ?case using step_close(2) q(1) r(1) by (auto simp: close_def Let_def flush_cleanUp)
next
  case (step_recycle inp p compatible c params r p' a)
  then have ok: "pool_ok p" "flush_ok p" by simp_all
  obtain q where q: "processStatusMessages inp p = Some q" "pool_ok q" using processStatusMessages_ok [OF ok(1) step_recycle(1)] .
  have fq: "flush_ok q" using flush_process [OF q(1) ok(2)] .
  show ?case
  proof (cases rule: getFreeBuffer_ok [OF q(2), of compatible params, case_names none some])
    case none
    then show ?thesis using step_recycle(2) q(1) fq by (simp add: allocate_recycle_def)
  next
    case (some b i)
    then obtain p2 where "own_allocated c b ((stat (onBufferRecycled (mAllocSize i)) q)\<lparr>mFreeBuffers := mFreeBuffers q - {b}\<rparr>) = Some p2" "p' = p2"
      using step_recycle(2) q(1) by (auto simp: allocate_recycle_def)
    then show ?thesis using flush_own_allocated [OF _ some(5)] some(3) fq by simp
  qed
next
  case (step_new c params ans p st r p' a)
  then have ok: "pool_ok p" "flush_ok p" "mSeq p + 1 \<noteq> SYNC_BUFFERID" by simp_all
  obtain s alloc sz where ans: "ans = (s, alloc, sz)" by (cases ans)
  show ?case
  proof (cases "s = RS_OK")
    case False
    then show ?thesis using step_new(1) ok by (auto simp: allocate_new_def ans flush_cleanUp)
  next
    case True
    have none: "mBuffers p (mSeq p) = None" using flush_new(2) [OF ok(2,3)] by (metis prod_cases3)
    obtain q where q: "addNewBuffer alloc sz params p = (RS_OK, Some (mSeq p, alloc), q)" "pool_ok_but {mSeq p} q"
      "mBuffers q = (mBuffers p)(mSeq p \<mapsto> new_buffer (mSeq p) alloc sz params)" using addNewBuffer_ok [OF ok(1) none] by metis
    then have "own_allocated c (mSeq p) q = Some p'" using step_new(1) True by (auto simp: allocate_new_def ans)
    then show ?thesis using flush_own_allocated q(2,3) flush_new(1) [OF ok(2,3) q(1)] by simp
  qed
next
  case (step_fetch inp p c t b st h p' a)
  then have ok: "pool_ok p" "flush_ok p" by simp_all
  obtain q where q: "processStatusMessages inp p = Some q" "pool_ok q" using processStatusMessages_ok [OF ok(1) step_fetch(1)] .
  have fq: "flush_ok q" using flush_process [OF q(1) ok(2)] .
  show ?case
  proof (cases "mTransactions q t")
    case None
    then show ?thesis using step_fetch(2) q fq by (auto simp: fetch_def flush_cleanUp)
  next
    case (Some ts)
    obtain i where i: "mBuffers q (mBufferId ts) = Some i" using transferred_not_free [of q t ts] q(2) Some by (auto simp: pool_ok_but_def)
    show ?thesis using step_fetch(2) q fq Some i by (auto simp: fetch_def flush_cleanUp split: if_splits)
  qed
next
  case (step_cleanUp inp p clear p' a)
  then obtain q where "processStatusMessages inp p = Some q" "pool_ok q" using processStatusMessages_ok by (metis fst_conv)
  then show ?case using step_cleanUp flush_process by (auto simp: cleanUp_def flush_cleanUp)
next
  case (step_flush inp p a s)
  then obtain q where "processStatusMessages inp p = Some q" "pool_ok q" using processStatusMessages_ok by (metis fst_conv)
  then show ?case using step_flush flush_process flush_pool_flush by (auto simp: flush_def)
next
  case (step_ack inp p a r s)
  then show ?case using flush_process by (auto simp: handleInvalidateAck_def Let_def case_prod_beta onHandleAck_pendings)
qed simp

interpretation flushing: invariant_system "\<lambda>s. \<exists>now v sq. fst s = new_pool now v sq" unwrapped_step "\<lambda>s. pool_ok (fst s) \<and> flush_ok (fst s)"
  by unfold_locales (auto simp: new_pool_ok new_pool_flush_ok unwrapped_step_def dest: pool_step_ok unwrapped_ok)

text \<open>
  C30: a flush is announced when it is true. In runs in which the ids do not wrap, a range that the
  clients have been told of has no buffer in the pool any more; every id allocated before the last
  flush is in a range that was announced or in one that waits, and a range that waits counts its
  buffers, of which there is at least one; and a buffer of before the last flush that is still in
  the pool is owned or being transferred.
\<close>

theorem flush_announced_when_gone:
  assumes "unwrapped_step\<^sup>*\<^sup>* (new_pool now v sq, a\<^sub>0) (p, a)"
  shows "(\<forall>m\<in>set (mInvalidationChannel p). \<forall>b. fromBufferId m \<le> b \<and> b < toBufferId m \<longrightarrow> mBuffers p b = None)
    \<and> (\<forall>b<mStartSeq p. (\<exists>m\<in>set (mInvalidationChannel p). fromBufferId m \<le> b \<and> b < toBufferId m)
        \<or> (\<exists>d\<in>set (mPendings (mInvalidation p)). mFrom d \<le> b \<and> b < mTo d \<and> mLeft d \<noteq> 0
              \<and> mLeft d = card {x. mBuffers p x \<noteq> None \<and> mFrom d \<le> x \<and> x < mTo d}))
    \<and> (\<forall>b<mStartSeq p. mBuffers p b \<noteq> None \<longrightarrow> owners b p \<noteq> {} \<or> transfers b p \<noteq> {})"
proof -
  have ok: "pool_ok p" "flush_ok p" using flushing.reachable_inv [of "(new_pool now v sq, a\<^sub>0)" "(p, a)"] assms by auto
  then have u: "counts_ok p" "free_ok {} p" by (auto simp: pool_ok_but_def core_ok_def)
  have l: "left_in r (mBuffers p) = {x. mBuffers p x \<noteq> None \<and> fst r \<le> x \<and> x < snd r}" for r by (auto simp: left_in_def in_range_def)
  have "mBuffers p b = None" if "m \<in> set (mInvalidationChannel p)" "fromBufferId m \<le> b \<and> b < toBufferId m" for m b
    using ok(2) that l [of "msg_range m"] by (auto simp: flush_ok_def msg_range_def)
  moreover have "(\<exists>m\<in>set (mInvalidationChannel p). fromBufferId m \<le> b \<and> b < toBufferId m)
      \<or> (\<exists>d\<in>set (mPendings (mInvalidation p)). mFrom d \<le> b \<and> b < mTo d \<and> mLeft d \<noteq> 0 \<and> mLeft d = card {x. mBuffers p x \<noteq> None \<and> mFrom d \<le> x \<and> x < mTo d})"
    if b: "b < mStartSeq p" for b
  proof -
    obtain r where r: "r \<in> announced p" "in_range r b" using ok(2) b by (auto simp: flush_ok_def)
    have "pend_ok (mBuffers p) d" if "d \<in> set (mPendings (mInvalidation p))" for d using ok(2) that by (simp add: flush_ok_def)
    then have "mLeft d \<noteq> 0 \<and> mLeft d = card {x. mBuffers p x \<noteq> None \<and> mFrom d \<le> x \<and> x < mTo d}" if "d \<in> set (mPendings (mInvalidation p))" for d
      using that unfolding pend_ok_def l pend_range_def fst_conv snd_conv by blast
    moreover have "(\<exists>m\<in>set (mInvalidationChannel p). fromBufferId m \<le> b \<and> b < toBufferId m) \<or> (\<exists>d\<in>set (mPendings (mInvalidation p)). mFrom d \<le> b \<and> b < mTo d)"
      using r by (auto simp: announced_def in_range_def msg_range_def pend_range_def)
    ultimately show ?thesis by blast
  qed
  moreover have "owners b p \<noteq> {} \<or> transfers b p \<noteq> {}" if b: "b < mStartSeq p" "mBuffers p b \<noteq> None" for b
  proof (rule ccontr)
    assume "\<not> ?thesis"
    then have e: "owners b p = {}" "transfers b p = {}" by auto
    obtain i where i: "mBuffers p b = Some i" using b(2) by auto
    then have "b \<in> mFreeBuffers p" using u e by (simp add: counts_ok_def free_ok_def)
    then have "\<not> mInvalidated i" using u(2) i by (auto simp: free_ok_def)
    then show False using ok(2) i b(1) by (auto simp: flush_ok_def)
  qed
  ultimately show ?thesis by blast
qed

section \<open>Observers that are gone\<close>

lemma ack_loop_dead:
  "mAcks v c = Some n \<Longrightarrow> n \<noteq> mInvalidationId v \<Longrightarrow> mObservers v c = Some None \<Longrightarrow> ack_loop cs v obs ds = (v', obs', ds') \<Longrightarrow>
   mAcks v' c = Some n \<and> mInvalidationId v' = mInvalidationId v \<and> mObservers v' c = Some None
   \<and> (\<forall>ob. (c, ob) \<in> set obs' \<longrightarrow> (c, ob) \<in> set obs) \<and> ds' \<subseteq> ds \<union> range wrap_i32"
  by (induction cs v obs ds rule: ack_loop.induct) (fastforce split: if_splits option.splits)+

lemma onClose_other:
  "c \<notin> set cs \<Longrightarrow> mAcks (foldl (\<lambda>v c. onClose c v) v cs) c = mAcks v c \<and> mObservers (foldl (\<lambda>v c. onClose c v) v cs) c = mObservers v c
     \<and> mInvalidationId (foldl (\<lambda>v c. onClose c v) v cs) = mInvalidationId v"
  by (induction cs arbitrary: v) (simp_all add: onClose_def)

lemma connection_id_not_int: "0 < pid \<Longrightarrow> connection_id_of pid s \<notin> range wrap_i32"
proof
  assume pid: "0 < pid" and "connection_id_of pid s \<in> range wrap_i32"
  then obtain x where "connection_id_of pid s = wrap_i32 x" by blast
  then have "connection_id_of pid s < 2 ^ 31" using wrap_i32_range(2) [of x] by simp
  moreover have "0 \<le> uint s" by simp
  ultimately show False using pid by (simp add: connection_id_of_def)
qed

text \<open>
  A connection without an observer is never dropped. \<open>onHandleAck\<close> means to close such a
  connection, but collects its id in a set of \<open>int\<close>, which keeps only the lower half; the ids have
  the process number in the upper half. The connection stays, unacknowledged and with its null
  observer, is not notified, and the next round meets it again.
\<close>

theorem dead_observer_never_removed:
  assumes "0 < pid" "c = connection_id_of pid s" "mAcks v c = Some n" "n \<noteq> mInvalidationId v" "mObservers v c = Some None"
    "onHandleAck (v, a) = ((observers, i), v', a')"
  shows "mAcks v' c = Some n \<and> mInvalidationId v' = mInvalidationId v \<and> mObservers v' c = Some None \<and> (\<forall>ob. (c, ob) \<notin> set observers)"
proof -
  obtain w obs ds where w: "(if mInvalidationId v \<noteq> 0 then ack_loop (sorted_list_of_set (dom (mAcks v))) v [] {} else (v, [], {})) = (w, obs, ds)"
    by (metis prod_cases3)
  have loop: "mAcks w c = Some n \<and> mInvalidationId w = mInvalidationId v \<and> mObservers w c = Some None \<and> (\<forall>ob. (c, ob) \<notin> set obs) \<and> ds \<subseteq> range wrap_i32"
    using w ack_loop_dead [OF assms(3-5), of _ "[]" "{}" w obs ds] assms(3,5) by (auto split: if_splits)
  have "c \<notin> set (sorted_list_of_set ds)"
  proof (cases "finite ds")
    case True
    then show ?thesis using loop connection_id_not_int [OF assms(1), of s] assms(2) by (simp add: subset_iff) blast
  next
    case False
    then show ?thesis by simp
  qed
  from onClose_other [OF this, of w] show ?thesis using assms(6) loop w by (auto simp: onHandleAck_def Let_def)
qed

section \<open>Witnesses\<close>

definition demo_flushed :: "buffer_pool \<times> accessor_invalidator" where
  "demo_flushed = the (flush demo_quiet (demo_owned, demo_invalidator))"

lemma demo_flushed_eq: "flush demo_quiet (demo_owned, demo_invalidator) = Some demo_flushed" "mStartSeq (fst demo_flushed) = 1"
  "mPendings (mInvalidation (fst demo_flushed)) = [\<lparr>mNeedsAck = True, mFrom = 0, mTo = 1, mLeft = Suc 0\<rparr>]" "mInvalidationChannel (fst demo_flushed) = []"
  by (simp_all add: demo_flushed_def flush_def quiet_process demo_owned_eq(2) demo_opened_eq new_pool_def new_buffer_def pool_flush_def invalidate_def
      isBufferInRange_def onInvalidationRequest_def Let_def)

lemma demo_flushed_reach: "unwrapped_step\<^sup>*\<^sup>* (new_pool 0 True 0, demo_invalidator) demo_flushed"
proof -
  have "unwrapped_step (new_pool 0 True 0, demo_invalidator) (demo_opened, demo_invalidator)"
    using step_connect [OF quiet_process(2) demo_connect] by (simp add: unwrapped_step_def new_pool_def SYNC_BUFFERID_def)
  moreover have "unwrapped_step (demo_opened, demo_invalidator) (demo_owned, demo_invalidator)"
    using step_new [OF demo_owned_eq(1)] by (simp add: unwrapped_step_def demo_opened_eq new_pool_def SYNC_BUFFERID_def)
  moreover have "unwrapped_step (demo_owned, demo_invalidator) demo_flushed"
    using step_flush [OF quiet_process(2) demo_flushed_eq(1)] by (simp add: unwrapped_step_def demo_owned_eq(2) SYNC_BUFFERID_def)
  ultimately show ?thesis by (meson converse_rtranclp_into_rtranclp r_into_rtranclp)
qed

theorem flush_announced_when_gone_witness:
  "\<exists>d\<in>set (mPendings (mInvalidation (fst demo_flushed))). mLeft d = card {x. mBuffers (fst demo_flushed) x \<noteq> None \<and> mFrom d \<le> x \<and> x < mTo d}"
proof -
  have "unwrapped_step\<^sup>*\<^sup>* (new_pool 0 True 0, demo_invalidator) (fst demo_flushed, snd demo_flushed)" using demo_flushed_reach by simp
  from flush_announced_when_gone [OF this] have "\<forall>b<mStartSeq (fst demo_flushed). (\<exists>m\<in>set (mInvalidationChannel (fst demo_flushed)). fromBufferId m \<le> b \<and> b < toBufferId m)
      \<or> (\<exists>d\<in>set (mPendings (mInvalidation (fst demo_flushed))). mFrom d \<le> b \<and> b < mTo d \<and> mLeft d \<noteq> 0
              \<and> mLeft d = card {x. mBuffers (fst demo_flushed) x \<noteq> None \<and> mFrom d \<le> x \<and> x < mTo d})" by blast
  from this [rule_format, of 0] show ?thesis unfolding demo_flushed_eq(2,4) by auto
qed

definition demo_dead :: pool_invalidation where
  "demo_dead = \<lparr>mPendings = [], mAcks = [connection_id_of 2 5 \<mapsto> 3], mObservers = [connection_id_of 2 5 \<mapsto> None], mInvalidationId = 4, invId = 0\<rparr>"

theorem dead_observer_never_removed_witness:
  "mAcks (fst (snd (onHandleAck (demo_dead, demo_invalidator)))) (connection_id_of 2 5) = Some 3"
  using dead_observer_never_removed [of 2 "connection_id_of 2 5" 5 demo_dead 3 demo_invalidator "fst (fst (onHandleAck (demo_dead, demo_invalidator)))"
      "snd (fst (onHandleAck (demo_dead, demo_invalidator)))" "fst (snd (onHandleAck (demo_dead, demo_invalidator)))" "snd (snd (onHandleAck (demo_dead, demo_invalidator)))"]
  by (simp add: demo_dead_def)

end
