(* ===== verification/Cached_Source.thy ===== *)
theory Cached_Source
  imports Media_Prelude
begin

unbundle bit_operations_syntax

text \<open>
  The prefetching cache in front of a network source: \<open>media/libstagefright/NuCachedSource2.cpp\<close>.
  A looper thread fetches pages from the source into a window of its bytes; clients read from the
  window or wait until the looper has what they ask for. A status is its number, \<open>size_t\<close> a natural
  number below \<open>2 ^ 64\<close>, \<open>off64_t\<close> an integer; where the code computes in these types the
  conversion is written out. \<open>None\<close> is a failed \<open>CHECK\<close>, an iterator used at the end of its list, or
  an access outside of a buffer.
\<close>

section \<open>Numbers\<close>

definition size_t :: "int \<Rightarrow> nat" where
  "size_t x = nat (x mod 2 ^ 64)"

abbreviation (input) END_OF_STREAM :: int where
  "END_OF_STREAM \<equiv> - 1011"

abbreviation (input) UNSUPPORTED :: int where
  "UNSUPPORTED \<equiv> - 1010"

abbreviation (input) EAGAIN_code :: int where
  "EAGAIN_code \<equiv> 11"

abbreviation (input) EPIPE_code :: int where
  "EPIPE_code \<equiv> 32"

definition kPageSize :: nat where
  "kPageSize = 65536"

definition kDefaultHighWaterThreshold :: nat where
  "kDefaultHighWaterThreshold = 20 * 1024 * 1024"

definition kDefaultLowWaterThreshold :: nat where
  "kDefaultLowWaterThreshold = 4 * 1024 * 1024"

definition kDefaultKeepAliveIntervalUs :: int where
  "kDefaultKeepAliveIntervalUs = 15000000"

definition kMaxNumRetries :: int where
  "kMaxNumRetries = 10"

definition kGrayArea :: nat where
  "kGrayArea = 1024 * 1024"

definition kPadding :: int where
  "kPadding = 256 * 1024"

section \<open>The page cache\<close>

record cache_page =
  pgData :: "u8 list"
  pgSize :: nat

record page_cache =
  mPageSize :: nat
  mTotalSize :: nat
  mActivePages :: "cache_page list"
  mFreePages :: "cache_page list"

definition new_page_cache :: "nat \<Rightarrow> page_cache" where
  "new_page_cache pageSize = \<lparr>mPageSize = pageSize, mTotalSize = 0, mActivePages = [], mFreePages = []\<rparr>"

text \<open>\<open>fresh\<close> is the memory that \<open>malloc\<close> returns.\<close>

definition acquirePage :: "u8 list \<Rightarrow> page_cache \<Rightarrow> cache_page \<times> page_cache" where
  "acquirePage fresh c =
     (case mFreePages c of
        page # free \<Rightarrow> (page, c\<lparr>mFreePages := free\<rparr>)
      | [] \<Rightarrow> (\<lparr>pgData = fresh, pgSize = 0\<rparr>, c))"

definition releasePage :: "cache_page \<Rightarrow> page_cache \<Rightarrow> page_cache" where
  "releasePage page c = c\<lparr>mFreePages := mFreePages c @ [page\<lparr>pgSize := 0\<rparr>]\<rparr>"

definition appendPage :: "cache_page \<Rightarrow> page_cache \<Rightarrow> page_cache" where
  "appendPage page c =
     c\<lparr>mTotalSize := (mTotalSize c + pgSize page) mod 2 ^ 64, mActivePages := mActivePages c @ [page]\<rparr>"

fun release_loop :: "cache_page list \<Rightarrow> nat \<Rightarrow> nat \<Rightarrow> page_cache \<Rightarrow> nat \<times> page_cache" where
  "release_loop [] maxBytes bytesReleased c = (bytesReleased, c\<lparr>mActivePages := []\<rparr>)"
| "release_loop (page # pages) maxBytes bytesReleased c =
     (if maxBytes = 0 \<or> maxBytes < pgSize page then (bytesReleased, c\<lparr>mActivePages := page # pages\<rparr>)
      else release_loop pages (maxBytes - pgSize page) ((bytesReleased + pgSize page) mod 2 ^ 64) (releasePage page c))"

definition releaseFromStart :: "nat \<Rightarrow> page_cache \<Rightarrow> nat \<times> page_cache" where
  "releaseFromStart maxBytes c =
     (let (bytesReleased, c) = release_loop (mActivePages c) maxBytes 0 c
      in (bytesReleased, c\<lparr>mTotalSize := size_t (int (mTotalSize c) - int bytesReleased)\<rparr>))"

text \<open>
  \<open>copy\<close>: the first loop finds the page with the first byte, the second gathers whole pages behind
  it. The result is what \<open>memcpy\<close> writes to the destination.
\<close>

fun copy_find :: "nat \<Rightarrow> nat \<Rightarrow> cache_page list \<Rightarrow> (nat \<times> cache_page \<times> cache_page list) option" where
  "copy_find frm offset [] = None"
| "copy_find frm offset (page # pages) =
     (if (offset + pgSize page) mod 2 ^ 64 \<le> frm then copy_find frm ((offset + pgSize page) mod 2 ^ 64) pages
      else Some (offset, page, pages))"

fun copy_rest :: "nat \<Rightarrow> cache_page list \<Rightarrow> u8 list option" where
  "copy_rest sz [] = (if sz = 0 then Some [] else None)"
| "copy_rest sz (page # pages) =
     (if sz = 0 then Some []
      else let n = min (pgSize page) sz
           in case mem_read (pgData page) (Some 0) (int n) of
                None \<Rightarrow> None
              | Some bs \<Rightarrow> map_option (\<lambda>rest. bs @ rest) (copy_rest (sz - n) pages))"

definition cache_copy :: "nat \<Rightarrow> nat \<Rightarrow> page_cache \<Rightarrow> u8 list option" where
  "cache_copy frm sz c =
     (if sz = 0 then Some []
      else if \<not> (frm + sz) mod 2 ^ 64 \<le> mTotalSize c then None
      else case copy_find frm 0 (mActivePages c) of
             None \<Rightarrow> None
           | Some (offset, page, pages) \<Rightarrow>
               let delta = frm - offset; avail = pgSize page - delta
               in if sz \<le> avail then mem_read (pgData page) (Some (int delta)) (int sz)
                  else case mem_read (pgData page) (Some (int delta)) (int avail) of
                         None \<Rightarrow> None
                       | Some bs \<Rightarrow> map_option (\<lambda>rest. bs @ rest) (copy_rest (sz - avail) pages))"

section \<open>The cached source\<close>

text \<open>
  A \<open>kWhatRead\<close> message: offset, sz and the address of the client's buffer. A client inside
  \<open>readAt\<close> (one at a time, by \<open>mSerializer\<close>) has its message's fields and the buffer. \<open>cached_read\<close>
  records a read that has returned.
\<close>

record read_msg =
  rmOffset :: int
  rmSize :: nat
  rmPtr :: nat

record read_client =
  rcMsg :: read_msg
  rcBuffer :: "u8 list"

record cached_read =
  crOffset :: int
  crSize :: nat
  crResult :: int
  crData :: "u8 list"

text \<open>
  Where the looper thread is: between messages, inside \<open>reconnectAtOffset\<close>, inside \<open>readAt\<close> of the
  source at an offset and with a page, after \<open>fetchInternal\<close>, or in \<open>onRead\<close> after \<open>readInternal\<close> with
  its result. At these points other threads can take the lock.
\<close>

datatype looper_at = Idle | Reconnecting | Reading int cache_page | Fetched | Answering int

text \<open>
  \<open>source_flags\<close> is what the source answers to \<open>flags()\<close>, \<open>fetch_delay\<close> the delay of the posted
  \<open>kWhatFetchMore\<close> message, \<open>read_msgs\<close> the posted \<open>kWhatRead\<close> messages.
\<close>

record cached_source =
  mCache :: page_cache
  mCacheOffset :: int
  mFinalStatus :: int
  mLastAccessPos :: int
  mAsyncResult :: "int option"
  mFetching :: bool
  mDisconnecting :: bool
  mLastFetchTimeUs :: int
  mNumRetriesLeft :: int
  mHighwaterThresholdBytes :: nat
  mLowwaterThresholdBytes :: nat
  mKeepAliveIntervalUs :: int
  mDisconnectAtHighwatermark :: bool
  source_flags :: u32
  looper :: looper_at
  fetch_delay :: "int option"
  read_msgs :: "read_msg list"
  waiting :: "read_client option"
  returned :: "cached_read list"

abbreviation totalSize :: "cached_source \<Rightarrow> nat" where
  "totalSize s \<equiv> mTotalSize (mCache s)"

definition kWantsPrefetching :: u32 where
  "kWantsPrefetching = 1"

definition kIsCachingDataSource :: u32 where
  "kIsCachingDataSource = 4"

definition kIsHTTPBasedSource :: u32 where
  "kIsHTTPBasedSource = 8"

definition http :: "cached_source \<Rightarrow> bool" where
  "http s \<longleftrightarrow> source_flags s AND kIsHTTPBasedSource \<noteq> 0"

definition flags :: "cached_source \<Rightarrow> u32" where
  "flags s = (source_flags s AND NOT (kWantsPrefetching OR kIsHTTPBasedSource)) OR kIsCachingDataSource"

subsection \<open>Parameters\<close>

text \<open>\<open>parsed\<close> is what \<open>sscanf\<close> reads from the string, \<open>None\<close> if it does not find three numbers.\<close>

definition updateCacheParamsFromString :: "(int \<times> int \<times> int) option \<Rightarrow> cached_source \<Rightarrow> cached_source" where
  "updateCacheParamsFromString parsed s =
     (case parsed of
        None \<Rightarrow> s
      | Some (lowwaterMarkKb, highwaterMarkKb, keepAliveSecs) \<Rightarrow>
          let low = (if 0 \<le> lowwaterMarkKb then size_t (lowwaterMarkKb * 1024) else kDefaultLowWaterThreshold);
              high = (if 0 \<le> highwaterMarkKb then size_t (highwaterMarkKb * 1024) else kDefaultHighWaterThreshold);
              (low, high) = (if high \<le> low then (kDefaultLowWaterThreshold, kDefaultHighWaterThreshold) else (low, high))
          in s\<lparr>mLowwaterThresholdBytes := low, mHighwaterThresholdBytes := high,
               mKeepAliveIntervalUs := (if 0 \<le> keepAliveSecs then keepAliveSecs * 1000000 else kDefaultKeepAliveIntervalUs)\<rparr>)"

text \<open>\<open>prop\<close> is the system property, \<open>None\<close> if it is not set; \<open>cacheConfig\<close> likewise the argument.\<close>

definition updateCacheParamsFromSystemProperty :: "(int \<times> int \<times> int) option option \<Rightarrow> cached_source \<Rightarrow> cached_source" where
  "updateCacheParamsFromSystemProperty prop s =
     (case prop of None \<Rightarrow> s | Some parsed \<Rightarrow> updateCacheParamsFromString parsed s)"

definition new_cached_source :: "u32 \<Rightarrow> (int \<times> int \<times> int) option option \<Rightarrow> (int \<times> int \<times> int) option option \<Rightarrow> bool \<Rightarrow> cached_source" where
  "new_cached_source fl prop cacheConfig disconnectAtHighwatermark =
     (let s = \<lparr>mCache = new_page_cache kPageSize, mCacheOffset = 0, mFinalStatus = 0, mLastAccessPos = 0, mAsyncResult = None,
               mFetching = True, mDisconnecting = False, mLastFetchTimeUs = - 1, mNumRetriesLeft = kMaxNumRetries,
               mHighwaterThresholdBytes = kDefaultHighWaterThreshold, mLowwaterThresholdBytes = kDefaultLowWaterThreshold,
               mKeepAliveIntervalUs = kDefaultKeepAliveIntervalUs, mDisconnectAtHighwatermark = disconnectAtHighwatermark,
               source_flags = fl, looper = Idle, fetch_delay = None, read_msgs = [], waiting = None, returned = []\<rparr>;
          s = updateCacheParamsFromSystemProperty prop s;
          s = (case cacheConfig of None \<Rightarrow> s | Some parsed \<Rightarrow> updateCacheParamsFromString parsed s)
      in if disconnectAtHighwatermark then s\<lparr>mKeepAliveIntervalUs := 0\<rparr> else s)"

definition Create :: "u32 \<Rightarrow> (int \<times> int \<times> int) option option \<Rightarrow> (int \<times> int \<times> int) option option \<Rightarrow> bool \<Rightarrow> cached_source" where
  "Create fl prop cacheConfig disconnectAtHighwatermark =
     (new_cached_source fl prop cacheConfig disconnectAtHighwatermark)\<lparr>fetch_delay := Some 0\<rparr>"

subsection \<open>The prefetcher\<close>

definition restartPrefetcherIfNecessary_l :: "bool \<Rightarrow> bool \<Rightarrow> cached_source \<Rightarrow> cached_source" where
  "restartPrefetcherIfNecessary_l ignoreLowWaterThreshold force s =
     (if mFetching s \<or> mFinalStatus s \<noteq> 0 \<and> mNumRetriesLeft s = 0 then s
      else if \<not> ignoreLowWaterThreshold \<and> \<not> force
           \<and> mLowwaterThresholdBytes s \<le> size_t (mCacheOffset s + int (totalSize s) - mLastAccessPos s) then s
      else let maxBytes = size_t (mLastAccessPos s - mCacheOffset s)
           in if \<not> force \<and> maxBytes < kGrayArea then s
              else let (actualBytes, c) = releaseFromStart (if force then maxBytes else maxBytes - kGrayArea) (mCache s)
                   in s\<lparr>mCache := c, mCacheOffset := wrap_i64 (mCacheOffset s + int actualBytes), mFetching := True\<rparr>)"

definition resumeFetchingIfNecessary :: "cached_source \<Rightarrow> cached_source" where
  "resumeFetchingIfNecessary s = restartPrefetcherIfNecessary_l True False s"

text \<open>
  \<open>fetchInternal\<close>, cut at the two calls of the source: up to the first call, from the answer \<open>err\<close> of
  \<open>reconnectAtOffset\<close> up to the read, and from the answer of \<open>readAt\<close>, a count and the page's memory
  after the call, to the end.
\<close>

definition fetch_page :: "u8 list \<Rightarrow> cached_source \<Rightarrow> cached_source" where
  "fetch_page fresh s =
     (let (page, c) = acquirePage fresh (mCache s)
      in s\<lparr>mCache := c, looper := Reading (wrap_i64 (mCacheOffset s + int (mTotalSize c))) page\<rparr>)"

definition fetchInternal_begin :: "u8 list \<Rightarrow> cached_source \<Rightarrow> cached_source option" where
  "fetchInternal_begin fresh s =
     (if \<not> (mFinalStatus s = 0 \<or> 0 < mNumRetriesLeft s) then None
      else if mFinalStatus s \<noteq> 0 then Some (s\<lparr>mNumRetriesLeft := mNumRetriesLeft s - 1, looper := Reconnecting\<rparr>)
      else Some (fetch_page fresh s))"

definition fetchInternal_reconnected :: "int \<Rightarrow> u8 list \<Rightarrow> cached_source \<Rightarrow> cached_source" where
  "fetchInternal_reconnected err fresh s =
     (if mDisconnecting s then s\<lparr>mNumRetriesLeft := 0, mFinalStatus := END_OF_STREAM, looper := Fetched\<rparr>
      else if err = UNSUPPORTED \<or> err = - EPIPE_code then s\<lparr>mNumRetriesLeft := 0, looper := Fetched\<rparr>
      else if err \<noteq> 0 then s\<lparr>looper := Fetched\<rparr>
      else fetch_page fresh s)"

definition fetchInternal_read :: "int \<Rightarrow> u8 list \<Rightarrow> cache_page \<Rightarrow> cached_source \<Rightarrow> cached_source" where
  "fetchInternal_read n buf page s =
     (let page = page\<lparr>pgData := buf\<rparr>
      in if n = 0 \<or> mDisconnecting s then
           s\<lparr>mNumRetriesLeft := 0, mFinalStatus := END_OF_STREAM, mCache := releasePage page (mCache s), looper := Fetched\<rparr>
         else if n < 0 then
           s\<lparr>mFinalStatus := wrap_i32 n,
             mNumRetriesLeft := (if n = UNSUPPORTED \<or> n = - EPIPE_code then 0 else mNumRetriesLeft s),
             mCache := releasePage page (mCache s), looper := Fetched\<rparr>
         else s\<lparr>mNumRetriesLeft := kMaxNumRetries, mFinalStatus := 0,
                mCache := appendPage (page\<lparr>pgSize := nat n\<rparr>) (mCache s), looper := Fetched\<rparr>)"

text \<open>\<open>onFetch\<close> before and after \<open>fetchInternal\<close>; \<open>now\<close> is what \<open>GetNowUs\<close> returns.\<close>

definition post_fetch :: "cached_source \<Rightarrow> cached_source" where
  "post_fetch s =
     s\<lparr>fetch_delay := Some (if mFetching s then if mFinalStatus s \<noteq> 0 \<and> 0 < mNumRetriesLeft s then 3000000 else 0 else 100000),
       looper := Idle\<rparr>"

definition onFetch :: "int \<Rightarrow> u8 list \<Rightarrow> cached_source \<Rightarrow> cached_source option" where
  "onFetch now fresh s =
     (let s = (if mFinalStatus s \<noteq> 0 \<and> mNumRetriesLeft s = 0 then s\<lparr>mFetching := False\<rparr> else s);
          s = s\<lparr>fetch_delay := None\<rparr>;
          keepAlive = (\<not> mFetching s \<and> mFinalStatus s = 0 \<and> 0 < mKeepAliveIntervalUs s
                       \<and> mLastFetchTimeUs s + mKeepAliveIntervalUs s \<le> now)
      in if mFetching s \<or> keepAlive then fetchInternal_begin fresh s
         else Some (post_fetch (restartPrefetcherIfNecessary_l False False s)))"

definition onFetch_end :: "int \<Rightarrow> cached_source \<Rightarrow> cached_source" where
  "onFetch_end now s =
     (let s = s\<lparr>mLastFetchTimeUs := now\<rparr>;
          s = (if mFetching s \<and> mHighwaterThresholdBytes s \<le> totalSize s
               then let s = s\<lparr>mFetching := False\<rparr>
                    in if mDisconnectAtHighwatermark s \<and> http s then s\<lparr>mFinalStatus := - EAGAIN_code\<rparr> else s
               else s)
      in post_fetch s)"

subsection \<open>Reading\<close>

definition seekInternal_l :: "int \<Rightarrow> cached_source \<Rightarrow> cached_source option" where
  "seekInternal_l offset s =
     (let s = s\<lparr>mLastAccessPos := offset\<rparr>
      in if mCacheOffset s \<le> offset \<and> offset \<le> wrap_i64 (mCacheOffset s + int (totalSize s)) then Some s
         else let (n, c) = releaseFromStart (totalSize s) (mCache s)
              in if n \<noteq> totalSize s then None
                 else Some (s\<lparr>mCacheOffset := offset, mCache := c, mNumRetriesLeft := kMaxNumRetries, mFetching := True\<rparr>))"

text \<open>
  \<open>mCache->copy\<close> into the buffer of the client whose address the message has. The buffer of a client
  that has left \<open>readAt\<close> is gone.
\<close>

definition copy_out :: "nat \<Rightarrow> nat \<Rightarrow> nat \<Rightarrow> cached_source \<Rightarrow> (int \<times> cached_source) option" where
  "copy_out delta sz ptr s =
     (if sz = 0 then Some (0, s)
      else case cache_copy delta sz (mCache s) of
             None \<Rightarrow> None
           | Some bs \<Rightarrow>
               (case waiting s of
                  None \<Rightarrow> None
                | Some w \<Rightarrow>
                    if rmPtr (rcMsg w) \<noteq> ptr then None
                    else case mem_write (rcBuffer w) (Some 0) bs of
                           None \<Rightarrow> None
                         | Some buf \<Rightarrow> Some (wrap_i64 (int sz), s\<lparr>waiting := Some (w\<lparr>rcBuffer := buf\<rparr>)\<rparr>)))"

definition readInternal :: "read_msg \<Rightarrow> cached_source \<Rightarrow> (int \<times> cached_source) option" where
  "readInternal m s =
     (let offset = rmOffset m; sz = rmSize m
      in if \<not> sz \<le> mHighwaterThresholdBytes s then None
         else if mDisconnecting s then Some (END_OF_STREAM, s)
         else let s = (if \<not> mFetching s then restartPrefetcherIfNecessary_l False True (s\<lparr>mLastAccessPos := offset\<rparr>) else s)
              in case (if offset < mCacheOffset s \<or> wrap_i64 (mCacheOffset s + int (totalSize s)) \<le> offset
                       then seekInternal_l (if kPadding < offset then offset - kPadding else 0) s
                       else Some s) of
                   None \<Rightarrow> None
                 | Some s \<Rightarrow>
                     let delta = size_t (offset - mCacheOffset s)
                     in if mFinalStatus s \<noteq> 0 \<and> mNumRetriesLeft s = 0
                        then if totalSize s \<le> delta then Some (mFinalStatus s, s)
                             else copy_out delta (min (totalSize s - delta) sz) (rmPtr m) s
                        else if size_t (offset + int sz) \<le> size_t (mCacheOffset s + int (totalSize s))
                             then copy_out delta sz (rmPtr m) s
                             else Some (- EAGAIN_code, s))"

text \<open>\<open>onRead\<close> up to the return of \<open>readInternal\<close>, where the lock is free for a moment, and after it.\<close>

definition onRead :: "read_msg \<Rightarrow> cached_source \<Rightarrow> cached_source option" where
  "onRead m s =
     (case readInternal m (s\<lparr>read_msgs := remove1 m (read_msgs s)\<rparr>) of
        None \<Rightarrow> None
      | Some (result, s) \<Rightarrow>
          Some (if result = - EAGAIN_code then s\<lparr>read_msgs := read_msgs s @ [m]\<rparr> else s\<lparr>looper := Answering result\<rparr>))"

definition onRead_end :: "int \<Rightarrow> cached_source \<Rightarrow> cached_source option" where
  "onRead_end result s =
     (let s = s\<lparr>looper := Idle\<rparr>
      in if mDisconnecting s then Some s
         else if mAsyncResult s \<noteq> None then None
         else Some (s\<lparr>mAsyncResult := Some (wrap_i32 result)\<rparr>))"

definition return_read :: "read_msg \<Rightarrow> int \<Rightarrow> u8 list \<Rightarrow> cached_source \<Rightarrow> cached_source" where
  "return_read m result buf s =
     s\<lparr>returned := \<lparr>crOffset = rmOffset m, crSize = rmSize m, crResult = result, crData = buf\<rparr> # returned s\<rparr>"

text \<open>
  \<open>readAt\<close> with the buffer \<open>buf\<close>, until it returns or waits for \<open>mCondition\<close>; and what it does when
  it wakes up and finds a result or a disconnection.
\<close>

definition readAt :: "read_msg \<Rightarrow> u8 list \<Rightarrow> cached_source \<Rightarrow> cached_source option" where
  "readAt m buf s =
     (let offset = rmOffset m; sz = rmSize m
      in if mDisconnecting s then Some (return_read m END_OF_STREAM buf s)
         else if mCacheOffset s \<le> offset \<and> size_t (offset + int sz) \<le> size_t (mCacheOffset s + int (totalSize s))
         then case cache_copy (size_t (offset - mCacheOffset s)) sz (mCache s) of
                None \<Rightarrow> None
              | Some bs \<Rightarrow>
                  (case mem_write buf (Some 0) bs of
                     None \<Rightarrow> None
                   | Some buf \<Rightarrow> Some (return_read m (wrap_i64 (int sz)) buf (s\<lparr>mLastAccessPos := wrap_i64 (offset + int sz)\<rparr>)))
         else if mAsyncResult s \<noteq> None then None
         else Some (s\<lparr>read_msgs := read_msgs s @ [m], waiting := Some \<lparr>rcMsg = m, rcBuffer = buf\<rparr>\<rparr>))"

definition readAt_wake :: "read_client \<Rightarrow> cached_source \<Rightarrow> cached_source" where
  "readAt_wake w s =
     (if mDisconnecting s then return_read (rcMsg w) END_OF_STREAM (rcBuffer w) (s\<lparr>mAsyncResult := None, waiting := None\<rparr>)
      else case mAsyncResult s of
             None \<Rightarrow> s
           | Some result \<Rightarrow>
               let s = s\<lparr>mAsyncResult := None, waiting := None\<rparr>;
                   s = (if 0 < result then s\<lparr>mLastAccessPos := wrap_i64 (rmOffset (rcMsg w) + result)\<rparr> else s)
               in return_read (rcMsg w) result (rcBuffer w) s)"

subsection \<open>The other operations\<close>

definition disconnect :: "cached_source \<Rightarrow> cached_source" where
  "disconnect s = (if http s then s\<lparr>mDisconnecting := True\<rparr> else s)"

definition cachedSize :: "cached_source \<Rightarrow> nat" where
  "cachedSize s = size_t (mCacheOffset s + int (totalSize s))"

definition approxDataRemaining_l :: "int \<Rightarrow> cached_source \<Rightarrow> nat \<times> int" where
  "approxDataRemaining_l offset s =
     (let finalStatus = (if mFinalStatus s \<noteq> 0 \<and> 0 < mNumRetriesLeft s then 0 else mFinalStatus s);
          offset = (if 0 \<le> offset then offset else mLastAccessPos s);
          lastBytePosCached = wrap_i64 (mCacheOffset s + int (totalSize s))
      in (if offset < lastBytePosCached then size_t (lastBytePosCached - offset) else 0, finalStatus))"

definition getAvailableSize :: "int \<Rightarrow> cached_source \<Rightarrow> int \<times> int" where
  "getAvailableSize offset s = map_prod (\<lambda>n. wrap_i64 (int n)) id (approxDataRemaining_l offset s)"

definition approxDataRemaining :: "cached_source \<Rightarrow> nat \<times> int" where
  "approxDataRemaining s = approxDataRemaining_l (mLastAccessPos s) s"

text \<open>The headers that configure the cache are taken out of the request; \<open>None\<close> is a null pointer.\<close>

definition RemoveCacheSpecificHeaders :: "(string, string) keyed_vector option \<Rightarrow> (string, string) keyed_vector option \<times> string \<times> bool" where
  "RemoveCacheSpecificHeaders headers =
     (case headers of
        None \<Rightarrow> (None, '''', False)
      | Some hs \<Rightarrow>
          let (hs, cacheConfig) = (case map_of hs ''x-cache-config'' of
                 Some v \<Rightarrow> (filter (\<lambda>(k, _). k \<noteq> ''x-cache-config'') hs, v) | None \<Rightarrow> (hs, ''''));
              (hs, disconnectAtHighwatermark) = (case map_of hs ''x-disconnect-at-highwatermark'' of
                 Some v \<Rightarrow> (filter (\<lambda>(k, _). k \<noteq> ''x-disconnect-at-highwatermark'') hs, True) | None \<Rightarrow> (hs, False))
          in (Some hs, cacheConfig, disconnectAtHighwatermark))"

end
