(* ===== verification/Cached_Window.thy ===== *)
theory Cached_Window
  imports Cached_Source
begin

text \<open>
  The page cache is a window of bytes: the contract that the cached source relies on, the lemmas
  that follow from it for a window into a content, and its proof for the pages.
\<close>

section \<open>Numbers\<close>

lemma size_t_id: "0 \<le> x \<Longrightarrow> x < 2 ^ 64 \<Longrightarrow> size_t x = nat x"
  by (simp add: size_t_def)

lemma size_t_small: "0 \<le> x \<Longrightarrow> x < 18446744073709551616 \<Longrightarrow> size_t x = nat x"
  by (simp add: size_t_def)

lemma wrap_i64_small: "0 \<le> x \<Longrightarrow> x < 9223372036854775808 \<Longrightarrow> wrap_i64 x = x"
  by (simp add: wrap_i64_def)

lemma mem_read_nat: "mem_read st (Some (int d)) (int k) = (if d + k \<le> length st then Some (take k (drop d st)) else None)"
  by (simp add: mem_read_def flip: of_nat_add)

section \<open>The page cache as a window\<close>

text \<open>
  What the cached source relies on: a cache holds a list of bytes, pages are added at the end,
  whole pages leave at the start, and a copy is a slice. If the bytes are those of a content from
  some offset on, they stay so.
\<close>

locale byte_window =
  fixes wf :: "'c \<Rightarrow> bool" and bytes :: "'c \<Rightarrow> 'b list" and total :: "'c \<Rightarrow> nat"
    and page_ok :: "'p \<Rightarrow> bool" and page_bytes :: "'p \<Rightarrow> 'b list"
    and append :: "'p \<Rightarrow> 'c \<Rightarrow> 'c" and release :: "nat \<Rightarrow> 'c \<Rightarrow> nat \<times> 'c"
    and copy :: "nat \<Rightarrow> nat \<Rightarrow> 'c \<Rightarrow> 'b list option"
  assumes total_length: "wf c \<Longrightarrow> total c = length (bytes c)"
    and append_wf: "wf c \<Longrightarrow> page_ok p \<Longrightarrow> length (bytes c) + length (page_bytes p) < 2 ^ 63 \<Longrightarrow> wf (append p c)"
    and append_bytes: "wf c \<Longrightarrow> page_ok p \<Longrightarrow> length (bytes c) + length (page_bytes p) < 2 ^ 63 \<Longrightarrow>
          bytes (append p c) = bytes c @ page_bytes p"
    and release_wf: "wf c \<Longrightarrow> wf (snd (release n c))"
    and release_le: "wf c \<Longrightarrow> fst (release n c) \<le> length (bytes c)"
    and release_max: "wf c \<Longrightarrow> fst (release n c) \<le> n"
    and release_bytes: "wf c \<Longrightarrow> bytes (snd (release n c)) = drop (fst (release n c)) (bytes c)"
    and release_all: "wf c \<Longrightarrow> length (bytes c) \<le> n \<Longrightarrow> fst (release n c) = length (bytes c)"
    and copy_bytes: "wf c \<Longrightarrow> frm + n \<le> length (bytes c) \<Longrightarrow> copy frm n c = Some (take n (drop frm (bytes c)))"
begin

lemma window_end:
  assumes "wf c" "bytes c = take (total c) (drop off content)" "0 < total c"
  shows "off + total c \<le> length content"
proof -
  have "total c = min (total c) (length content - off)" using total_length [OF assms(1)] assms(2) by (metis length_drop length_take min.commute)
  then show ?thesis using assms(3) by (simp add: min_def split: if_splits)
qed

lemma window_append:
  assumes "wf c" "page_ok p" "bytes c = take (total c) (drop off content)"
    and p: "page_bytes p = take k (drop (off + total c) content)" "off + total c + k \<le> length content" "length content < 2 ^ 63"
  shows "wf (append p c)" "total (append p c) = total c + k" "bytes (append p c) = take (total (append p c)) (drop off content)"
proof -
  have k: "length (page_bytes p) = k" using p by simp
  have small: "length (bytes c) + length (page_bytes p) < 2 ^ 63" using total_length [OF assms(1)] k p(2,3) by simp
  show wf: "wf (append p c)" by (rule append_wf [OF assms(1,2) small])
  have b: "bytes (append p c) = bytes c @ page_bytes p" by (rule append_bytes [OF assms(1,2) small])
  then show t: "total (append p c) = total c + k" using total_length [OF wf] total_length [OF assms(1)] k by simp
  have "take (total c + k) (drop off content) = take (total c) (drop off content) @ take k (drop (total c + off) content)"
    by (simp add: take_add)
  then show "bytes (append p c) = take (total (append p c)) (drop off content)" using b t assms(3) p(1) by (simp add: add.commute)
qed

lemma window_release:
  fixes n :: nat
  assumes "wf c" "bytes c = take (total c) (drop off content)"
  defines "r \<equiv> fst (release n c)" and "c' \<equiv> snd (release n c)"
  shows "r \<le> total c" "total c' = total c - r" "bytes c' = take (total c') (drop (off + r) content)"
proof -
  show r: "r \<le> total c" using release_le [OF assms(1)] total_length [OF assms(1)] by (simp add: r_def)
  have b: "bytes c' = drop r (bytes c)" using release_bytes [OF assms(1)] by (simp add: r_def c'_def)
  show t: "total c' = total c - r" using total_length [OF release_wf [OF assms(1)], of n] total_length [OF assms(1)] b by (simp add: c'_def)
  show "bytes c' = take (total c') (drop (off + r) content)" using b t assms(2) by (simp add: drop_take add.commute)
qed

lemma window_clear:
  assumes "wf c"
  shows "fst (release (total c) c) = total c" "total (snd (release (total c) c)) = 0" "bytes (snd (release (total c) c)) = []"
proof -
  show f: "fst (release (total c) c) = total c" using release_all [OF assms] total_length [OF assms] by simp
  show b: "bytes (snd (release (total c) c)) = []" using release_bytes [OF assms, of "total c"] total_length [OF assms] f by simp
  show "total (snd (release (total c) c)) = 0" using total_length [OF release_wf [OF assms, of "total c"]] b by simp
qed

lemma window_copy:
  assumes "wf c" "bytes c = take (total c) (drop off content)" "off \<le> at" "at + n \<le> off + total c"
  shows "copy (at - off) n c = Some (take n (drop at content))"
proof -
  have "copy (at - off) n c = Some (take n (drop (at - off) (bytes c)))" using copy_bytes [OF assms(1)] total_length [OF assms(1)] assms(3,4) by simp
  moreover have "take n (drop (at - off) (take (total c) (drop off content))) = take n (drop at content)"
    using assms(3,4) by (simp add: drop_take min_def)
  ultimately show ?thesis using assms(2) by simp
qed

end

subsection \<open>The pages\<close>

definition page_bytes :: "cache_page \<Rightarrow> u8 list" where
  "page_bytes page = take (pgSize page) (pgData page)"

definition page_ok :: "cache_page \<Rightarrow> bool" where
  "page_ok page \<longleftrightarrow> 0 < pgSize page \<and> pgSize page \<le> length (pgData page)"

definition cache_bytes :: "page_cache \<Rightarrow> u8 list" where
  "cache_bytes c = concat (map page_bytes (mActivePages c))"

definition cache_wf :: "page_cache \<Rightarrow> bool" where
  "cache_wf c \<longleftrightarrow> (\<forall>page\<in>set (mActivePages c). page_ok page) \<and> mTotalSize c = length (cache_bytes c) \<and> mTotalSize c < 2 ^ 63"

lemma length_page_bytes [simp]: "page_ok page \<Longrightarrow> length (page_bytes page) = pgSize page"
  by (simp add: page_bytes_def page_ok_def)

lemma release_loop_spec:
  assumes "\<forall>page\<in>set pages. page_ok page" "b + length (concat (map page_bytes pages)) < 2 ^ 64"
  shows "\<exists>gone kept c'. pages = gone @ kept \<and> release_loop pages n b c = (b + length (concat (map page_bytes gone)), c')
    \<and> mActivePages c' = kept \<and> mTotalSize c' = mTotalSize c \<and> (length (concat (map page_bytes pages)) \<le> n \<longrightarrow> kept = [])
    \<and> length (concat (map page_bytes gone)) \<le> n"
  using assms
proof (induction pages n b c rule: release_loop.induct)
  case (1 n b c)
  show ?case by (intro exI [of _ "[]"] exI [of _ "c\<lparr>mActivePages := []\<rparr>"]) simp
next
  case (2 page pages n b c)
  have p: "page_ok page" "0 < pgSize page" using 2(2) by (auto simp: page_ok_def)
  show ?case
  proof (cases "n = 0 \<or> n < pgSize page")
    case True
    then show ?thesis using p by (intro exI [of _ "[]"] exI [of _ "page # pages"] exI [of _ "c\<lparr>mActivePages := page # pages\<rparr>"]) auto
  next
    case False
    have m: "(b + pgSize page) mod 2 ^ 64 = b + pgSize page" using 2(3) p by simp
    obtain gone kept c' where ih: "pages = gone @ kept"
      "release_loop pages (n - pgSize page) (b + pgSize page) (releasePage page c) = (b + pgSize page + length (concat (map page_bytes gone)), c')"
      "mActivePages c' = kept" "mTotalSize c' = mTotalSize c" "length (concat (map page_bytes pages)) \<le> n - pgSize page \<longrightarrow> kept = []"
      "length (concat (map page_bytes gone)) \<le> n - pgSize page"
      using 2(1) [OF False, unfolded m] 2(2,3) p by (auto simp: releasePage_def)
    then show ?thesis using False m p
      by (intro exI [of _ "page # gone"] exI [of _ kept] exI [of _ c']) (auto simp: add.assoc)
  qed
qed

lemma releaseFromStart_spec:
  assumes "cache_wf c"
  obtains gone kept c' where "mActivePages c = gone @ kept" "releaseFromStart n c = (length (concat (map page_bytes gone)), c')"
    "mActivePages c' = kept" "cache_bytes c' = drop (length (concat (map page_bytes gone))) (cache_bytes c)" "cache_wf c'"
    "mTotalSize c \<le> n \<longrightarrow> kept = []" "length (concat (map page_bytes gone)) \<le> n"
proof -
  have w: "\<forall>page\<in>set (mActivePages c). page_ok page" "mTotalSize c = length (cache_bytes c)" "mTotalSize c < 2 ^ 63" using assms by (simp_all add: cache_wf_def)
  have small: "0 + length (concat (map page_bytes (mActivePages c))) < 2 ^ 64" using w by (simp add: cache_bytes_def)
  obtain gone kept c' where g: "mActivePages c = gone @ kept" "release_loop (mActivePages c) n 0 c = (0 + length (concat (map page_bytes gone)), c')"
    "mActivePages c' = kept" "mTotalSize c' = mTotalSize c" "length (concat (map page_bytes (mActivePages c))) \<le> n \<longrightarrow> kept = []" "length (concat (map page_bytes gone)) \<le> n"
    using release_loop_spec [OF w(1) small, of n c] by blast
  let ?r = "length (concat (map page_bytes gone))"
  let ?c = "c'\<lparr>mTotalSize := size_t (int (mTotalSize c') - int ?r)\<rparr>"
  have b: "cache_bytes c = concat (map page_bytes gone) @ concat (map page_bytes kept)" using g(1) by (simp add: cache_bytes_def)
  have bc: "cache_bytes ?c = concat (map page_bytes kept)" using g(3) by (simp add: cache_bytes_def)
  have "size_t (int (mTotalSize c') - int ?r) = length (concat (map page_bytes kept))" using g(4) w b by (simp add: size_t_def)
  then have "cache_wf ?c" using w g(1,3) bc b by (simp add: cache_wf_def)
  moreover have "cache_bytes ?c = drop ?r (cache_bytes c)" using b bc by simp
  moreover have "releaseFromStart n c = (?r, ?c)" using g(2) by (simp add: releaseFromStart_def)
  moreover have "mTotalSize c \<le> n \<longrightarrow> kept = []" using g(5) w(2) by (simp only: cache_bytes_def)
  ultimately show thesis using that [of gone kept ?c] g(1,3,6) by (metis page_cache.select_convs(3) page_cache.surjective page_cache.update_convs(2))
qed

lemma copy_rest_spec:
  assumes "\<forall>page\<in>set pages. page_ok page" "n \<le> length (concat (map page_bytes pages))"
  shows "copy_rest n pages = Some (take n (concat (map page_bytes pages)))"
  using assms
proof (induction n pages rule: copy_rest.induct)
  case (2 n page pages)
  have p: "page_ok page" "pgSize page \<le> length (pgData page)" using 2(2) by (auto simp: page_ok_def)
  have r: "mem_read (pgData page) (Some 0) (int (min (pgSize page) n)) = Some (take n (page_bytes page))"
    using p by (simp add: mem_read_def page_bytes_def min.commute)
  have "copy_rest (n - min (pgSize page) n) pages = Some (take (n - pgSize page) (concat (map page_bytes pages)))" if "0 < n"
    using 2(1) [OF _ refl r] 2(2,3) that p by (auto simp: min_def)
  then show ?case using r p(1) by (cases "n = 0") (simp_all add: Let_def)
qed simp

lemma copy_find_spec:
  assumes "\<forall>page\<in>set pages. page_ok page" "offset + length (concat (map page_bytes pages)) < 2 ^ 64"
    "offset \<le> frm" "frm < offset + length (concat (map page_bytes pages))"
  shows "\<exists>gone page rest. pages = gone @ page # rest \<and> copy_find frm offset pages = Some (offset + length (concat (map page_bytes gone)), page, rest)
    \<and> offset + length (concat (map page_bytes gone)) \<le> frm \<and> frm < offset + length (concat (map page_bytes gone)) + pgSize page"
  using assms
proof (induction frm offset pages rule: copy_find.induct)
  case (2 frm offset page pages)
  have p: "page_ok page" using 2(2) by simp
  have m: "(offset + pgSize page) mod 2 ^ 64 = offset + pgSize page" using 2(3) p by simp
  show ?case
  proof (cases "offset + pgSize page \<le> frm")
    case True
    obtain gone pg rest where "pages = gone @ pg # rest"
      "copy_find frm (offset + pgSize page) pages = Some (offset + pgSize page + length (concat (map page_bytes gone)), pg, rest)"
      "offset + pgSize page + length (concat (map page_bytes gone)) \<le> frm" "frm < offset + pgSize page + length (concat (map page_bytes gone)) + pgSize pg"
      using 2(1) [unfolded m, OF True] 2(2-5) p True by (auto simp: add.assoc)
    then show ?thesis using True m p by (intro exI [of _ "page # gone"] exI [of _ pg] exI [of _ rest]) (simp add: add.assoc)
  next
    case False
    then show ?thesis using m 2(4) by (intro exI [of _ "[]"] exI [of _ page] exI [of _ pages]) simp
  qed
qed simp

lemma cache_copy_spec:
  assumes "cache_wf c" "frm + n \<le> length (cache_bytes c)"
  shows "cache_copy frm n c = Some (take n (drop frm (cache_bytes c)))"
proof (cases "n = 0")
  case True
  then show ?thesis by (simp add: cache_copy_def)
next
  case False
  have w: "\<forall>page\<in>set (mActivePages c). page_ok page" "mTotalSize c = length (cache_bytes c)" "mTotalSize c < 2 ^ 63" using assms(1) by (simp_all add: cache_wf_def)
  then obtain gone page rest where g: "mActivePages c = gone @ page # rest"
    "copy_find frm 0 (mActivePages c) = Some (length (concat (map page_bytes gone)), page, rest)"
    "length (concat (map page_bytes gone)) \<le> frm" "frm < length (concat (map page_bytes gone)) + pgSize page"
    using copy_find_spec [of "mActivePages c" 0 frm] assms(2) False by (auto simp: cache_bytes_def)
  let ?o = "length (concat (map page_bytes gone))"
  let ?d = "frm - ?o"
  let ?a = "pgSize page - ?d"
  have p: "page_ok page" "pgSize page \<le> length (pgData page)" "\<forall>page\<in>set rest. page_ok page" using w(1) g(1) by (auto simp: page_ok_def)
  have d: "drop frm (cache_bytes c) = drop ?d (page_bytes page) @ concat (map page_bytes rest)" "length (drop ?d (page_bytes page)) = ?a"
    using g p by (simp_all add: cache_bytes_def)
  have rd: "mem_read (pgData page) (Some (int ?d)) (int k) = Some (take k (drop ?d (page_bytes page)))" if "k \<le> ?a" for k
    unfolding mem_read_nat using that p(2) g(4) by (simp add: page_bytes_def drop_take min_def)
  have len: "length (cache_bytes c) = ?o + pgSize page + length (concat (map page_bytes rest))" using g(1) p(1) by (simp add: cache_bytes_def)
  have check: "(frm + n) mod 2 ^ 64 \<le> mTotalSize c" using assms(2) w by simp
  show ?thesis
  proof (cases "n \<le> ?a")
    case True
    then show ?thesis using False check g(2) rd [OF True] d by (simp add: cache_copy_def Let_def)
  next
    case far: False
    have "copy_rest (n - ?a) rest = Some (take (n - ?a) (concat (map page_bytes rest)))" using assms(2) len far g(3,4) by (intro copy_rest_spec [OF p(3)]) simp
    then show ?thesis using False far check g(2) rd [of ?a] d by (simp add: cache_copy_def Let_def)
  qed
qed

interpretation pages: byte_window cache_wf cache_bytes mTotalSize page_ok page_bytes appendPage releaseFromStart cache_copy
proof unfold_locales
  fix c p n frm
  assume wf: "cache_wf c"
  show "mTotalSize c = length (cache_bytes c)" using wf by (simp add: cache_wf_def)
  obtain gone kept c' where r: "mActivePages c = gone @ kept" "releaseFromStart n c = (length (concat (map page_bytes gone)), c')"
    "mActivePages c' = kept" "cache_bytes c' = drop (length (concat (map page_bytes gone))) (cache_bytes c)" "cache_wf c'"
    "mTotalSize c \<le> n \<longrightarrow> kept = []" "length (concat (map page_bytes gone)) \<le> n" using releaseFromStart_spec [OF wf, of n] .
  show "cache_wf (snd (releaseFromStart n c))" "cache_bytes (snd (releaseFromStart n c)) = drop (fst (releaseFromStart n c)) (cache_bytes c)"
    using r(2,4,5) by simp_all
  show "fst (releaseFromStart n c) \<le> n" using r(2,7) by simp
  show "fst (releaseFromStart n c) \<le> length (cache_bytes c)" using r(1,2) by (simp add: cache_bytes_def)
  show "fst (releaseFromStart n c) = length (cache_bytes c)" if "length (cache_bytes c) \<le> n"
    using r(1,2,6) that wf by (simp add: cache_bytes_def cache_wf_def)
  show "cache_copy frm n c = Some (take n (drop frm (cache_bytes c)))" if "frm + n \<le> length (cache_bytes c)"
    by (rule cache_copy_spec [OF wf that])
  assume p: "page_ok p" and small: "length (cache_bytes c) + length (page_bytes p) < 2 ^ 63"
  show b: "cache_bytes (appendPage p c) = cache_bytes c @ page_bytes p" by (simp add: cache_bytes_def appendPage_def)
  have "mTotalSize (appendPage p c) = mTotalSize c + pgSize p" using wf p small by (simp add: appendPage_def cache_wf_def)
  then show "cache_wf (appendPage p c)" using wf p small b by (auto simp: cache_wf_def appendPage_def)
qed

end
