(* ===== verification/Cached_Reads.thy ===== *)
theory Cached_Reads
  imports Cached_Window
begin

text \<open>
  Reads through the cache. The window always shows the content of the source, whatever the threads
  do, so that reads return what the source has there; no check of the code fails.
\<close>

section \<open>The source\<close>

text \<open>
  What \<open>readAt\<close> of the source may answer: an error, zero, or a count of bytes that it has put into
  the page, which are those of its content.
\<close>

definition honest :: "u8 list \<Rightarrow> int \<Rightarrow> int \<Rightarrow> u8 list \<Rightarrow> bool" where
  "honest content off n buf \<longleftrightarrow> - (2 ^ 31) \<le> n \<and> length buf = kPageSize
     \<and> (0 < n \<longrightarrow> n \<le> int kPageSize \<and> nat off + nat n \<le> length content \<and> take (nat n) buf = take (nat n) (drop (nat off) content))"

section \<open>Steps\<close>

text \<open>What a client may ask for: nothing negative, nothing beyond \<open>off64_t\<close>, at most the high watermark.\<close>

definition msg_ok :: "nat \<Rightarrow> read_msg \<Rightarrow> bool" where
  "msg_ok high m \<longleftrightarrow> 0 \<le> rmOffset m \<and> rmOffset m + int (rmSize m) < 2 ^ 63 \<and> rmSize m \<le> high"

text \<open>
  The looper handles its messages one after the other, in any order; clients call at any time that
  the looper is not inside the lock. \<open>answers\<close> and \<open>recon\<close> are what the source may answer.
\<close>

inductive cached_step :: "(int \<Rightarrow> int \<Rightarrow> u8 list \<Rightarrow> bool) \<Rightarrow> (int \<Rightarrow> bool) \<Rightarrow> cached_source \<Rightarrow> cached_source \<Rightarrow> bool"
  for answers recon where
  step_fetch: "looper s = Idle \<Longrightarrow> fetch_delay s \<noteq> None \<Longrightarrow> onFetch now fresh s = Some t \<Longrightarrow> cached_step answers recon s t"
| step_reconnected: "looper s = Reconnecting \<Longrightarrow> recon err \<Longrightarrow> cached_step answers recon s (fetchInternal_reconnected err fresh s)"
| step_read: "looper s = Reading off page \<Longrightarrow> answers off n buf \<Longrightarrow> cached_step answers recon s (fetchInternal_read n buf page s)"
| step_fetched: "looper s = Fetched \<Longrightarrow> cached_step answers recon s (onFetch_end now s)"
| step_onRead: "looper s = Idle \<Longrightarrow> m \<in> set (read_msgs s) \<Longrightarrow> onRead m s = Some t \<Longrightarrow> cached_step answers recon s t"
| step_answer: "looper s = Answering result \<Longrightarrow> onRead_end result s = Some t \<Longrightarrow> cached_step answers recon s t"
| step_readAt: "waiting s = None \<Longrightarrow> msg_ok (mHighwaterThresholdBytes s) m \<Longrightarrow> length buf = rmSize m \<Longrightarrow> readAt m buf s = Some t \<Longrightarrow>
    cached_step answers recon s t"
| step_wake: "waiting s = Some w \<Longrightarrow> mAsyncResult s \<noteq> None \<or> mDisconnecting s \<Longrightarrow> cached_step answers recon s (readAt_wake w s)"
| step_disconnect: "cached_step answers recon s (disconnect s)"
| step_resume: "cached_step answers recon s (resumeFetchingIfNecessary s)"

section \<open>The invariant\<close>

text \<open>The bytes of a read are those of the content.\<close>

definition bytes_ok :: "u8 list \<Rightarrow> int \<Rightarrow> nat \<Rightarrow> int \<Rightarrow> u8 list \<Rightarrow> bool" where
  "bytes_ok content off sz result buf \<longleftrightarrow> (0 < result \<longrightarrow> result \<le> int sz \<and> nat off + nat result \<le> length content
     \<and> take (nat result) buf = take (nat result) (drop (nat off) content))"

definition window_ok :: "u8 list \<Rightarrow> cached_source \<Rightarrow> bool" where
  "window_ok content s \<longleftrightarrow> cache_wf (mCache s) \<and> 0 \<le> mCacheOffset s \<and> mCacheOffset s < 2 ^ 63
     \<and> cache_bytes (mCache s) = take (totalSize s) (drop (nat (mCacheOffset s)) content)"

abbreviation cache_end :: "cached_source \<Rightarrow> int" where
  "cache_end s \<equiv> mCacheOffset s + int (totalSize s)"

text \<open>
  Without a client there is no message and no result under way; a waiting client has posted its
  message, or the looper has its result, or the result waits for it.
\<close>

fun answering :: "looper_at \<Rightarrow> int option" where
  "answering (Answering r) = Some r"
| "answering _ = None"

definition client_ok :: "u8 list \<Rightarrow> cached_source \<Rightarrow> bool" where
  "client_ok content s \<longleftrightarrow>
     (case waiting s of
        None \<Rightarrow> read_msgs s = [] \<and> mAsyncResult s = None \<and> answering (looper s) = None
      | Some w \<Rightarrow> length (rcBuffer w) = rmSize (rcMsg w)
          \<and> (read_msgs s = [rcMsg w] \<and> mAsyncResult s = None \<and> answering (looper s) = None
             \<or> read_msgs s = [] \<and> mAsyncResult s = None
               \<and> (\<exists>r. answering (looper s) = Some r \<and> - (2 ^ 31) \<le> r \<and> r < 2 ^ 31 \<and> bytes_ok content (rmOffset (rcMsg w)) (rmSize (rcMsg w)) r (rcBuffer w))
             \<or> read_msgs s = [] \<and> answering (looper s) = None
               \<and> (\<exists>r. mAsyncResult s = Some r \<and> bytes_ok content (rmOffset (rcMsg w)) (rmSize (rcMsg w)) r (rcBuffer w))))"

definition counters_ok :: "cached_source \<Rightarrow> bool" where
  "counters_ok s \<longleftrightarrow> - (2 ^ 31) \<le> mFinalStatus s \<and> mFinalStatus s \<le> 0 \<and> 0 \<le> mNumRetriesLeft s \<and> mHighwaterThresholdBytes s < 2 ^ 31"

definition cs_ok :: "u8 list \<Rightarrow> cached_source \<Rightarrow> bool" where
  "cs_ok content s \<longleftrightarrow> window_ok content s \<and> counters_ok s \<and> (mDisconnecting s \<or> client_ok content s)
     \<and> (\<forall>m\<in>set (read_msgs s). msg_ok (mHighwaterThresholdBytes s) m)
     \<and> (\<forall>off page. looper s = Reading off page \<longrightarrow> off = cache_end s)
     \<and> (\<forall>e\<in>set (returned s). bytes_ok content (crOffset e) (crSize e) (crResult e) (crData e))"

text \<open>What the operations on the window leave alone.\<close>

definition frame :: "cached_source \<Rightarrow> int \<times> int option \<times> bool \<times> looper_at \<times> read_msg list \<times> cached_read list \<times> nat \<times> bool \<times> u32 \<times> int option" where
  "frame s = (mFinalStatus s, mAsyncResult s, mDisconnecting s, looper s, read_msgs s, returned s, mHighwaterThresholdBytes s,
     mDisconnectAtHighwatermark s, source_flags s, fetch_delay s)"

lemma window_end_le:
  assumes "window_ok content s" "length content < 2 ^ 63"
  shows "cache_end s < 2 ^ 63" "0 < totalSize s \<Longrightarrow> cache_end s \<le> int (length content)" "wrap_i64 (cache_end s) = cache_end s"
proof -
  have w: "cache_wf (mCache s)" "0 \<le> mCacheOffset s" "mCacheOffset s < 2 ^ 63"
    "cache_bytes (mCache s) = take (totalSize s) (drop (nat (mCacheOffset s)) content)" using assms(1) by (simp_all add: window_ok_def)
  show l: "cache_end s \<le> int (length content)" if "0 < totalSize s"
    using pages.window_end [OF w(1,4) that] w(2) by linarith
  show e: "cache_end s < 2 ^ 63" using l w(3) assms(2) by (cases "totalSize s = 0") auto
  show "wrap_i64 (cache_end s) = cache_end s" using e w(2) by (intro wrap_i64_id) linarith+
qed

lemma restart_ok:
  fixes ignore force :: bool
  assumes "window_ok content s" "length content < 2 ^ 63"
  defines "t \<equiv> restartPrefetcherIfNecessary_l ignore force s"
  shows "window_ok content t" "cache_end t = cache_end s" "frame t = frame s" "waiting t = waiting s" "mNumRetriesLeft t = mNumRetriesLeft s"
proof -
  have w: "cache_wf (mCache s)" "0 \<le> mCacheOffset s" "mCacheOffset s < 2 ^ 63"
    "cache_bytes (mCache s) = take (totalSize s) (drop (nat (mCacheOffset s)) content)" using assms(1) by (simp_all add: window_ok_def)
  show "frame t = frame s" "waiting t = waiting s" "mNumRetriesLeft t = mNumRetriesLeft s"
    by (simp_all add: t_def restartPrefetcherIfNecessary_l_def Let_def case_prod_beta frame_def)
  define F where "F n = s\<lparr>mCache := snd (releaseFromStart n (mCache s)), mCacheOffset := wrap_i64 (mCacheOffset s + int (fst (releaseFromStart n (mCache s)))), mFetching := True\<rparr>" for n
  have "\<exists>A B C n. t = (if A then s else if B then s else if C then s else F n)"
    unfolding t_def restartPrefetcherIfNecessary_l_def Let_def case_prod_beta F_def by (intro exI) (rule refl)
  then consider "t = s" | n where "t = F n" by metis
  then have "window_ok content t \<and> cache_end t = cache_end s"
  proof cases
    case 1
    then show ?thesis using assms(1) by simp
  next
    case (2 n)
    let ?r = "fst (releaseFromStart n (mCache s))" and ?c = "snd (releaseFromStart n (mCache s))"
    have r: "?r \<le> totalSize s" "mTotalSize ?c = totalSize s - ?r" "cache_bytes ?c = take (mTotalSize ?c) (drop (nat (mCacheOffset s) + ?r) content)"
      using pages.window_release [OF w(1,4), of n] .
    have b: "mCacheOffset s + int ?r < 2 ^ 63" using window_end_le(1) [OF assms(1,2)] r(1) by linarith
    then have wr: "wrap_i64 (mCacheOffset s + int ?r) = mCacheOffset s + int ?r" using w(2) by (intro wrap_i64_id) linarith+
    have "nat (mCacheOffset s) + ?r = nat (mCacheOffset s + int ?r)" using w(2) by (simp add: nat_add_distrib)
    then show ?thesis using 2 r wr b w(1,2) by (simp add: F_def window_ok_def pages.release_wf)
  qed
  then show "window_ok content t" "cache_end t = cache_end s" by simp_all
qed

lemma seek_ok:
  assumes "window_ok content s" "length content < 2 ^ 63" "0 \<le> off" "off < 2 ^ 63" "0 \<le> mNumRetriesLeft s"
  obtains t where "seekInternal_l off s = Some t" "window_ok content t" "frame t = frame s" "waiting t = waiting s" "0 \<le> mNumRetriesLeft t"
    "mCacheOffset t \<le> off \<and> off \<le> cache_end t"
    "if mCacheOffset s \<le> off \<and> off \<le> cache_end s then t = s\<lparr>mLastAccessPos := off\<rparr>
     else mCacheOffset t = off \<and> totalSize t = 0 \<and> mNumRetriesLeft t = kMaxNumRetries \<and> mFetching t"
proof -
  have w: "cache_wf (mCache s)" using assms(1) by (simp add: window_ok_def)
  have we: "wrap_i64 (cache_end s) = cache_end s" using window_end_le(3) [OF assms(1,2)] .
  show thesis
  proof (cases "mCacheOffset s \<le> off \<and> off \<le> cache_end s")
    case True
    then have "seekInternal_l off s = Some (s\<lparr>mLastAccessPos := off\<rparr>)" using we by (simp add: seekInternal_l_def)
    then show thesis by (rule that) (use True assms(1,5) in \<open>simp_all add: window_ok_def frame_def\<close>)
  next
    case False
    let ?c = "snd (releaseFromStart (totalSize s) (mCache s))"
    let ?t = "s\<lparr>mLastAccessPos := off, mCacheOffset := off, mCache := ?c, mNumRetriesLeft := kMaxNumRetries, mFetching := True\<rparr>"
    have "seekInternal_l off s = Some ?t" using False we pages.window_clear(1) [OF w] by (auto simp add: seekInternal_l_def Let_def case_prod_beta)
    then show thesis by (rule that)
      (use False assms(3,4) pages.window_clear(2,3) [OF w] pages.release_wf [OF w] in \<open>auto simp add: window_ok_def frame_def kMaxNumRetries_def\<close>)
  qed
qed


text \<open>What \<open>readInternal\<close> does once the window is where it wants it.\<close>

definition read_answer :: "read_msg \<Rightarrow> cached_source \<Rightarrow> (int \<times> cached_source) option" where
  "read_answer m s =
     (let delta = size_t (rmOffset m - mCacheOffset s)
      in if mFinalStatus s \<noteq> 0 \<and> mNumRetriesLeft s = 0
         then if totalSize s \<le> delta then Some (mFinalStatus s, s)
              else copy_out delta (min (totalSize s - delta) (rmSize m)) (rmPtr m) s
         else if size_t (rmOffset m + int (rmSize m)) \<le> size_t (mCacheOffset s + int (totalSize s))
              then copy_out delta (rmSize m) (rmPtr m) s
              else Some (- EAGAIN_code, s))"

definition prefetch_from :: "read_msg \<Rightarrow> cached_source \<Rightarrow> cached_source" where
  "prefetch_from m s = (if \<not> mFetching s then restartPrefetcherIfNecessary_l False True (s\<lparr>mLastAccessPos := rmOffset m\<rparr>) else s)"

definition seek_target :: "read_msg \<Rightarrow> int" where
  "seek_target m = (if kPadding < rmOffset m then rmOffset m - kPadding else 0)"

lemma readInternal_split:
  assumes "rmSize m \<le> mHighwaterThresholdBytes s" "\<not> mDisconnecting s"
  shows "readInternal m s =
    (case (if rmOffset m < mCacheOffset (prefetch_from m s) \<or> wrap_i64 (cache_end (prefetch_from m s)) \<le> rmOffset m
           then seekInternal_l (seek_target m) (prefetch_from m s) else Some (prefetch_from m s)) of
       None \<Rightarrow> None | Some t \<Rightarrow> read_answer m t)"
  using assms unfolding readInternal_def read_answer_def prefetch_from_def seek_target_def Let_def by simp

lemma seek_target_bounds: "0 \<le> rmOffset m \<Longrightarrow> 0 \<le> seek_target m \<and> seek_target m \<le> rmOffset m \<and> rmOffset m - seek_target m \<le> kPadding"
  by (simp add: seek_target_def kPadding_def)

lemma prefetch_from_ok:
  fixes m :: read_msg
  assumes "window_ok content s" "length content < 2 ^ 63"
  defines "t \<equiv> prefetch_from m s"
  shows "window_ok content t" "cache_end t = cache_end s" "frame t = frame s" "waiting t = waiting s" "mNumRetriesLeft t = mNumRetriesLeft s"
proof -
  let ?s = "s\<lparr>mLastAccessPos := rmOffset m\<rparr>"
  have "window_ok content ?s" using assms(1) by (simp add: window_ok_def)
  note r = restart_ok [OF this assms(2), of False True]
  show "window_ok content t" "cache_end t = cache_end s" "frame t = frame s" "waiting t = waiting s" "mNumRetriesLeft t = mNumRetriesLeft s"
    using r assms(1) by (simp_all add: t_def prefetch_from_def frame_def)
qed

lemma read_position:
  assumes w: "window_ok content s" "length content < 2 ^ 63" and m: "msg_ok (mHighwaterThresholdBytes s) m"
    and s: "\<not> mDisconnecting s" "0 \<le> mNumRetriesLeft s"
  obtains t where "readInternal m s = read_answer m t" "window_ok content t" "frame t = frame s" "waiting t = waiting s"
    "0 \<le> mNumRetriesLeft t" "mCacheOffset t \<le> rmOffset m"
    "if mCacheOffset (prefetch_from m s) \<le> rmOffset m \<and> rmOffset m < cache_end s then t = prefetch_from m s
     else seekInternal_l (seek_target m) (prefetch_from m s) = Some t \<and> mCacheOffset t \<le> seek_target m \<and> seek_target m \<le> cache_end t"
proof -
  let ?p = "prefetch_from m s"
  note p = prefetch_from_ok [OF w, of m]
  have pe: "wrap_i64 (cache_end ?p) = cache_end s" using window_end_le(3) [OF p(1) w(2)] p(2) by simp
  have mo: "0 \<le> rmOffset m" "rmOffset m < 2 ^ 63" "rmSize m \<le> mHighwaterThresholdBytes s" using m by (simp_all add: msg_ok_def)
  show thesis
  proof (cases "mCacheOffset ?p \<le> rmOffset m \<and> rmOffset m < cache_end s")
    case True
    then have "readInternal m s = read_answer m ?p" using readInternal_split [OF mo(3) s(1)] pe by simp
    then show thesis by (rule that) (use p s(2) True in simp_all)
  next
    case False
    note b = seek_target_bounds [OF mo(1)]
    have tgt: "0 \<le> seek_target m" "seek_target m < 2 ^ 63" using b mo by linarith+
    have "0 \<le> mNumRetriesLeft ?p" using p(5) s(2) by simp
    from seek_ok [OF p(1) w(2) tgt this] obtain t where t: "seekInternal_l (seek_target m) ?p = Some t" "window_ok content t" "frame t = frame ?p" "waiting t = waiting ?p"
      "0 \<le> mNumRetriesLeft t" "mCacheOffset t \<le> seek_target m \<and> seek_target m \<le> cache_end t" by blast
    have "readInternal m s = read_answer m t" using readInternal_split [OF mo(3) s(1)] False pe t(1) by auto
    then show thesis by (rule that) (use p(3,4) t b False in auto)
  qed
qed


definition fill :: "u8 list \<Rightarrow> read_client \<Rightarrow> nat \<Rightarrow> cached_source \<Rightarrow> cached_source" where
  "fill content w k s = s\<lparr>waiting := Some (w\<lparr>rcBuffer := take k (drop (nat (rmOffset (rcMsg w))) content) @ drop k (rcBuffer w)\<rparr>)\<rparr>"

lemma copy_out_eq:
  assumes w: "window_ok content t" "length content < 2 ^ 63" and c: "waiting t = Some w"
    and k: "mCacheOffset t \<le> rmOffset (rcMsg w)" "rmOffset (rcMsg w) + int k \<le> cache_end t" "k \<le> length (rcBuffer w)"
  shows "copy_out (size_t (rmOffset (rcMsg w) - mCacheOffset t)) k (rmPtr (rcMsg w)) t = Some (int k, fill content w k t)"
proof (cases "k = 0")
  case True
  then show ?thesis using c by (simp add: copy_out_def fill_def)
next
  case False
  let ?at = "nat (rmOffset (rcMsg w))"
  have t: "cache_wf (mCache t)" "0 \<le> mCacheOffset t" "cache_bytes (mCache t) = take (totalSize t) (drop (nat (mCacheOffset t)) content)" using w(1) by (simp_all add: window_ok_def)
  have e: "cache_end t < 2 ^ 63" "cache_end t \<le> int (length content)" using window_end_le [OF w] False k by auto
  have d: "size_t (rmOffset (rcMsg w) - mCacheOffset t) = ?at - nat (mCacheOffset t)"
    using k(1,2) t(2) e(1) by (subst size_t_id) (auto simp: nat_diff_distrib)
  have "cache_copy (?at - nat (mCacheOffset t)) k (mCache t) = Some (take k (drop ?at content))"
    using k(1,2) t(2) by (intro pages.window_copy [OF t(1,3)]) (auto simp: nat_le_iff)
  moreover have "length (take k (drop ?at content)) = k" using k(1,2) t(2) e(2) by auto
  moreover have "wrap_i64 (int k) = int k" using k(1,2) t(2) e(1) by (intro wrap_i64_id) linarith+
  ultimately show ?thesis using False c k(3) d by (simp add: copy_out_def fill_def mem_write_def)
qed

lemma read_answer_eq:
  assumes w: "window_ok content t" "length content < 2 ^ 63" and c: "waiting t = Some w" "length (rcBuffer w) = rmSize (rcMsg w)"
    and m: "msg_ok high (rcMsg w)" "mCacheOffset t \<le> rmOffset (rcMsg w)"
  defines "off \<equiv> rmOffset (rcMsg w)" and "sz \<equiv> rmSize (rcMsg w)"
  shows "read_answer (rcMsg w) t =
    (if mFinalStatus t \<noteq> 0 \<and> mNumRetriesLeft t = 0
     then if cache_end t \<le> off then Some (mFinalStatus t, t)
          else let k = min (nat (cache_end t - off)) sz in Some (int k, fill content w k t)
     else if off + int sz \<le> cache_end t then Some (int sz, fill content w sz t) else Some (- EAGAIN_code, t))"
proof -
  have t: "0 \<le> mCacheOffset t" "cache_end t < 2 ^ 63" using w(1) window_end_le(1) [OF w] by (simp_all add: window_ok_def)
  have mm: "0 \<le> off" "off + int sz < 2 ^ 63" using m(1) by (simp_all add: msg_ok_def off_def sz_def)
  have d: "size_t (off - mCacheOffset t) = nat (off - mCacheOffset t)" using t m(2) mm by (intro size_t_id) (auto simp: off_def)
  have "size_t (off + int sz) = nat (off + int sz)" "size_t (cache_end t) = nat (cache_end t)" using t mm by (auto intro!: size_t_id)
  then have le: "size_t (off + int sz) \<le> size_t (cache_end t) \<longleftrightarrow> off + int sz \<le> cache_end t" using t mm by auto
  have de: "totalSize t \<le> size_t (off - mCacheOffset t) \<longleftrightarrow> cache_end t \<le> off" using d m(2) by (auto simp: off_def)
  have co: "copy_out (size_t (off - mCacheOffset t)) k (rmPtr (rcMsg w)) t = Some (int k, fill content w k t)" if "off + int k \<le> cache_end t" "k \<le> sz" for k
    unfolding off_def using that m(2) c by (intro copy_out_eq [OF w c(1)]) (simp_all add: off_def sz_def)
  have mi: "min (totalSize t - size_t (off - mCacheOffset t)) sz = min (nat (cache_end t - off)) sz" if "off < cache_end t"
    using that d m(2) by (simp add: off_def nat_diff_distrib)
  show ?thesis unfolding read_answer_def Let_def off_def [symmetric] sz_def [symmetric] le de
    using co [of sz] co [of "min (nat (cache_end t - off)) sz"] mi by (auto simp: min_def split: if_splits)
qed

lemma fill_bytes_ok:
  assumes "k \<le> rmSize (rcMsg w)" "0 \<le> rmOffset (rcMsg w)" "rmOffset (rcMsg w) + int k \<le> int (length content)"
  shows "bytes_ok content (rmOffset (rcMsg w)) (rmSize (rcMsg w)) (int k) (take k (drop (nat (rmOffset (rcMsg w))) content) @ drop k (rcBuffer w))"
  using assms by (auto simp: bytes_ok_def)


section \<open>Every operation keeps the invariant\<close>

lemma cs_ok_frame:
  assumes "cs_ok content s" "window_ok content t" "counters_ok t" "mDisconnecting t = mDisconnecting s" "waiting t = waiting s"
    "read_msgs t = read_msgs s" "mAsyncResult t = mAsyncResult s" "answering (looper t) = answering (looper s)"
    "mHighwaterThresholdBytes t = mHighwaterThresholdBytes s" "returned t = returned s"
    "\<And>off page. looper t = Reading off page \<Longrightarrow> off = cache_end t"
  shows "cs_ok content t"
proof -
  have "client_ok content t = client_ok content s" by (simp only: client_ok_def assms(5-8))
  then show ?thesis using assms by (simp add: cs_ok_def)
qed

lemma window_ok_pages:
  assumes "window_ok content s" "mActivePages (mCache t) = mActivePages (mCache s)" "totalSize t = totalSize s" "mCacheOffset t = mCacheOffset s"
  shows "window_ok content t"
proof -
  have b: "cache_bytes (mCache t) = cache_bytes (mCache s)" using assms(2) by (simp add: cache_bytes_def)
  show ?thesis using assms(1) unfolding window_ok_def cache_wf_def assms(2-4) b .
qed

lemma acquirePage_pages [simp]:
  "mActivePages (snd (acquirePage fresh c)) = mActivePages c" "mTotalSize (snd (acquirePage fresh c)) = mTotalSize c"
  by (simp_all add: acquirePage_def split: list.split)

lemma releasePage_pages [simp]:
  "mActivePages (releasePage page c) = mActivePages c" "mTotalSize (releasePage page c) = mTotalSize c"
  by (simp_all add: releasePage_def)

lemma fetch_page_ok:
  assumes "cs_ok content s" "length content < 2 ^ 63" "answering (looper s) = None"
  shows "cs_ok content (fetch_page fresh s)"
proof (rule cs_ok_frame [OF assms(1)])
  have w: "window_ok content s" "counters_ok s" using assms(1) by (simp_all add: cs_ok_def)
  show "window_ok content (fetch_page fresh s)" by (rule window_ok_pages [OF w(1)]) (simp_all add: fetch_page_def case_prod_beta)
  show "counters_ok (fetch_page fresh s)" using w(2) by (simp add: counters_ok_def fetch_page_def case_prod_beta)
  show "off = cache_end (fetch_page fresh s)" if "looper (fetch_page fresh s) = Reading off page" for off page
    using that window_end_le(3) [OF w(1) assms(2)] by (simp add: fetch_page_def case_prod_beta)
qed (simp_all add: fetch_page_def case_prod_beta assms(3))

lemma fetchInternal_begin_ok:
  assumes "cs_ok content s" "length content < 2 ^ 63" "looper s = Idle" "mFinalStatus s = 0 \<or> mNumRetriesLeft s \<noteq> 0"
  obtains t where "fetchInternal_begin fresh s = Some t" "cs_ok content t"
proof -
  have c: "counters_ok s" "window_ok content s" using assms(1) by (simp_all add: cs_ok_def)
  show thesis
  proof (cases "mFinalStatus s = 0")
    case True
    then show thesis using that fetch_page_ok [OF assms(1,2)] assms(3) by (simp add: fetchInternal_begin_def)
  next
    case False
    let ?t = "s\<lparr>mNumRetriesLeft := mNumRetriesLeft s - 1, looper := Reconnecting\<rparr>"
    have p: "0 < mNumRetriesLeft s" using False assms(4) c(1) by (simp add: counters_ok_def)
    have "cs_ok content ?t"
      by (rule cs_ok_frame [OF assms(1)]) (use c p assms(3) in \<open>auto simp: counters_ok_def window_ok_def\<close>)
    then show thesis using that False p by (simp add: fetchInternal_begin_def)
  qed
qed

lemma post_fetch_ok:
  assumes "cs_ok content s" "answering (looper s) = None"
  shows "cs_ok content (post_fetch s)"
  by (rule cs_ok_frame [OF assms(1)]) (use assms in \<open>auto simp: post_fetch_def cs_ok_def counters_ok_def window_ok_def\<close>)

lemma restart_cs_ok:
  assumes "cs_ok content s" "length content < 2 ^ 63"
  shows "cs_ok content (restartPrefetcherIfNecessary_l ignore force s)"
proof -
  let ?t = "restartPrefetcherIfNecessary_l ignore force s"
  have w: "window_ok content s" "counters_ok s" using assms(1) by (simp_all add: cs_ok_def)
  note r = restart_ok [OF w(1) assms(2), of ignore force]
  have "counters_ok ?t" using w(2) r(3,5) by (simp add: counters_ok_def frame_def)
  moreover have "off = cache_end ?t" if "looper ?t = Reading off page" for off page
  proof -
    have "looper s = Reading off page" using that r(3) by (simp add: frame_def)
    then show ?thesis using r(2) assms(1) by (simp add: cs_ok_def)
  qed
  ultimately show ?thesis using r assms(1) by (intro cs_ok_frame [OF assms(1)]) (simp_all add: frame_def)
qed

lemma onFetch_ok:
  assumes "cs_ok content s" "length content < 2 ^ 63" "looper s = Idle"
  obtains t where "onFetch now fresh s = Some t" "cs_ok content t"
proof -
  define s' where "s' = (if mFinalStatus s \<noteq> 0 \<and> mNumRetriesLeft s = 0 then s\<lparr>mFetching := False\<rparr> else s)\<lparr>fetch_delay := None\<rparr>"
  have ok: "cs_ok content s'"
    by (rule cs_ok_frame [OF assms(1)]) (use assms(1,3) in \<open>auto simp: s'_def cs_ok_def counters_ok_def window_ok_def\<close>)
  have l: "looper s' = Idle" using assms(3) by (simp add: s'_def)
  define keepAlive where "keepAlive \<longleftrightarrow> \<not> mFetching s' \<and> mFinalStatus s' = 0 \<and> 0 < mKeepAliveIntervalUs s' \<and> mLastFetchTimeUs s' + mKeepAliveIntervalUs s' \<le> now"
  have eq: "onFetch now fresh s = (if mFetching s' \<or> keepAlive then fetchInternal_begin fresh s' else Some (post_fetch (restartPrefetcherIfNecessary_l False False s')))"
    unfolding onFetch_def Let_def keepAlive_def s'_def by simp
  show thesis
  proof (cases "mFetching s' \<or> keepAlive")
    case True
    then have "mFinalStatus s' = 0 \<or> mNumRetriesLeft s' \<noteq> 0" by (auto simp: s'_def keepAlive_def)
    from fetchInternal_begin_ok [OF ok assms(2) l this] show thesis using eq True that by metis
  next
    case False
    note r = restart_cs_ok [OF ok assms(2), of False False]
    have "looper (restartPrefetcherIfNecessary_l False False s') = looper s'"
      using restart_ok(3) [of content s' False False] ok assms(2) by (simp add: cs_ok_def frame_def)
    then have "cs_ok content (post_fetch (restartPrefetcherIfNecessary_l False False s'))" using r l by (intro post_fetch_ok) simp_all
    then show thesis using eq False that by simp
  qed
qed

lemma reconnected_ok:
  assumes "cs_ok content s" "length content < 2 ^ 63" "looper s = Reconnecting"
  shows "cs_ok content (fetchInternal_reconnected err fresh s)"
proof -
  have c: "counters_ok s" "window_ok content s" using assms(1) by (simp_all add: cs_ok_def)
  have "cs_ok content (s\<lparr>mNumRetriesLeft := k, mFinalStatus := st, looper := Fetched\<rparr>)" if "0 \<le> k" "- (2 ^ 31) \<le> st" "st \<le> 0" for k st
    by (rule cs_ok_frame [OF assms(1)]) (use c that assms(3) in \<open>auto simp: counters_ok_def window_ok_def\<close>)
  from this [of 0 "- 1011"] this [of 0 "mFinalStatus s"] this [of "mNumRetriesLeft s" "mFinalStatus s"]
  show ?thesis using c(1) fetch_page_ok [OF assms(1,2), of fresh] assms(3) by (simp add: fetchInternal_reconnected_def counters_ok_def)
qed

lemma wrap_i32_status: "- (2 ^ 31) \<le> n \<Longrightarrow> n \<le> 0 \<Longrightarrow> wrap_i32 n = n"
  by (simp add: wrap_i32_def)

lemma read_ok:
  assumes "cs_ok content s" "length content < 2 ^ 63" "looper s = Reading off page" "honest content off n buf"
  shows "cs_ok content (fetchInternal_read n buf page s)"
proof -
  have c: "counters_ok s" "window_ok content s" "off = cache_end s" using assms(1,3) by (simp_all add: cs_ok_def)
  have rel: "cs_ok content (s\<lparr>mNumRetriesLeft := k, mFinalStatus := st, mCache := releasePage pg (mCache s), looper := Fetched\<rparr>)"
    if "0 \<le> k" "- (2 ^ 31) \<le> st" "st \<le> 0" for k st pg
    by (rule cs_ok_frame [OF assms(1)]) (use c that assms(3) in \<open>auto simp: counters_ok_def intro: window_ok_pages [OF c(2)]\<close>)
  have rel2: "cs_ok content (s\<lparr>mFinalStatus := st, mNumRetriesLeft := k, mCache := releasePage pg (mCache s), looper := Fetched\<rparr>)"
    if "0 \<le> k" "- (2 ^ 31) \<le> st" "st \<le> 0" for k st pg
    using rel [OF that, of pg] by (rule back_subst [of "cs_ok content"]) simp
  let ?p = "page\<lparr>pgData := buf, pgSize := nat n\<rparr>"
  let ?t = "s\<lparr>mNumRetriesLeft := kMaxNumRetries, mFinalStatus := 0, mCache := appendPage ?p (mCache s), looper := Fetched\<rparr>"
  have app: "cs_ok content ?t" if n: "0 < n"
  proof -
    have h: "n \<le> int kPageSize" "nat off + nat n \<le> length content" "take (nat n) buf = take (nat n) (drop (nat off) content)" "length buf = kPageSize"
      using assms(4) n by (simp_all add: honest_def)
    have w: "cache_wf (mCache s)" "0 \<le> mCacheOffset s" "mCacheOffset s < 2 ^ 63" "cache_bytes (mCache s) = take (totalSize s) (drop (nat (mCacheOffset s)) content)"
      using c(2) by (simp_all add: window_ok_def)
    have p: "page_ok ?p" using n h(1,4) by (simp add: page_ok_def)
    have at: "nat off = nat (mCacheOffset s) + totalSize s" using c(3) w(2) by (simp add: nat_add_distrib)
    have "window_ok content ?t"
      using pages.window_append [OF w(1) p w(4), of "nat n"] h at w(2,3) assms(2) by (simp add: window_ok_def page_bytes_def)
    then show ?thesis by (intro cs_ok_frame [OF assms(1)]) (use c(1) assms(3) in \<open>auto simp: counters_ok_def kMaxNumRetries_def\<close>)
  qed
  have lo: "- (2 ^ 31) \<le> n" using assms(4) by (simp add: honest_def)
  consider "n = 0 \<or> mDisconnecting s" | "n < 0" "\<not> mDisconnecting s" | "0 < n" "\<not> mDisconnecting s" by linarith
  then show ?thesis
  proof cases
    case 1
    then show ?thesis using rel [of 0 "- 1011"] by (simp add: fetchInternal_read_def)
  next
    case 2
    then show ?thesis using rel2 [of 0 n] rel2 [of "mNumRetriesLeft s" n] lo c(1) wrap_i32_status [OF lo] by (simp add: fetchInternal_read_def counters_ok_def)
  next
    case 3
    then show ?thesis using app by (simp add: fetchInternal_read_def)
  qed
qed

lemma onFetch_end_ok:
  assumes "cs_ok content s" "looper s = Fetched"
  shows "cs_ok content (onFetch_end now s)"
proof -
  have "cs_ok content (s\<lparr>mLastFetchTimeUs := now, mFetching := f, mFinalStatus := st\<rparr>)" if "- (2 ^ 31) \<le> st" "st \<le> 0" for f st
    by (rule cs_ok_frame [OF assms(1)]) (use assms that in \<open>auto simp: cs_ok_def counters_ok_def window_ok_def\<close>)
  from this [of "- 11" False] this [of "mFinalStatus s" False] this [of "mFinalStatus s" "mFetching s"] assms
  show ?thesis by (auto simp: onFetch_end_def Let_def cs_ok_def [of content s] counters_ok_def intro!: post_fetch_ok)
qed


lemma fill_fields [simp]:
  "window_ok content (fill content w k s) = window_ok content s" "frame (fill content w k s) = frame s" "mNumRetriesLeft (fill content w k s) = mNumRetriesLeft s"
  "waiting (fill content w k s) = Some (w\<lparr>rcBuffer := take k (drop (nat (rmOffset (rcMsg w))) content) @ drop k (rcBuffer w)\<rparr>)"
  by (simp_all add: fill_def window_ok_def frame_def)

lemma readInternal_ok:
  assumes w: "window_ok content s" "length content < 2 ^ 63" and c: "counters_ok s" "\<not> mDisconnecting s"
    and m: "waiting s = Some w" "length (rcBuffer w) = rmSize (rcMsg w)" "msg_ok (mHighwaterThresholdBytes s) (rcMsg w)"
  obtains r t buf where "readInternal (rcMsg w) s = Some (r, t)" "window_ok content t" "frame t = frame s" "0 \<le> mNumRetriesLeft t"
    "waiting t = Some (w\<lparr>rcBuffer := buf\<rparr>)" "length buf = rmSize (rcMsg w)" "- (2 ^ 31) \<le> r" "r < 2 ^ 31"
    "bytes_ok content (rmOffset (rcMsg w)) (rmSize (rcMsg w)) r buf"
proof -
  note found = that
  have cc: "- (2 ^ 31) \<le> mFinalStatus s" "mFinalStatus s \<le> 0" "0 \<le> mNumRetriesLeft s" "mHighwaterThresholdBytes s < 2 ^ 31" using c(1) by (simp_all add: counters_ok_def)
  have mm: "0 \<le> rmOffset (rcMsg w)" "rmSize (rcMsg w) \<le> mHighwaterThresholdBytes s" using m(3) by (simp_all add: msg_ok_def)
  obtain t where t: "readInternal (rcMsg w) s = read_answer (rcMsg w) t" "window_ok content t" "frame t = frame s" "waiting t = waiting s"
    "0 \<le> mNumRetriesLeft t" "mCacheOffset t \<le> rmOffset (rcMsg w)" using read_position [OF w m(3) c(2) cc(3)] by blast
  have fin: "mFinalStatus t = mFinalStatus s" using t(3) by (simp add: frame_def)
  have wt: "waiting t = Some w" using t(4) m(1) by simp
  have unfilled: thesis if "readInternal (rcMsg w) s = Some (r, t)" "- (2 ^ 31) \<le> r" "r \<le> 0" for r
    by (rule found [OF that(1)]) (use that t wt m(2) in \<open>auto simp: bytes_ok_def\<close>)
  have filled: thesis if "readInternal (rcMsg w) s = Some (int k, fill content w k t)" "k \<le> rmSize (rcMsg w)" "rmOffset (rcMsg w) + int k \<le> cache_end t" for k
  proof (cases "k = 0")
    case True
    have "fill content w 0 t = t" using wt by (simp add: fill_def)
    then show thesis using unfilled [of 0] that(1) True by simp
  next
    case False
    have len: "rmOffset (rcMsg w) + int k \<le> int (length content)" using window_end_le(2) [OF t(2) w(2)] that(3) t(6) False by auto
    show thesis by (rule found [OF that(1)]) (use that t m(2) len cc(4) mm fill_bytes_ok [of k w content] in auto)
  qed
  show thesis
    using t(1) unfolding read_answer_eq [OF t(2) w(2) wt m(2,3) t(6)]
    using unfilled [of "mFinalStatus s"] unfilled [of "- 11"] filled [of "rmSize (rcMsg w)"]
      filled [of "min (nat (cache_end t - rmOffset (rcMsg w))) (rmSize (rcMsg w))"] fin cc
    by (auto simp: Let_def min_def split: if_splits)
qed

lemma onRead_ok:
  assumes "cs_ok content s" "length content < 2 ^ 63" "looper s = Idle" "m \<in> set (read_msgs s)"
  obtains t where "onRead m s = Some t" "cs_ok content t"
proof -
  have ok: "window_ok content s" "counters_ok s" "mDisconnecting s \<or> client_ok content s" "\<forall>m\<in>set (read_msgs s). msg_ok (mHighwaterThresholdBytes s) m"
    using assms(1) by (simp_all add: cs_ok_def)
  let ?s = "s\<lparr>read_msgs := remove1 m (read_msgs s)\<rparr>"
  have s0: "window_ok content ?s" "counters_ok ?s" using ok(1,2) by (simp_all add: window_ok_def counters_ok_def)
  show thesis
  proof (cases "mDisconnecting s")
    case True
    have "rmSize m \<le> mHighwaterThresholdBytes s" using ok(4) assms(4) by (auto simp: msg_ok_def)
    then have "onRead m s = Some (?s\<lparr>looper := Answering (- 1011)\<rparr>)" using True by (simp add: onRead_def readInternal_def)
    moreover have "cs_ok content (?s\<lparr>looper := Answering (- 1011)\<rparr>)"
      using assms(1) True s0 unfolding cs_ok_def by (auto simp: window_ok_def counters_ok_def dest: notin_set_remove1)
    ultimately show thesis by (rule that)
  next
    case False
    then obtain w where w: "waiting s = Some w" "length (rcBuffer w) = rmSize (rcMsg w)" "read_msgs s = [rcMsg w]" "mAsyncResult s = None" "m = rcMsg w"
      using ok(3) assms(3,4) by (auto simp: client_ok_def split: option.splits)
    have s1: "\<not> mDisconnecting ?s" "waiting ?s = Some w" "msg_ok (mHighwaterThresholdBytes ?s) (rcMsg w)" using False w ok(4) by simp_all
    obtain r t buf where t: "readInternal (rcMsg w) ?s = Some (r, t)" "window_ok content t" "frame t = frame ?s" "0 \<le> mNumRetriesLeft t"
      "waiting t = Some (w\<lparr>rcBuffer := buf\<rparr>)" "length buf = rmSize (rcMsg w)" "- (2 ^ 31) \<le> r" "r < 2 ^ 31"
      "bytes_ok content (rmOffset (rcMsg w)) (rmSize (rcMsg w)) r buf"
      using readInternal_ok [OF s0(1) assms(2) s0(2) s1(1,2) w(2) s1(3)] .
    let ?t = "if r = - 11 then t\<lparr>read_msgs := read_msgs t @ [m]\<rparr> else t\<lparr>looper := Answering r\<rparr>"
    have "onRead m s = Some ?t" using t(1) w(5) by (simp add: onRead_def)
    moreover have "cs_ok content ?t"
      using t assms(1,3) w s1(3) ok(2) unfolding cs_ok_def by (auto simp: frame_def client_ok_def window_ok_def counters_ok_def)
    ultimately show thesis by (rule that)
  qed
qed

lemma onRead_end_ok:
  assumes "cs_ok content s" "looper s = Answering r"
  obtains t where "onRead_end r s = Some t" "cs_ok content t"
proof (cases "mDisconnecting s")
  case True
  have "cs_ok content (s\<lparr>looper := Idle\<rparr>)" using assms(1) True by (auto simp: cs_ok_def window_ok_def counters_ok_def)
  then show thesis using that True by (simp add: onRead_end_def)
next
  case False
  then have c: "client_ok content s" using assms(1) by (simp add: cs_ok_def)
  then obtain w where w: "waiting s = Some w" "length (rcBuffer w) = rmSize (rcMsg w)" "read_msgs s = []" "mAsyncResult s = None"
    "- (2 ^ 31) \<le> r" "r < 2 ^ 31" "bytes_ok content (rmOffset (rcMsg w)) (rmSize (rcMsg w)) r (rcBuffer w)"
    using assms(2) by (auto simp: client_ok_def split: option.splits)
  let ?t = "s\<lparr>looper := Idle, mAsyncResult := Some r\<rparr>"
  have "onRead_end r s = Some ?t" using False w(4-6) by (simp add: onRead_end_def wrap_i32_id)
  moreover have "cs_ok content ?t" using assms(1) w by (simp add: cs_ok_def client_ok_def window_ok_def counters_ok_def)
  ultimately show thesis by (rule that)
qed


lemma client_ok_fields [simp]:
  "client_ok content (s\<lparr>returned := es\<rparr>) = client_ok content s" "client_ok content (s\<lparr>mLastAccessPos := x\<rparr>) = client_ok content s"
  by (cases "waiting s"; simp add: client_ok_def)+

lemma return_read_ok:
  assumes "cs_ok content s" "bytes_ok content (rmOffset m) (rmSize m) r buf"
  shows "cs_ok content (return_read m r buf s)"
  using assms by (simp add: return_read_def cs_ok_def window_ok_def counters_ok_def)

lemma last_access_ok: "cs_ok content s \<Longrightarrow> cs_ok content (s\<lparr>mLastAccessPos := x\<rparr>)"
  by (simp add: cs_ok_def window_ok_def counters_ok_def)

lemma readAt_ok:
  assumes "cs_ok content s" "length content < 2 ^ 63" "waiting s = None" "msg_ok (mHighwaterThresholdBytes s) m" "length buf = rmSize m"
  obtains t where "readAt m buf s = Some t" "cs_ok content t"
proof -
  have w: "window_ok content s" "counters_ok s" using assms(1) by (simp_all add: cs_ok_def)
  have t: "cache_wf (mCache s)" "0 \<le> mCacheOffset s" "cache_bytes (mCache s) = take (totalSize s) (drop (nat (mCacheOffset s)) content)" using w(1) by (simp_all add: window_ok_def)
  have mm: "0 \<le> rmOffset m" "rmOffset m + int (rmSize m) < 2 ^ 63" using assms(4) by (simp_all add: msg_ok_def)
  note e = window_end_le [OF w(1) assms(2)]
  have "size_t (rmOffset m + int (rmSize m)) = nat (rmOffset m + int (rmSize m))" "size_t (cache_end s) = nat (cache_end s)"
    using t(2) mm e(1) by (auto intro!: size_t_id)
  then have le: "size_t (rmOffset m + int (rmSize m)) \<le> size_t (cache_end s) \<longleftrightarrow> rmOffset m + int (rmSize m) \<le> cache_end s" using t(2) mm by auto
  consider (gone) "mDisconnecting s" | (hit) "\<not> mDisconnecting s" "mCacheOffset s \<le> rmOffset m" "rmOffset m + int (rmSize m) \<le> cache_end s"
    | (miss) "\<not> mDisconnecting s" "\<not> (mCacheOffset s \<le> rmOffset m \<and> rmOffset m + int (rmSize m) \<le> cache_end s)" by blast
  then show thesis
  proof cases
    case gone
    then have "readAt m buf s = Some (return_read m (- 1011) buf s)" by (simp add: readAt_def)
    then show thesis by (rule that) (rule return_read_ok [OF assms(1)], simp add: bytes_ok_def)
  next
    case hit
    let ?bs = "take (rmSize m) (drop (nat (rmOffset m)) content)"
    have d: "size_t (rmOffset m - mCacheOffset s) = nat (rmOffset m) - nat (mCacheOffset s)"
      using hit t(2) mm by (subst size_t_id) (auto simp: nat_diff_distrib)
    have "cache_copy (nat (rmOffset m) - nat (mCacheOffset s)) (rmSize m) (mCache s) = Some ?bs"
      using hit t(2) by (intro pages.window_copy [OF t(1,3)]) (auto simp: nat_le_iff)
    moreover have len: "nat (rmOffset m) + rmSize m \<le> length content \<or> rmSize m = 0" using e(2) hit mm by (cases "totalSize s = 0") auto
    then have "length ?bs = rmSize m" by auto
    moreover have "wrap_i64 (int (rmSize m)) = int (rmSize m)" using mm by (intro wrap_i64_id) linarith+
    ultimately have "readAt m buf s = Some (return_read m (int (rmSize m)) ?bs (s\<lparr>mLastAccessPos := wrap_i64 (rmOffset m + int (rmSize m))\<rparr>))"
      using hit d le assms(5) by (simp add: readAt_def mem_write_def Let_def)
    then show thesis by (rule that) (rule return_read_ok [OF last_access_ok [OF assms(1)]], use len mm in \<open>auto simp: bytes_ok_def\<close>)
  next
    case miss
    then have c: "read_msgs s = []" "mAsyncResult s = None" "answering (looper s) = None" using assms(1,3) by (simp_all add: cs_ok_def client_ok_def)
    then have "readAt m buf s = Some (s\<lparr>read_msgs := [m], waiting := Some \<lparr>rcMsg = m, rcBuffer = buf\<rparr>\<rparr>)" using miss le by (auto simp: readAt_def)
    then show thesis by (rule that) (use assms c in \<open>simp add: cs_ok_def client_ok_def window_ok_def counters_ok_def\<close>)
  qed
qed

lemma readAt_wake_ok:
  assumes "cs_ok content s" "waiting s = Some w" "mAsyncResult s \<noteq> None \<or> mDisconnecting s"
  shows "cs_ok content (readAt_wake w s)"
proof (cases "mDisconnecting s")
  case True
  have "cs_ok content (s\<lparr>mAsyncResult := None, waiting := None\<rparr>)" using assms(1) True by (simp add: cs_ok_def window_ok_def counters_ok_def)
  then have "cs_ok content (return_read (rcMsg w) (- 1011) (rcBuffer w) (s\<lparr>mAsyncResult := None, waiting := None\<rparr>))" by (rule return_read_ok) (simp add: bytes_ok_def)
  then show ?thesis using True by (simp add: readAt_wake_def Let_def)
next
  case False
  then have c: "client_ok content s" "mAsyncResult s \<noteq> None" using assms(1,3) by (simp_all add: cs_ok_def)
  then obtain r where r: "mAsyncResult s = Some r" "read_msgs s = []" "answering (looper s) = None" "bytes_ok content (rmOffset (rcMsg w)) (rmSize (rcMsg w)) r (rcBuffer w)"
    using assms(2) by (auto simp: client_ok_def)
  have ok: "cs_ok content (s\<lparr>mAsyncResult := None, waiting := None\<rparr>)" using assms(1) r by (simp add: cs_ok_def client_ok_def window_ok_def counters_ok_def)
  show ?thesis using False r(1) return_read_ok [OF ok r(4)] return_read_ok [OF last_access_ok [OF ok] r(4)] by (simp add: readAt_wake_def Let_def)
qed

lemma disconnect_ok: "cs_ok content s \<Longrightarrow> cs_ok content (disconnect s)"
  by (simp add: disconnect_def cs_ok_def window_ok_def counters_ok_def)

lemma cached_step_ok:
  assumes "cached_step (honest content) recon s t" "length content < 2 ^ 63" "cs_ok content s"
  shows "cs_ok content t"
  using assms(1)
proof cases
  case step_fetch
  then show ?thesis using onFetch_ok [OF assms(3,2)] by (metis option.inject)
next
  case step_onRead
  then show ?thesis using onRead_ok [OF assms(3,2)] by (metis option.inject)
next
  case step_answer
  then show ?thesis using onRead_end_ok [OF assms(3)] by (metis option.inject)
next
  case step_readAt
  then show ?thesis using readAt_ok [OF assms(3,2)] by (metis option.inject)
qed (use assms(2,3) in \<open>auto intro: reconnected_ok read_ok onFetch_end_ok readAt_wake_ok disconnect_ok simp: resumeFetchingIfNecessary_def restart_cs_ok\<close>)

text \<open>A new cached source with watermarks below \<open>2 ^ 31\<close>.\<close>

definition created :: "cached_source \<Rightarrow> bool" where
  "created s \<longleftrightarrow> (\<exists>fl prop cacheConfig d. s = Create fl prop cacheConfig d) \<and> mHighwaterThresholdBytes s < 2 ^ 31"

lemma update_params_fields [simp]:
  "mCache (updateCacheParamsFromString p s) = mCache s" "mCacheOffset (updateCacheParamsFromString p s) = mCacheOffset s"
  "mFinalStatus (updateCacheParamsFromString p s) = mFinalStatus s" "mNumRetriesLeft (updateCacheParamsFromString p s) = mNumRetriesLeft s"
  "mAsyncResult (updateCacheParamsFromString p s) = mAsyncResult s" "looper (updateCacheParamsFromString p s) = looper s"
  "read_msgs (updateCacheParamsFromString p s) = read_msgs s" "waiting (updateCacheParamsFromString p s) = waiting s" "returned (updateCacheParamsFromString p s) = returned s"
  "mFetching (updateCacheParamsFromString p s) = mFetching s" "mDisconnecting (updateCacheParamsFromString p s) = mDisconnecting s"
  by (simp_all add: updateCacheParamsFromString_def Let_def case_prod_beta split: option.split)

lemma Create_fields [simp]:
  "mCache (Create fl p c d) = new_page_cache kPageSize" "mCacheOffset (Create fl p c d) = 0" "mFinalStatus (Create fl p c d) = 0"
  "mNumRetriesLeft (Create fl p c d) = kMaxNumRetries" "mAsyncResult (Create fl p c d) = None" "looper (Create fl p c d) = Idle"
  "read_msgs (Create fl p c d) = []" "waiting (Create fl p c d) = None" "returned (Create fl p c d) = []"
  "fetch_delay (Create fl p c d) = Some 0" "mFetching (Create fl p c d)" "\<not> mDisconnecting (Create fl p c d)"
  by (simp_all add: Create_def new_cached_source_def updateCacheParamsFromSystemProperty_def Let_def split: option.split)

lemma createdI: "mHighwaterThresholdBytes (Create fl p c d) < 2 ^ 31 \<Longrightarrow> created (Create fl p c d)"
  unfolding created_def by blast

lemma created_ok: "created s \<Longrightarrow> cs_ok content s"
  by (auto simp: created_def cs_ok_def window_ok_def counters_ok_def client_ok_def cache_wf_def cache_bytes_def new_page_cache_def kMaxNumRetries_def)

interpretation cached: invariant_system created "\<lambda>s t. cached_step (honest content) recon s t \<and> length content < 2 ^ 63" "cs_ok content"
  for content recon
  by unfold_locales (auto intro: created_ok cached_step_ok)

lemma cached_reachable_ok:
  assumes "created s\<^sub>0" "(cached_step (honest content) recon)\<^sup>*\<^sup>* s\<^sub>0 s" "length content < 2 ^ 63"
  shows "cs_ok content s"
proof (rule cached.reachable_inv [OF assms(1)])
  show "(\<lambda>s t. cached_step (honest content) recon s t \<and> length content < 2 ^ 63)\<^sup>*\<^sup>* s\<^sub>0 s" using assms(2,3) by simp
qed


section \<open>What clients see\<close>


text \<open>
  C20: no check of the code fails and no memory is touched that is gone, in any such run: the looper
  handles each of its messages, delivers each answer to a client that still waits, and a client may
  read any range of at most the high watermark at any time.
\<close>

theorem cached_checks_hold:
  assumes "created s\<^sub>0" "(cached_step (honest content) recon)\<^sup>*\<^sup>* s\<^sub>0 s" "length content < 2 ^ 63"
  shows "(looper s = Idle \<longrightarrow> onFetch now fresh s \<noteq> None \<and> (\<forall>m\<in>set (read_msgs s). onRead m s \<noteq> None))
    \<and> (\<forall>r. looper s = Answering r \<longrightarrow> onRead_end r s \<noteq> None)
    \<and> (\<forall>m buf. waiting s = None \<and> msg_ok (mHighwaterThresholdBytes s) m \<and> length buf = rmSize m \<longrightarrow> readAt m buf s \<noteq> None)"
proof -
  have ok: "cs_ok content s" by (rule cached_reachable_ok [OF assms])
  have "onFetch now fresh s \<noteq> None" if "looper s = Idle" using onFetch_ok [OF ok assms(3) that, of now fresh] by auto
  moreover have "onRead m s \<noteq> None" if "looper s = Idle" "m \<in> set (read_msgs s)" for m using onRead_ok [OF ok assms(3) that] by auto
  moreover have "onRead_end r s \<noteq> None" if "looper s = Answering r" for r using onRead_end_ok [OF ok that] by auto
  moreover have "readAt m buf s \<noteq> None" if "waiting s = None" "msg_ok (mHighwaterThresholdBytes s) m" "length buf = rmSize m" for m buf
    using readAt_ok [OF ok assms(3) that] by auto
  ultimately show ?thesis by blast
qed

text \<open>A source of three bytes: the first fetch and a read in it.\<close>

definition tiny_fetched :: cached_source where
  "tiny_fetched = onFetch_end 7 (fetchInternal_read 3 ([1, 2, 3] @ replicate 65533 0) \<lparr>pgData = [], pgSize = 0\<rparr> (the (onFetch 5 [] (Create 8 None None False))))"

lemma tiny_created: "created (Create 8 None None False)"
  by (rule createdI) (simp add: Create_def new_cached_source_def updateCacheParamsFromSystemProperty_def kDefaultHighWaterThreshold_def)

lemma tiny_begin: "\<exists>t. onFetch 5 [] (Create 8 None None False) = Some t \<and> looper t = Reading 0 \<lparr>pgData = [], pgSize = 0\<rparr>
   \<and> fetchInternal_read 3 ([1, 2, 3] @ replicate 65533 0) \<lparr>pgData = [], pgSize = 0\<rparr> t =
     t\<lparr>mNumRetriesLeft := 10, mFinalStatus := 0, mCache := \<lparr>mPageSize = 65536, mTotalSize = 3,
       mActivePages = [\<lparr>pgData = [1, 2, 3] @ replicate 65533 0, pgSize = 3\<rparr>], mFreePages = []\<rparr>, looper := Fetched\<rparr>
   \<and> mCacheOffset t = 0 \<and> \<not> mDisconnecting t \<and> waiting t = None \<and> returned t = [] \<and> mHighwaterThresholdBytes t = 20971520 \<and> mFetching t"
  by (simp add: onFetch_def fetchInternal_begin_def fetch_page_def acquirePage_def Create_def new_cached_source_def updateCacheParamsFromSystemProperty_def
    new_page_cache_def fetchInternal_read_def appendPage_def kPageSize_def kMaxNumRetries_def wrap_i64_small kDefaultHighWaterThreshold_def)

lemma tiny_honest: "honest [1, 2, 3] 0 3 ([1, 2, 3] @ replicate 65533 0)"
  by (simp add: honest_def kPageSize_def)

lemma tiny_run: "(cached_step (honest [1, 2, 3]) (\<lambda>_. True))\<^sup>*\<^sup>* (Create 8 None None False) tiny_fetched"
proof -
  obtain t where t: "onFetch 5 [] (Create 8 None None False) = Some t" "looper t = Reading 0 \<lparr>pgData = [], pgSize = 0\<rparr>"
    "looper (fetchInternal_read 3 ([1, 2, 3] @ replicate 65533 0) \<lparr>pgData = [], pgSize = 0\<rparr> t) = Fetched" using tiny_begin by auto
  have 1: "cached_step (honest [1, 2, 3]) (\<lambda>_. True) (Create 8 None None False) t" by (rule step_fetch [OF _ _ t(1)]) simp_all
  have 2: "cached_step (honest [1, 2, 3]) (\<lambda>_. True) t (fetchInternal_read 3 ([1, 2, 3] @ replicate 65533 0) \<lparr>pgData = [], pgSize = 0\<rparr> t)"
    by (rule step_read [of t, OF t(2)]) (rule tiny_honest)
  have 3: "cached_step (honest [1, 2, 3]) (\<lambda>_. True) (fetchInternal_read 3 ([1, 2, 3] @ replicate 65533 0) \<lparr>pgData = [], pgSize = 0\<rparr> t) tiny_fetched" unfolding tiny_fetched_def t(1) option.sel by (rule step_fetched [OF t(3)])
  show ?thesis using 1 2 3 by (meson rtranclp.rtrancl_into_rtrancl r_into_rtranclp)
qed

lemma tiny_read: "readAt \<lparr>rmOffset = 1, rmSize = 2, rmPtr = 0\<rparr> [0, 0] tiny_fetched =
    Some (tiny_fetched\<lparr>mLastAccessPos := 3, returned := [\<lparr>crOffset = 1, crSize = 2, crResult = 2, crData = [2, 3]\<rparr>]\<rparr>)"
  and tiny_state: "waiting tiny_fetched = None" "mHighwaterThresholdBytes tiny_fetched = 20971520" "looper tiny_fetched = Idle"
proof -
  obtain t where t: "onFetch 5 [] (Create 8 None None False) = Some t"
    "fetchInternal_read 3 ([1, 2, 3] @ replicate 65533 0) \<lparr>pgData = [], pgSize = 0\<rparr> t =
     t\<lparr>mNumRetriesLeft := 10, mFinalStatus := 0, mCache := \<lparr>mPageSize = 65536, mTotalSize = 3,
       mActivePages = [\<lparr>pgData = [1, 2, 3] @ replicate 65533 0, pgSize = 3\<rparr>], mFreePages = []\<rparr>, looper := Fetched\<rparr>"
    "mCacheOffset t = 0" "\<not> mDisconnecting t" "waiting t = None" "returned t = []" "mHighwaterThresholdBytes t = 20971520" "mFetching t" using tiny_begin by blast
  show "readAt \<lparr>rmOffset = 1, rmSize = 2, rmPtr = 0\<rparr> [0, 0] tiny_fetched =
    Some (tiny_fetched\<lparr>mLastAccessPos := 3, returned := [\<lparr>crOffset = 1, crSize = 2, crResult = 2, crData = [2, 3]\<rparr>]\<rparr>)"
    unfolding tiny_fetched_def t(1) option.sel t(2) using t(3-8)
    by (simp add: readAt_def onFetch_end_def post_fetch_def cache_copy_def return_read_def size_t_def wrap_i64_def mem_read_def mem_write_def)
  show "waiting tiny_fetched = None" "mHighwaterThresholdBytes tiny_fetched = 20971520" "looper tiny_fetched = Idle"
    unfolding tiny_fetched_def t(1) option.sel t(2) using t(3-8) by (simp_all add: onFetch_end_def post_fetch_def)
qed


theorem cached_checks_hold_witness:
  "readAt \<lparr>rmOffset = 1, rmSize = 2, rmPtr = 0\<rparr> [0, 0] tiny_fetched \<noteq> None \<and> onFetch 9 [] tiny_fetched \<noteq> None"
  using cached_checks_hold [OF tiny_created tiny_run, of 9 "[]"] tiny_state by (simp add: msg_ok_def)

end
