(* ===== verification/Cached_Progress.thy ===== *)
theory Cached_Progress
  imports Cached_Reads
begin

text \<open>
  Whether reads return. With a source that serves its content, every read is answered after finitely
  many rounds of the looper; but not if the high watermark is smaller than a page, and not if the
  cache disconnects at the high watermark and finds the end of the content or no connection.
\<close>

section \<open>Rounds of the looper\<close>

text \<open>
  A source that serves: it always has bytes before the end of its content, and nothing after it.
  \<open>serve\<close> gives the count and the page for an offset. A round is the whole of \<open>onFetch\<close>, with a
  reconnection that succeeds, and then the next \<open>kWhatRead\<close> message.
\<close>

definition serves :: "u8 list \<Rightarrow> (int \<Rightarrow> int \<times> u8 list) \<Rightarrow> bool" where
  "serves content serve \<longleftrightarrow> (\<forall>off\<ge>0. honest content off (fst (serve off)) (snd (serve off))
     \<and> (if off < int (length content) then 0 < fst (serve off) else fst (serve off) = 0))"

definition fetch_round :: "(int \<Rightarrow> int \<times> u8 list) \<Rightarrow> int \<Rightarrow> u8 list \<Rightarrow> cached_source \<Rightarrow> cached_source option" where
  "fetch_round serve now fresh s =
     (case onFetch now fresh s of
        None \<Rightarrow> None
      | Some s \<Rightarrow>
          let s = (case looper s of Reconnecting \<Rightarrow> fetchInternal_reconnected 0 fresh s | _ \<Rightarrow> s);
              s = (case looper s of Reading off page \<Rightarrow> fetchInternal_read (fst (serve off)) (snd (serve off)) page s | _ \<Rightarrow> s)
          in Some (case looper s of Fetched \<Rightarrow> onFetch_end now s | _ \<Rightarrow> s))"

definition read_round :: "cached_source \<Rightarrow> cached_source option" where
  "read_round s =
     (case read_msgs s of
        [] \<Rightarrow> Some s
      | m # _ \<Rightarrow>
          (case onRead m s of
             None \<Rightarrow> None
           | Some s \<Rightarrow> (case looper s of Answering result \<Rightarrow> onRead_end result s | _ \<Rightarrow> Some s)))"

text \<open>Rounds until the result is there, at most \<open>k\<close> of them; \<open>clock\<close> is the time of each round.\<close>

fun rounds :: "(int \<Rightarrow> int \<times> u8 list) \<Rightarrow> (nat \<Rightarrow> int) \<Rightarrow> u8 list \<Rightarrow> nat \<Rightarrow> cached_source \<Rightarrow> cached_source option" where
  "rounds serve clock fresh 0 s = Some s"
| "rounds serve clock fresh (Suc k) s =
     (if mAsyncResult s \<noteq> None then Some s
      else case fetch_round serve (clock k) fresh s of
             None \<Rightarrow> None
           | Some s \<Rightarrow> (case read_round s of None \<Rightarrow> None | Some s \<Rightarrow> rounds serve clock fresh k s))"

section \<open>A waiting client\<close>

definition failed :: "cached_source \<Rightarrow> bool" where
  "failed s \<longleftrightarrow> mFinalStatus s \<noteq> 0 \<and> mNumRetriesLeft s = 0"

definition pending :: "u8 list \<Rightarrow> read_client \<Rightarrow> cached_source \<Rightarrow> bool" where
  "pending content w s \<longleftrightarrow> cs_ok content s \<and> looper s = Idle \<and> fetch_delay s \<noteq> None \<and> \<not> mDisconnecting s \<and> waiting s = Some w
     \<and> read_msgs s = [rcMsg w] \<and> mAsyncResult s = None"

definition settled :: "u8 list \<Rightarrow> cached_source \<Rightarrow> bool" where
  "settled content s \<longleftrightarrow> (failed s \<longrightarrow> mFinalStatus s = END_OF_STREAM \<and> int (length content) \<le> cache_end s)"

lemma pendingD:
  assumes "pending content w s"
  shows "cs_ok content s" "window_ok content s" "counters_ok s" "looper s = Idle" "\<not> mDisconnecting s" "waiting s = Some w" "read_msgs s = [rcMsg w]"
    "mAsyncResult s = None" "msg_ok (mHighwaterThresholdBytes s) (rcMsg w)" "length (rcBuffer w) = rmSize (rcMsg w)" "0 \<le> mNumRetriesLeft s"
proof -
  show p: "cs_ok content s" "looper s = Idle" "\<not> mDisconnecting s" "waiting s = Some w" "read_msgs s = [rcMsg w]" "mAsyncResult s = None"
    using assms by (simp_all add: pending_def)
  show w: "window_ok content s" "counters_ok s" "msg_ok (mHighwaterThresholdBytes s) (rcMsg w)" using p by (simp_all add: cs_ok_def)
  show "length (rcBuffer w) = rmSize (rcMsg w)" using p by (simp add: cs_ok_def client_ok_def)
  show "0 \<le> mNumRetriesLeft s" using w(2) by (simp add: counters_ok_def)
qed

text \<open>The cycle of \<open>onFetch\<close> that reads a page.\<close>

definition fetched_page :: "(int \<Rightarrow> int \<times> u8 list) \<Rightarrow> int \<Rightarrow> u8 list \<Rightarrow> cached_source \<Rightarrow> cached_source" where
  "fetched_page serve now fresh s =
     (let off = cache_end s; (page, c) = acquirePage fresh (mCache s)
      in onFetch_end now (fetchInternal_read (fst (serve off)) (snd (serve off)) page (s\<lparr>mCache := c, looper := Reading off page\<rparr>)))"

lemma fetch_page_eq:
  "window_ok content s \<Longrightarrow> length content < 2 ^ 63 \<Longrightarrow>
   fetch_page fresh s = s\<lparr>mCache := snd (acquirePage fresh (mCache s)), looper := Reading (cache_end s) (fst (acquirePage fresh (mCache s)))\<rparr>"
  using window_end_le(3) [of content s] by (simp add: fetch_page_def case_prod_beta)

lemma fetchInternal_read_looper [simp]: "looper (fetchInternal_read n buf page s) = Fetched"
  by (simp add: fetchInternal_read_def Let_def)


lemma fetched_page_fields:
  fixes serve now fresh
  assumes "\<not> mDisconnecting s" "\<not> (mDisconnectAtHighwatermark s \<and> http s)" "0 \<le> fst (serve (cache_end s))"
  defines "t \<equiv> fetched_page serve now fresh s" and "n \<equiv> fst (serve (cache_end s))"
  shows "mCacheOffset t = mCacheOffset s" "looper t = Idle" "fetch_delay t \<noteq> None" "mDisconnecting t = mDisconnecting s" "waiting t = waiting s"
    "read_msgs t = read_msgs s" "mAsyncResult t = mAsyncResult s" "mHighwaterThresholdBytes t = mHighwaterThresholdBytes s"
    "mDisconnectAtHighwatermark t = mDisconnectAtHighwatermark s" "source_flags t = source_flags s"
    "totalSize t = (if n = 0 then totalSize s else (totalSize s + nat n) mod 2 ^ 64)"
    "mFinalStatus t = (if n = 0 then END_OF_STREAM else 0)" "mNumRetriesLeft t = (if n = 0 then 0 else 10)"
    "mFetching t = (mFetching s \<and> totalSize t < mHighwaterThresholdBytes s)"
  using assms(1-3)
  by (auto simp: t_def n_def fetched_page_def case_prod_beta Let_def fetchInternal_read_def onFetch_end_def post_fetch_def http_def appendPage_def kMaxNumRetries_def)

lemma fetched_page_ok:
  assumes "cs_ok content s" "length content < 2 ^ 63" "serves content serve" "answering (looper s) = None"
  shows "cs_ok content (fetched_page serve now fresh s)"
proof -
  have w: "window_ok content s" "0 \<le> cache_end s" using assms(1) by (simp_all add: cs_ok_def window_ok_def)
  have eq: "fetched_page serve now fresh s = onFetch_end now (fetchInternal_read (fst (serve (cache_end s))) (snd (serve (cache_end s))) (fst (acquirePage fresh (mCache s))) (fetch_page fresh s))"
    unfolding fetch_page_eq [OF w(1) assms(2)] by (simp add: fetched_page_def case_prod_beta Let_def)
  have "looper (fetch_page fresh s) = Reading (cache_end s) (fst (acquirePage fresh (mCache s)))" using fetch_page_eq [OF w(1) assms(2)] by simp
  moreover have "honest content (cache_end s) (fst (serve (cache_end s))) (snd (serve (cache_end s)))" using assms(3) w(2) by (simp add: serves_def)
  ultimately have "cs_ok content (fetchInternal_read (fst (serve (cache_end s))) (snd (serve (cache_end s))) (fst (acquirePage fresh (mCache s))) (fetch_page fresh s))"
    by (rule read_ok [OF fetch_page_ok [OF assms(1,2,4)] assms(2)])
  then show ?thesis unfolding eq by (rule onFetch_end_ok) simp
qed

text \<open>The three things that a round of \<open>onFetch\<close> can do.\<close>

lemma fetch_round_cases:
  assumes w: "window_ok content s" "length content < 2 ^ 63" and s: "looper s = Idle" "\<not> mDisconnecting s" "0 \<le> mNumRetriesLeft s"
  obtains (stopped) "failed s" "fetch_round serve now fresh s = Some (post_fetch (s\<lparr>mFetching := False, fetch_delay := None\<rparr>))"
  | (restarted) "\<not> failed s" "\<not> mFetching s" "fetch_round serve now fresh s = Some (post_fetch (restartPrefetcherIfNecessary_l False False (s\<lparr>fetch_delay := None\<rparr>)))"
  | (fetched) "\<not> failed s" "fetch_round serve now fresh s =
      Some (fetched_page serve now fresh (s\<lparr>fetch_delay := None, mNumRetriesLeft := mNumRetriesLeft s - (if mFinalStatus s = 0 then 0 else 1)\<rparr>))"
proof (cases "failed s")
  case True
  then have "onFetch now fresh s = Some (post_fetch (s\<lparr>mFetching := False, fetch_delay := None\<rparr>))"
    by (simp add: onFetch_def failed_def restartPrefetcherIfNecessary_l_def)
  then show thesis using stopped True by (simp add: fetch_round_def post_fetch_def)
next
  case nf: False
  let ?s = "s\<lparr>fetch_delay := None\<rparr>"
  define keepAlive where "keepAlive \<longleftrightarrow> \<not> mFetching s \<and> mFinalStatus s = 0 \<and> 0 < mKeepAliveIntervalUs s \<and> mLastFetchTimeUs s + mKeepAliveIntervalUs s \<le> now"
  have eq: "onFetch now fresh s = (if mFetching s \<or> keepAlive then fetchInternal_begin fresh ?s else Some (post_fetch (restartPrefetcherIfNecessary_l False False ?s)))"
    using nf unfolding onFetch_def Let_def keepAlive_def failed_def by auto
  show thesis
  proof (cases "mFetching s \<or> keepAlive")
    case False
    then show thesis using restarted nf eq by (simp add: fetch_round_def post_fetch_def)
  next
    case True
    have fp: "fetch_page fresh x = x\<lparr>mCache := snd (acquirePage fresh (mCache x)), looper := Reading (cache_end s) (fst (acquirePage fresh (mCache x)))\<rparr>"
      if "mCache x = mCache s" "mCacheOffset x = mCacheOffset s" for x
      using fetch_page_eq [of content x fresh] w that by (simp add: window_ok_def)
    show thesis
    proof (cases "mFinalStatus s = 0")
      case True
      then have "onFetch now fresh s = Some (fetch_page fresh ?s)" using eq \<open>mFetching s \<or> keepAlive\<close> by (simp add: fetchInternal_begin_def)
      then have "fetch_round serve now fresh s = Some (fetched_page serve now fresh ?s)"
        by (simp add: fetch_round_def fp fetched_page_def case_prod_beta Let_def)
      then show thesis using fetched nf True by simp
    next
      case False
      then have p: "0 < mNumRetriesLeft s" using nf s(3) by (simp add: failed_def)
      then have "onFetch now fresh s = Some (?s\<lparr>mNumRetriesLeft := mNumRetriesLeft s - 1, looper := Reconnecting\<rparr>)"
        using eq \<open>mFetching s \<or> keepAlive\<close> False by (simp add: fetchInternal_begin_def)
      then have "fetch_round serve now fresh s = Some (fetched_page serve now fresh (?s\<lparr>mNumRetriesLeft := mNumRetriesLeft s - 1\<rparr>))"
        using s(2) by (simp add: fetch_round_def fetchInternal_reconnected_def fp fetched_page_def case_prod_beta Let_def)
      then show thesis using fetched nf False by simp
    qed
  qed
qed


text \<open>A cache that reads can make progress in: it does not disconnect, and its high watermark is beyond the padding of a seek.\<close>

definition steady :: "cached_source \<Rightarrow> bool" where
  "steady s \<longleftrightarrow> \<not> (mDisconnectAtHighwatermark s \<and> http s) \<and> kPadding < int (mHighwaterThresholdBytes s)"

lemma pending_frame:
  assumes "pending content w s" "cs_ok content t" "looper t = Idle" "fetch_delay t \<noteq> None" "mDisconnecting t = mDisconnecting s" "waiting t = waiting s"
    "read_msgs t = read_msgs s" "mAsyncResult t = mAsyncResult s"
  shows "pending content w t"
  using assms by (simp add: pending_def)

lemma post_fetch_fields [simp]:
  "returned (post_fetch s) = returned s" "mHighwaterThresholdBytes (post_fetch s) = mHighwaterThresholdBytes s"
  "mDisconnectAtHighwatermark (post_fetch s) = mDisconnectAtHighwatermark s" "source_flags (post_fetch s) = source_flags s"
  "waiting (post_fetch s) = waiting s" "mNumRetriesLeft (post_fetch s) = mNumRetriesLeft s" "mFinalStatus (post_fetch s) = mFinalStatus s" "mCache (post_fetch s) = mCache s"
  "mCacheOffset (post_fetch s) = mCacheOffset s" "looper (post_fetch s) = Idle" "mDisconnecting (post_fetch s) = mDisconnecting s"
  "read_msgs (post_fetch s) = read_msgs s" "mAsyncResult (post_fetch s) = mAsyncResult s" "mFetching (post_fetch s) = mFetching s"
  by (simp_all add: post_fetch_def)

lemma post_fetch_delay [simp]: "\<exists>y. fetch_delay (post_fetch s) = Some y"
  by (simp add: post_fetch_def)

lemma cs_ok_delay: "cs_ok content s \<Longrightarrow> 0 \<le> k \<Longrightarrow> cs_ok content (s\<lparr>fetch_delay := d, mNumRetriesLeft := k\<rparr>)"
  by (rule cs_ok_frame) (auto simp: cs_ok_def window_ok_def counters_ok_def)

lemma cs_ok_fetching: "cs_ok content s \<Longrightarrow> cs_ok content (s\<lparr>mFetching := f, fetch_delay := d\<rparr>)"
  by (rule cs_ok_frame) (auto simp: cs_ok_def window_ok_def counters_ok_def)

lemma fetch_round_progress:
  assumes p: "pending content w s" "settled content s" "steady s" and c: "serves content serve" "length content < 2 ^ 63"
  obtains t where "fetch_round serve now fresh s = Some t" "pending content w t" "settled content t" "steady t"
    "mFetching s \<and> \<not> failed s \<Longrightarrow> mCacheOffset t = mCacheOffset s \<and> (failed t \<and> cache_end t = cache_end s
       \<or> \<not> failed t \<and> cache_end s < cache_end t \<and> (mFetching t \<or> mHighwaterThresholdBytes t \<le> totalSize t))"
proof -
  note d = pendingD [OF p(1)]
  show thesis
  proof (rule fetch_round_cases [OF d(2) c(2) d(4,5,11), of serve now fresh])
    let ?t = "post_fetch (s\<lparr>mFetching := False, fetch_delay := None\<rparr>)"
    assume a: "failed s" "fetch_round serve now fresh s = Some ?t"
    have "cs_ok content ?t" using d(4) by (intro post_fetch_ok cs_ok_fetching d(1)) simp
    then have "pending content w ?t" by (rule pending_frame [OF p(1)]) simp_all
    moreover have "settled content ?t" "steady ?t" using p(2,3) by (simp_all add: settled_def failed_def steady_def post_fetch_def http_def)
    ultimately show thesis using a by (intro that [of ?t]) simp_all
  next
    let ?s = "s\<lparr>fetch_delay := None\<rparr>"
    let ?r = "restartPrefetcherIfNecessary_l False False ?s"
    assume a: "\<not> failed s" "\<not> mFetching s" "fetch_round serve now fresh s = Some (post_fetch ?r)"
    have ok: "cs_ok content ?s" using cs_ok_fetching [OF d(1), of None "mFetching s"] by simp
    note r = restart_ok [of content ?s False False]
    have w: "window_ok content ?s" using ok by (simp add: cs_ok_def)
    have fr: "frame ?r = frame ?s" "waiting ?r = waiting s" "mNumRetriesLeft ?r = mNumRetriesLeft s" using r(3-5) [OF w c(2)] by (simp_all add: frame_def)
    have "cs_ok content (post_fetch ?r)" using fr(1) d(4) by (intro post_fetch_ok restart_cs_ok ok c(2)) (simp add: frame_def)
    then have "pending content w (post_fetch ?r)" by (rule pending_frame [OF p(1)]) (use fr in \<open>simp_all add: frame_def\<close>)
    moreover have "\<not> failed (post_fetch ?r)" using a(1) fr by (simp add: failed_def frame_def)
    moreover have "steady (post_fetch ?r)" using p(3) fr(1) by (simp add: steady_def http_def frame_def)
    ultimately show thesis using a by (intro that [of "post_fetch ?r"]) (simp_all add: settled_def)
  next
    let ?s = "s\<lparr>fetch_delay := None, mNumRetriesLeft := mNumRetriesLeft s - (if mFinalStatus s = 0 then 0 else 1)\<rparr>"
    let ?t = "fetched_page serve now fresh ?s"
    assume a: "\<not> failed s" "fetch_round serve now fresh s = Some ?t"
    have ok: "cs_ok content ?s" using a(1) d(11) by (intro cs_ok_delay d(1)) (auto simp: failed_def)
    let ?n = "fst (serve (cache_end s))"
    have e: "0 \<le> cache_end s" using d(2) by (simp add: window_ok_def)
    have n: "honest content (cache_end s) ?n (snd (serve (cache_end s)))" "if cache_end s < int (length content) then 0 < ?n else ?n = 0" using c(1) e by (auto simp: serves_def)
    have f: "\<not> mDisconnecting ?s" "\<not> (mDisconnectAtHighwatermark ?s \<and> http ?s)" "0 \<le> fst (serve (cache_end ?s))" using d(5) p(3) n(2) by (auto simp: steady_def http_def split: if_splits)
    note t = fetched_page_fields [of ?s serve, OF f, of now fresh]
    have okt: "cs_ok content ?t" using d(4) by (intro fetched_page_ok ok c) simp
    then have pt: "pending content w ?t" by (rule pending_frame [OF p(1)]) (use t in simp_all)
    have tot: "totalSize ?t = totalSize s + nat ?n"
    proof (cases "?n = 0")
      case False
      then have "nat (cache_end s) + nat ?n < 2 ^ 63" using n c(2) by (auto simp: honest_def split: if_splits)
      then have "totalSize s + nat ?n < 2 ^ 64" using d(2) by (auto simp: window_ok_def)
      then show ?thesis using t(11) False by simp
    qed (use t(11) in simp)
    have st: "steady ?t" using p(3) t(8-10) by (simp add: steady_def http_def)
    show thesis
    proof (rule that [OF a(2) pt _ st])
      show "settled content ?t" using t(1,12) tot n(2) by (auto simp: settled_def failed_def split: if_splits)
      show "mCacheOffset ?t = mCacheOffset s \<and> (failed ?t \<and> cache_end ?t = cache_end s
         \<or> \<not> failed ?t \<and> cache_end s < cache_end ?t \<and> (mFetching ?t \<or> mHighwaterThresholdBytes ?t \<le> totalSize ?t))" if "mFetching s \<and> \<not> failed s"
        using t(1,8,12-14) tot that n(2) by (auto simp: failed_def split: if_splits)
    qed
  qed
qed


lemma prefetch_from_facts:
  fixes m :: read_msg
  assumes "window_ok content s" "length content < 2 ^ 63" "0 \<le> rmOffset m" "rmOffset m < 2 ^ 63"
  defines "p \<equiv> prefetch_from m s"
  shows "mFetching s \<or> failed s \<Longrightarrow> mCacheOffset p = mCacheOffset s \<and> mFetching p = mFetching s"
    "\<not> failed s \<Longrightarrow> mFetching p" "mCacheOffset s \<le> rmOffset m \<Longrightarrow> mCacheOffset p \<le> rmOffset m"
proof -
  show same: "mCacheOffset p = mCacheOffset s \<and> mFetching p = mFetching s" if "mFetching s \<or> failed s"
    using that by (auto simp: p_def prefetch_from_def restartPrefetcherIfNecessary_l_def failed_def)
  show "mFetching p" if "\<not> failed s"
    using that by (auto simp: p_def prefetch_from_def restartPrefetcherIfNecessary_l_def failed_def Let_def case_prod_beta)
  show "mCacheOffset p \<le> rmOffset m" if le: "mCacheOffset s \<le> rmOffset m"
  proof (cases "mFetching s \<or> failed s")
    case True
    then show ?thesis using same le by simp
  next
    case False
    have w: "cache_wf (mCache s)" "0 \<le> mCacheOffset s" using assms(1) by (simp_all add: window_ok_def)
    let ?r = "fst (releaseFromStart (size_t (rmOffset m - mCacheOffset s)) (mCache s))"
    have "size_t (rmOffset m - mCacheOffset s) = nat (rmOffset m - mCacheOffset s)" using le w(2) assms(4) by (intro size_t_id) auto
    then have r: "mCacheOffset s + int ?r \<le> rmOffset m" using pages.release_max [OF w(1), of "size_t (rmOffset m - mCacheOffset s)"] le by auto
    have "mCacheOffset p = wrap_i64 (mCacheOffset s + int ?r)" using False
      by (auto simp: p_def prefetch_from_def restartPrefetcherIfNecessary_l_def failed_def case_prod_beta Let_def)
    moreover have "wrap_i64 (mCacheOffset s + int ?r) = mCacheOffset s + int ?r" using r w(2) assms(4) by (intro wrap_i64_id) linarith+
    ultimately show ?thesis using r by simp
  qed
qed

text \<open>Where the window is before the answer to a waiting client.\<close>

lemma read_window:
  assumes w: "window_ok content s" "length content < 2 ^ 63" and m: "msg_ok (mHighwaterThresholdBytes s) m" "\<not> mDisconnecting s" "0 \<le> mNumRetriesLeft s"
  obtains t where "readInternal m s = read_answer m t" "window_ok content t" "frame t = frame s" "waiting t = waiting s" "mCacheOffset t \<le> rmOffset m"
    "\<not> failed t \<longrightarrow> mFetching t"
    "cache_end t = cache_end s \<and> (failed t \<longleftrightarrow> failed s) \<and> (rmOffset m < cache_end s
         \<or> cache_end s \<le> rmOffset m \<and> mCacheOffset t \<le> seek_target m \<and> seek_target m \<le> cache_end s \<and> (mFetching s \<longrightarrow> mCacheOffset t = mCacheOffset s))
     \<or> mCacheOffset t = seek_target m \<and> cache_end t = seek_target m \<and> \<not> failed t \<and> \<not> (mCacheOffset s \<le> rmOffset m \<and> rmOffset m < cache_end s)
       \<and> (mFetching s \<or> failed s \<longrightarrow> \<not> (mCacheOffset s \<le> seek_target m \<and> seek_target m \<le> cache_end s))"
proof -
  let ?p = "prefetch_from m s"
  have mo: "0 \<le> rmOffset m" "rmOffset m < 2 ^ 63" "rmSize m \<le> mHighwaterThresholdBytes s" using m(1) by (simp_all add: msg_ok_def)
  note p = prefetch_from_ok [OF w, of m] and pf = prefetch_from_facts [OF w mo(1,2)] and b = seek_target_bounds [OF mo(1)]
  have pfail: "failed ?p = failed s" using p(3,5) by (simp add: failed_def frame_def)
  obtain t where t: "readInternal m s = read_answer m t" "window_ok content t" "frame t = frame s" "waiting t = waiting s" "0 \<le> mNumRetriesLeft t" "mCacheOffset t \<le> rmOffset m"
    "if mCacheOffset ?p \<le> rmOffset m \<and> rmOffset m < cache_end s then t = ?p
     else seekInternal_l (seek_target m) ?p = Some t \<and> mCacheOffset t \<le> seek_target m \<and> seek_target m \<le> cache_end t" using read_position [OF w m] .
  show thesis
  proof (cases "mCacheOffset ?p \<le> rmOffset m \<and> rmOffset m < cache_end s")
    case True
    then have "t = ?p" using t(7) by simp
    then show thesis using that [OF t(1-4,6)] pf(2) pfail p(2) True by auto
  next
    case False
    have tgt: "0 \<le> seek_target m" "seek_target m < 2 ^ 63" "0 \<le> mNumRetriesLeft ?p" using b mo p(5) m(3) by linarith+
    have sk: "seekInternal_l (seek_target m) ?p = Some t" using t(7) False by (simp only: if_False)
    obtain u where u: "seekInternal_l (seek_target m) ?p = Some u"
      "if mCacheOffset ?p \<le> seek_target m \<and> seek_target m \<le> cache_end ?p then u = ?p\<lparr>mLastAccessPos := seek_target m\<rparr>
       else mCacheOffset u = seek_target m \<and> totalSize u = 0 \<and> mNumRetriesLeft u = kMaxNumRetries \<and> mFetching u"
      using seek_ok [OF p(1) w(2) tgt] by metis
    then have s1: "if mCacheOffset ?p \<le> seek_target m \<and> seek_target m \<le> cache_end ?p then t = ?p\<lparr>mLastAccessPos := seek_target m\<rparr>
       else mCacheOffset t = seek_target m \<and> totalSize t = 0 \<and> mNumRetriesLeft t = kMaxNumRetries \<and> mFetching t" using sk by simp
    show thesis
    proof (cases "mCacheOffset ?p \<le> seek_target m \<and> seek_target m \<le> cache_end ?p")
      case True
      then have e: "t = ?p\<lparr>mLastAccessPos := seek_target m\<rparr>" using s1 by simp
      have far: "cache_end s \<le> rmOffset m" using False True b by linarith
      have tf: "failed t = failed s" "cache_end t = cache_end s" "mFetching t = mFetching ?p" "mCacheOffset t = mCacheOffset ?p"
        using pfail p(2) unfolding e by (simp_all add: failed_def)
      show thesis by (rule that [OF t(1-4,6)]) (use tf pf(1,2) p(2) True far in auto)
    next
      case nr: False
      then have e: "mCacheOffset t = seek_target m" "totalSize t = 0" "mNumRetriesLeft t = 10" "mFetching t" using s1 by (auto simp: kMaxNumRetries_def)
      have "\<not> (mCacheOffset s \<le> rmOffset m \<and> rmOffset m < cache_end s)" using pf(3) False by blast
      moreover have "\<not> (mCacheOffset s \<le> seek_target m \<and> seek_target m \<le> cache_end s)" if "mFetching s \<or> failed s" using pf(1) [OF that] nr p(2) by auto
      ultimately show thesis using that [OF t(1-4,6)] e by (simp add: failed_def)
    qed
  qed
qed


section \<open>Reads are answered\<close>

text \<open>What \<open>readAt\<close> of a file would return.\<close>

definition read_spec :: "u8 list \<Rightarrow> read_msg \<Rightarrow> int" where
  "read_spec content m = (if int (length content) \<le> rmOffset m then END_OF_STREAM else int (min (rmSize m) (length content - nat (rmOffset m))))"

definition answered :: "u8 list \<Rightarrow> read_client \<Rightarrow> cached_source \<Rightarrow> bool" where
  "answered content w t \<longleftrightarrow> cs_ok content t \<and> looper t = Idle \<and> \<not> mDisconnecting t \<and> mAsyncResult t = Some (read_spec content (rcMsg w))
     \<and> (\<exists>buf. waiting t = Some (w\<lparr>rcBuffer := buf\<rparr>))"

lemma read_answer_spec:
  assumes w: "window_ok content t" "length content < 2 ^ 63" and c: "waiting t = Some w" "length (rcBuffer w) = rmSize (rcMsg w)"
    and m: "msg_ok high (rcMsg w)" "mCacheOffset t \<le> rmOffset (rcMsg w)" "0 < rmSize (rcMsg w)" and f: "settled content t"
  obtains (deferred) "\<not> failed t" "cache_end t < rmOffset (rcMsg w) + int (rmSize (rcMsg w))" "read_answer (rcMsg w) t = Some (- EAGAIN_code, t)"
  | (answer) buf where "read_answer (rcMsg w) t = Some (read_spec content (rcMsg w), t\<lparr>waiting := Some (w\<lparr>rcBuffer := buf\<rparr>)\<rparr>)"
proof -
  let ?off = "rmOffset (rcMsg w)" and ?sz = "rmSize (rcMsg w)"
  note e = read_answer_eq [OF w c m(1,2)] and le = window_end_le(2) [OF w]
  have id: "t\<lparr>waiting := Some (w\<lparr>rcBuffer := rcBuffer w\<rparr>)\<rparr> = t" using c(1) by simp
  have off: "0 \<le> ?off" using m(1) by (simp add: msg_ok_def)
  show thesis
  proof (cases "failed t")
    case True
    then have s: "mFinalStatus t = - 1011" "int (length content) \<le> cache_end t" using f by (simp_all add: settled_def)
    show thesis
    proof (cases "cache_end t \<le> ?off")
      case far: True
      then have "read_answer (rcMsg w) t = Some (read_spec content (rcMsg w), t\<lparr>waiting := Some (w\<lparr>rcBuffer := rcBuffer w\<rparr>)\<rparr>)"
        using e True s unfolding id by (simp add: failed_def read_spec_def)
      then show thesis by (rule answer)
    next
      case False
      then have "int (length content) = cache_end t" using le s(2) m(2) by auto
      then have "int (min (nat (cache_end t - ?off)) ?sz) = read_spec content (rcMsg w)" using False off by (auto simp: read_spec_def)
      then have "read_answer (rcMsg w) t = Some (read_spec content (rcMsg w), fill content w (min (nat (cache_end t - ?off)) ?sz) t)"
        using e True False by (simp add: failed_def Let_def del: of_nat_min)
      then show thesis unfolding fill_def by (rule answer)
    qed
  next
    case nf: False
    show thesis
    proof (cases "?off + int ?sz \<le> cache_end t")
      case True
      then have "cache_end t \<le> int (length content)" using le m(2,3) by auto
      then have "int ?sz = read_spec content (rcMsg w)" using True off m(3) by (auto simp: read_spec_def)
      then have "read_answer (rcMsg w) t = Some (read_spec content (rcMsg w), fill content w ?sz t)" using e nf True by (auto simp: failed_def)
      then show thesis unfolding fill_def by (rule answer)
    next
      case False
      then show thesis using e nf by (intro deferred) (auto simp: failed_def)
    qed
  qed
qed

lemma read_spec_range:
  assumes "msg_ok high m" "high < 2 ^ 31"
  shows "read_spec content m \<noteq> - 11" "wrap_i32 (read_spec content m) = read_spec content m"
  using assms by (auto simp: read_spec_def msg_ok_def intro!: wrap_i32_id)

lemma read_round_progress:
  assumes p: "pending content w s" "settled content s" "steady s" and c: "length content < 2 ^ 63" "0 < rmSize (rcMsg w)"
  obtains (done_read) t where "read_round s = Some t" "answered content w t"
  | (deferred) t where "read_round s = Some t" "pending content w t" "steady t" "mFetching t" "\<not> failed t" "mCacheOffset t \<le> rmOffset (rcMsg w)"
      "cache_end t < rmOffset (rcMsg w) + int (rmSize (rcMsg w))"
      "cache_end t = cache_end s \<and> \<not> failed s \<and> (rmOffset (rcMsg w) < cache_end s
         \<or> cache_end s \<le> rmOffset (rcMsg w) \<and> mCacheOffset t \<le> seek_target (rcMsg w) \<and> seek_target (rcMsg w) \<le> cache_end s \<and> (mFetching s \<longrightarrow> mCacheOffset t = mCacheOffset s))
       \<or> mCacheOffset t = seek_target (rcMsg w) \<and> cache_end t = seek_target (rcMsg w) \<and> \<not> (mCacheOffset s \<le> rmOffset (rcMsg w) \<and> rmOffset (rcMsg w) < cache_end s)
         \<and> (mFetching s \<or> failed s \<longrightarrow> \<not> (mCacheOffset s \<le> seek_target (rcMsg w) \<and> seek_target (rcMsg w) \<le> cache_end s))"
proof -
  note d = pendingD [OF p(1)]
  let ?m = "rcMsg w" and ?s = "s\<lparr>read_msgs := []\<rparr>"
  have s0: "window_ok content ?s" "msg_ok (mHighwaterThresholdBytes ?s) ?m" "\<not> mDisconnecting ?s" "0 \<le> mNumRetriesLeft ?s"
    using d by (simp_all add: window_ok_def)
  obtain t where t: "readInternal ?m ?s = read_answer ?m t" "window_ok content t" "frame t = frame ?s" "waiting t = waiting ?s" "mCacheOffset t \<le> rmOffset ?m"
    "\<not> failed t \<longrightarrow> mFetching t"
    "cache_end t = cache_end ?s \<and> (failed t \<longleftrightarrow> failed ?s) \<and> (rmOffset ?m < cache_end ?s
         \<or> cache_end ?s \<le> rmOffset ?m \<and> mCacheOffset t \<le> seek_target ?m \<and> seek_target ?m \<le> cache_end ?s \<and> (mFetching ?s \<longrightarrow> mCacheOffset t = mCacheOffset ?s))
     \<or> mCacheOffset t = seek_target ?m \<and> cache_end t = seek_target ?m \<and> \<not> failed t \<and> \<not> (mCacheOffset ?s \<le> rmOffset ?m \<and> rmOffset ?m < cache_end ?s)
       \<and> (mFetching ?s \<or> failed ?s \<longrightarrow> \<not> (mCacheOffset ?s \<le> seek_target ?m \<and> seek_target ?m \<le> cache_end ?s))"
    using read_window [OF s0(1) c(1) s0(2-4)] .
  have fs: "failed ?s = failed s" by (simp add: failed_def)
  have tf: "mFinalStatus t = mFinalStatus s" "looper t = Idle" "read_msgs t = []" "mAsyncResult t = None" "\<not> mDisconnecting t" "waiting t = Some w"
    "mHighwaterThresholdBytes t = mHighwaterThresholdBytes s" "steady t"
    using t(3,4) d p(3) by (simp_all add: frame_def steady_def http_def)
  have high: "mHighwaterThresholdBytes s < 2 ^ 31" using d(3) by (simp add: counters_ok_def)
  have "settled content t" using t(7) p(2) tf(1) fs by (auto simp: settled_def)
  then show thesis
  proof (rule read_answer_spec [OF t(2) c(1) tf(6) d(10,9) t(5) c(2)])
    assume a: "\<not> failed t" "cache_end t < rmOffset ?m + int (rmSize ?m)" "read_answer ?m t = Some (- 11, t)"
    let ?t = "t\<lparr>read_msgs := [?m]\<rparr>"
    have hit: "onRead ?m s = Some ?t" using t(1) a(3) d(7) tf(3) by (simp add: onRead_def)
    then have r: "read_round s = Some ?t" using d(7) tf(2) by (simp add: read_round_def)
    have ok: "cs_ok content ?t" using onRead_ok [OF d(1) c(1) d(4), of ?m] d(7) hit by auto
    have "fetch_delay t = fetch_delay s" using t(3) by (simp add: frame_def)
    then have "pending content w ?t" using ok tf p(1) by (simp add: pending_def)
    moreover have "failed ?t = failed t" "steady ?t = steady t" by (simp_all add: failed_def steady_def http_def)
    ultimately show thesis using a(1,2) t(5-7) tf(8) fs by (intro deferred [OF r]) auto
  next
    fix buf assume a: "read_answer ?m t = Some (read_spec content ?m, t\<lparr>waiting := Some (w\<lparr>rcBuffer := buf\<rparr>)\<rparr>)"
    let ?t = "t\<lparr>waiting := Some (w\<lparr>rcBuffer := buf\<rparr>), looper := Answering (read_spec content ?m)\<rparr>"
    note rr = read_spec_range [OF d(9) high, of content]
    have hit: "onRead ?m s = Some ?t" using t(1) a d(7) rr(1) by (simp add: onRead_def)
    have ok: "cs_ok content ?t" using onRead_ok [OF d(1) c(1) d(4), of ?m] d(7) hit by auto
    then obtain u where u: "onRead_end (read_spec content ?m) ?t = Some u" "cs_ok content u" using onRead_end_ok [of content ?t "read_spec content ?m"] by auto
    then have "read_round s = Some u" using d(7) hit by (simp add: read_round_def)
    moreover have "answered content w u" using u tf(4,5) rr(2) by (auto simp: answered_def onRead_end_def)
    ultimately show thesis by (rule done_read)
  qed
qed


text \<open>
  While a read is deferred, either the window has reached the offset, or it lies between the target
  of a seek and the offset. What is missing shrinks with every round, except that a window that
  began before the target may once be given up for one that begins at it.
\<close>

definition approaching :: "read_client \<Rightarrow> cached_source \<Rightarrow> bool" where
  "approaching w s \<longleftrightarrow> mFetching s \<and> \<not> failed s \<and> mCacheOffset s \<le> rmOffset (rcMsg w)
     \<and> cache_end s < rmOffset (rcMsg w) + int (rmSize (rcMsg w))
     \<and> (rmOffset (rcMsg w) < cache_end s \<or> mCacheOffset s \<le> seek_target (rcMsg w) \<and> seek_target (rcMsg w) \<le> cache_end s)"

definition missing :: "read_client \<Rightarrow> cached_source \<Rightarrow> nat" where
  "missing w s = nat (rmOffset (rcMsg w) + int (rmSize (rcMsg w)) - cache_end s)
     + (if mCacheOffset s = seek_target (rcMsg w) \<or> rmOffset (rcMsg w) < cache_end s then 0
        else nat (rmOffset (rcMsg w) + int (rmSize (rcMsg w)) - seek_target (rcMsg w)) + 1)"

lemma round_approaches:
  assumes p: "pending content w s" "steady s" "approaching w s" and c: "serves content serve" "length content < 2 ^ 63" "0 < rmSize (rcMsg w)"
  obtains t u where "fetch_round serve now fresh s = Some t" "read_round t = Some u"
    "answered content w u \<or> pending content w u \<and> steady u \<and> approaching w u \<and> missing w u < missing w s"
proof -
  note found = that
  have g: "mFetching s \<and> \<not> failed s" and gs: "mCacheOffset s \<le> rmOffset (rcMsg w)" "cache_end s < rmOffset (rcMsg w) + int (rmSize (rcMsg w))"
    "rmOffset (rcMsg w) < cache_end s \<or> mCacheOffset s \<le> seek_target (rcMsg w) \<and> seek_target (rcMsg w) \<le> cache_end s"
    using p(3) by (simp_all add: approaching_def)
  have "settled content s" using g by (simp add: settled_def)
  from fetch_round_progress [OF p(1) this p(2) c(1,2), of now fresh] g obtain t where t: "fetch_round serve now fresh s = Some t" "pending content w t" "settled content t" "steady t"
    "mCacheOffset t = mCacheOffset s" "failed t \<and> cache_end t = cache_end s
       \<or> \<not> failed t \<and> cache_end s < cache_end t \<and> (mFetching t \<or> mHighwaterThresholdBytes t \<le> totalSize t)" by metis
  have off: "0 \<le> rmOffset (rcMsg w)" using pendingD(9) [OF t(2)] by (simp add: msg_ok_def)
  note b = seek_target_bounds [OF off]
  have pad: "kPadding < int (mHighwaterThresholdBytes t)" using t(4) by (simp add: steady_def)
  show thesis
  proof (rule read_round_progress [OF t(2-4) c(2,3)])
    show thesis if "read_round t = Some u" "answered content w u" for u using found [OF t(1) that(1)] that(2) by blast
  next
    fix u
    assume u: "read_round t = Some u" "pending content w u" "steady u" "mFetching u" "\<not> failed u" "mCacheOffset u \<le> rmOffset (rcMsg w)"
      "cache_end u < rmOffset (rcMsg w) + int (rmSize (rcMsg w))"
      "cache_end u = cache_end t \<and> \<not> failed t \<and> (rmOffset (rcMsg w) < cache_end t
         \<or> cache_end t \<le> rmOffset (rcMsg w) \<and> mCacheOffset u \<le> seek_target (rcMsg w) \<and> seek_target (rcMsg w) \<le> cache_end t \<and> (mFetching t \<longrightarrow> mCacheOffset u = mCacheOffset t))
       \<or> mCacheOffset u = seek_target (rcMsg w) \<and> cache_end u = seek_target (rcMsg w) \<and> \<not> (mCacheOffset t \<le> rmOffset (rcMsg w) \<and> rmOffset (rcMsg w) < cache_end t)
         \<and> (mFetching t \<or> failed t \<longrightarrow> \<not> (mCacheOffset t \<le> seek_target (rcMsg w) \<and> seek_target (rcMsg w) \<le> cache_end t))"
    have a: "approaching w u" using u(4-8) b by (auto simp: approaching_def)
    have f: "mFetching t" if "mCacheOffset s = seek_target (rcMsg w)" "cache_end t \<le> rmOffset (rcMsg w)" "\<not> failed t"
      using that t(5,6) pad b by auto
    have "missing w u < missing w s"
      using u(8)
    proof (elim disjE conjE)
      assume x: "cache_end u = cache_end t" "\<not> failed t" "rmOffset (rcMsg w) < cache_end t"
      then show ?thesis using t(6) gs(2) u(7) by (auto simp: missing_def)
    next
      assume x: "cache_end u = cache_end t" "\<not> failed t" "cache_end t \<le> rmOffset (rcMsg w)" "mFetching t \<longrightarrow> mCacheOffset u = mCacheOffset t"
      then show ?thesis using t(5,6) gs(2) u(7) f by (auto simp: missing_def)
    next
      assume x: "mCacheOffset u = seek_target (rcMsg w)" "cache_end u = seek_target (rcMsg w)" "\<not> (mCacheOffset t \<le> rmOffset (rcMsg w) \<and> rmOffset (rcMsg w) < cache_end t)"
        "mFetching t \<or> failed t \<longrightarrow> \<not> (mCacheOffset t \<le> seek_target (rcMsg w) \<and> seek_target (rcMsg w) \<le> cache_end t)"
      have far: "cache_end t \<le> rmOffset (rcMsg w)" using x(3) t(5) gs(1) by auto
      have le: "cache_end s \<le> cache_end t" using t(6) by auto
      have st: "mCacheOffset s \<le> seek_target (rcMsg w)" "seek_target (rcMsg w) \<le> cache_end s" using gs(3) far le by auto
      then have "\<not> failed t" "\<not> mFetching t" using x(4) t(5) le by auto
      then have "mCacheOffset s \<noteq> seek_target (rcMsg w)" using f far by blast
      moreover have "\<not> rmOffset (rcMsg w) < cache_end s" using far le by simp
      ultimately show ?thesis using x(1,2) gs(2) by (simp add: missing_def)
    qed
    then show thesis using found [OF t(1) u(1)] u(2,3) a by blast
  qed
qed

lemma rounds_answered: "mAsyncResult s \<noteq> None \<Longrightarrow> rounds serve clock fresh k s = Some s"
  by (cases k) simp_all

lemma answered_result: "answered content w s \<Longrightarrow> mAsyncResult s \<noteq> None"
  by (simp add: answered_def)

lemma approaching_answered:
  assumes "pending content w s" "steady s" "approaching w s" "serves content serve" "length content < 2 ^ 63" "0 < rmSize (rcMsg w)" "missing w s < k"
  shows "\<exists>t. rounds serve clock fresh k s = Some t \<and> answered content w t"
  using assms(1-3,7)
proof (induction k arbitrary: s)
  case (Suc k)
  obtain t u where r: "fetch_round serve (clock k) fresh s = Some t" "read_round t = Some u"
    "answered content w u \<or> pending content w u \<and> steady u \<and> approaching w u \<and> missing w u < missing w s"
    using round_approaches [OF Suc.prems(1-3) assms(4-6)] .
  have "rounds serve clock fresh (Suc k) s = rounds serve clock fresh k u" using pendingD(8) [OF Suc.prems(1)] r(1,2) by simp
  then show ?case using r(3) Suc.IH [of u] Suc.prems(4) by (auto simp: rounds_answered answered_result)
qed simp

lemma pending_answered:
  assumes "pending content w s" "settled content s" "steady s" "serves content serve" "length content < 2 ^ 63" "0 < rmSize (rcMsg w)"
    and k: "2 * (rmSize (rcMsg w) + nat kPadding) + 3 \<le> k"
  shows "\<exists>t. rounds serve clock fresh k s = Some t \<and> answered content w t"
proof -
  obtain k' where k': "k = Suc k'" "2 * (rmSize (rcMsg w) + nat kPadding) + 2 \<le> k'" using k by (cases k) auto
  obtain t where t: "fetch_round serve (clock k') fresh s = Some t" "pending content w t" "settled content t" "steady t"
    using fetch_round_progress [OF assms(1-5)] .
  have off: "0 \<le> rmOffset (rcMsg w)" using pendingD(9) [OF t(2)] by (simp add: msg_ok_def)
  note b = seek_target_bounds [OF off]
  have step: "rounds serve clock fresh k s = rounds serve clock fresh k' u" if "read_round t = Some u" for u
    using pendingD(8) [OF assms(1)] t(1) that k'(1) by simp
  show ?thesis
  proof (rule read_round_progress [OF t(2-4) assms(5,6)])
    show ?thesis if "read_round t = Some u" "answered content w u" for u using step [OF that(1)] that(2) by (simp add: rounds_answered answered_result)
  next
    fix u
    assume u: "read_round t = Some u" "pending content w u" "steady u" "mFetching u" "\<not> failed u" "mCacheOffset u \<le> rmOffset (rcMsg w)"
      "cache_end u < rmOffset (rcMsg w) + int (rmSize (rcMsg w))"
      "cache_end u = cache_end t \<and> \<not> failed t \<and> (rmOffset (rcMsg w) < cache_end t
         \<or> cache_end t \<le> rmOffset (rcMsg w) \<and> mCacheOffset u \<le> seek_target (rcMsg w) \<and> seek_target (rcMsg w) \<le> cache_end t \<and> (mFetching t \<longrightarrow> mCacheOffset u = mCacheOffset t))
       \<or> mCacheOffset u = seek_target (rcMsg w) \<and> cache_end u = seek_target (rcMsg w) \<and> \<not> (mCacheOffset t \<le> rmOffset (rcMsg w) \<and> rmOffset (rcMsg w) < cache_end t)
         \<and> (mFetching t \<or> failed t \<longrightarrow> \<not> (mCacheOffset t \<le> seek_target (rcMsg w) \<and> seek_target (rcMsg w) \<le> cache_end t))"
    have a: "approaching w u" using u(4-8) b by (auto simp: approaching_def)
    then have "seek_target (rcMsg w) \<le> cache_end u" using b by (auto simp: approaching_def)
    then have "missing w u < k'" using b k'(2) by (auto simp: missing_def)
    from approaching_answered [OF u(2,3) a assms(4-6) this] show ?thesis using step [OF u(1)] by simp
  qed
qed


subsection \<open>The next fetch is always posted\<close>

definition posted :: "cached_source \<Rightarrow> bool" where
  "posted s \<longleftrightarrow> (looper s = Idle \<or> answering (looper s) \<noteq> None \<longrightarrow> fetch_delay s \<noteq> None)"

lemma restart_delay [simp]:
  "fetch_delay (restartPrefetcherIfNecessary_l i f s) = fetch_delay s" "looper (restartPrefetcherIfNecessary_l i f s) = looper s"
  by (simp_all add: restartPrefetcherIfNecessary_l_def Let_def case_prod_beta)

lemma seek_delay: "seekInternal_l off s = Some t \<Longrightarrow> fetch_delay t = fetch_delay s"
  by (auto simp: seekInternal_l_def Let_def case_prod_beta split: if_splits)

lemma copy_out_delay: "copy_out delta n ptr s = Some (r, t) \<Longrightarrow> fetch_delay t = fetch_delay s"
  by (auto simp: copy_out_def split: if_splits option.splits)

lemma read_answer_delay: "read_answer m s = Some (r, t) \<Longrightarrow> fetch_delay t = fetch_delay s"
  by (auto simp: read_answer_def Let_def dest: copy_out_delay split: if_splits)

lemma readInternal_delay:
  assumes "readInternal m s = Some (r, t)"
  shows "fetch_delay t = fetch_delay s"
proof (cases "mDisconnecting s")
  case True
  then show ?thesis using assms by (auto simp: readInternal_def Let_def split: if_splits)
next
  case False
  have "rmSize m \<le> mHighwaterThresholdBytes s" using assms by (auto simp: readInternal_def Let_def split: if_splits)
  note e = readInternal_split [OF this False]
  have "fetch_delay (prefetch_from m s) = fetch_delay s" by (simp add: prefetch_from_def)
  then show ?thesis using assms unfolding e by (auto split: if_splits option.splits dest!: seek_delay read_answer_delay)
qed

lemma onFetch_posted:
  assumes "onFetch now fresh s = Some t" "looper s = Idle"
  shows "posted t"
  using assms by (auto simp: onFetch_def Let_def fetchInternal_begin_def fetch_page_def case_prod_beta posted_def post_fetch_def split: if_splits)

lemma cached_step_posted:
  assumes "cached_step answers recon s t" "posted s"
  shows "posted t"
  using assms(1)
proof cases
  case (step_fetch now fresh)
  then show ?thesis by (intro onFetch_posted)
next
  case (step_onRead m)
  then show ?thesis using assms(2) by (auto simp: posted_def onRead_def dest: readInternal_delay split: option.splits if_splits)
next
  case (step_reconnected err fresh)
  then show ?thesis by (simp add: fetchInternal_reconnected_def fetch_page_def case_prod_beta posted_def)
qed (use assms(2) in \<open>auto simp: posted_def fetchInternal_read_def onFetch_end_def post_fetch_def onRead_end_def readAt_def readAt_wake_def
    return_read_def disconnect_def resumeFetchingIfNecessary_def Let_def split: if_splits option.splits\<close>)

interpretation posting: invariant_system created "cached_step answers recon" posted
  for answers recon
  by unfold_locales (auto simp: created_def posted_def dest: cached_step_posted)

subsection \<open>A file as the source\<close>

definition file_source :: "u8 list \<Rightarrow> int \<Rightarrow> int \<times> u8 list" where
  "file_source content off = (let bs = take kPageSize (drop (nat off) content) in (int (length bs), bs @ replicate (kPageSize - length bs) 0))"

lemma file_source_serves: "serves content (file_source content)"
  by (auto simp: serves_def honest_def file_source_def Let_def kPageSize_def)

text \<open>
  C15: reads are answered. Take any reachable state in which a client waits for the looper, which has
  the request before it; the source has not failed for good, other than by reaching the end of its
  content; the cache does not disconnect at its high watermark, which is above the padding of a seek.
  If from now on the source serves its content, then after at most \<open>2 * (size + 256 K) + 3\<close> rounds the
  client has its answer: all bytes that the content has there, or the end of the stream.
\<close>

theorem cached_read_answered:
  assumes "created s\<^sub>0" "(cached_step (honest content) recon)\<^sup>*\<^sup>* s\<^sub>0 s" "length content < 2 ^ 63"
    and "waiting s = Some w" "read_msgs s = [rcMsg w]" "looper s = Idle" "\<not> mDisconnecting s" "0 < rmSize (rcMsg w)"
    and "settled content s" "steady s" "serves content serve" "2 * (rmSize (rcMsg w) + nat kPadding) + 3 \<le> k"
  shows "\<exists>t buf. rounds serve clock fresh k s = Some t \<and> mAsyncResult t = Some (read_spec content (rcMsg w)) \<and> waiting t = Some (w\<lparr>rcBuffer := buf\<rparr>)
    \<and> take (nat (read_spec content (rcMsg w))) buf = take (nat (read_spec content (rcMsg w))) (drop (nat (rmOffset (rcMsg w))) content)"
proof -
  have ok: "cs_ok content s" by (rule cached_reachable_ok [OF assms(1-3)])
  have "fetch_delay s \<noteq> None" using posting.reachable_inv [OF assms(1,2)] assms(6) by (simp add: posted_def)
  moreover have "mAsyncResult s = None" using ok assms(4-7) by (simp add: cs_ok_def client_ok_def)
  ultimately have "pending content w s" using ok assms(4-7) by (simp add: pending_def)
  from pending_answered [OF this assms(9-11,3,8,12)] obtain t where t: "rounds serve clock fresh k s = Some t" "answered content w t" by blast
  then obtain buf where b: "waiting t = Some (w\<lparr>rcBuffer := buf\<rparr>)" "mAsyncResult t = Some (read_spec content (rcMsg w))" "cs_ok content t" "\<not> mDisconnecting t" "looper t = Idle"
    by (auto simp: answered_def)
  then have "bytes_ok content (rmOffset (rcMsg w)) (rmSize (rcMsg w)) (read_spec content (rcMsg w)) buf" by (simp add: cs_ok_def client_ok_def)
  then have "take (nat (read_spec content (rcMsg w))) buf = take (nat (read_spec content (rcMsg w))) (drop (nat (rmOffset (rcMsg w))) content)"
    by (cases "0 < read_spec content (rcMsg w)") (simp_all add: bytes_ok_def)
  then show ?thesis using t(1) b(1,2) by blast
qed

text \<open>A read at offset 1 in a file of three bytes, before anything is cached.\<close>

definition tiny_msg :: read_msg where
  "tiny_msg = \<lparr>rmOffset = 1, rmSize = 5, rmPtr = 0\<rparr>"

definition tiny_waiting :: cached_source where
  "tiny_waiting = (Create 8 None None False)\<lparr>read_msgs := [tiny_msg], waiting := Some \<lparr>rcMsg = tiny_msg, rcBuffer = replicate 5 0\<rparr>\<rparr>"

lemma tiny_Create: "mHighwaterThresholdBytes (Create 8 None None False) = 20971520" "\<not> mDisconnecting (Create 8 None None False)"
  "\<not> mDisconnectAtHighwatermark (Create 8 None None False)"
  by (simp_all add: Create_def new_cached_source_def updateCacheParamsFromSystemProperty_def kDefaultHighWaterThreshold_def)

lemma tiny_waits: "cached_step answers recon (Create 8 None None False) tiny_waiting"
  by (rule step_readAt [of _ tiny_msg "replicate 5 0"])
    (simp_all add: tiny_msg_def tiny_waiting_def readAt_def size_t_def new_page_cache_def msg_ok_def tiny_Create)

theorem cached_read_answered_witness:
  "\<exists>t buf. rounds (file_source [1, 2, 3]) (\<lambda>_. 0) [] 524301 tiny_waiting = Some t \<and> mAsyncResult t = Some 2
     \<and> waiting t = Some \<lparr>rcMsg = tiny_msg, rcBuffer = buf\<rparr> \<and> take 2 buf = [2, 3]"
proof -
  let ?w = "\<lparr>rcMsg = tiny_msg, rcBuffer = replicate 5 0\<rparr>"
  have run: "(cached_step (honest [1, 2, 3]) (\<lambda>_. True))\<^sup>*\<^sup>* (Create 8 None None False) tiny_waiting" using tiny_waits by blast
  have spec: "read_spec [1, 2, 3] tiny_msg = 2" by (simp add: read_spec_def tiny_msg_def)
  have "\<exists>t buf. rounds (file_source [1, 2, 3]) (\<lambda>_. 0) [] 524301 tiny_waiting = Some t \<and> mAsyncResult t = Some (read_spec [1, 2, 3] (rcMsg ?w)) \<and> waiting t = Some (?w\<lparr>rcBuffer := buf\<rparr>)
    \<and> take (nat (read_spec [1, 2, 3] (rcMsg ?w))) buf = take (nat (read_spec [1, 2, 3] (rcMsg ?w))) (drop (nat (rmOffset (rcMsg ?w))) [1, 2, 3])"
    by (rule cached_read_answered [OF tiny_created run _ _ _ _ _ _ _ _ file_source_serves])
      (simp_all add: tiny_waiting_def tiny_msg_def settled_def failed_def steady_def kPadding_def tiny_Create)
  then show ?thesis by (simp add: spec) (simp add: tiny_msg_def)
qed

end
