(* ===== verification/Cached_Stalls.thy ===== *)
theory Cached_Stalls
  imports Cached_Progress
begin

text \<open>
  Reads that never return: a high watermark of at most a page makes the cache fetch the same page for
  ever, and a cache that disconnects at the high watermark can take its own mark for an error to
  retry when there is nothing left to retry.
\<close>

section \<open>A small high watermark\<close>

text \<open>
  The window is empty and begins at the target of the seek; one page will fill the cache, and the
  offset is beyond that page.
\<close>

definition thrashing :: "u8 list \<Rightarrow> read_client \<Rightarrow> cached_source \<Rightarrow> bool" where
  "thrashing content w s \<longleftrightarrow> pending content w s \<and> mFetching s \<and> \<not> failed s \<and> mCacheOffset s = seek_target (rcMsg w) \<and> totalSize s = 0
     \<and> kPadding < rmOffset (rcMsg w) \<and> \<not> (mDisconnectAtHighwatermark s \<and> http s)"

lemma thrashing_fetch:
  assumes p: "thrashing content w s" "length content < 2 ^ 63" "serves content serve" and n: "int (mHighwaterThresholdBytes s) \<le> fst (serve (seek_target (rcMsg w)))"
    "mHighwaterThresholdBytes s \<noteq> 0"
  obtains t where "fetch_round serve now fresh s = Some t" "pending content w t" "\<not> failed t" "\<not> mFetching t" "mCacheOffset t = seek_target (rcMsg w)"
    "int (totalSize t) = fst (serve (seek_target (rcMsg w)))" "mHighwaterThresholdBytes t = mHighwaterThresholdBytes s"
    "\<not> (mDisconnectAtHighwatermark t \<and> http t)"
proof -
  have s: "pending content w s" "mFetching s" "\<not> failed s" "mCacheOffset s = seek_target (rcMsg w)" "totalSize s = 0" "\<not> (mDisconnectAtHighwatermark s \<and> http s)"
    using p(1) by (simp_all add: thrashing_def)
  note d = pendingD [OF s(1)]
  let ?s = "s\<lparr>fetch_delay := None, mNumRetriesLeft := mNumRetriesLeft s - (if mFinalStatus s = 0 then 0 else 1)\<rparr>"
  let ?t = "fetched_page serve now fresh ?s"
  have e: "cache_end s = seek_target (rcMsg w)" using s(4,5) by simp
  have f: "\<not> mDisconnecting ?s" "\<not> (mDisconnectAtHighwatermark ?s \<and> http ?s)" "0 \<le> fst (serve (cache_end ?s))" using d(5) s(6) n e by (simp_all add: http_def)
  note t = fetched_page_fields [of ?s serve, OF f, of now fresh]
  have big: "0 < fst (serve (seek_target (rcMsg w)))" using n by linarith
  have h: "fst (serve (seek_target (rcMsg w))) \<le> int kPageSize" using p(3) d(2) s(4) big by (auto simp: serves_def honest_def window_ok_def)
  have tot: "int (totalSize ?t) = fst (serve (seek_target (rcMsg w)))" using t(11) s(5) e big h by (simp add: kPageSize_def)
  have "fetch_round serve now fresh s = Some ?t" using s(2,3)
    by (cases rule: fetch_round_cases [OF d(2) p(2) d(4,5,11), of serve now fresh]) simp_all
  moreover have ok: "cs_ok content ?s" using s(3) d(11) by (intro cs_ok_delay d(1)) (auto simp: failed_def)
  have "cs_ok content ?t" using d(4) by (intro fetched_page_ok ok p) simp
  then have "pending content w ?t" by (rule pending_frame [OF s(1)]) (use t in simp_all)
  moreover have "\<not> failed ?t" "\<not> mFetching ?t" using t(12,14) e big n tot by (auto simp: failed_def)
  ultimately show thesis using that tot t(1,8,9,10) s(4,6) by (simp add: http_def)
qed

lemma thrashing_round:
  assumes p: "thrashing content w s" "length content < 2 ^ 63" "serves content serve" and n: "int (mHighwaterThresholdBytes s) \<le> fst (serve (seek_target (rcMsg w)))"
    "mHighwaterThresholdBytes s \<noteq> 0"
  obtains t u where "fetch_round serve now fresh s = Some t" "read_round t = Some u" "thrashing content w u" "mHighwaterThresholdBytes u = mHighwaterThresholdBytes s"
proof -
  let ?m = "rcMsg w" and ?n = "fst (serve (seek_target (rcMsg w)))"
  obtain t where t: "fetch_round serve now fresh s = Some t" "pending content w t" "\<not> failed t" "\<not> mFetching t" "mCacheOffset t = seek_target ?m"
    "int (totalSize t) = ?n" "mHighwaterThresholdBytes t = mHighwaterThresholdBytes s" "\<not> (mDisconnectAtHighwatermark t \<and> http t)"
    using thrashing_fetch [OF assms] .
  note d = pendingD [OF t(2)]
  let ?t = "t\<lparr>read_msgs := []\<rparr>" and ?p = "prefetch_from ?m (t\<lparr>read_msgs := []\<rparr>)"
  have far: "kPadding < rmOffset ?m" "seek_target ?m = rmOffset ?m - kPadding" using p(1) by (auto simp: thrashing_def seek_target_def)
  have tgt: "0 \<le> seek_target ?m" "rmOffset ?m < 2 ^ 63" using far d(9) by (simp_all add: msg_ok_def)
  have w: "window_ok content ?t" using d(2) by (simp add: window_ok_def)
  have big: "0 < ?n" using n by linarith
  then have small: "?n < kPadding" using p(3) tgt(1) by (auto simp: serves_def honest_def kPadding_def kPageSize_def)
  note pf = prefetch_from_ok [OF w p(2), of ?m]
  have mx: "size_t (rmOffset ?m - mCacheOffset t) = nat kPadding" using t(5) far by (simp add: size_t_def kPadding_def)
  have cw: "cache_wf (mCache t)" using d(2) by (simp add: window_ok_def)
  have all: "fst (releaseFromStart (nat kPadding) (mCache t)) = totalSize t"
    using pages.release_all [OF cw] pages.total_length [OF cw] small t(6) by (simp add: nat_le_iff)
  have po: "mCacheOffset ?p = seek_target ?m + ?n"
  proof -
    have "mCacheOffset ?p = wrap_i64 (seek_target ?m + ?n)"
      using t(3,4,5,6) mx all by (auto simp: prefetch_from_def restartPrefetcherIfNecessary_l_def failed_def case_prod_beta Let_def)
    then show ?thesis using tgt big small far by (simp add: wrap_i64_id)
  qed
  have pe: "cache_end ?p = seek_target ?m + ?n" using pf(2) t(5,6) by simp
  have fr: "frame ?p = frame ?t" "waiting ?p = Some w" "mNumRetriesLeft ?p = mNumRetriesLeft t" using pf(3-5) d(6) by simp_all
  have "seek_target ?m < 2 ^ 63" "0 \<le> mNumRetriesLeft ?p" using far tgt(2) fr(3) d(11) by (simp_all add: kPadding_def)
  then obtain u where u: "seekInternal_l (seek_target ?m) ?p = Some u" "window_ok content u" "frame u = frame ?p" "waiting u = waiting ?p"
    "mCacheOffset u = seek_target ?m" "totalSize u = 0" "mNumRetriesLeft u = kMaxNumRetries" "mFetching u"
    using seek_ok [OF pf(1) p(2) tgt(1)] po big by auto
  have sz: "rmSize ?m \<le> mHighwaterThresholdBytes ?t" "\<not> mDisconnecting ?t" using d(5,9) by (simp_all add: msg_ok_def)
  have "wrap_i64 (cache_end ?p) \<le> rmOffset ?m" using window_end_le(3) [OF pf(1) p(2)] pe small far by simp
  then have ri: "readInternal ?m ?t = read_answer ?m u" using readInternal_split [OF sz] u(1) by simp
  have uf: "\<not> failed u" "looper u = Idle" "read_msgs u = []" "mAsyncResult u = None" "\<not> mDisconnecting u" "waiting u = Some w" "fetch_delay u = fetch_delay t"
    "mHighwaterThresholdBytes u = mHighwaterThresholdBytes t" "mDisconnectAtHighwatermark u = mDisconnectAtHighwatermark t" "source_flags u = source_flags t"
    using u(3,4,7) fr d by (simp_all add: failed_def frame_def kMaxNumRetries_def)
  have "read_answer ?m u = Some (- 11, u)"
    using read_answer_eq [OF u(2) p(2) uf(6) d(10,9)] u(5,6) uf(1) far by (auto simp: failed_def kPadding_def)
  then have hit: "onRead ?m t = Some (u\<lparr>read_msgs := [?m]\<rparr>)" using ri d(7) uf(3) by (simp add: onRead_def)
  have ok: "cs_ok content (u\<lparr>read_msgs := [?m]\<rparr>)" using onRead_ok [OF d(1) p(2) d(4), of ?m] d(7) hit by auto
  have "read_round t = Some (u\<lparr>read_msgs := [?m]\<rparr>)" using hit d(7) uf(2) by (simp add: read_round_def)
  moreover have "thrashing content w (u\<lparr>read_msgs := [?m]\<rparr>)"
    using ok uf u(5,6,8) t(2,8) far by (simp add: thrashing_def pending_def failed_def http_def)
  ultimately show thesis using that [OF t(1)] uf(8) t(7) by simp
qed

lemma thrashing_rounds:
  assumes "thrashing content w s" "length content < 2 ^ 63" "serves content serve" "int (mHighwaterThresholdBytes s) \<le> fst (serve (seek_target (rcMsg w)))"
    "mHighwaterThresholdBytes s \<noteq> 0"
  shows "\<exists>t. rounds serve clock fresh k s = Some t \<and> thrashing content w t"
  using assms
proof (induction k arbitrary: s)
  case (Suc k)
  obtain t u where r: "fetch_round serve (clock k) fresh s = Some t" "read_round t = Some u" "thrashing content w u" "mHighwaterThresholdBytes u = mHighwaterThresholdBytes s"
    using thrashing_round [OF Suc.prems] .
  have "mAsyncResult s = None" using Suc.prems(1) by (simp add: thrashing_def pending_def)
  then have "rounds serve clock fresh (Suc k) s = rounds serve clock fresh k u" using r(1,2) by simp
  then show ?case using Suc.IH [OF r(3) Suc.prems(2,3)] Suc.prems(4,5) r(4) by simp
qed simp


lemma first_far_read:
  assumes s: "created s" "\<not> (mDisconnectAtHighwatermark s \<and> http s)" and m: "kPadding < rmOffset m" "msg_ok (mHighwaterThresholdBytes s) m" "length buf = rmSize m"
    and c: "length content < 2 ^ 63"
  obtains s\<^sub>1 s\<^sub>2 where "readAt m buf s = Some s\<^sub>1" "onRead m s\<^sub>1 = Some s\<^sub>2" "thrashing content \<lparr>rcMsg = m, rcBuffer = buf\<rparr> s\<^sub>2"
    "mHighwaterThresholdBytes s\<^sub>2 = mHighwaterThresholdBytes s"
proof -
  let ?w = "\<lparr>rcMsg = m, rcBuffer = buf\<rparr>"
  let ?s = "s\<lparr>read_msgs := [m], waiting := Some ?w\<rparr>" and ?r = "s\<lparr>waiting := Some ?w, read_msgs := []\<rparr>"
  have f: "mCache s = new_page_cache kPageSize" "mCacheOffset s = 0" "mFinalStatus s = 0" "mNumRetriesLeft s = kMaxNumRetries" "mAsyncResult s = None" "looper s = Idle"
    "read_msgs s = []" "waiting s = None" "fetch_delay s = Some 0" "mFetching s" "\<not> mDisconnecting s" using s(1) by (auto simp: created_def)
  have mm: "0 \<le> rmOffset m" "rmOffset m + int (rmSize m) < 2 ^ 63" "rmSize m \<le> mHighwaterThresholdBytes s" using m(2) by (simp_all add: msg_ok_def)
  have tot: "totalSize s = 0" using f(1) by (simp add: new_page_cache_def)
  have "size_t (rmOffset m + int (rmSize m)) = nat (rmOffset m + int (rmSize m))" using mm by (intro size_t_id) auto
  then have ra: "readAt m buf s = Some ?s" using f tot m(1) mm by (simp add: readAt_def size_t_small kPadding_def)
  have ok: "cs_ok content s" by (rule created_ok [OF s(1)])
  have ok1: "cs_ok content ?s" using readAt_ok [OF ok c f(8) m(2,3)] ra by auto
  have sz: "rmSize m \<le> mHighwaterThresholdBytes ?r" "\<not> mDisconnecting ?r" using mm f(11) by simp_all
  have p: "prefetch_from m ?r = ?r" using f(10) by (simp add: prefetch_from_def)
  have tgt: "seek_target m = rmOffset m - kPadding" "0 \<le> seek_target m" "seek_target m < 2 ^ 63" using m(1) mm by (simp_all add: seek_target_def kPadding_def)
  have w: "window_ok content ?r" "0 \<le> mNumRetriesLeft ?r" using ok f(4) by (simp_all add: cs_ok_def window_ok_def kMaxNumRetries_def)
  obtain u where u: "seekInternal_l (seek_target m) ?r = Some u" "window_ok content u" "frame u = frame ?r" "waiting u = waiting ?r"
    "mCacheOffset u = seek_target m" "totalSize u = 0" "mNumRetriesLeft u = kMaxNumRetries" "mFetching u"
    using seek_ok [OF w(1) c tgt(2,3) w(2)] f(2) tot tgt(1) m(1) by auto
  have ri: "readInternal m ?r = read_answer m u" using readInternal_split [OF sz] p u(1) f(2) tot mm(1) by (simp add: wrap_i64_def)
  have uf: "\<not> failed u" "looper u = Idle" "read_msgs u = []" "mAsyncResult u = None" "\<not> mDisconnecting u" "waiting u = Some ?w" "fetch_delay u = Some 0"
    "mHighwaterThresholdBytes u = mHighwaterThresholdBytes s" "mDisconnectAtHighwatermark u = mDisconnectAtHighwatermark s" "source_flags u = source_flags s"
    using u(3,4) f by (simp_all add: failed_def frame_def)
  have "read_answer m u = Some (- 11, u)"
    using read_answer_eq [OF u(2) c uf(6)] m(1-3) u(5,6) uf(1) tgt(1) by (auto simp: failed_def kPadding_def)
  then have hit: "onRead m ?s = Some (u\<lparr>read_msgs := [m]\<rparr>)" using ri uf(3) by (simp add: onRead_def)
  have "cs_ok content (u\<lparr>read_msgs := [m]\<rparr>)" using onRead_ok [OF ok1 c, of m] f(6) hit by auto
  then have "thrashing content ?w (u\<lparr>read_msgs := [m]\<rparr>)"
    using uf u(5,6,8) s(2) m(1) by (simp add: thrashing_def pending_def failed_def http_def)
  then show thesis using that [OF ra hit] uf(8) by simp
qed

text \<open>
  C37: with a high watermark of at most a page, a read beyond the first 256 K of a new source never
  returns, although the source serves all its content. The request moves the window to 256 K before
  the offset; the first page fills the cache, so that fetching stops; the next attempt to read then
  releases that page, because it lies before the offset, and moves the window back, because its
  beginning is no longer cached. However many rounds the looper makes, the client still waits.
\<close>

theorem small_watermark_never_returns:
  assumes "created s" "\<not> (mDisconnectAtHighwatermark s \<and> http s)" "mHighwaterThresholdBytes s \<noteq> 0"
    and "kPadding < rmOffset m" "msg_ok (mHighwaterThresholdBytes s) m" "length buf = rmSize m"
    and "serves content serve" "length content < 2 ^ 63" "int (mHighwaterThresholdBytes s) \<le> fst (serve (seek_target m))"
  shows "\<exists>s\<^sub>1 s\<^sub>2. readAt m buf s = Some s\<^sub>1 \<and> onRead m s\<^sub>1 = Some s\<^sub>2
    \<and> (\<forall>k. \<exists>t. rounds serve clock fresh k s\<^sub>2 = Some t \<and> mAsyncResult t = None \<and> waiting t = Some \<lparr>rcMsg = m, rcBuffer = buf\<rparr>)"
proof -
  let ?w = "\<lparr>rcMsg = m, rcBuffer = buf\<rparr>"
  obtain s\<^sub>1 s\<^sub>2 where s: "readAt m buf s = Some s\<^sub>1" "onRead m s\<^sub>1 = Some s\<^sub>2" "thrashing content ?w s\<^sub>2" "mHighwaterThresholdBytes s\<^sub>2 = mHighwaterThresholdBytes s"
    using first_far_read [OF assms(1,2,4-6,8)] .
  have "\<exists>t. rounds serve clock fresh k s\<^sub>2 = Some t \<and> mAsyncResult t = None \<and> waiting t = Some ?w" for k
    using thrashing_rounds [OF s(3) assms(8,7), of clock fresh k] assms(3,9) s(4) by (auto simp: thrashing_def pending_def)
  then show ?thesis using s(1,2) by blast
qed

theorem small_watermark_never_returns_witness:
  "\<exists>s\<^sub>1 s\<^sub>2. readAt \<lparr>rmOffset = 300000, rmSize = 1, rmPtr = 0\<rparr> [0] (Create 8 None (Some (Some (0, 64, 0))) False) = Some s\<^sub>1
     \<and> onRead \<lparr>rmOffset = 300000, rmSize = 1, rmPtr = 0\<rparr> s\<^sub>1 = Some s\<^sub>2
     \<and> (\<forall>k. \<exists>t. rounds (file_source (replicate 400000 7)) (\<lambda>_. 0) [] k s\<^sub>2 = Some t \<and> mAsyncResult t = None
           \<and> waiting t = Some \<lparr>rcMsg = \<lparr>rmOffset = 300000, rmSize = 1, rmPtr = 0\<rparr>, rcBuffer = [0]\<rparr>)"
proof -
  let ?s = "Create 8 None (Some (Some (0, 64, 0))) False"
  have c: "mHighwaterThresholdBytes ?s = 65536" "\<not> mDisconnectAtHighwatermark ?s"
    by (simp_all add: Create_def new_cached_source_def updateCacheParamsFromSystemProperty_def updateCacheParamsFromString_def size_t_def Let_def)
  show ?thesis
    by (rule small_watermark_never_returns [OF createdI _ _ _ _ _ file_source_serves])
      (simp_all add: c kPadding_def msg_ok_def file_source_def seek_target_def Let_def kPageSize_def)
qed


section \<open>Disconnecting at the high watermark\<close>

text \<open>
  No retries are left and the final status is the \<open>-EAGAIN\<close> that \<open>onFetch\<close> sets when it disconnects;
  a client waits for bytes behind the window.
\<close>

definition hung :: "cached_source \<Rightarrow> bool" where
  "hung s \<longleftrightarrow> mFinalStatus s = - EAGAIN_code \<and> mNumRetriesLeft s = 0 \<and> \<not> mDisconnecting s \<and> mAsyncResult s = None \<and> looper s = Idle
     \<and> 0 \<le> mCacheOffset s \<and> cache_end s < 2 ^ 63
     \<and> (case waiting s of None \<Rightarrow> False
         | Some w \<Rightarrow> read_msgs s = [rcMsg w] \<and> msg_ok (mHighwaterThresholdBytes s) (rcMsg w) \<and> cache_end s \<le> rmOffset (rcMsg w)
             \<and> mCacheOffset s \<le> seek_target (rcMsg w) \<and> seek_target (rcMsg w) \<le> cache_end s)"

lemma hung_restart: "hung s \<Longrightarrow> restartPrefetcherIfNecessary_l i f s = s"
  by (simp add: hung_def restartPrefetcherIfNecessary_l_def)

lemma hung_cong:
  assumes "hung s" "mCache t = mCache s" "mCacheOffset t = mCacheOffset s" "mFinalStatus t = mFinalStatus s" "mNumRetriesLeft t = mNumRetriesLeft s"
    "mDisconnecting t = mDisconnecting s" "mAsyncResult t = mAsyncResult s" "looper t = looper s" "waiting t = waiting s" "read_msgs t = read_msgs s"
    "mHighwaterThresholdBytes t = mHighwaterThresholdBytes s"
  shows "hung t"
  using assms(1) unfolding hung_def assms(2-11) .

lemma hung_onFetch:
  assumes "hung s" "onFetch now fresh s = Some t"
  shows "hung t \<and> waiting t = waiting s"
proof -
  let ?s = "s\<lparr>mFetching := False, fetch_delay := None\<rparr>"
  have h: "hung ?s" by (rule hung_cong [OF assms(1)]) simp_all
  have "onFetch now fresh s = Some (post_fetch ?s)" using assms(1) hung_restart [OF h] by (simp add: onFetch_def hung_def)
  moreover have "hung (post_fetch ?s)" using h by (rule hung_cong) (use assms(1) in \<open>simp_all add: hung_def\<close>)
  ultimately show ?thesis using assms(2) by auto
qed

lemma hung_onRead:
  assumes "hung s" "m \<in> set (read_msgs s)" "onRead m s = Some t"
  shows "hung t \<and> waiting t = waiting s"
proof -
  obtain w where w: "waiting s = Some w" "read_msgs s = [rcMsg w]" "msg_ok (mHighwaterThresholdBytes s) (rcMsg w)" "cache_end s \<le> rmOffset (rcMsg w)"
    "mCacheOffset s \<le> seek_target (rcMsg w)" "seek_target (rcMsg w) \<le> cache_end s" using assms(1) by (auto simp: hung_def split: option.splits)
  have f: "mFinalStatus s = - 11" "mNumRetriesLeft s = 0" "\<not> mDisconnecting s" "0 \<le> mCacheOffset s" "cache_end s < 2 ^ 63" "looper s = Idle" using assms(1) by (simp_all add: hung_def)
  have m: "m = rcMsg w" using assms(2) w(2) by simp
  let ?s = "s\<lparr>read_msgs := []\<rparr>" and ?p = "prefetch_from m (s\<lparr>read_msgs := []\<rparr>)"
  let ?t = "?p\<lparr>mLastAccessPos := seek_target m\<rparr>"
  have p: "?p = (if mFetching s then ?s else ?s\<lparr>mLastAccessPos := rmOffset m\<rparr>)" using f by (simp add: prefetch_from_def restartPrefetcherIfNecessary_l_def)
  have we: "wrap_i64 (cache_end s) = cache_end s" using f(4,5) by (intro wrap_i64_id) linarith+
  have sk: "seekInternal_l (seek_target m) ?p = Some ?t" using we w(5,6) m p by (simp add: seekInternal_l_def)
  have sz: "rmSize m \<le> mHighwaterThresholdBytes ?s" "\<not> mDisconnecting ?s" using w(3) m f(3) by (simp_all add: msg_ok_def)
  have ri: "readInternal m ?s = read_answer m ?t" using readInternal_split [OF sz] sk we w(4) m p by (simp split: if_splits)
  have "size_t (rmOffset m - mCacheOffset s) = nat (rmOffset m - mCacheOffset s)" using w(3,4) m f(4) by (intro size_t_id) (auto simp: msg_ok_def)
  then have "read_answer m ?t = Some (- 11, ?t)" using f w(4) m p by (auto simp: read_answer_def Let_def)
  then have t: "t = ?t\<lparr>read_msgs := [m]\<rparr>" using assms(3) ri w(2) m p by (auto simp: onRead_def split: if_splits)
  have "hung t" by (rule hung_cong [OF assms(1)]) (use t p w(2) m in auto)
  then show ?thesis using t p by auto
qed

lemma hung_step:
  assumes "cached_step answers recon s t" "hung s"
  shows "hung t \<and> waiting t = waiting s \<or> mDisconnecting t"
  using assms(1)
proof cases
  case (step_fetch now fresh)
  then show ?thesis using hung_onFetch [OF assms(2)] by blast
next
  case (step_onRead m)
  then show ?thesis using hung_onRead [OF assms(2)] by blast
next
  case step_disconnect
  then show ?thesis using assms(2) by (simp add: disconnect_def)
next
  case step_resume
  then show ?thesis using assms(2) hung_restart by (simp add: resumeFetchingIfNecessary_def)
qed (use assms(2) in \<open>auto simp: hung_def split: option.splits\<close>)


lemma readInternal_disconnecting: "readInternal m s = Some (r, t) \<Longrightarrow> mDisconnecting s \<Longrightarrow> mDisconnecting t"
  by (auto simp: readInternal_def Let_def split: if_splits)

lemma onFetch_disconnecting: "onFetch now fresh s = Some t \<Longrightarrow> mDisconnecting t = mDisconnecting s"
  by (auto simp: onFetch_def Let_def fetchInternal_begin_def fetch_page_def case_prod_beta restartPrefetcherIfNecessary_l_def split: if_splits)

lemma disconnecting_stays:
  assumes "cached_step answers recon s t" "mDisconnecting s"
  shows "mDisconnecting t"
  using assms(1)
proof cases
  case step_fetch
  then show ?thesis using onFetch_disconnecting assms(2) by blast
next
  case (step_onRead m)
  then show ?thesis using assms(2) by (auto simp: onRead_def split: option.splits if_splits dest!: readInternal_disconnecting)
qed (use assms(2) in \<open>auto simp: fetchInternal_reconnected_def fetchInternal_read_def onFetch_end_def onRead_end_def readAt_def readAt_wake_def return_read_def
    disconnect_def resumeFetchingIfNecessary_def restartPrefetcherIfNecessary_l_def Let_def case_prod_beta\<close>)

lemma hung_steps:
  assumes "(cached_step answers recon)\<^sup>*\<^sup>* s t" "hung s"
  shows "hung t \<and> waiting t = waiting s \<or> mDisconnecting t"
  using assms
proof (induction rule: rtranclp_induct)
  case (step t u)
  then show ?case using hung_step [OF step.hyps(2)] disconnecting_stays [OF step.hyps(2)] by auto
qed simp

text \<open>
  C34: a read that never returns. Once no retries are left and the status is the \<open>-EAGAIN\<close> of the
  disconnection at the high watermark, \<open>readInternal\<close> returns that status for a read behind the
  window and \<open>onRead\<close> takes it for its own request to try again. Whatever the source answers and
  whoever calls the cache, the client waits until somebody disconnects it.
\<close>

theorem eagain_read_never_returns:
  assumes "hung s" "(cached_step answers recon)\<^sup>*\<^sup>* s t" "\<not> mDisconnecting t"
  shows "waiting t = waiting s \<and> waiting t \<noteq> None \<and> mAsyncResult t = None \<and> \<not> mDisconnecting s"
  using hung_steps [OF assms(2,1)] assms(1,3) by (auto simp: hung_def split: option.splits)


text \<open>
  Such a state comes about with a source that works: a file of 1024 bytes behind a cache with that
  high watermark. The first page fills the cache, which disconnects; a read across the end of the
  file starts another fetch, which finds the end, and because the cache is still full the end is
  overwritten by \<open>-EAGAIN\<close>. The read gets its last byte; the next one, at the end, hangs.
\<close>

definition eof_page :: cache_page where
  "eof_page = \<lparr>pgData = replicate 65536 0, pgSize = 0\<rparr>"

definition eof_cache :: "cache_page list \<Rightarrow> page_cache" where
  "eof_cache free = \<lparr>mPageSize = 65536, mTotalSize = 1024, mActivePages = [eof_page\<lparr>pgSize := 1024\<rparr>], mFreePages = free\<rparr>"

definition eof_state :: "page_cache \<Rightarrow> int \<Rightarrow> int \<Rightarrow> int option \<Rightarrow> bool \<Rightarrow> int \<Rightarrow> int \<Rightarrow> looper_at \<Rightarrow> int option \<Rightarrow> read_msg list \<Rightarrow> read_client option
    \<Rightarrow> cached_read list \<Rightarrow> cached_source" where
  "eof_state c final accessPos result fetching fetchTime retries at delay msgs w rets =
     \<lparr>mCache = c, mCacheOffset = 0, mFinalStatus = final, mLastAccessPos = accessPos, mAsyncResult = result, mFetching = fetching, mDisconnecting = False,
      mLastFetchTimeUs = fetchTime, mNumRetriesLeft = retries, mHighwaterThresholdBytes = 1024, mLowwaterThresholdBytes = 0, mKeepAliveIntervalUs = 0,
      mDisconnectAtHighwatermark = True, source_flags = 8, looper = at, fetch_delay = delay, read_msgs = msgs, waiting = w, returned = rets\<rparr>"

definition eof_msg :: "int \<Rightarrow> nat \<Rightarrow> read_msg" where
  "eof_msg off n = \<lparr>rmOffset = off, rmSize = n, rmPtr = 0\<rparr>"

definition eof_client :: "int \<Rightarrow> u8 list \<Rightarrow> read_client" where
  "eof_client off buf = \<lparr>rcMsg = eof_msg off (length buf), rcBuffer = buf\<rparr>"

lemmas eof_defs = eof_state_def eof_msg_def eof_client_def eof_cache_def eof_page_def Let_def

lemma eof_create: "Create 8 None (Some (Some (0, 1, 0))) True = eof_state (new_page_cache 65536) 0 0 None True (- 1) 10 Idle (Some 0) [] None []"
  by (simp add: Create_def new_cached_source_def updateCacheParamsFromSystemProperty_def updateCacheParamsFromString_def eof_state_def size_t_def
    kPageSize_def kMaxNumRetries_def Let_def)

lemma eof_1: "onFetch 0 (replicate 65536 0) (eof_state (new_page_cache 65536) 0 0 None True (- 1) 10 Idle (Some 0) [] None [])
    = Some (eof_state (new_page_cache 65536) 0 0 None True (- 1) 10 (Reading 0 eof_page) None [] None [])"
  by (simp add: eof_defs onFetch_def fetchInternal_begin_def fetch_page_def acquirePage_def new_page_cache_def wrap_i64_def)

lemma eof_2: "fetchInternal_read 1024 (replicate 65536 0) eof_page (eof_state (new_page_cache 65536) 0 0 None True (- 1) 10 (Reading 0 eof_page) None [] None [])
    = eof_state (eof_cache []) 0 0 None True (- 1) 10 Fetched None [] None []"
  by (simp add: eof_defs fetchInternal_read_def new_page_cache_def appendPage_def kMaxNumRetries_def)

lemma eof_3: "onFetch_end 0 (eof_state (eof_cache []) 0 0 None True (- 1) 10 Fetched None [] None [])
    = eof_state (eof_cache []) (- 11) 0 None False 0 10 Idle (Some 100000) [] None []"
  by (simp add: eof_defs onFetch_end_def post_fetch_def http_def kIsHTTPBasedSource_def)

lemma eof_4: "readAt (eof_msg 1023 2) [9, 9] (eof_state (eof_cache []) (- 11) 0 None False 0 10 Idle (Some 100000) [] None [])
    = Some (eof_state (eof_cache []) (- 11) 0 None False 0 10 Idle (Some 100000) [eof_msg 1023 2] (Some (eof_client 1023 [9, 9])) [])"
  by (simp add: eof_defs readAt_def size_t_def)

lemma eof_5: "onRead (eof_msg 1023 2) (eof_state (eof_cache []) (- 11) 0 None False 0 10 Idle (Some 100000) [eof_msg 1023 2] (Some (eof_client 1023 [9, 9])) [])
    = Some (eof_state (eof_cache []) (- 11) 1023 None True 0 10 Idle (Some 100000) [eof_msg 1023 2] (Some (eof_client 1023 [9, 9])) [])"
  by (simp add: eof_defs onRead_def readInternal_def restartPrefetcherIfNecessary_l_def releaseFromStart_def size_t_def wrap_i64_def)

lemma eof_6: "onFetch 0 [] (eof_state (eof_cache []) (- 11) 1023 None True 0 10 Idle (Some 100000) [eof_msg 1023 2] (Some (eof_client 1023 [9, 9])) [])
    = Some (eof_state (eof_cache []) (- 11) 1023 None True 0 9 Reconnecting None [eof_msg 1023 2] (Some (eof_client 1023 [9, 9])) [])"
  by (simp add: eof_defs onFetch_def fetchInternal_begin_def)

lemma eof_7: "fetchInternal_reconnected 0 (replicate 65536 0) (eof_state (eof_cache []) (- 11) 1023 None True 0 9 Reconnecting None [eof_msg 1023 2] (Some (eof_client 1023 [9, 9])) [])
    = eof_state (eof_cache []) (- 11) 1023 None True 0 9 (Reading 1024 eof_page) None [eof_msg 1023 2] (Some (eof_client 1023 [9, 9])) []"
  by (simp add: eof_defs fetchInternal_reconnected_def fetch_page_def acquirePage_def wrap_i64_def)

lemma eof_8: "fetchInternal_read 0 (replicate 65536 0) eof_page
      (eof_state (eof_cache []) (- 11) 1023 None True 0 9 (Reading 1024 eof_page) None [eof_msg 1023 2] (Some (eof_client 1023 [9, 9])) [])
    = eof_state (eof_cache [eof_page]) (- 1011) 1023 None True 0 0 Fetched None [eof_msg 1023 2] (Some (eof_client 1023 [9, 9])) []"
  by (simp add: eof_defs fetchInternal_read_def releasePage_def)

lemma eof_9: "onFetch_end 0 (eof_state (eof_cache [eof_page]) (- 1011) 1023 None True 0 0 Fetched None [eof_msg 1023 2] (Some (eof_client 1023 [9, 9])) [])
    = eof_state (eof_cache [eof_page]) (- 11) 1023 None False 0 0 Idle (Some 100000) [eof_msg 1023 2] (Some (eof_client 1023 [9, 9])) []"
  by (simp add: eof_defs onFetch_end_def post_fetch_def http_def kIsHTTPBasedSource_def)

lemma eof_10: "onRead (eof_msg 1023 2) (eof_state (eof_cache [eof_page]) (- 11) 1023 None False 0 0 Idle (Some 100000) [eof_msg 1023 2] (Some (eof_client 1023 [9, 9])) [])
    = Some (eof_state (eof_cache [eof_page]) (- 11) 1023 None False 0 0 (Answering 1) (Some 100000) [] (Some ((eof_client 1023 [9, 9])\<lparr>rcBuffer := [0, 9]\<rparr>)) [])"
  by (simp add: eof_defs onRead_def readInternal_def restartPrefetcherIfNecessary_l_def copy_out_def cache_copy_def mem_read_def mem_write_def size_t_def wrap_i64_def)

lemma eof_11: "onRead_end 1 (eof_state (eof_cache [eof_page]) (- 11) 1023 None False 0 0 (Answering 1) (Some 100000) [] (Some ((eof_client 1023 [9, 9])\<lparr>rcBuffer := [0, 9]\<rparr>)) [])
    = Some (eof_state (eof_cache [eof_page]) (- 11) 1023 (Some 1) False 0 0 Idle (Some 100000) [] (Some ((eof_client 1023 [9, 9])\<lparr>rcBuffer := [0, 9]\<rparr>)) [])"
  by (simp add: eof_defs onRead_end_def wrap_i32_def)

definition eof_rets :: "cached_read list" where
  "eof_rets = [\<lparr>crOffset = 1023, crSize = 2, crResult = 1, crData = [0, 9]\<rparr>]"

lemma eof_12: "readAt_wake ((eof_client 1023 [9, 9])\<lparr>rcBuffer := [0, 9]\<rparr>)
      (eof_state (eof_cache [eof_page]) (- 11) 1023 (Some 1) False 0 0 Idle (Some 100000) [] (Some ((eof_client 1023 [9, 9])\<lparr>rcBuffer := [0, 9]\<rparr>)) [])
    = eof_state (eof_cache [eof_page]) (- 11) 1024 None False 0 0 Idle (Some 100000) [] None eof_rets"
  by (simp add: eof_defs readAt_wake_def return_read_def wrap_i64_def eof_rets_def)

definition eof_hung :: cached_source where
  "eof_hung = eof_state (eof_cache [eof_page]) (- 11) 1024 None False 0 0 Idle (Some 100000) [eof_msg 1024 1] (Some (eof_client 1024 [9])) eof_rets"

lemma eof_13: "readAt (eof_msg 1024 1) [9] (eof_state (eof_cache [eof_page]) (- 11) 1024 None False 0 0 Idle (Some 100000) [] None eof_rets) = Some eof_hung"
  by (simp add: eof_hung_def eof_defs readAt_def size_t_def)

lemma eof_is_hung: "hung eof_hung"
  by (simp add: eof_hung_def hung_def eof_defs msg_ok_def seek_target_def kPadding_def)

text \<open>A file's answers, and reconnections that succeed.\<close>

definition eof_answers :: "int \<Rightarrow> int \<Rightarrow> u8 list \<Rightarrow> bool" where
  "eof_answers off n buf \<longleftrightarrow> (n, buf) = file_source (replicate 1024 0) off"

lemma eof_serves: "eof_answers 0 1024 (replicate 65536 0)" "eof_answers 1024 0 (replicate 65536 0)"
  by (simp_all add: eof_answers_def file_source_def kPageSize_def Let_def flip: replicate_add)

lemma eof_run: "(cached_step eof_answers (\<lambda>err. err = 0))\<^sup>*\<^sup>* (Create 8 None (Some (Some (0, 1, 0))) True) eof_hung"
proof -
  note cs = converse_rtranclp_into_rtranclp [of "cached_step eof_answers (\<lambda>err. err = 0)"]
  show ?thesis
    unfolding eof_create
    apply (rule cs, rule step_fetch [OF _ _ eof_1], simp add: eof_state_def, simp add: eof_state_def)
    apply (rule cs, rule step_read [of _ 0 eof_page eof_answers 1024 "replicate 65536 0"], simp add: eof_state_def, rule eof_serves, subst eof_2)
    apply (rule cs, rule step_fetched [of _ _ _ 0], simp add: eof_state_def, subst eof_3)
    apply (rule cs, rule step_readAt [OF _ _ _ eof_4], simp add: eof_state_def, simp add: eof_defs msg_ok_def, simp add: eof_msg_def)
    apply (rule cs, rule step_onRead [OF _ _ eof_5], simp add: eof_state_def, simp add: eof_state_def)
    apply (rule cs, rule step_fetch [OF _ _ eof_6], simp add: eof_state_def, simp add: eof_state_def)
    apply (rule cs, rule step_reconnected [of _ _ 0 _ "replicate 65536 0"], simp add: eof_state_def, simp, subst eof_7)
    apply (rule cs, rule step_read [of _ 1024 eof_page eof_answers 0 "replicate 65536 0"], simp add: eof_state_def, rule eof_serves, subst eof_8)
    apply (rule cs, rule step_fetched [of _ _ _ 0], simp add: eof_state_def, subst eof_9)
    apply (rule cs, rule step_onRead [OF _ _ eof_10], simp add: eof_state_def, simp add: eof_state_def)
    apply (rule cs, rule step_answer [OF _ eof_11], simp add: eof_state_def)
    apply (rule cs, rule step_wake, simp add: eof_state_def, simp add: eof_state_def, subst eof_12)
    apply (rule cs, rule step_readAt [OF _ _ _ eof_13], simp add: eof_state_def, simp add: eof_defs msg_ok_def, simp add: eof_msg_def)
    apply (rule rtranclp.rtrancl_refl)
    done
qed

theorem eagain_read_never_returns_witness:
  "(cached_step eof_answers (\<lambda>err. err = 0))\<^sup>*\<^sup>* (Create 8 None (Some (Some (0, 1, 0))) True) eof_hung
     \<and> (\<forall>t. \<not> ((cached_step eof_answers (\<lambda>err. err = 0))\<^sup>*\<^sup>* eof_hung t \<and> \<not> mDisconnecting t \<and> waiting t = None))"
  using eof_run eagain_read_never_returns [OF eof_is_hung] by blast

end
