(* ===== verification/Track_Proxy.thy ===== *)
theory Track_Proxy
  imports Media_Prelude
begin

unbundle bit_operations_syntax

text \<open>
  The two ends of an audio stream in shared memory: \<open>media/libaudioclient/AudioTrackShared.cpp\<close> with
  \<open>AudioTrackShared.h\<close>, for streaming tracks. A client and the audio server share a control block with
  running positions of 32 bits and a ring of frames whose size is a power of two; neither trusts what
  it reads there. An \<open>int32_t\<close> of the control block is a word, a count of type \<open>size_t\<close> a natural
  number. \<open>None\<close> is \<open>LOG_ALWAYS_FATAL\<close>. Loads and stores of the control block are atomic and in
  program order; the wake of a futex is its flag. \<open>sub\<close> is \<open>audio_utils::safe_sub_overflow\<close> on
  \<open>int32_t\<close>, and the rounded frame count is what \<open>roundup\<close> returns.
\<close>

section \<open>Data\<close>

definition CBLK_UNDERRUN :: u32 where "CBLK_UNDERRUN = 0x01"
definition CBLK_INVALID :: u32 where "CBLK_INVALID = 0x04"
definition CBLK_DISABLED :: u32 where "CBLK_DISABLED = 0x08"
definition CBLK_LOOP_CYCLE :: u32 where "CBLK_LOOP_CYCLE = 0x20"
definition CBLK_LOOP_FINAL :: u32 where "CBLK_LOOP_FINAL = 0x40"
definition CBLK_BUFFER_END :: u32 where "CBLK_BUFFER_END = 0x80"
definition CBLK_OVERRUN :: u32 where "CBLK_OVERRUN = 0x100"
definition CBLK_INTERRUPT :: u32 where "CBLK_INTERRUPT = 0x200"
definition CBLK_STREAM_END_DONE :: u32 where "CBLK_STREAM_END_DONE = 0x400"
definition CBLK_FUTEX_WAKE :: u32 where "CBLK_FUTEX_WAKE = 1"

datatype track_status =
    TS_OK | WOULD_BLOCK | TS_NO_INIT | DEAD_OBJECT | NOT_ENOUGH_DATA | INTERRUPTED | TIMED_OUT | Unexpected int

text \<open>The control block, as far as streaming tracks use it.\<close>

record cblk =
  cbServer :: u32
  mFutex :: u32
  mMinimum :: u32
  cbBufferSize :: u32
  mFlags :: u32
  mFront :: u32
  mRear :: u32
  cbFlush :: u32
  mStop :: u32
  mUnderrunFrames :: u32
  cbUnderrunCount :: u32

definition new_cblk :: cblk where
  "new_cblk = \<lparr>cbServer = 0, mFutex = 0, mMinimum = 0, cbBufferSize = 0, mFlags = 0, mFront = 0, mRear = 0, cbFlush = 0,
     mStop = 0, mUnderrunFrames = 0, cbUnderrunCount = 0\<rparr>"

text \<open>A region of the ring: the frames in it, its byte offset (\<open>None\<close> a null pointer), and how many frames follow elsewhere.\<close>

record proxy_buffer =
  bfFrameCount :: nat
  bfRaw :: "nat option"
  bfNonContig :: nat

definition no_buffer :: proxy_buffer where
  "no_buffer = \<lparr>bfFrameCount = 0, bfRaw = None, bfNonContig = 0\<rparr>"

record proxy =
  mFrameCount :: nat
  mFrameSize :: nat
  mFrameCountP2 :: nat
  mIsOut :: bool
  mIsShutdown :: bool
  mUnreleased :: nat

record client_proxy = proxy +
  cpBufferSize :: u32
  mEpoch :: u32

record server_proxy = proxy +
  mAvailToClient :: nat
  svFlush :: u32
  mReleased :: int
  mFlushed :: int
  mStopLast :: u32
  mUnderrunCount :: u32
  mUnderrunning :: bool

section \<open>The client\<close>

definition setBufferSizeInFrames :: "u32 \<Rightarrow> client_proxy \<Rightarrow> cblk \<Rightarrow> u32 \<times> client_proxy \<times> cblk" where
  "setBufferSizeInFrames requestedSize c cb =
     (let minimum = 16; maximum = word_of_nat (mFrameCount c);
          clippedSize = (if maximum < minimum then maximum else if requestedSize < minimum then minimum else if maximum < requestedSize then maximum else requestedSize)
      in (clippedSize, c\<lparr>cpBufferSize := clippedSize\<rparr>, cb\<lparr>cbBufferSize := clippedSize\<rparr>))"

definition new_client :: "nat \<Rightarrow> nat \<Rightarrow> nat \<Rightarrow> bool \<Rightarrow> cblk \<Rightarrow> client_proxy \<times> cblk" where
  "new_client frameCount frameSize frameCountP2 isOut cb =
     snd (setBufferSizeInFrames (word_of_nat frameCount)
       \<lparr>mFrameCount = frameCount, mFrameSize = frameSize, mFrameCountP2 = frameCountP2, mIsOut = isOut, mIsShutdown = False,
         mUnreleased = 0, cpBufferSize = 0, mEpoch = 0\<rparr> cb)"

definition no_frames :: "track_status \<Rightarrow> 'a proxy_scheme \<Rightarrow> track_status \<times> proxy_buffer \<times> 'a proxy_scheme" where
  "no_frames st p = (st, no_buffer, p\<lparr>mUnreleased := 0\<rparr>)"

text \<open>What the ring may hold.\<close>

definition filled_ok :: "int \<Rightarrow> 'a proxy_scheme \<Rightarrow> bool" where
  "filled_ok filled p \<longleftrightarrow> 0 \<le> filled \<and> nat filled \<le> mFrameCount p"

definition ring_index :: "u32 \<Rightarrow> 'a proxy_scheme \<Rightarrow> nat" where
  "ring_index position p = unat (position AND (word_of_nat (mFrameCountP2 p) - 1))"

text \<open>The first contiguous part of \<open>avail\<close> frames from a position on, at most what is asked for.\<close>

definition first_chunk :: "u32 \<Rightarrow> nat \<Rightarrow> nat \<Rightarrow> 'a proxy_scheme \<Rightarrow> proxy_buffer" where
  "first_chunk position avail ask p =
     (let part1 = mFrameCountP2 p - ring_index position p;
          part1 = (if avail < part1 then avail else part1);
          part1 = (if ask < part1 then ask else part1)
      in \<lparr>bfFrameCount = part1, bfRaw = (if 0 < part1 then Some (ring_index position p * mFrameSize p) else None), bfNonContig = avail - part1\<rparr>)"

text \<open>
  One pass of the loop of \<open>ClientProxy::obtainBuffer\<close> up to the wait: an answer, or \<open>Inr\<close> if it has to
  wait. \<open>ignoreInterrupt\<close> is \<open>ignoreInitialPendingInterrupt\<close>.
\<close>

definition client_pass :: "(u32 \<Rightarrow> u32 \<Rightarrow> u32) \<Rightarrow> bool \<Rightarrow> nat \<Rightarrow> client_proxy \<Rightarrow> cblk \<Rightarrow> (track_status \<times> proxy_buffer \<times> client_proxy + unit) \<times> cblk" where
  "client_pass sub ignoreInterrupt ask c cb =
     (let flags = mFlags cb; cb = cb\<lparr>mFlags := flags AND NOT CBLK_INTERRUPT\<rparr>
      in if flags AND CBLK_INVALID \<noteq> 0 then (Inl (no_frames DEAD_OBJECT c), cb)
         else if flags AND CBLK_DISABLED \<noteq> 0 then (Inl (no_frames NOT_ENOUGH_DATA c), cb)
         else if \<not> ignoreInterrupt \<and> flags AND CBLK_INTERRUPT \<noteq> 0 then (Inl (no_frames INTERRUPTED c), cb)
         else let front = mFront cb; rear = mRear cb; filled = sint (sub rear front)
              in if \<not> filled_ok filled c \<and> mIsOut c then (Inl (no_frames TS_NO_INIT (c\<lparr>mIsShutdown := True\<rparr>)), cb)
                 else let (filled, cb) = (if \<not> filled_ok filled c then (0, cb\<lparr>mFront := rear, mFlags := mFlags cb OR CBLK_OVERRUN\<rparr>) else (filled, cb));
                          avail = (if mIsOut c then int (unat (cpBufferSize c)) - filled else filled)
                      in if avail \<le> 0 then (Inr (), cb)
                         else let buffer = first_chunk (if mIsOut c then rear else front) (nat avail) ask c
                              in (Inl (TS_OK, buffer, c\<lparr>mUnreleased := bfFrameCount buffer\<rparr>), cb))"

subsection \<open>Waiting\<close>

record timespec =
  tv_sec :: int
  tv_nsec :: int

datatype timeout = TIMEOUT_ZERO | TIMEOUT_INFINITE | TIMEOUT_FINITE | TIMEOUT_CONTINUE

definition INT_MAX :: int where "INT_MAX = 2147483647"
definition MEASURE_NS :: int where "MEASURE_NS = 10000000"
definition MAX_SEC :: int where "MAX_SEC = 5"

definition timeout_of :: "timespec option \<Rightarrow> timeout" where
  "timeout_of requested =
     (case requested of
        None \<Rightarrow> TIMEOUT_ZERO
      | Some r \<Rightarrow> if tv_sec r = 0 \<and> tv_nsec r = 0 then TIMEOUT_ZERO
                   else if tv_sec r = INT_MAX then TIMEOUT_INFINITE else TIMEOUT_FINITE)"

definition measures :: "bool \<Rightarrow> timespec option \<Rightarrow> bool" where
  "measures wants_elapsed requested \<longleftrightarrow> wants_elapsed
     \<or> (case requested of None \<Rightarrow> False | Some r \<Rightarrow> timeout_of requested = TIMEOUT_FINITE \<and> (0 < tv_sec r \<or> MEASURE_NS \<le> tv_nsec r))"

text \<open>The time that is left of a request, and at most \<open>MAX_SEC\<close> of it.\<close>

definition time_left :: "timespec \<Rightarrow> timespec \<Rightarrow> timespec" where
  "time_left requested spent =
     (let sec = tv_sec requested - tv_sec spent; nsec = tv_nsec requested - tv_nsec spent;
          (sec, nsec) = (if nsec < 0 then (sec + 1, nsec + 1000000000) else (sec, nsec))
      in if 0 < MAX_SEC \<and> MAX_SEC < sec then \<lparr>tv_sec = MAX_SEC, tv_nsec = 0\<rparr> else \<lparr>tv_sec = sec, tv_nsec = nsec\<rparr>)"

text \<open>The switch over \<open>timeout\<close>: give up, or the next kind of timeout and the time to wait (\<open>None\<close> for ever).\<close>

definition next_wait :: "bool \<Rightarrow> timeout \<Rightarrow> timespec \<Rightarrow> timespec \<Rightarrow> track_status + timeout \<times> timespec option" where
  "next_wait measured timeout requested spent =
     (case timeout of
        TIMEOUT_ZERO \<Rightarrow> Inl WOULD_BLOCK
      | TIMEOUT_INFINITE \<Rightarrow> Inr (TIMEOUT_INFINITE, None)
      | _ \<Rightarrow> if \<not> measured \<or> tv_sec requested < tv_sec spent \<or> tv_sec requested = tv_sec spent \<and> tv_nsec requested \<le> tv_nsec spent
             then Inl TIMED_OUT else Inr (TIMEOUT_CONTINUE, Some (time_left requested spent)))"

text \<open>
  What happens while a thread waits: what others do to the control block, the error of the futex
  call, and the clock before and after it.
\<close>

record wait_event =
  weOthers :: "cblk \<Rightarrow> cblk"
  weErrno :: int
  weBefore :: timespec
  weAfter :: timespec

definition add_elapsed :: "timespec \<Rightarrow> timespec \<Rightarrow> timespec \<Rightarrow> timespec" where
  "add_elapsed spent before after =
     (let sec = tv_sec spent + (tv_sec after - tv_sec before); deltaNs = tv_nsec after - tv_nsec before;
          (sec, deltaNs) = (if deltaNs < 0 then (sec - 1, deltaNs + 1000000000) else (sec, deltaNs));
          nsec = tv_nsec spent + deltaNs
      in if 1000000000 \<le> nsec then \<lparr>tv_sec = sec + 1, tv_nsec = nsec - 1000000000\<rparr> else \<lparr>tv_sec = sec, tv_nsec = nsec\<rparr>)"

definition benign_errno :: "int \<Rightarrow> bool" where
  "benign_errno e \<longleftrightarrow> e \<in> {0, 11, 4, 110}"

text \<open>
  The wait: the wake flag is taken; if it was set the thread does not sleep. The result is the new
  control block, the time so far, the start of the measurement, and an unexpected error.
\<close>

definition futex_wait :: "bool \<Rightarrow> wait_event \<Rightarrow> timespec \<Rightarrow> timespec option \<Rightarrow> cblk \<Rightarrow> cblk \<times> timespec \<times> timespec option \<times> int option" where
  "futex_wait measured e spent before cb =
     (let old = mFutex cb; cb = cb\<lparr>mFutex := old AND NOT CBLK_FUTEX_WAKE\<rparr>
      in if old AND CBLK_FUTEX_WAKE \<noteq> 0 then (weOthers e cb, spent, before, None)
         else let start = (case before of None \<Rightarrow> weBefore e | Some b \<Rightarrow> b)
              in (weOthers e cb, if measured then add_elapsed spent start (weAfter e) else spent, if measured then Some (weAfter e) else before,
                  if benign_errno (weErrno e) then None else Some (weErrno e)))"

text \<open>A call that is fatal, still waits after the given events, or has returned.\<close>

datatype 'a outcome = Fatal | Waiting | Returned 'a

fun obtain_loop :: "(u32 \<Rightarrow> u32 \<Rightarrow> u32) \<Rightarrow> bool \<Rightarrow> timespec \<Rightarrow> nat \<Rightarrow> timeout \<Rightarrow> bool \<Rightarrow> timespec \<Rightarrow> timespec option \<Rightarrow> wait_event list
    \<Rightarrow> client_proxy \<Rightarrow> cblk \<Rightarrow> (track_status \<times> proxy_buffer \<times> timespec \<times> client_proxy \<times> cblk) outcome" where
  "obtain_loop sub measured requested ask timeout ignore spent before events c cb =
     (case client_pass sub ignore ask c cb of
        (Inl (st, buffer, c), cb) \<Rightarrow> Returned (st, buffer, spent, c, cb)
      | (Inr _, cb) \<Rightarrow>
          (case next_wait measured timeout requested spent of
             Inl st \<Rightarrow> Returned (st, no_buffer, spent, c\<lparr>mUnreleased := 0\<rparr>, cb)
           | Inr (timeout, _) \<Rightarrow>
               (case events of
                  [] \<Rightarrow> Waiting
                | e # events \<Rightarrow>
                    (case futex_wait measured e spent before cb of
                       (cb, spent, before, None) \<Rightarrow> obtain_loop sub measured requested ask timeout False spent before events c cb
                     | (cb, spent, before, Some err) \<Rightarrow> Returned (Unexpected err, no_buffer, spent, c\<lparr>mUnreleased := 0\<rparr>, cb)))))"

declare obtain_loop.simps [simp del]

definition client_obtainBuffer :: "(u32 \<Rightarrow> u32 \<Rightarrow> u32) \<Rightarrow> nat \<Rightarrow> timespec option \<Rightarrow> bool \<Rightarrow> wait_event list \<Rightarrow> client_proxy \<Rightarrow> cblk
    \<Rightarrow> (track_status \<times> proxy_buffer \<times> timespec \<times> client_proxy \<times> cblk) outcome" where
  "client_obtainBuffer sub ask requested wants_elapsed events c cb =
     (let zero = \<lparr>tv_sec = 0, tv_nsec = 0\<rparr>
      in if ask = 0 then Fatal
         else if mIsShutdown c then Returned (TS_NO_INIT, no_buffer, zero, c\<lparr>mUnreleased := 0\<rparr>, cb)
         else obtain_loop sub (measures wants_elapsed requested) (case requested of None \<Rightarrow> zero | Some r \<Rightarrow> r) ask (timeout_of requested) True zero None events c cb)"

subsection \<open>The other operations of the client\<close>

text \<open>\<open>releaseBuffer\<close> of the client; on success the buffer stays as it is.\<close>

definition client_releaseBuffer :: "proxy_buffer \<Rightarrow> client_proxy \<times> cblk \<Rightarrow> (proxy_buffer \<times> client_proxy \<times> cblk) option" where
  "client_releaseBuffer buffer = (\<lambda>(c, cb).
     (let stepCount = bfFrameCount buffer
      in if stepCount = 0 \<or> mIsShutdown c then Some (no_buffer, c, cb)
         else if \<not> (stepCount \<le> mUnreleased c \<and> mUnreleased c \<le> mFrameCount c) then None
         else Some (buffer, c\<lparr>mUnreleased := mUnreleased c - stepCount\<rparr>,
                    if mIsOut c then cb\<lparr>mRear := word_of_nat stepCount + mRear cb\<rparr> else cb\<lparr>mFront := word_of_nat stepCount + mFront cb\<rparr>)))"

definition wake_futex :: "cblk \<Rightarrow> cblk" where
  "wake_futex cb = cb\<lparr>mFutex := mFutex cb OR CBLK_FUTEX_WAKE\<rparr>"

definition set_flag_and_wake :: "u32 \<Rightarrow> cblk \<Rightarrow> cblk" where
  "set_flag_and_wake flag cb =
     (let old = mFlags cb; cb = cb\<lparr>mFlags := old OR flag\<rparr> in if old AND flag = 0 then wake_futex cb else cb)"

definition proxy_binderDied :: "cblk \<Rightarrow> cblk" where
  "proxy_binderDied cb = set_flag_and_wake CBLK_INVALID cb"

definition interrupt :: "cblk \<Rightarrow> cblk" where
  "interrupt cb = set_flag_and_wake CBLK_INTERRUPT cb"

definition getMisalignment :: "client_proxy \<Rightarrow> cblk \<Rightarrow> nat" where
  "getMisalignment c cb = unat ((word_of_nat (mFrameCountP2 c) - (if mIsOut c then mRear cb else mFront cb)) AND (word_of_nat (mFrameCountP2 c) - 1))"

definition getPosition :: "client_proxy \<Rightarrow> cblk \<Rightarrow> u32" where
  "getPosition c cb = mEpoch c + cbServer cb"

definition setEpoch :: "u32 \<Rightarrow> client_proxy \<Rightarrow> client_proxy" where
  "setEpoch epoch c = c\<lparr>mEpoch := epoch\<rparr>"

definition setMinimum :: "nat \<Rightarrow> cblk \<Rightarrow> cblk" where
  "setMinimum minimum cb = cb\<lparr>mMinimum := word_of_nat (if 4294967295 < minimum then 4294967295 else minimum)\<rparr>"

text \<open>
  \<open>flush\<close> and \<open>stop\<close>: a mark has the low bits of the rear position and a counter in the bits above.
\<close>

definition overflow_bit :: "'a proxy_scheme \<Rightarrow> u32" where
  "overflow_bit p = word_of_nat (mFrameCountP2 p * 2)"

definition low_mask :: "'a proxy_scheme \<Rightarrow> u32" where
  "low_mask p = overflow_bit p - 1"

definition next_mark :: "u32 \<Rightarrow> u32 \<Rightarrow> client_proxy \<Rightarrow> u32" where
  "next_mark mark rear c = (rear AND low_mask c) OR ((mark AND NOT (low_mask c)) + overflow_bit c)"

definition sendStreamingFlushStop :: "bool \<Rightarrow> client_proxy \<Rightarrow> cblk \<Rightarrow> cblk" where
  "sendStreamingFlushStop flush c cb =
     (let cb = cb\<lparr>mStop := next_mark (mStop cb) (mRear cb) c\<rparr>
      in if flush then cb\<lparr>cbFlush := next_mark (cbFlush cb) (mRear cb) c\<rparr> else cb)"

definition track_flush :: "client_proxy \<Rightarrow> cblk \<Rightarrow> cblk" where
  "track_flush c cb = sendStreamingFlushStop True c cb"

definition track_stop :: "client_proxy \<Rightarrow> cblk \<Rightarrow> cblk" where
  "track_stop c cb = sendStreamingFlushStop False c cb"

definition clearStreamEndDone :: "cblk \<Rightarrow> bool \<times> cblk" where
  "clearStreamEndDone cb = (mFlags cb AND CBLK_STREAM_END_DONE \<noteq> 0, cb\<lparr>mFlags := mFlags cb AND NOT CBLK_STREAM_END_DONE\<rparr>)"

definition getStreamEndDone :: "cblk \<Rightarrow> bool" where
  "getStreamEndDone cb \<longleftrightarrow> mFlags cb AND CBLK_STREAM_END_DONE \<noteq> 0"

text \<open>\<open>waitStreamEndDone\<close>, likewise with the events of the waits.\<close>

definition stream_end_pass :: "cblk \<Rightarrow> track_status option \<times> cblk" where
  "stream_end_pass cb =
     (let flags = mFlags cb; cb = cb\<lparr>mFlags := flags AND NOT (CBLK_INTERRUPT OR CBLK_STREAM_END_DONE)\<rparr>
      in (if flags AND CBLK_INVALID \<noteq> 0 then Some DEAD_OBJECT
          else if flags AND (CBLK_STREAM_END_DONE OR CBLK_DISABLED) \<noteq> 0 then Some TS_OK
          else if flags AND CBLK_INTERRUPT \<noteq> 0 then Some INTERRUPTED
          else None, cb))"

fun stream_end_loop :: "timespec \<Rightarrow> timeout \<Rightarrow> timespec \<Rightarrow> wait_event list \<Rightarrow> cblk \<Rightarrow> (track_status \<times> cblk) outcome" where
  "stream_end_loop requested timeout spent events cb =
     (case stream_end_pass cb of
        (Some st, cb) \<Rightarrow> Returned (st, cb)
      | (None, cb) \<Rightarrow>
          (case next_wait True timeout requested spent of
             Inl st \<Rightarrow> Returned (st, cb)
           | Inr (timeout, _) \<Rightarrow>
               (case events of
                  [] \<Rightarrow> Waiting
                | e # events \<Rightarrow>
                    (case futex_wait False e spent None cb of
                       (cb, _, _, None) \<Rightarrow> stream_end_loop requested timeout spent events cb
                     | (cb, _, _, Some err) \<Rightarrow> Returned (Unexpected err, cb)))))"

declare stream_end_loop.simps [simp del]

definition waitStreamEndDone :: "timespec option \<Rightarrow> wait_event list \<Rightarrow> cblk \<Rightarrow> (track_status \<times> cblk) outcome" where
  "waitStreamEndDone requested events cb =
     (let zero = \<lparr>tv_sec = 0, tv_nsec = 0\<rparr>
      in stream_end_loop (case requested of None \<Rightarrow> zero | Some r \<Rightarrow> r) (timeout_of requested) zero events cb)"

text \<open>\<open>AudioRecordClientProxy::flush\<close>: the number of frames that are skipped.\<close>

definition record_flush :: "cblk \<Rightarrow> u32 \<times> cblk" where
  "record_flush cb = (mRear cb - mFront cb, cb\<lparr>mFront := mRear cb\<rparr>)"

section \<open>The server\<close>

definition new_server :: "nat \<Rightarrow> nat \<Rightarrow> nat \<Rightarrow> bool \<Rightarrow> cblk \<Rightarrow> server_proxy \<times> cblk" where
  "new_server frameCount frameSize frameCountP2 isOut cb =
     (\<lparr>mFrameCount = frameCount, mFrameSize = frameSize, mFrameCountP2 = frameCountP2, mIsOut = isOut, mIsShutdown = False, mUnreleased = 0,
       mAvailToClient = 0, svFlush = 0, mReleased = 0, mFlushed = 0, mStopLast = 0, mUnderrunCount = 0, mUnderrunning = False\<rparr>,
      cb\<lparr>cbBufferSize := word_of_nat frameCount\<rparr>)"

definition flushBufferIfNeeded :: "(u32 \<Rightarrow> u32 \<Rightarrow> u32) \<Rightarrow> server_proxy \<times> cblk \<Rightarrow> server_proxy \<times> cblk" where
  "flushBufferIfNeeded sub = (\<lambda>(p, cb).
     (let flush = cbFlush cb
      in if flush = svFlush p then (p, cb)
         else let rear = mRear cb; front = mFront cb; mask = low_mask p;
                  newFront = (front AND NOT mask) OR (flush AND mask); filled = sint (sub rear newFront);
                  (newFront, filled) = (if int (mFrameCountP2 p * 2) \<le> filled then (newFront + overflow_bit p, filled - int (mFrameCountP2 p * 2)) else (newFront, filled));
                  newFront = (if \<not> filled_ok filled p then rear else newFront)
              in (p\<lparr>svFlush := flush, mFlushed := mFlushed p + int (unat ((newFront - front) AND mask))\<rparr>, wake_futex (cb\<lparr>mFront := newFront\<rparr>))))"

definition getRear :: "(u32 \<Rightarrow> u32 \<Rightarrow> u32) \<Rightarrow> server_proxy \<Rightarrow> cblk \<Rightarrow> u32" where
  "getRear sub p cb =
     (let stop = mStop cb; rear = mRear cb; stopLast = mStopLast p
      in if stop = stopLast then rear
         else let front = mFront cb; mask = low_mask p;
                  newRear = (rear AND NOT mask) OR (stop AND mask); filled = sint (sub newRear front);
                  (newRear, filled) = (if int (mFrameCountP2 p * 2) \<le> filled then (newRear - overflow_bit p, filled - int (mFrameCountP2 p * 2)) else (newRear, filled))
              in if filled_ok filled p then newRear else rear)"

definition server_start :: "server_proxy \<times> cblk \<Rightarrow> server_proxy" where
  "server_start = (\<lambda>(p, cb). p\<lparr>mStopLast := mStop cb\<rparr>)"

text \<open>\<open>obtainBuffer\<close> of the server, with the positions that it has loaded.\<close>

definition server_chunk :: "(u32 \<Rightarrow> u32 \<Rightarrow> u32) \<Rightarrow> u32 \<Rightarrow> u32 \<Rightarrow> nat \<Rightarrow> bool \<Rightarrow> server_proxy \<Rightarrow> track_status \<times> proxy_buffer \<times> server_proxy" where
  "server_chunk sub front rear ask ackFlush p =
     (let filled = sint (sub rear front)
      in if \<not> filled_ok filled p then no_frames TS_NO_INIT (p\<lparr>mIsShutdown := True\<rparr>)
         else let availToServer = (if mIsOut p then nat filled else mFrameCount p - nat filled);
                  p = p\<lparr>mAvailToClient := (if mIsOut p then mFrameCount p - nat filled else nat filled)\<rparr>;
                  buffer = first_chunk (if mIsOut p then front else rear) availToServer ask p;
                  p = (if ackFlush then p else p\<lparr>mUnreleased := bfFrameCount buffer\<rparr>)
              in (if 0 < bfFrameCount buffer then TS_OK else WOULD_BLOCK, buffer, p))"

definition server_obtainBuffer :: "(u32 \<Rightarrow> u32 \<Rightarrow> u32) \<Rightarrow> nat \<Rightarrow> bool \<Rightarrow> server_proxy \<times> cblk \<Rightarrow> (track_status \<times> proxy_buffer \<times> server_proxy \<times> cblk) option" where
  "server_obtainBuffer sub ask ackFlush = (\<lambda>(p, cb).
     (if ask = 0 then None
      else if mIsShutdown p then (case no_frames TS_NO_INIT p of (st, buffer, p) \<Rightarrow> Some (st, buffer, p, cb))
      else let (p, cb) = (if mIsOut p then flushBufferIfNeeded sub (p, cb) else (p, cb));
               rear = (if mIsOut p then getRear sub p cb else mRear cb)
           in case server_chunk sub (mFront cb) rear ask ackFlush p of (st, buffer, p) \<Rightarrow> Some (st, buffer, p, cb)))"

definition server_releaseBuffer :: "proxy_buffer \<Rightarrow> server_proxy \<times> cblk \<Rightarrow> (proxy_buffer \<times> server_proxy \<times> cblk) option" where
  "server_releaseBuffer buffer = (\<lambda>(p, cb).
     (let stepCount = bfFrameCount buffer
      in if stepCount = 0 \<or> mIsShutdown p then Some (no_buffer, p, cb)
         else if \<not> (stepCount \<le> mUnreleased p \<and> mUnreleased p \<le> mFrameCount p) then None
         else let p = p\<lparr>mUnreleased := mUnreleased p - stepCount\<rparr>;
                  cb = (if mIsOut p then cb\<lparr>mFront := word_of_nat stepCount + mFront cb\<rparr> else cb\<lparr>mRear := word_of_nat stepCount + mRear cb\<rparr>);
                  cb = cb\<lparr>cbServer := cbServer cb + word_of_nat stepCount\<rparr>; p = p\<lparr>mReleased := mReleased p + int stepCount\<rparr>;
                  half = (if mFrameCount p div 2 = 0 then 1 else mFrameCount p div 2);
                  minimum = unat (mMinimum cb);
                  minimum = (if minimum = 0 then if mIsOut p then half else 1 else if half < minimum then half else minimum)
              in Some (no_buffer, p, if \<not> mIsOut p \<or> minimum \<le> mAvailToClient p + stepCount then wake_futex cb else cb)))"

definition framesReady :: "(u32 \<Rightarrow> u32 \<Rightarrow> u32) \<Rightarrow> server_proxy \<times> cblk \<Rightarrow> (nat \<times> server_proxy) option" where
  "framesReady sub = (\<lambda>(p, cb).
     (if \<not> mIsOut p then None
      else if mIsShutdown p then Some (0, p)
      else if cbFlush cb \<noteq> svFlush p then Some (mFrameCount p, p)
      else let filled = sint (sub (getRear sub p cb) (mFront cb))
           in if \<not> filled_ok filled p then Some (0, p\<lparr>mIsShutdown := True\<rparr>) else Some (nat filled, p)))"

definition framesReadySafe :: "(u32 \<Rightarrow> u32 \<Rightarrow> u32) \<Rightarrow> server_proxy \<times> cblk \<Rightarrow> nat" where
  "framesReadySafe sub = (\<lambda>(p, cb).
     (if mIsShutdown p then 0
      else if cbFlush cb \<noteq> svFlush p then mFrameCount p
      else let filled = sint (sub (getRear sub p cb) (mFront cb)) in if \<not> filled_ok filled p then 0 else nat filled))"

definition record_framesReadySafe :: "(u32 \<Rightarrow> u32 \<Rightarrow> u32) \<Rightarrow> server_proxy \<times> cblk \<Rightarrow> nat" where
  "record_framesReadySafe sub = (\<lambda>(p, cb).
     (if mIsShutdown p then 0
      else let filled = sint (sub (mRear cb) (mFront cb)) in if \<not> filled_ok filled p then 0 else nat filled))"

text \<open>The server sets the flag of the stream end; the futex call that follows does not touch the wake flag.\<close>

definition setStreamEndDone :: "cblk \<Rightarrow> bool \<times> cblk" where
  "setStreamEndDone cb = (mFlags cb AND CBLK_STREAM_END_DONE \<noteq> 0, cb\<lparr>mFlags := mFlags cb OR CBLK_STREAM_END_DONE\<rparr>)"

definition tallyUnderrunFrames :: "u32 \<Rightarrow> server_proxy \<times> cblk \<Rightarrow> server_proxy \<times> cblk" where
  "tallyUnderrunFrames frameCount = (\<lambda>(p, cb).
     (if 0 < frameCount
      then let cb = cb\<lparr>mUnderrunFrames := mUnderrunFrames cb + frameCount\<rparr>;
               (p, cb) = (if \<not> mUnderrunning p
                          then (p\<lparr>mUnderrunCount := mUnderrunCount p + 1, mUnderrunning := True\<rparr>, cb\<lparr>cbUnderrunCount := mUnderrunCount p + 1\<rparr>)
                          else (p, cb))
           in (p, cb\<lparr>mFlags := mFlags cb OR CBLK_UNDERRUN\<rparr>)
      else (p\<lparr>mUnderrunning := False\<rparr>, cb)))"

end
