(* ===== verification/Track_Stream.thy ===== *)
theory Track_Stream
  imports Track_Proxy "HOL-Library.Sublist"
begin

unbundle bit_operations_syntax

text \<open>
  A streaming track as a queue. Positions in the control block are words of positions that never
  wrap; flushing and stopping are marks at such positions. What the server plays is what the client
  wrote, in order and without what was flushed; neither side ever leaves the ring, whatever the
  other side writes to the control block.
\<close>

section \<open>Positions\<close>

text \<open>What the code relies on: \<open>safe_sub_overflow\<close> wraps, and the ring is a power of two that is not too large.\<close>

definition wraps :: "(u32 \<Rightarrow> u32 \<Rightarrow> u32) \<Rightarrow> bool" where
  "wraps sub \<longleftrightarrow> (\<forall>a b. sub a b = a - b)"

definition ring_ok :: "'a proxy_scheme \<Rightarrow> bool" where
  "ring_ok p \<longleftrightarrow> (\<exists>e\<le>29. mFrameCountP2 p = 2 ^ e) \<and> 0 < mFrameCount p \<and> mFrameCount p \<le> mFrameCountP2 p \<and> 0 < mFrameSize p"

lemma ring_okE:
  assumes "ring_ok p"
  obtains e where "e \<le> 29" "mFrameCountP2 p = 2 ^ e" "mFrameCountP2 p \<le> 2 ^ 29" "0 < mFrameCount p" "mFrameCount p \<le> mFrameCountP2 p" "0 < mFrameSize p"
proof -
  obtain e where "e \<le> 29" "mFrameCountP2 p = 2 ^ e" "0 < mFrameCount p" "mFrameCount p \<le> mFrameCountP2 p" "0 < mFrameSize p"
    using assms by (auto simp: ring_ok_def)
  moreover have "(2 :: nat) ^ e \<le> 2 ^ 29" using \<open>e \<le> 29\<close> by (rule power_increasing) simp
  ultimately show thesis using that by simp
qed

lemma sint_diff:
  assumes "F \<le> R" "R - F < 2 ^ 31"
  shows "sint (word_of_nat R - word_of_nat F :: u32) = int (R - F)"
proof -
  have "word_of_nat R - word_of_nat F = (word_of_nat (R - F) :: u32)" using assms(1) by (simp add: of_nat_diff)
  moreover have "sint (word_of_nat (R - F) :: u32) = int (R - F)"
    using assms(2) by (simp add: signed_of_nat signed_take_bit_int_eq_self)
  ultimately show ?thesis by simp
qed

lemma low_bits: "n \<le> 32 \<Longrightarrow> word_of_nat k AND mask n = (word_of_nat (k mod 2 ^ n) :: u32)"
  by (simp add: take_bit_eq_mask [symmetric] take_bit_of_nat) (simp add: take_bit_eq_mod)

lemma unat_low_bits: "n \<le> 32 \<Longrightarrow> unat (word_of_nat k AND mask n :: u32) = k mod 2 ^ n"
  by (simp add: take_bit_eq_mask [symmetric] unsigned_take_bit_eq unsigned_of_nat min_absorb1) (simp add: take_bit_eq_mod)

lemma ring_index_mod:
  assumes "ring_ok p"
  shows "ring_index (word_of_nat k) p = k mod mFrameCountP2 p"
proof -
  obtain e where e: "e \<le> 29" "mFrameCountP2 p = 2 ^ e" using assms by (rule ring_okE)
  have "word_of_nat (mFrameCountP2 p) - 1 = (mask e :: u32)" using e by (simp add: mask_eq_exp_minus_1)
  then show ?thesis using e by (simp add: ring_index_def unat_low_bits)
qed

lemma low_mask_mask:
  assumes "e \<le> 29" "mFrameCountP2 p = 2 ^ e"
  shows "low_mask p = mask (Suc e)"
  using assms by (simp add: low_mask_def overflow_bit_def mask_eq_exp_minus_1)

text \<open>Putting the low bits of one position under the high bits of another.\<close>

lemma high_low: "(x AND NOT (mask n)) + (y AND mask n) = ((x AND NOT (mask n)) OR (y AND mask n) :: u32)"
  by (rule disjunctive_add_eq_or) (simp add: bit_eq_iff bit_simps)

lemma high_bits: "x AND NOT (mask n) = (x - (x AND mask n) :: u32)"
proof -
  have "(x AND NOT (mask n)) OR (x AND mask n) = x" by (auto simp: bit_eq_iff bit_simps)
  then show ?thesis using high_low [of x n x] by (simp add: algebra_simps)
qed

lemma rebase:
  assumes "n \<le> 32" "mark AND mask n = (word_of_nat b AND mask n :: u32)"
  shows "(word_of_nat a AND NOT (mask n)) OR (mark AND mask n) = (word_of_nat (a - a mod 2 ^ n + b mod 2 ^ n) :: u32)"
proof -
  have "(word_of_nat a AND NOT (mask n)) = (word_of_nat (a - a mod 2 ^ n) :: u32)"
    unfolding high_bits low_bits [OF assms(1)] by (simp add: of_nat_diff)
  moreover have "mark AND mask n = (word_of_nat (b mod 2 ^ n) :: u32)" unfolding assms(2) by (rule low_bits [OF assms(1)])
  ultimately show ?thesis unfolding high_low [symmetric] of_nat_add by simp
qed

text \<open>Two positions that are at most a ring apart lie in the same or in neighbouring blocks.\<close>

lemma blocks:
  fixes a b M :: nat
  assumes "a \<le> b" "b - a < M"
  shows "a - a mod M + b mod M = b \<or> a - a mod M + b mod M + M = b" "b - b mod M + a mod M = a \<or> b - b mod M + a mod M = a + M"
proof -
  have M: "0 < M" using assms by simp
  have d: "b div M = a div M \<or> b div M = Suc (a div M)"
  proof -
    have "a div M \<le> b div M" using assms(1) by (rule div_le_mono)
    moreover have "b div M \<le> (a + M) div M" using assms by (intro div_le_mono) simp
    moreover have "(a + M) div M = Suc (a div M)" using M by (simp add: div_add_self2)
    ultimately show ?thesis by linarith
  qed
  have e: "a - a mod M = M * (a div M)" "b - b mod M = M * (b div M)" by (simp_all add: minus_mod_eq_mult_div)
  have f: "M * (a div M) + a mod M = a" "M * (b div M) + b mod M = b" by simp_all
  show "a - a mod M + b mod M = b \<or> a - a mod M + b mod M + M = b" unfolding e using d f(2) by (metis add.commute mult_Suc_right add.left_commute)
  show "b - b mod M + a mod M = a \<or> b - b mod M + a mod M = a + M" unfolding e using d f(1) by (metis add.commute mult_Suc_right add.left_commute)
qed

text \<open>A mark stands for a position.\<close>

definition marks :: "u32 \<Rightarrow> nat \<Rightarrow> 'a proxy_scheme \<Rightarrow> bool" where
  "marks mark k p \<longleftrightarrow> mark AND low_mask p = word_of_nat k AND low_mask p"

lemma low_bits_step:
  assumes "n \<le> 32"
  shows "(x + 2 ^ n) AND mask n = (x AND mask n :: u32)"
proof -
  have "x + 2 ^ n = word_of_nat (unat x + 2 ^ n)" by simp
  then show ?thesis using low_bits [OF assms, of "unat x + 2 ^ n"] low_bits [OF assms, of "unat x"] by simp
qed

lemma next_mark_eq:
  assumes "e \<le> 29" "mFrameCountP2 c = 2 ^ e"
  shows "next_mark mark rear c = ((mark + 2 ^ Suc e) AND NOT (mask (Suc e))) OR (rear AND mask (Suc e))"
proof -
  have "(mark AND NOT (mask (Suc e))) + 2 ^ Suc e = (mark + 2 ^ Suc e) AND NOT (mask (Suc e))"
    unfolding high_bits using low_bits_step [of "Suc e" mark] assms(1) by (simp only:) (simp add: algebra_simps)
  moreover have "overflow_bit c = 2 ^ Suc e" using assms by (simp add: overflow_bit_def mult.commute)
  ultimately show ?thesis using assms by (simp only: next_mark_def low_mask_mask or.commute)
qed

lemma next_mark_marks: "ring_ok c \<Longrightarrow> marks (next_mark mark (word_of_nat k) c) k c"
  by (erule ring_okE) (auto simp: marks_def next_mark_eq low_mask_mask bit_eq_iff bit_simps)

lemma next_mark_new:
  assumes "ring_ok c"
  shows "next_mark mark rear c \<noteq> mark"
proof
  obtain e where e: "e \<le> 29" "mFrameCountP2 c = 2 ^ e" using assms by (rule ring_okE)
  assume "next_mark mark rear c = mark"
  then have "next_mark mark rear c AND NOT (mask (Suc e)) = mark AND NOT (mask (Suc e))" by simp
  moreover have "next_mark mark rear c AND NOT (mask (Suc e)) = (mark + 2 ^ Suc e) AND NOT (mask (Suc e))"
    by (auto simp: next_mark_eq [OF e] bit_eq_iff bit_simps)
  ultimately have "mark + 2 ^ Suc e = mark"
    unfolding high_bits using low_bits_step [of "Suc e" mark] e(1) by (simp only:) (simp add: algebra_simps)
  then have "(2 ^ Suc e :: u32) = 0" by (simp only: add_cancel_left_right)
  then show False using e(1) by (simp only: exp_eq_zero_iff) simp
qed

section \<open>Flushing and stopping\<close>

lemma marked_position:
  assumes "e \<le> 29" "mFrameCountP2 p = 2 ^ e" "marks mark k p"
  shows "(word_of_nat a AND NOT (low_mask p)) OR (mark AND low_mask p) = word_of_nat (a - a mod 2 ^ Suc e + k mod 2 ^ Suc e)"
  using rebase [of "Suc e" mark k a] assms by (simp add: marks_def low_mask_mask)

text \<open>A block is twice the ring.\<close>

lemma ring_block:
  assumes "ring_ok p"
  obtains e M where "e \<le> 29" "mFrameCountP2 p = 2 ^ e" "M = 2 ^ Suc e" "mFrameCountP2 p * 2 = M" "mFrameCount p < M" "M + mFrameCount p < 2 ^ 31"
proof -
  obtain e where e: "e \<le> 29" "mFrameCountP2 p = 2 ^ e" "mFrameCountP2 p \<le> 2 ^ 29" "mFrameCount p \<le> mFrameCountP2 p" using assms by (rule ring_okE)
  have "0 < mFrameCountP2 p" using e(2) by simp
  then have "mFrameCount p < mFrameCountP2 p * 2" "mFrameCountP2 p * 2 + mFrameCount p < 2 ^ 31" using e(3,4) by simp_all
  then show thesis using that [of e "2 ^ Suc e"] e(1,2) by (simp add: mult.commute)
qed

lemma filled_ok_nat: "filled_ok (int n) p \<longleftrightarrow> n \<le> mFrameCount p"
  by (simp add: filled_ok_def)

lemma getRear_spec:
  assumes ring: "ring_ok p" and sub: "wraps sub" and front: "mFront cb = word_of_nat F" and rear: "mRear cb = word_of_nat R"
    and filled: "F \<le> R" "R \<le> F + mFrameCount p"
    and stop: "mStop cb \<noteq> mStopLast p \<Longrightarrow> marks (mStop cb) St p \<and> F \<le> St \<and> St \<le> R"
  shows "getRear sub p cb = word_of_nat (if mStop cb = mStopLast p then R else St)"
proof (cases "mStop cb = mStopLast p")
  case True
  then show ?thesis using rear by (simp add: getRear_def)
next
  case False
  obtain e M where e: "e \<le> 29" "mFrameCountP2 p = 2 ^ e" and M_def: "M = 2 ^ Suc e"
    and M: "mFrameCountP2 p * 2 = M" "mFrameCount p < M" "M + mFrameCount p < 2 ^ 31" using ring by (rule ring_block)
  define N where "N = R - R mod M + St mod M"
  have St: "marks (mStop cb) St p" "F \<le> St" "St \<le> R" using stop False by simp_all
  have "N = St \<or> N = St + M" unfolding N_def using blocks(2) [of St R M] St filled M(2) by linarith
  moreover have "(mRear cb AND NOT (low_mask p)) OR (mStop cb AND low_mask p) = word_of_nat N"
    unfolding N_def M_def rear by (rule marked_position [OF e(1,2) St(1)])
  moreover have "sint (word_of_nat (St + d) - word_of_nat F :: u32) = int (St + d - F)" if "d \<le> M" for d
    by (rule sint_diff) (use St filled M(3) that in linarith)+
  from this [of 0] this [of M] have "sint (word_of_nat St - word_of_nat F :: u32) = int (St - F)"
    "sint (word_of_nat (St + M) - word_of_nat F :: u32) = int (St + M - F)" by simp_all
  moreover have "overflow_bit p = word_of_nat M" by (simp add: overflow_bit_def M(1))
  ultimately show ?thesis using False St filled M sub
    by (auto simp: getRear_def Let_def wraps_def front filled_ok_def of_nat_diff)
qed

lemma flushBuffer_spec:
  assumes ring: "ring_ok p" and sub: "wraps sub" and front: "mFront cb = word_of_nat F" and rear: "mRear cb = word_of_nat R"
    and filled: "R \<le> F + mFrameCount p"
    and flush: "cbFlush cb \<noteq> svFlush p" "marks (cbFlush cb) Fl p" "F \<le> Fl" "Fl \<le> R"
  shows "flushBufferIfNeeded sub (p, cb) =
    (p\<lparr>svFlush := cbFlush cb, mFlushed := mFlushed p + int (Fl - F)\<rparr>, wake_futex (cb\<lparr>mFront := word_of_nat Fl\<rparr>))"
proof -
  obtain e M where e: "e \<le> 29" "mFrameCountP2 p = 2 ^ e" and M_def: "M = 2 ^ Suc e"
    and M: "mFrameCountP2 p * 2 = M" "mFrameCount p < M" "M + mFrameCount p < 2 ^ 31" using ring by (rule ring_block)
  define N where "N = F - F mod M + Fl mod M"
  have N: "N = Fl \<or> N + M = Fl" unfolding N_def using blocks(1) [of F Fl M] flush(3,4) filled M(2) by linarith
  have new: "(word_of_nat F AND NOT (low_mask p)) OR (cbFlush cb AND low_mask p) = word_of_nat N"
    unfolding N_def M_def by (rule marked_position [OF e flush(2)])
  have left: "sint (word_of_nat R - word_of_nat N :: u32) = int (R - N)"
    by (rule sint_diff) (use flush(3,4) filled M(3) N in linarith)+
  have "word_of_nat N + overflow_bit p = (word_of_nat (N + M) :: u32)" by (simp add: overflow_bit_def M(1))
  moreover have "int M \<le> int (R - N) \<longleftrightarrow> N \<noteq> Fl" "(if N \<noteq> Fl then int (R - N) - int M else int (R - N)) = int (R - Fl)"
    "N \<noteq> Fl \<Longrightarrow> N + M = Fl"
    using N flush(3,4) filled M(2) by auto
  ultimately have pick: "(if int M \<le> int (R - N) then (word_of_nat N + overflow_bit p, int (R - N) - int M) else (word_of_nat N, int (R - N)))
    = (word_of_nat Fl :: u32, int (R - Fl))"
    by (cases "N = Fl") auto
  have "word_of_nat Fl - word_of_nat F = (word_of_nat (Fl - F) :: u32)" using flush(3) by (simp add: of_nat_diff)
  then have dropped: "unat ((word_of_nat Fl - word_of_nat F) AND low_mask p) = Fl - F"
    using e flush(3,4) filled M(2) unat_low_bits [of "Suc e" "Fl - F"] by (simp add: low_mask_mask M_def)
  have "filled_ok (int (R - Fl)) p" using flush(3,4) filled by (simp add: filled_ok_def)
  moreover have "sub a b = a - b" for a b using sub by (simp add: wraps_def)
  ultimately show ?thesis using flush(1)
    by (simp only: flushBufferIfNeeded_def Let_def prod.case front rear new left M(1) pick dropped if_False not_True_eq_False if_not_P)
qed

section \<open>Regions\<close>

lemma ring_index_less: "ring_ok p \<Longrightarrow> ring_index position p < mFrameCountP2 p"
  using ring_index_mod [of p "unat position"] by (auto elim: ring_okE)

lemma first_chunk_index:
  assumes "ring_ok p"
  defines "b \<equiv> \<lambda>position avail ask. first_chunk position avail ask p"
  shows "ring_index position p + bfFrameCount (b position avail ask) \<le> mFrameCountP2 p"
    "bfFrameCount (b position avail ask) \<le> avail" "bfFrameCount (b position avail ask) \<le> ask"
    "0 < bfFrameCount (b position avail ask) \<longleftrightarrow> 0 < avail \<and> 0 < ask"
    "bfRaw (b position avail ask) = (if 0 < bfFrameCount (b position avail ask) then Some (ring_index position p * mFrameSize p) else None)"
    "bfNonContig (b position avail ask) = avail - bfFrameCount (b position avail ask)"
  using ring_index_less [OF assms(1), of position] by (auto simp: b_def first_chunk_def Let_def)

text \<open>A region is a run of whole frames of the ring, never more than the nominal size.\<close>

definition region_ok :: "'a proxy_scheme \<Rightarrow> proxy_buffer \<Rightarrow> bool" where
  "region_ok p b \<longleftrightarrow> bfFrameCount b \<le> mFrameCount p
     \<and> (case bfRaw b of None \<Rightarrow> bfFrameCount b = 0
        | Some off \<Rightarrow> 0 < bfFrameCount b \<and> off mod mFrameSize p = 0 \<and> off + bfFrameCount b * mFrameSize p \<le> mFrameCountP2 p * mFrameSize p)"

lemma no_buffer_region: "region_ok p no_buffer"
  by (simp add: region_ok_def no_buffer_def)

lemma first_chunk_region:
  assumes "ring_ok p" "avail \<le> mFrameCount p"
  shows "region_ok p (first_chunk position avail ask p)"
proof -
  let ?b = "first_chunk position avail ask p"
  have "(ring_index position p + bfFrameCount ?b) * mFrameSize p \<le> mFrameCountP2 p * mFrameSize p"
    using first_chunk_index(1) [OF assms(1)] by (rule mult_le_mono1)
  then show ?thesis using first_chunk_index(2) [OF assms(1), of position avail ask] assms(2)
    by (auto simp: region_ok_def first_chunk_index(5) [OF assms(1)] distrib_right)
qed

text \<open>The geometry of the ring, which no operation changes.\<close>

definition same_ring :: "'a proxy_scheme \<Rightarrow> 'b proxy_scheme \<Rightarrow> bool" where
  "same_ring p q \<longleftrightarrow> mFrameCount p = mFrameCount q \<and> mFrameSize p = mFrameSize q \<and> mFrameCountP2 p = mFrameCountP2 q \<and> mIsOut p = mIsOut q"

lemma same_ring_region: "same_ring p q \<Longrightarrow> region_ok p b \<longleftrightarrow> region_ok q b"
  by (auto simp: region_ok_def same_ring_def split: option.split)

lemma same_ring_chunk: "same_ring p q \<Longrightarrow> first_chunk position avail ask p = first_chunk position avail ask q"
  by (simp add: first_chunk_def ring_index_def same_ring_def Let_def)

lemma same_ring_refl [simp]: "same_ring p p"
  by (simp add: same_ring_def)

lemma same_ring_trans: "same_ring p q \<Longrightarrow> same_ring q r \<Longrightarrow> same_ring p r"
  by (simp add: same_ring_def)

lemma same_ring_ok: "same_ring p q \<Longrightarrow> ring_ok p \<Longrightarrow> ring_ok q"
  by (auto simp: ring_ok_def same_ring_def)

text \<open>What may be released after a call: the region that it returned.\<close>

definition grants :: "proxy_buffer \<Rightarrow> 'a proxy_scheme \<Rightarrow> bool" where
  "grants b p \<longleftrightarrow> region_ok p b \<and> mUnreleased p = bfFrameCount b"

lemma no_frames_grants: "no_frames st p = (st', b, q) \<Longrightarrow> grants b q \<and> same_ring p q"
  by (auto simp: no_frames_def grants_def region_ok_def no_buffer_def same_ring_def)

lemma server_chunk_corrupt:
  "\<not> filled_ok (sint (sub rear front)) p \<Longrightarrow> server_chunk sub front rear ask ackFlush p = no_frames TS_NO_INIT (p\<lparr>mIsShutdown := True\<rparr>)"
  by (simp add: server_chunk_def)

lemma server_chunk_filled:
  fixes p :: server_proxy
  defines "b \<equiv> \<lambda>front rear filled ask. first_chunk (if mIsOut p then front else rear) (if mIsOut p then filled else mFrameCount p - filled) ask p"
  assumes "sint (sub rear front) = int filled" "filled \<le> mFrameCount p"
  shows "server_chunk sub front rear ask ackFlush p =
    (if 0 < bfFrameCount (b front rear filled ask) then TS_OK else WOULD_BLOCK, b front rear filled ask,
     p\<lparr>mAvailToClient := (if mIsOut p then mFrameCount p - filled else filled),
       mUnreleased := (if ackFlush then mUnreleased p else bfFrameCount (b front rear filled ask))\<rparr>)"
  using assms(2,3) by (simp add: server_chunk_def b_def filled_ok_def Let_def same_ring_chunk [of "p\<lparr>mAvailToClient := x\<rparr>" p for x] same_ring_def)

lemma server_chunk_grants:
  assumes "ring_ok p" "server_chunk sub front rear ask ackFlush p = (st, b, q)"
  shows "region_ok q b \<and> (ackFlush \<or> mUnreleased q = bfFrameCount b) \<and> same_ring p q"
proof (cases "filled_ok (sint (sub rear front)) p")
  case False
  then show ?thesis using assms(2) no_frames_grants [of TS_NO_INIT "p\<lparr>mIsShutdown := True\<rparr>" st b q]
    by (auto simp: server_chunk_corrupt grants_def same_ring_def)
next
  case True
  then obtain n where n: "sint (sub rear front) = int n" "n \<le> mFrameCount p"
    by (auto simp: filled_ok_def dest: nonneg_int_cases)
  let ?b = "first_chunk (if mIsOut p then front else rear) (if mIsOut p then n else mFrameCount p - n) ask p"
  have b: "b = ?b" and q: "same_ring p q" "ackFlush \<or> mUnreleased q = bfFrameCount ?b"
    using assms(2) unfolding server_chunk_filled [of sub rear front n p, OF n] by (auto simp: same_ring_def split: if_splits)
  have "region_ok p ?b" by (rule first_chunk_region) (use assms(1) n(2) in simp_all)
  then show ?thesis using b q same_ring_region [OF q(1)] by simp
qed

lemma flushBuffer_same_ring: "flushBufferIfNeeded sub (p, cb) = (q, cb') \<Longrightarrow> same_ring p q"
  by (auto simp: flushBufferIfNeeded_def Let_def same_ring_def split: if_splits)

lemma server_obtain_grants:
  assumes "ring_ok p" "server_obtainBuffer sub ask ackFlush (p, cb) = Some (st, b, q, cb')"
  shows "region_ok q b \<and> (ackFlush \<or> mUnreleased q = bfFrameCount b) \<and> same_ring p q"
proof (cases "mIsShutdown p")
  case True
  then show ?thesis using assms(2) no_frames_grants [of TS_NO_INIT p]
    by (auto simp: server_obtainBuffer_def grants_def split: if_splits prod.splits)
next
  case False
  obtain p1 cb1 where f: "(if mIsOut p then flushBufferIfNeeded sub (p, cb) else (p, cb)) = (p1, cb1)" by fastforce
  then have same: "same_ring p p1" using flushBuffer_same_ring by (auto split: if_splits)
  have "server_chunk sub (mFront cb1) (if mIsOut p1 then getRear sub p1 cb1 else mRear cb1) ask ackFlush p1 = (st, b, q)"
    using assms(2) False by (auto simp: server_obtainBuffer_def f Let_def split: if_splits prod.splits)
  from server_chunk_grants [OF same_ring_ok [OF same assms(1)] this] show ?thesis
    using same_ring_trans [OF same] by blast
qed

text \<open>The client.\<close>

definition client_ready :: "client_proxy \<Rightarrow> bool" where
  "client_ready c \<longleftrightarrow> ring_ok c \<and> unat (cpBufferSize c) \<le> mFrameCount c"

lemma client_pass_grants:
  assumes "client_ready c" "client_pass sub ignore ask c cb = (Inl (st, b, d), cb')"
  shows "grants b d \<and> same_ring c d \<and> cpBufferSize d = cpBufferSize c"
proof -
  have chunk: "grants (first_chunk position avail ask c) (c\<lparr>mUnreleased := bfFrameCount (first_chunk position avail ask c)\<rparr>)"
    if "avail \<le> mFrameCount c" for position avail
    using first_chunk_region [of c avail position ask] assms(1) that same_ring_region [of "c\<lparr>mUnreleased := x\<rparr>" c for x]
    by (simp add: grants_def client_ready_def same_ring_def)
  have "nat (int (unat (cpBufferSize c)) - f) \<le> mFrameCount c" if "0 \<le> f" for f
  proof -
    have "int (unat (cpBufferSize c)) \<le> int (mFrameCount c)" using assms(1) by (simp only: client_ready_def of_nat_le_iff)
    then show ?thesis using that by simp
  qed
  then show ?thesis using assms(2) chunk no_frames_grants
    by (auto simp: client_pass_def Let_def filled_ok_def no_frames_def grants_def region_ok_def no_buffer_def same_ring_def split: if_splits)
qed

lemma gives_up_grants:
  assumes "client_ready c"
  shows "grants no_buffer (c\<lparr>mUnreleased := 0\<rparr>)" "same_ring c (c\<lparr>mUnreleased := 0\<rparr>)"
  by (simp_all add: grants_def region_ok_def no_buffer_def same_ring_def)

lemma obtain_loop_grants:
  assumes "client_ready c" "obtain_loop sub measured requested ask timeout ignore spent before events c cb = Returned (st, b, spent', d, cb')"
  shows "grants b d \<and> same_ring c d \<and> cpBufferSize d = cpBufferSize c"
  using assms(2)
proof (induction events arbitrary: timeout ignore spent before cb)
  case Nil
  then show ?case using client_pass_grants [OF assms(1)] gives_up_grants [OF assms(1)]
    by (subst (asm) obtain_loop.simps) (auto split: prod.splits sum.splits)
next
  case (Cons e events)
  show ?case using Cons.prems client_pass_grants [OF assms(1)] gives_up_grants [OF assms(1)] Cons.IH
    by (subst (asm) obtain_loop.simps) (auto split: prod.splits sum.splits option.splits)
qed

lemma client_obtain_grants:
  assumes "client_ready c" "client_obtainBuffer sub ask requested elapsed events c cb = Returned (st, b, spent, d, cb')"
  shows "grants b d \<and> same_ring c d \<and> cpBufferSize d = cpBufferSize c"
  using assms(2) obtain_loop_grants [OF assms(1)] gives_up_grants [OF assms(1)]
  by (auto simp: client_obtainBuffer_def Let_def split: if_splits)

lemma released_at_once:
  assumes "grants b p" "0 < bfFrameCount b"
  shows "bfFrameCount b \<le> mUnreleased p \<and> mUnreleased p \<le> mFrameCount p"
  using assms by (simp add: grants_def region_ok_def)

text \<open>
  C14: neither side trusts the other. Whatever the control block holds, whatever another process does
  to it while the client waits, and whatever the subtraction of positions returns, a buffer that
  \<open>obtainBuffer\<close> hands out is empty or a run of whole frames inside the ring, of at most the nominal
  size, and releasing it at once passes the check of \<open>releaseBuffer\<close>.
\<close>

theorem obtained_regions_inside:
  assumes "ring_ok p" "client_ready c"
  shows "(\<forall>st b q cb' hostile. server_obtainBuffer sub ask False (p, cb) = Some (st, b, q, cb') \<longrightarrow>
        region_ok p b \<and> server_releaseBuffer b (q, hostile) \<noteq> None)
    \<and> (\<forall>st b spent d cb' hostile. client_obtainBuffer sub ask requested elapsed events c cb = Returned (st, b, spent, d, cb') \<longrightarrow>
        region_ok c b \<and> client_releaseBuffer b (d, hostile) \<noteq> None)"
proof (intro conjI allI impI)
  fix st b q cb' hostile
  assume "server_obtainBuffer sub ask False (p, cb) = Some (st, b, q, cb')"
  from server_obtain_grants [OF assms(1) this] have q: "grants b q" and b: "region_ok p b"
    by (auto simp: grants_def dest: same_ring_region)
  show "region_ok p b" by (rule b)
  show "server_releaseBuffer b (q, hostile) \<noteq> None"
    using released_at_once [OF q] by (auto simp: server_releaseBuffer_def Let_def)
next
  fix st b spent d cb' hostile
  assume "client_obtainBuffer sub ask requested elapsed events c cb = Returned (st, b, spent, d, cb')"
  from client_obtain_grants [OF assms(2) this] have d: "grants b d" and b: "region_ok c b"
    by (auto simp: grants_def dest: same_ring_region)
  show "region_ok c b" by (rule b)
  show "client_releaseBuffer b (d, hostile) \<noteq> None"
    using released_at_once [OF d] by (auto simp: client_releaseBuffer_def Let_def)
qed

text \<open>A ring of four frames of two bytes; the rear position is three frames ahead, across the end of the ring.\<close>

definition demo_server :: server_proxy where
  "demo_server = fst (new_server 4 2 4 True new_cblk)"

definition demo_client :: client_proxy where
  "demo_client = fst (new_client 4 2 4 True new_cblk)"

theorem obtained_regions_inside_witness:
  "case server_obtainBuffer (-) 8 False (demo_server, new_cblk\<lparr>mFront := 6, mRear := 9\<rparr>) of
     None \<Rightarrow> False
   | Some (st, b, q, cb) \<Rightarrow> st = TS_OK \<and> region_ok demo_server b \<and> server_releaseBuffer b (q, cb) \<noteq> None"
proof -
  obtain st b q cb where call: "server_obtainBuffer (-) 8 False (demo_server, new_cblk\<lparr>mFront := 6, mRear := 9\<rparr>) = Some (st, b, q, cb)"
    by (cases "server_obtainBuffer (-) 8 False (demo_server, new_cblk\<lparr>mFront := 6, mRear := 9\<rparr>)")
      (auto simp: server_obtainBuffer_def demo_server_def new_server_def Let_def split: prod.splits)
  have "ring_ok demo_server" "client_ready demo_client"
    by (auto simp: ring_ok_def client_ready_def demo_server_def demo_client_def new_server_def new_client_def setBufferSizeInFrames_def Let_def
        intro: exI [of _ 2])
  from obtained_regions_inside [OF this] have "region_ok demo_server b \<and> server_releaseBuffer b (q, cb) \<noteq> None"
    using call by blast
  moreover have "fst (the (server_obtainBuffer (-) 8 False (demo_server, new_cblk\<lparr>mFront := 6, mRear := 9\<rparr>))) = TS_OK" by code_simp
  ultimately show ?thesis using call by simp
qed

end
