(* ===== verification/Track_Queue.thy ===== *)
theory Track_Queue
  imports Track_Stream
begin

unbundle bit_operations_syntax

text \<open>
  A client and the server that play by the rules, with the frames themselves: the steps of both sides
  in any order, the invariant of the shared positions, and the queue that they implement.
\<close>

section \<open>A track\<close>

text \<open>
  The two proxies, the control block and the ring; the buffers that each side holds, and what has
  been released so far: by the client (written) and by the server (played).
\<close>

record 'f track =
  tkC :: client_proxy
  tkS :: server_proxy
  tkCb :: cblk
  tkRing :: "nat \<Rightarrow> 'f"
  tkHeldC :: proxy_buffer
  tkHeldS :: proxy_buffer
  tkWritten :: "'f list"
  tkPlayed :: "'f list"

definition new_track :: "nat \<Rightarrow> nat \<Rightarrow> nat \<Rightarrow> (nat \<Rightarrow> 'f) \<Rightarrow> 'f track" where
  "new_track frameCount frameSize frameCountP2 ring =
     (let (s, cb) = new_server frameCount frameSize frameCountP2 True new_cblk;
          (c, cb) = new_client frameCount frameSize frameCountP2 True cb
      in \<lparr>tkC = c, tkS = s, tkCb = cb, tkRing = ring, tkHeldC = no_buffer, tkHeldS = no_buffer, tkWritten = [], tkPlayed = []\<rparr>)"

text \<open>The frame of the ring at which a region starts, its frames, and what is left of it after \<open>n\<close> frames are released.\<close>

definition first_frame :: "proxy_buffer \<Rightarrow> 'a proxy_scheme \<Rightarrow> nat" where
  "first_frame b p = (case bfRaw b of None \<Rightarrow> 0 | Some off \<Rightarrow> off div mFrameSize p)"

definition frames :: "(nat \<Rightarrow> 'f) \<Rightarrow> nat \<Rightarrow> nat \<Rightarrow> 'f list" where
  "frames ring i n = map ring [i..<i + n]"

definition rest_of :: "nat \<Rightarrow> proxy_buffer \<Rightarrow> 'a proxy_scheme \<Rightarrow> proxy_buffer" where
  "rest_of n b p = b\<lparr>bfFrameCount := bfFrameCount b - n, bfRaw := map_option (\<lambda>off. off + n * mFrameSize p) (bfRaw b)\<rparr>"

text \<open>
  The steps. A pass of the client's loop is one step; the client stores frames anywhere in the
  buffer it holds and may release any part of it. A flush is acknowledged only when the server holds no buffer.
\<close>

inductive track_step :: "(u32 \<Rightarrow> u32 \<Rightarrow> u32) \<Rightarrow> 'f track \<Rightarrow> 'f track \<Rightarrow> bool" for sub where
  c_obtain: "0 < ask \<Longrightarrow> \<not> mIsShutdown (tkC t) \<Longrightarrow> client_pass sub ignore ask (tkC t) (tkCb t) = (Inl (st, b, c), cb) \<Longrightarrow>
    track_step sub t (t\<lparr>tkC := c, tkCb := cb, tkHeldC := b\<rparr>)"
| c_wait: "0 < ask \<Longrightarrow> \<not> mIsShutdown (tkC t) \<Longrightarrow> client_pass sub ignore ask (tkC t) (tkCb t) = (Inr u, cb) \<Longrightarrow>
    track_step sub t (t\<lparr>tkCb := cb\<lparr>mFutex := mFutex cb AND NOT CBLK_FUTEX_WAKE\<rparr>\<rparr>)"
| c_give_up: "track_step sub t (t\<lparr>tkC := (tkC t)\<lparr>mUnreleased := 0\<rparr>, tkHeldC := no_buffer\<rparr>)"
| c_store: "i < bfFrameCount (tkHeldC t) \<Longrightarrow>
    track_step sub t (t\<lparr>tkRing := (tkRing t)(first_frame (tkHeldC t) (tkC t) + i := x)\<rparr>)"
| c_release: "n \<le> bfFrameCount (tkHeldC t) \<Longrightarrow>
    client_releaseBuffer ((tkHeldC t)\<lparr>bfFrameCount := n\<rparr>) (tkC t, tkCb t) = Some (b, c, cb) \<Longrightarrow>
    track_step sub t (t\<lparr>tkC := c, tkCb := cb, tkHeldC := rest_of n (tkHeldC t) c,
      tkWritten := tkWritten t @ frames (tkRing t) (first_frame (tkHeldC t) c) n\<rparr>)"
| c_resize: "setBufferSizeInFrames r (tkC t) (tkCb t) = (got, c, cb) \<Longrightarrow> track_step sub t (t\<lparr>tkC := c, tkCb := cb\<rparr>)"
| c_flush: "track_step sub t (t\<lparr>tkCb := track_flush (tkC t) (tkCb t)\<rparr>)"
| c_stop: "track_step sub t (t\<lparr>tkCb := track_stop (tkC t) (tkCb t)\<rparr>)"
| c_minimum: "track_step sub t (t\<lparr>tkCb := setMinimum m (tkCb t)\<rparr>)"
| c_interrupt: "track_step sub t (t\<lparr>tkCb := interrupt (tkCb t)\<rparr>)"
| c_died: "track_step sub t (t\<lparr>tkCb := proxy_binderDied (tkCb t)\<rparr>)"
| c_end: "stream_end_pass (tkCb t) = (r, cb) \<Longrightarrow> track_step sub t (t\<lparr>tkCb := cb\<rparr>)"
| s_start: "track_step sub t (t\<lparr>tkS := server_start (tkS t, tkCb t)\<rparr>)"
| s_obtain: "server_obtainBuffer sub ask False (tkS t, tkCb t) = Some (st, b, s, cb) \<Longrightarrow>
    track_step sub t (t\<lparr>tkS := s, tkCb := cb, tkHeldS := b\<rparr>)"
| s_ack: "bfFrameCount (tkHeldS t) = 0 \<Longrightarrow> server_obtainBuffer sub ask True (tkS t, tkCb t) = Some (st, b, s, cb) \<Longrightarrow>
    track_step sub t (t\<lparr>tkS := s, tkCb := cb\<rparr>)"
| s_flush: "bfFrameCount (tkHeldS t) = 0 \<Longrightarrow> flushBufferIfNeeded sub (tkS t, tkCb t) = (s, cb) \<Longrightarrow>
    track_step sub t (t\<lparr>tkS := s, tkCb := cb\<rparr>)"
| s_release: "n \<le> bfFrameCount (tkHeldS t) \<Longrightarrow>
    server_releaseBuffer ((tkHeldS t)\<lparr>bfFrameCount := n\<rparr>) (tkS t, tkCb t) = Some (b, s, cb) \<Longrightarrow>
    track_step sub t (t\<lparr>tkS := s, tkCb := cb, tkHeldS := rest_of n (tkHeldS t) s,
      tkPlayed := tkPlayed t @ frames (tkRing t) (first_frame (tkHeldS t) s) n\<rparr>)"
| s_ready: "framesReady sub (tkS t, tkCb t) = Some (n, s) \<Longrightarrow> track_step sub t (t\<lparr>tkS := s\<rparr>)"
| s_tally: "tallyUnderrunFrames n (tkS t, tkCb t) = (s, cb) \<Longrightarrow> track_step sub t (t\<lparr>tkS := s, tkCb := cb\<rparr>)"
| s_end: "setStreamEndDone (tkCb t) = (old, cb) \<Longrightarrow> track_step sub t (t\<lparr>tkCb := cb\<rparr>)"

section \<open>The invariant\<close>

text \<open>Positions that never wrap: what the server has consumed, and what the client has produced.\<close>

definition front_of :: "server_proxy \<Rightarrow> nat" where
  "front_of s = nat (mReleased s + mFlushed s)"

text \<open>A held region: \<open>n\<close> frames from position \<open>k\<close> on.\<close>

definition holds :: "proxy_buffer \<Rightarrow> nat \<Rightarrow> 'a proxy_scheme \<Rightarrow> bool" where
  "holds b k p \<longleftrightarrow> mUnreleased p = bfFrameCount b
     \<and> (0 < bfFrameCount b \<longrightarrow> bfRaw b = Some (k mod mFrameCountP2 p * mFrameSize p) \<and> k mod mFrameCountP2 p + bfFrameCount b \<le> mFrameCountP2 p)"

text \<open>The marks of flush and stop, if they are pending: not before what the server still holds, and a stop not before a flush.\<close>

definition marks_ok :: "nat \<Rightarrow> nat \<Rightarrow> server_proxy \<Rightarrow> cblk \<Rightarrow> bool" where
  "marks_ok lo hi s cb \<longleftrightarrow> (\<exists>Fl St. (cbFlush cb \<noteq> svFlush s \<longrightarrow> marks (cbFlush cb) Fl s \<and> lo \<le> Fl \<and> Fl \<le> hi)
     \<and> (mStop cb \<noteq> mStopLast s \<longrightarrow> marks (mStop cb) St s \<and> lo \<le> St \<and> St \<le> hi)
     \<and> (cbFlush cb \<noteq> svFlush s \<and> mStop cb \<noteq> mStopLast s \<longrightarrow> Fl \<le> St))"

definition positions_ok :: "nat \<Rightarrow> nat \<Rightarrow> client_proxy \<Rightarrow> server_proxy \<Rightarrow> cblk \<Rightarrow> bool" where
  "positions_ok F R c s cb \<longleftrightarrow> mFront cb = word_of_nat F \<and> mRear cb = word_of_nat R \<and> F + mUnreleased s \<le> R \<and> R + mUnreleased c \<le> F + mFrameCount s"

definition proxies_ok :: "client_proxy \<Rightarrow> server_proxy \<Rightarrow> bool" where
  "proxies_ok c s \<longleftrightarrow> same_ring c s \<and> client_ready c \<and> mIsOut s \<and> \<not> mIsShutdown c \<and> \<not> mIsShutdown s \<and> 0 \<le> mReleased s \<and> 0 \<le> mFlushed s"

definition track_ok :: "'f track \<Rightarrow> bool" where
  "track_ok t \<longleftrightarrow> (let c = tkC t; s = tkS t; cb = tkCb t; F = front_of s; R = length (tkWritten t)
     in proxies_ok c s \<and> positions_ok F R c s cb \<and> marks_ok (F + mUnreleased s) R s cb
        \<and> holds (tkHeldC t) R c \<and> holds (tkHeldS t) F s
        \<and> (\<forall>k. F \<le> k \<and> k < R \<longrightarrow> tkRing t (k mod mFrameCountP2 s) = tkWritten t ! k)
        \<and> mReleased s = int (length (tkPlayed t)) \<and> subseq (tkPlayed t) (take F (tkWritten t)))"

subsection \<open>What the invariant depends on\<close>

text \<open>The fields of the control block that carry positions.\<close>

definition same_marks :: "cblk \<Rightarrow> cblk \<Rightarrow> bool" where
  "same_marks cb cb' \<longleftrightarrow> mFront cb' = mFront cb \<and> mRear cb' = mRear cb \<and> cbFlush cb' = cbFlush cb \<and> mStop cb' = mStop cb"

lemma same_marks_update [simp]:
  "same_marks cb (cb\<lparr>mFlags := x\<rparr>)" "same_marks cb (cb\<lparr>mFutex := y\<rparr>)" "same_marks cb (cb\<lparr>mMinimum := y\<rparr>)"
  "same_marks cb (cb\<lparr>cbBufferSize := y\<rparr>)" "same_marks cb (cb\<lparr>mFlags := x, mFutex := y\<rparr>)" "same_marks cb (wake_futex cb)" "same_marks cb cb"
  by (simp_all add: same_marks_def wake_futex_def)

lemma track_ok_same_marks:
  assumes "track_ok t" "same_marks (tkCb t) cb"
  shows "track_ok (t\<lparr>tkCb := cb\<rparr>)"
  using assms by (simp add: track_ok_def Let_def positions_ok_def marks_ok_def same_marks_def)

subsection \<open>The client obtains\<close>

lemma holds_no_buffer [simp]: "holds no_buffer k (p\<lparr>mUnreleased := 0\<rparr>)"
  by (simp add: holds_def no_buffer_def)

lemma holds_chunk:
  assumes "ring_ok p" "same_ring p q"
  shows "holds (first_chunk (word_of_nat k) avail ask p) k (q\<lparr>mUnreleased := bfFrameCount (first_chunk (word_of_nat k) avail ask p)\<rparr>)"
  using first_chunk_index(1,5) [OF assms(1), of "word_of_nat k" avail ask] assms(2)
  by (simp add: holds_def ring_index_mod [OF assms(1)] same_ring_def)

lemma client_pass_obtains:
  assumes sub: "wraps sub" and ok: "proxies_ok c s" and pos: "positions_ok F R c s cb"
    and pass: "client_pass sub ignore ask c cb = (Inl (st, b, d), cb')"
  shows "holds b R d \<and> d = c\<lparr>mUnreleased := bfFrameCount b\<rparr> \<and> R + bfFrameCount b \<le> F + mFrameCount s \<and> same_marks cb cb'"
proof -
  have ring: "ring_ok c" "mIsOut c" "mFrameCount c = mFrameCount s" "unat (cpBufferSize c) \<le> mFrameCount c"
    using ok by (auto simp: proxies_ok_def client_ready_def same_ring_def)
  have p: "mFront cb = word_of_nat F" "mRear cb = word_of_nat R" "F \<le> R" "R \<le> F + mFrameCount c"
    using pos ring(3) by (auto simp: positions_ok_def)
  obtain e M where "M + mFrameCount c < 2 ^ 31" using ring(1) by (rule ring_block)
  then have filled: "sint (sub (mRear cb) (mFront cb)) = int (R - F)" "filled_ok (int (R - F)) c"
    using sint_diff [of F R] p sub by (auto simp: wraps_def filled_ok_def)
  have fail: "holds b R d \<and> d = c\<lparr>mUnreleased := bfFrameCount b\<rparr> \<and> R + bfFrameCount b \<le> F + mFrameCount s"
    if "no_frames st' c = (st, b, d)" for st'
    using that p(4) ring(3) by (auto simp: no_frames_def no_buffer_def holds_def)
  define n where "n = nat (int (unat (cpBufferSize c)) - int (R - F))"
  have n: "R + n \<le> F + mFrameCount s" using p(3,4) ring(3,4) unfolding n_def by linarith
  have chunk: "holds b R d \<and> d = c\<lparr>mUnreleased := bfFrameCount b\<rparr> \<and> R + bfFrameCount b \<le> F + mFrameCount s"
    if "b = first_chunk (word_of_nat R) n ask c" "d = c\<lparr>mUnreleased := bfFrameCount b\<rparr>"
    using that n holds_chunk [OF ring(1), of c R n ask] first_chunk_index(2) [OF ring(1), of "word_of_nat R" n ask] by simp
  show ?thesis using pass fail chunk filled ring(2) p(2)
    by (auto simp: client_pass_def Let_def n_def split: if_splits)
qed

lemma client_pass_waits:
  assumes sub: "wraps sub" and ok: "proxies_ok c s" and pos: "positions_ok F R c s cb"
    and pass: "client_pass sub ignore ask c cb = (Inr u, cb')"
  shows "same_marks cb cb'"
  using pass ok by (auto simp: client_pass_def Let_def proxies_ok_def same_ring_def split: if_splits)

subsection \<open>The server flushes and obtains\<close>

text \<open>What a server has after looking for a flush: the front is at the mark, and no flush is pending.\<close>

definition advanced :: "nat \<Rightarrow> nat \<Rightarrow> server_proxy \<times> cblk \<Rightarrow> server_proxy \<times> cblk \<Rightarrow> bool" where
  "advanced F F' = (\<lambda>(s, cb) (s', cb'). F \<le> F' \<and> s' = s\<lparr>svFlush := cbFlush cb, mFlushed := mFlushed s + int (F' - F)\<rparr>
     \<and> mFront cb' = word_of_nat F' \<and> mRear cb' = mRear cb \<and> cbFlush cb' = cbFlush cb \<and> mStop cb' = mStop cb)"

lemma flushed_positions:
  assumes sub: "wraps sub" and ok: "proxies_ok c s" and pos: "positions_ok F R c s cb" and marked: "marks_ok lo R s cb" "F \<le> lo"
    and flush: "flushBufferIfNeeded sub (s, cb) = (s', cb')"
  shows "\<exists>F'. advanced F F' (s, cb) (s', cb') \<and> F' \<le> R \<and> marks_ok F' R s' cb' \<and> (if cbFlush cb = svFlush s then F' = F \<and> marks_ok lo R s' cb' else lo \<le> F')"
proof (cases "cbFlush cb = svFlush s")
  case True
  then have eq: "s' = s" "cb' = cb" using flush by (auto simp: flushBufferIfNeeded_def Let_def)
  then have "advanced F F (s, cb) (s', cb')" using True pos by (simp add: advanced_def positions_ok_def)
  moreover have "marks_ok F R s cb"
    using marked True unfolding marks_ok_def by (auto intro: le_trans)
  ultimately show ?thesis using True eq pos marked(1) by (intro exI [of _ F]) (simp add: positions_ok_def)
next
  case False
  obtain Fl St where m: "marks (cbFlush cb) Fl s" "lo \<le> Fl" "Fl \<le> R"
    "mStop cb \<noteq> mStopLast s \<longrightarrow> marks (mStop cb) St s \<and> lo \<le> St \<and> St \<le> R \<and> Fl \<le> St"
    using marked(1) False by (auto simp: marks_ok_def)
  have p: "mFront cb = word_of_nat F" "mRear cb = word_of_nat R" "R \<le> F + mFrameCount s" "F \<le> Fl"
    using pos m marked(2) by (auto simp: positions_ok_def)
  have ring: "ring_ok s" using ok by (auto simp: proxies_ok_def client_ready_def dest: same_ring_ok)
  have eq: "s' = s\<lparr>svFlush := cbFlush cb, mFlushed := mFlushed s + int (Fl - F)\<rparr>" "cb' = wake_futex (cb\<lparr>mFront := word_of_nat Fl\<rparr>)"
    using flush flushBuffer_spec [OF ring sub p(1,2,3) False m(1) p(4) m(3)] by simp_all
  then have "advanced F Fl (s, cb) (s', cb')" using p(4) by (simp add: advanced_def wake_futex_def)
  moreover have "marks_ok Fl R s' cb'" using m(4) eq by (auto simp: marks_ok_def marks_def wake_futex_def low_mask_def overflow_bit_def)
  ultimately show ?thesis using m(2,3) False by auto
qed

lemma server_obtains:
  assumes sub: "wraps sub" and ok: "proxies_ok c s" and pos: "positions_ok F R c s cb" and marked: "marks_ok lo R s cb" "F \<le> lo"
    and call: "server_obtainBuffer sub ask ackFlush (s, cb) = Some (st, b, s', cb')"
  shows "\<exists>F' av. advanced F F' (s\<lparr>mAvailToClient := av, mUnreleased := if ackFlush then mUnreleased s else bfFrameCount b\<rparr>, cb) (s', cb')
     \<and> F' + bfFrameCount b \<le> R \<and> marks_ok (F' + bfFrameCount b) R s' cb' \<and> holds b F' (s'\<lparr>mUnreleased := bfFrameCount b\<rparr>)
     \<and> (cbFlush cb \<noteq> svFlush s \<longrightarrow> lo \<le> F') \<and> st = (if 0 < bfFrameCount b then TS_OK else WOULD_BLOCK)"
proof -
  have up: "mIsOut s" "\<not> mIsShutdown s" and ring: "ring_ok s"
    using ok by (auto simp: proxies_ok_def client_ready_def dest: same_ring_ok)
  obtain s1 cb1 where f: "flushBufferIfNeeded sub (s, cb) = (s1, cb1)" by fastforce
  obtain F' where F': "advanced F F' (s, cb) (s1, cb1)" "F' \<le> R" "marks_ok F' R s1 cb1" "cbFlush cb \<noteq> svFlush s \<longrightarrow> lo \<le> F'"
    using flushed_positions [OF sub ok pos marked f] by auto
  have s1: "s1 = s\<lparr>svFlush := cbFlush cb, mFlushed := mFlushed s + int (F' - F)\<rparr>" "mFront cb1 = word_of_nat F'" "mRear cb1 = word_of_nat R"
    "cbFlush cb1 = svFlush s1" "F \<le> F'" using F'(1) pos by (auto simp: advanced_def positions_ok_def)
  have ring1: "ring_ok s1" "mIsOut s1" using ring up(1) s1(1) by (simp_all add: ring_ok_def)
  have full: "R \<le> F' + mFrameCount s1" using pos s1(1,5) by (auto simp: positions_ok_def)
  obtain St where St: "mStop cb1 \<noteq> mStopLast s1 \<longrightarrow> marks (mStop cb1) St s1 \<and> F' \<le> St \<and> St \<le> R"
    using F'(3) by (auto simp: marks_ok_def)
  define R' where "R' = (if mStop cb1 = mStopLast s1 then R else St)"
  have R': "getRear sub s1 cb1 = word_of_nat R'" "F' \<le> R'" "R' \<le> R"
    using getRear_spec [OF ring1(1) sub s1(2,3) F'(2) full] St F'(2) unfolding R'_def by auto
  obtain e M where "M + mFrameCount s1 < 2 ^ 31" using ring1(1) by (rule ring_block)
  then have filled: "sint (sub (word_of_nat R') (word_of_nat F')) = int (R' - F')" "R' - F' \<le> mFrameCount s1"
    using sint_diff [of F' R'] R' full sub by (auto simp: wraps_def)
  let ?b = "first_chunk (word_of_nat F') (R' - F') ask s1"
  have res: "b = ?b" "s' = s1\<lparr>mAvailToClient := mFrameCount s1 - (R' - F'), mUnreleased := (if ackFlush then mUnreleased s1 else bfFrameCount ?b)\<rparr>" "cb' = cb1"
    "st = (if 0 < bfFrameCount ?b then TS_OK else WOULD_BLOCK)"
    using call up f ring1(2) s1(2) R'(1) server_chunk_filled [of sub "word_of_nat R'" "word_of_nat F'" "R' - F'" s1, OF filled]
    by (auto simp: server_obtainBuffer_def Let_def split: if_splits)
  have b: "bfFrameCount b \<le> R' - F'" "holds b F' (s'\<lparr>mUnreleased := bfFrameCount b\<rparr>)"
    using first_chunk_index(2) [OF ring1(1)] holds_chunk [OF ring1(1), of s' F' "R' - F'" ask] res by (simp_all add: same_ring_def)
  have "marks_ok (F' + bfFrameCount b) R s' cb'"
    using St s1(4) res(2,3) b(1) R'(2) unfolding marks_ok_def R'_def
    by (intro exI [of _ R] exI [of _ St]) (auto simp: marks_def low_mask_def overflow_bit_def)
  moreover have "advanced F F' (s\<lparr>mAvailToClient := mFrameCount s1 - (R' - F'), mUnreleased := if ackFlush then mUnreleased s else bfFrameCount b\<rparr>, cb) (s', cb')"
    using F'(1) res s1(1) by (auto simp: advanced_def)
  ultimately show ?thesis using b R'(2,3) F'(4) res(1,4) by (intro exI conjI) auto
qed

subsection \<open>Frames\<close>

lemma mod_run:
  fixes k n P :: nat
  assumes "k mod P + n \<le> P" "i < n"
  shows "(k + i) mod P = k mod P + i"
proof -
  have "(k + i) mod P = (k mod P + i) mod P" by (simp add: mod_add_left_eq)
  then show ?thesis using assms by simp
qed

lemma mod_apart:
  fixes j k P :: nat
  assumes "j < k" "k < j + P"
  shows "j mod P \<noteq> k mod P"
proof
  assume "j mod P = k mod P"
  then have "P dvd k - j" using assms(1) by (metis less_imp_le mod_eq_dvd_iff_nat)
  then have "P \<le> k - j" using assms(1) by (intro dvd_imp_le) simp_all
  then show False using assms by linarith
qed

lemma frames_nth: "i < n \<Longrightarrow> frames ring k n ! i = ring (k + i)"
  by (simp add: frames_def)

lemma length_frames [simp]: "length (frames ring k n) = n"
  by (simp add: frames_def)

lemma first_frame_held:
  assumes "holds b k p" "0 < bfFrameCount b" "0 < mFrameSize p"
  shows "first_frame b p = k mod mFrameCountP2 p"
  using assms by (simp add: holds_def first_frame_def)

lemma frames_held:
  assumes held: "holds b k p" "n \<le> bfFrameCount b" "0 < mFrameSize p" and content: "\<And>i. i < n \<Longrightarrow> ring ((k + i) mod mFrameCountP2 p) = xs ! (k + i)"
    and len: "k + n \<le> length xs"
  shows "frames ring (first_frame b p) n = take n (drop k xs)"
proof (rule nth_equalityI)
  fix i assume "i < length (frames ring (first_frame b p) n)"
  then have i: "i < n" by simp
  then have c: "0 < bfFrameCount b" using held(2) by simp
  have "(k + i) mod mFrameCountP2 p = first_frame b p + i"
    using mod_run [of k "mFrameCountP2 p" "bfFrameCount b" i] held c i first_frame_held [OF held(1) c held(3)] by (simp add: holds_def)
  then show "frames ring (first_frame b p) n ! i = take n (drop k xs) ! i"
    using content [OF i] i len by (simp add: frames_nth)
qed (use len in simp)

lemma holds_rest:
  assumes "holds b k p" "n \<le> bfFrameCount b" "same_ring p q" "mUnreleased q = mUnreleased p - n" "ring_ok p"
  shows "holds (rest_of n b q) (k + n) q"
proof (cases "n < bfFrameCount b")
  case True
  then have "(k + n) mod mFrameCountP2 p = k mod mFrameCountP2 p + n"
    using assms(1) by (intro mod_run [of k _ "bfFrameCount b"]) (auto simp: holds_def)
  then show ?thesis using assms True by (auto simp: holds_def rest_of_def same_ring_def distrib_right)
next
  case False
  then show ?thesis using assms by (auto simp: holds_def rest_of_def)
qed

lemma subseq_take_mono:
  assumes "m \<le> n"
  shows "subseq (take m xs) (take n xs)"
proof -
  have "take n xs = take m xs @ drop m (take n xs)" using assms by (metis append_take_drop_id min.absorb1 take_take)
  then show ?thesis by (metis list_emb_prefix subseq_order.order_refl)
qed

subsection \<open>Every step keeps the invariant\<close>

lemma track_okD:
  assumes "track_ok t"
  shows "proxies_ok (tkC t) (tkS t)" "positions_ok (front_of (tkS t)) (length (tkWritten t)) (tkC t) (tkS t) (tkCb t)"
    "marks_ok (front_of (tkS t) + mUnreleased (tkS t)) (length (tkWritten t)) (tkS t) (tkCb t)"
    "holds (tkHeldC t) (length (tkWritten t)) (tkC t)" "holds (tkHeldS t) (front_of (tkS t)) (tkS t)"
    "\<And>k. front_of (tkS t) \<le> k \<Longrightarrow> k < length (tkWritten t) \<Longrightarrow> tkRing t (k mod mFrameCountP2 (tkS t)) = tkWritten t ! k"
    "mReleased (tkS t) = int (length (tkPlayed t))" "subseq (tkPlayed t) (take (front_of (tkS t)) (tkWritten t))"
    "ring_ok (tkC t)" "ring_ok (tkS t)" "0 < mFrameSize (tkC t)" "0 < mFrameSize (tkS t)"
  using assms by (auto simp: track_ok_def Let_def proxies_ok_def client_ready_def ring_ok_def same_ring_def)

lemma track_ok_client:
  assumes ok: "track_ok t" and c: "c = (tkC t)\<lparr>mUnreleased := bfFrameCount b\<rparr>" and held: "holds b (length (tkWritten t)) c"
    and room: "length (tkWritten t) + bfFrameCount b \<le> front_of (tkS t) + mFrameCount (tkS t)" and cb: "same_marks (tkCb t) cb"
  shows "track_ok (t\<lparr>tkC := c, tkCb := cb, tkHeldC := b\<rparr>)"
  using assms by (auto simp: track_ok_def Let_def proxies_ok_def positions_ok_def marks_ok_def same_marks_def same_ring_def client_ready_def ring_ok_def)

lemma track_ok_store:
  assumes ok: "track_ok t" and i: "i < bfFrameCount (tkHeldC t)"
  shows "track_ok (t\<lparr>tkRing := (tkRing t)(first_frame (tkHeldC t) (tkC t) + i := x)\<rparr>)"
proof -
  let ?R = "length (tkWritten t)" and ?F = "front_of (tkS t)" and ?P = "mFrameCountP2 (tkS t)"
  note D = track_okD [OF ok]
  have same: "mFrameCountP2 (tkC t) = ?P" "mFrameCount (tkS t) \<le> ?P" using D(1,10) by (auto simp: proxies_ok_def same_ring_def ring_ok_def)
  have at: "first_frame (tkHeldC t) (tkC t) + i = (?R + i) mod ?P"
    using first_frame_held [OF D(4) _ D(11)] mod_run [of ?R ?P "bfFrameCount (tkHeldC t)" i] D(4) i same(1) by (auto simp: holds_def)
  have "?R + bfFrameCount (tkHeldC t) \<le> ?F + ?P" using D(2,4) same(2) by (auto simp: positions_ok_def holds_def)
  then have "k mod ?P \<noteq> (?R + i) mod ?P" if "?F \<le> k" "k < ?R" for k
    using i that by (intro mod_apart) simp_all
  then show ?thesis using ok by (auto simp: track_ok_def Let_def at)
qed

lemma track_ok_write:
  assumes ok: "track_ok t" and n: "n \<le> bfFrameCount (tkHeldC t)"
    and call: "client_releaseBuffer ((tkHeldC t)\<lparr>bfFrameCount := n\<rparr>) (tkC t, tkCb t) = Some (b, c, cb)"
  shows "track_ok (t\<lparr>tkC := c, tkCb := cb, tkHeldC := rest_of n (tkHeldC t) c,
    tkWritten := tkWritten t @ frames (tkRing t) (first_frame (tkHeldC t) c) n\<rparr>)"
proof -
  let ?R = "length (tkWritten t)" and ?F = "front_of (tkS t)" and ?P = "mFrameCountP2 (tkS t)"
  let ?new = "tkWritten t @ frames (tkRing t) (first_frame (tkHeldC t) c) n"
  note D = track_okD [OF ok]
  have up: "\<not> mIsShutdown (tkC t)" "mIsOut (tkC t)" "mFrameCountP2 (tkC t) = ?P" using D(1) by (auto simp: proxies_ok_def same_ring_def)
  have c: "c = (tkC t)\<lparr>mUnreleased := mUnreleased (tkC t) - n\<rparr>" "cb = (tkCb t)\<lparr>mRear := mRear (tkCb t) + word_of_nat n\<rparr>"
    using call up by (auto simp: client_releaseBuffer_def Let_def split: if_splits)
  have held: "holds (rest_of n (tkHeldC t) c) (?R + n) c"
    using holds_rest [OF D(4) n, of c] D(9) c(1) by (simp add: same_ring_def)
  have content: "tkRing t (k mod ?P) = ?new ! k" if "?F \<le> k" "k < ?R + n" for k
  proof (cases "k < ?R")
    case True
    then show ?thesis using D(6) that(1) by (simp add: nth_append)
  next
    case False
    then have k: "k = ?R + (k - ?R)" "k - ?R < n" using that(2) by simp_all
    then have "k mod ?P = first_frame (tkHeldC t) c + (k - ?R)"
      using mod_run [of ?R ?P "bfFrameCount (tkHeldC t)" "k - ?R"] D(4) n first_frame_held [OF D(4) _ D(11)] up(3) c(1)
      by (auto simp: holds_def first_frame_def split: option.splits)
    then show ?thesis using False k(2) by (simp add: nth_append frames_nth)
  qed
  have "positions_ok ?F (?R + n) c (tkS t) cb" using D(2,4) c n by (auto simp: positions_ok_def holds_def)
  moreover have "marks_ok (?F + mUnreleased (tkS t)) (?R + n) (tkS t) cb" using D(3) c(2) unfolding marks_ok_def by (auto intro: trans_le_add1)
  moreover have "subseq (tkPlayed t) (take ?F ?new)" using D(2,8) by (auto simp: positions_ok_def)
  moreover have "proxies_ok c (tkS t)" using D(1) c(1) by (auto simp: proxies_ok_def same_ring_def client_ready_def ring_ok_def)
  ultimately show ?thesis using D(5,7) held content by (simp add: track_ok_def Let_def)
qed

lemma marks_ok_mono: "marks_ok lo hi s cb \<Longrightarrow> lo' \<le> lo \<Longrightarrow> marks_ok lo' hi s cb"
  unfolding marks_ok_def by (elim exE, intro exI) auto

lemma track_ok_server:
  assumes ok: "track_ok t" and adv: "advanced (front_of (tkS t)) F (((tkS t)\<lparr>mAvailToClient := av, mUnreleased := bfFrameCount b\<rparr>), tkCb t) (s, cb)"
    and room: "F + bfFrameCount b \<le> length (tkWritten t)" and marked: "marks_ok (F + bfFrameCount b) (length (tkWritten t)) s cb" and held: "holds b F s"
  shows "track_ok (t\<lparr>tkS := s, tkCb := cb, tkHeldS := b\<rparr>)"
proof -
  note D = track_okD [OF ok]
  have F: "front_of s = F" "front_of (tkS t) \<le> F" "mUnreleased s = bfFrameCount b" using adv D(1) by (auto simp: advanced_def front_of_def proxies_ok_def)
  have "subseq (tkPlayed t) (take F (tkWritten t))" using D(8) subseq_take_mono [OF F(2)] by (rule subseq_order.order_trans)
  moreover have "proxies_ok (tkC t) s" "mReleased s = mReleased (tkS t)" "mFrameCountP2 s = mFrameCountP2 (tkS t)"
    using adv D(1) by (auto simp: advanced_def proxies_ok_def same_ring_def)
  moreover have "positions_ok F (length (tkWritten t)) (tkC t) s cb" using adv D(2) room by (auto simp: advanced_def positions_ok_def)
  ultimately show ?thesis using F marked held D(4,6,7) by (simp add: track_ok_def Let_def)
qed

lemma track_ok_obtain:
  assumes sub: "wraps sub" and ok: "track_ok t" and call: "server_obtainBuffer sub ask False (tkS t, tkCb t) = Some (st, b, s, cb)"
  shows "track_ok (t\<lparr>tkS := s, tkCb := cb, tkHeldS := b\<rparr>)"
proof -
  note D = track_okD [OF ok]
  obtain F av where F: "advanced (front_of (tkS t)) F (((tkS t)\<lparr>mAvailToClient := av, mUnreleased := bfFrameCount b\<rparr>), tkCb t) (s, cb)"
    "F + bfFrameCount b \<le> length (tkWritten t)" "marks_ok (F + bfFrameCount b) (length (tkWritten t)) s cb" "holds b F (s\<lparr>mUnreleased := bfFrameCount b\<rparr>)"
    using server_obtains [OF sub D(1-3) _ call] by auto
  moreover have "s\<lparr>mUnreleased := bfFrameCount b\<rparr> = s" using F(1) by (auto simp: advanced_def)
  ultimately show ?thesis using track_ok_server [OF ok] by simp
qed

lemma track_ok_acknowledge:
  assumes ok: "track_ok t" and none: "bfFrameCount (tkHeldS t) = 0"
    and adv: "advanced (front_of (tkS t)) F (((tkS t)\<lparr>mAvailToClient := av\<rparr>), tkCb t) (s, cb)"
    and room: "F \<le> length (tkWritten t)" and marked: "marks_ok F (length (tkWritten t)) s cb"
  shows "track_ok (t\<lparr>tkS := s, tkCb := cb\<rparr>)"
proof -
  have "mUnreleased (tkS t) = 0" using track_okD(5) [OF ok] none by (simp add: holds_def)
  then have "(tkS t)\<lparr>mAvailToClient := av, mUnreleased := bfFrameCount (tkHeldS t)\<rparr> = (tkS t)\<lparr>mAvailToClient := av\<rparr>" using none by simp
  moreover have "holds (tkHeldS t) F s" using none adv \<open>mUnreleased (tkS t) = 0\<close> by (auto simp: holds_def advanced_def)
  ultimately have "track_ok (t\<lparr>tkS := s, tkCb := cb, tkHeldS := tkHeldS t\<rparr>)"
    using track_ok_server [OF ok, where F = F and av = av and b = "tkHeldS t"] none adv room marked by simp
  then show ?thesis by simp
qed

lemma track_ok_play:
  assumes ok: "track_ok t" and n: "n \<le> bfFrameCount (tkHeldS t)"
    and call: "server_releaseBuffer ((tkHeldS t)\<lparr>bfFrameCount := n\<rparr>) (tkS t, tkCb t) = Some (b, s, cb)"
  defines "F \<equiv> front_of (tkS t)"
  shows "track_ok (t\<lparr>tkS := s, tkCb := cb, tkHeldS := rest_of n (tkHeldS t) s,
      tkPlayed := tkPlayed t @ frames (tkRing t) (first_frame (tkHeldS t) s) n\<rparr>)"
    and "frames (tkRing t) (first_frame (tkHeldS t) s) n = take n (drop F (tkWritten t))" "front_of s = F + n"
proof -
  let ?R = "length (tkWritten t)"
  note D = track_okD [OF ok, folded F_def]
  have up: "\<not> mIsShutdown (tkS t)" "mIsOut (tkS t)" using D(1) by (auto simp: proxies_ok_def)
  have s: "s = (tkS t)\<lparr>mUnreleased := mUnreleased (tkS t) - n, mReleased := mReleased (tkS t) + int n\<rparr>"
    and cb: "mFront cb = mFront (tkCb t) + word_of_nat n" "mRear cb = mRear (tkCb t)" "cbFlush cb = cbFlush (tkCb t)" "mStop cb = mStop (tkCb t)"
    using call up by (auto simp: server_releaseBuffer_def Let_def wake_futex_def split: if_splits)
  have u: "mUnreleased (tkS t) = bfFrameCount (tkHeldS t)" using D(5) by (simp add: holds_def)
  have room: "F + n \<le> ?R" using D(2) u n by (simp add: positions_ok_def)
  show F: "front_of s = F + n" using s D(1) by (auto simp: front_of_def F_def proxies_ok_def)
  have held: "holds (rest_of n (tkHeldS t) s) (F + n) s" using holds_rest [OF D(5) n, of s] D(10) s by (simp add: same_ring_def)
  have "first_frame (tkHeldS t) s = first_frame (tkHeldS t) (tkS t)" using s by (simp add: first_frame_def split: option.split)
  then show frames: "frames (tkRing t) (first_frame (tkHeldS t) s) n = take n (drop F (tkWritten t))"
    using frames_held [OF D(5) n D(12), of "tkRing t" "tkWritten t"] D(6) room by simp
  have "subseq (tkPlayed t @ take n (drop F (tkWritten t))) (take (F + n) (tkWritten t))"
    unfolding take_add using D(8) by (intro list_emb_append_mono) simp_all
  moreover have "positions_ok (F + n) ?R (tkC t) s cb" using D(2) s cb n u by (auto simp: positions_ok_def)
  moreover have "marks_ok (F + n + mUnreleased s) ?R s cb" using D(3) s cb n u by (simp add: marks_ok_def marks_def low_mask_def overflow_bit_def)
  moreover have "proxies_ok (tkC t) s" using D(1) s by (simp add: proxies_ok_def same_ring_def)
  moreover have "mReleased s = int (length (tkPlayed t) + n)" "mFrameCountP2 s = mFrameCountP2 (tkS t)" using s D(7) by simp_all
  ultimately show "track_ok (t\<lparr>tkS := s, tkCb := cb, tkHeldS := rest_of n (tkHeldS t) s,
      tkPlayed := tkPlayed t @ frames (tkRing t) (first_frame (tkHeldS t) s) n\<rparr>)"
    using F held D(4,6) room unfolding track_ok_def frames by (simp add: Let_def)
qed

lemma track_ok_marks:
  assumes ok: "track_ok t"
  shows "track_ok (t\<lparr>tkCb := track_flush (tkC t) (tkCb t)\<rparr>)" "track_ok (t\<lparr>tkCb := track_stop (tkC t) (tkCb t)\<rparr>)"
proof -
  let ?R = "length (tkWritten t)" and ?lo = "front_of (tkS t) + mUnreleased (tkS t)"
  note D = track_okD [OF ok]
  have R: "mRear (tkCb t) = word_of_nat ?R" "?lo \<le> ?R" using D(2) by (simp_all add: positions_ok_def)
  have new: "marks (next_mark m (word_of_nat ?R) (tkC t)) ?R (tkS t)" for m
    using next_mark_marks [OF D(9), of m ?R] D(1) by (simp add: marks_def low_mask_def overflow_bit_def proxies_ok_def same_ring_def)
  have "marks_ok ?lo ?R (tkS t) (track_flush (tkC t) (tkCb t))"
    unfolding marks_ok_def using new R by (intro exI [of _ ?R]) (simp add: track_flush_def sendStreamingFlushStop_def)
  moreover have "marks_ok ?lo ?R (tkS t) (track_stop (tkC t) (tkCb t))"
  proof -
    obtain Fl where "cbFlush (tkCb t) \<noteq> svFlush (tkS t) \<longrightarrow> marks (cbFlush (tkCb t)) Fl (tkS t) \<and> ?lo \<le> Fl \<and> Fl \<le> ?R"
      using D(3) by (auto simp: marks_ok_def)
    then show ?thesis unfolding marks_ok_def using new R
      by (intro exI [of _ Fl] exI [of _ ?R]) (simp add: track_stop_def sendStreamingFlushStop_def)
  qed
  ultimately show "track_ok (t\<lparr>tkCb := track_flush (tkC t) (tkCb t)\<rparr>)" "track_ok (t\<lparr>tkCb := track_stop (tkC t) (tkCb t)\<rparr>)"
    using ok by (simp_all add: track_ok_def Let_def positions_ok_def track_flush_def track_stop_def sendStreamingFlushStop_def)
qed

lemma framesReady_spec:
  assumes sub: "wraps sub" and ok: "track_ok t" and call: "framesReady sub (tkS t, tkCb t) = Some (n, s)"
  shows "s = tkS t \<and> n \<le> mFrameCount (tkS t)"
proof -
  note D = track_okD [OF ok]
  let ?F = "front_of (tkS t)" and ?R = "length (tkWritten t)"
  have p: "mFront (tkCb t) = word_of_nat ?F" "mRear (tkCb t) = word_of_nat ?R" "?F \<le> ?R" "?R \<le> ?F + mFrameCount (tkS t)"
    using D(2) by (auto simp: positions_ok_def)
  obtain St where St: "mStop (tkCb t) \<noteq> mStopLast (tkS t) \<longrightarrow> marks (mStop (tkCb t)) St (tkS t) \<and> ?F \<le> St \<and> St \<le> ?R"
    using marks_ok_mono [OF D(3), of ?F] by (auto simp: marks_ok_def)
  then obtain R' where R': "getRear sub (tkS t) (tkCb t) = word_of_nat R'" "?F \<le> R'" "R' \<le> ?R"
    using getRear_spec [OF D(10) sub p, of St] p(3) by (cases "mStop (tkCb t) = mStopLast (tkS t)") auto
  obtain e M where "M + mFrameCount (tkS t) < 2 ^ 31" using D(10) by (rule ring_block)
  then have "sint (sub (word_of_nat R') (word_of_nat ?F)) = int (R' - ?F)"
    using sint_diff [of ?F R'] R' p(4) sub by (auto simp: wraps_def)
  then show ?thesis using call R' p by (auto simp: framesReady_def Let_def filled_ok_def split: if_splits)
qed

lemma new_track_ok:
  assumes "0 < frameCount" "frameCount \<le> 2 ^ e" "e \<le> 29" "0 < frameSize"
  shows "track_ok (new_track frameCount frameSize (2 ^ e) ring)"
proof -
  have "(2 :: nat) ^ e \<le> 2 ^ 29" using assms(3) by (rule power_increasing) simp
  then have small: "frameCount < 2 ^ 32" "unat (word_of_nat frameCount :: u32) = frameCount" using assms(2) by (simp_all add: unsigned_of_nat take_bit_nat_eq_self_iff)
  then show ?thesis using assms
    by (auto simp: new_track_def new_server_def new_client_def setBufferSizeInFrames_def new_cblk_def track_ok_def Let_def proxies_ok_def
      same_ring_def client_ready_def ring_ok_def front_of_def positions_ok_def marks_ok_def holds_def no_buffer_def word_less_nat_alt)
qed

text \<open>The counters of underruns do not matter, and looking at the last stop forgets it.\<close>

lemma track_ok_same_server:
  assumes ok: "track_ok t" and s: "s = (tkS t)\<lparr>mStopLast := z, mUnderrunCount := x, mUnderrunning := y\<rparr>" and z: "z = mStopLast (tkS t) \<or> z = mStop (tkCb t)"
  shows "track_ok (t\<lparr>tkS := s\<rparr>)"
proof -
  note D = track_okD [OF ok]
  have F: "front_of s = front_of (tkS t)" "mUnreleased s = mUnreleased (tkS t)" "mFrameCount s = mFrameCount (tkS t)" "mFrameCountP2 s = mFrameCountP2 (tkS t)"
    "mReleased s = mReleased (tkS t)" "svFlush s = svFlush (tkS t)" "mStopLast s = z" using s by (simp_all add: front_of_def)
  have m: "marks mark k s \<longleftrightarrow> marks mark k (tkS t)" for mark k by (simp add: marks_def low_mask_def overflow_bit_def F)
  have "proxies_ok (tkC t) s" using D(1) s by (simp add: proxies_ok_def same_ring_def)
  moreover have "holds (tkHeldS t) k s \<longleftrightarrow> holds (tkHeldS t) k (tkS t)" for k using s by (simp add: holds_def)
  moreover have "marks_ok (front_of (tkS t) + mUnreleased (tkS t)) (length (tkWritten t)) s (tkCb t)"
    using D(3) z unfolding marks_ok_def F m by blast
  ultimately show ?thesis using D(2,4-8) by (simp add: track_ok_def Let_def positions_ok_def F)
qed

lemma track_step_ok:
  assumes "track_step sub t u" "wraps sub" "track_ok t"
  shows "track_ok u"
  using assms
proof (induction rule: track_step.induct)
  case (c_obtain ask t ignore st b c cb)
  note D = track_okD [OF c_obtain.prems(2)]
  from client_pass_obtains [OF c_obtain.prems(1) D(1,2) c_obtain.hyps(3)] show ?case
    using track_ok_client [OF c_obtain.prems(2)] by blast
next
  case (c_wait ask t ignore u cb)
  note D = track_okD [OF c_wait.prems(2)]
  from client_pass_waits [OF c_wait.prems(1) D(1,2) c_wait.hyps(3)] show ?case
    using track_ok_same_marks [OF c_wait.prems(2)] by (simp add: same_marks_def)
next
  case (c_give_up t)
  note D = track_okD [OF c_give_up(2)]
  have "length (tkWritten t) \<le> front_of (tkS t) + mFrameCount (tkS t)" using D(2) by (simp add: positions_ok_def)
  then have "track_ok (t\<lparr>tkC := (tkC t)\<lparr>mUnreleased := 0\<rparr>, tkCb := tkCb t, tkHeldC := no_buffer\<rparr>)"
    using track_ok_client [OF c_give_up(2), where b = no_buffer and cb = "tkCb t"] by (simp add: no_buffer_def holds_def)
  then show ?case by simp
next
  case (c_store i t x)
  then show ?case by (intro track_ok_store)
next
  case (c_release n t b c cb)
  then show ?case by (intro track_ok_write)
next
  case (c_resize r t got c cb)
  note D = track_okD [OF c_resize.prems(2)]
  have "mFrameCount (tkC t) \<le> 2 ^ 29" using D(9) by (auto elim: ring_okE)
  then have "unat (word_of_nat (mFrameCount (tkC t)) :: u32) = mFrameCount (tkC t)"
    by (simp add: unsigned_of_nat take_bit_nat_eq_self_iff)
  then have "cb = (tkCb t)\<lparr>cbBufferSize := cpBufferSize c\<rparr>" "c = (tkC t)\<lparr>cpBufferSize := cpBufferSize c\<rparr>" "unat (cpBufferSize c) \<le> mFrameCount (tkC t)"
    using c_resize.hyps by (auto simp: setBufferSizeInFrames_def Let_def word_less_nat_alt)
  then obtain x where x: "cb = (tkCb t)\<lparr>cbBufferSize := x\<rparr>" "c = (tkC t)\<lparr>cpBufferSize := x\<rparr>" "unat x \<le> mFrameCount (tkC t)" by metis
  have "proxies_ok c (tkS t)" using D(1) x(2,3) by (auto simp: proxies_ok_def same_ring_def client_ready_def ring_ok_def)
  moreover have "holds (tkHeldC t) (length (tkWritten t)) c" using D(4) x(2) by (simp add: holds_def)
  ultimately show ?case using D(2,3,5-8) x(1,2) by (simp add: track_ok_def Let_def positions_ok_def marks_ok_def)
next
  case (s_obtain ask t st b s cb)
  then show ?case by (intro track_ok_obtain)
next
  case (s_ack t ask st b s cb)
  note D = track_okD [OF s_ack.prems(2)]
  show ?case using server_obtains [OF s_ack.prems(1) D(1-3) _ s_ack.hyps(2)]
    by (auto intro!: track_ok_acknowledge [OF s_ack.prems(2) s_ack.hyps(1)] elim: marks_ok_mono)
next
  case (s_flush t s cb)
  note D = track_okD [OF s_flush.prems(2)]
  have "(tkS t)\<lparr>mAvailToClient := mAvailToClient (tkS t)\<rparr> = tkS t" by simp
  then show ?case using flushed_positions [OF s_flush.prems(1) D(1-3) _ s_flush.hyps(2)]
    track_ok_acknowledge [OF s_flush.prems(2) s_flush.hyps(1), where av = "mAvailToClient (tkS t)"] by auto
next
  case (s_release n t b s cb)
  then show ?case by (intro track_ok_play)
next
  case (s_start t)
  then show ?case
    by (intro track_ok_same_server [where z = "mStop (tkCb t)" and x = "mUnderrunCount (tkS t)" and y = "mUnderrunning (tkS t)"]) (simp_all add: server_start_def)
next
  case (s_ready t n s)
  from framesReady_spec [OF s_ready.prems s_ready.hyps] show ?case using s_ready.prems(2) by simp
next
  case (s_tally n t s cb)
  then have "track_ok (t\<lparr>tkS := s\<rparr>)"
    by (intro track_ok_same_server [where z = "mStopLast (tkS t)" and x = "mUnderrunCount s" and y = "mUnderrunning s"])
      (auto simp: tallyUnderrunFrames_def Let_def split: if_splits)
  from track_ok_same_marks [OF this, of cb] show ?case
    using s_tally.hyps by (auto simp: tallyUnderrunFrames_def Let_def same_marks_def split: if_splits)
qed (auto intro!: track_ok_marks track_ok_same_marks simp: setMinimum_def interrupt_def proxy_binderDied_def set_flag_and_wake_def Let_def stream_end_pass_def setStreamEndDone_def
    same_marks_def wake_futex_def)

section \<open>The queue\<close>

text \<open>
  What a track promises: a queue of at most so many frames, its content and what has been played. The
  client appends, the server takes frames from the head, and a flush drops frames from the head.
\<close>

inductive frame_queue :: "nat \<times> 'f list \<times> 'f list \<Rightarrow> nat \<times> 'f list \<times> 'f list \<Rightarrow> bool" where
  fq_write: "length (q @ xs) \<le> n \<Longrightarrow> frame_queue (n, q, p) (n, q @ xs, p)"
| fq_play: "frame_queue (n, xs @ q, p) (n, q, p @ xs)"
| fq_drop: "frame_queue (n, xs @ q, p) (n, q, p)"

definition queue_of :: "'f track \<Rightarrow> nat \<times> 'f list \<times> 'f list" where
  "queue_of t = (mFrameCount (tkS t), drop (front_of (tkS t)) (tkWritten t), tkPlayed t)"

lemma drop_split:
  assumes "F \<le> F'"
  shows "drop F xs = take (F' - F) (drop F xs) @ drop F' xs"
proof -
  have "drop F' xs = drop (F' - F) (drop F xs)" using assms by simp
  then show ?thesis by (simp only: append_take_drop_id)
qed

lemma queue_dropped:
  assumes "track_ok t" "advanced (front_of (tkS t)) F ((tkS t)\<lparr>mAvailToClient := av, mUnreleased := k\<rparr>, cb) (s, cb')"
    "mFrameCount (tkS u) = mFrameCount s" "front_of (tkS u) = front_of s" "tkWritten u = tkWritten t" "tkPlayed u = tkPlayed t"
  shows "frame_queue (queue_of t) (queue_of u)"
proof -
  have "front_of (tkS t) \<le> F" "front_of s = F" "mFrameCount s = mFrameCount (tkS t)"
    using assms(2) track_okD(1) [OF assms(1)] by (auto simp: advanced_def front_of_def proxies_ok_def)
  then show ?thesis using assms(3-6) drop_split [of "front_of (tkS t)" F "tkWritten t"]
    fq_drop [of "mFrameCount (tkS t)" "take (F - front_of (tkS t)) (drop (front_of (tkS t)) (tkWritten t))" "drop F (tkWritten t)" "tkPlayed t"]
    by (simp add: queue_of_def)
qed

lemma track_step_queue:
  assumes "track_step sub t u" "wraps sub" "track_ok t"
  shows "queue_of t = queue_of u \<or> frame_queue (queue_of t) (queue_of u)"
  using assms
proof (induction rule: track_step.induct)
  case (c_release n t b c cb)
  let ?new = "frames (tkRing t) (first_frame (tkHeldC t) c) n"
  note D = track_okD [OF c_release.prems(2)]
  have "front_of (tkS t) \<le> length (tkWritten t)" "length (tkWritten t) + n \<le> front_of (tkS t) + mFrameCount (tkS t)"
    using D(2,4) c_release.hyps(1) by (auto simp: positions_ok_def holds_def)
  then show ?case using fq_write [of "drop (front_of (tkS t)) (tkWritten t)" ?new "mFrameCount (tkS t)" "tkPlayed t"]
    by (simp add: queue_of_def)
next
  case (s_obtain ask t st b s cb)
  note D = track_okD [OF s_obtain.prems(2)]
  obtain F av where "advanced (front_of (tkS t)) F ((tkS t)\<lparr>mAvailToClient := av, mUnreleased := bfFrameCount b\<rparr>, tkCb t) (s, cb)"
    using server_obtains [OF s_obtain.prems(1) D(1-3) _ s_obtain.hyps] by auto
  from queue_dropped [OF s_obtain.prems(2) this, of "t\<lparr>tkS := s, tkCb := cb, tkHeldS := b\<rparr>"] show ?case by simp
next
  case (s_ack t ask st b s cb)
  note D = track_okD [OF s_ack.prems(2)]
  obtain F av where "advanced (front_of (tkS t)) F ((tkS t)\<lparr>mAvailToClient := av, mUnreleased := mUnreleased (tkS t)\<rparr>, tkCb t) (s, cb)"
    using server_obtains [OF s_ack.prems(1) D(1-3) _ s_ack.hyps(2)] by auto
  from queue_dropped [OF s_ack.prems(2) this, of "t\<lparr>tkS := s, tkCb := cb\<rparr>"] show ?case by simp
next
  case (s_flush t s cb)
  note D = track_okD [OF s_flush.prems(2)]
  obtain F where "advanced (front_of (tkS t)) F ((tkS t)\<lparr>mAvailToClient := mAvailToClient (tkS t), mUnreleased := mUnreleased (tkS t)\<rparr>, tkCb t) (s, cb)"
    using flushed_positions [OF s_flush.prems(1) D(1-3) _ s_flush.hyps(2)] by auto
  from queue_dropped [OF s_flush.prems(2) this, of "t\<lparr>tkS := s, tkCb := cb\<rparr>"] show ?case by simp
next
  case (s_release n t b s cb)
  let ?F = "front_of (tkS t)"
  note played = track_ok_play(2,3) [OF s_release.prems(2) s_release.hyps]
  have "mFrameCount s = mFrameCount (tkS t)" using s_release.hyps(2) by (auto simp: server_releaseBuffer_def Let_def split: if_splits)
  then show ?case using played drop_split [of ?F "?F + n" "tkWritten t"]
      fq_play [of "mFrameCount (tkS t)" "take n (drop ?F (tkWritten t))" "drop (?F + n) (tkWritten t)" "tkPlayed t"]
    by (simp add: queue_of_def)
next
  case (s_ready t n s)
  from framesReady_spec [OF s_ready.prems s_ready.hyps] show ?case by simp
qed (auto simp: queue_of_def front_of_def server_start_def tallyUnderrunFrames_def Let_def split: if_splits)

definition fresh_track :: "'f track \<Rightarrow> bool" where
  "fresh_track t \<longleftrightarrow> (\<exists>frameCount frameSize e ring. 0 < frameCount \<and> frameCount \<le> 2 ^ e \<and> e \<le> 29 \<and> 0 < frameSize \<and> t = new_track frameCount frameSize (2 ^ e) ring)"

interpretation streaming: simulated_system fresh_track "\<lambda>t u. track_step sub t u \<and> wraps sub" track_ok queue_of frame_queue for sub
  by unfold_locales (auto simp: fresh_track_def intro: new_track_ok track_step_ok dest: track_step_queue)

end
