(* ===== verification/Track_Play.thy ===== *)
theory Track_Play
  imports Track_Queue
begin

unbundle bit_operations_syntax

text \<open>
  What a streaming track promises: what is played is what was written, in order; a flush discards,
  a stop holds back; and what happens if a flush is acknowledged while a buffer is still out.
\<close>

section \<open>A run\<close>

definition now_obtain :: "nat \<Rightarrow> 'f track \<Rightarrow> 'f track" where
  "now_obtain ask t = (case client_pass (-) True ask (tkC t) (tkCb t) of (Inl (st, b, c), cb) \<Rightarrow> t\<lparr>tkC := c, tkCb := cb, tkHeldC := b\<rparr> | (Inr _, cb) \<Rightarrow> t)"

definition now_store :: "nat \<Rightarrow> 'f \<Rightarrow> 'f track \<Rightarrow> 'f track" where
  "now_store i x t = t\<lparr>tkRing := (tkRing t)(first_frame (tkHeldC t) (tkC t) + i := x)\<rparr>"

definition now_release :: "nat \<Rightarrow> 'f track \<Rightarrow> 'f track" where
  "now_release n t = (case client_releaseBuffer ((tkHeldC t)\<lparr>bfFrameCount := n\<rparr>) (tkC t, tkCb t) of
     None \<Rightarrow> t
   | Some (b, c, cb) \<Rightarrow> t\<lparr>tkC := c, tkCb := cb, tkHeldC := rest_of n (tkHeldC t) c, tkWritten := tkWritten t @ frames (tkRing t) (first_frame (tkHeldC t) c) n\<rparr>)"

definition now_take :: "nat \<Rightarrow> 'f track \<Rightarrow> 'f track" where
  "now_take ask t = (case server_obtainBuffer (-) ask False (tkS t, tkCb t) of None \<Rightarrow> t | Some (st, b, s, cb) \<Rightarrow> t\<lparr>tkS := s, tkCb := cb, tkHeldS := b\<rparr>)"

definition now_play :: "nat \<Rightarrow> 'f track \<Rightarrow> 'f track" where
  "now_play n t = (case server_releaseBuffer ((tkHeldS t)\<lparr>bfFrameCount := n\<rparr>) (tkS t, tkCb t) of
     None \<Rightarrow> t
   | Some (b, s, cb) \<Rightarrow> t\<lparr>tkS := s, tkCb := cb, tkHeldS := rest_of n (tkHeldS t) s, tkPlayed := tkPlayed t @ frames (tkRing t) (first_frame (tkHeldS t) s) n\<rparr>)"

lemma now_step:
  "0 < ask \<Longrightarrow> \<not> mIsShutdown (tkC t) \<Longrightarrow> (track_step (-))\<^sup>=\<^sup>= t (now_obtain ask t)"
  "i < bfFrameCount (tkHeldC t) \<Longrightarrow> (track_step (-))\<^sup>=\<^sup>= t (now_store i x t)"
  "n \<le> bfFrameCount (tkHeldC t) \<Longrightarrow> (track_step (-))\<^sup>=\<^sup>= t (now_release n t)"
  "(track_step (-))\<^sup>=\<^sup>= t (now_take ask t)"
  "n \<le> bfFrameCount (tkHeldS t) \<Longrightarrow> (track_step (-))\<^sup>=\<^sup>= t (now_play n t)"
  by (auto simp: now_obtain_def now_store_def now_release_def now_take_def now_play_def
      split: prod.split sum.split option.split intro: track_step.intros)

lemma maybe_step: "R\<^sup>=\<^sup>= a b \<Longrightarrow> R\<^sup>*\<^sup>* a b"
  by auto

lemmas now_steps = now_step [THEN maybe_step]

definition demo_track :: "nat track" where
  "demo_track = new_track 4 2 (2 ^ 2) (\<lambda>_. 0)"

text \<open>The client writes 7 and 8, the server takes and plays one frame.\<close>

definition demo_written :: "nat track" where
  "demo_written = now_release 2 (now_store 1 8 (now_store 0 7 (now_obtain 3 demo_track)))"

definition demo_played :: "nat track" where
  "demo_played = now_play 1 (now_take 1 demo_written)"

lemma demo_written_reachable: "(track_step (-))\<^sup>*\<^sup>* (new_track 4 2 (2 ^ 2) (\<lambda>_. 0)) demo_written"
proof -
  let ?a = "now_obtain 3 demo_track" and ?b = "now_store 0 7 (now_obtain 3 demo_track)"
  have "(track_step (-))\<^sup>*\<^sup>* demo_track ?a" by (rule now_steps(1)) code_simp+
  also have "(track_step (-))\<^sup>*\<^sup>* ?a ?b" by (rule now_steps(2)) code_simp
  also have "(track_step (-))\<^sup>*\<^sup>* ?b (now_store 1 8 ?b)" by (rule now_steps(2)) code_simp
  also have "(track_step (-))\<^sup>*\<^sup>* (now_store 1 8 ?b) demo_written" unfolding demo_written_def by (rule now_steps(3)) code_simp
  finally show ?thesis unfolding demo_track_def .
qed

lemma demo_played_reachable: "(track_step (-))\<^sup>*\<^sup>* (new_track 4 2 (2 ^ 2) (\<lambda>_. 0)) demo_played"
proof -
  have "(track_step (-))\<^sup>*\<^sup>* demo_written (now_take 1 demo_written)" by (rule now_steps(4))
  also have "(track_step (-))\<^sup>*\<^sup>* (now_take 1 demo_written) demo_played" unfolding demo_played_def by (rule now_steps(5)) code_simp
  finally show ?thesis using demo_written_reachable by (rule rtranclp_trans [rotated])
qed

lemma demo_state: "tkPlayed demo_played = [7]" "tkWritten demo_played = [7, 8]" "queue_of demo_played = (4, [8], [7])" "mFlushed (tkS demo_played) = 0"
  by code_simp+

lemma wraps_minus: "wraps (-)"
  by (simp add: wraps_def)

section \<open>A queue of frames\<close>

lemma track_runs:
  assumes "0 < frameCount" "frameCount \<le> 2 ^ e" "e \<le> 29" "0 < frameSize" "wraps sub"
    and "(track_step sub)\<^sup>*\<^sup>* (new_track frameCount frameSize (2 ^ e) ring) t"
  shows "fresh_track (new_track frameCount frameSize (2 ^ e) ring)"
    "(\<lambda>t u. track_step sub t u \<and> wraps sub)\<^sup>*\<^sup>* (new_track frameCount frameSize (2 ^ e) ring) t" "track_ok t"
proof -
  show f: "fresh_track (new_track frameCount frameSize (2 ^ e) ring)" using assms(1-4) by (auto simp: fresh_track_def)
  show r: "(\<lambda>t u. track_step sub t u \<and> wraps sub)\<^sup>*\<^sup>* (new_track frameCount frameSize (2 ^ e) ring) t"
    using assms(5,6) by simp
  show "track_ok t" by (rule streaming.reachable_inv [OF f r])
qed





section \<open>Flushing\<close>

lemma server_obtain_total: "0 < ask \<Longrightarrow> \<exists>st b s cb'. server_obtainBuffer sub ask ackFlush (p, cb) = Some (st, b, s, cb')"
  by (auto simp: server_obtainBuffer_def Let_def split: prod.splits)

lemma marks_ok_flushed:
  assumes "track_ok t"
  shows "marks_ok (length (tkWritten t)) (length (tkWritten t)) (tkS t) (track_flush (tkC t) (tkCb t))"
proof -
  note D = track_okD [OF assms]
  have "marks (next_mark m (mRear (tkCb t)) (tkC t)) (length (tkWritten t)) (tkS t)" for m
    using next_mark_marks [OF D(9), of m "length (tkWritten t)"] D(1,2)
    by (simp add: marks_def low_mask_def overflow_bit_def proxies_ok_def same_ring_def positions_ok_def)
  then show ?thesis unfolding marks_ok_def
    by (intro exI [of _ "length (tkWritten t)"]) (simp add: track_flush_def sendStreamingFlushStop_def)
qed

lemma obtain_after_flush:
  assumes sub: "wraps sub" and ok: "track_ok t" and fresh: "cbFlush (tkCb t) = svFlush (tkS t)" and ask: "0 < ask"
  shows "\<exists>b s cb av. server_obtainBuffer sub ask ackFlush (tkS t, track_flush (tkC t) (tkCb t)) = Some (WOULD_BLOCK, b, s, cb)
    \<and> bfFrameCount b = 0 \<and> mFront cb = word_of_nat (length (tkWritten t)) \<and> mRear cb = word_of_nat (length (tkWritten t)) \<and> cbFlush cb = svFlush s
    \<and> marks_ok (length (tkWritten t)) (length (tkWritten t)) s cb
    \<and> s = (tkS t)\<lparr>mAvailToClient := av, mUnreleased := if ackFlush then mUnreleased (tkS t) else 0, svFlush := svFlush s,
           mFlushed := mFlushed (tkS t) + int (length (tkWritten t) - front_of (tkS t))\<rparr>"
proof -
  let ?cb = "track_flush (tkC t) (tkCb t)" and ?R = "length (tkWritten t)"
  note D = track_okD [OF ok]
  have new: "cbFlush ?cb \<noteq> svFlush (tkS t)"
    using next_mark_new [OF D(9)] fresh by (simp add: track_flush_def sendStreamingFlushStop_def)
  have pos: "positions_ok (front_of (tkS t)) ?R (tkC t) (tkS t) ?cb"
    using D(2) by (simp add: positions_ok_def track_flush_def sendStreamingFlushStop_def)
  then have "front_of (tkS t) \<le> ?R" by (simp add: positions_ok_def)
  moreover obtain st b s cb where call: "server_obtainBuffer sub ask ackFlush (tkS t, ?cb) = Some (st, b, s, cb)"
    using server_obtain_total [OF ask] by blast
  ultimately obtain F av where F: "advanced (front_of (tkS t)) F ((tkS t)\<lparr>mAvailToClient := av, mUnreleased := if ackFlush then mUnreleased (tkS t) else bfFrameCount b\<rparr>, ?cb) (s, cb)"
    "F + bfFrameCount b \<le> ?R" "?R \<le> F" "marks_ok (F + bfFrameCount b) ?R s cb" "st = (if 0 < bfFrameCount b then TS_OK else WOULD_BLOCK)"
    using server_obtains [OF sub D(1) pos marks_ok_flushed [OF ok] _ call] new by blast
  then have "F = ?R" "bfFrameCount b = 0" "st = WOULD_BLOCK" by simp_all
  with F(1,4) call pos show ?thesis
    by (intro exI conjI) (auto simp: advanced_def positions_ok_def)
qed

text \<open>
  C25: a flush discards what has not been played. In a run in which no earlier flush is outstanding,
  the next call of the server after a flush of the client finds nothing to play: both positions
  are at the end of what the client has written, the server counts what it has dropped, and the
  whole ring is free for the client.
\<close>

theorem flush_discards:
  assumes "0 < frameCount" "frameCount \<le> 2 ^ e" "e \<le> 29" "0 < frameSize" "wraps sub"
    and "(track_step sub)\<^sup>*\<^sup>* (new_track frameCount frameSize (2 ^ e) ring) t"
    and "cbFlush (tkCb t) = svFlush (tkS t)" "0 < ask"
  shows "\<exists>b s cb. server_obtainBuffer sub ask ackFlush (tkS t, track_flush (tkC t) (tkCb t)) = Some (WOULD_BLOCK, b, s, cb)
    \<and> bfFrameCount b = 0 \<and> mFront cb = mRear cb \<and> mRear cb = mRear (tkCb t) \<and> cbFlush cb = svFlush s
    \<and> mReleased s + mFlushed s = int (length (tkWritten t)) \<and> mReleased s = int (length (tkPlayed t)) \<and> \<not> mIsShutdown s"
proof -
  have ok: "track_ok t" by (rule track_runs(3) [OF assms(1-6)])
  note D = track_okD [OF ok]
  have "front_of (tkS t) \<le> length (tkWritten t)" "mRear (tkCb t) = word_of_nat (length (tkWritten t))" using D(2) by (auto simp: positions_ok_def)
  moreover have "int (front_of (tkS t)) = mReleased (tkS t) + mFlushed (tkS t)" using D(1) by (simp add: front_of_def proxies_ok_def)
  moreover obtain b s cb av where call: "server_obtainBuffer sub ask ackFlush (tkS t, track_flush (tkC t) (tkCb t)) = Some (WOULD_BLOCK, b, s, cb)"
    and b: "bfFrameCount b = 0" "mFront cb = word_of_nat (length (tkWritten t))" "mRear cb = word_of_nat (length (tkWritten t))" "cbFlush cb = svFlush s"
    and s: "s = (tkS t)\<lparr>mAvailToClient := av, mUnreleased := if ackFlush then mUnreleased (tkS t) else 0, svFlush := svFlush s,
           mFlushed := mFlushed (tkS t) + int (length (tkWritten t) - front_of (tkS t))\<rparr>"
    using obtain_after_flush [OF assms(5) ok assms(7,8)] by blast
  moreover have "mReleased s = mReleased (tkS t)" "mIsShutdown s = mIsShutdown (tkS t)"
    "mFlushed s = mFlushed (tkS t) + int (length (tkWritten t) - front_of (tkS t))" by (subst s, simp)+
  ultimately show ?thesis using D(1,7) by (intro exI conjI) (auto simp: proxies_ok_def)
qed

theorem flush_discards_witness:
  "\<exists>b s cb. server_obtainBuffer (-) 4 False (tkS demo_played, track_flush (tkC demo_played) (tkCb demo_played)) = Some (WOULD_BLOCK, b, s, cb)
    \<and> mReleased s + mFlushed s = 2 \<and> mReleased s = 1"
proof -
  have "0 < (4 :: nat)" "(4 :: nat) \<le> 2 ^ 2" "(2 :: nat) \<le> 29" "0 < (2 :: nat)" by simp_all
  moreover have "cbFlush (tkCb demo_played) = svFlush (tkS demo_played)" by code_simp
  ultimately have "\<exists>b s cb. server_obtainBuffer (-) 4 False (tkS demo_played, track_flush (tkC demo_played) (tkCb demo_played)) = Some (WOULD_BLOCK, b, s, cb)
    \<and> mReleased s + mFlushed s = int (length (tkWritten demo_played)) \<and> mReleased s = int (length (tkPlayed demo_played))"
    using flush_discards [OF _ _ _ _ wraps_minus demo_played_reachable, of 4 False] by blast
  then show ?thesis by (simp only: demo_state) simp
qed

section \<open>A flush is acknowledged while the server holds a buffer\<close>

lemma sint_behind:
  assumes "0 < n" "n < 2 ^ 31"
  shows "sint (word_of_nat R - word_of_nat (R + n) :: u32) = - int n"
proof -
  have "word_of_nat R - word_of_nat (R + n) = (word_of_int (- int n) :: u32)" by simp
  moreover have "sint (word_of_int (- int n) :: u32) = - int n" using assms by (simp only: signed_of_int) (simp add: signed_take_bit_int_eq_self)
  ultimately show ?thesis by (simp only:)
qed

lemma getRear_behind:
  assumes ring: "ring_ok p" and sub: "wraps sub" and front: "mFront cb = word_of_nat (R + n)" "0 < n" "n \<le> mFrameCount p" and rear: "mRear cb = word_of_nat R"
    and stop: "mStop cb \<noteq> mStopLast p \<Longrightarrow> marks (mStop cb) R p"
  shows "getRear sub p cb = word_of_nat R"
proof (cases "mStop cb = mStopLast p")
  case True
  then show ?thesis using rear by (simp add: getRear_def)
next
  case False
  obtain e M where e: "e \<le> 29" "mFrameCountP2 p = 2 ^ e" "M = 2 ^ Suc e" "M + mFrameCount p < 2 ^ 31" using ring by (rule ring_block)
  have "(mRear cb AND NOT (low_mask p)) OR (mStop cb AND low_mask p) = word_of_nat (R - R mod 2 ^ Suc e + R mod 2 ^ Suc e)"
    unfolding rear by (rule marked_position [OF e(1,2) stop [OF False]])
  then have "(mRear cb AND NOT (low_mask p)) OR (mStop cb AND low_mask p) = word_of_nat R" by (simp only: le_add_diff_inverse2 mod_less_eq_dividend)
  moreover have "sint (sub (word_of_nat R) (mFront cb)) = - int n"
    using sint_behind [of n R] front e(4) sub by (simp add: wraps_def)
  ultimately show ?thesis using rear front(2) by (simp add: getRear_def Let_def filled_ok_def)
qed

text \<open>
  C36: acknowledging a flush under an outstanding buffer breaks the track. If the server still holds
  frames when a flush is acknowledged with \<open>ackFlush\<close>, which keeps them releasable on purpose, releasing
  them moves the front past the rear; the next call of the server takes the control block for
  corrupt and shuts the proxy down for good.
\<close>

theorem release_after_acknowledged_flush_shuts_down:
  assumes "0 < frameCount" "frameCount \<le> 2 ^ e" "e \<le> 29" "0 < frameSize" "wraps sub"
    and "(track_step sub)\<^sup>*\<^sup>* (new_track frameCount frameSize (2 ^ e) ring) t"
    and "cbFlush (tkCb t) = svFlush (tkS t)" "0 < bfFrameCount (tkHeldS t)" "0 < ask"
  shows "\<exists>st b s cb b' s' cb' s'' cb''. server_obtainBuffer sub 1 True (tkS t, track_flush (tkC t) (tkCb t)) = Some (st, b, s, cb)
    \<and> server_releaseBuffer (tkHeldS t) (s, cb) = Some (b', s', cb')
    \<and> server_obtainBuffer sub ask False (s', cb') = Some (TS_NO_INIT, no_buffer, s'', cb'') \<and> mIsShutdown s''"
proof -
  let ?R = "length (tkWritten t)" and ?n = "bfFrameCount (tkHeldS t)"
  have ok: "track_ok t" by (rule track_runs(3) [OF assms(1-6)])
  note D = track_okD [OF ok]
  obtain b s cb av where call: "server_obtainBuffer sub 1 True (tkS t, track_flush (tkC t) (tkCb t)) = Some (WOULD_BLOCK, b, s, cb)"
    and cb: "mFront cb = word_of_nat ?R" "mRear cb = word_of_nat ?R" "cbFlush cb = svFlush s" "marks_ok ?R ?R s cb"
    and s: "s = (tkS t)\<lparr>mAvailToClient := av, mUnreleased := mUnreleased (tkS t), svFlush := svFlush s,
           mFlushed := mFlushed (tkS t) + int (?R - front_of (tkS t))\<rparr>"
    using obtain_after_flush [OF assms(5) ok assms(7), of 1 True] by auto
  have n: "mUnreleased (tkS t) = ?n" "?n \<le> mFrameCount (tkS t)" using D(2,5) by (auto simp: holds_def positions_ok_def)
  have S: "mUnreleased s = ?n" "mFrameCount s = mFrameCount (tkS t)" "mIsOut s" "\<not> mIsShutdown s" "ring_ok s"
    using D(1,10) n by (subst s, simp add: proxies_ok_def ring_ok_def)+
  obtain b' s' cb' where rel: "server_releaseBuffer (tkHeldS t) (s, cb) = Some (b', s', cb')" and s': "s' = s\<lparr>mUnreleased := 0, mReleased := mReleased s + int ?n\<rparr>"
    and cb': "mFront cb' = word_of_nat (?R + ?n)" "mRear cb' = word_of_nat ?R" "cbFlush cb' = cbFlush cb" "mStop cb' = mStop cb"
    using S n assms(8) cb(1,2) by (auto simp: server_releaseBuffer_def Let_def wake_futex_def)
  have S': "ring_ok s'" "mIsOut s'" "\<not> mIsShutdown s'" "svFlush s' = svFlush s" "mFrameCount s' = mFrameCount (tkS t)" "mStopLast s' = mStopLast s"
    using S s' by (simp_all add: ring_ok_def)
  have "marks (mStop cb') ?R s'" if "mStop cb' \<noteq> mStopLast s'"
    using cb(4) cb'(4) S'(6) that s' by (auto simp: marks_ok_def marks_def low_mask_def overflow_bit_def)
  then have "getRear sub s' cb' = word_of_nat ?R"
    using getRear_behind [OF S'(1) assms(5) cb'(1) assms(8) _ cb'(2)] n(2) S'(5) by simp
  moreover have "\<not> filled_ok (sint (sub (word_of_nat ?R) (mFront cb'))) s'"
  proof -
    obtain e' M where "M + mFrameCount (tkS t) < 2 ^ 31" using D(10) by (rule ring_block)
    then have "sint (sub (word_of_nat ?R) (mFront cb')) = - int ?n"
      using sint_behind [OF assms(8), of ?R] n(2) cb'(1) assms(5) by (simp add: wraps_def)
    then show ?thesis using assms(8) by (simp add: filled_ok_def)
  qed
  ultimately have "\<exists>s''. server_obtainBuffer sub ask False (s', cb') = Some (TS_NO_INIT, no_buffer, s'', cb') \<and> mIsShutdown s''"
    using S' cb'(3) cb(3) assms(9)
    by (simp add: server_obtainBuffer_def flushBufferIfNeeded_def server_chunk_corrupt no_frames_def)
  then show ?thesis using call rel by blast
qed

text \<open>The server holds one frame when the flush is acknowledged.\<close>

definition demo_taken :: "nat track" where
  "demo_taken = now_take 1 demo_written"

lemma demo_taken_reachable: "(track_step (-))\<^sup>*\<^sup>* (new_track 4 2 (2 ^ 2) (\<lambda>_. 0)) demo_taken"
  unfolding demo_taken_def using demo_written_reachable now_steps(4) by (rule rtranclp_trans)

theorem release_after_acknowledged_flush_shuts_down_witness:
  "\<exists>st b s cb b' s' cb' s'' cb''. server_obtainBuffer (-) 1 True (tkS demo_taken, track_flush (tkC demo_taken) (tkCb demo_taken)) = Some (st, b, s, cb)
    \<and> server_releaseBuffer (tkHeldS demo_taken) (s, cb) = Some (b', s', cb')
    \<and> server_obtainBuffer (-) 1 False (s', cb') = Some (TS_NO_INIT, no_buffer, s'', cb'') \<and> mIsShutdown s''"
proof (rule release_after_acknowledged_flush_shuts_down [OF _ _ _ _ wraps_minus demo_taken_reachable])
  show "cbFlush (tkCb demo_taken) = svFlush (tkS demo_taken)" by code_simp
  show "0 < bfFrameCount (tkHeldS demo_taken)" by code_simp
qed simp_all

section \<open>Stopping\<close>

lemma marks_unique:
  assumes "ring_ok p" "marks mark a p" "marks mark b p" "a \<le> b + mFrameCount p" "b \<le> a + mFrameCount p"
  shows "a = b"
proof -
  obtain e M where e: "e \<le> 29" "mFrameCountP2 p = 2 ^ e" "M = 2 ^ Suc e" "mFrameCount p < M" using assms(1) by (rule ring_block)
  have "unat (word_of_nat a AND mask (Suc e) :: u32) = unat (word_of_nat b AND mask (Suc e) :: u32)"
    using assms(2,3) low_mask_mask [OF e(1,2)] by (simp add: marks_def)
  then have "a mod M = b mod M" using e(1,3) by (simp only: unat_low_bits)
  then show ?thesis using mod_apart [of a b M] mod_apart [of b a M] assms(4,5) e(4) by (cases a b rule: linorder_cases) auto
qed

text \<open>What a step moves: only forward, and the rear no further than the ring allows.\<close>

lemma advanced_moves:
  assumes "advanced (front_of s) F (s\<lparr>mAvailToClient := av, mUnreleased := k\<rparr>, cb) (s', cb')" "0 \<le> mReleased s" "0 \<le> mFlushed s"
  shows "front_of s \<le> front_of s' \<and> same_ring s s'"
  using assms by (auto simp: advanced_def front_of_def same_ring_def)

lemma track_step_server_moves:
  assumes "track_step sub t u" "wraps sub" "track_ok t"
  shows "front_of (tkS t) \<le> front_of (tkS u) \<and> same_ring (tkS t) (tkS u)"
  using assms
proof (induction rule: track_step.induct)
  case (s_obtain ask t st b s cb)
  note D = track_okD [OF s_obtain.prems(2)]
  have "0 \<le> mReleased (tkS t)" "0 \<le> mFlushed (tkS t)" using D(1) by (simp_all add: proxies_ok_def)
  then show ?case using server_obtains [OF s_obtain.prems(1) D(1-3) _ s_obtain.hyps] by (auto dest: advanced_moves)
next
  case (s_ack t ask st b s cb)
  note D = track_okD [OF s_ack.prems(2)]
  obtain F av where "advanced (front_of (tkS t)) F ((tkS t)\<lparr>mAvailToClient := av, mUnreleased := mUnreleased (tkS t)\<rparr>, tkCb t) (s, cb)"
    using server_obtains [OF s_ack.prems(1) D(1-3) _ s_ack.hyps(2)] by auto
  from advanced_moves [OF this] show ?case using D(1) by (simp add: proxies_ok_def)
next
  case (s_flush t s cb)
  note D = track_okD [OF s_flush.prems(2)]
  obtain F where "advanced (front_of (tkS t)) F ((tkS t)\<lparr>mAvailToClient := mAvailToClient (tkS t), mUnreleased := mUnreleased (tkS t)\<rparr>, tkCb t) (s, cb)"
    using flushed_positions [OF s_flush.prems(1) D(1-3) _ s_flush.hyps(2)] by auto
  from advanced_moves [OF this] show ?case using D(1) by (simp add: proxies_ok_def)
next
  case (s_release n t b s cb)
  then show ?case using track_ok_play(3) [OF s_release.prems(2) s_release.hyps]
    by (auto simp: server_releaseBuffer_def Let_def same_ring_def split: if_splits)
next
  case (s_ready t n s)
  from framesReady_spec [OF s_ready.prems s_ready.hyps] show ?case by simp
qed (auto simp: server_start_def tallyUnderrunFrames_def Let_def front_of_def same_ring_def split: if_splits)

lemma track_step_rear_moves:
  assumes "track_step sub t u" "track_ok t"
  shows "length (tkWritten t) \<le> length (tkWritten u) \<and> length (tkWritten u) \<le> front_of (tkS t) + mFrameCount (tkS t)"
proof -
  have "length (tkWritten t) + bfFrameCount (tkHeldC t) \<le> front_of (tkS t) + mFrameCount (tkS t)"
    using track_okD(2,4) [OF assms(2)] by (auto simp: positions_ok_def holds_def)
  moreover have "length (tkWritten t) \<le> length (tkWritten u) \<and> length (tkWritten u) \<le> length (tkWritten t) + bfFrameCount (tkHeldC t)"
    using assms(1) by (induction rule: track_step.induct) auto
  ultimately show ?thesis by linarith
qed

text \<open>A step that is neither a start of the server nor a stop or flush of the client.\<close>

definition stopped_step :: "(u32 \<Rightarrow> u32 \<Rightarrow> u32) \<Rightarrow> 'f track \<Rightarrow> 'f track \<Rightarrow> bool" where
  "stopped_step sub t u \<longleftrightarrow> track_step sub t u \<and> mStop (tkCb u) = mStop (tkCb t) \<and> mStopLast (tkS u) = mStopLast (tkS t)"

definition stopped_at :: "nat \<Rightarrow> 'f track \<Rightarrow> bool" where
  "stopped_at K t \<longleftrightarrow> track_ok t \<and> mStop (tkCb t) \<noteq> mStopLast (tkS t) \<and> marks (mStop (tkCb t)) K (tkS t)
     \<and> front_of (tkS t) \<le> K \<and> K \<le> length (tkWritten t)"

lemma stopped_at_step:
  assumes "wraps sub" "stopped_at K t" "stopped_step sub t u"
  shows "stopped_at K u"
proof -
  have t: "track_ok t" "mStop (tkCb t) \<noteq> mStopLast (tkS t)" "marks (mStop (tkCb t)) K (tkS t)" "front_of (tkS t) \<le> K" "K \<le> length (tkWritten t)"
    and step: "track_step sub t u" and stop: "mStop (tkCb u) = mStop (tkCb t)" "mStopLast (tkS u) = mStopLast (tkS t)"
    using assms(2,3) by (auto simp: stopped_at_def stopped_step_def)
  have u: "track_ok u" by (rule track_step_ok [OF step assms(1) t(1)])
  have F: "front_of (tkS t) \<le> front_of (tkS u)" "same_ring (tkS t) (tkS u)" using track_step_server_moves [OF step assms(1) t(1)] by simp_all
  have R: "length (tkWritten t) \<le> length (tkWritten u)" "length (tkWritten u) \<le> front_of (tkS t) + mFrameCount (tkS t)"
    using track_step_rear_moves [OF step t(1)] by simp_all
  obtain St where St: "marks (mStop (tkCb u)) St (tkS u)" "front_of (tkS u) \<le> St" "St \<le> length (tkWritten u)"
    using marks_ok_mono [OF track_okD(3) [OF u], of "front_of (tkS u)"] t(2) stop by (auto simp: marks_ok_def)
  have K: "marks (mStop (tkCb u)) K (tkS u)"
    using t(3) stop(1) F(2) by (simp add: marks_def low_mask_def overflow_bit_def same_ring_def)
  have "K = St" by (rule marks_unique [OF track_okD(10) [OF u] K St(1)]) (use F R St t(4,5) in \<open>auto simp: same_ring_def\<close>)
  then show ?thesis using u t(2,5) stop K St R(1) by (simp add: stopped_at_def)
qed

lemma stopped_at_steps:
  assumes "wraps sub" "(stopped_step sub)\<^sup>*\<^sup>* t u" "stopped_at K t"
  shows "stopped_at K u"
  using assms(2,3) by (induction rule: rtranclp_induct) (auto intro: stopped_at_step [OF assms(1)])

text \<open>
  C21: a stop holds the server back. After a stop of the client, whatever both sides do until the
  server starts again or the client stops or flushes again, and however much the client writes
  meanwhile, the server does not go past what was written when the client stopped.
\<close>

theorem stop_limits_server:
  assumes "0 < frameCount" "frameCount \<le> 2 ^ e" "e \<le> 29" "0 < frameSize" "wraps sub"
    and "(track_step sub)\<^sup>*\<^sup>* (new_track frameCount frameSize (2 ^ e) ring) t"
    and "mStop (tkCb t) = mStopLast (tkS t)"
    and "(stopped_step sub)\<^sup>*\<^sup>* (t\<lparr>tkCb := track_stop (tkC t) (tkCb t)\<rparr>) u"
  shows "mReleased (tkS u) + mFlushed (tkS u) \<le> int (length (tkWritten t)) \<and> length (tkPlayed u) \<le> length (tkWritten t)"
proof -
  let ?s = "t\<lparr>tkCb := track_stop (tkC t) (tkCb t)\<rparr>" and ?R = "length (tkWritten t)"
  have ok: "track_ok t" by (rule track_runs(3) [OF assms(1-6)])
  note D = track_okD [OF ok]
  have "marks (next_mark (mStop (tkCb t)) (mRear (tkCb t)) (tkC t)) ?R (tkS t)"
    using next_mark_marks [OF D(9), of _ ?R] D(1,2) by (simp add: marks_def low_mask_def overflow_bit_def proxies_ok_def same_ring_def positions_ok_def)
  moreover have "next_mark (mStop (tkCb t)) (mRear (tkCb t)) (tkC t) \<noteq> mStopLast (tkS t)" using next_mark_new [OF D(9)] assms(7) by metis
  moreover have "front_of (tkS t) \<le> ?R" using D(2) by (simp add: positions_ok_def)
  ultimately have "stopped_at ?R ?s"
    using track_ok_marks(2) [OF ok] by (simp add: stopped_at_def track_stop_def sendStreamingFlushStop_def)
  then have "stopped_at ?R u" by (rule stopped_at_steps [OF assms(5,8)])
  then have "track_ok u" "front_of (tkS u) \<le> ?R" by (simp_all add: stopped_at_def)
  then show ?thesis using track_okD(1,7) [of u] by (auto simp: front_of_def proxies_ok_def)
qed

text \<open>The client stops after two frames and writes a third; the server asks for four and plays what it gets.\<close>

definition demo_stop :: "nat track" where
  "demo_stop = demo_written\<lparr>tkCb := track_stop (tkC demo_written) (tkCb demo_written)\<rparr>"

definition demo_more :: "nat track" where
  "demo_more = now_take 4 (now_release 1 demo_stop)"

lemma now_stopped:
  assumes "(track_step (-))\<^sup>=\<^sup>= t u" "mStop (tkCb u) = mStop (tkCb t)" "mStopLast (tkS u) = mStopLast (tkS t)"
  shows "(stopped_step (-))\<^sup>*\<^sup>* t u"
  using assms by (auto simp: stopped_step_def)

lemma demo_more_reachable: "(stopped_step (-))\<^sup>*\<^sup>* demo_stop (now_play 2 demo_more)"
proof -
  have "(stopped_step (-))\<^sup>*\<^sup>* demo_stop (now_release 1 demo_stop)" by (intro now_stopped now_step(3)) code_simp+
  also have "(stopped_step (-))\<^sup>*\<^sup>* (now_release 1 demo_stop) demo_more" unfolding demo_more_def by (intro now_stopped now_step(4)) code_simp+
  also have "(stopped_step (-))\<^sup>*\<^sup>* demo_more (now_play 2 demo_more)" by (intro now_stopped now_step(5)) code_simp+
  finally show ?thesis .
qed

theorem stop_limits_server_witness:
  "length (tkWritten (now_play 2 demo_more)) = 3 \<and> tkPlayed (now_play 2 demo_more) = [7, 8] \<and> length (tkPlayed (now_play 2 demo_more)) \<le> length (tkWritten demo_written)"
proof -
  have "0 < (4 :: nat)" "(4 :: nat) \<le> 2 ^ 2" "(2 :: nat) \<le> 29" "0 < (2 :: nat)" by simp_all
  moreover have "mStop (tkCb demo_written) = mStopLast (tkS demo_written)" by code_simp
  ultimately have "length (tkPlayed (now_play 2 demo_more)) \<le> length (tkWritten demo_written)"
    using stop_limits_server [OF _ _ _ _ wraps_minus demo_written_reachable _ demo_more_reachable [unfolded demo_stop_def]] by blast
  moreover have "length (tkWritten (now_play 2 demo_more)) = 3 \<and> tkPlayed (now_play 2 demo_more) = [7, 8]" by code_simp
  ultimately show ?thesis by blast
qed

end
