(* ===== verification/Track_Waits.thy ===== *)
theory Track_Waits
  imports Track_Proxy
begin

unbundle bit_operations_syntax

text \<open>
  How long the calls of the client wait: \<open>obtainBuffer\<close> gives up in time, unless the time is short, and
  \<open>waitStreamEndDone\<close> never does.
\<close>

section \<open>Time\<close>

definition ns :: "timespec \<Rightarrow> int" where
  "ns t = tv_sec t * 1000000000 + tv_nsec t"

definition normal :: "timespec \<Rightarrow> bool" where
  "normal t \<longleftrightarrow> 0 \<le> tv_nsec t \<and> tv_nsec t < 1000000000"

lemma add_elapsed_ns:
  assumes "normal spent" "normal before" "normal after"
  shows "ns (add_elapsed spent before after) = ns spent + (ns after - ns before)" "normal (add_elapsed spent before after)"
  using assms by (auto simp: add_elapsed_def Let_def ns_def normal_def)

lemma next_wait_measured:
  assumes "normal requested" "normal spent" "timeout \<in> {TIMEOUT_FINITE, TIMEOUT_CONTINUE}"
  shows "next_wait True timeout requested spent =
    (if ns requested \<le> ns spent then Inl TIMED_OUT else Inr (TIMEOUT_CONTINUE, Some (time_left requested spent)))"
proof -
  have "tv_sec requested < tv_sec spent \<or> tv_sec requested = tv_sec spent \<and> tv_nsec requested \<le> tv_nsec spent \<longleftrightarrow> ns requested \<le> ns spent"
    using assms(1,2) by (auto simp: ns_def normal_def)
  then show ?thesis using assms(3) by (auto simp: next_wait_def)
qed

text \<open>What is left is two seconds too much whenever the subtraction borrows: \<open>tv_sec\<close> goes up instead of down.\<close>

lemma time_left_overshoots:
  assumes "normal requested" "normal spent" "ns spent < ns requested" "tv_sec requested - tv_sec spent < MAX_SEC"
  shows "ns (time_left requested spent) = ns requested - ns spent + (if tv_nsec requested < tv_nsec spent then 2000000000 else 0)"
  using assms by (auto simp: time_left_def Let_def ns_def normal_def MAX_SEC_def)

section \<open>Obtaining in time\<close>

text \<open>Others leave the wake flag alone, and the clock is well-formed.\<close>

definition quiet_wait :: "wait_event \<Rightarrow> bool" where
  "quiet_wait e \<longleftrightarrow> normal (weBefore e) \<and> normal (weAfter e)
     \<and> (\<forall>cb. mFutex cb AND CBLK_FUTEX_WAKE = 0 \<longrightarrow> mFutex (weOthers e cb) AND CBLK_FUTEX_WAKE = 0)"

fun last_clock :: "timespec \<Rightarrow> wait_event list \<Rightarrow> timespec" where
  "last_clock start [] = start"
| "last_clock start (e # events) = last_clock (weAfter e) events"

lemma client_pass_futex: "client_pass sub ignore ask c cb = (r, cb') \<Longrightarrow> mFutex cb' = mFutex cb"
  by (auto simp: client_pass_def Let_def split: if_splits)

lemma futex_wait_quiet:
  assumes "mFutex cb AND CBLK_FUTEX_WAKE = 0" "quiet_wait e"
  shows "futex_wait True e spent before cb = (weOthers e (cb\<lparr>mFutex := mFutex cb AND NOT CBLK_FUTEX_WAKE\<rparr>),
      add_elapsed spent (case before of None \<Rightarrow> weBefore e | Some b \<Rightarrow> b) (weAfter e), Some (weAfter e),
      if benign_errno (weErrno e) then None else Some (weErrno e))"
    "mFutex (weOthers e (cb\<lparr>mFutex := mFutex cb AND NOT CBLK_FUTEX_WAKE\<rparr>)) AND CBLK_FUTEX_WAKE = 0"
proof -
  have "(mFutex cb AND NOT CBLK_FUTEX_WAKE) AND CBLK_FUTEX_WAKE = 0" by (simp add: and.assoc)
  then show "mFutex (weOthers e (cb\<lparr>mFutex := mFutex cb AND NOT CBLK_FUTEX_WAKE\<rparr>)) AND CBLK_FUTEX_WAKE = 0"
    using assms(2) by (simp add: quiet_wait_def)
qed (use assms(1) in \<open>simp add: futex_wait_def Let_def\<close>)

lemma obtain_loop_in_time:
  assumes "normal requested" "\<forall>e \<in> set events. quiet_wait e" "normal spent" "normal start" "before = Some start \<or> before = None \<and> (events \<noteq> [] \<longrightarrow> weBefore (hd events) = start)"
    and "timeout \<in> {TIMEOUT_FINITE, TIMEOUT_CONTINUE}" "mFutex cb AND CBLK_FUTEX_WAKE = 0"
    and "ns requested \<le> ns spent + (ns (last_clock start events) - ns start)"
  shows "\<exists>r. obtain_loop sub True requested ask timeout ignore spent before events c cb = Returned r"
  using assms(2-)
proof (induction events arbitrary: timeout ignore spent before start cb)
  case Nil
  then show ?case using next_wait_measured [OF assms(1)]
    by (subst obtain_loop.simps) (auto split: prod.split sum.split)
next
  case (Cons e events)
  obtain r cb1 where pass: "client_pass sub ignore ask c cb = (r, cb1)" by fastforce
  have futex: "mFutex cb1 AND CBLK_FUTEX_WAKE = 0" using client_pass_futex [OF pass] Cons.prems(6) by simp
  have e: "quiet_wait e" "normal (weAfter e)" and quiet: "\<forall>e \<in> set events. quiet_wait e" using Cons.prems(1) by (auto simp: quiet_wait_def)
  have start: "(case before of None \<Rightarrow> weBefore e | Some b \<Rightarrow> b) = start" using Cons.prems(4) by auto
  let ?spent = "add_elapsed spent start (weAfter e)"
  have spent: "normal ?spent" "ns ?spent = ns spent + (ns (weAfter e) - ns start)"
    using add_elapsed_ns [OF Cons.prems(2,3) e(2)] by simp_all
  have "\<exists>r. obtain_loop sub True requested ask TIMEOUT_CONTINUE False ?spent (Some (weAfter e)) events c
      (weOthers e (cb1\<lparr>mFutex := mFutex cb1 AND NOT CBLK_FUTEX_WAKE\<rparr>)) = Returned r"
    using Cons.prems(7) spent(2) futex_wait_quiet(2) [OF futex e(1)] by (intro Cons.IH [OF quiet spent(1) e(2)]) simp_all
  then show ?case using futex_wait_quiet(1) [OF futex e(1)] next_wait_measured [OF assms(1) Cons.prems(2,5)]
    by (subst obtain_loop.simps) (auto simp: pass start split: sum.split prod.split)
qed


text \<open>A shorter request does not wait at all, unless the caller asks for the time that has passed.\<close>

lemma short_request_never_waits:
  assumes "client_pass sub True ask c cb = (Inr (), cb')" "tv_sec requested = 0" "0 < tv_nsec requested" "tv_nsec requested < MEASURE_NS" "0 < ask" "\<not> mIsShutdown c"
  shows "client_obtainBuffer sub ask (Some requested) False [] c cb = Returned (TIMED_OUT, no_buffer, \<lparr>tv_sec = 0, tv_nsec = 0\<rparr>, c\<lparr>mUnreleased := 0\<rparr>, cb')"
  using assms by (simp add: client_obtainBuffer_def Let_def timeout_of_def measures_def obtain_loop.simps next_wait_def INT_MAX_def)

section \<open>Waiting for the end of the stream\<close>

definition end_flags :: u32 where
  "end_flags = CBLK_INVALID OR CBLK_STREAM_END_DONE OR CBLK_DISABLED OR CBLK_INTERRUPT"

text \<open>Nothing happens: none of the flags that end the wait is ever set, and the futex reports nothing but wake-ups and timeouts.\<close>

definition nothing_happens :: "wait_event \<Rightarrow> bool" where
  "nothing_happens e \<longleftrightarrow> benign_errno (weErrno e) \<and> (\<forall>cb. mFlags cb AND end_flags = 0 \<longrightarrow> mFlags (weOthers e cb) AND end_flags = 0)"

lemma stream_end_pass_quiet:
  assumes "mFlags cb AND end_flags = 0"
  shows "\<exists>cb'. stream_end_pass cb = (None, cb') \<and> mFlags cb' AND end_flags = 0"
proof -
  have parts: "end_flags AND CBLK_INVALID = CBLK_INVALID" "end_flags AND (CBLK_STREAM_END_DONE OR CBLK_DISABLED) = CBLK_STREAM_END_DONE OR CBLK_DISABLED"
    "end_flags AND CBLK_INTERRUPT = CBLK_INTERRUPT"
    by (simp_all add: end_flags_def CBLK_INVALID_def CBLK_STREAM_END_DONE_def CBLK_DISABLED_def CBLK_INTERRUPT_def)
  have "mFlags cb AND flag = 0" if "end_flags AND flag = flag" for flag
  proof -
    have "mFlags cb AND flag = (mFlags cb AND end_flags) AND flag" using that by (simp add: and.assoc)
    then show ?thesis using assms by simp
  qed
  moreover have "(mFlags cb AND NOT (CBLK_INTERRUPT OR CBLK_STREAM_END_DONE)) AND end_flags = (mFlags cb AND end_flags) AND NOT (CBLK_INTERRUPT OR CBLK_STREAM_END_DONE)"
    by (simp add: ac_simps)
  ultimately show ?thesis using parts assms by (simp add: stream_end_pass_def)
qed

lemma stream_end_loop_waits:
  assumes "0 < tv_sec requested \<or> tv_sec requested = 0 \<and> 0 < tv_nsec requested" "timeout \<in> {TIMEOUT_FINITE, TIMEOUT_CONTINUE}"
    and "\<forall>e \<in> set events. nothing_happens e" "mFlags cb AND end_flags = 0"
  shows "stream_end_loop requested timeout \<lparr>tv_sec = 0, tv_nsec = 0\<rparr> events cb = Waiting"
  using assms(2-)
proof (induction events arbitrary: timeout cb)
  case Nil
  then obtain cb' where "stream_end_pass cb = (None, cb')" using stream_end_pass_quiet by blast
  then show ?case using Nil.prems(1) assms(1) by (subst stream_end_loop.simps) (auto simp: next_wait_def)
next
  case (Cons e events)
  obtain cb1 where pass: "stream_end_pass cb = (None, cb1)" "mFlags cb1 AND end_flags = 0" using stream_end_pass_quiet Cons.prems(3) by blast
  have wait: "next_wait True timeout requested \<lparr>tv_sec = 0, tv_nsec = 0\<rparr> = Inr (TIMEOUT_CONTINUE, Some (time_left requested \<lparr>tv_sec = 0, tv_nsec = 0\<rparr>))"
    using Cons.prems(1) assms(1) by (auto simp: next_wait_def)
  define cb2 where "cb2 = weOthers e (cb1\<lparr>mFutex := mFutex cb1 AND NOT CBLK_FUTEX_WAKE\<rparr>)"
  have futex: "futex_wait False e \<lparr>tv_sec = 0, tv_nsec = 0\<rparr> None cb1 = (cb2, \<lparr>tv_sec = 0, tv_nsec = 0\<rparr>, None, None)" "mFlags cb2 AND end_flags = 0"
    using Cons.prems(2) pass(2) by (simp_all add: futex_wait_def Let_def nothing_happens_def cb2_def)
  have "stream_end_loop requested TIMEOUT_CONTINUE \<lparr>tv_sec = 0, tv_nsec = 0\<rparr> events cb2 = Waiting"
    using Cons.prems(2) futex(2) by (intro Cons.IH) simp_all
  then show ?case using pass(1) wait futex(1) by (subst stream_end_loop.simps) simp
qed

text \<open>
  C35: \<open>waitStreamEndDone\<close> never times out. The time that it has spent is never counted, so with a
  finite timeout, however long its waits have taken together, it waits again until the stream
  ends, the track is invalidated or the call is interrupted.
\<close>

theorem stream_end_wait_never_times_out:
  assumes "0 < tv_sec requested \<or> tv_sec requested = 0 \<and> 0 < tv_nsec requested" "tv_sec requested \<noteq> INT_MAX"
    and "mFlags cb AND end_flags = 0" "\<forall>e \<in> set events. nothing_happens e"
  shows "waitStreamEndDone (Some requested) events cb = Waiting"
proof -
  have "timeout_of (Some requested) = TIMEOUT_FINITE" using assms(1,2) by (auto simp: timeout_of_def)
  then show ?thesis using stream_end_loop_waits [OF assms(1) _ assms(4,3)] by (simp add: waitStreamEndDone_def Let_def)
qed

text \<open>A timeout of one second, and waits of ten minutes that end with \<open>ETIMEDOUT\<close>.\<close>

definition demo_wait :: "nat \<Rightarrow> wait_event" where
  "demo_wait i = \<lparr>weOthers = (\<lambda>cb. cb), weErrno = 110, weBefore = \<lparr>tv_sec = 600 * int i, tv_nsec = 0\<rparr>, weAfter = \<lparr>tv_sec = 600 * int (Suc i), tv_nsec = 0\<rparr>\<rparr>"

theorem stream_end_wait_never_times_out_witness:
  "waitStreamEndDone (Some \<lparr>tv_sec = 1, tv_nsec = 0\<rparr>) (map demo_wait [0..<6]) new_cblk = Waiting"
  by (rule stream_end_wait_never_times_out)
    (auto simp: INT_MAX_def new_cblk_def nothing_happens_def demo_wait_def benign_errno_def)


end
