(* ===== verification/Spec2Isabelle.thy ===== *)
theory Spec2Isabelle
  imports Resource_Manager Media_Recorder Media_Player Fifo_Buffer Nal_Units Message_Items Sample_Search Camera_Eviction
    Pool_Flush Cached_Stalls Track_Play Track_Waits
begin

text \<open>
  A verification library for the native media framework of Android (\<open>frameworks/av\<close>).

  \<^bold>\<open>The program.\<close> The repository holds the media server processes and the libraries that
  applications use to reach them. An application records or plays through a client object
  (\<open>MediaRecorder\<close>, \<open>MediaPlayer\<close>), which keeps a state of its own and calls a remote object in a
  server. Codecs are scarce, so the servers register what their clients hold with the media
  resource manager, which takes codecs away from clients of lower priority. Inside a process the
  parts of the framework talk by messages: handlers are registered in a roster, loopers deliver
  messages at their time, a sender may wait for a reply. Files are opened by extractors, which
  read the tables of a container to find a sample; streams of compressed video are cut into
  units, and their headers are read bit by bit. Audio passes between client and server through
  a ring in shared memory. Buffers of codecs come from a pool in one process and travel between
  processes by reference; cameras are given to one client at a time by priority. Content from the
  network is read through a cache that fetches ahead.

  \<^bold>\<open>The theories\<close>, with the code under \<open>src/\<close> that they model:

  \<^item> \<open>Media_Prelude\<close>: machine types, \<open>status_t\<close>, signed wrap-around, memory regions, the sorted
    key-value vector of the platform, and the interfaces that the components share:
    \<open>keyed_container\<close> (lookup after insert and edit), \<open>invariant_system\<close> (operations under an
    invariant) and \<open>simulated_system\<close> (a component with an abstract view).
  \<^item> \<open>Resource_Manager\<close>: \<open>services/mediaresourcemanager/ResourceManagerService.cpp\<close> and
    \<open>libmedia/MediaResource.cpp\<close>. The state is the map from processes to clients to resources;
    \<open>config\<close>, \<open>addResource\<close>, \<open>removeResource\<close>, \<open>binderDied\<close> and \<open>reclaimResource\<close> are its operations.
    Shown: reclaiming never hits a client of equal or higher priority, the choice of the process
    of lowest priority and of its biggest client is exact, the map and the CPU boost counts keep
    their invariants over every run, and a refused reclaim leaks a boost.
  \<^item> \<open>Media_Recorder\<close>, \<open>Media_Player\<close>: \<open>libmedia/mediarecorder.cpp\<close> and \<open>libmedia/mediaplayer.cpp\<close>,
    every method. The states are those of the code, the remote object and the service are
    parameters; \<open>prepare\<close>, which waits, is split at the wait. Shown: both refine the published
    state diagrams, flags and states agree, \<open>reset\<close> leaves the error state, at most one seek is
    under way and the latest request wins; and where calls are stranded: a refused seek, a reset
    during \<open>prepare\<close>.
  \<^item> \<open>Fifo_Buffer\<close>: \<open>libaaudio/src/fifo\<close>. Counters, regions and copies of the ring at byte level, in
    32 bit arithmetic. Shown: the reader gets the stream that the writer wrote.
  \<^item> \<open>Bit_Reader\<close>, \<open>Avc_Headers\<close>, \<open>Nal_Units\<close>: \<open>foundation/ABitReader.cpp\<close> and \<open>foundation/avc_utils.cpp\<close>.
    A reader is refined to the list of bits that are left (with the emulation prevention bytes
    removed for \<open>NALBitReader\<close>); the parsers take the operations of a reader as an argument, are
    proved on lists of bits and transferred to \<open>ABitReader\<close> by refinement. Shown: \<open>getBits\<close> is exact, picture sizes are
    recovered from encoded parameter sets, parsing with a fallback is total, the search for NAL
    units agrees with a reference, streams are cut into the units they were made of, and the
    codec specific data of a stream is what the standard says.
  \<^item> \<open>Message_Looper\<close>, \<open>Message_Items\<close>: \<open>foundation/ALooper.cpp\<close>, \<open>ALooperRoster.cpp\<close>, \<open>AHandler.cpp\<close> and
    \<open>AMessage.cpp\<close>. The looper is a machine whose steps are calls of other threads and rounds of its
    own thread. Shown: messages are delivered in the order of their times and ties in the order of
    posting, the looper does not oversleep, a reply is never lost, handler ids are unique, setters
    and finders of a message obey the laws of a typed map, messages survive a parcel; and what
    malformed parcels, null references and floating point differences do.
  \<^item> \<open>Sample_Table\<close>, \<open>Sample_Seek\<close>, \<open>Sample_Search\<close>: \<open>extractors/mp4/SampleTable.cpp\<close> and
    \<open>SampleIterator.cpp\<close>. The first has the box readers, the iterator with its cached positions, the
    table of composition times and the searches. The reference expands the run-length tables.
    Shown: on a consistent track, metadata after any sequence of queries is what the expanded
    tables say; searches by time and for sync samples find what they promise; the tables never
    exceed 200 MiB; and what a seek into a last chunk that is not full returns.
  \<^item> \<open>Camera_Clients\<close>, \<open>Camera_Eviction\<close>: \<open>libcameraservice/utils/ClientManager.h\<close> and the functions of
    \<open>CameraService.cpp\<close> that use it. The state is the list of active clients in the order of their
    last use; what other threads do while the service lock is released is an argument. Shown: who
    is evicted and who is turned away, active clients never conflict, a connection whose evictions
    were awaited is admitted; and two defects, a read past the evicted list and a return without
    the lock.
  \<^item> \<open>Buffer_Pool\<close>, \<open>Pool_Ownership\<close>, \<open>Pool_Protocol\<close>, \<open>Pool_Flush\<close>: \<open>media/bufferpool/2.0/AccessorImpl.cpp\<close> with
    \<open>BufferStatus.cpp\<close>. The pool follows who owns and transfers its buffers by messages that it does
    not check; which of them it has to believe is the predicate \<open>credible\<close>. Shown: its counts and
    statistics are right over every run with credible messages, a recycled buffer has no other
    user, the arrival order of the messages of a transfer does not matter, an invalidation is
    announced when its last buffer has gone; and that a client can claim a free buffer.
  \<^item> \<open>Cached_Source\<close>, \<open>Cached_Window\<close>, \<open>Cached_Reads\<close>, \<open>Cached_Progress\<close>, \<open>Cached_Stalls\<close>:
    \<open>libstagefright/NuCachedSource2.cpp\<close>. Operations are cut where the lock is released, so that the
    looper, a reader, \<open>disconnect\<close> and \<open>resumeFetchingIfNecessary\<close> interleave as threads do; a record
    of the reads that have returned is part of the state. Shown: the window always holds the bytes
    of the source, reads are exact, no check fails, and a read is answered if the source serves;
    and two configurations in which a read never returns.
  \<^item> \<open>Track_Proxy\<close>, \<open>Track_Stream\<close>, \<open>Track_Queue\<close>, \<open>Track_Play\<close>, \<open>Track_Waits\<close>: \<open>libaudioclient/AudioTrackShared.cpp\<close>
    with its header. The control block has 32 bit positions that wrap; a pass of the loop of the
    client and a call of the server are steps, what happens during a wait is an argument. Shown:
    a streaming track is a bounded queue of frames, for rings of up to \<open>2 ^ 29\<close> frames; a flush discards and a stop
    holds back; regions lie in the ring whatever the other side writes; \<open>obtainBuffer\<close> gives up in time;
    and where it goes wrong: a wait without end, and a release after an acknowledged flush.

  \<^bold>\<open>Conventions.\<close> A method is a function from the state to the new state and its result; a
  failed \<open>CHECK\<close>, an access outside an array or a trapped overflow is \<open>None\<close>, an error code a value of
  \<open>status\<close>. Code outside the repository (binder, the kernel, the data source, \<open>qsort\<close>, \<open>Parcel\<close>) is
  an argument; what a theorem needs of it is a named hypothesis, such as \<open>qsort_ok\<close>. Loops are
  structural or have a termination proof by a measure. Two loops have fuel, because the operation
  they call is an argument: the zero count of the Exp-Golomb parsers, with one more than the bits
  that are left, and the loop of \<open>getBitsGraceful\<close>, with one more than the bits asked for and the bytes left;
  the exactness theorems of \<open>Bit_Reader\<close> and \<open>Avc_Headers\<close> show that this is enough.
  Properties carry their number in the text before them; a closed witness follows where a
  property has hypotheses.

  \<^bold>\<open>Interfaces.\<close> \<open>invariant_system\<close> is interpreted on the resource manager (twice, for its map and
  for its counts), the recorder, the looper, the reply protocol, the messages, the queries of a
  track, the loading of its tables and the camera clients, and twice on the buffer pool and on the cached source; \<open>simulated_system\<close> on the player and its diagram and on a streaming track and its queue;
  \<open>keyed_container\<close> on the key-value vector; \<open>byte_window\<close> on the page cache; \<open>stream_fifo\<close> on the ring; \<open>bit_source\<close> on both bit readers
  and \<open>reader_refines_list\<close> on the operations the parsers use; \<open>parcel_fifo\<close> on the list of values
  that a parcel holds.

  \<^bold>\<open>Not modelled.\<close> Vendored codecs and effects, whose subject is signal processing; the audio server,
  the devices of the camera server, the player service, DRM, MTP and network sessions, which are mostly calls of
  services and drivers outside the repository; logging and statistics. Locks appear as the
  atomicity of steps: an operation that holds a mutex throughout is one step. Memory that is
  leaked is not tracked. Next on the plan: the box walk of \<open>MPEG4Extractor\<close>, base64,
  \<open>MediaBufferGroup\<close>, \<open>MediaClock\<close>, the clients of the buffer pool, and the static tracks of \<open>AudioTrackShared\<close>.
\<close>

end
